(* ===== verification/Prelude.thy ===== *)
theory Prelude
  imports Main "HOL-Library.Word" "HOL-Library.Sublist"
begin

text \<open>
  Shared vocabulary of the development: the machine integer types of the C sources, the view of a
  C string as a list of characters, and the generic facts on lists, options and words that several
  components use.

  A C string is a \<^typ>\<open>string\<close>; a pointer into it is the remaining suffix, and \<open>peek\<close> is the
  character the pointer designates, the terminating NUL when the suffix is empty.  A byte buffer
  (the contents of a file, a digest) is a list of 8-bit words.  C's \<^verbatim>\<open>size_t\<close>, \<^verbatim>\<open>uint64_t\<close> and
  \<^verbatim>\<open>uint32_t\<close> are words of their width; C's \<^verbatim>\<open>int\<close> is \<^typ>\<open>int\<close>, since its overflow is
  undefined in C and every model that uses it states the range it relies on.
\<close>

unbundle bit_operations_syntax

section \<open>Machine types\<close>

type_synonym u8 = "8 word"
type_synonym u32 = "32 word"
type_synonym u64 = "64 word"
type_synonym bytes = "8 word list"

abbreviation INT_MAX :: int where "INT_MAX \<equiv> 2147483647"
abbreviation INT_MIN :: int where "INT_MIN \<equiv> - 2147483648"
abbreviation LONG_MAX :: int where "LONG_MAX \<equiv> 9223372036854775807"
abbreviation LONG_MIN :: int where "LONG_MIN \<equiv> - 9223372036854775808"
abbreviation UINT32_MAX :: nat where "UINT32_MAX \<equiv> 4294967295"
abbreviation UINT64_MAX :: u64 where "UINT64_MAX \<equiv> 18446744073709551615"

section \<open>Proof collections\<close>

named_theorems bound_intros \<open>bounds on machine words read as numbers\<close>
named_theorems frame_simps \<open>fields an operation leaves unchanged\<close>

section \<open>C strings\<close>

abbreviation NUL :: char where "NUL \<equiv> CHR 0x00"

definition peek :: "string \<Rightarrow> char" where
  "peek s = (case s of [] \<Rightarrow> NUL | c # _ \<Rightarrow> c)"

definition cstr :: "string \<Rightarrow> string" where
  "cstr s = takeWhile (\<lambda>c. c \<noteq> NUL) s"

lemma peek_simps [simp]: "peek [] = NUL" "peek (c # s) = c"
  by (simp_all add: peek_def)

lemma cstr_simps [simp]: "cstr [] = []" "cstr (c # s) = (if c = NUL then [] else c # cstr s)"
  by (simp_all add: cstr_def)

lemma cstr_idem [simp]: "cstr (cstr s) = cstr s"
  by (induction s) auto

lemma NUL_notin_cstr [simp]: "NUL \<notin> set (cstr s)"
  by (auto simp: cstr_def dest: set_takeWhileD)

lemma cstr_id: "NUL \<notin> set s \<Longrightarrow> cstr s = s"
  by (induction s) auto

lemma length_cstr: "length (cstr s) \<le> length s"
  by (simp add: cstr_def length_takeWhile_le)

lemma peek_neq_NUL: "peek s \<noteq> NUL \<Longrightarrow> s = peek s # tl s"
  by (cases s) auto

text \<open>The bytes of a string and the string of some bytes; both are inverse to one another.\<close>

definition bytes_of :: "string \<Rightarrow> bytes" where
  "bytes_of s = map (\<lambda>c. word_of_nat (of_char c)) s"

definition string_of_bytes :: "bytes \<Rightarrow> string" where
  "string_of_bytes b = map (\<lambda>w. char_of (unat w)) b"

lemma length_bytes_of [simp]: "length (bytes_of s) = length s"
  by (simp add: bytes_of_def)

lemma length_string_of_bytes [simp]: "length (string_of_bytes b) = length b"
  by (simp add: string_of_bytes_def)

lemma bytes_of_append [simp]: "bytes_of (s @ t) = bytes_of s @ bytes_of t"
  by (simp add: bytes_of_def)

lemma of_char_bound [bound_intros]: "of_char c < (256 :: nat)"
  by (metis mod_less_divisor of_char_mod_256 zero_less_numeral)

lemma unat_byte_of_char: "unat (word_of_nat (of_char c) :: u8) = of_char c"
  using of_char_bound [of c] by (simp add: unat_of_nat)

lemma string_of_bytes_of [simp]: "string_of_bytes (bytes_of s) = s"
  by (induction s) (simp_all add: string_of_bytes_def bytes_of_def unat_byte_of_char)

lemma bytes_of_string_of [simp]: "bytes_of (string_of_bytes b) = b"
proof (induction b)
  case (Cons w b)
  have "unat w < 256" using unsigned_less [of w, where ?'a = nat] by simp
  with Cons show ?case by (simp add: string_of_bytes_def bytes_of_def of_char_of)
qed (simp add: string_of_bytes_def bytes_of_def)

lemma bytes_of_inj: "bytes_of s = bytes_of t \<longleftrightarrow> s = t"
  by (metis string_of_bytes_of)

lemma bytes_of_take: "bytes_of (take n s) = take n (bytes_of s)"
  by (simp add: bytes_of_def take_map)

section \<open>Words read as numbers\<close>

lemma unat_sub_le: "(b :: 'a::len word) \<le> a \<Longrightarrow> unat (a - b) = unat a - unat b"
  by (simp add: unat_sub word_le_nat_alt)

lemma unat_add_no_wrap:
  "unat (a :: 'a::len word) + unat b < 2 ^ LENGTH('a) \<Longrightarrow> unat (a + b) = unat a + unat b"
  by (simp add: unat_word_ariths)

lemma unat_mult_no_wrap:
  "unat (a :: 'a::len word) * unat b < 2 ^ LENGTH('a) \<Longrightarrow> unat (a * b) = unat a * unat b"
  by (simp add: unat_word_ariths)

lemma unat_pow2: "k < LENGTH('a) \<Longrightarrow> unat (2 ^ k :: 'a::len word) = 2 ^ k"
proof -
  assume k: "k < LENGTH('a)"
  have "(2 ^ k :: 'a word) = word_of_nat (2 ^ k)" by simp
  then have "unat (2 ^ k :: 'a word) = 2 ^ k mod 2 ^ LENGTH('a)" by (simp only: unat_of_nat)
  with k show ?thesis by simp
qed

lemma unat_u64_less [bound_intros]: "unat (w :: u64) < 2 ^ 64"
  using unsigned_less [of w, where ?'a = nat] by simp

lemma unat_u32_less [bound_intros]: "unat (w :: u32) < 2 ^ 32"
  using unsigned_less [of w, where ?'a = nat] by simp

lemma unat_u8_less [bound_intros]: "unat (w :: u8) < 256"
  using unsigned_less [of w, where ?'a = nat] by simp

section \<open>Lists\<close>

lemma sum_list_update:
  fixes xs :: "nat list"
  assumes "i < length xs"
  shows "sum_list (xs[i := v]) + xs ! i = sum_list xs + v"
  using assms by (induction xs arbitrary: i) (auto split: nat.splits)

lemma nth_list_update_if:
  "i < length xs \<Longrightarrow> xs[i := v] ! j = (if i = j then v else xs ! j)"
  by (simp add: nth_list_update)

lemma filter_zip_take_Suc:
  "n < length xs \<Longrightarrow> filter P (take (Suc n) xs) = filter P (take n xs) @ (if P (xs ! n) then [xs ! n] else [])"
  by (simp add: take_Suc_conv_app_nth)

lemma in_set_map_filter: "y \<in> set (List.map_filter f xs) \<longleftrightarrow> (\<exists>x \<in> set xs. f x = Some y)"
  by (induction xs) (auto simp: map_filter_simps split: option.splits)

end
