(* ===== verification/CLib.thy ===== *)
theory CLib
  imports Prelude
begin

text \<open>
  The part of the C library the modelled sources use: the character classes of the "C" locale,
  the \<^verbatim>\<open>strto*\<close> number parsers in base ten, \<^verbatim>\<open>strstr\<close> and \<^verbatim>\<open>strncasecmp\<close>, the conversion of
  an integer to a double and the \<^verbatim>\<open>printf\<close> conversions \<^verbatim>\<open>%d\<close> and \<^verbatim>\<open>%.nf\<close>.  A returned end
  pointer is the suffix it points to; \<^verbatim>\<open>errno\<close> is a flag of the result.
\<close>

section \<open>Character classes\<close>

definition isdigit :: "char \<Rightarrow> bool" where
  "isdigit c \<longleftrightarrow> 48 \<le> (of_char c :: nat) \<and> of_char c \<le> (57 :: nat)"

definition isspace :: "char \<Rightarrow> bool" where
  "isspace c \<longleftrightarrow> of_char c = (32 :: nat) \<or> (9 \<le> (of_char c :: nat) \<and> of_char c \<le> (13 :: nat))"

definition isupper :: "char \<Rightarrow> bool" where
  "isupper c \<longleftrightarrow> 65 \<le> (of_char c :: nat) \<and> of_char c \<le> (90 :: nat)"

definition isxdigit :: "char \<Rightarrow> bool" where
  "isxdigit c \<longleftrightarrow> isdigit c \<or> (65 \<le> (of_char c :: nat) \<and> of_char c \<le> (70 :: nat)) \<or>
     (97 \<le> (of_char c :: nat) \<and> of_char c \<le> (102 :: nat))"

definition tolower :: "char \<Rightarrow> char" where
  "tolower c = (if isupper c then char_of ((of_char c :: nat) + 32) else c)"

lemma isspace_NUL [simp]: "\<not> isspace NUL"
  by (simp add: isspace_def)

lemma isdigit_NUL [simp]: "\<not> isdigit NUL"
  by (simp add: isdigit_def)

lemma isdigit_not_isspace: "isdigit c \<Longrightarrow> \<not> isspace c"
  by (auto simp: isdigit_def isspace_def)

lemma tolower_idem [simp]: "tolower (tolower c) = tolower c"
  by (auto simp: tolower_def isupper_def)

definition skip_space :: "string \<Rightarrow> string" where
  "skip_space s = dropWhile isspace s"

lemma skip_space_Nil [simp]: "skip_space [] = []"
  by (simp add: skip_space_def)

lemma skip_space_Cons: "skip_space (c # s) = (if isspace c then skip_space s else c # s)"
  by (simp add: skip_space_def)

lemma skip_space_idem [simp]: "skip_space (skip_space s) = skip_space s"
  by (induction s) (auto simp: skip_space_Cons)

lemma suffix_skip_space: "suffix (skip_space s) s"
  by (simp add: skip_space_def suffix_dropWhile)

lemma length_skip_space: "length (skip_space s) \<le> length s"
  by (rule suffix_length_le [OF suffix_skip_space])

section \<open>Decimal numbers\<close>

definition digit_val :: "char \<Rightarrow> nat" where
  "digit_val c = of_char c - 48"

definition dec_value :: "string \<Rightarrow> nat" where
  "dec_value s = foldl (\<lambda>v c. 10 * v + digit_val c) 0 s"

fun show_nat :: "nat \<Rightarrow> string" where
  "show_nat n = (if n < 10 then [char_of (48 + n)] else show_nat (n div 10) @ [char_of (48 + n mod 10)])"

declare show_nat.simps [simp del]

definition show_int :: "int \<Rightarrow> string" where
  "show_int i = (if i < 0 then CHR ''-'' # show_nat (nat (- i)) else show_nat (nat i))"

lemma dec_value_snoc: "dec_value (s @ [c]) = 10 * dec_value s + digit_val c"
  by (simp add: dec_value_def)

lemma digit_char: "d < 10 \<Longrightarrow> isdigit (char_of (48 + d :: nat)) \<and> digit_val (char_of (48 + d)) = d"
  by (simp add: isdigit_def digit_val_def)

lemma dec_value_show_nat [simp]: "dec_value (show_nat n) = n"
proof (induction n rule: show_nat.induct)
  case (1 n)
  show ?case
  proof (cases "n < 10")
    case True
    then show ?thesis
      by (simp add: show_nat.simps [of n] dec_value_def digit_char)
  next
    case False
    with 1 have "dec_value (show_nat (n div 10)) = n div 10" by simp
    with False show ?thesis
      by (simp add: show_nat.simps [of n] dec_value_snoc digit_char)
  qed
qed

lemma show_nat_digits: "\<forall>c \<in> set (show_nat n). isdigit c"
proof (induction n rule: show_nat.induct)
  case (1 n)
  then show ?case by (subst show_nat.simps) (auto simp: digit_char)
qed

lemma show_nat_nonempty [simp]: "show_nat n \<noteq> []"
  by (subst show_nat.simps) simp

text \<open>
  The sign and the digits \<^verbatim>\<open>strtol\<close> and \<^verbatim>\<open>strtoul\<close> consume after leading white space; with no
  digit nothing is consumed and the end pointer is the start.
\<close>

definition strto_parts :: "string \<Rightarrow> bool \<times> string \<times> string" where
  "strto_parts s = (let t = skip_space s;
       neg = (peek t = CHR ''-'');
       u = (if peek t = CHR ''-'' \<or> peek t = CHR ''+'' then tl t else t);
       ds = takeWhile isdigit u
     in if ds = [] then (False, [], s) else (neg, ds, dropWhile isdigit u))"

text \<open>Value, whether \<^verbatim>\<open>errno\<close> became \<^verbatim>\<open>ERANGE\<close>, and the end pointer.\<close>

definition strtoul :: "string \<Rightarrow> u64 \<times> bool \<times> string" where
  "strtoul s = (case strto_parts s of (neg, ds, end) \<Rightarrow>
     if dec_value ds > unat UINT64_MAX then (UINT64_MAX, True, end)
     else (if neg then - word_of_nat (dec_value ds) else word_of_nat (dec_value ds), False, end))"

definition strtol :: "string \<Rightarrow> int \<times> bool \<times> string" where
  "strtol s = (case strto_parts s of (neg, ds, end) \<Rightarrow>
     (let v = (if neg then - int (dec_value ds) else int (dec_value ds))
      in if v > LONG_MAX then (LONG_MAX, True, end)
         else if v < LONG_MIN then (LONG_MIN, True, end)
         else (v, False, end)))"

lemma takeWhile_all: "(\<forall>c \<in> set ds. P c) \<Longrightarrow> (t \<noteq> [] \<longrightarrow> \<not> P (hd t)) \<Longrightarrow>
    takeWhile P (ds @ t) = ds \<and> dropWhile P (ds @ t) = t"
  by (induction ds) (auto simp: dropWhile_eq_self_iff takeWhile_eq_Nil_iff)

lemma strto_parts_digits:
  assumes "ds \<noteq> []" and "\<forall>c \<in> set ds. isdigit c" and "\<not> isdigit (peek t)"
  shows "strto_parts (ds @ t) = (False, ds, t)"
proof -
  obtain d ds' where ds: "ds = d # ds'" using assms(1) by (cases ds) auto
  with assms(2) have d: "isdigit d" by simp
  have sk: "skip_space (ds @ t) = ds @ t"
    using d isdigit_not_isspace [OF d] by (simp add: ds skip_space_Cons)
  have pk: "peek (ds @ t) = d" by (simp add: ds)
  have nosign: "d \<noteq> CHR ''-''" "d \<noteq> CHR ''+''" using d by (auto simp: isdigit_def)
  have "takeWhile isdigit (ds @ t) = ds \<and> dropWhile isdigit (ds @ t) = t"
    using assms(2,3) by (intro takeWhile_all) (auto simp: peek_def split: list.splits)
  with assms(1) show ?thesis
    by (simp add: strto_parts_def Let_def sk pk nosign)
qed

lemma strtol_show_nat:
  "int n \<le> LONG_MAX \<Longrightarrow> \<not> isdigit (peek t) \<Longrightarrow> strtol (show_nat n @ t) = (int n, False, t)"
  by (simp add: strtol_def strto_parts_digits show_nat_digits Let_def)

lemma suffix_strto_end: "suffix (snd (snd (strto_parts s))) s"
proof -
  have tl: "suffix (tl t) t" for t :: string by (cases t) (auto simp: suffix_def)
  show ?thesis
    by (auto simp: strto_parts_def Let_def
        intro: suffix_order.trans [OF suffix_dropWhile] suffix_order.trans [OF tl] suffix_skip_space)
qed

text \<open>When digits are consumed the end pointer is strictly past the start.\<close>

lemma strto_end_less:
  assumes "fst (snd (strto_parts s)) \<noteq> []"
  shows "length (snd (snd (strto_parts s))) < length s"
proof -
  let ?u = "if peek (skip_space s) = CHR ''-'' \<or> peek (skip_space s) = CHR ''+''
            then tl (skip_space s) else skip_space s"
  have ds: "takeWhile isdigit ?u \<noteq> []"
    using assms by (auto simp: strto_parts_def Let_def split: if_splits)
  then have "length (dropWhile isdigit ?u) < length ?u"
    by (metis append_self_conv2 length_append length_greater_0_conv less_add_same_cancel2 takeWhile_dropWhile_id)
  also have "\<dots> \<le> length s" using length_skip_space [of s] by auto
  finally show ?thesis using ds by (simp add: strto_parts_def Let_def)
qed

section \<open>Searching and comparing\<close>

text \<open>\<^verbatim>\<open>strstr\<close>: the offset of the first occurrence of the needle.\<close>

fun strstr :: "string \<Rightarrow> string \<Rightarrow> nat option" where
  "strstr [] needle = (if needle = [] then Some 0 else None)"
| "strstr (c # s) needle =
     (if prefix needle (c # s) then Some 0 else map_option Suc (strstr s needle))"

lemma strstr_Some:
  "strstr s needle = Some i \<Longrightarrow> i + length needle \<le> length s \<and> prefix needle (drop i s)"
  by (induction s needle arbitrary: i rule: strstr.induct)
    (auto split: if_splits dest: prefix_length_le)

lemma strstr_first:
  "strstr s needle = Some i \<Longrightarrow> j < i \<Longrightarrow> \<not> prefix needle (drop j s)"
proof (induction s needle arbitrary: i j rule: strstr.induct)
  case (2 c s needle)
  then show ?case by (cases j) (auto split: if_splits)
qed (auto split: if_splits)

lemma strstr_None: "strstr s needle = None \<longleftrightarrow> (\<forall>j \<le> length s. \<not> prefix needle (drop j s))"
proof (induction s needle rule: strstr.induct)
  case (2 c s needle)
  have "(\<forall>j \<le> length (c # s). \<not> prefix needle (drop j (c # s))) \<longleftrightarrow>
      \<not> prefix needle (c # s) \<and> (\<forall>j \<le> length s. \<not> prefix needle (drop j s))"
    by (simp add: less_Suc_eq_le [symmetric] All_less_Suc2 del: drop.simps)
  with 2 show ?case by simp
qed simp

text \<open>\<^verbatim>\<open>strncasecmp(s, lit, strlen(lit)) == 0\<close> for a literal without NUL.\<close>

definition has_prefix_nocase :: "string \<Rightarrow> string \<Rightarrow> bool" where
  "has_prefix_nocase lit s \<longleftrightarrow> map tolower (take (length lit) s) = map tolower lit"

section \<open>Doubles and printf\<close>

text \<open>
  Conversion of an unsigned integer to a binary64 value (53 bits of significand, round to nearest,
  ties to even), and the exact decimal rounding of \<^verbatim>\<open>%.nf\<close> on a non-negative fraction.
\<close>

definition round_half_even :: "nat \<Rightarrow> nat \<Rightarrow> nat" where
  "round_half_even n d = (let q = n div d; r = n mod d in
     if 2 * r < d then q else if d < 2 * r then Suc q else if even q then q else Suc q)"

fun bit_len :: "nat \<Rightarrow> nat" where
  "bit_len n = (if n = 0 then 0 else Suc (bit_len (n div 2)))"

declare bit_len.simps [simp del]

definition nat_to_double :: "nat \<Rightarrow> nat" where
  "nat_to_double n = (if bit_len n \<le> 53 then n
     else round_half_even n (2 ^ (bit_len n - 53)) * 2 ^ (bit_len n - 53))"

definition pad_left :: "nat \<Rightarrow> string \<Rightarrow> string" where
  "pad_left w s = replicate (w - length s) (CHR ''0'') @ s"

definition fmt_fixed :: "nat \<Rightarrow> nat \<Rightarrow> nat \<Rightarrow> string" where
  "fmt_fixed decs num den = (let r = round_half_even (num * 10 ^ decs) den in
     if decs = 0 then show_nat r
     else show_nat (r div 10 ^ decs) @ ''.'' @ pad_left decs (show_nat (r mod 10 ^ decs)))"

lemma round_half_even_exact: "0 < d \<Longrightarrow> round_half_even (q * d) d = q"
  by (simp add: round_half_even_def)

lemma bit_len_le: "n < 2 ^ k \<Longrightarrow> bit_len n \<le> k"
proof (induction k arbitrary: n)
  case 0
  then show ?case by (simp add: bit_len.simps)
next
  case (Suc k)
  show ?case
  proof (cases "n = 0")
    case False
    with Suc have "bit_len (n div 2) \<le> k" by (simp add: Suc.IH)
    with False show ?thesis by (simp add: bit_len.simps [of n])
  qed (simp add: bit_len.simps)
qed

lemma nat_to_double_small: "n < 2 ^ 53 \<Longrightarrow> nat_to_double n = n"
  by (simp add: nat_to_double_def bit_len_le)

end
