(* ===== verification/LayerPack.thy ===== *)
theory LayerPack
  imports CLib
begin

text \<open>
  \<^verbatim>\<open>engine/src/layer_pack.c\<close>: the packer that places the embedding, the transformer layers and
  the output head on GPUs in forward order, spilling to the CPU tier, and the printer of the
  resulting layout.  Budgets and entry sizes are \<^verbatim>\<open>size_t\<close>, so the subtraction of a placed entry
  is a word subtraction; \<open>place_loop_within_budget\<close> shows that it never wraps.
\<close>

section \<open>Placement\<close>

abbreviation LAYER_PACK_MAX_GPUS :: int where "LAYER_PACK_MAX_GPUS \<equiv> 16"
abbreviation LAYER_PACK_CPU :: int where "LAYER_PACK_CPU \<equiv> - 1"

record layer_pack_config =
  gpu_budget_bytes :: "u64 list"
  n_gpus :: int

text \<open>The inner \<^verbatim>\<open>while\<close>: advance until the current device can hold the entry.\<close>

function advance_device :: "u64 list \<Rightarrow> nat \<Rightarrow> u64 \<Rightarrow> nat \<Rightarrow> nat" where
  "advance_device budget n x d =
     (if d < n \<and> x > budget ! d then advance_device budget n x (Suc d) else d)"
  by pat_completeness auto
termination
  by (relation "measure (\<lambda>(b, n, x, d). n - d)") auto

declare advance_device.simps [simp del]

fun place_loop :: "u64 list \<Rightarrow> u64 list \<Rightarrow> nat \<Rightarrow> nat \<Rightarrow> int list" where
  "place_loop [] budget n d = []"
| "place_loop (x # xs) budget n d =
     (let d' = advance_device budget n x d in
      if d' < n then int d' # place_loop xs (budget[d' := budget ! d' - x]) n d'
      else LAYER_PACK_CPU # place_loop xs budget n d')"

text \<open>
  Return code and the caller's array; \<^verbatim>\<open>NULL\<close> is \<^const>\<open>None\<close>.  The caller owns arrays of at
  least \<open>n_entries\<close> slots, as the header requires; slots past \<open>n_entries\<close> are not written.
\<close>

definition ds4_compute_layer_placement ::
    "u64 list option \<Rightarrow> int \<Rightarrow> layer_pack_config option \<Rightarrow> int list option \<Rightarrow> int \<times> int list option" where
  "ds4_compute_layer_placement entry_bytes n_entries cfg device_for_entry =
     (case (entry_bytes, cfg, device_for_entry) of
        (Some eb, Some c, Some dev) \<Rightarrow>
          if n_entries < 0 then (2, device_for_entry)
          else if n_gpus c < 0 \<or> n_gpus c > LAYER_PACK_MAX_GPUS then (3, device_for_entry)
          else (let budget = take (nat (n_gpus c)) (gpu_budget_bytes c) in
            (0, Some (place_loop (take (nat n_entries) eb) budget (nat (n_gpus c)) 0
                      @ drop (nat n_entries) dev)))
      | _ \<Rightarrow> (1, device_for_entry))"

section \<open>Layout printer\<close>

definition strncat :: "string \<Rightarrow> string \<Rightarrow> nat \<Rightarrow> string" where
  "strncat buf s n = buf @ take n s"

definition append_pseudo_layer_tags ::
    "string \<Rightarrow> nat \<Rightarrow> int list \<Rightarrow> int \<Rightarrow> int \<Rightarrow> int \<Rightarrow> string" where
  "append_pseudo_layer_tags buf buflen dev tier n_entries n_layers =
     (let b = (if n_entries > 0 \<and> dev ! 0 = tier
               then strncat buf '' + embedding'' (buflen - length buf - 1) else buf)
      in if n_entries > 1 \<and> n_layers + 1 < n_entries \<and> dev ! nat (n_layers + 1) = tier
         then strncat b '' + output head'' (buflen - length b - 1) else b)"

text \<open>The scan for the first and the last layer of a tier, in human-facing numbers.\<close>

fun layer_range_scan :: "int list \<Rightarrow> int \<Rightarrow> nat list \<Rightarrow> int \<times> int \<Rightarrow> int \<times> int" where
  "layer_range_scan dev tier [] fl = fl"
| "layer_range_scan dev tier (i # is) (first, final) =
     (if dev ! i = tier
      then layer_range_scan dev tier is ((if first < 0 then int i - 1 else first), int i - 1)
      else layer_range_scan dev tier is (first, final))"

definition layer_range_of_tier :: "int list \<Rightarrow> int \<Rightarrow> int \<Rightarrow> int \<Rightarrow> int \<times> int" where
  "layer_range_of_tier dev tier n_entries n_layers =
     layer_range_scan dev tier [1..<nat (min (n_layers + 1) n_entries)] (- 1, - 1)"

definition print_layer_range_for_tier :: "int list \<Rightarrow> int \<Rightarrow> int \<Rightarrow> int \<Rightarrow> string" where
  "print_layer_range_for_tier dev tier n_entries n_layers =
     (case layer_range_of_tier dev tier n_entries n_layers of (first, final) \<Rightarrow>
        if first < 0 then ''(no transformer layers)''
        else if first = final then ''layer '' @ show_int first
        else ''layers '' @ show_int first @ ''-'' @ show_int final)"

definition fmt_gb1 :: "u64 \<Rightarrow> string" where
  "fmt_gb1 b = fmt_fixed 1 (nat_to_double (unat b)) (2 ^ 30)"

definition print_gpu_line ::
    "int list \<Rightarrow> int \<Rightarrow> int \<Rightarrow> u64 list option \<Rightarrow> u64 list option \<Rightarrow> nat \<Rightarrow> string" where
  "print_gpu_line dev n_entries n_layers used budget d =
     ''  GPU'' @ show_nat d @ '': '' @ print_layer_range_for_tier dev (int d) n_entries n_layers
     @ append_pseudo_layer_tags [] 64 dev (int d) n_entries n_layers
     @ (case (used, budget) of
          (Some u, Some b) \<Rightarrow> ''  ('' @ fmt_gb1 (u ! d) @ '' / '' @ fmt_gb1 (b ! d) @ '' GB)''
        | _ \<Rightarrow> [])
     @ [CHR 0x0A]"

definition layer_pack_print ::
    "bool \<Rightarrow> int list option \<Rightarrow> int \<Rightarrow> int \<Rightarrow> u64 list option \<Rightarrow> u64 list option \<Rightarrow> int \<Rightarrow> string" where
  "layer_pack_print out device_for_entry n_entries n_layers used budget gpus =
     (case device_for_entry of None \<Rightarrow> [] | Some dev \<Rightarrow>
        if \<not> out then []
        else ''multi-GPU layout:'' @ [CHR 0x0A]
          @ concat (map (print_gpu_line dev n_entries n_layers used budget) [0..<nat gpus])
          @ (if LAYER_PACK_CPU \<in> set (take (nat n_entries) dev)
             then ''  CPU : '' @ print_layer_range_for_tier dev LAYER_PACK_CPU n_entries n_layers
                @ append_pseudo_layer_tags [] 64 dev LAYER_PACK_CPU n_entries n_layers @ [CHR 0x0A]
             else []))"

section \<open>Specification of a placement\<close>

text \<open>
  A tier is a GPU index, or the number of GPUs for the CPU.  A placement is feasible when tiers
  never decrease in forward order and no GPU is loaded past its budget.
\<close>

definition tier_of :: "nat \<Rightarrow> int \<Rightarrow> nat" where
  "tier_of n dev = (if dev = LAYER_PACK_CPU then n else nat dev)"

fun tier_load :: "nat list \<Rightarrow> u64 list \<Rightarrow> nat \<Rightarrow> nat" where
  "tier_load (t # ts) (x # xs) k = (if t = k then unat x else 0) + tier_load ts xs k"
| "tier_load _ _ k = 0"

definition feasible_placement :: "u64 list \<Rightarrow> nat \<Rightarrow> u64 list \<Rightarrow> nat list \<Rightarrow> bool" where
  "feasible_placement budget n xs ts \<longleftrightarrow>
     length ts = length xs \<and> sorted ts \<and> (\<forall>t \<in> set ts. t \<le> n) \<and>
     (\<forall>k < n. tier_load ts xs k \<le> unat (budget ! k))"

lemma advance_device_spec:
  assumes "d \<le> n"
  shows "d \<le> advance_device b n x d \<and> advance_device b n x d \<le> n \<and>
    (advance_device b n x d < n \<longrightarrow> x \<le> b ! advance_device b n x d) \<and>
    (\<forall>k. d \<le> k \<and> k < advance_device b n x d \<longrightarrow> b ! k < x)"
  using assms
proof (induction b n x d rule: advance_device.induct)
  case (1 b n x d)
  show ?case
  proof (cases "d < n \<and> x > b ! d")
    case True
    with 1 have IH: "Suc d \<le> advance_device b n x (Suc d) \<and> advance_device b n x (Suc d) \<le> n \<and>
        (advance_device b n x (Suc d) < n \<longrightarrow> x \<le> b ! advance_device b n x (Suc d)) \<and>
        (\<forall>k. Suc d \<le> k \<and> k < advance_device b n x (Suc d) \<longrightarrow> b ! k < x)" by auto
    from True have eq: "advance_device b n x d = advance_device b n x (Suc d)"
      by (simp add: advance_device.simps [of b n x d])
    show ?thesis unfolding eq using IH True by (metis Suc_leD Suc_leI le_neq_implies_less)
  next
    case False
    with 1(2) show ?thesis by (auto simp: advance_device.simps [of b n x d])
  qed
qed

lemma length_place_loop [simp]: "length (place_loop xs b n d) = length xs"
  by (induction xs arbitrary: b d) (auto simp: Let_def)

lemma place_loop_range: "r \<in> set (place_loop xs b n d) \<Longrightarrow> r = LAYER_PACK_CPU \<or> (0 \<le> r \<and> r < int n)"
  by (induction xs arbitrary: b d) (auto simp: Let_def split: if_splits)

abbreviation place_tiers :: "u64 list \<Rightarrow> u64 list \<Rightarrow> nat \<Rightarrow> nat \<Rightarrow> nat list" where
  "place_tiers xs b n d \<equiv> map (tier_of n) (place_loop xs b n d)"

lemma place_tiers_Cons:
  assumes "d \<le> n"
  shows "place_tiers (x # xs) b n d = (let d' = advance_device b n x d in
     d' # place_tiers xs (if d' < n then b[d' := b ! d' - x] else b) n d')"
  using advance_device_spec [OF assms, of b x] by (auto simp: Let_def tier_of_def)

lemma place_loop_monotone:
  "d \<le> n \<Longrightarrow> sorted (place_tiers xs b n d) \<and> (\<forall>t \<in> set (place_tiers xs b n d). d \<le> t \<and> t \<le> n)"
proof (induction xs arbitrary: b d)
  case (Cons x xs)
  let ?d = "advance_device b n x d" and ?b = "if advance_device b n x d < n
    then b[advance_device b n x d := b ! advance_device b n x d - x] else b"
  have d: "d \<le> ?d" "?d \<le> n" using advance_device_spec [OF Cons.prems, of b x] by auto
  have eq: "place_tiers (x # xs) b n d = ?d # place_tiers xs ?b n ?d"
    using place_tiers_Cons [OF Cons.prems] by (simp only: Let_def)
  show ?case unfolding eq using Cons.IH [OF d(2), of ?b] d by fastforce
qed simp

lemma place_loop_within_budget:
  "d \<le> n \<Longrightarrow> length b = n \<Longrightarrow> k < n \<Longrightarrow> tier_load (place_tiers xs b n d) xs k \<le> unat (b ! k)"
proof (induction xs arbitrary: b d)
  case (Cons x xs)
  let ?d = "advance_device b n x d" and ?b = "if advance_device b n x d < n
    then b[advance_device b n x d := b ! advance_device b n x d - x] else b"
  have d: "?d \<le> n" and fit: "?d < n \<Longrightarrow> x \<le> b ! ?d"
    using advance_device_spec [OF Cons.prems(1), of b x] by auto
  have eq: "place_tiers (x # xs) b n d = ?d # place_tiers xs ?b n ?d"
    using place_tiers_Cons [OF Cons.prems(1)] by (simp only: Let_def)
  have IH: "tier_load (place_tiers xs ?b n ?d) xs k \<le> unat (?b ! k)"
    by (rule Cons.IH [OF d]) (use Cons.prems in auto)
  show ?case unfolding eq
  proof (cases "?d = k")
    case True
    with Cons.prems fit have "unat (?b ! k) = unat (b ! k) - unat x" and "unat x \<le> unat (b ! k)"
      by (auto simp: unat_sub_le word_le_nat_alt)
    with IH True show "tier_load (?d # place_tiers xs ?b n ?d) (x # xs) k \<le> unat (b ! k)" by simp
  next
    case False
    with IH Cons.prems show "tier_load (?d # place_tiers xs ?b n ?d) (x # xs) k \<le> unat (b ! k)"
      by (auto split: if_splits)
  qed
qed simp

lemma tier_load_absent: "k \<notin> set ts \<Longrightarrow> tier_load ts xs k = 0"
  by (induction ts xs k rule: tier_load.induct) auto

lemma place_loop_earliest:
  assumes "d \<le> n" "length b = n" "feasible_placement b n xs ts" "\<forall>t \<in> set ts. d \<le> t"
  shows "list_all2 (\<le>) (place_tiers xs b n d) ts"
  using assms
proof (induction xs arbitrary: b d ts)
  case Nil
  then show ?case by (simp add: feasible_placement_def)
next
  case (Cons x xs)
  obtain t ts' where ts: "ts = t # ts'"
    using Cons.prems(3) by (cases ts) (auto simp: feasible_placement_def)
  let ?d = "advance_device b n x d" and ?b = "if advance_device b n x d < n
    then b[advance_device b n x d := b ! advance_device b n x d - x] else b"
  note spec = advance_device_spec [OF Cons.prems(1), of b x]
  have load: "k < n \<Longrightarrow> (if t = k then unat x else 0) + tier_load ts' xs k \<le> unat (b ! k)" for k
    using Cons.prems(3) by (auto simp: feasible_placement_def ts)
  have "t < n \<Longrightarrow> x \<le> b ! t" using load [of t] by (simp add: word_le_nat_alt)
  then have dt: "?d \<le> t"
    using spec Cons.prems(4) by (metis leD leI le_trans list.set_intros(1) ts)
  have ts'_ge: "\<forall>s \<in> set ts'. t \<le> s" using Cons.prems(3) by (auto simp: feasible_placement_def ts)
  have load': "tier_load ts' xs k \<le> unat (?b ! k)" if "k < n" for k
  proof (cases "?d = k")
    case True
    show ?thesis
    proof (cases "t = k")
      case True
      with \<open>?d = k\<close> load [OF that] spec that Cons.prems(2) show ?thesis by (auto simp: unat_sub_le)
    next
      case False
      with dt True ts'_ge have "k \<notin> set ts'" by auto
      then show ?thesis by (simp add: tier_load_absent)
    qed
  next
    case False
    with load [OF that] show ?thesis by auto
  qed
  have "feasible_placement ?b n xs ts'"
    using Cons.prems(3) load' by (auto simp: feasible_placement_def ts)
  then have "list_all2 (\<le>) (place_tiers xs ?b n ?d) ts'"
    using spec dt ts'_ge Cons.prems(2) by (intro Cons.IH) auto
  with dt show ?case using place_tiers_Cons [OF Cons.prems(1)] by (simp add: ts Let_def)
qed

lemmas place_loop_facts = place_loop_monotone place_loop_within_budget place_loop_earliest

section \<open>What the packer guarantees\<close>

lemma feasible_placement_take:
  "n \<le> m \<Longrightarrow> feasible_placement (take m b) n xs ts \<longleftrightarrow> feasible_placement b n xs ts"
  by (auto simp: feasible_placement_def)

lemma placement_ok:
  assumes "ds4_compute_layer_placement (Some eb) n (Some c) (Some dev) = (0, Some dev')"
    and "nat n \<le> length eb"
  shows "take (nat n) dev' = place_loop (take (nat n) eb) (take (nat (n_gpus c)) (gpu_budget_bytes c))
    (nat (n_gpus c)) 0"
  using assms by (auto simp: ds4_compute_layer_placement_def Let_def split: if_splits)

text \<open>
  C37.  On success the placement is feasible: in forward order the tier never decreases (GPUs by
  index, then the CPU), and the entries given to a GPU fit its byte budget, so the running
  subtraction from the budget never wraps.
\<close>

theorem layer_placement_feasible:
  assumes "ds4_compute_layer_placement (Some eb) n (Some c) (Some dev) = (0, Some dev')"
    and "nat n \<le> length eb" and "nat (n_gpus c) \<le> length (gpu_budget_bytes c)"
  shows "feasible_placement (gpu_budget_bytes c) (nat (n_gpus c)) (take (nat n) eb)
    (map (tier_of (nat (n_gpus c))) (take (nat n) dev'))"
proof -
  let ?m = "nat (n_gpus c)" and ?b = "take (nat (n_gpus c)) (gpu_budget_bytes c)"
  let ?ts = "place_tiers (take (nat n) eb) ?b ?m 0"
  have "length ?b = ?m" using assms(3) by simp
  then have "tier_load ?ts (take (nat n) eb) k \<le> unat (?b ! k)" if "k < ?m" for k
    using that place_loop_within_budget [of 0 ?m ?b k] by simp
  moreover have "sorted ?ts \<and> (\<forall>t \<in> set ?ts. 0 \<le> t \<and> t \<le> ?m)"
    by (rule place_loop_monotone) simp
  ultimately have "feasible_placement ?b ?m (take (nat n) eb) ?ts"
    unfolding feasible_placement_def by (metis length_map length_place_loop)
  then show ?thesis by (simp add: placement_ok [OF assms(1,2)] feasible_placement_take)
qed

definition demo_pack :: layer_pack_config where
  "demo_pack = \<lparr>gpu_budget_bytes = [10, 7], n_gpus = 2\<rparr>"

lemma demo_placement:
  "ds4_compute_layer_placement (Some [4, 6, 5, 3, 1]) 5 (Some demo_pack) (Some [0, 0, 0, 0, 0])
     = (0, Some [0, 0, 1, - 1, - 1])"
  by (simp add: ds4_compute_layer_placement_def demo_pack_def Let_def advance_device.simps)

theorem layer_placement_feasible_witness:
  "feasible_placement [10, 7] 2 [4, 6, 5, 3, 1] [0, 0, 1, 2, 2]"
  using layer_placement_feasible [OF demo_placement] by (simp add: demo_pack_def tier_of_def)

text \<open>
  C36.  The packer is optimal among the contiguous placements: every entry lands on a tier no later
  than in any other feasible placement of the same entries.  In particular an entry goes to the
  CPU only if every feasible placement sends it there.
\<close>

theorem layer_placement_earliest:
  assumes "ds4_compute_layer_placement (Some eb) n (Some c) (Some dev) = (0, Some dev')"
    and "nat n \<le> length eb" and "nat (n_gpus c) \<le> length (gpu_budget_bytes c)"
    and "feasible_placement (gpu_budget_bytes c) (nat (n_gpus c)) (take (nat n) eb) ts"
  shows "list_all2 (\<le>) (map (tier_of (nat (n_gpus c))) (take (nat n) dev')) ts"
proof -
  let ?m = "nat (n_gpus c)" and ?b = "take (nat (n_gpus c)) (gpu_budget_bytes c)"
  have "feasible_placement ?b ?m (take (nat n) eb) ts"
    using assms(4) by (simp add: feasible_placement_take)
  then show ?thesis
    using assms(3) by (simp add: placement_ok [OF assms(1,2)] place_loop_facts(3))
qed

theorem layer_placement_earliest_witness:
  "list_all2 (\<le>) [0, 0, 1, 2, 2 :: nat] [0, 1, 2, 2, 2]"
proof -
  have "feasible_placement (gpu_budget_bytes demo_pack) (nat (n_gpus demo_pack))
      (take (nat 5) [4, 6, 5, 3, 1]) [0, 1, 2, 2, 2]"
    by (auto simp: demo_pack_def feasible_placement_def dest!: less_2_cases)
  then show ?thesis
    using layer_placement_earliest [OF demo_placement, of "[0, 1, 2, 2, 2]"]
    by (simp add: demo_pack_def tier_of_def)
qed

text \<open>
  The call fails exactly on its configuration errors, each with its own code, and a failing
  call leaves the caller's array as it was.
\<close>

theorem layer_placement_errors:
  "fst (ds4_compute_layer_placement eb n c dev) =
     (if eb = None \<or> c = None \<or> dev = None then 1
      else if n < 0 then 2
      else if n_gpus (the c) < 0 \<or> 16 < n_gpus (the c) then 3 else 0) \<and>
   (fst (ds4_compute_layer_placement eb n c dev) = 0 \<or>
    snd (ds4_compute_layer_placement eb n c dev) = dev)"
  by (auto simp: ds4_compute_layer_placement_def Let_def split: option.splits)

section \<open>The printed ranges are exact\<close>

lemma layer_range_scan_append:
  "layer_range_scan dev t (is @ js) fl = layer_range_scan dev t js (layer_range_scan dev t is fl)"
  by (induction dev t "is" fl rule: layer_range_scan.induct) auto

definition range_found :: "int list \<Rightarrow> int \<Rightarrow> nat \<Rightarrow> int \<times> int \<Rightarrow> bool" where
  "range_found dev t b fl \<longleftrightarrow>
     (fl = (- 1, - 1) \<and> (\<forall>i. 1 \<le> i \<and> i < b \<longrightarrow> dev ! i \<noteq> t)) \<or>
     (\<exists>f l. fl = (int f, int l) \<and> f \<le> l \<and> Suc l < b \<and> dev ! Suc f = t \<and> dev ! Suc l = t \<and>
       (\<forall>i. 1 \<le> i \<and> i < b \<and> dev ! i = t \<longrightarrow> Suc f \<le> i \<and> i \<le> Suc l))"

lemma layer_range_scan_found: "range_found dev t b (layer_range_scan dev t [1..<b] (- 1, - 1))"
proof (induction b)
  case 0
  then show ?case by (simp add: range_found_def)
next
  case (Suc b)
  show ?case
  proof (cases "1 \<le> b")
    case False
    then show ?thesis by (simp add: range_found_def)
  next
    case True
    then obtain j where j: "b = Suc j" by (cases b) auto
    obtain f l where fl: "layer_range_scan dev t [1..<b] (- 1, - 1) = (f, l)" by fastforce
    have step: "layer_range_scan dev t [1..<Suc b] (- 1, - 1) =
        (if dev ! b = t then ((if f < 0 then int j else f), int j) else (f, l))"
    proof -
      have "[1..<Suc b] = [1..<b] @ [b]" using True by simp
      then have "layer_range_scan dev t [1..<Suc b] (- 1, - 1) = layer_range_scan dev t [b] (f, l)"
        by (simp only: layer_range_scan_append fl)
      then show ?thesis by (simp add: j)
    qed
    show ?thesis
      using Suc unfolding step fl
      by (auto simp: range_found_def j less_Suc_eq)
  qed
qed

lemma tier_of_inj:
  "tier_of n a = tier_of n b \<Longrightarrow> a = - 1 \<or> 0 \<le> a \<and> a < int n \<Longrightarrow> b = - 1 \<or> 0 \<le> b \<and> b < int n \<Longrightarrow> a = b"
  by (auto simp: tier_of_def split: if_splits)

lemma range_found_exact:
  assumes "range_found dev t N fl" and "Suc k < N"
    and contig: "\<And>a b i. dev ! a = t \<Longrightarrow> dev ! b = t \<Longrightarrow> a \<le> i \<Longrightarrow> i \<le> b \<Longrightarrow> b < N \<Longrightarrow> dev ! i = t"
  shows "dev ! Suc k = t \<longleftrightarrow> fst fl \<le> int k \<and> int k \<le> snd fl"
  using assms(1) unfolding range_found_def
proof (elim disjE exE conjE)
  fix f l
  assume fl: "fl = (int f, int l)" and l: "Suc l < N" and t': "dev ! Suc f = t" "dev ! Suc l = t"
    and all: "\<forall>i. 1 \<le> i \<and> i < N \<and> dev ! i = t \<longrightarrow> Suc f \<le> i \<and> i \<le> Suc l"
  have "dev ! Suc k = t \<longleftrightarrow> f \<le> k \<and> k \<le> l"
    using all assms(2) contig [OF t' _ _ l, of "Suc k"] by (metis Suc_le_mono le_add1 plus_1_eq_Suc)
  then show ?thesis by (simp add: fl)
qed (use assms(2) in simp)

text \<open>
  For a placement of an embedding, the transformer layers and an output head, the range the
  layout printer finds for a tier is exact: transformer layer k lies on that tier if and only if k
  is between the printed first and last layer; a tier with no layer has the empty range.
\<close>

theorem printed_layer_range_exact:
  assumes "ds4_compute_layer_placement (Some eb) n (Some c) (Some dev) = (0, Some dev')"
    and "nat n = length eb" and "n = n_layers + 2"
    and "t = LAYER_PACK_CPU \<or> 0 \<le> t \<and> t < n_gpus c"
    and "0 \<le> k" and "k < n_layers"
  shows "dev' ! nat (k + 1) = t \<longleftrightarrow>
    fst (layer_range_of_tier dev' t n n_layers) \<le> k \<and> k \<le> snd (layer_range_of_tier dev' t n n_layers)"
proof -
  let ?m = "nat (n_gpus c)" and ?N = "nat (min (n_layers + 1) n)"
  define d where "d = place_loop eb (take ?m (gpu_budget_bytes c)) ?m 0"
  have d: "take (nat n) dev' = d" using placement_ok [OF assms(1)] assms(2) by (simp add: d_def)
  have N: "?N \<le> length d" "?N \<le> nat n" using assms(2,3) by (simp_all add: d_def)
  have nthd: "dev' ! i = d ! i" if "i < ?N" for i
    using that N(2) by (simp add: d [symmetric])
  have srt: "sorted (map (tier_of ?m) d)" using place_loop_monotone [of 0 ?m] by (simp add: d_def)
  have rng: "d ! i = - 1 \<or> 0 \<le> d ! i \<and> d ! i < int ?m" if "i < ?N" for i
    by (rule place_loop_range [OF nth_mem, of _ eb "take ?m (gpu_budget_bytes c)" ?m 0, folded d_def])
      (use that N in simp)
  have t: "t = - 1 \<or> 0 \<le> t \<and> t < int ?m" using assms(4) by auto
  have contig: "dev' ! i = t" if "dev' ! a = t" "dev' ! b = t" "a \<le> i" "i \<le> b" "b < ?N" for a b i
  proof -
    have ab: "d ! a = t" "d ! b = t" using that nthd by simp_all
    have "tier_of ?m (d ! a) \<le> tier_of ?m (d ! i)" "tier_of ?m (d ! i) \<le> tier_of ?m (d ! b)"
      using sorted_nth_mono [OF srt, of a i] sorted_nth_mono [OF srt, of i b] that(3-5) N by simp_all
    then have "tier_of ?m (d ! i) = tier_of ?m t" using ab by simp
    then have "d ! i = t" by (rule tier_of_inj) (use rng [of i] that t in simp_all)
    then show ?thesis using that nthd by simp
  qed
  obtain j where j: "k = int j" using assms(5) nonneg_int_cases by blast
  have "Suc j < ?N" using assms(3,6) j by simp
  with range_found_exact [OF layer_range_scan_found _ contig, of j] show ?thesis
    by (simp add: layer_range_of_tier_def j nat_add_distrib)
qed

theorem printed_layer_range_exact_witness:
  "fst (layer_range_of_tier [0, 0, 1, - 1, - 1] (- 1) 5 3) \<le> 2 \<and>
   2 \<le> snd (layer_range_of_tier [0, 0, 1, - 1, - 1] (- 1) 5 3)"
proof -
  have "[0, 0, 1, - 1, - 1] ! nat (2 + 1) = (- 1 :: int) \<longleftrightarrow>
      fst (layer_range_of_tier [0, 0, 1, - 1, - 1] (- 1) 5 3) \<le> 2 \<and>
      2 \<le> snd (layer_range_of_tier [0, 0, 1, - 1, - 1] (- 1) 5 3)"
    by (rule printed_layer_range_exact [OF demo_placement]) simp_all
  then show ?thesis by simp
qed

end
