(* ===== verification/Storage.thy ===== *)
theory Storage
  imports CLib
begin

text \<open>
  \<^verbatim>\<open>engine/src/storage.c\<close>: the parsers of the GiB and expert-count options, the expert-cache
  planner, and the memory lock that simulates used memory.  An out parameter is an option: \<^const>\<open>None\<close>
  is a null pointer and \<open>Some v\<close> the value it points to after the call.
\<close>

section \<open>Option parsers\<close>

abbreviation DS4_GIB :: u64 where "DS4_GIB \<equiv> 1073741824"

definition has_gb_suffix :: "string \<Rightarrow> bool" where
  "has_gb_suffix s \<longleftrightarrow> length s > 2 \<and> s ! (length s - 2) \<in> {CHR ''g'', CHR ''G''}
     \<and> s ! (length s - 1) \<in> {CHR ''b'', CHR ''B''}"

definition ds4_parse_gib_arg :: "string option \<Rightarrow> u64 option \<Rightarrow> bool \<times> u64 option" where
  "ds4_parse_gib_arg s out =
     (case out of None \<Rightarrow> (False, None) | Some _ \<Rightarrow>
      (case s of None \<Rightarrow> (False, Some 0) | Some s \<Rightarrow>
        if s = [] then (False, Some 0)
        else (let t = (if has_gb_suffix s then take (length s - 2) s else s) in
          if t = [] then (False, Some 0)
          else if \<not> list_all isdigit t then (False, Some 0)
          else if length t \<ge> 32 then (False, Some 0)
          else (case strtoul t of (v, err, _) \<Rightarrow>
            if err \<or> v = 0 \<or> v > UINT64_MAX div DS4_GIB then (False, Some 0)
            else (True, Some (v * DS4_GIB))))))"

definition ds4_parse_streaming_cache_experts_arg ::
    "string option \<Rightarrow> u32 option \<Rightarrow> u64 option \<Rightarrow> bool \<times> u32 option \<times> u64 option" where
  "ds4_parse_streaming_cache_experts_arg s experts out =
     (let experts0 = map_option (\<lambda>_. 0) experts; out0 = map_option (\<lambda>_. 0) out in
      case (s, experts, out) of (Some s, Some _, Some _) \<Rightarrow>
        if s = [] then (False, experts0, out0)
        else if has_gb_suffix s then
          (case ds4_parse_gib_arg (Some s) out0 of (ok, b) \<Rightarrow> (ok, experts0, b))
        else if \<not> list_all isdigit s then (False, experts0, out0)
        else (case strtoul s of (v, err, _) \<Rightarrow>
          if err \<or> v = 0 \<or> unat v > UINT32_MAX then (False, experts0, out0)
          else (True, Some (ucast v), out0))
      | _ \<Rightarrow> (False, experts0, out0))"

section \<open>Expert-cache planning\<close>

definition storage_cache_experts_for_byte_budget :: "u64 \<Rightarrow> u64 \<Rightarrow> u32" where
  "storage_cache_experts_for_byte_budget budget per_expert =
     (if budget = 0 \<or> per_expert = 0 then 0
      else (let experts = budget div per_expert in
        if experts = 0 \<or> unat experts > UINT32_MAX then 0 else ucast experts))"

text \<open>The argument is the value of \<^verbatim>\<open>DS4_SSD_AUTO_CACHE_PCT\<close> in the environment.\<close>

definition storage_auto_cache_percent :: "string option \<Rightarrow> u64" where
  "storage_auto_cache_percent env =
     (case env of None \<Rightarrow> 80 | Some e \<Rightarrow>
        if e = [] then 80
        else (case strtoul e of (v, err, rest) \<Rightarrow>
          if rest \<noteq> e \<and> rest = [] \<and> \<not> err \<and> 50 \<le> v \<and> v \<le> 95 then v else 80))"

record storage_cache_plan =
  model_target_bytes :: u64
  cache_bytes :: u64
  effective_cache_bytes :: u64
  cache_experts :: u32

definition zero_plan :: storage_cache_plan where
  "zero_plan = \<lparr>model_target_bytes = 0, cache_bytes = 0, effective_cache_bytes = 0, cache_experts = 0\<rparr>"

definition plan_target :: "u64 \<Rightarrow> u64 \<Rightarrow> u64" where
  "plan_target recommended pct =
     (if recommended > UINT64_MAX div pct then UINT64_MAX else recommended * pct div 100)"

definition plan_experts :: "u64 \<Rightarrow> u64 \<Rightarrow> u64 \<Rightarrow> u64" where
  "plan_experts cache per_expert max_model =
     (let e0 = cache div per_expert;
          e1 = (if e0 = 0 then 1 else e0);
          e2 = (if max_model \<noteq> 0 \<and> e1 > max_model then max_model else e1)
      in if e2 > 4294967295 then 4294967295 else e2)"

definition storage_auto_cache_plan ::
    "string option \<Rightarrow> u64 \<Rightarrow> u64 \<Rightarrow> u64 \<Rightarrow> u64 \<Rightarrow> storage_cache_plan option \<Rightarrow> bool \<times> storage_cache_plan option" where
  "storage_auto_cache_plan env recommended non_routed per_expert max_model out =
     (case out of None \<Rightarrow> (False, None) | Some _ \<Rightarrow>
        if recommended = 0 \<or> per_expert = 0 then (False, Some zero_plan)
        else (let target = plan_target recommended (storage_auto_cache_percent env);
                  cache = (if target > non_routed then target - non_routed else 0);
                  experts = plan_experts cache per_expert max_model;
                  plan = \<lparr>model_target_bytes = target, cache_bytes = cache,
                          effective_cache_bytes = experts * per_expert, cache_experts = ucast experts\<rparr>
              in (cache_experts plan \<noteq> 0, Some plan)))"

section \<open>Simulated used memory\<close>

text \<open>
  The operating system is a parameter: what \<^verbatim>\<open>mmap\<close> returns for a size, the page size, and
  whether \<^verbatim>\<open>mlock\<close> accepts a range.  The events are the calls and the page writes in order.
  After a successful \<^verbatim>\<open>mmap\<close> the size is below that of the address space, so offsets are
  numbers: none of the sums can wrap.
\<close>

record lock_os =
  mmap_result :: "u64 \<Rightarrow> u64 option"
  page_size :: int
  mlock_ok :: "nat \<Rightarrow> nat \<Rightarrow> bool"

datatype lock_event = Touch nat nat | MLock nat nat | MUnlock nat | MUnmap nat

record storage_memory_lock =
  lock_ptr :: "u64 option"
  lock_bytes :: u64

abbreviation chunk_bytes :: nat where "chunk_bytes \<equiv> 268435456"

function touch_pages :: "nat \<Rightarrow> nat \<Rightarrow> nat \<Rightarrow> lock_event list" where
  "touch_pages page pos stop =
     (if pos < stop \<and> 0 < page
      then Touch pos ((pos div page) mod 256) # touch_pages page (pos + page) stop else [])"
  by pat_completeness auto
termination
  by (relation "measure (\<lambda>(page, pos, stop). stop - pos)") auto

declare touch_pages.simps [simp del]

function lock_chunks :: "lock_os \<Rightarrow> nat \<Rightarrow> nat \<Rightarrow> nat \<Rightarrow> nat \<Rightarrow> lock_event list \<Rightarrow> bool \<times> lock_event list" where
  "lock_chunks os page span off locked evs =
     (if off < span then
        (let len = (if span - off > chunk_bytes then chunk_bytes else span - off);
             touched = evs @ touch_pages page off (off + len) @ (if len \<noteq> 0 then [Touch (off + len - 1) 1] else [])
         in if mlock_ok os off len
            then lock_chunks os page span (off + chunk_bytes) (locked + len) (touched @ [MLock off len])
            else (False, touched @ (if locked \<noteq> 0 then [MUnlock locked] else []) @ [MUnmap span]))
      else (True, evs))"
  by pat_completeness auto
termination
  by (relation "measure (\<lambda>(os, page, span, off, locked, evs). span - off)") auto

declare lock_chunks.simps [simp del]

definition storage_memory_lock_acquire ::
    "lock_os \<Rightarrow> storage_memory_lock option \<Rightarrow> u64 \<Rightarrow> bool \<times> storage_memory_lock option \<times> lock_event list" where
  "storage_memory_lock_acquire os lock want =
     (case lock of None \<Rightarrow> (False, None, []) | Some l \<Rightarrow>
       (let l0 = l\<lparr>lock_ptr := None, lock_bytes := 0\<rparr> in
        if want = 0 then (True, Some l0, [])
        else (case mmap_result os want of None \<Rightarrow> (False, Some l0, []) | Some p \<Rightarrow>
          (let page = (if page_size os > 0 then nat (page_size os) else 4096) in
           case lock_chunks os page (unat want) 0 0 [] of
             (True, evs) \<Rightarrow> (True, Some (l0\<lparr>lock_ptr := Some p, lock_bytes := want\<rparr>), evs)
           | (False, evs) \<Rightarrow> (False, Some l0, evs)))))"

definition storage_memory_lock_release ::
    "storage_memory_lock option \<Rightarrow> storage_memory_lock option \<times> lock_event list" where
  "storage_memory_lock_release lock =
     (case lock of None \<Rightarrow> (None, []) | Some l \<Rightarrow>
        if lock_ptr l = None \<or> lock_bytes l = 0 then (Some l, [])
        else (Some (l\<lparr>lock_ptr := None, lock_bytes := 0\<rparr>),
              [MUnlock (unat (lock_bytes l)), MUnmap (unat (lock_bytes l))]))"

section \<open>What the parsers accept\<close>

lemma DS4_GIB_div: "unat (UINT64_MAX div DS4_GIB) = 17179869183"
  by (simp add: unat_div)

lemma strtoul_digits:
  assumes "t \<noteq> []" and "list_all isdigit t"
  shows "strtoul t = (if dec_value t > unat UINT64_MAX then (UINT64_MAX, True, []) else (word_of_nat (dec_value t), False, []))"
  using strto_parts_digits [of t "[]"] assms by (simp add: strtoul_def list_all_iff)

definition gib_number :: "string \<Rightarrow> string" where
  "gib_number s = (if has_gb_suffix s then take (length s - 2) s else s)"

lemma parse_gib_arg_eq:
  "ds4_parse_gib_arg (Some s) (Some b0) =
     (let t = gib_number s; v = dec_value t in
      if s \<noteq> [] \<and> t \<noteq> [] \<and> list_all isdigit t \<and> length t < 32 \<and> 0 < v \<and> v * 2 ^ 30 < 2 ^ 64
      then (True, Some (word_of_nat (v * 2 ^ 30))) else (False, Some 0))"
proof -
  let ?t = "gib_number s"
  have le: "(17179869183 :: u64) < word_of_nat v \<longleftrightarrow> \<not> v < 17179869184"
    and z: "word_of_nat v = (0 :: u64) \<longleftrightarrow> v = 0" if "\<not> 18446744073709551615 < v" for v
    using that by (auto simp: word_less_nat_alt unat_of_nat word_unat_eq_iff)
  have mul: "word_of_nat v * DS4_GIB = word_of_nat (v * 2 ^ 30)" for v by simp
  have lit: "unat UINT64_MAX = 18446744073709551615" "UINT64_MAX div DS4_GIB = 17179869183"
    by simp_all
  show ?thesis
    by (auto simp: ds4_parse_gib_arg_def gib_number_def [symmetric] Let_def strtoul_digits le z mul lit
        simp del: of_nat_mult split: prod.splits)
qed

text \<open>
  The GiB option parser accepts exactly a non-zero decimal number of at most 31 digits whose
  size in bytes fits 64 bits, with an optional two-letter gb suffix in any case; the result is that
  number of gibibytes exactly (the multiplication does not wrap), and a refused argument leaves zero.
\<close>

theorem parse_gib_arg_exact:
  "ds4_parse_gib_arg (Some s) (Some b0) =
     (let t = gib_number s; v = dec_value t in
      if s \<noteq> [] \<and> t \<noteq> [] \<and> list_all isdigit t \<and> length t < 32 \<and> 0 < v \<and> v * 2 ^ 30 < 2 ^ 64
      then (True, Some (word_of_nat (v * 2 ^ 30))) else (False, Some 0))"
  by (rule parse_gib_arg_eq)

text \<open>
  The streaming-cache option sets exactly one of its two results: on success either a non-zero
  expert count (plain digits, at most 32 bits) or a non-zero byte size (gb suffix), never both; on
  failure both are zero.
\<close>

theorem parse_streaming_cache_one_result:
  "ds4_parse_streaming_cache_experts_arg s (Some e0) (Some b0) = (ok, Some e, Some b) \<Longrightarrow>
   (if ok then (e \<noteq> 0) \<noteq> (b \<noteq> 0) else e = 0 \<and> b = 0)"
proof -
  assume r: "ds4_parse_streaming_cache_experts_arg s (Some e0) (Some b0) = (ok, Some e, Some b)"
  have u: "(ucast v :: u32) \<noteq> 0" if "v \<noteq> 0" "unat v \<le> UINT32_MAX" for v :: u64
    using that by (simp add: word_unat_eq_iff unsigned_ucast_eq take_bit_nat_eq_self)
  have g: "word_of_nat (v * 2 ^ 30) \<noteq> (0 :: u64)" if "0 < v" "v * 2 ^ 30 < 2 ^ 64" for v
    using that by (simp add: word_unat_eq_iff unat_of_nat del: of_nat_mult)
  show ?thesis
    using r u g
    by (auto simp: ds4_parse_streaming_cache_experts_arg_def parse_gib_arg_eq Let_def
        simp del: of_nat_mult split: option.splits if_splits prod.splits)
qed

theorem parse_streaming_cache_one_result_witness:
  "ds4_parse_streaming_cache_experts_arg (Some ''64'') (Some 9) (Some 9) = (True, Some 64, Some 0) \<and>
   ((64 :: u32) \<noteq> 0) \<noteq> ((0 :: u64) \<noteq> 0)"
proof -
  have "ds4_parse_streaming_cache_experts_arg (Some ''64'') (Some 9) (Some 9) = (True, Some 64, Some 0)"
    by (simp add: ds4_parse_streaming_cache_experts_arg_def has_gb_suffix_def isdigit_def
        strtoul_def strto_parts_def skip_space_Cons isspace_def dec_value_def digit_val_def)
  with parse_streaming_cache_one_result [OF this] show ?thesis by simp
qed

section \<open>What the planner promises\<close>

lemma auto_cache_percent_range: "50 \<le> storage_auto_cache_percent env \<and> storage_auto_cache_percent env \<le> 95"
  by (auto simp: storage_auto_cache_percent_def split: option.splits prod.splits)

lemma plan_experts_bounds:
  assumes "per \<noteq> 0"
  shows "1 \<le> unat (plan_experts c per mx)" "unat (plan_experts c per mx) \<le> UINT32_MAX"
    "mx \<noteq> 0 \<longrightarrow> unat (plan_experts c per mx) \<le> unat mx"
    "unat (plan_experts c per mx) * unat per \<le> max (unat c) (unat per)"
proof -
  have nz: "0 < unat w \<longleftrightarrow> w \<noteq> 0" for w :: u64 by (simp add: word_unat_eq_iff)
  let ?e = "plan_experts c per mx"
  show ge: "1 \<le> unat ?e" and "unat ?e \<le> UINT32_MAX" and "mx \<noteq> 0 \<longrightarrow> unat ?e \<le> unat mx"
    using nz by (auto simp: plan_experts_def Let_def word_less_nat_alt not_less Suc_le_eq)
  have "unat ?e \<le> max 1 (unat c div unat per)"
    using nz [of "c div per"] by (auto simp: plan_experts_def Let_def word_less_nat_alt not_less unat_div)
  then have "unat ?e * unat per \<le> max 1 (unat c div unat per) * unat per" by (rule mult_le_mono1)
  also have "\<dots> = max (unat per) (unat c div unat per * unat per)"
    by (simp add: max_def)
  also have "\<dots> \<le> max (unat c) (unat per)"
    using div_times_less_eq_dividend [of "unat c" "unat per"] by linarith
  finally show "unat ?e * unat per \<le> max (unat c) (unat per)" .
qed

lemma percent_of_env:
  "storage_auto_cache_percent None = 80" "storage_auto_cache_percent (Some (show_nat n)) = (if 50 \<le> n \<and> n \<le> 95 then word_of_nat n else 80)"
proof -
  have s: "strto_parts (show_nat n) = (False, show_nat n, [])" using strto_parts_digits [of "show_nat n" "[]"] show_nat_digits [of n] by simp
  have p: "strtoul (show_nat n) = (if n > unat UINT64_MAX then (UINT64_MAX, True, []) else (word_of_nat n, False, []))" by (simp add: strtoul_def s)
  show "storage_auto_cache_percent (Some (show_nat n)) = (if 50 \<le> n \<and> n \<le> 95 then word_of_nat n else 80)"
  proof (cases "n > unat UINT64_MAX")
    case False
    then have "unat (word_of_nat n :: u64) = n" by (simp add: unat_of_nat)
    then have "50 \<le> (word_of_nat n :: u64) \<longleftrightarrow> 50 \<le> n" "(word_of_nat n :: u64) \<le> 95 \<longleftrightarrow> n \<le> 95" by (simp_all add: word_le_nat_alt)
    moreover have "[] \<noteq> show_nat n" by (metis show_nat_nonempty)
    ultimately show ?thesis using False by (simp add: storage_auto_cache_percent_def p)
  qed (simp add: storage_auto_cache_percent_def p)
qed (simp add: storage_auto_cache_percent_def)

lemma plan_target_exact:
  assumes "pct \<noteq> 0"
  shows "unat (plan_target r pct) = (if unat r * unat pct < 2 ^ 64 then unat r * unat pct div 100 else 2 ^ 64 - 1)"
proof -
  have nz: "0 < unat pct" using assms by (simp add: word_unat_eq_iff)
  have "r > UINT64_MAX div pct \<longleftrightarrow> unat UINT64_MAX div unat pct < unat r" by (simp only: word_less_nat_alt unat_div)
  also have "\<dots> \<longleftrightarrow> \<not> unat r * unat pct < 2 ^ 64" using nz by (simp add: div_less_iff_less_mult not_less) linarith
  finally show ?thesis using unat_mult_no_wrap [of r pct] by (simp add: plan_target_def unat_div)
qed

lemma plan_experts_exact:
  "unat (plan_experts c per mx) = min (min (max 1 (unat c div unat per)) (if mx = 0 then UINT32_MAX else unat mx)) UINT32_MAX"
proof -
  have z: "(w = 0) \<longleftrightarrow> unat w = 0" for w :: u64 by (simp add: word_unat_eq_iff)
  show ?thesis unfolding plan_experts_def Let_def z [of "c div per"]
    by (auto simp: word_less_nat_alt unat_div min_def max_def not_less)
qed

text \<open>
  C40.  With a known memory size and expert size the planner succeeds and computes its plan exactly, without
  wrap-around.  The target is the percentage of the recommended size, 80 unless the variable
  spells one from 50 to 95, and the largest size when the product does not fit; the cache is what the
  target leaves beside the fixed weights; the experts are as many as fit into it, at least one, at most
  those of the model and those a 32-bit number counts; the effective size is theirs.
\<close>

theorem auto_cache_plan_sound:
  assumes "recommended \<noteq> 0" and "per \<noteq> 0"
    and "storage_auto_cache_plan env recommended non_routed per max_model (Some p0) = (ok, Some p)"
  shows "ok \<and> (\<exists>pct. 50 \<le> pct \<and> pct \<le> 95 \<and> (env = None \<longrightarrow> pct = 80) \<and> (\<forall>n. env = Some (show_nat n) \<longrightarrow> pct = (if 50 \<le> n \<and> n \<le> 95 then n else 80)) \<and>
      unat (model_target_bytes p) = (if unat recommended * pct < 2 ^ 64 then unat recommended * pct div 100 else 2 ^ 64 - 1)) \<and>
    unat (cache_bytes p) = unat (model_target_bytes p) - unat non_routed \<and>
    unat (cache_experts p) = min (min (max 1 (unat (cache_bytes p) div unat per)) (if max_model = 0 then UINT32_MAX else unat max_model)) UINT32_MAX \<and>
    unat (effective_cache_bytes p) = unat (cache_experts p) * unat per"
proof -
  let ?e = "plan_experts (cache_bytes p) per max_model" and ?pct = "storage_auto_cache_percent env"
  note bnd = plan_experts_bounds [OF assms(2)]
  have p: "cache_experts p = ucast ?e" "effective_cache_bytes p = ?e * per" "ok \<longleftrightarrow> cache_experts p \<noteq> 0" "model_target_bytes p = plan_target recommended ?pct"
    "cache_bytes p = (if model_target_bytes p > non_routed then model_target_bytes p - non_routed else 0)"
    using assms by (auto simp: storage_auto_cache_plan_def Let_def)
  have uc: "unat (ucast ?e :: u32) = unat ?e"
    using bnd(2) [of "cache_bytes p" max_model] by (simp add: unsigned_ucast_eq take_bit_nat_eq_self)
  have "unat ?e * unat per < 2 ^ 64"
    using bnd(4) [of "cache_bytes p" max_model] by (meson le_less_trans max_less_iff_conj unat_u64_less)
  then have mul: "unat (?e * per) = unat ?e * unat per" using unat_mult_no_wrap [of ?e per] by simp
  have pct: "50 \<le> unat ?pct" "unat ?pct \<le> 95" using auto_cache_percent_range [of env] by (simp_all add: word_le_nat_alt)
  have "?pct \<noteq> 0" using pct(1) by auto
  then have t: "unat (model_target_bytes p) = (if unat recommended * unat ?pct < 2 ^ 64 then unat recommended * unat ?pct div 100 else 2 ^ 64 - 1)"
    unfolding p(4) by (rule plan_target_exact)
  have env: "env = None \<longrightarrow> unat ?pct = 80" "\<forall>n. env = Some (show_nat n) \<longrightarrow> unat ?pct = (if 50 \<le> n \<and> n \<le> 95 then n else 80)"
    by (auto simp: percent_of_env unat_of_nat)
  have c: "unat (cache_bytes p) = unat (model_target_bytes p) - unat non_routed"
    using p(5) by (auto simp: word_less_nat_alt not_less unat_sub_le word_le_nat_alt)
  have "ok" using p(1,3) uc bnd(1) [of "cache_bytes p" max_model] by auto
  moreover have "unat (cache_experts p) = unat ?e" "unat (effective_cache_bytes p) = unat (cache_experts p) * unat per" using p(1,2) uc mul by simp_all
  ultimately show ?thesis using t env pct c plan_experts_exact [of "cache_bytes p" per max_model]
    by (intro conjI exI [of _ "unat ?pct"]) (simp_all only:)
qed

theorem auto_cache_plan_sound_witness:
  "storage_auto_cache_plan (Some (show_nat 90)) 1000 300 70 6 (Some zero_plan) = (True,
     Some \<lparr>model_target_bytes = 900, cache_bytes = 600, effective_cache_bytes = 420, cache_experts = 6\<rparr>)"
proof -
  obtain ok p where r: "storage_auto_cache_plan (Some (show_nat 90)) 1000 300 70 6 (Some zero_plan) = (ok, Some p)"
    by (simp add: storage_auto_cache_plan_def Let_def)
  have s: "ok" "unat (cache_bytes p) = unat (model_target_bytes p) - 300"
    "unat (cache_experts p) = min (min (max 1 (unat (cache_bytes p) div 70)) 6) UINT32_MAX" "unat (effective_cache_bytes p) = unat (cache_experts p) * 70"
    using auto_cache_plan_sound [OF _ _ r] by simp_all
  have t: "unat (model_target_bytes p) = 900" using auto_cache_plan_sound [OF _ _ r] by fastforce
  moreover have c: "unat (cache_bytes p) = 600" using s t by simp
  moreover have e: "unat (cache_experts p) = 6" using s c by simp
  moreover have "unat (effective_cache_bytes p) = 420" using s e by simp
  ultimately have "p = \<lparr>model_target_bytes = 900, cache_bytes = 600, effective_cache_bytes = 420, cache_experts = 6\<rparr>"
    by (cases p) (simp add: word_unat_eq_iff)
  with r s show ?thesis by simp
qed

section \<open>The memory lock leaks nothing\<close>

text \<open>The bytes of the mapping that are locked after a sequence of events.\<close>

fun locked_bytes :: "lock_event list \<Rightarrow> nat set \<Rightarrow> nat set" where
  "locked_bytes [] l = l"
| "locked_bytes (Touch _ _ # evs) l = locked_bytes evs l"
| "locked_bytes (MLock off len # evs) l = locked_bytes evs (l \<union> {off..<off + len})"
| "locked_bytes (MUnlock n # evs) l = locked_bytes evs (l - {..<n})"
| "locked_bytes (MUnmap n # evs) l = locked_bytes evs (l - {..<n})"

lemma locked_bytes_append: "locked_bytes (a @ b) l = locked_bytes b (locked_bytes a l)"
  by (induction a l rule: locked_bytes.induct) auto

lemma locked_bytes_touch: "locked_bytes (touch_pages page pos stop) l = l"
proof (induction page pos stop rule: touch_pages.induct)
  case (1 page pos stop)
  then show ?case by (subst touch_pages.simps) auto
qed

lemma lock_chunks_step:
  fixes page :: nat and evs :: "lock_event list"
  assumes "off < span"
  defines "len \<equiv> (if span - off > chunk_bytes then chunk_bytes else span - off)"
  defines "touched \<equiv> evs @ touch_pages page off (off + len) @ (if len \<noteq> 0 then [Touch (off + len - 1) 1] else [])"
  shows "lock_chunks os page span off locked evs =
       (if mlock_ok os off len
        then lock_chunks os page span (off + chunk_bytes) (locked + len) (touched @ [MLock off len])
        else (False, touched @ (if locked \<noteq> 0 then [MUnlock locked] else []) @ [MUnmap span]))"
  unfolding len_def touched_def
  by (subst lock_chunks.simps) (use assms(1) in \<open>simp only: Let_def if_True\<close>)

lemma lock_chunks_done: "span \<le> off \<Longrightarrow> lock_chunks os page span off locked evs = (True, evs)"
  by (subst lock_chunks.simps) simp

lemma lock_chunks_locked:
  "off \<le> span \<Longrightarrow> locked_bytes evs {} = {..<off} \<Longrightarrow>
   lock_chunks os page span off off evs = (ok, evs') \<Longrightarrow>
   locked_bytes evs' {} = (if ok then {..<span} else {})"
proof (induction "span - off" arbitrary: off evs rule: less_induct)
  case less
  show ?case
  proof (cases "off < span")
    case False
    with less.prems show ?thesis by (simp add: lock_chunks_done split: if_splits)
  next
    case True
    define len where "len = (if span - off > chunk_bytes then chunk_bytes else span - off)"
    define touched where "touched = evs @ touch_pages page off (off + len) @
      (if len \<noteq> 0 then [Touch (off + len - 1) 1] else [])"
    note step = lock_chunks_step [OF True, of os page off evs, folded len_def, folded touched_def]
    have lb: "locked_bytes touched {} = {..<off}"
      by (simp add: touched_def locked_bytes_append locked_bytes_touch less.prems)
    have ext: "locked_bytes (touched @ [MLock off len]) {} = {..<off + len}"
      by (auto simp: locked_bytes_append lb)
    show ?thesis
    proof (cases "mlock_ok os off len")
      case False
      have sub: "{..<off} - {..<span} = {}" using True by auto
      from False have "ok = False" and "evs' = touched @ (if off \<noteq> 0 then [MUnlock off] else []) @ [MUnmap span]"
        using less.prems(3) unfolding step by simp_all
      then show ?thesis using sub by (simp add: locked_bytes_append lb)
    next
      case mok: True
      have run: "lock_chunks os page span (off + chunk_bytes) (off + len) (touched @ [MLock off len]) = (ok, evs')"
        using less.prems(3) mok unfolding step by simp
      show ?thesis
      proof (cases "span - off > chunk_bytes")
        case big: True
        then have l: "len = chunk_bytes" by (simp add: len_def)
        show ?thesis
          using run ext big unfolding l by (intro less.hyps [of "off + chunk_bytes"]) simp_all
      next
        case small: False
        then have "ok = True" "evs' = touched @ [MLock off len]" "off + len = span"
          using run True by (simp_all add: len_def lock_chunks_done)
        then show ?thesis using ext by simp
      qed
    qed
  qed
qed

text \<open>
  The memory lock leaks nothing: after a successful acquire exactly the requested bytes are
  locked and recorded in the lock; after a failed one no byte is locked or recorded; and releasing
  a successful lock unlocks and unmaps everything it held.
\<close>

theorem memory_lock_no_leak:
  assumes "storage_memory_lock_acquire os (Some l0) want = (ok, Some l, evs)"
  shows "locked_bytes evs {} = (if ok then {..<unat (lock_bytes l)} else {}) \<and>
    lock_bytes l = (if ok then want else 0) \<and>
    locked_bytes (evs @ snd (storage_memory_lock_release (Some l))) {} = {}"
proof -
  have A: "locked_bytes evs {} = (if ok then {..<unat (lock_bytes l)} else {})"
    using assms lock_chunks_locked [of 0 "unat want" "[]" os]
    by (auto simp: storage_memory_lock_acquire_def Let_def split: if_splits option.splits prod.splits bool.splits)
  have B: "lock_bytes l = (if ok then want else 0)"
    using assms by (auto simp: storage_memory_lock_acquire_def Let_def split: if_splits option.splits prod.splits bool.splits)
  have C: "ok \<Longrightarrow> want \<noteq> 0 \<Longrightarrow> lock_ptr l \<noteq> None"
    using assms by (auto simp: storage_memory_lock_acquire_def Let_def split: if_splits option.splits prod.splits bool.splits)
  have "locked_bytes (evs @ snd (storage_memory_lock_release (Some l))) {} = {}"
    using A B C by (cases "want = 0") (auto simp: storage_memory_lock_release_def locked_bytes_append)
  with A B show ?thesis by simp
qed

theorem memory_lock_no_leak_witness:
  "\<exists>l evs. storage_memory_lock_acquire \<lparr>mmap_result = (\<lambda>_. Some 4096), page_size = 4096, mlock_ok = (\<lambda>_ _. True)\<rparr>
      (Some \<lparr>lock_ptr = None, lock_bytes = 0\<rparr>) 5000 = (True, Some l, evs) \<and> lock_bytes l = 5000"
proof -
  let ?os = "\<lparr>mmap_result = (\<lambda>_. Some 4096), page_size = 4096, mlock_ok = (\<lambda>_ _. True)\<rparr>"
  have "fst (lock_chunks ?os 4096 5000 0 0 [])" by (simp add: lock_chunks.simps)
  then obtain l evs where r: "storage_memory_lock_acquire ?os (Some \<lparr>lock_ptr = None, lock_bytes = 0\<rparr>) 5000 = (True, Some l, evs)"
    by (cases "lock_chunks ?os 4096 5000 0 0 []") (auto simp: storage_memory_lock_acquire_def)
  from memory_lock_no_leak [OF r] r show ?thesis by auto
qed

end
