(* ===== verification/GpuArgs.thy ===== *)
theory GpuArgs
  imports CLib
begin

text \<open>
  \<^verbatim>\<open>engine/src/gpu_args.c\<close>: the parser of the \<^verbatim>\<open>--gpu-vram\<close> and \<^verbatim>\<open>--gpu-devices\<close> options and
  the line that echoes the configuration.  A null pointer argument is \<^const>\<open>None\<close>.  The list parser
  returns its error message as a value, which the caller copies into the error buffer; the CUDA
  probe behind \<^verbatim>\<open>--gpu-vram auto\<close>, which lives in a CUDA source, is a parameter.
\<close>

section \<open>Error buffer\<close>

text \<open>A buffer is the C string it holds, \<^const>\<open>None\<close> for a null pointer; \<open>outlen\<close> is its size.\<close>

definition errbuf_set :: "string option \<Rightarrow> u64 \<Rightarrow> string \<Rightarrow> string option" where
  "errbuf_set out outlen msg =
     (if out = None \<or> outlen = 0 then out
      else (let n = length msg; n = (if n \<ge> unat outlen then unat outlen - 1 else n) in Some (take n msg)))"

text \<open>The variadic form: \<^verbatim>\<open>vsnprintf\<close> writes at most \<open>outlen - 1\<close> characters of the formatted text.\<close>

definition errbuf_setf :: "string option \<Rightarrow> u64 \<Rightarrow> string \<Rightarrow> string option" where
  "errbuf_setf out outlen formatted =
     (if out = None \<or> outlen = 0 then out else Some (take (unat outlen - 1) formatted))"

lemma errbuf_setf_eq: "errbuf_setf = errbuf_set"
  by (intro ext) (simp add: errbuf_setf_def errbuf_set_def Let_def)

section \<open>The list parser\<close>

abbreviation DS4_MAX_GPUS :: nat where "DS4_MAX_GPUS \<equiv> 16"
abbreviation DS4_GPU_ARGS_MAX_VRAM_GB :: int where "DS4_GPU_ARGS_MAX_VRAM_GB \<equiv> 16384"
abbreviation DS4_GPU_ARGS_MAX_DEVICE_INDEX :: int where "DS4_GPU_ARGS_MAX_DEVICE_INDEX \<equiv> 1023"
abbreviation DS4_GPU_ARGS_DEFAULT_SAFETY_MARGIN :: u64 where
  "DS4_GPU_ARGS_DEFAULT_SAFETY_MARGIN \<equiv> 512 * 1024 * 1024"

definition skip_blank :: "string \<Rightarrow> string" where
  "skip_blank s = dropWhile (\<lambda>c. c = CHR '' '' \<or> c = CHR 0x09) s"

lemma length_skip_blank: "length (skip_blank s) \<le> length s"
  by (simp add: skip_blank_def length_dropWhile_le)

lemma strtol_end: "snd (snd (strtol s)) = snd (snd (strto_parts s))"
  by (simp add: strtol_def Let_def split: prod.splits)

lemma strtol_end_less:
  assumes "strtol s = (v, err, rest)" and "rest \<noteq> s"
  shows "length rest < length s"
proof -
  have r: "rest = snd (snd (strto_parts s))" using strtol_end [of s] assms(1) by simp
  with assms(2) have "fst (snd (strto_parts s)) \<noteq> []"
    by (auto simp: strto_parts_def Let_def split: if_splits)
  with r show ?thesis by (simp add: strto_end_less)
qed

text \<open>The loop over the entries: \<open>p\<close> is the cursor and \<open>acc\<close> the entries stored so far.\<close>

function csv_loop :: "string \<Rightarrow> nat \<Rightarrow> int \<Rightarrow> string \<Rightarrow> int list \<Rightarrow> string + int list" where
  "csv_loop what max_count max_value p0 acc =
     (if peek p0 = NUL then
        (if acc = [] then Inl (what @ '': no values parsed'') else Inr acc)
      else (let p = skip_blank p0 in
        case strtol p of (v, err, end0) \<Rightarrow>
        if end0 = p then Inl (what @ '': not a number: '' @ [CHR 0x27] @ p @ [CHR 0x27])
        else if err \<or> v < 0 \<or> v > max_value then
          Inl (what @ '': out-of-range value: '' @ [CHR 0x27] @ p @ [CHR 0x27] @ '' (allowed 0..''
               @ show_int max_value @ '')'')
        else if length acc \<ge> max_count then
          Inl (what @ '': too many entries (max '' @ show_nat max_count @ '')'')
        else (let e = skip_blank end0 in
          if peek e = CHR '','' then
            (if peek (tl e) = NUL \<or> peek (tl e) = CHR '',''
             then Inl (what @ '': empty entry near '' @ [CHR 0x27] @ tl e @ [CHR 0x27])
             else csv_loop what max_count max_value (tl e) (acc @ [v]))
          else if peek e \<noteq> NUL then Inl (what @ '': junk after value: '' @ [CHR 0x27] @ e @ [CHR 0x27])
          else csv_loop what max_count max_value e (acc @ [v]))))"
  by pat_completeness auto

lemma csv_cursor_less:
  assumes "strtol (skip_blank p0) = (v, err, end0)" and "end0 \<noteq> skip_blank p0"
  shows "length (skip_blank end0) < length p0"
  using strtol_end_less [OF assms] length_skip_blank [of end0] length_skip_blank [of p0] by linarith

termination csv_loop
  by (relation "measure (\<lambda>(_, _, _, p, _). length p)") 
    (force dest: csv_cursor_less [OF sym])+

declare csv_loop.simps [simp del]


definition parse_csv_int_list :: "string option \<Rightarrow> nat \<Rightarrow> int \<Rightarrow> string \<Rightarrow> string + int list" where
  "parse_csv_int_list s max_count max_value what =
     (case s of None \<Rightarrow> Inl (what @ '': empty value'') | Some s \<Rightarrow>
        if peek s = NUL then Inl (what @ '': empty value'') else csv_loop what max_count max_value s [])"

section \<open>The option parser\<close>

record gpu_config =
  device_indices :: "int list"
  vram_bytes :: "u64 list"
  n_gpus :: int
  safety_margin_bytes :: u64

text \<open>
  The CUDA probe maps the device filter, the configuration, the safety margin and the error buffer
  to a return code and their values after the call.  \<open>cuda_build\<close> is the condition of the
  preprocessor branch.
\<close>

type_synonym cuda_probe =
  "int list option \<Rightarrow> nat \<Rightarrow> gpu_config \<Rightarrow> u64 \<Rightarrow> string option \<Rightarrow> u64 \<Rightarrow> int \<times> gpu_config \<times> string option"

text \<open>The stores of the explicit branch, entry by entry in the fixed-size arrays.\<close>

definition store_explicit :: "int list \<Rightarrow> int list \<Rightarrow> gpu_config \<Rightarrow> gpu_config" where
  "store_explicit devs vrams out =
     foldl (\<lambda>c i. c\<lparr>device_indices := (device_indices c)[i := (if devs \<noteq> [] then devs ! i else int i)],
                    vram_bytes := (vram_bytes c)[i := word_of_int (vrams ! i) * 1024 * 1024 * 1024]\<rparr>)
       (out\<lparr>n_gpus := int (length vrams)\<rparr>) [0..<length vrams]"

definition parse_gpu_vram_arg ::
    "bool \<Rightarrow> cuda_probe \<Rightarrow> string option \<Rightarrow> string option \<Rightarrow> gpu_config option \<Rightarrow> bool option \<Rightarrow>
     string option \<Rightarrow> u64 \<Rightarrow> int \<times> gpu_config option \<times> bool option \<times> string option" where
  "parse_gpu_vram_arg cuda_build probe vram_arg devices_arg out skip errbuf errlen =
     (case (out, skip) of
        (Some out0, Some _) \<Rightarrow>
        (let cfg = out0\<lparr>n_gpus := 0, safety_margin_bytes := DS4_GPU_ARGS_DEFAULT_SAFETY_MARGIN\<rparr>;
             fail = (\<lambda>msg. (1, Some cfg, Some False, errbuf_setf errbuf errlen msg)) in
         case (case devices_arg of None \<Rightarrow> Inr []
               | Some d \<Rightarrow> parse_csv_int_list (Some d) DS4_MAX_GPUS DS4_GPU_ARGS_MAX_DEVICE_INDEX ''--gpu-devices'') of
           Inl msg \<Rightarrow> fail msg
         | Inr devs \<Rightarrow>
           (if vram_arg = None \<and> devices_arg = None
            then fail ''internal: parse_gpu_vram_arg called with both args NULL''
            else (let vram = (case vram_arg of None \<Rightarrow> ''auto'' | Some v \<Rightarrow> v) in
              if vram = ''0'' then
                (if devices_arg \<noteq> None then fail ''--gpu-vram 0 conflicts with --gpu-devices''
                 else (0, Some cfg, Some True, errbuf))
              else if vram = ''auto'' then
                (if cuda_build then
                   (case probe (if devs \<noteq> [] then Some devs else None) (length devs) cfg
                           (safety_margin_bytes cfg) errbuf errlen of
                      (rc, cfg', errbuf') \<Rightarrow> (if rc \<noteq> 0 then 1 else 0, Some cfg', Some False, errbuf'))
                 else fail ''--gpu-vram auto requires a CUDA build'')
              else
                (case parse_csv_int_list (Some vram) DS4_MAX_GPUS DS4_GPU_ARGS_MAX_VRAM_GB ''--gpu-vram'' of
                   Inl msg \<Rightarrow> fail msg
                 | Inr vrams \<Rightarrow>
                   if devs \<noteq> [] \<and> length devs \<noteq> length vrams
                   then fail (''--gpu-devices count ('' @ show_nat (length devs)
                        @ '') does not match --gpu-vram count ('' @ show_nat (length vrams) @ '')'')
                   else (0, Some (store_explicit devs vrams cfg), Some False, errbuf)))))
      | _ \<Rightarrow> (1, out, skip, errbuf_set errbuf errlen ''internal: NULL out parameter''))"

section \<open>The configuration line\<close>

text \<open>
  A sequence of \<^verbatim>\<open>snprintf\<close> calls at the running end of one buffer, which stops at the first call
  that does not fit; the text in the buffer and the number the calls add up to.
\<close>

fun snprintf_chain :: "nat \<Rightarrow> string \<Rightarrow> string list \<Rightarrow> string \<times> nat" where
  "snprintf_chain outlen buf [] = (buf, length buf)"
| "snprintf_chain outlen buf (piece # rest) =
     (if length buf + length piece \<ge> outlen
      then (take (outlen - 1) (buf @ piece), length buf + length piece)
      else snprintf_chain outlen (buf @ piece) rest)"

definition comma_if :: "nat \<Rightarrow> string" where
  "comma_if i = (if i \<noteq> 0 then '','' else [])"

definition layout_pieces :: "gpu_config \<Rightarrow> bool \<Rightarrow> string list" where
  "layout_pieces cfg was_auto =
     [''ds4: GPU config: '' @ show_int (n_gpus cfg) @ '' device'' @ (if n_gpus cfg = 1 then [] else ''s'') @ '' ['']
     @ map (\<lambda>i. comma_if i @ show_int (device_indices cfg ! i)) [0..<nat (n_gpus cfg)]
     @ [''] requested, budgets '']
     @ map (\<lambda>i. comma_if i @ fmt_fixed 0 (nat_to_double (unat (vram_bytes cfg ! i))) (2 ^ 30)) [0..<nat (n_gpus cfg)]
     @ ['' GB; auto='' @ (if was_auto then ''true'' else ''false'')]"

definition format_gpu_layout_line ::
    "gpu_config option \<Rightarrow> bool \<Rightarrow> string option \<Rightarrow> nat \<Rightarrow> int \<times> string option" where
  "format_gpu_layout_line cfg was_auto out outlen =
     (case (cfg, out) of
        (Some cfg, Some _) \<Rightarrow>
          if outlen = 0 then (-1, out)
          else (case snprintf_chain outlen [] (layout_pieces cfg was_auto) of (buf, n) \<Rightarrow> (int n, Some buf))
      | _ \<Rightarrow> (-1, out))"

section \<open>What the list parser accepts\<close>

lemma csv_loop_bounds:
  "csv_loop what mc mv p acc = Inr xs \<Longrightarrow> length acc \<le> mc \<Longrightarrow> list_all (\<lambda>x. 0 \<le> x \<and> x \<le> mv) acc \<Longrightarrow>
   xs \<noteq> [] \<and> length xs \<le> mc \<and> list_all (\<lambda>x. 0 \<le> x \<and> x \<le> mv) xs"
proof (induction what mc mv p acc rule: csv_loop.induct)
  case (1 what mc mv p acc)
  obtain v err rest where st: "strtol (skip_blank p) = (v, err, rest)" by (cases "strtol (skip_blank p)")
  show ?case
  proof (cases "peek p = NUL")
    case True
    with 1(3-5) show ?thesis by (auto simp: csv_loop.simps [of _ _ _ p] split: if_splits)
  next
    case False
    note ok = 1(3) [unfolded csv_loop.simps [of _ _ _ p] Let_def st prod.case]
    have g: "rest \<noteq> skip_blank p" "\<not> err" "0 \<le> v" "v \<le> mv" "length acc < mc"
      using ok False by (auto split: if_splits)
    have acc: "length (acc @ [v]) \<le> mc" "list_all (\<lambda>x. 0 \<le> x \<and> x \<le> mv) (acc @ [v])" using 1(4,5) g by auto
    show ?thesis
    proof (cases "peek (skip_blank rest) = CHR '',''")
      case True
      with ok False g have "csv_loop what mc mv (tl (skip_blank rest)) (acc @ [v]) = Inr xs"
        and "\<not> (peek (tl (skip_blank rest)) = NUL \<or> peek (tl (skip_blank rest)) = CHR '','')"
        by (auto split: if_splits)
      then show ?thesis using 1(1) [OF False refl st [symmetric] refl] g True acc by auto
    next
      case c: False
      with ok False g have "csv_loop what mc mv (skip_blank rest) (acc @ [v]) = Inr xs"
        and "peek (skip_blank rest) = NUL"
        by (auto split: if_splits)
      then show ?thesis using 1(2) [OF False refl st [symmetric] refl] g c acc by auto
    qed
  qed
qed

lemma parse_csv_bounds:
  "parse_csv_int_list s mc mv what = Inr xs \<Longrightarrow> xs \<noteq> [] \<and> length xs \<le> mc \<and> (\<forall>x \<in> set xs. 0 \<le> x \<and> x \<le> mv)"
  by (auto simp: parse_csv_int_list_def list_all_iff dest!: csv_loop_bounds split: option.splits if_splits)

fun csv :: "nat list \<Rightarrow> string" where
  "csv [] = []"
| "csv [n] = show_nat n"
| "csv (n # m # ns) = show_nat n @ '','' @ csv (m # ns)"

lemma show_nat_Cons: obtains d ds where "show_nat n = d # ds" and "isdigit d"
  using show_nat_digits [of n] by (cases "show_nat n") auto

lemma csv_head: obtains d t where "csv (n # ns) = d # t" and "isdigit d"
proof -
  obtain d ds where "show_nat n = d # ds" "isdigit d" by (rule show_nat_Cons)
  then show ?thesis using that by (cases ns) auto
qed

lemma isdigit_notin: "isdigit d \<Longrightarrow> d \<noteq> CHR '' '' \<and> d \<noteq> CHR 0x09 \<and> d \<noteq> CHR '','' \<and> d \<noteq> NUL"
  by (auto simp: isdigit_def)

lemma skip_blank_digit: "isdigit d \<Longrightarrow> skip_blank (d # t) = d # t"
  by (auto simp: skip_blank_def isdigit_def)

lemma csv_step:
  assumes "int n \<le> mv" and "mv \<le> LONG_MAX" and "length acc < mc" and "\<not> isdigit (peek t)"
  shows "csv_loop what mc mv (show_nat n @ t) acc =
     (let e = skip_blank t in
       if peek e = CHR '','' then
            (if peek (tl e) = NUL \<or> peek (tl e) = CHR '',''
             then Inl (what @ '': empty entry near '' @ [CHR 0x27] @ tl e @ [CHR 0x27])
             else csv_loop what mc mv (tl e) (acc @ [int n]))
          else if peek e \<noteq> NUL then Inl (what @ '': junk after value: '' @ [CHR 0x27] @ e @ [CHR 0x27])
          else csv_loop what mc mv e (acc @ [int n]))"
proof -
  obtain d ds where n: "show_nat n = d # ds" and d: "isdigit d" by (rule show_nat_Cons)
  have sk: "skip_blank (show_nat n @ t) = show_nat n @ t" by (simp add: n skip_blank_digit d)
  have "strtol (show_nat n @ t) = (int n, False, t)" using assms by (intro strtol_show_nat) auto
  moreover have "peek (show_nat n @ t) \<noteq> NUL" using isdigit_notin [OF d] by (simp add: n)
  ultimately show ?thesis using assms by (subst csv_loop.simps) (simp add: sk n [symmetric] Let_def)
qed

lemma csv_loop_roundtrip:
  "ns \<noteq> [] \<Longrightarrow> length acc + length ns \<le> mc \<Longrightarrow> \<forall>n \<in> set ns. int n \<le> mv \<Longrightarrow> mv \<le> LONG_MAX \<Longrightarrow>
   csv_loop what mc mv (csv ns) acc = Inr (acc @ map int ns)"
proof (induction ns arbitrary: acc rule: csv.induct)
  case (2 n)
  then have "csv_loop what mc mv (show_nat n @ []) acc = Inr (acc @ [int n])"
    by (subst csv_step) (auto simp: skip_blank_def csv_loop.simps [of _ _ _ "[]"])
  then show ?case by simp
next
  case (3 n m ns)
  obtain d t where dt: "csv (m # ns) = d # t" and d: "isdigit d" by (rule csv_head)
  have e: "skip_blank ('','' @ csv (m # ns)) = '','' @ csv (m # ns)" by (simp add: skip_blank_def)
  have nd: "\<not> isdigit (peek ('','' @ csv (m # ns)))" by (simp add: isdigit_def)
  have "csv_loop what mc mv (show_nat n @ ('','' @ csv (m # ns))) acc
      = csv_loop what mc mv (csv (m # ns)) (acc @ [int n])"
    using 3(3,4) isdigit_notin [OF d] by (subst csv_step [OF _ 3(5) _ nd]) (simp_all only: e, auto simp: dt)
  also have "\<dots> = Inr ((acc @ [int n]) @ map int (m # ns))" using 3 by (intro "3.IH") auto
  finally show ?case by simp
qed simp

lemma parse_csv_roundtrip:
  assumes "ns \<noteq> []" and "length ns \<le> mc" and "\<forall>n \<in> set ns. int n \<le> mv" and "mv \<le> LONG_MAX"
  shows "parse_csv_int_list (Some (csv ns)) mc mv what = Inr (map int ns)"
proof -
  obtain n ms where "ns = n # ms" using assms(1) by (cases ns) auto
  then obtain d t where "csv ns = d # t" and "isdigit d" using csv_head by metis
  then have "peek (csv ns) \<noteq> NUL" using isdigit_notin by auto
  then show ?thesis using csv_loop_roundtrip [of ns "[]" mc mv what] assms by (simp add: parse_csv_int_list_def)
qed

section \<open>The stored configuration\<close>

lemma store_fold:
  fixes f :: "nat \<Rightarrow> int" and g :: "nat \<Rightarrow> u64" and c :: gpu_config
  assumes "n \<le> length (device_indices c)" and "n \<le> length (vram_bytes c)"
  defines "r \<equiv> foldl (\<lambda>c i. c\<lparr>device_indices := (device_indices c)[i := f i],
       vram_bytes := (vram_bytes c)[i := g i]\<rparr>) c [0..<n]"
  shows "device_indices r = map f [0..<n] @ drop n (device_indices c) \<and>
    vram_bytes r = map g [0..<n] @ drop n (vram_bytes c) \<and>
    n_gpus r = n_gpus c \<and> safety_margin_bytes r = safety_margin_bytes c"
  unfolding r_def using assms(1,2)
proof (induction n)
  case (Suc n)
  have upd: "(map h [0..<n] @ drop n xs)[n := h n] = map h [0..<Suc n] @ drop (Suc n) xs"
    if "n < length xs" for h :: "nat \<Rightarrow> 'b" and xs
    using that by (simp add: list_update_append Cons_nth_drop_Suc [symmetric])
  from Suc show ?case by (simp add: upd del: upt_Suc) (simp add: upd upt_Suc_append)
qed simp

lemma store_explicit_fields:
  assumes "length (device_indices c) = DS4_MAX_GPUS" and "length (vram_bytes c) = DS4_MAX_GPUS"
    and "length vrams \<le> DS4_MAX_GPUS" and "i < length vrams"
  shows "n_gpus (store_explicit devs vrams c) = int (length vrams)"
    "device_indices (store_explicit devs vrams c) ! i = (if devs \<noteq> [] then devs ! i else int i)"
    "vram_bytes (store_explicit devs vrams c) ! i = word_of_int (vrams ! i) * 1024 * 1024 * 1024"
    "safety_margin_bytes (store_explicit devs vrams c) = safety_margin_bytes c"
  using store_fold [of "length vrams" "c\<lparr>n_gpus := int (length vrams)\<rparr>" "\<lambda>i. word_of_int (vrams ! i) * 1024 * 1024 * 1024"
      "\<lambda>i. if devs \<noteq> [] then devs ! i else int i"] assms
  by (simp_all add: store_explicit_def nth_append)

lemma gib_bytes_exact:
  assumes "0 \<le> g" and "g \<le> 16384"
  shows "unat (word_of_int g * 1024 * 1024 * 1024 :: u64) = nat g * 2 ^ 30"
proof -
  have a: "word_of_int g * 1024 * 1024 * 1024 = (word_of_int (g * 1073741824) :: u64)" by (simp add: mult.assoc)
  have "unat (word_of_int (g * 1073741824) :: u64) = nat (g * 1073741824)"
    using assms by (simp add: unsigned_of_int take_bit_int_eq_self del: of_int_mult)
  then show ?thesis using assms by (simp only: a) (simp add: nat_mult_distrib)
qed

subsection \<open>What an option value says\<close>

lemma strto_parts_split:
  assumes "strto_parts s = (neg, ds, r)" "ds \<noteq> []"
  shows "\<exists>a sg. s = a @ sg @ ds @ r \<and> list_all isspace a \<and> list_all isdigit ds \<and> sg \<in> {[], ''+'', ''-''} \<and> (neg \<longleftrightarrow> sg = ''-'')"
proof -
  let ?t = "skip_space s"
  define sg where "sg = (if peek ?t = CHR ''-'' \<or> peek ?t = CHR ''+'' then [peek ?t] else [])"
  define u where "u = (if peek ?t = CHR ''-'' \<or> peek ?t = CHR ''+'' then tl ?t else ?t)"
  have t: "?t = sg @ u" using peek_neq_NUL [of ?t] by (auto simp: sg_def u_def)
  have p: "neg = (peek ?t = CHR ''-'')" "ds = takeWhile isdigit u" "r = dropWhile isdigit u"
    using assms by (auto simp: strto_parts_def Let_def u_def split: if_splits)
  have "s = takeWhile isspace s @ sg @ ds @ r" using t p(2,3) takeWhile_dropWhile_id [of isspace s] by (simp add: skip_space_def)
  moreover have "list_all isspace (takeWhile isspace s)" "list_all isdigit ds" by (auto simp: list_all_iff p(2) dest: set_takeWhileD)
  moreover have "sg \<in> {[], ''+'', ''-''}" "neg \<longleftrightarrow> sg = ''-''" by (auto simp: sg_def p(1))
  ultimately show ?thesis by blast
qed

text \<open>
  What an option value says: entries between commas, each a decimal number that may have blanks around it
  and a sign, which for a minus means zero.
\<close>

definition blank :: "char \<Rightarrow> bool" where
  "blank c \<longleftrightarrow> c = CHR '' '' \<or> c = CHR 0x09"

definition spells :: "string \<Rightarrow> nat \<Rightarrow> bool" where
  "spells e v \<longleftrightarrow> (\<exists>a sg ds b. e = a @ sg @ ds @ b \<and> list_all isspace a \<and> sg \<in> {[], ''+'', ''-''} \<and> ds \<noteq> [] \<and> list_all isdigit ds \<and>
     list_all blank b \<and> v = dec_value ds \<and> (sg = ''-'' \<longrightarrow> v = 0))"

inductive csv_reads :: "string \<Rightarrow> nat list \<Rightarrow> bool" where
  Last: "spells e v \<Longrightarrow> csv_reads e [v]"
| Entry: "spells e v \<Longrightarrow> csv_reads s vs \<Longrightarrow> csv_reads (e @ '','' @ s) (v # vs)"

lemma skip_blank_split: "\<exists>b. s = b @ skip_blank s \<and> list_all blank b"
proof (intro exI conjI)
  have "skip_blank s = dropWhile blank s" unfolding skip_blank_def blank_def by (rule arg_cong [where f = "\<lambda>P. dropWhile P s"]) auto
  then show "s = takeWhile blank s @ skip_blank s" by simp
qed (auto simp: list_all_iff dest: set_takeWhileD)

lemma blank_isspace: "blank c \<Longrightarrow> isspace c"
  unfolding blank_def by (elim disjE) (simp_all add: isspace_def)

lemma entry_spells:
  assumes "strtol (skip_blank p) = (v, False, r)" "r \<noteq> skip_blank p" "0 \<le> v"
  shows "\<exists>e. p = e @ skip_blank r \<and> spells e (nat v)"
proof -
  obtain b where b: "p = b @ skip_blank p" "list_all blank b" using skip_blank_split by blast
  obtain c q where c: "r = c @ q" "list_all blank c" "q = skip_blank r" using skip_blank_split by blast
  obtain neg ds r' where st: "strto_parts (skip_blank p) = (neg, ds, r')" by (cases "strto_parts (skip_blank p)")
  have r: "r' = r" using assms(1) st by (auto simp: strtol_def Let_def split: if_splits)
  have v: "v = (if neg then - int (dec_value ds) else int (dec_value ds))" using assms(1) st by (auto simp: strtol_def Let_def split: if_splits)
  have ne: "ds \<noteq> []"
  proof
    assume "ds = []"
    then have "strto_parts (skip_blank p) = (False, [], skip_blank p)" using st by (simp add: strto_parts_def Let_def split: if_splits)
    then show False using st r assms(2) by simp
  qed
  obtain a sg where s: "skip_blank p = a @ sg @ ds @ r" "list_all isspace a" "list_all isdigit ds" "sg \<in> {[], ''+'', ''-''}" "neg \<longleftrightarrow> sg = ''-''"
    using strto_parts_split [OF st ne] r by blast
  have "p = b @ (a @ sg @ ds @ r)" using b(1) unfolding s(1) .
  then have "p = ((b @ a) @ sg @ ds @ c) @ q" unfolding c(1) by simp
  moreover have "list_all isspace (b @ a)" using b(2) s(2) blank_isspace unfolding list_all_iff by auto
  moreover have "nat v = dec_value ds" "sg = ''-'' \<longrightarrow> nat v = 0" using v assms(3) s(5) by auto
  ultimately show ?thesis using s(3,4) ne c(2) unfolding spells_def c(3) [symmetric] by blast
qed

lemma csv_loop_reads:
  "csv_loop what mc mv p acc = Inr xs \<Longrightarrow> NUL \<notin> set p \<Longrightarrow> p \<noteq> [] \<Longrightarrow> \<exists>vs. csv_reads p vs \<and> xs = acc @ map int vs"
proof (induction what mc mv p acc rule: csv_loop.induct)
  case (1 what mc mv p acc)
  obtain v err rest where st: "strtol (skip_blank p) = (v, err, rest)" by (cases "strtol (skip_blank p)")
  have nz: "peek p \<noteq> NUL" using 1(4,5) by (cases p) auto
  note ok = 1(3) [unfolded csv_loop.simps [of _ _ _ p] Let_def st prod.case]
  have g: "rest \<noteq> skip_blank p" "\<not> err" "0 \<le> v" "v \<le> mv" "length acc < mc" using ok nz by (auto split: if_splits)
  let ?e = "skip_blank rest"
  obtain e where e: "p = e @ ?e" "spells e (nat v)" using entry_spells [of p v rest] st g by auto
  have int: "int (nat v) = v" using g(3) by simp
  show ?case
  proof (cases "peek ?e = CHR '',''")
    case True
    with ok nz g have l: "csv_loop what mc mv (tl ?e) (acc @ [v]) = Inr xs" "\<not> (peek (tl ?e) = NUL \<or> peek (tl ?e) = CHR '','')" by (auto split: if_splits)
    have c: "?e = '','' @ tl ?e" using True peek_neq_NUL [of ?e] by simp
    have "NUL \<notin> set (tl ?e)" "tl ?e \<noteq> []" using 1(4) l(2) e(1) c by (metis Un_iff set_append, auto)
    then obtain vs where "csv_reads (tl ?e) vs" "xs = (acc @ [v]) @ map int vs"
      using 1(1) [OF nz refl st [symmetric] refl _ _ _ refl True l(2,1)] g by auto
    then show ?thesis using csv_reads.Entry [OF e(2), of "tl ?e" vs] e(1) c int by (intro exI [of _ "nat v # vs"]) simp
  next
    case False
    with ok nz g have l: "csv_loop what mc mv ?e (acc @ [v]) = Inr xs" "peek ?e = NUL" by (auto split: if_splits)
    then have "?e = []" using 1(4) e(1) by (cases ?e) (metis list.set_intros(1) Un_iff set_append peek_simps(2), auto)
    then show ?thesis using l(1) csv_reads.Last [OF e(2)] e(1) int by (intro exI [of _ "[nat v]"]) (simp add: csv_loop.simps [of _ _ _ "[]"])
  qed
qed

lemma parse_csv_reads:
  assumes "parse_csv_int_list (Some s) mc mv what = Inr xs" "NUL \<notin> set s"
  shows "\<exists>vs. csv_reads s vs \<and> xs = map int vs"
  using assms csv_loop_reads [of what mc mv s "[]" xs] by (cases "s = []") (auto simp: parse_csv_int_list_def split: if_splits)

definition sample_config :: gpu_config where
  "sample_config = \<lparr>device_indices = replicate 16 0, vram_bytes = replicate 16 0, n_gpus = 0, safety_margin_bytes = 0\<rparr>"

text \<open>
  C39.  Whatever the parser accepts is the configuration the options spell: on success with an explicit budget
  list the value of \<^verbatim>\<open>--gpu-vram\<close> reads as 1 to 16 numbers of at most 16384, the budgets are exactly these
  numbers of GiB in bytes, without wrap-around, and the device ids are those \<^verbatim>\<open>--gpu-devices\<close> reads as, as
  many and at most 1023, or the first ones in order; on failure it reports no device; it never asks
  to skip CUDA.
\<close>

theorem gpu_args_sound:
  assumes "parse_gpu_vram_arg cuda probe (Some vram) devices (Some out) (Some sk) errbuf errlen = (rc, Some cfg, Some skip, err)"
    and "vram \<noteq> ''auto''" and "vram \<noteq> ''0''" and "NUL \<notin> set vram" and "\<forall>d. devices = Some d \<longrightarrow> NUL \<notin> set d"
    and "length (device_indices out) = DS4_MAX_GPUS" and "length (vram_bytes out) = DS4_MAX_GPUS"
  shows "\<not> skip \<and> (if rc \<noteq> 0 then n_gpus cfg = 0 else
     (\<exists>gbs ids. csv_reads vram gbs \<and> (case devices of None \<Rightarrow> ids = [0..<length gbs] | Some d \<Rightarrow> csv_reads d ids) \<and>
        1 \<le> length gbs \<and> length gbs \<le> DS4_MAX_GPUS \<and> length ids = length gbs \<and> (\<forall>g \<in> set gbs. g \<le> 16384) \<and> (\<forall>d \<in> set ids. d \<le> 1023) \<and>
        n_gpus cfg = int (length gbs) \<and> take (length gbs) (device_indices cfg) = map int ids \<and>
        map unat (take (length gbs) (vram_bytes cfg)) = map (\<lambda>g. g * 2 ^ 30) gbs))"
proof -
  let ?c = "out\<lparr>n_gpus := 0, safety_margin_bytes := DS4_GPU_ARGS_DEFAULT_SAFETY_MARGIN\<rparr>"
  let ?d = "case devices of None \<Rightarrow> Inr []
     | Some d \<Rightarrow> parse_csv_int_list (Some d) DS4_MAX_GPUS DS4_GPU_ARGS_MAX_DEVICE_INDEX ''--gpu-devices''"
  let ?v = "parse_csv_int_list (Some vram) DS4_MAX_GPUS DS4_GPU_ARGS_MAX_VRAM_GB ''--gpu-vram''"
  note res = assms(1) [unfolded parse_gpu_vram_arg_def Let_def, simplified assms(2,3)]
  consider (bad) "rc = 1" "cfg = ?c" "\<not> skip"
    | (ok) devs vrams where "?d = Inr devs" "?v = Inr vrams" "devs = [] \<or> length devs = length vrams"
        "cfg = store_explicit devs vrams ?c" "rc = 0" "\<not> skip"
    using res assms(2,3) by (auto split: sum.splits if_splits option.splits)
  then show ?thesis
  proof cases
    case (ok devs vrams)
    obtain gbs where gbs: "csv_reads vram gbs" "vrams = map int gbs" using parse_csv_reads [OF ok(2) assms(4)] by blast
    have v: "gbs \<noteq> []" "length gbs \<le> 16" "\<forall>g \<in> set gbs. g \<le> 16384" using parse_csv_bounds [OF ok(2)] gbs(2) by auto
    have "\<exists>ids. (case devices of None \<Rightarrow> ids = [0..<length gbs] | Some d \<Rightarrow> csv_reads d ids) \<and> length ids = length gbs \<and> (\<forall>d \<in> set ids. d \<le> 1023) \<and>
        (\<forall>i < length gbs. int (ids ! i) = (if devs \<noteq> [] then devs ! i else int i))"
    proof (cases devices)
      case None
      then show ?thesis using ok(1) v(2) by (intro exI [of _ "[0..<length gbs]"]) auto
    next
      case (Some d)
      then have r: "parse_csv_int_list (Some d) DS4_MAX_GPUS DS4_GPU_ARGS_MAX_DEVICE_INDEX ''--gpu-devices'' = Inr devs" using ok(1) by simp
      obtain ids where ids: "csv_reads d ids" "devs = map int ids" using parse_csv_reads [OF r] Some assms(5) by blast
      moreover have "devs \<noteq> []" "\<forall>x \<in> set devs. x \<le> 1023" using parse_csv_bounds [OF r] by auto
      ultimately show ?thesis using Some ok(3) gbs(2) by (intro exI [of _ ids]) auto
    qed
    then obtain ids where ids: "case devices of None \<Rightarrow> ids = [0..<length gbs] | Some d \<Rightarrow> csv_reads d ids" "length ids = length gbs" "\<forall>d \<in> set ids. d \<le> 1023"
      "\<forall>i < length gbs. int (ids ! i) = (if devs \<noteq> [] then devs ! i else int i)" by blast
    note f = store_explicit_fields [of ?c vrams _ devs]
    have n: "n_gpus cfg = int (length gbs)" using f(1) [of 0] assms(6,7) v ok(4) gbs(2) by simp
    have len: "length (device_indices cfg) = 16" "length (vram_bytes cfg) = 16"
      using store_fold [of "length vrams" "?c\<lparr>n_gpus := int (length vrams)\<rparr>" "\<lambda>i. word_of_int (vrams ! i) * 1024 * 1024 * 1024" "\<lambda>i. if devs \<noteq> [] then devs ! i else int i"]
        assms(6,7) v(2) gbs(2) ok(4) by (simp_all add: store_explicit_def)
    have "take (length gbs) (device_indices cfg) = map int ids"
      using f(2) assms(6,7) v(2) ok(4) gbs(2) ids(2,4) len by (intro nth_equalityI) simp_all
    moreover have "map unat (take (length gbs) (vram_bytes cfg)) = map (\<lambda>g. g * 2 ^ 30) gbs"
    proof (rule nth_equalityI)
      fix i assume "i < length (map unat (take (length gbs) (vram_bytes cfg)))"
      then have i: "i < length gbs" by simp
      then have "gbs ! i \<le> 16384" using v(3) by simp
      then have "unat (vram_bytes cfg ! i) = gbs ! i * 2 ^ 30"
        using f(3) [of i] assms(6,7) v(2) ok(4) gbs(2) i gib_bytes_exact [of "int (gbs ! i)"] by simp
      then show "map unat (take (length gbs) (vram_bytes cfg)) ! i = map (\<lambda>g. g * 2 ^ 30) gbs ! i" using i len v(2) by simp
    qed (use len v(2) in simp)
    moreover have "1 \<le> length gbs" using v(1) by (cases gbs) simp_all
    ultimately show ?thesis using gbs(1) ids(1-3) v(2,3) n ok(5,6) by auto
  qed simp
qed

theorem gpu_args_sound_witness:
  "\<exists>cfg gbs ids. parse_gpu_vram_arg False (\<lambda>_ _ c _ e _. (0, c, e)) (Some ''40, 12'') (Some ''3,1'') (Some sample_config)
       (Some False) None 0 = (0, Some cfg, Some False, None) \<and> csv_reads ''40, 12'' gbs \<and> csv_reads ''3,1'' ids \<and>
     take (length gbs) (device_indices cfg) = map int ids \<and> map unat (take (length gbs) (vram_bytes cfg)) = map (\<lambda>g. g * 2 ^ 30) gbs"
proof -
  have run: "(case parse_gpu_vram_arg False (\<lambda>_ _ c _ e _. (0, c, e)) (Some ''40, 12'') (Some ''3,1'')
      (Some sample_config) (Some False) None 0 of (rc, c, sk, e) \<Rightarrow> rc = 0 \<and> c \<noteq> None \<and> sk = Some False \<and> e = None)"
    by code_simp
  then obtain cfg where r: "parse_gpu_vram_arg False (\<lambda>_ _ c _ e _. (0, c, e)) (Some ''40, 12'') (Some ''3,1'')
       (Some sample_config) (Some False) None 0 = (0, Some cfg, Some False, None)"
    by (auto split: prod.splits)
  have l: "length (device_indices sample_config) = DS4_MAX_GPUS" "length (vram_bytes sample_config) = DS4_MAX_GPUS" by (simp_all add: sample_config_def)
  show ?thesis using gpu_args_sound [OF r _ _ _ _ l] r by auto
qed

text \<open>
  The documented syntax is understood exactly: a list of budgets in GiB written in decimal and
  separated by commas, with an optional device list of the same length, configures those
  devices (the first ones in order when no list is given) with those budgets in bytes.
\<close>

theorem gpu_args_explicit:
  assumes "gbs \<noteq> []" and "length gbs \<le> DS4_MAX_GPUS" and "\<forall>g \<in> set gbs. g \<le> 16384" and "gbs \<noteq> [0]"
    and "devs = [] \<or> length devs = length gbs" and "\<forall>d \<in> set devs. d \<le> 1023"
    and "length (device_indices out) = DS4_MAX_GPUS" and "length (vram_bytes out) = DS4_MAX_GPUS"
  shows "\<exists>cfg. parse_gpu_vram_arg cuda probe (Some (csv gbs)) (if devs = [] then None else Some (csv devs))
       (Some out) (Some sk) errbuf errlen = (0, Some cfg, Some False, errbuf) \<and>
     n_gpus cfg = int (length gbs) \<and> safety_margin_bytes cfg = 512 * 2 ^ 20 \<and>
     (\<forall>i < length gbs. device_indices cfg ! i = int (if devs = [] then i else devs ! i) \<and>
        unat (vram_bytes cfg ! i) = gbs ! i * 2 ^ 30)"
proof -
  let ?c = "out\<lparr>n_gpus := 0, safety_margin_bytes := DS4_GPU_ARGS_DEFAULT_SAFETY_MARGIN\<rparr>"
  let ?cfg = "store_explicit (map int devs) (map int gbs) ?c"
  have v: "parse_csv_int_list (Some (csv gbs)) 16 16384 ''--gpu-vram'' = Inr (map int gbs)"
    using assms(1-3) by (intro parse_csv_roundtrip) auto
  have d: "parse_csv_int_list (Some (csv devs)) 16 1023 ''--gpu-devices'' = Inr (map int devs)" if "devs \<noteq> []"
    using assms(2,5,6) that by (intro parse_csv_roundtrip) auto
  obtain d t where "csv gbs = d # t" and "isdigit d" using csv_head [of "hd gbs" "tl gbs"] assms(1) by auto
  then have na: "csv gbs \<noteq> ''auto''" by (auto simp: isdigit_def)
  have n0: "csv gbs \<noteq> ''0''"
  proof
    assume "csv gbs = ''0''"
    moreover have "csv [0] = ''0''" by code_simp
    ultimately have "parse_csv_int_list (Some (csv [0])) 16 16384 ''--gpu-vram'' = Inr (map int gbs)" using v by simp
    with parse_csv_roundtrip [of "[0]" 16 16384 "''--gpu-vram''"] have "map int [0] = map int gbs" by simp
    with assms(4) show False by (auto simp: inj_map_eq_map inj_def)
  qed
  have "parse_gpu_vram_arg cuda probe (Some (csv gbs)) (if devs = [] then None else Some (csv devs))
       (Some out) (Some sk) errbuf errlen = (0, Some ?cfg, Some False, errbuf)"
    using v d na n0 assms(5) by (cases "devs = []") (simp_all add: parse_gpu_vram_arg_def)
  moreover have "n_gpus ?cfg = int (length gbs)" "safety_margin_bytes ?cfg = 512 * 2 ^ 20"
    using store_explicit_fields(1,4) [of ?c "map int gbs" 0 "map int devs"] assms by auto
  moreover have "device_indices ?cfg ! i = int (if devs = [] then i else devs ! i)
      \<and> unat (vram_bytes ?cfg ! i) = gbs ! i * 2 ^ 30" if "i < length gbs" for i
    using store_explicit_fields(2,3) [of ?c "map int gbs" i "map int devs"] assms that
      gib_bytes_exact [of "int (gbs ! i)"] by (auto simp del: One_nat_def)
  ultimately show ?thesis by blast
qed

theorem gpu_args_explicit_witness:
  "\<exists>cfg. parse_gpu_vram_arg True (\<lambda>_ _ c _ e _. (0, c, e)) (Some (csv [40, 12])) (Some (csv [3, 1]))
       (Some sample_config) (Some False) None 0 = (0, Some cfg, Some False, None) \<and> n_gpus cfg = 2"
  using gpu_args_explicit [of "[40, 12]" "[3, 1]" sample_config True "\<lambda>_ _ c _ e _. (0, c, e)" False None 0]
  by (auto simp: sample_config_def)

section \<open>The printed line\<close>

lemma snprintf_chain_spec:
  assumes "length buf < outlen" and "snprintf_chain outlen buf ps = (out, n)"
  shows "out = take (outlen - 1) (buf @ concat ps) \<and> n \<le> length (buf @ concat ps) \<and>
    (n < outlen \<longleftrightarrow> length (buf @ concat ps) < outlen) \<and> (n < outlen \<longrightarrow> n = length out)"
  using assms
proof (induction outlen buf ps rule: snprintf_chain.induct)
  case (2 outlen buf piece rest)
  show ?case
  proof (cases "length buf + length piece \<ge> outlen")
    case True
    with 2(3) have "out = take (outlen - 1) (buf @ piece)" "n = length buf + length piece" by auto
    with True 2(2) show ?thesis by auto
  next
    case False
    with 2 show ?thesis by auto
  qed
qed auto

text \<open>
  The configuration line is written completely or truncated: the buffer holds the longest prefix
  of the full line that fits with its terminator, and the return value is below the buffer size
  exactly when the whole line fits, in which case it is the number of characters written.
\<close>

theorem layout_line_exact:
  assumes "0 < outlen" and "format_gpu_layout_line (Some cfg) was_auto (Some old) outlen = (n, Some out)"
  defines "line \<equiv> concat (layout_pieces cfg was_auto)"
  shows "out = take (outlen - 1) line \<and> (n < int outlen \<longleftrightarrow> length line < outlen) \<and>
    (n < int outlen \<longrightarrow> out = line \<and> n = int (length out))"
proof -
  obtain b m where s: "snprintf_chain outlen [] (layout_pieces cfg was_auto) = (b, m)" by (meson surj_pair)
  have "out = b" "n = int m" using assms(1,2) s by (auto simp: format_gpu_layout_line_def)
  with snprintf_chain_spec [OF _ s] assms(1) show ?thesis unfolding line_def by auto
qed

theorem layout_line_exact_witness:
  "\<exists>n out. format_gpu_layout_line (Some (sample_config\<lparr>n_gpus := 2\<rparr>)) True (Some []) 80 = (n, Some out) \<and>
     out = take 79 (concat (layout_pieces (sample_config\<lparr>n_gpus := 2\<rparr>) True))"
proof -
  obtain n b where "snprintf_chain 80 [] (layout_pieces (sample_config\<lparr>n_gpus := 2\<rparr>) True) = (b, n)"
    by (meson surj_pair)
  then have r: "format_gpu_layout_line (Some (sample_config\<lparr>n_gpus := 2\<rparr>)) True (Some []) 80 = (int n, Some b)"
    by (simp add: format_gpu_layout_line_def)
  from layout_line_exact [OF _ r] show ?thesis using r by auto
qed

end
