(* ===== verification/Buffers.thy ===== *)
theory Buffers
  imports CLib
begin

text \<open>
  The growable byte buffers of \<^verbatim>\<open>server.c\<close> (\<^verbatim>\<open>buf\<close>) and \<^verbatim>\<open>kv_store.c\<close> (\<^verbatim>\<open>kv_buf\<close>).  The
  contents are a list; the capacity is a \<^verbatim>\<open>size_t\<close>, and the growth arithmetic is done on it at
  full width.  \<open>Die\<close> is the call of \<^verbatim>\<open>die\<close>/\<^verbatim>\<open>kv_die\<close>, which ends the process.  A doubling loop that
  does not end is the value \<^const>\<open>None\<close>.

  Both buffers meet the interface \<open>growable\<close>: as long as the contents stay below \<open>2 ^ 62\<close> bytes,
  reserving succeeds, keeps the contents and leaves room for them and the terminating NUL.  The
  other components use buffers through that contract only, and so model a buffer by its contents.
\<close>

datatype 'a outcome = Done 'a | Die string

record buf =
  buf_data :: string
  buf_cap :: u64

definition empty_buf :: buf where
  "empty_buf = \<lparr>buf_data = [], buf_cap = 0\<rparr>"

definition buf_len :: "buf \<Rightarrow> u64" where
  "buf_len b = word_of_nat (length (buf_data b))"

section \<open>Reserving room\<close>

text \<open>\<^verbatim>\<open>server.c\<close>: the doubling loop with its overflow guard.\<close>

partial_function (option) grow_cap :: "u64 \<Rightarrow> u64 \<Rightarrow> u64 option" where
  "grow_cap cap need =
     (if cap < need then
        (if cap > UINT64_MAX div 2 then Some need else grow_cap (cap * 2) need)
      else Some cap)"

text \<open>\<^verbatim>\<open>kv_store.c\<close>: the same loop without the guard.\<close>

partial_function (option) kv_grow_cap :: "u64 \<Rightarrow> u64 \<Rightarrow> u64 option" where
  "kv_grow_cap cap need = (if cap < need then kv_grow_cap (cap * 2) need else Some cap)"

definition reserve_with :: "(u64 \<Rightarrow> u64 \<Rightarrow> u64 option) \<Rightarrow> buf \<Rightarrow> u64 \<Rightarrow> buf outcome option" where
  "reserve_with grow b add =
     (if add > UINT64_MAX - buf_len b - 1 then Some (Die ''buffer overflow'')
      else (let need = buf_len b + add + 1 in
        if need \<le> buf_cap b then Some (Done b)
        else map_option (\<lambda>cap. Done (b\<lparr>buf_cap := cap\<rparr>))
               (grow (if buf_cap b \<noteq> 0 then buf_cap b * 2 else 256) need)))"

definition buf_reserve :: "buf \<Rightarrow> u64 \<Rightarrow> buf outcome option" where
  "buf_reserve = reserve_with grow_cap"

definition kv_buf_reserve :: "buf \<Rightarrow> u64 \<Rightarrow> buf outcome option" where
  "kv_buf_reserve = reserve_with kv_grow_cap"

section \<open>Appending\<close>

definition append_with :: "(buf \<Rightarrow> u64 \<Rightarrow> buf outcome option) \<Rightarrow> buf \<Rightarrow> string \<Rightarrow> buf outcome option" where
  "append_with reserve b s =
     (case reserve b (word_of_nat (length s)) of
        Some (Done b') \<Rightarrow> Some (Done (b'\<lparr>buf_data := buf_data b' @ s\<rparr>))
      | r \<Rightarrow> r)"

definition buf_append :: "buf \<Rightarrow> string \<Rightarrow> buf outcome option" where
  "buf_append = append_with buf_reserve"

definition buf_putc :: "buf \<Rightarrow> char \<Rightarrow> buf outcome option" where
  "buf_putc b c = buf_append b [c]"

definition buf_puts :: "buf \<Rightarrow> string \<Rightarrow> buf outcome option" where
  "buf_puts b s = buf_append b (cstr s)"

text \<open>The contents handed over, and the buffer reset.\<close>

definition buf_take :: "buf \<Rightarrow> string \<times> buf" where
  "buf_take b = (buf_data b, empty_buf)"

definition buf_free :: "buf \<Rightarrow> buf" where
  "buf_free b = empty_buf"

definition kv_buf_append :: "buf \<Rightarrow> string \<Rightarrow> buf outcome option" where
  "kv_buf_append = append_with kv_buf_reserve"

definition kv_buf_putc :: "buf \<Rightarrow> char \<Rightarrow> buf outcome option" where
  "kv_buf_putc b c = kv_buf_append b [c]"

definition kv_buf_puts :: "buf \<Rightarrow> string \<Rightarrow> buf outcome option" where
  "kv_buf_puts b s = kv_buf_append b (cstr s)"

definition kv_buf_take :: "buf \<Rightarrow> string \<times> buf" where
  "kv_buf_take b = (buf_data b, empty_buf)"

section \<open>The contract of a growable buffer\<close>

text \<open>The allocation behind the buffer has room for the contents and the terminating NUL.\<close>

definition buf_ok :: "buf \<Rightarrow> bool" where
  "buf_ok b \<longleftrightarrow> length (buf_data b) < unat (buf_cap b) \<or> b = empty_buf"

fun append_all_with :: "(buf \<Rightarrow> u64 \<Rightarrow> buf outcome option) \<Rightarrow> buf \<Rightarrow> string list \<Rightarrow> buf outcome option" where
  "append_all_with reserve b [] = Some (Done b)"
| "append_all_with reserve b (s # ss) =
     (case append_with reserve b s of Some (Done b') \<Rightarrow> append_all_with reserve b' ss | r \<Rightarrow> r)"

locale growable =
  fixes reserve :: "buf \<Rightarrow> u64 \<Rightarrow> buf outcome option"
  assumes reserve_room:
    "buf_ok b \<Longrightarrow> length (buf_data b) + n + 1 \<le> 2 ^ 62 \<Longrightarrow>
     \<exists>cap. reserve b (word_of_nat n) = Some (Done (b\<lparr>buf_cap := cap\<rparr>)) \<and>
       length (buf_data b) + n < unat cap"
begin

lemma append_contents:
  assumes "buf_ok b" and "length (buf_data b) + length s + 1 \<le> 2 ^ 62"
  shows "\<exists>b'. append_with reserve b s = Some (Done b') \<and> buf_data b' = buf_data b @ s \<and> buf_ok b'"
proof -
  obtain cap where "reserve b (word_of_nat (length s)) = Some (Done (b\<lparr>buf_cap := cap\<rparr>))"
    and "length (buf_data b) + length s < unat cap"
    using reserve_room [OF assms] by blast
  then show ?thesis by (simp add: append_with_def buf_ok_def)
qed

lemma append_all_contents:
  assumes "buf_ok b" and "length (buf_data b) + length (concat ss) + 1 \<le> 2 ^ 62"
  shows "\<exists>b'. append_all_with reserve b ss = Some (Done b') \<and> buf_data b' = buf_data b @ concat ss \<and> buf_ok b'"
  using assms
proof (induction ss arbitrary: b)
  case Nil
  then show ?case by simp
next
  case (Cons s ss)
  then have "length (buf_data b) + length s + 1 \<le> 2 ^ 62" by simp
  with append_contents [OF Cons.prems(1)] obtain b' where
    b': "append_with reserve b s = Some (Done b')" "buf_data b' = buf_data b @ s" "buf_ok b'" by blast
  from Cons.IH [OF b'(3)] Cons.prems(2) show ?case by (simp add: b')
qed

end

lemma unat_double: "unat (c :: u64) < 2 ^ 63 \<Longrightarrow> unat (c * 2) = 2 * unat c"
  using unat_mult_no_wrap [of c 2] by simp

lemma kv_grow_cap_ends:
  "0 < unat cap \<Longrightarrow> unat need \<le> 2 ^ 63 \<Longrightarrow> \<exists>c. kv_grow_cap cap need = Some c \<and> need \<le> c"
proof (induction "unat need - unat cap" arbitrary: cap rule: less_induct)
  case less
  show ?case
  proof (cases "cap < need")
    case True
    then have lt: "unat cap < unat need" by (simp add: word_less_nat_alt)
    with less.prems(2) have d: "unat (cap * 2) = 2 * unat cap" by (intro unat_double) linarith
    have "\<exists>c. kv_grow_cap (cap * 2) need = Some c \<and> need \<le> c"
      by (rule less.hyps) (use lt d less.prems in linarith)+
    with True show ?thesis by (simp add: kv_grow_cap.simps [of cap need])
  next
    case False
    then show ?thesis by (simp add: kv_grow_cap.simps [of cap need])
  qed
qed

lemma grow_cap_eq: "0 < unat cap \<Longrightarrow> unat need \<le> 2 ^ 63 \<Longrightarrow> grow_cap cap need = kv_grow_cap cap need"
proof (induction "unat need - unat cap" arbitrary: cap rule: less_induct)
  case less
  show ?case
  proof (cases "cap < need")
    case True
    then have lt: "unat cap < unat need" by (simp add: word_less_nat_alt)
    with less.prems(2) have d: "unat (cap * 2) = 2 * unat cap" by (intro unat_double) linarith
    have g: "\<not> cap > UINT64_MAX div 2" using lt less.prems(2) by (simp add: word_less_nat_alt)
    have "grow_cap (cap * 2) need = kv_grow_cap (cap * 2) need"
      by (rule less.hyps) (use lt d less.prems in linarith)+
    with True g show ?thesis by (simp add: grow_cap.simps [of cap need] kv_grow_cap.simps [of cap need])
  next
    case False
    then show ?thesis by (simp add: grow_cap.simps [of cap need] kv_grow_cap.simps [of cap need])
  qed
qed

lemma reserve_with_room:
  assumes grow: "\<And>cap need. 0 < unat cap \<Longrightarrow> unat need \<le> 2 ^ 63 \<Longrightarrow> \<exists>c. grow cap need = Some c \<and> need \<le> c"
    and ok: "buf_ok b" and small: "length (buf_data b) + n + 1 \<le> 2 ^ 62"
  shows "\<exists>cap. reserve_with grow b (word_of_nat n) = Some (Done (b\<lparr>buf_cap := cap\<rparr>)) \<and>
    length (buf_data b) + n < unat cap"
proof -
  let ?l = "length (buf_data b)"
  let ?need = "buf_len b + word_of_nat n + 1"
  have un: "unat (word_of_nat k :: u64) = k" if "k \<le> 2 ^ 62" for k
    using that by (simp add: unat_of_nat)
  have "?need = word_of_nat (?l + n + 1)" by (simp add: buf_len_def)
  with un [OF small] have need: "unat ?need = ?l + n + 1" by (simp only:)
  have len: "unat (buf_len b) = ?l" using small by (simp add: buf_len_def un)
  have m1: "unat (UINT64_MAX - buf_len b) = 18446744073709551615 - ?l"
    using small len by (subst unat_sub_le) (simp_all add: word_le_nat_alt)
  have "unat (UINT64_MAX - buf_len b - 1) = 18446744073709551615 - ?l - 1"
    using small m1 by (subst unat_sub_le) (simp_all add: word_le_nat_alt)
  with small have guard: "\<not> word_of_nat n > UINT64_MAX - buf_len b - 1"
    by (simp add: word_less_nat_alt un)
  show ?thesis
  proof (cases "?need \<le> buf_cap b")
    case True
    then have "?l + n < unat (buf_cap b)" using need by (simp add: word_le_nat_alt)
    moreover have "reserve_with grow b (word_of_nat n) = Some (Done (b\<lparr>buf_cap := buf_cap b\<rparr>))"
      using guard True by (simp add: reserve_with_def Let_def)
    ultimately show ?thesis by blast
  next
    case False
    let ?c0 = "if buf_cap b \<noteq> 0 then buf_cap b * 2 else 256"
    have "unat (buf_cap b) < ?l + n + 1" using False need by (simp add: word_le_nat_alt)
    then have "unat (buf_cap b) < 2 ^ 63" using small by simp
    then have "0 < unat ?c0" using unat_double [of "buf_cap b"] by (auto simp: word_unat_eq_iff)
    moreover have "unat ?need \<le> 2 ^ 63" unfolding need using small by simp
    ultimately obtain c where c: "grow ?c0 ?need = Some c" "?need \<le> c" using grow by blast
    then have "?l + n < unat c" using need by (simp add: word_le_nat_alt)
    with c(1) guard False show ?thesis by (auto simp: reserve_with_def Let_def)
  qed
qed

interpretation server_buf: growable buf_reserve
  by unfold_locales (auto simp: buf_reserve_def grow_cap_eq kv_grow_cap_ends intro!: reserve_with_room)

interpretation store_buf: growable kv_buf_reserve
  by unfold_locales (auto simp: kv_buf_reserve_def kv_grow_cap_ends intro!: reserve_with_room)

text \<open>
  The server's buffer never loses or corrupts bytes: any sequence of appends whose total stays
  below the size bound ends (the doubling loop terminates), does not abort, and leaves exactly the
  concatenation of what was appended, with room for the terminating NUL.
\<close>

theorem buf_appends_exact:
  assumes "length (concat ss) + 1 \<le> 2 ^ 62"
  shows "\<exists>b. append_all_with buf_reserve empty_buf ss = Some (Done b) \<and>
    buf_take b = (concat ss, empty_buf) \<and> buf_ok b"
  using server_buf.append_all_contents [of empty_buf ss] assms
  by (auto simp: empty_buf_def buf_ok_def buf_take_def)

theorem buf_appends_exact_witness:
  "\<exists>b. append_all_with buf_reserve empty_buf [''data: '', ''{}''] = Some (Done b) \<and>
    buf_take b = (''data: {}'', empty_buf) \<and> buf_ok b"
  using buf_appends_exact [of "[''data: '', ''{}'']"] by simp

section \<open>A loop that does not end\<close>

lemma kv_grow_cap_zero: "kv_grow_cap 0 need = None" if "0 < need"
proof (rule ccontr)
  assume "kv_grow_cap 0 need \<noteq> None"
  then obtain r where r: "kv_grow_cap 0 need = Some r" by auto
  have "\<not> ((0 :: u64) = 0 \<and> 0 < need)"
  proof (rule kv_grow_cap.raw_induct [where P = "\<lambda>cap need r. \<not> (cap = 0 \<and> 0 < need)", OF _ r])
    fix f and cap need :: u64 and r
    assume IH: "\<And>cap need r. f cap need = Some r \<Longrightarrow> \<not> (cap = 0 \<and> 0 < need)"
      and eq: "(if cap < need then f (cap * 2) need else Some cap) = Some r"
    show "\<not> (cap = 0 \<and> 0 < need)"
      using eq IH [of "0 * 2" need r] by auto
  qed
  with that show False by simp
qed

lemma kv_grow_cap_power: "k \<le> 64 \<Longrightarrow> 2 ^ 63 < unat need \<Longrightarrow> kv_grow_cap (2 ^ k) need = None"
proof (induction "64 - k" arbitrary: k)
  case 0
  then have "k = 64" by simp
  then have "(2 :: u64) ^ k = 0" by simp
  moreover have "0 < need" using 0 by (auto simp: word_less_nat_alt)
  ultimately show ?case using kv_grow_cap_zero [of need] by (simp only:)
next
  case (Suc m)
  then have k: "k < 64" by simp
  have IH: "kv_grow_cap (2 ^ Suc k) need = None" by (rule Suc.hyps) (use Suc in auto)
  have "unat ((2 :: u64) ^ k) = 2 ^ k" using k by (simp add: unat_pow2)
  then have "2 ^ k < need" using k Suc.prems(2) power_increasing [of k 63 "2 :: nat"]
    by (simp add: word_less_nat_alt)
  then show ?case using IH by (simp add: kv_grow_cap.simps [of "2 ^ k"] mult.commute)
qed

text \<open>
  C38.  The KV store's buffer lacks the server buffer's overflow guard: on an empty buffer a request
  of more than \<open>2 ^ 63 - 1\<close> bytes that passes the size check makes the doubling loop run forever
  (the capacity wraps to zero and stays there), where the server's buffer returns.
\<close>

theorem kv_buf_reserve_diverges:
  assumes "2 ^ 63 \<le> unat n" and "n < UINT64_MAX"
  shows "kv_buf_reserve empty_buf n = None \<and>
    buf_reserve empty_buf n = Some (Done (empty_buf\<lparr>buf_cap := n + 1\<rparr>))"
proof -
  have "n \<le> UINT64_MAX - 1" using assms(2) by (simp add: word_less_nat_alt word_le_nat_alt)
  then have guard: "\<not> n > UINT64_MAX - buf_len empty_buf - 1" by (simp add: buf_len_def empty_buf_def)
  have need: "unat (n + 1) = unat n + 1"
    using unat_add_no_wrap [of n 1] assms(2) by (simp add: word_less_nat_alt)
  have kv: "kv_grow_cap (2 ^ 8) (n + 1) = None"
    by (rule kv_grow_cap_power) (use assms(1) need in simp_all)
  have gr: "k \<le> 63 \<Longrightarrow> grow_cap (2 ^ k) (n + 1) = Some (n + 1)" for k
  proof (induction "63 - k" arbitrary: k)
    case 0
    then have "k = 63" by simp
    then show ?case using assms(1) need by (simp add: grow_cap.simps [of 9223372036854775808] word_less_nat_alt)
  next
    case (Suc m)
    then have k: "k < 63" by simp
    have IH: "grow_cap (2 ^ Suc k) (n + 1) = Some (n + 1)" by (rule Suc.hyps) (use Suc in auto)
    have u: "unat ((2 :: u64) ^ k) = 2 ^ k" using k by (simp add: unat_pow2)
    have p: "(2 :: nat) ^ k \<le> 2 ^ 62" using k by (intro power_increasing) auto
    have "2 ^ k < n + 1" using u p assms(1) need by (simp add: word_less_nat_alt)
    moreover have "\<not> 2 ^ k > UINT64_MAX div 2" using u p by (simp add: word_less_nat_alt)
    ultimately show ?case using IH by (simp add: grow_cap.simps [of "2 ^ k"] mult.commute)
  qed
  have cap: "\<not> n + 1 \<le> 0" using need by (simp add: word_le_nat_alt)
  show ?thesis
    using kv gr [of 8] guard cap
    by (simp add: kv_buf_reserve_def buf_reserve_def reserve_with_def Let_def buf_len_def empty_buf_def)
qed

theorem kv_buf_reserve_diverges_witness: "kv_buf_reserve empty_buf 9223372036854775808 = None"
  using kv_buf_reserve_diverges [of 9223372036854775808] by simp

end
