(* ===== verification/Sha1.thy ===== *)
theory Sha1
  imports Prelude
begin

text \<open>
  The streaming SHA-1 of \<^verbatim>\<open>kv_store.c\<close>, which names a cached checkpoint by the digest of its
  rendered text.  The context keeps the chaining value, the byte count, a 64-byte block and how much
  of it is used.  The reference is FIPS 180 in terms of numbers and library rotations, written
  independently of the code; \<open>sha1_stream_correct\<close> relates the two.
\<close>

section \<open>The streaming code\<close>

record sha1_ctx =
  sha_h :: "u32 list"
  sha_bytes :: u64
  sha_block :: bytes
  sha_used :: nat

definition rol32 :: "u32 \<Rightarrow> nat \<Rightarrow> u32" where
  "rol32 v n = push_bit n v OR drop_bit (32 - n) v"

definition be_word :: "bytes \<Rightarrow> nat \<Rightarrow> u32" where
  "be_word block i = push_bit 24 (ucast (block ! (i * 4))) OR push_bit 16 (ucast (block ! (i * 4 + 1)))
     OR push_bit 8 (ucast (block ! (i * 4 + 2))) OR ucast (block ! (i * 4 + 3))"

fun extend_words :: "u32 list \<Rightarrow> nat list \<Rightarrow> u32 list" where
  "extend_words w [] = w"
| "extend_words w (i # is) =
     extend_words (w @ [rol32 (w ! (i - 3) XOR w ! (i - 8) XOR w ! (i - 14) XOR w ! (i - 16)) 1]) is"

definition round_fk :: "nat \<Rightarrow> u32 \<Rightarrow> u32 \<Rightarrow> u32 \<Rightarrow> u32 \<times> u32" where
  "round_fk i b cc d =
     (if i < 20 then ((b AND cc) OR (NOT b AND d), 0x5a827999)
      else if i < 40 then (b XOR cc XOR d, 0x6ed9eba1)
      else if i < 60 then ((b AND cc) OR (b AND d) OR (cc AND d), 0x8f1bbcdc)
      else (b XOR cc XOR d, 0xca62c1d6))"

fun sha1_rounds :: "u32 list \<Rightarrow> nat list \<Rightarrow> u32 \<times> u32 \<times> u32 \<times> u32 \<times> u32 \<Rightarrow> u32 \<times> u32 \<times> u32 \<times> u32 \<times> u32" where
  "sha1_rounds w [] st = st"
| "sha1_rounds w (i # is) (a, b, cc, d, e) =
     (case round_fk i b cc d of (f, k) \<Rightarrow>
        sha1_rounds w is (rol32 a 5 + f + e + k + w ! i, a, rol32 b 30, cc, d))"

definition sha1_schedule :: "bytes \<Rightarrow> u32 list" where
  "sha1_schedule block = extend_words (map (be_word block) [0..<16]) [16..<80]"

definition sha1_all_rounds :: "u32 list \<Rightarrow> u32 list \<Rightarrow> u32 \<times> u32 \<times> u32 \<times> u32 \<times> u32" where
  "sha1_all_rounds w h = sha1_rounds w [0..<80] (h ! 0, h ! 1, h ! 2, h ! 3, h ! 4)"

definition sha1_transform :: "sha1_ctx \<Rightarrow> bytes \<Rightarrow> sha1_ctx" where
  "sha1_transform c block =
     (let h = sha_h c in
      case sha1_all_rounds (sha1_schedule block) h of (a, b, cc, d, e) \<Rightarrow>
        c\<lparr>sha_h := [h ! 0 + a, h ! 1 + b, h ! 2 + cc, h ! 3 + d, h ! 4 + e]\<rparr>)"

definition sha1_init :: "sha1_ctx \<Rightarrow> sha1_ctx" where
  "sha1_init c = c\<lparr>sha_h := [0x67452301, 0xefcdab89, 0x98badcfe, 0x10325476, 0xc3d2e1f0],
     sha_bytes := 0, sha_used := 0\<rparr>"

text \<open>
  The loop of \<^verbatim>\<open>sha1_update\<close>.  A context whose block is already full is not fed: the code never
  leaves one behind (\<open>sha_used c < 64\<close> is part of the invariant \<open>sha_rep\<close> below).
\<close>

function sha1_feed :: "sha1_ctx \<Rightarrow> bytes \<Rightarrow> sha1_ctx" where
  "sha1_feed c p =
     (if p = [] \<or> 64 \<le> sha_used c then c
      else (let n = min (64 - sha_used c) (length p);
                block = take (sha_used c) (sha_block c) @ take n p @ drop (sha_used c + n) (sha_block c);
                c1 = c\<lparr>sha_block := block, sha_used := sha_used c + n\<rparr>;
                c2 = (if sha_used c1 = 64 then (sha1_transform c1 block)\<lparr>sha_used := 0\<rparr> else c1)
            in sha1_feed c2 (drop n p)))"
  by pat_completeness auto
termination
  by (relation "measure (\<lambda>(c, p). length p)") auto

declare sha1_feed.simps [simp del]

definition sha1_update :: "sha1_ctx \<Rightarrow> bytes \<Rightarrow> sha1_ctx" where
  "sha1_update c p = sha1_feed (c\<lparr>sha_bytes := sha_bytes c + word_of_nat (length p)\<rparr>) p"

lemma sha_used_transform [simp]: "sha_used (sha1_transform c b) = sha_used c"
  by (auto simp: sha1_transform_def Let_def split: prod.splits)

lemma sha_block_transform [simp]: "sha_block (sha1_transform c b) = sha_block c"
  by (auto simp: sha1_transform_def Let_def split: prod.splits)

lemma sha_bytes_transform [simp]: "sha_bytes (sha1_transform c b) = sha_bytes c"
  by (auto simp: sha1_transform_def Let_def split: prod.splits)

lemma sha_used_feed1:
  "sha_used c < 64 \<Longrightarrow> sha_used (sha1_feed c [x]) = (sha_used c + 1) mod 64"
  by (cases "sha_used c = 63")
    (simp_all add: sha1_feed.simps [of c] Let_def sha1_feed.simps [of _ "[]"] min_def)

lemma sha_used_update1:
  "sha_used c < 64 \<Longrightarrow> sha_used (sha1_update c [x]) = (sha_used c + 1) mod 64"
  by (simp add: sha1_update_def sha_used_feed1)

text \<open>The padding loop of \<^verbatim>\<open>sha1_final\<close>, with the same side condition.\<close>

function sha1_pad_zeros :: "sha1_ctx \<Rightarrow> sha1_ctx" where
  "sha1_pad_zeros c =
     (if sha_used c \<noteq> 56 \<and> sha_used c < 64 then sha1_pad_zeros (sha1_update c [0]) else c)"
  by pat_completeness auto
termination
proof (relation "measure (\<lambda>c. if sha_used c \<le> 56 then 56 - sha_used c else 120 - sha_used c)")
  fix c :: sha1_ctx
  assume "sha_used c \<noteq> 56 \<and> sha_used c < 64"
  moreover from this have "sha_used (sha1_update c [0]) = (sha_used c + 1) mod 64"
    by (simp add: sha_used_update1)
  ultimately show "(sha1_update c [0], c) \<in>
      measure (\<lambda>c. if sha_used c \<le> 56 then 56 - sha_used c else 120 - sha_used c)"
    by (cases "sha_used c = 63") auto
qed simp

declare sha1_pad_zeros.simps [simp del]

definition be64 :: "u64 \<Rightarrow> bytes" where
  "be64 bits = map (\<lambda>i. ucast (drop_bit (8 * (7 - i)) bits)) [0..<8]"

definition be32 :: "u32 \<Rightarrow> bytes" where
  "be32 h = [ucast (drop_bit 24 h), ucast (drop_bit 16 h), ucast (drop_bit 8 h), ucast h]"

definition sha1_final :: "sha1_ctx \<Rightarrow> bytes" where
  "sha1_final c =
     (let bits = sha_bytes c * 8;
          c1 = sha1_update c [0x80];
          c2 = sha1_pad_zeros c1;
          c3 = sha1_update c2 (be64 bits)
      in concat (map (\<lambda>i. be32 (sha_h c3 ! i)) [0..<5]))"

definition hex_char :: "u8 \<Rightarrow> char" where
  "hex_char n = ''0123456789abcdef'' ! unat n"

definition hex20 :: "bytes \<Rightarrow> string" where
  "hex20 d = concat (map (\<lambda>b. [hex_char (drop_bit 4 b), hex_char (b AND 15)]) d)"

text \<open>The context lives on the caller's stack; its initial contents do not matter.\<close>

definition stack_ctx :: sha1_ctx where
  "stack_ctx = \<lparr>sha_h = replicate 5 0, sha_bytes = 0, sha_block = replicate 64 0, sha_used = 0\<rparr>"

definition kv_store_sha1_bytes_hex :: "bytes \<Rightarrow> string" where
  "kv_store_sha1_bytes_hex p = hex20 (sha1_final (sha1_update (sha1_init stack_ctx) p))"

section \<open>The reference\<close>

text \<open>
  FIPS 180 in its own terms: words and bytes are numbers in base 256, a rotation is the rotation of the
  library, the functions Ch and Maj are sums modulo two.  The reference shares no operation with the code.
\<close>

definition fips_word :: "bytes \<Rightarrow> nat \<Rightarrow> u32" where
  "fips_word M t = word_of_nat (256 ^ 3 * unat (M ! (4 * t)) + 256 ^ 2 * unat (M ! (4 * t + 1)) + 256 * unat (M ! (4 * t + 2)) + unat (M ! (4 * t + 3)))"

definition fips_bytes :: "nat \<Rightarrow> nat \<Rightarrow> bytes" where
  "fips_bytes k x = map (\<lambda>i. word_of_nat (x div 256 ^ (k - 1 - i))) [0..<k]"

definition fips_f :: "nat \<Rightarrow> u32 \<Rightarrow> u32 \<Rightarrow> u32 \<Rightarrow> u32" where
  "fips_f t x y z =
     (if t \<le> 19 then (x AND y) XOR (NOT x AND z)
      else if 40 \<le> t \<and> t \<le> 59 then (x AND y) XOR (x AND z) XOR (y AND z)
      else x XOR y XOR z)"

definition fips_K :: "nat \<Rightarrow> u32" where
  "fips_K t = [0x5a827999, 0x6ed9eba1, 0x8f1bbcdc, 0xca62c1d6] ! (t div 20)"

fun fips_W :: "bytes \<Rightarrow> nat \<Rightarrow> u32" where
  "fips_W M t = (if t < 16 then fips_word M t
     else word_rotl 1 (fips_W M (t - 3) XOR fips_W M (t - 8) XOR fips_W M (t - 14) XOR fips_W M (t - 16)))"

declare fips_W.simps [simp del]

fun fips_rounds :: "bytes \<Rightarrow> nat \<Rightarrow> u32 \<times> u32 \<times> u32 \<times> u32 \<times> u32 \<Rightarrow> u32 \<times> u32 \<times> u32 \<times> u32 \<times> u32" where
  "fips_rounds M 0 st = st"
| "fips_rounds M (Suc t) st =
     (case fips_rounds M t st of (a, b, c, d, e) \<Rightarrow>
        (word_rotl 5 a + fips_f t b c d + e + fips_K t + fips_W M t, a, word_rotl 30 b, c, d))"

definition fips_block :: "u32 list \<Rightarrow> bytes \<Rightarrow> u32 list" where
  "fips_block h M =
     (case fips_rounds M 80 (h ! 0, h ! 1, h ! 2, h ! 3, h ! 4) of (a, b, c, d, e) \<Rightarrow>
        [h ! 0 + a, h ! 1 + b, h ! 2 + c, h ! 3 + d, h ! 4 + e])"

function fips_blocks :: "u32 list \<Rightarrow> bytes \<Rightarrow> u32 list" where
  "fips_blocks h M = (if length M < 64 then h else fips_blocks (fips_block h (take 64 M)) (drop 64 M))"
  by pat_completeness auto
termination
  by (relation "measure (\<lambda>(h, M). length M)") auto

declare fips_blocks.simps [simp del]

definition fips_pad :: "bytes \<Rightarrow> bytes" where
  "fips_pad M = M @ [0x80] @ replicate ((119 - length M mod 64) mod 64) 0 @ fips_bytes 8 (8 * length M)"

definition fips_init :: "u32 list" where
  "fips_init = [0x67452301, 0xefcdab89, 0x98badcfe, 0x10325476, 0xc3d2e1f0]"

definition fips_sha1 :: "bytes \<Rightarrow> bytes" where
  "fips_sha1 M = concat (map (\<lambda>h. fips_bytes 4 (unat h)) (fips_blocks fips_init (fips_pad M)))"

definition fips_hex :: "bytes \<Rightarrow> string" where
  "fips_hex d = concat (map (\<lambda>b. map (\<lambda>n. char_of (if n < 10 then 48 + n else 87 + n)) [unat b div 16, unat b mod 16]) d)"

section \<open>The operations of the code and of the standard\<close>

lemma rol32_rotl:
  assumes "0 < n" "n < 32" shows "rol32 v n = word_rotl n v"
proof (rule bit_word_eqI)
  fix i assume "i < LENGTH(32)"
  then have i: "i < 32" by simp
  have rotl: "bit (word_rotl n v) i = bit v ((i + (32 - n)) mod 32)"
    using bit_word_rotl_iff [of n v i] i assms(2) by (simp only: len_num0 len_num1 len_bit0 len_bit1 mod_less) simp
  have rol: "bit (rol32 v n) i \<longleftrightarrow> n \<le> i \<and> bit v (i - n) \<or> bit v (i + (32 - n))"
    using i by (simp add: rol32_def bit_push_bit_iff bit_drop_bit_eq bit_or_iff add.commute del: Nat.add_diff_assoc Nat.add_diff_assoc2)
  show "bit (rol32 v n) i = bit (word_rotl n v) i"
  proof (cases "n \<le> i")
    case True
    then have "i + (32 - n) = i - n + 32" using assms(2) by simp
    then have "(i + (32 - n)) mod 32 = i - n" using True i by (simp only: mod_add_self2) simp
    moreover have "\<not> bit v (i + (32 - n))" using True assms(2) bit_imp_le_length [of v "i + (32 - n)"] by auto
    ultimately show ?thesis using True by (simp only: rotl rol) simp
  next
    case False
    then have "(i + (32 - n)) mod 32 = i + (32 - n)" using assms by simp
    with False show ?thesis by (simp only: rotl rol) simp
  qed
qed

lemma rol32_simps [simp]: "rol32 v (Suc 0) = word_rotl 1 v" "rol32 v 5 = word_rotl 5 v" "rol32 v 30 = word_rotl 30 v"
  by (simp_all add: rol32_rotl)

lemma be_word_fips [simp]: "be_word M t = fips_word M t"
proof -
  let ?b = "\<lambda>i. ucast (M ! (t * 4 + i)) :: u32"
  let ?A = "push_bit 24 (?b 0)" and ?B = "push_bit 16 (?b 1)" and ?C = "push_bit 8 (?b 2)" and ?D = "?b 3"
  have "?A OR ?B OR ?C OR ?D = ?A + (?B OR ?C OR ?D)" "?B OR ?C OR ?D = ?B + (?C OR ?D)" "?C OR ?D = ?C + ?D"
    by (rule disjunctive_add [symmetric], auto simp: bit_or_iff bit_push_bit_iff bit_ucast_iff dest!: bit_imp_le_length)+
  then have "be_word M t = ?A + (?B + (?C + ?D))" by (simp add: be_word_def)
  also have "\<dots> = fips_word M t" by (simp add: fips_word_def push_bit_eq_mult mult.commute)
  finally show ?thesis .
qed

lemma round_fk_fips [simp]: "t < 80 \<Longrightarrow> round_fk t b c d = (fips_f t b c d, fips_K t)"
proof -
  have ch: "(b AND c) OR (NOT b AND d) = (b AND c) XOR (NOT b AND d)" by (rule bit_word_eqI) (auto simp: bit_simps)
  have maj: "(b AND c) OR (b AND d) OR (c AND d) = (b AND c) XOR (b AND d) XOR (c AND d)" by (rule bit_word_eqI) (auto simp: bit_simps)
  assume "t < 80"
  then consider "t < 20" | "20 \<le> t" "t < 40" | "40 \<le> t" "t < 60" | "60 \<le> t" "t < 80" by linarith
  then show ?thesis
  proof cases
    case 1 then show ?thesis by (simp add: round_fk_def fips_f_def fips_K_def ch)
  next
    case 2 then have "t div 20 = 1" by linarith
    with 2 show ?thesis by (simp add: round_fk_def fips_f_def fips_K_def)
  next
    case 3 then have "t div 20 = 2" by linarith
    with 3 show ?thesis by (simp add: round_fk_def fips_f_def fips_K_def maj)
  next
    case 4 then have "t div 20 = 3" by linarith
    with 4 show ?thesis by (simp add: round_fk_def fips_f_def fips_K_def)
  qed
qed

lemma byte_of_shift: "(ucast (drop_bit (8 * n) w) :: u8) = word_of_nat (unat (w :: 'a::len word) div 256 ^ n)"
proof -
  have "(256 :: nat) ^ n = 2 ^ (8 * n)" by (simp add: power_mult)
  then have "unat (drop_bit (8 * n) w) = unat w div 256 ^ n" by (simp only: unat_drop_bit_eq) (simp only: drop_bit_eq_div)
  then show ?thesis by (metis of_nat_unat)
qed

lemma be32_fips [simp]: "be32 h = fips_bytes 4 (unat h)"
  using byte_of_shift [of 3 h] byte_of_shift [of 2 h] byte_of_shift [of 1 h] byte_of_shift [of 0 h]
  by (simp add: be32_def fips_bytes_def upt_rec)

lemma be64_fips: "be64 (word_of_nat x) = fips_bytes 8 x"
proof -
  have "(word_of_nat (unat (word_of_nat x :: u64) div 256 ^ n) :: u8) = word_of_nat (x div 256 ^ n)" if "n \<le> 7" for n
  proof (rule bit_word_eqI)
    fix i assume "i < LENGTH(8)"
    then have i: "i < 8" by simp
    then have k: "8 * n + i < 64" using that by simp
    have b: "bit (word_of_nat y :: u8) i = bit y i" for y :: nat using i by (simp add: word_of_nat_eq_iff bit_simps unsigned_of_nat flip: bit_unsigned_iff)
    have p: "(256 :: nat) ^ n = 2 ^ (8 * n)" by (simp add: power_mult)
    have d: "bit (y div 256 ^ n) i = bit y (8 * n + i)" for y :: nat
      unfolding p by (simp only: drop_bit_eq_div [symmetric] bit_drop_bit_eq o_def)
    have "unat (word_of_nat x :: u64) = take_bit 64 x" by (simp add: unsigned_of_nat)
    then show "bit (word_of_nat (unat (word_of_nat x :: u64) div 256 ^ n) :: u8) i = bit (word_of_nat (x div 256 ^ n) :: u8) i"
      unfolding b d using k by (simp only: bit_take_bit_iff) simp
  qed
  then show ?thesis unfolding be64_def fips_bytes_def byte_of_shift by simp
qed

lemma hex20_fips: "hex20 d = fips_hex d"
proof -
  have h: "hex_char n = char_of (if unat n < 10 then 48 + unat n else 87 + unat n)" if "unat n < 16" for n
  proof -
    have "list_all (\<lambda>k. ''0123456789abcdef'' ! k = char_of (if k < 10 then 48 + k else 87 + k)) [0..<16]" by code_simp
    then show ?thesis using that by (simp add: hex_char_def list_all_iff)
  qed
  have "unat (drop_bit 4 b) = unat b div 16" for b :: u8 by (simp only: unat_drop_bit_eq) (simp add: drop_bit_eq_div)
  moreover have "unat (b AND 15) = unat b mod 16" for b :: u8
  proof -
    have "b AND 15 = take_bit 4 b" by (simp add: take_bit_eq_mask mask_eq_exp_minus_1)
    then have "unat (b AND 15) = take_bit 4 (unat b)" by (simp only: unsigned_take_bit_eq)
    then show ?thesis by (simp add: take_bit_eq_mod)
  qed
  ultimately show ?thesis using unat_u8_less by (simp add: hex20_def fips_hex_def h less_mult_imp_div_less cong: if_cong)
qed

section \<open>The block function\<close>

lemma length_extend_words [simp]: "length (extend_words w is) = length w + length is"
  by (induction w "is" rule: extend_words.induct) auto

lemma extend_words_fips:
  "length w = n \<Longrightarrow> 16 \<le> n \<Longrightarrow> n \<le> m \<Longrightarrow> \<forall>i < n. w ! i = fips_W M i \<Longrightarrow>
   \<forall>i < m. extend_words w [n..<m] ! i = fips_W M i"
proof (induction "m - n" arbitrary: w n)
  case 0
  then show ?case by simp
next
  case (Suc k)
  then have nm: "n < m" by simp
  let ?x = "rol32 (w ! (n - 3) XOR w ! (n - 8) XOR w ! (n - 14) XOR w ! (n - 16)) 1"
  have "?x = fips_W M n" using Suc.prems(2,4) by (subst fips_W.simps) simp
  then have new: "\<forall>i < Suc n. (w @ [?x]) ! i = fips_W M i"
    using Suc.prems(1,4) by (auto simp: nth_append less_Suc_eq)
  have "\<forall>i < m. extend_words (w @ [?x]) [Suc n..<m] ! i = fips_W M i"
    by (rule Suc.hyps(1)) (use Suc nm new in auto)
  then show ?case using nm by (simp add: upt_conv_Cons)
qed

lemma schedule_fips: "i < 80 \<Longrightarrow> sha1_schedule M ! i = fips_W M i"
proof -
  have "\<forall>i < 16. map (be_word M) [0..<16] ! i = fips_W M i"
    by (simp add: fips_W.simps del: upt_rec_numeral)
  then have "\<forall>i < 80. extend_words (map (be_word M) [0..<16]) [16..<80] ! i = fips_W M i"
    by (intro extend_words_fips) (simp_all del: upt_rec_numeral)
  then show "i < 80 \<Longrightarrow> ?thesis" by (simp only: sha1_schedule_def)
qed

lemma sha1_rounds_append: "sha1_rounds w (is @ js) st = sha1_rounds w js (sha1_rounds w is st)"
  by (induction w "is" st rule: sha1_rounds.induct) (auto split: prod.splits)

lemma sha1_rounds_fips:
  assumes "\<forall>i < 80. w ! i = fips_W M i"
  shows "n \<le> 80 \<Longrightarrow> sha1_rounds w [0..<n] st = fips_rounds M n st"
proof (induction n)
  case 0
  then show ?case by simp
next
  case (Suc n)
  obtain a b c d e where st: "fips_rounds M n st = (a, b, c, d, e)" by (metis prod_cases5)
  have "sha1_rounds w [0..<Suc n] st = sha1_rounds w [n] (fips_rounds M n st)"
    using Suc by (simp add: sha1_rounds_append)
  with Suc.prems assms show ?case by (simp add: st split: prod.splits)
qed

lemma sha_h_transform [simp]: "sha_h (sha1_transform c block) = fips_block (sha_h c) block"
proof -
  have "sha1_all_rounds (sha1_schedule block) h = fips_rounds block 80 (h ! 0, h ! 1, h ! 2, h ! 3, h ! 4)" for h
    unfolding sha1_all_rounds_def by (rule sha1_rounds_fips) (use schedule_fips in auto)
  then show ?thesis by (simp only: sha1_transform_def fips_block_def Let_def) (simp split: prod.split del: fips_rounds.simps)
qed

section \<open>The stream\<close>

lemma fips_blocks_append:
  "length M mod 64 = 0 \<Longrightarrow> fips_blocks h (M @ N) = fips_blocks (fips_blocks h M) N"
proof (induction "length M" arbitrary: M h rule: less_induct)
  case less
  show ?case
  proof (cases "length M < 64")
    case True
    with less.prems have "M = []" by simp
    then show ?thesis by (simp add: fips_blocks.simps [of h "[]"])
  next
    case False
    have "length (drop 64 M) mod 64 = 0" using less.prems False by (simp add: le_mod_geq)
    then have "fips_blocks (fips_block h (take 64 M)) (drop 64 M @ N) =
        fips_blocks (fips_blocks (fips_block h (take 64 M)) (drop 64 M)) N"
      using less.hyps [of "drop 64 M"] False by simp
    then show ?thesis using False by (simp add: fips_blocks.simps [of h "M @ N"] fips_blocks.simps [of h M])
  qed
qed

text \<open>A context represents the message fed to it.\<close>

definition sha_rep :: "sha1_ctx \<Rightarrow> bytes \<Rightarrow> bool" where
  "sha_rep c m \<longleftrightarrow> sha_used c < 64 \<and> length (sha_block c) = 64 \<and>
     (\<exists>m0. m = m0 @ take (sha_used c) (sha_block c) \<and> length m0 mod 64 = 0 \<and>
       sha_h c = fips_blocks fips_init m0)"

lemma sha_rep_used: "sha_rep c m \<Longrightarrow> sha_used c = length m mod 64"
  by (auto simp: sha_rep_def mod_add_left_eq [symmetric])

lemma sha_rep_feed: "sha_rep c m \<Longrightarrow> sha_rep (sha1_feed c p) (m @ p)"
proof (induction c p arbitrary: m rule: sha1_feed.induct)
  case (1 c p)
  show ?case
  proof (cases "p = []")
    case True
    with 1 show ?thesis by (simp add: sha1_feed.simps [of c])
  next
    case False
    from 1(2) obtain m0 where used: "sha_used c < 64" and len: "length (sha_block c) = 64"
      and m: "m = m0 @ take (sha_used c) (sha_block c)" "length m0 mod 64 = 0"
      and h: "sha_h c = fips_blocks fips_init m0"
      by (auto simp: sha_rep_def)
    define n where "n = min (64 - sha_used c) (length p)"
    define block where "block = take (sha_used c) (sha_block c) @ take n p @ drop (sha_used c + n) (sha_block c)"
    define c1 where "c1 = c\<lparr>sha_block := block, sha_used := sha_used c + n\<rparr>"
    define c2 where "c2 = (if sha_used c1 = 64 then (sha1_transform c1 block)\<lparr>sha_used := 0\<rparr> else c1)"
    have n: "n \<le> length p" "sha_used c + n \<le> 64" using used by (auto simp: n_def)
    have lb: "length block = 64" using used len n by (simp add: block_def)
    have tb: "take (sha_used c + n) block = take (sha_used c) (sha_block c) @ take n p"
      using used len n by (simp add: block_def)
    have rep2: "sha_rep c2 (m @ take n p)"
    proof (cases "sha_used c + n = 64")
      case True
      let ?b = "take (sha_used c) (sha_block c) @ take n p"
      have "block = ?b" using tb lb True by simp
      then have blk: "length ?b = 64" using lb by simp
      have "fips_blocks fips_init (m0 @ block) = fips_block (fips_blocks fips_init m0) block"
        using lb by (simp add: fips_blocks_append [OF m(2)] fips_blocks.simps [of _ block] fips_blocks.simps [of _ "[]"])
      then have "sha_h c2 = fips_blocks fips_init (m @ take n p)"
        using True m \<open>block = ?b\<close> h by (simp add: c2_def c1_def)
      moreover have "length (m @ take n p) mod 64 = 0"
        using m blk by (metis append_assoc length_append mod_add_self2)
      ultimately show ?thesis using True lb by (simp add: sha_rep_def c2_def c1_def)
    next
      case False
      then show ?thesis using n m h lb tb by (auto simp: sha_rep_def c2_def c1_def)
    qed
    have step: "sha1_feed c p = sha1_feed c2 (drop n p)"
      using False used unfolding c2_def c1_def block_def n_def
      by (subst sha1_feed.simps) (simp add: Let_def)
    have "sha_rep (sha1_feed c2 (drop n p)) ((m @ take n p) @ drop n p)"
      by (rule "1.IH" [OF _ n_def block_def c1_def c2_def rep2]) (use False used in simp)
    then show ?thesis by (simp add: step)
  qed
qed

lemma sha_rep_update: "sha_rep c m \<Longrightarrow> sha_rep (sha1_update c p) (m @ p)"
  unfolding sha1_update_def by (rule sha_rep_feed) (simp add: sha_rep_def)

lemma sha_rep_pad:
  "sha_rep c m \<Longrightarrow> \<exists>k < 64. sha_rep (sha1_pad_zeros c) (m @ replicate k 0) \<and>
     k = (if sha_used c \<le> 56 then 56 - sha_used c else 120 - sha_used c)"
proof (induction c arbitrary: m rule: sha1_pad_zeros.induct)
  case (1 c)
  have used: "sha_used c < 64" using "1.prems" by (simp add: sha_rep_def)
  show ?case
  proof (cases "sha_used c = 56")
    case True
    with "1.prems" show ?thesis by (intro exI [of _ 0]) (simp add: sha1_pad_zeros.simps [of c])
  next
    case False
    have u: "sha_used (sha1_update c [0]) = (sha_used c + 1) mod 64" using used by (simp add: sha_used_update1)
    have "sha_rep (sha1_update c [0]) (m @ [0])" using "1.prems" by (rule sha_rep_update)
    with "1.IH" False used obtain k where "k < 64"
      and rep: "sha_rep (sha1_pad_zeros (sha1_update c [0])) ((m @ [0]) @ replicate k 0)"
      and k: "k = (if sha_used (sha1_update c [0]) \<le> 56 then 56 - sha_used (sha1_update c [0])
                   else 120 - sha_used (sha1_update c [0]))" by blast
    have "Suc k = (if sha_used c \<le> 56 then 56 - sha_used c else 120 - sha_used c)"
      using k u used False by (cases "sha_used c = 63") auto
    moreover have "sha_rep (sha1_pad_zeros c) (m @ replicate (Suc k) 0)"
      using rep False used by (simp add: sha1_pad_zeros.simps [of c])
    ultimately show ?thesis using used by (intro exI [of _ "Suc k"]) auto
  qed
qed

lemma length_be64 [simp]: "length (be64 w) = 8"
  by (simp add: be64_def)

lemma sha_bytes_feed [simp]: "sha_bytes (sha1_feed c p) = sha_bytes c"
proof (induction c p rule: sha1_feed.induct)
  case (1 c p)
  then show ?case
    by (subst sha1_feed.simps) (auto simp: Let_def)
qed

lemma length_fips_blocks: "length h = 5 \<Longrightarrow> length (fips_blocks h M) = 5"
proof (induction h M rule: fips_blocks.induct)
  case (1 h M)
  have "length (fips_block h (take 64 M)) = 5" by (auto simp: fips_block_def split: prod.splits)
  with 1 show ?case by (subst fips_blocks.simps) auto
qed

lemma pad_count:
  fixes l u k :: nat
  assumes "u = (l + 1) mod 64" and "k = (if u \<le> 56 then 56 - u else 120 - u)"
  shows "k = (119 - l mod 64) mod 64" and "(l + 1 + k + 8) mod 64 = 0"
proof -
  define r where "r = l mod 64"
  have r: "r < 64" by (simp add: r_def)
  have u: "u = (if r = 63 then 0 else r + 1)" using assms(1) by (auto simp: r_def mod_Suc)
  consider "r \<le> 55" | "55 < r" "r < 63" | "r = 63" using r by linarith
  then show "k = (119 - l mod 64) mod 64"
  proof cases
    case 1
    then have "119 - r = 55 - r + 64" by simp
    then have "(119 - r) mod 64 = (55 - r) mod 64" by (metis mod_add_self2)
    with 1 assms(2) u show ?thesis by (simp add: r_def [symmetric])
  qed (use assms(2) u in \<open>simp_all add: r_def [symmetric]\<close>)
  have "(l + 1 + k + 8) mod 64 = (u + (k + 8)) mod 64"
    by (simp only: assms(1) add.assoc mod_add_left_eq)
  also have "u + (k + 8) = (if u \<le> 56 then 64 else 128)"
    using assms u r by auto
  finally show "(l + 1 + k + 8) mod 64 = 0" by simp
qed

lemma concat_be32: "length xs = 5 \<Longrightarrow> concat (map (\<lambda>i. be32 (xs ! i)) [0..<5]) = concat (map be32 xs)"
  using map_nth [of xs] by (metis (no_types, lifting) map_map comp_apply map_eq_conv)

lemma sha1_final_rep:
  assumes rep: "sha_rep c m" and cnt: "sha_bytes c = word_of_nat (length m)"
  shows "sha1_final c = fips_sha1 m"
proof -
  define c1 where "c1 = sha1_update c [0x80]"
  define c3 where "c3 = sha1_update (sha1_pad_zeros c1) (be64 (sha_bytes c * 8))"
  have bits: "sha_bytes c * 8 = word_of_nat (8 * length m)" using cnt by simp
  have rep1: "sha_rep c1 (m @ [0x80])" unfolding c1_def by (rule sha_rep_update [OF rep])
  then have u1: "sha_used c1 = (length m + 1) mod 64" by (simp add: sha_rep_used)
  obtain k where k: "k = (if sha_used c1 \<le> 56 then 56 - sha_used c1 else 120 - sha_used c1)"
    and rep2: "sha_rep (sha1_pad_zeros c1) ((m @ [0x80]) @ replicate k 0)"
    using sha_rep_pad [OF rep1] by blast
  note keq = pad_count [OF u1 k]
  have pad: "fips_pad m = ((m @ [0x80]) @ replicate k 0) @ be64 (sha_bytes c * 8)"
    unfolding fips_pad_def bits keq(1) be64_fips by simp
  have rep3: "sha_rep c3 (fips_pad m)"
    unfolding pad c3_def by (rule sha_rep_update [OF rep2])
  have "length (fips_pad m) mod 64 = 0" using keq(2) by (simp add: pad add_ac)
  then have h: "sha_h c3 = fips_blocks fips_init (fips_pad m)"
    using rep3 sha_rep_used [OF rep3] by (auto simp: sha_rep_def)
  have "sha1_final c = concat (map (\<lambda>i. be32 (sha_h c3 ! i)) [0..<5])"
    by (simp only: sha1_final_def Let_def c1_def c3_def)
  also have "\<dots> = concat (map be32 (sha_h c3))"
    by (rule concat_be32) (simp add: h length_fips_blocks fips_init_def)
  also have "be32 = (\<lambda>h. fips_bytes 4 (unat h))" by (rule ext) simp
  finally show ?thesis by (simp only: h fips_sha1_def)
qed

lemma sha_rep_init: "sha_rep (sha1_init stack_ctx) [] \<and> sha_bytes (sha1_init stack_ctx) = 0"
  by (simp add: sha_rep_def sha1_init_def stack_ctx_def fips_init_def fips_blocks.simps [of _ "[]"])

lemma sha_rep_updates:
  "sha_rep c m \<Longrightarrow> sha_bytes c = word_of_nat (length m) \<Longrightarrow>
   sha_rep (foldl sha1_update c ps) (m @ concat ps) \<and>
   sha_bytes (foldl sha1_update c ps) = word_of_nat (length (m @ concat ps))"
proof (induction ps arbitrary: c m)
  case Nil
  then show ?case by simp
next
  case (Cons p ps)
  have "sha_bytes (sha1_update c p) = word_of_nat (length (m @ p))"
    using Cons.prems(2) by (simp add: sha1_update_def)
  with Cons.IH [OF sha_rep_update [OF Cons.prems(1)]] show ?case by simp
qed

lemma sha1_chunks: "sha1_final (foldl sha1_update (sha1_init stack_ctx) ps) = fips_sha1 (concat ps)"
  using sha_rep_updates [of "sha1_init stack_ctx" "[]" ps] sha_rep_init by (intro sha1_final_rep) auto

lemma sha1_hex_fips: "kv_store_sha1_bytes_hex p = hex20 (fips_sha1 p)"
  using sha1_chunks [of "[p]"] by (simp add: kv_store_sha1_bytes_hex_def)

section \<open>Test vectors\<close>

text \<open>
  Evaluation in the kernel: the rounds over the last sixteen words of the schedule, each new word reduced to
  a numeral below \<open>2 ^ 32\<close>.
\<close>

definition reduce :: "u32 \<Rightarrow> u32" where
  "reduce w = word_of_nat (unat w)"

fun window_rounds :: "nat \<Rightarrow> nat \<Rightarrow> u32 list \<Rightarrow> u32 \<times> u32 \<times> u32 \<times> u32 \<times> u32 \<Rightarrow> u32 \<times> u32 \<times> u32 \<times> u32 \<times> u32" where
  "window_rounds 0 t ws st = st"
| "window_rounds (Suc n) t ws (a, b, c, d, e) =
     window_rounds n (t + 1) (tl ws @ [rol32 (ws ! 13 XOR ws ! 8 XOR ws ! 2 XOR ws ! 0) 1])
       (rol32 a 5 + fst (round_fk t b c d) + e + snd (round_fk t b c d) + ws ! 0, a, rol32 b 30, c, d)"

lemma reduce_id: "reduce w = w"
  by (simp add: reduce_def)

lemma reduce_eval: "reduce (numeral n) = word_of_nat (numeral n mod 4294967296)" "reduce 0 = 0" "reduce 1 = 1"
  by (simp_all add: reduce_def take_bit_eq_mod)

lemma not_eval: "NOT b = (0xffffffff :: u32) XOR b"
proof (rule bit_word_eqI)
  fix i assume "i < LENGTH(32)"
  moreover have "(0xffffffff :: u32) = mask 32" by (simp add: mask_eq_exp_minus_1)
  ultimately show "bit (NOT b) i = bit ((0xffffffff :: u32) XOR b) i" by (simp only: bit_not_iff bit_xor_iff bit_mask_iff) simp
qed

lemma window_eval:
  "window_rounds (numeral n) t [x0, x1, x2, x3, x4, x5, x6, x7, x8, x9, x10, x11, x12, x13, x14, x15] (a, b, c, d, e) =
     window_rounds (pred_numeral n) (t + 1)
       [x1, x2, x3, x4, x5, x6, x7, x8, x9, x10, x11, x12, x13, x14, x15, reduce (rol32 (x13 XOR x8 XOR x2 XOR x0) 1)]
       (reduce (rol32 a 5 + fst (round_fk t b c d) + e + snd (round_fk t b c d) + x0), a, reduce (rol32 b 30), c, d)"
  by (simp add: reduce_id numeral_eq_Suc del: rol32_simps round_fk_fips)

lemma window_shift:
  "tl (map (fips_W M) [t..<t + 16]) @ [rol32 (map (fips_W M) [t..<t + 16] ! 13 XOR map (fips_W M) [t..<t + 16] ! 8 XOR
     map (fips_W M) [t..<t + 16] ! 2 XOR map (fips_W M) [t..<t + 16] ! 0) 1] = map (fips_W M) [t + 1..<t + 1 + 16]"
proof -
  have "[t + 1..<t + 1 + 16] = [t + 1..<t + 16] @ [t + 16]" "[t..<t + 16] = t # [t + 1..<t + 16]" by (simp_all add: upt_conv_Cons)
  moreover have "fips_W M (t + 16) = word_rotl (Suc 0) (fips_W M (13 + t) XOR fips_W M (8 + t) XOR fips_W M (Suc (Suc t)) XOR fips_W M t)"
    by (subst fips_W.simps) (simp add: add.commute)
  ultimately show ?thesis by (simp add: nth_Cons')
qed

lemma window_fips:
  "t + n \<le> 80 \<Longrightarrow> window_rounds n t (map (fips_W M) [t..<t + 16]) (fips_rounds M t st) = fips_rounds M (t + n) st"
proof (induction n arbitrary: t)
  case (Suc n)
  obtain a b c d e where s: "fips_rounds M t st = (a, b, c, d, e)" by (metis prod_cases5)
  have "window_rounds (Suc n) t (map (fips_W M) [t..<t + 16]) (fips_rounds M t st) =
      window_rounds n (t + 1) (map (fips_W M) [t + 1..<t + 1 + 16]) (fips_rounds M (t + 1) st)"
    unfolding s window_rounds.simps window_shift using Suc.prems s by (simp add: upt_conv_Cons)
  also have "\<dots> = fips_rounds M (t + 1 + n) st" using Suc by (intro Suc.IH) simp
  finally show ?case by simp
qed simp

lemma block_eval:
  "fips_block h M = (case window_rounds 80 0 (map (be_word M) [0..<16]) (h ! 0, h ! 1, h ! 2, h ! 3, h ! 4) of (a, b, c, d, e) \<Rightarrow>
     [reduce (h ! 0 + a), reduce (h ! 1 + b), reduce (h ! 2 + c), reduce (h ! 3 + d), reduce (h ! 4 + e)])"
proof -
  have "map (be_word M) [0..<16] = map (fips_W M) [0..<16]" by (simp add: fips_W.simps)
  then have "window_rounds 80 0 (map (be_word M) [0..<16]) st = fips_rounds M 80 st" for st
    using window_fips [of 0 80 M st] by (simp only:) simp
  then show ?thesis by (simp only: fips_block_def reduce_id)
qed

lemma fips_blocks_eval: "fips_blocks h (b @ M) = fips_blocks (fips_block h b) M" if "length b = 64"
  using that by (simp add: fips_blocks.simps [of h])

lemmas sha1_eval = window_eval reduce_eval not_eval round_fk_def rol32_def

lemma upt_16: "[0..<16] = [0, 1, 2, 3, 4, 5, 6, 7, 8, 9, 10, 11, 12, 13, 14, 15]"
  by (simp add: upt_rec)

definition long_vector :: string where
  "long_vector = ''abcdbcdecdefdefgefghfghighijhijkijkljklmklmnlmnomnopnopq''"

lemma words_vectors:
  "map (be_word (bytes_of ''abc'' @ 0x80 # replicate 59 0 @ [24])) [0..<16] = [0x61626380, 0, 0, 0, 0, 0, 0, 0, 0, 0, 0, 0, 0, 0, 0, 24]"
  "map (be_word (bytes_of long_vector @ 0x80 # replicate 7 0)) [0..<16] = [0x61626364, 0x62636465, 0x63646566, 0x64656667, 0x65666768, 0x66676869, 0x6768696a, 0x68696a6b, 0x696a6b6c, 0x6a6b6c6d, 0x6b6c6d6e, 0x6c6d6e6f, 0x6d6e6f70, 0x6e6f7071, 0x80000000, 0]"
  "map (be_word (replicate 62 0 @ [1, 0xc0])) [0..<16] = [0, 0, 0, 0, 0, 0, 0, 0, 0, 0, 0, 0, 0, 0, 0, 0x1c0]"
  by (simp_all add: upt_16 long_vector_def bytes_of_def be_word_def nth_append nth_Cons' del: be_word_fips)

lemma block_abc: "fips_block fips_init (bytes_of ''abc'' @ 0x80 # replicate 59 0 @ [24]) = [0xa9993e36, 0x4706816a, 0xba3e2571, 0x7850c26c, 0x9cd0d89d]"
  unfolding block_eval words_vectors by (simp add: fips_init_def sha1_eval del: rol32_simps round_fk_fips be_word_fips)

lemma block_long: "fips_block fips_init (bytes_of long_vector @ 0x80 # replicate 7 0) = [0xf4286818, 0xc37b27ae, 0x408f581, 0x84677148, 0x4a566572]"
  unfolding block_eval words_vectors by (simp add: fips_init_def sha1_eval del: rol32_simps round_fk_fips be_word_fips)

lemma block_length: "fips_block [0xf4286818, 0xc37b27ae, 0x408f581, 0x84677148, 0x4a566572] (replicate 62 0 @ [1, 0xc0]) = [0x84983e44, 0x1c3bd26e, 0xbaae4aa1, 0xf95129e5, 0xe54670f1]"
  unfolding block_eval words_vectors by (simp add: sha1_eval del: rol32_simps round_fk_fips be_word_fips)

lemma pad_vectors:
  "fips_pad (bytes_of ''abc'') = bytes_of ''abc'' @ 0x80 # replicate 59 0 @ [24]"
  "fips_pad (bytes_of long_vector) = (bytes_of long_vector @ 0x80 # replicate 7 0) @ replicate 62 0 @ [1, 0xc0]"
proof -
  have r: "replicate n (0 :: u8) @ [0, 0, 0, 0, 0, 0] = replicate (n + 6) 0" for n
    using replicate_add [of n 6 "0 :: u8"] by (simp add: numeral_eq_Suc)
  have z: "fips_bytes 8 24 = [0, 0, 0, 0, 0, 0] @ [0, 24]" "fips_bytes 8 448 = [0, 0, 0, 0, 0, 0] @ [1, 0xc0]" by (simp_all add: fips_bytes_def upt_rec)
  have "fips_pad (bytes_of ''abc'') = bytes_of ''abc'' @ 0x80 # (replicate 52 0 @ [0, 0, 0, 0, 0, 0]) @ [0] @ [24]"
    by (simp add: fips_pad_def z)
  then show "fips_pad (bytes_of ''abc'') = bytes_of ''abc'' @ 0x80 # replicate 59 0 @ [24]"
    unfolding r using replicate_add [of 58 1 "0 :: u8"] by simp
  have "fips_pad (bytes_of long_vector) = bytes_of long_vector @ 0x80 # (replicate 63 0 @ [0, 0, 0, 0, 0, 0]) @ [1, 0xc0]"
    by (simp add: fips_pad_def z long_vector_def)
  then show "fips_pad (bytes_of long_vector) = (bytes_of long_vector @ 0x80 # replicate 7 0) @ replicate 62 0 @ [1, 0xc0]"
    unfolding r using replicate_add [of 7 62 "0 :: u8"] by simp
qed

lemma one_block: "length b = 64 \<Longrightarrow> fips_blocks h b = fips_block h b" "length b = 64 \<Longrightarrow> fips_blocks h (b @ M) = fips_blocks (fips_block h b) M"
  by (simp_all add: fips_blocks.simps [of h] fips_blocks.simps [of _ "[]"])

lemma digest_vectors:
  "fips_sha1 (bytes_of ''abc'') = concat (map (\<lambda>h. fips_bytes 4 (unat h)) [0xa9993e36 :: u32, 0x4706816a, 0xba3e2571, 0x7850c26c, 0x9cd0d89d])"
  "fips_sha1 (bytes_of long_vector) = concat (map (\<lambda>h. fips_bytes 4 (unat h)) [0x84983e44 :: u32, 0x1c3bd26e, 0xbaae4aa1, 0xf95129e5, 0xe54670f1])"
proof -
  have "length (bytes_of ''abc'' @ 0x80 # replicate 59 0 @ [24]) = 64" by simp
  from one_block(1) [OF this] show "fips_sha1 (bytes_of ''abc'') = concat (map (\<lambda>h. fips_bytes 4 (unat h)) [0xa9993e36 :: u32, 0x4706816a, 0xba3e2571, 0x7850c26c, 0x9cd0d89d])"
    by (simp only: fips_sha1_def pad_vectors block_abc)
  have "length (bytes_of long_vector @ 0x80 # replicate 7 0) = 64" "length (replicate 62 (0 :: u8) @ [1, 0xc0]) = 64" by (simp_all add: long_vector_def)
  from one_block(2) [OF this(1)] one_block(1) [OF this(2)]
  show "fips_sha1 (bytes_of long_vector) = concat (map (\<lambda>h. fips_bytes 4 (unat h)) [0x84983e44 :: u32, 0x1c3bd26e, 0xbaae4aa1, 0xf95129e5, 0xe54670f1])"
    by (simp only: fips_sha1_def pad_vectors block_long block_length)
qed

section \<open>Correctness\<close>

text \<open>
  C21.  The streaming digest is SHA-1: feeding a message to the context in any sequence of pieces and
  finishing gives the digest FIPS 180 defines, and the form the store uses is that digest in
  hexadecimal.  The reference shares no operation with the code; the witness evaluates the rounds of the
  code on two test vectors of the standard.
\<close>

theorem sha1_stream_correct:
  "sha1_final (foldl sha1_update (sha1_init stack_ctx) ps) = fips_sha1 (concat ps) \<and>
   kv_store_sha1_bytes_hex p = fips_hex (fips_sha1 p)"
  by (simp add: sha1_chunks sha1_hex_fips hex20_fips)

theorem sha1_stream_correct_witness:
  "kv_store_sha1_bytes_hex (bytes_of ''abc'') = ''a9993e364706816aba3e25717850c26c9cd0d89d'' \<and>
   kv_store_sha1_bytes_hex (bytes_of long_vector) = ''84983e441c3bd26ebaae4aa1f95129e5e54670f1'' \<and>
   sha1_final (foldl sha1_update (sha1_init stack_ctx) [bytes_of ''a'', bytes_of ''bc'']) = fips_sha1 (bytes_of ''abc'')"
proof (intro conjI)
  have "fips_hex (fips_sha1 (bytes_of ''abc'')) = ''a9993e364706816aba3e25717850c26c9cd0d89d''"
    unfolding digest_vectors by (simp add: fips_bytes_def fips_hex_def upt_rec, code_simp)
  then show "kv_store_sha1_bytes_hex (bytes_of ''abc'') = ''a9993e364706816aba3e25717850c26c9cd0d89d''"
    using sha1_stream_correct [of "[]" "bytes_of ''abc''"] by simp
  have "fips_hex (fips_sha1 (bytes_of long_vector)) = ''84983e441c3bd26ebaae4aa1f95129e5e54670f1''"
    unfolding digest_vectors by (simp add: fips_bytes_def fips_hex_def upt_rec, code_simp)
  then show "kv_store_sha1_bytes_hex (bytes_of long_vector) = ''84983e441c3bd26ebaae4aa1f95129e5e54670f1''"
    using sha1_stream_correct [of "[]" "bytes_of long_vector"] by simp
  have "concat [bytes_of ''a'', bytes_of ''bc''] = bytes_of ''abc''" by (simp add: bytes_of_def)
  then show "sha1_final (foldl sha1_update (sha1_init stack_ctx) [bytes_of ''a'', bytes_of ''bc'']) = fips_sha1 (bytes_of ''abc'')"
    using sha1_stream_correct [of "[bytes_of ''a'', bytes_of ''bc'']"] by (simp only: simp_thms)
qed

section \<open>The shape of a digest\<close>

lemma hex_char_nibble: "unat n < 16 \<Longrightarrow> hex_char n \<in> set ''0123456789abcdef''"
  unfolding hex_char_def by (rule nth_mem) simp

lemma nibble_bounds: "unat (drop_bit 4 (b :: u8)) < 16" "unat (b AND 15) < 16"
proof -
  show "unat (drop_bit 4 b) < 16"
    using unat_u8_less [of b] by (simp add: drop_bit_eq_div unat_div less_mult_imp_div_less)
  have "b AND 15 \<le> 15" by (rule word_and_le1)
  then show "unat (b AND 15) < 16" by (simp add: word_le_nat_alt)
qed

lemma set_hex20: "set (hex20 d) \<subseteq> set ''0123456789abcdef''"
proof
  fix x
  assume "x \<in> set (hex20 d)"
  then obtain b where "x = hex_char (drop_bit 4 b) \<or> x = hex_char (b AND 15)" by (auto simp: hex20_def)
  then show "x \<in> set ''0123456789abcdef''" using hex_char_nibble nibble_bounds by metis
qed

lemma length_hex20: "length (hex20 d) = 2 * length d"
  by (induction d) (auto simp: hex20_def)

lemma length_fips_sha1: "length (fips_sha1 m) = 20"
proof -
  have "length (concat (map (\<lambda>h. fips_bytes 4 (unat h)) xs)) = 4 * length xs" for xs :: "u32 list"
    by (induction xs) (auto simp: fips_bytes_def)
  then show ?thesis by (simp add: fips_sha1_def length_fips_blocks fips_init_def)
qed

lemma length_sha1_hex [simp]: "length (kv_store_sha1_bytes_hex p) = 40"
  by (simp add: sha1_hex_fips length_hex20 length_fips_sha1)

end
