(* ===== verification/KvFormat.thy ===== *)
theory KvFormat
  imports CLib Sha1
begin

text \<open>
  The durable format of \<^verbatim>\<open>kv_store.c\<close>: little-endian integers, the 48-byte fixed header followed by
  the text length, the reason codes, and the names of checkpoint files.  A file is a list of bytes; a
  \<^verbatim>\<open>FILE*\<close> open for reading is the suffix that is still to be read.
\<close>

section \<open>Entries and options\<close>

record kv_store_entry =
  e_sha :: string
  e_path :: string
  quant_bits :: u8
  model_id :: u8
  reason :: u8
  tokens :: u32
  hits :: u32
  ctx_size :: u32
  ext_flags :: u8
  created_at :: u64
  last_used :: u64
  payload_bytes :: u64
  text_bytes :: u64
  file_size :: u64

definition zero_entry :: kv_store_entry where
  "zero_entry = \<lparr>e_sha = [], e_path = [], quant_bits = 0, model_id = 0, reason = 0, tokens = 0,
     hits = 0, ctx_size = 0, ext_flags = 0, created_at = 0, last_used = 0, payload_bytes = 0,
     text_bytes = 0, file_size = 0\<rparr>"

abbreviation REASON_UNKNOWN :: u8 where "REASON_UNKNOWN \<equiv> 0"
abbreviation REASON_COLD :: u8 where "REASON_COLD \<equiv> 1"
abbreviation REASON_CONTINUED :: u8 where "REASON_CONTINUED \<equiv> 2"
abbreviation REASON_EVICT :: u8 where "REASON_EVICT \<equiv> 3"
abbreviation REASON_SHUTDOWN :: u8 where "REASON_SHUTDOWN \<equiv> 4"
abbreviation REASON_AGENT_SYSTEM :: u8 where "REASON_AGENT_SYSTEM \<equiv> 5"
abbreviation REASON_AGENT_SESSION :: u8 where "REASON_AGENT_SESSION \<equiv> 6"

abbreviation EXT_RESPONSES_VISIBLE :: u8 where "EXT_RESPONSES_VISIBLE \<equiv> 2"
abbreviation EXT_THINKING_VISIBLE :: u8 where "EXT_THINKING_VISIBLE \<equiv> 4"

definition kv_store_reason_code :: "string option \<Rightarrow> u8" where
  "kv_store_reason_code r =
     (case r of None \<Rightarrow> REASON_UNKNOWN | Some r \<Rightarrow>
        if r = ''cold'' then REASON_COLD
        else if r = ''continued'' then REASON_CONTINUED
        else if r = ''evict'' then REASON_EVICT
        else if r = ''shutdown'' then REASON_SHUTDOWN
        else if r = ''agent-system'' then REASON_AGENT_SYSTEM
        else if r = ''agent-session'' then REASON_AGENT_SESSION
        else REASON_UNKNOWN)"

definition kv_store_key_kind :: "u8 \<Rightarrow> string" where
  "kv_store_key_kind ext =
     (if ext AND EXT_RESPONSES_VISIBLE \<noteq> 0 then ''responses-visible''
      else if ext AND EXT_THINKING_VISIBLE \<noteq> 0 then ''thinking-visible''
      else ''token-text'')"

section \<open>Little-endian integers\<close>

definition kv_store_le_put32 :: "u32 \<Rightarrow> bytes" where
  "kv_store_le_put32 v = [ucast v, ucast (drop_bit 8 v), ucast (drop_bit 16 v), ucast (drop_bit 24 v)]"

definition kv_store_le_get32 :: "bytes \<Rightarrow> u32" where
  "kv_store_le_get32 p = ucast (p ! 0) OR push_bit 8 (ucast (p ! 1)) OR push_bit 16 (ucast (p ! 2))
     OR push_bit 24 (ucast (p ! 3))"

definition kv_le_put64 :: "u64 \<Rightarrow> bytes" where
  "kv_le_put64 v = map (\<lambda>i. ucast (drop_bit (8 * i) v)) [0, 1, 2, 3, 4, 5, 6, 7]"

definition kv_le_get64 :: "bytes \<Rightarrow> u64" where
  "kv_le_get64 p = foldl (\<lambda>v i. push_bit 8 v OR ucast (p ! i)) 0 [7, 6, 5, 4, 3, 2, 1, 0]"

lemma length_le_put [simp]: "length (kv_store_le_put32 v) = 4" "length (kv_le_put64 w) = 8"
  by (simp_all add: kv_store_le_put32_def kv_le_put64_def)

lemma le_get_put32: "kv_store_le_get32 (kv_store_le_put32 v @ rest) = v"
proof (rule bit_word_eqI)
  fix n
  assume "n < LENGTH(32)"
  then consider "n < 8" | "8 \<le> n" "n < 16" | "16 \<le> n" "n < 24" | "24 \<le> n" "n < 32" by fastforce
  then show "bit (kv_store_le_get32 (kv_store_le_put32 v @ rest)) n = bit v n"
    by cases (auto simp: kv_store_le_get32_def kv_store_le_put32_def bit_simps)
qed

lemma byte_join:
  "push_bit 8 (drop_bit (8 + k) v) OR ucast (ucast (drop_bit k v) :: u8) = drop_bit k (v :: u64)"
proof (rule bit_word_eqI)
  fix n
  assume "n < LENGTH(64)"
  then show "bit (push_bit 8 (drop_bit (8 + k) v) OR ucast (ucast (drop_bit k v) :: u8)) n = bit (drop_bit k v) n"
    by (cases "n < 8") (auto simp: bit_simps add_ac)
qed

lemma le_get_put64: "kv_le_get64 (kv_le_put64 v @ rest) = v"
proof -
  have "drop_bit 64 v = 0" by (rule bit_word_eqI) (auto simp: bit_simps dest: bit_imp_le_length)
  then show ?thesis
    using byte_join [of 56 v] byte_join [of 48 v] byte_join [of 40 v] byte_join [of 32 v]
      byte_join [of 24 v] byte_join [of 16 v] byte_join [of 8 v] byte_join [of 0 v]
    by (simp add: kv_le_get64_def kv_le_put64_def)
qed

section \<open>The header\<close>

abbreviation FIXED_HEADER :: nat where "FIXED_HEADER \<equiv> 48"

text \<open>
  The array after the \<^verbatim>\<open>memset\<close> and the assignments, field by field in offset order: magic and
  version at 0, quant bits, reason, extension flags and model at 4 to 7, the 32-bit counters at 8, 12
  and 16, the payload ABI at 20 (bytes 21 to 23 stay zero), the 64-bit fields at 24, 32 and 40.
\<close>

definition kv_store_fill_header ::
    "u8 \<Rightarrow> u8 \<Rightarrow> u8 \<Rightarrow> u8 \<Rightarrow> u32 \<Rightarrow> u32 \<Rightarrow> u32 \<Rightarrow> u64 \<Rightarrow> u64 \<Rightarrow> u64 \<Rightarrow> bytes" where
  "kv_store_fill_header model quant rsn ext toks hit ctx created used payload =
     bytes_of ''KVC'' @ [1] @ [quant, rsn, ext, model]
     @ kv_store_le_put32 toks @ kv_store_le_put32 hit @ kv_store_le_put32 ctx @ [2, 0, 0, 0]
     @ kv_le_put64 created @ kv_le_put64 used @ kv_le_put64 payload"

text \<open>The entry with the header fields, the text length and the rest of the file.\<close>

definition kv_store_read_header :: "bytes \<Rightarrow> (kv_store_entry \<times> u32 \<times> bytes) option" where
  "kv_store_read_header fp =
     (if length fp < FIXED_HEADER then None
      else (let h = take FIXED_HEADER fp; fp1 = drop FIXED_HEADER fp in
        if take 3 h \<noteq> bytes_of ''KVC'' \<or> h ! 3 \<noteq> 1 then None
        else if h ! 20 \<noteq> 2 then None
        else if length fp1 < 4 then None
        else (let tb = kv_store_le_get32 (take 4 fp1);
                  e = zero_entry\<lparr>quant_bits := h ! 4,
                       reason := (if h ! 5 \<le> REASON_AGENT_SESSION then h ! 5 else REASON_UNKNOWN),
                       ext_flags := h ! 6, model_id := h ! 7,
                       tokens := kv_store_le_get32 (drop 8 h), hits := kv_store_le_get32 (drop 12 h),
                       ctx_size := kv_store_le_get32 (drop 16 h),
                       created_at := kv_le_get64 (drop 24 h), last_used := kv_le_get64 (drop 32 h),
                       payload_bytes := kv_le_get64 (drop 40 h), text_bytes := ucast tb\<rparr>
              in if tokens e \<noteq> 0 \<and> (quant_bits e = 2 \<or> quant_bits e = 4)
                 then Some (e, tb, drop 4 fp1) else None)))"

lemma length_fill_header [simp]:
  "length (kv_store_fill_header model quant rsn ext toks hit ctx created used payload) = FIXED_HEADER"
  by (simp add: kv_store_fill_header_def)

lemma fill_header_fields:
  fixes model quant rsn ext :: u8 and toks hit ctx :: u32 and created used payload :: u64
  defines "h \<equiv> kv_store_fill_header model quant rsn ext toks hit ctx created used payload"
  shows "take 3 h = bytes_of ''KVC''" "h ! 3 = 1" "h ! 4 = quant" "h ! 5 = rsn" "h ! 6 = ext" "h ! 7 = model"
    "h ! 20 = 2" "kv_store_le_get32 (drop 8 h) = toks" "kv_store_le_get32 (drop 12 h) = hit"
    "kv_store_le_get32 (drop 16 h) = ctx" "kv_le_get64 (drop 24 h) = created"
    "kv_le_get64 (drop 32 h) = used" "kv_le_get64 (drop 40 h) = payload"
  using le_get_put64 [of payload "[]"]
  by (simp_all add: h_def kv_store_fill_header_def le_get_put32 le_get_put64 nth_append bytes_of_def)

lemma read_fill_header:
  assumes "toks \<noteq> 0" and "quant = 2 \<or> quant = 4"
  shows "kv_store_read_header (kv_store_fill_header model quant rsn ext toks hit ctx created used payload
       @ kv_store_le_put32 tb @ rest) =
     Some (zero_entry\<lparr>quant_bits := quant, reason := (if rsn \<le> 6 then rsn else 0), ext_flags := ext,
       model_id := model, tokens := toks, hits := hit, ctx_size := ctx, created_at := created,
       last_used := used, payload_bytes := payload, text_bytes := ucast tb\<rparr>, tb, rest)"
  using assms le_get_put32 [of tb "[]"]
  by (simp add: kv_store_read_header_def Let_def fill_header_fields)

lemma read_header_SomeD:
  assumes "kv_store_read_header fp = Some (e, tb, rest)"
  shows "52 \<le> length fp" "rest = drop 52 fp" "text_bytes e = ucast tb" "tokens e \<noteq> 0"
    "quant_bits e = 2 \<or> quant_bits e = 4" "reason e \<le> 6" "e_sha e = []" "e_path e = []"
    "take 3 fp = bytes_of ''KVC''" "fp ! 3 = 1" "fp ! 20 = 2"
  using assms by (auto simp: kv_store_read_header_def Let_def zero_entry_def word_le_nat_alt split: if_splits)

lemma read_header_file_size: "kv_store_read_header fp = Some (e, tb, rest) \<Longrightarrow> file_size e = 0"
  by (auto simp: kv_store_read_header_def Let_def zero_entry_def split: if_splits)

text \<open>Only the first 52 bytes of a file decide what its header is.\<close>

lemma read_header_cong:
  assumes "kv_store_read_header b = Some (e, tb, rest)" and "take 52 c = take 52 b"
  shows "kv_store_read_header c = Some (e, tb, drop 52 c)"
proof -
  have l: "52 \<le> length b" using read_header_SomeD(1) [OF assms(1)] .
  have "length (take 52 c) = length (take 52 b)" using assms(2) by simp
  with l have lc: "52 \<le> length c" by simp
  have t: "take 48 c = take 48 b" using arg_cong [OF assms(2), of "take 48"] by (simp add: min_def)
  have "take 4 (drop 48 x) = drop 48 (take 52 x)" for x :: bytes by (simp add: take_drop)
  with assms(2) have d: "take 4 (drop 48 c) = take 4 (drop 48 b)" by simp
  have n: "\<not> length b < 48" "\<not> length c < 48" "\<not> length (drop 48 b) < 4" "\<not> length (drop 48 c) < 4" using l lc by auto
  show ?thesis using assms(1)
    unfolding kv_store_read_header_def Let_def t d if_not_P [OF n(1)] if_not_P [OF n(2)] if_not_P [OF n(3)] if_not_P [OF n(4)]
    by (auto split: if_splits)
qed

text \<open>Replacing the fixed header of a file by one with other flags, hit count and time of use.\<close>

lemma read_header_replace:
  assumes "kv_store_read_header b = Some (e, tb, rest)"
  shows "kv_store_read_header (kv_store_fill_header (model_id e) (quant_bits e) (reason e) ext
       (tokens e) hit (ctx_size e) (created_at e) used (payload_bytes e) @ drop FIXED_HEADER b) =
     Some (e\<lparr>ext_flags := ext, hits := hit, last_used := used\<rparr>, tb, rest)"
proof -
  note r = read_header_SomeD [OF assms]
  have tb: "tb = kv_store_le_get32 (take 4 (drop 48 b))" and fs: "file_size e = 0"
    using assms by (auto simp: kv_store_read_header_def Let_def zero_entry_def split: if_splits)
  have e: "zero_entry\<lparr>quant_bits := quant_bits e, reason := reason e, ext_flags := ext, model_id := model_id e,
      tokens := tokens e, hits := hit, ctx_size := ctx_size e, created_at := created_at e, last_used := used,
      payload_bytes := payload_bytes e, text_bytes := ucast tb\<rparr> = e\<lparr>ext_flags := ext, hits := hit, last_used := used\<rparr>"
    using r(3,7,8) fs by (cases e) (simp add: zero_entry_def)
  have "\<not> length (drop 48 b) < 4" using r(1) by simp
  then show ?thesis using r e tb
    by (simp add: kv_store_read_header_def Let_def fill_header_fields)
qed

section \<open>File names\<close>

definition kv_store_sha_hex_name :: "string \<Rightarrow> string option" where
  "kv_store_sha_hex_name name =
     (if length name \<noteq> 43 \<or> drop 40 name \<noteq> ''.kv'' then None
      else if \<not> list_all isxdigit (take 40 name) then None
      else Some (map tolower (take 40 name)))"

definition kv_store_path_join :: "string \<Rightarrow> string \<Rightarrow> string" where
  "kv_store_path_join dir name =
     dir @ (if dir = [] \<or> last dir \<noteq> CHR ''/'' then ''/'' else []) @ name"

definition kv_store_path_for_sha :: "string \<Rightarrow> string \<Rightarrow> string" where
  "kv_store_path_for_sha dir sha = kv_store_path_join dir (take 40 sha @ ''.kv'')"

lemma path_join_inj: "kv_store_path_join dir a = kv_store_path_join dir b \<longleftrightarrow> a = b"
  by (simp add: kv_store_path_join_def)

lemma hex_digit_class: "list_all (\<lambda>c. isxdigit c \<and> tolower c = c) ''0123456789abcdef''"
  by code_simp

lemma sha_hex_name_sha1:
  "kv_store_sha_hex_name (kv_store_sha1_bytes_hex p @ ''.kv'') = Some (kv_store_sha1_bytes_hex p)"
proof -
  have "\<forall>c \<in> set (kv_store_sha1_bytes_hex p). isxdigit c \<and> tolower c = c"
    unfolding sha1_hex_fips using set_hex20 hex_digit_class [unfolded list_all_iff] by blast
  then show ?thesis
    by (simp add: kv_store_sha_hex_name_def list_all_iff map_idI)
qed

text \<open>
  A stored header reads back: for a non-empty checkpoint with a supported quantization, parsing
  the written header, followed by a text length and any further bytes, yields every field as it was
  given (a reason outside the known codes becomes unknown), the text length, and the further bytes.
\<close>

theorem kv_header_roundtrip:
  assumes "toks \<noteq> 0" and "quant = 2 \<or> quant = 4" and "rsn \<le> REASON_AGENT_SESSION"
  shows "kv_store_read_header (kv_store_fill_header model quant rsn ext toks hit ctx created used payload
       @ kv_store_le_put32 tb @ rest) =
     Some (zero_entry\<lparr>quant_bits := quant, reason := rsn, ext_flags := ext,
       model_id := model, tokens := toks, hits := hit, ctx_size := ctx, created_at := created,
       last_used := used, payload_bytes := payload, text_bytes := ucast tb\<rparr>, tb, rest)"
  using read_fill_header [OF assms(1,2), of model rsn] assms(3) by simp

theorem kv_header_roundtrip_witness:
  "kv_store_read_header (kv_store_fill_header 1 2 REASON_COLD 0 512 0 2048 10 20 99
       @ kv_store_le_put32 7 @ [42]) =
     Some (zero_entry\<lparr>quant_bits := 2, reason := REASON_COLD, ext_flags := 0,
       model_id := 1, tokens := 512, hits := 0, ctx_size := 2048, created_at := 10,
       last_used := 20, payload_bytes := 99, text_bytes := 7\<rparr>, 7, [42])"
  using kv_header_roundtrip [of 512 2 REASON_COLD 1 0 0 2048 10 20 99 7 "[42]"] by simp

text \<open>
  Nothing else is taken for a checkpoint: a header parses only if the file has at least the 52
  fixed bytes, the magic and the version, the payload ABI of this build, a non-zero token count, a
  supported quantization; and the parsed reason is always a known code.
\<close>

theorem kv_header_rejects_foreign:
  assumes "kv_store_read_header fp = Some (e, tb, rest)"
  shows "52 \<le> length fp \<and> take 3 fp = bytes_of ''KVC'' \<and> fp ! 3 = 1 \<and> fp ! 20 = 2 \<and> tokens e \<noteq> 0 \<and>
    (quant_bits e = 2 \<or> quant_bits e = 4) \<and> reason e \<le> REASON_AGENT_SESSION \<and>
    rest = drop 52 fp \<and> unat (text_bytes e) = unat tb"
  using read_header_SomeD [OF assms] unat_u32_less [of tb]
  by (simp add: unsigned_ucast_eq take_bit_nat_eq_self)

theorem kv_header_rejects_foreign_witness:
  "52 \<le> length (kv_store_fill_header 1 2 1 0 512 0 2048 10 20 99 @ kv_store_le_put32 7 @ [42 :: u8])"
proof -
  have "kv_store_read_header (kv_store_fill_header 1 2 1 0 512 0 2048 10 20 99 @ kv_store_le_put32 7 @ [42]) \<noteq> None"
    by (simp add: read_fill_header)
  then obtain e tb rest where
    "kv_store_read_header (kv_store_fill_header 1 2 1 0 512 0 2048 10 20 99 @ kv_store_le_put32 7 @ [42]) = Some (e, tb, rest)"
    by auto
  from kv_header_rejects_foreign [OF this] show ?thesis by blast
qed

end
