(* ===== verification/KvPolicy.thy ===== *)
theory KvPolicy
  imports KvFormat "HOL-Library.Signed_Division"
begin

text \<open>
  The policy part of \<^verbatim>\<open>kv_store.c\<close>: when a checkpoint is stored and how long it is, the position of
  the chat anchor, the bookkeeping of continued checkpoints, and the size arithmetic behind the disk
  budget.  C's division and remainder on \<^verbatim>\<open>int\<close> truncate toward zero, so they are \<open>sdiv\<close> and
  \<open>smod\<close>.
\<close>

section \<open>Options and state\<close>

record kv_store_options =
  min_tokens :: int
  cold_max_tokens :: int
  continued_interval_tokens :: int
  boundary_trim_tokens :: int
  boundary_align_tokens :: int

text \<open>
  The store.  The entry array with its length is a list; its capacity, the logging callback and its
  arguments have no effect on the results and are left out.
\<close>

record kv_store =
  enabled :: bool
  dir :: string
  budget_bytes :: u64
  reject_different_quant :: bool
  opt :: kv_store_options
  continued_last_store_tokens :: int
  entry :: "kv_store_entry list"

definition kv_store_default_options :: kv_store_options where
  "kv_store_default_options = \<lparr>min_tokens = 512, cold_max_tokens = 30000, continued_interval_tokens = 10000,
     boundary_trim_tokens = 32, boundary_align_tokens = 2048\<rparr>"

section \<open>Where checkpoints end\<close>

definition kv_store_store_len :: "kv_store \<Rightarrow> int \<Rightarrow> int" where
  "kv_store_store_len kc toks =
     (let trim = boundary_trim_tokens (opt kc); align = boundary_align_tokens (opt kc) in
      if toks > min_tokens (opt kc) + trim then
        (let stable = toks - trim;
             stable = (if align > 0 then stable - stable smod align else stable)
         in if stable \<ge> min_tokens (opt kc) then stable else toks)
      else toks)"

text \<open>The scan for the last user marker before the first assistant marker.\<close>

fun last_user_scan :: "int list \<Rightarrow> int \<Rightarrow> int \<Rightarrow> int \<Rightarrow> int \<Rightarrow> int" where
  "last_user_scan [] i user_id assistant_id last_user = last_user"
| "last_user_scan (t # ts) i user_id assistant_id last_user =
     (if t = assistant_id then last_user
      else last_user_scan ts (i + 1) user_id assistant_id (if t = user_id then i else last_user))"

definition kv_store_chat_anchor_pos :: "kv_store \<Rightarrow> int list option \<Rightarrow> int \<Rightarrow> int \<Rightarrow> int" where
  "kv_store_chat_anchor_pos kc prompt user_id assistant_id =
     (case prompt of None \<Rightarrow> -1 | Some p \<Rightarrow>
        if user_id < 0 \<or> assistant_id < 0 then -1
        else (let last_user = last_user_scan p 0 user_id assistant_id (-1)
              in if last_user \<ge> min_tokens (opt kc) then last_user else -1))"

section \<open>Continued checkpoints\<close>

definition kv_cache_continued_step :: "kv_store \<Rightarrow> int" where
  "kv_cache_continued_step kc =
     (if \<not> enabled kc \<or> continued_interval_tokens (opt kc) \<le> 0 then 0
      else (let step = continued_interval_tokens (opt kc); align = boundary_align_tokens (opt kc) in
        if align > 0 then
          (let step = ((step + align - 1) sdiv align) * align in if step \<le> 0 then align else step)
        else step))"

definition kv_store_continued_store_target :: "kv_store \<Rightarrow> int \<Rightarrow> int" where
  "kv_store_continued_store_target kc live =
     (let step = kv_cache_continued_step kc in
      if step \<le> 0 then 0
      else if live < min_tokens (opt kc) then 0
      else if live smod step \<noteq> 0 then 0
      else if live \<le> continued_last_store_tokens kc then 0
      else live)"

definition kv_store_note_store :: "kv_store \<Rightarrow> int \<Rightarrow> kv_store" where
  "kv_store_note_store kc toks =
     (if toks > continued_last_store_tokens kc then kc\<lparr>continued_last_store_tokens := toks\<rparr> else kc)"

definition kv_store_suppress_continued_store :: "kv_store \<Rightarrow> int \<Rightarrow> int \<times> kv_store" where
  "kv_store_suppress_continued_store kc toks =
     (if kv_store_continued_store_target kc toks \<noteq> toks then (-1, kc)
      else (continued_last_store_tokens kc, kv_store_note_store kc toks))"

definition kv_store_restore_suppressed_continued :: "kv_store \<Rightarrow> int \<Rightarrow> int \<Rightarrow> kv_store" where
  "kv_store_restore_suppressed_continued kc old suppressed =
     (if old \<ge> 0 \<and> continued_last_store_tokens kc = suppressed
      then kc\<lparr>continued_last_store_tokens := old\<rparr> else kc)"

section \<open>Sizes and the budget\<close>

definition kv_cache_file_size_bytes :: "u64 \<Rightarrow> u64 \<Rightarrow> u64 \<Rightarrow> u64 option" where
  "kv_cache_file_size_bytes text payload trailer =
     (let fixed = 48 + 4 in
      if UINT64_MAX - fixed < text \<or> UINT64_MAX - fixed - text < payload
         \<or> UINT64_MAX - fixed - text - payload < trailer then None
      else Some (fixed + text + payload + trailer))"

definition kv_cache_budget_required :: "u64 \<Rightarrow> u64 option" where
  "kv_cache_budget_required file =
     (let slack = file div 100; slack = (if file mod 100 \<noteq> 0 then slack + 1 else slack) in
      if UINT64_MAX - file < slack then None else Some (file + slack))"

text \<open>
  The result, and the values of the two out parameters, which keep \<open>fb\<close> and \<open>rb\<close> on the paths
  that do not assign them.  \<open>budget\<close> is \<^const>\<open>None\<close> when there is no store.
\<close>

definition kv_store_file_size_fits ::
    "u64 option \<Rightarrow> u64 \<Rightarrow> u64 \<Rightarrow> u64 \<Rightarrow> u64 \<Rightarrow> u64 \<Rightarrow> bool \<times> u64 \<times> u64" where
  "kv_store_file_size_fits budget text payload trailer fb rb =
     (case kv_cache_file_size_bytes text payload trailer of
        None \<Rightarrow> (False, fb, rb)
      | Some file \<Rightarrow>
        if budget = None \<or> budget = Some 0 then (True, file, rb)
        else (case kv_cache_budget_required file of
            None \<Rightarrow> (False, file, rb)
          | Some required \<Rightarrow> (required \<le> the budget, file, required)))"

section \<open>Store lengths\<close>

lemma smod_nonneg: "0 \<le> (a :: int) \<Longrightarrow> 0 < b \<Longrightarrow> a smod b = a mod b"
  by (cases "a = 0") (auto simp: signed_modulo_int_def sgn_if)

lemma sdiv_nonneg: "0 \<le> (a :: int) \<Longrightarrow> 0 < b \<Longrightarrow> a sdiv b = a div b"
  by (cases "a = 0") (auto simp: signed_divide_int_def sgn_if)

text \<open>
  A checkpoint ends at the last aligned boundary that leaves the trimmed tail out.  For a
  positive alignment and non-negative options, the stored length is the largest multiple of the
  alignment at most \<open>toks - trim\<close>, unless that boundary is below the minimum (or the prompt is
  not longer than minimum and trim), and then it is the whole prompt.
\<close>

theorem store_len_boundary:
  assumes "0 \<le> min_tokens (opt kc)" and "0 \<le> boundary_trim_tokens (opt kc)"
    and "0 < boundary_align_tokens (opt kc)" and "0 \<le> toks"
  defines "b \<equiv> (toks - boundary_trim_tokens (opt kc)) div boundary_align_tokens (opt kc) * boundary_align_tokens (opt kc)"
  shows "kv_store_store_len kc toks =
    (if toks > min_tokens (opt kc) + boundary_trim_tokens (opt kc) \<and> b \<ge> min_tokens (opt kc) then b else toks)"
proof -
  have "x - x smod boundary_align_tokens (opt kc) = x div boundary_align_tokens (opt kc) * boundary_align_tokens (opt kc)"
    if "0 \<le> x" for x
    using that assms(3) by (simp add: smod_nonneg minus_mod_eq_div_mult)
  then show ?thesis using assms by (simp add: kv_store_store_len_def Let_def)
qed

definition sample_kv_store :: kv_store where
  "sample_kv_store = \<lparr>enabled = True, dir = ''/kv'', budget_bytes = 1000000, reject_different_quant = False,
     opt = kv_store_default_options, continued_last_store_tokens = 0, entry = []\<rparr>"

theorem store_len_boundary_witness: "kv_store_store_len sample_kv_store 5000 = 4096"
  using store_len_boundary [of sample_kv_store 5000] by (simp add: sample_kv_store_def kv_store_default_options_def)

section \<open>The chat anchor\<close>

text \<open>The positions the scan considers: user markers with no assistant marker before them.\<close>

definition user_before_assistant :: "int list \<Rightarrow> int \<Rightarrow> int \<Rightarrow> nat \<Rightarrow> bool" where
  "user_before_assistant p user_id assistant_id j \<longleftrightarrow>
     j < length p \<and> p ! j = user_id \<and> assistant_id \<notin> set (take (Suc j) p)"

lemma user_before_Cons_0:
  "user_before_assistant (t # ts) u a 0 \<longleftrightarrow> t = u \<and> t \<noteq> a"
  by (auto simp: user_before_assistant_def)

lemma user_before_Cons_Suc:
  "user_before_assistant (t # ts) u a (Suc j) \<longleftrightarrow> t \<noteq> a \<and> user_before_assistant ts u a j"
  by (auto simp: user_before_assistant_def)

lemma user_before_Nil: "\<not> user_before_assistant [] u a j"
  by (simp add: user_before_assistant_def)

lemmas user_before_simps = user_before_Cons_0 user_before_Cons_Suc user_before_Nil

lemma last_user_scan_spec:
  "(last_user_scan p i u a l = l \<and> (\<forall>j. \<not> user_before_assistant p u a j)) \<or>
   (\<exists>j. last_user_scan p i u a l = i + int j \<and> user_before_assistant p u a j \<and>
      (\<forall>k. user_before_assistant p u a k \<longrightarrow> k \<le> j))"
proof (induction p arbitrary: i l)
  case (Cons t ts)
  show ?case
  proof (cases "t = a")
    case True
    then have "\<not> user_before_assistant (t # ts) u a j" for j by (cases j) (simp_all add: user_before_simps)
    with True show ?thesis by simp
  next
    case False
    consider (none) "last_user_scan ts (i + 1) u a (if t = u then i else l) = (if t = u then i else l)"
        "\<forall>j. \<not> user_before_assistant ts u a j"
      | (some) j where "last_user_scan ts (i + 1) u a (if t = u then i else l) = i + 1 + int j"
        "user_before_assistant ts u a j" "\<forall>k. user_before_assistant ts u a k \<longrightarrow> k \<le> j"
      using Cons.IH by blast
    then show ?thesis
    proof cases
      case none
      then have ub: "user_before_assistant (t # ts) u a k \<longleftrightarrow> k = 0 \<and> t = u" for k
        using False by (cases k) (auto simp: user_before_simps)
      then show ?thesis using none False by (cases "t = u") auto
    next
      case (some j)
      have "k \<le> Suc j" if "user_before_assistant (t # ts) u a k" for k
        using that some(3) by (cases k) (auto simp: user_before_simps)
      with some False show ?thesis
        by (intro disjI2 exI [of _ "Suc j"]) (auto simp: user_before_simps)
    qed
  qed
qed (simp add: user_before_simps)

text \<open>
  The chat anchor is the last user marker before the first assistant marker, when it lies at or
  past the minimum length; in every other case the result is -1.
\<close>

theorem chat_anchor_last_user:
  assumes "0 \<le> user_id" and "0 \<le> assistant_id" and "0 \<le> min_tokens (opt kc)"
  shows "case kv_store_chat_anchor_pos kc (Some p) user_id assistant_id of r \<Rightarrow>
     if r = -1 then \<forall>j. user_before_assistant p user_id assistant_id j \<longrightarrow> int j < min_tokens (opt kc)
     else min_tokens (opt kc) \<le> r \<and> user_before_assistant p user_id assistant_id (nat r) \<and>
       (\<forall>k. user_before_assistant p user_id assistant_id k \<longrightarrow> k \<le> nat r)"
  using last_user_scan_spec [of p 0 user_id assistant_id "-1"] assms
  by (force simp: kv_store_chat_anchor_pos_def Let_def)

theorem chat_anchor_last_user_witness:
  "kv_store_chat_anchor_pos (sample_kv_store\<lparr>opt := kv_store_default_options\<lparr>min_tokens := 1\<rparr>\<rparr>)
        (Some [7, 5, 9, 5, 8, 5]) 5 8 = 3 \<and>
   \<not> user_before_assistant [7, 5, 9, 5, 8, 5] 5 8 5"
proof -
  let ?kc = "sample_kv_store\<lparr>opt := kv_store_default_options\<lparr>min_tokens := 1\<rparr>\<rparr>"
  have r: "kv_store_chat_anchor_pos ?kc (Some [7, 5, 9, 5, 8, 5]) 5 8 = 3" by code_simp
  show ?thesis using chat_anchor_last_user [of 5 8 ?kc "[7, 5, 9, 5, 8, 5]"] unfolding r by auto
qed

section \<open>Continued checkpoints\<close>

lemma continued_step_aligned:
  assumes "0 < boundary_align_tokens (opt kc)" and "kv_cache_continued_step kc \<noteq> 0"
  shows "boundary_align_tokens (opt kc) dvd kv_cache_continued_step kc \<and>
    continued_interval_tokens (opt kc) \<le> kv_cache_continued_step kc \<and>
    kv_cache_continued_step kc < continued_interval_tokens (opt kc) + boundary_align_tokens (opt kc)"
proof -
  let ?s = "continued_interval_tokens (opt kc)" and ?a = "boundary_align_tokens (opt kc)"
  have s: "0 < ?s" using assms(2) by (auto simp: kv_cache_continued_step_def split: if_splits)
  have up: "?s \<le> (?s + ?a - 1) div ?a * ?a \<and> (?s + ?a - 1) div ?a * ?a < ?s + ?a"
    using div_mult_mod_eq [of "?s + ?a - 1" ?a] pos_mod_bound [OF assms(1), of "?s + ?a - 1"]
      pos_mod_sign [OF assms(1), of "?s + ?a - 1"] by linarith
  then have "kv_cache_continued_step kc = (?s + ?a - 1) div ?a * ?a"
    using assms s by (auto simp: kv_cache_continued_step_def Let_def sdiv_nonneg split: if_splits)
  with up show ?thesis by simp
qed

lemma continued_target_cases:
  "kv_store_continued_store_target kc live \<noteq> 0 \<Longrightarrow> 0 < kv_cache_continued_step kc \<and>
   kv_store_continued_store_target kc live = live \<and> min_tokens (opt kc) \<le> live \<and>
   live smod kv_cache_continued_step kc = 0 \<and> continued_last_store_tokens kc < live"
  by (auto simp: kv_store_continued_store_target_def Let_def split: if_splits)

text \<open>
  Continued checkpoints fall on an aligned grid and never repeat: a target is the live length
  itself, at least the minimum, a multiple of the alignment and of a step that is the configured
  interval rounded up to the alignment; and once it has been noted, the next target is at
  least one step further.
\<close>

theorem continued_targets_spaced:
  assumes "kv_store_continued_store_target kc live = t" and "t \<noteq> 0"
    and "0 < boundary_align_tokens (opt kc)" and "0 \<le> min_tokens (opt kc)"
  shows "t = live \<and> min_tokens (opt kc) \<le> t \<and> boundary_align_tokens (opt kc) dvd t \<and>
    continued_interval_tokens (opt kc) \<le> kv_cache_continued_step kc \<and> kv_cache_continued_step kc dvd t \<and>
    continued_last_store_tokens kc < t \<and>
    (\<forall>live'. kv_store_continued_store_target (kv_store_note_store kc t) live' \<noteq> 0 \<longrightarrow> t + kv_cache_continued_step kc \<le> live')"
proof -
  let ?n = "kv_store_note_store kc t" and ?st = "kv_cache_continued_step kc"
  from assms(1,2) have t: "0 < ?st" "t = live" "min_tokens (opt kc) \<le> live" "live smod ?st = 0"
    "continued_last_store_tokens kc < live"
    using continued_target_cases by metis+
  have dvd: "?st dvd t" using t assms(4) by (auto simp: smod_nonneg mod_eq_0_iff_dvd)
  have al: "boundary_align_tokens (opt kc) dvd ?st" "continued_interval_tokens (opt kc) \<le> ?st"
    using continued_step_aligned [OF assms(3)] t(1) by auto
  have n: "kv_cache_continued_step ?n = ?st" "opt ?n = opt kc" "continued_last_store_tokens ?n = t"
    using t by (auto simp: kv_store_note_store_def kv_cache_continued_step_def)
  have "t + ?st \<le> live'" if "kv_store_continued_store_target ?n live' \<noteq> 0" for live'
  proof -
    from continued_target_cases [OF that] n have "t < live'" "live' smod ?st = 0" "0 \<le> live'" using t assms(4) by auto
    then have "?st dvd live' - t" using dvd t(1) by (auto simp: smod_nonneg mod_eq_0_iff_dvd)
    then have "?st \<le> live' - t" using \<open>t < live'\<close> by (intro zdvd_imp_le) auto
    then show ?thesis by simp
  qed
  with t dvd al show ?thesis by (auto intro: dvd_trans)
qed

theorem continued_targets_spaced_witness:
  "kv_store_continued_store_target (kv_store_note_store sample_kv_store 20480) 25000 = 0"
proof -
  have t: "kv_store_continued_store_target sample_kv_store 20480 = 20480" by code_simp
  have step: "kv_cache_continued_step sample_kv_store = 10240" by code_simp
  show ?thesis using continued_targets_spaced [OF t] unfolding step
    by (force simp: sample_kv_store_def kv_store_default_options_def)
qed

text \<open>
  Suppressing a continued checkpoint is undone by restoring it: while suppressed the position is
  no target, and restoring with the returned value gives back the store as it was.
\<close>

theorem suppress_restore:
  assumes "0 \<le> continued_last_store_tokens kc"
    and "kv_store_suppress_continued_store kc toks = (old, kc')"
  shows "kv_store_continued_store_target kc' toks = 0 \<and> kv_store_restore_suppressed_continued kc' old toks = kc"
  using assms by (auto simp: kv_store_suppress_continued_store_def kv_store_restore_suppressed_continued_def
      kv_store_note_store_def kv_store_continued_store_target_def kv_cache_continued_step_def Let_def split: if_splits)

theorem suppress_restore_witness:
  "kv_store_restore_suppressed_continued (kv_store_note_store sample_kv_store 20480) 0 20480 = sample_kv_store"
proof -
  have "kv_store_suppress_continued_store sample_kv_store 20480 = (0, kv_store_note_store sample_kv_store 20480)"
    by code_simp
  from suppress_restore [OF _ this] show ?thesis by (simp add: sample_kv_store_def)
qed

section \<open>Sizes\<close>

lemma uint64_room: "unat (UINT64_MAX - x) = 2 ^ 64 - 1 - unat x"
proof -
  have "x \<le> UINT64_MAX" by (simp add: word_le_nat_alt) (use unat_u64_less [of x] in simp)
  then show ?thesis by (simp add: unat_sub_le)
qed

lemma sum_fits: "UINT64_MAX - a < b \<longleftrightarrow> 2 ^ 64 \<le> unat a + unat b"
  using unat_u64_less [of a] by (simp add: word_less_nat_alt uint64_room) linarith

lemma sum_exact: "unat a + unat b < 2 ^ 64 \<Longrightarrow> unat (a + b :: u64) = unat a + unat b"
  by (simp add: unat_add_no_wrap)

lemma size_chain:
  "(UINT64_MAX - a < t \<or> UINT64_MAX - a - t < p \<or> UINT64_MAX - a - t - p < r) \<longleftrightarrow>
   2 ^ 64 \<le> unat a + unat t + unat p + unat r"
proof (cases "unat a + unat t + unat p < 2 ^ 64")
  case True
  then have "unat (a + t) = unat a + unat t" "unat (a + t + p) = unat a + unat t + unat p"
    by (simp_all add: sum_exact)
  with True show ?thesis unfolding diff_diff_eq sum_fits by auto
next
  case False
  show ?thesis
  proof (cases "unat a + unat t < 2 ^ 64")
    case True
    with False show ?thesis unfolding diff_diff_eq sum_fits by (simp add: sum_exact)
  qed (use False in \<open>simp add: sum_fits\<close>)
qed

lemma file_size_bytes_exact:
  "kv_cache_file_size_bytes t p r =
     (if 52 + unat t + unat p + unat r < 2 ^ 64 then Some (52 + t + p + r) else None)"
  unfolding kv_cache_file_size_bytes_def Let_def size_chain by simp

lemma unat_file_size:
  "52 + unat t + unat p + unat r < 2 ^ 64 \<Longrightarrow> unat (52 + t + p + r :: u64) = 52 + unat t + unat p + unat r"
  using sum_exact [of 52 t] sum_exact [of "52 + t" p] sum_exact [of "52 + t + p" r] by simp

lemma div_round_up: "(n + 99) div 100 = (if n mod 100 \<noteq> 0 then n div 100 + 1 else n div 100)" for n :: nat
proof -
  define q r where "q = n div 100" and "r = n mod 100"
  have n: "n = 100 * q + r" and r: "r < 100" by (simp_all add: q_def r_def)
  have "(r + 99) div 100 = (if r = 0 then 0 else 1)" using r by (auto intro: div_nat_eqI)
  moreover have "(n + 99) div 100 = q + (r + 99) div 100" unfolding n by (simp add: add.assoc)
  ultimately show ?thesis by (simp add: q_def [symmetric] r_def [symmetric])
qed

lemma unat_slack:
  "unat (if (f :: u64) mod 100 \<noteq> 0 then f div 100 + 1 else f div 100) = (unat f + 99) div 100"
proof -
  have d: "unat (f div 100) = unat f div 100" "unat (f mod 100) = unat f mod 100"
    by (simp_all add: unat_div unat_mod)
  have "unat f div 100 < 2 ^ 63" using unat_u64_less [of f] by simp
  then have s: "unat (f div 100 + 1) = unat f div 100 + 1" using sum_exact [of "f div 100" 1] d by simp
  moreover note div_round_up [of "unat f"]
  moreover have "f mod 100 \<noteq> 0 \<longleftrightarrow> unat f mod 100 \<noteq> 0" using d(2) unat_eq_zero [of "f mod 100"] by simp
  ultimately show ?thesis using d s by simp
qed

lemma budget_required_exact:
  "case kv_cache_budget_required f of
     None \<Rightarrow> 2 ^ 64 \<le> unat f + (unat f + 99) div 100
   | Some b \<Rightarrow> unat b = unat f + (unat f + 99) div 100"
proof -
  define slack where "slack = (if f mod 100 \<noteq> 0 then f div 100 + 1 else f div 100)"
  have "unat slack = (unat f + 99) div 100" unfolding slack_def by (rule unat_slack)
  then show ?thesis
    using sum_fits [of f slack] sum_exact [of f slack]
    by (auto simp: kv_cache_budget_required_def Let_def slack_def [symmetric])
qed

text \<open>
  The size check is exact arithmetic: a checkpoint is accepted precisely if the sum of its fixed
  part, text, payload and trailer fits 64 bits and, with one percent of headroom rounded up, does
  not exceed a non-zero budget; no intermediate sum wraps around.
\<close>

theorem file_size_fits_exact:
  "fst (kv_store_file_size_fits budget text payload trailer fb rb) \<longleftrightarrow>
     (let f = 52 + unat text + unat payload + unat trailer in
      f < 2 ^ 64 \<and> (case budget of None \<Rightarrow> True
        | Some b \<Rightarrow> b = 0 \<or> f + (f + 99) div 100 \<le> unat b))"
proof (cases "52 + unat text + unat payload + unat trailer < 2 ^ 64")
  case True
  note f = unat_file_size [OF True]
  show ?thesis
  proof (cases "budget = None \<or> budget = Some 0")
    case True
    with \<open>_ < 2 ^ 64\<close> show ?thesis
      by (auto simp: kv_store_file_size_fits_def file_size_bytes_exact Let_def)
  next
    case False
    then obtain b where b: "budget = Some b" "b \<noteq> 0" by auto
    show ?thesis
      using budget_required_exact [of "52 + text + payload + trailer"] True b f unat_u64_less [of b]
      by (auto simp: kv_store_file_size_fits_def file_size_bytes_exact Let_def word_le_nat_alt split: option.splits)
  qed
next
  case False
  then show ?thesis by (simp add: kv_store_file_size_fits_def file_size_bytes_exact Let_def)
qed

end
