(* ===== verification/Double.thy ===== *)
theory Double
  imports CLib Complex_Main
begin

text \<open>
  The binary64 arithmetic of the sources, on rational numbers: a finite double is a rational and an
  operation is the exact operation followed by \<open>fl\<close>, the rounding to 53 significant bits (to nearest,
  ties to even).  The exponent range is unbounded; the clients state why neither overflow nor
  the subnormal range can change their results.  Every modelled use is on non-negative numbers.
\<close>

function bits :: "int \<Rightarrow> int" where
  "bits n = (if n \<le> 0 then 0 else 1 + bits (n div 2))"
  by pat_completeness auto

termination bits
  by (relation "measure nat") auto

declare bits.simps [simp del]

definition round_even :: "int \<Rightarrow> int \<Rightarrow> int" where
  "round_even n d = (let q = n div d; r = n mod d in
     if 2 * r < d then q else if d < 2 * r then q + 1 else if even q then q else q + 1)"

text \<open>\<open>exponent n d\<close> is the largest \<open>e\<close> with \<open>2 ^ e \<le> n / d\<close>.\<close>

definition exponent :: "int \<Rightarrow> int \<Rightarrow> int" where
  "exponent n d = (let k = bits n - bits d in
     if (if k \<ge> 0 then d * 2 ^ nat k \<le> n else d \<le> n * 2 ^ nat (- k)) then k else k - 1)"

definition fl :: "rat \<Rightarrow> rat" where
  "fl q = (case quotient_of q of (n, d) \<Rightarrow>
     if n \<le> 0 then 0
     else (let s = 52 - exponent n d in
       if s \<ge> 0 then of_int (round_even (n * 2 ^ nat s) d) / of_int (2 ^ nat s)
       else of_int (round_even n (d * 2 ^ nat (- s)) * 2 ^ nat (- s))))"

definition dbl_of_u64 :: "u64 \<Rightarrow> rat" where
  "dbl_of_u64 w = fl (of_int (uint w))"

definition dbl_of_u32 :: "u32 \<Rightarrow> rat" where
  "dbl_of_u32 w = fl (of_int (uint w))"

lemma round_even_nonneg: "0 \<le> n \<Longrightarrow> 0 < d \<Longrightarrow> 0 \<le> round_even n d"
  by (simp add: round_even_def Let_def pos_imp_zdiv_nonneg_iff)

lemma fl_nonneg: "0 \<le> fl q"
proof (cases "quotient_of q")
  case (Pair n d)
  then have "0 < d" using quotient_of_denom_pos by blast
  then show ?thesis using Pair by (auto simp: fl_def Let_def intro!: divide_nonneg_nonneg mult_nonneg_nonneg round_even_nonneg)
qed

lemma fl_zero [simp]: "fl 0 = 0"
  by (simp add: fl_def)

lemma dbl_nonneg: "0 \<le> dbl_of_u64 w" "0 \<le> dbl_of_u32 v"
  by (simp_all add: dbl_of_u64_def dbl_of_u32_def fl_nonneg)

end
