(* ===== verification/KvStore.thy ===== *)
theory KvStore
  imports KvPolicy Double "HOL-Library.AList" "HOL-Library.Multiset" "HOL-Library.Product_Lexorder"
begin

text \<open>
  The directory of checkpoints of \<^verbatim>\<open>kv_store.c\<close>: scanning it, touching a file, the eviction score,
  the eviction loop, and opening and closing the store.  The operating system is the record \<open>os\<close>: the
  files in directory order, the readings of \<^verbatim>\<open>time\<close>, and which calls are refused.
\<close>

section \<open>The operating system\<close>

text \<open>
  \<open>files\<close> maps a path to its contents; \<open>clock\<close> are the successive readings of \<^verbatim>\<open>time(NULL)\<close> and
  \<open>ticks\<close> counts those taken; \<open>room\<close> is the largest size a file can reach before a write to it
  comes up short; \<open>mkdirs\<close> are the directories \<^verbatim>\<open>mkdir\<close> was called for.
\<close>

record os =
  files :: "(string \<times> bytes) list"
  clock :: "nat \<Rightarrow> u64"
  ticks :: nat
  mkdirs :: "string list"
  mkdir_ok :: "string \<Rightarrow> bool"
  opendir_ok :: "string \<Rightarrow> bool"
  can_read :: "string \<Rightarrow> bool"
  can_write :: "string \<Rightarrow> bool"
  can_unlink :: "string \<Rightarrow> bool"
  room :: "string \<Rightarrow> nat"
  flush_ok :: "string \<Rightarrow> bool"
  close_ok :: "string \<Rightarrow> bool"
  truncate_ok :: "string \<Rightarrow> bool"
  rename_ok :: "string \<Rightarrow> bool"
  pid :: nat

definition os_time :: "os \<Rightarrow> u64 \<times> os" where
  "os_time s = (clock s (ticks s), s\<lparr>ticks := Suc (ticks s)\<rparr>)"

definition os_fopen_read :: "os \<Rightarrow> string \<Rightarrow> bytes option" where
  "os_fopen_read s path = (if can_read s path then map_of (files s) path else None)"

definition os_fopen_update :: "os \<Rightarrow> string \<Rightarrow> bytes option" where
  "os_fopen_update s path = (if can_read s path \<and> can_write s path then map_of (files s) path else None)"

definition os_unlink :: "os \<Rightarrow> string \<Rightarrow> bool \<times> os" where
  "os_unlink s path =
     (if map_of (files s) path \<noteq> None \<and> can_unlink s path
      then (True, s\<lparr>files := AList.delete path (files s)\<rparr>) else (False, s))"

text \<open>Writing at an offset of an existing file: the number of bytes that reach it.\<close>

definition os_write_at :: "os \<Rightarrow> string \<Rightarrow> nat \<Rightarrow> bytes \<Rightarrow> nat \<times> os" where
  "os_write_at s path off data =
     (case map_of (files s) path of None \<Rightarrow> (0, s) | Some b \<Rightarrow>
        (let n = min (length data) (room s path - off)
         in (n, s\<lparr>files := AList.update path (take off b @ take n data @ drop (off + n) b) (files s)\<rparr>)))"

text \<open>The names \<^verbatim>\<open>readdir\<close> yields: the files directly below the directory.\<close>

definition name_in :: "string \<Rightarrow> string \<Rightarrow> string option" where
  "name_in d path = (let p = kv_store_path_join d [] in
     if prefix p path \<and> CHR ''/'' \<notin> set (drop (length p) path) then Some (drop (length p) path) else None)"

definition os_readdir :: "os \<Rightarrow> string \<Rightarrow> string list" where
  "os_readdir s d = List.map_filter (\<lambda>(path, _). name_in d path) (files s)"

text \<open>The prefixes before each slash past the first character, then the path itself.\<close>

fun mkdir_prefixes :: "string \<Rightarrow> string \<Rightarrow> string list" where
  "mkdir_prefixes done [] = [done]"
| "mkdir_prefixes done (c # s) = (if c = CHR ''/'' then [done] else []) @ mkdir_prefixes (done @ [c]) s"

fun mkdir_all :: "os \<Rightarrow> string list \<Rightarrow> bool \<times> os" where
  "mkdir_all s [] = (True, s)"
| "mkdir_all s (d # ds) = (let s' = s\<lparr>mkdirs := mkdirs s @ [d]\<rparr> in
     if mkdir_ok s d then mkdir_all s' ds else (False, s'))"

definition kv_mkdir_p :: "os \<Rightarrow> string \<Rightarrow> bool \<times> os" where
  "kv_mkdir_p s path =
     (case path of [] \<Rightarrow> (False, s) | c # rest \<Rightarrow> mkdir_all s (mkdir_prefixes [c] rest))"

section \<open>Scanning the directory\<close>

definition kv_store_clear :: "kv_store \<Rightarrow> kv_store" where
  "kv_store_clear kc = kc\<lparr>entry := []\<rparr>"

definition kv_cache_push :: "kv_store \<Rightarrow> kv_store_entry \<Rightarrow> kv_store" where
  "kv_cache_push kc e = kc\<lparr>entry := entry kc @ [e]\<rparr>"

definition kv_store_read_entry_file :: "os \<Rightarrow> string \<Rightarrow> string \<Rightarrow> kv_store_entry option" where
  "kv_store_read_entry_file s path sha =
     (case map_of (files s) path of None \<Rightarrow> None | Some b \<Rightarrow>
        if length b < FIXED_HEADER + 4 then None
        else (case os_fopen_read s path of None \<Rightarrow> None | Some fp \<Rightarrow>
          (case kv_store_read_header fp of None \<Rightarrow> None | Some (e, tb, _) \<Rightarrow>
             (let fixed = 48 + 4; st_size = word_of_nat (length b) in
              if UINT64_MAX - fixed < ucast tb \<or> UINT64_MAX - fixed - ucast tb < payload_bytes e then None
              else if st_size < fixed + ucast tb + payload_bytes e then None
              else Some (e\<lparr>e_sha := sha, e_path := path, file_size := st_size\<rparr>)))))"

definition kv_cache_refresh :: "kv_store \<Rightarrow> os \<Rightarrow> kv_store" where
  "kv_cache_refresh kc s =
     (if \<not> enabled kc then kc
      else (let kc0 = kv_store_clear kc in
        if \<not> opendir_ok s (dir kc) then kc0
        else foldl (\<lambda>k name.
            case kv_store_sha_hex_name name of None \<Rightarrow> k | Some sha \<Rightarrow>
              (case kv_store_read_entry_file s (kv_store_path_join (dir k) name) sha of
                 None \<Rightarrow> k | Some e \<Rightarrow> kv_cache_push k e)) kc0 (os_readdir s (dir kc))))"

text \<open>Rewriting the header of a file in place with a new hit count and time of use.\<close>

definition kv_store_touch_file :: "os \<Rightarrow> string \<Rightarrow> u32 \<Rightarrow> bool \<times> os" where
  "kv_store_touch_file s path hit =
     (case os_fopen_update s path of None \<Rightarrow> (False, s) | Some fp \<Rightarrow>
        (case kv_store_read_header fp of None \<Rightarrow> (False, s) | Some (e, tb, _) \<Rightarrow>
           (case os_time s of (now, s1) \<Rightarrow>
             (let h = kv_store_fill_header (model_id e) (quant_bits e) (reason e) (ext_flags e)
                        (tokens e) hit (ctx_size e) (created_at e) now (payload_bytes e)
              in case os_write_at s1 path 0 h of (n, s2) \<Rightarrow> (n = length h, s2)))))"

section \<open>The eviction score\<close>

record kv_store_eviction_context =
  ic_text :: "bytes option"
  ic_model_id :: u8
  ic_quant_bits :: u8
  ic_ctx_size :: u32
  ic_reject_different_quant :: bool

text \<open>The length member of the context is the length of its text.\<close>

definition kv_cache_incoming_supersedes_continued ::
    "kv_store_entry \<Rightarrow> kv_store_eviction_context option \<Rightarrow> bool" where
  "kv_cache_incoming_supersedes_continued e incoming =
     (case incoming of None \<Rightarrow> False | Some ic \<Rightarrow>
       (case ic_text ic of None \<Rightarrow> False | Some text \<Rightarrow>
          if reason e \<noteq> REASON_CONTINUED then False
          else if text_bytes e = 0 then False
          else if unat (text_bytes e) \<ge> length text then False
          else if model_id e \<noteq> ic_model_id ic then False
          else if ic_reject_different_quant ic \<and> quant_bits e \<noteq> ic_quant_bits ic then False
          else if ic_ctx_size ic > ctx_size e then False
          else kv_store_sha1_bytes_hex (take (unat (text_bytes e)) text) = e_sha e))"

definition kv_cache_reason_is_anchor :: "u8 \<Rightarrow> bool" where
  "kv_cache_reason_is_anchor r \<longleftrightarrow> r = REASON_COLD \<or> r = REASON_EVICT \<or> r = REASON_SHUTDOWN"

text \<open>
  \<open>exp2\<close> is the C library's function.  The hits are below \<open>2 ^ 32\<close>, the token count too, and the
  file size is at least 1 and below \<open>2 ^ 64\<close>, so no operation overflows; only the product with
  \<open>exp2\<close> can be subnormal, and then it is below the threshold and replaced by zero.
\<close>

definition effective_hits :: "(rat \<Rightarrow> rat) \<Rightarrow> kv_store_entry \<Rightarrow> u64 \<Rightarrow> rat" where
  "effective_hits exp2 e now =
     (let used_at = (if last_used e \<noteq> 0 then last_used e else created_at e) in
      if used_at = 0 then 0
      else if now > used_at then
        (let h = fl (dbl_of_u32 (hits e) * exp2 (- fl (dbl_of_u64 (now - used_at) / 21600)))
         in if h < fl (1 / 100) then 0 else h)
      else dbl_of_u32 (hits e))"

definition kv_store_entry_eviction_score ::
    "(rat \<Rightarrow> rat) \<Rightarrow> kv_store_entry \<Rightarrow> u64 \<Rightarrow> kv_store_eviction_context option \<Rightarrow> rat" where
  "kv_store_entry_eviction_score exp2 e now incoming =
     (if file_size e = 0 then 0
      else (let eff = effective_hits exp2 e now;
                score = fl (fl (fl (eff + 1) * dbl_of_u32 (tokens e)) / dbl_of_u64 (file_size e));
                score = (if kv_cache_reason_is_anchor (reason e) then fl (score * 2) else score)
            in if kv_cache_incoming_supersedes_continued e incoming then
                 (let h = (if eff > 0 then fl (eff / fl (eff + 1)) else 0)
                  in fl (score * fl (fl (5 / 100) + fl (fl (45 / 100) * h))))
               else score))"

section \<open>Eviction\<close>

text \<open>The index of the entry with the least score, the least recently used among equals.\<close>

definition pick_victim :: "(kv_store_entry \<Rightarrow> rat) \<Rightarrow> kv_store_entry list \<Rightarrow> nat" where
  "pick_victim score es = foldl (\<lambda>v i.
       if score (es ! i) < score (es ! v)
          \<or> (score (es ! i) = score (es ! v) \<and> last_used (es ! i) < last_used (es ! v))
       then i else v) 0 [1..<length es]"

definition remove_at :: "nat \<Rightarrow> 'a list \<Rightarrow> 'a list" where
  "remove_at i xs = take i xs @ drop (Suc i) xs"

lemma length_remove_at: "i < length xs \<Longrightarrow> length (remove_at i xs) = length xs - 1"
  by (simp add: remove_at_def)

lemma pick_victim_less: "es \<noteq> [] \<Longrightarrow> pick_victim score es < length es"
proof -
  have "foldl (\<lambda>v i. if P v i then i else v) k is < n"
    if "k < n" and "\<forall>i \<in> set is. i < n" for P k n and "is" :: "nat list"
    using that by (induction "is" arbitrary: k) auto
  then show "es \<noteq> [] \<Longrightarrow> pick_victim score es < length es" by (simp add: pick_victim_def)
qed

function evict_loop :: "(kv_store_entry \<Rightarrow> rat) \<Rightarrow> u64 \<Rightarrow> u64 \<Rightarrow> kv_store_entry list \<Rightarrow> os \<Rightarrow> kv_store_entry list \<times> os" where
  "evict_loop score target tot es s =
     (if tot > target \<and> es \<noteq> [] then
        (let v = pick_victim score es; e = es ! v in
         case os_unlink s (e_path e) of
           (True, s') \<Rightarrow> evict_loop score target (if tot \<ge> file_size e then tot - file_size e else 0) (remove_at v es) s'
         | (False, s') \<Rightarrow> evict_loop score target 0 (remove_at v es) s')
      else (es, s))"
  by pat_completeness auto

termination evict_loop
  by (relation "measure (\<lambda>(_, _, _, es, _). length es)") (auto simp: length_remove_at pick_victim_less)

declare evict_loop.simps [simp del]

definition sum_sizes :: "kv_store_entry list \<Rightarrow> u64" where
  "sum_sizes es = foldl (\<lambda>t e. t + file_size e) 0 es"

definition kv_store_evict ::
    "(rat \<Rightarrow> rat) \<Rightarrow> kv_store \<Rightarrow> u64 \<Rightarrow> kv_store_eviction_context option \<Rightarrow> os \<Rightarrow> kv_store \<times> os" where
  "kv_store_evict exp2 kc extra incoming s =
     (if \<not> enabled kc \<or> budget_bytes kc = 0 then (kc, s)
      else if extra > budget_bytes kc then (kc, s)
      else (let kc1 = kv_cache_refresh kc s in
        case os_time s of (now, s1) \<Rightarrow>
        (case evict_loop (\<lambda>e. kv_store_entry_eviction_score exp2 e now incoming) (budget_bytes kc - extra)
                (sum_sizes (entry kc1)) (entry kc1) s1 of
           (es, s2) \<Rightarrow> (kc1\<lparr>entry := es\<rparr>, s2))))"

section \<open>Opening and closing\<close>

definition zero_store :: kv_store where
  "zero_store = \<lparr>enabled = False, dir = [], budget_bytes = 0, reject_different_quant = False,
     opt = \<lparr>min_tokens = 0, cold_max_tokens = 0, continued_interval_tokens = 0, boundary_trim_tokens = 0,
       boundary_align_tokens = 0\<rparr>, continued_last_store_tokens = 0, entry = []\<rparr>"

definition kv_store_open ::
    "(rat \<Rightarrow> rat) \<Rightarrow> string option \<Rightarrow> u64 \<Rightarrow> bool \<Rightarrow> kv_store_options \<Rightarrow> os \<Rightarrow> bool \<times> kv_store \<times> os" where
  "kv_store_open exp2 d budget_mb reject_quant options s =
     (case d of None \<Rightarrow> (False, zero_store, s) | Some d \<Rightarrow>
        (case kv_mkdir_p s d of
           (False, s1) \<Rightarrow> (False, zero_store, s1)
         | (True, s1) \<Rightarrow>
           (let mb = (if budget_mb = 0 then 4096 else budget_mb);
                kc = zero_store\<lparr>enabled := True, dir := d, budget_bytes := mb * 1024 * 1024,
                       reject_different_quant := reject_quant, opt := options\<rparr>
            in case kv_store_evict exp2 kc 0 None s1 of (kc', s2) \<Rightarrow> (True, kc', s2))))"

definition kv_store_close :: "kv_store \<Rightarrow> kv_store" where
  "kv_store_close kc = zero_store"

section \<open>What a scan finds\<close>

text \<open>One directory entry: its checkpoint, if the name and the contents are those of one.\<close>

definition scan_name :: "os \<Rightarrow> string \<Rightarrow> string \<Rightarrow> kv_store_entry option" where
  "scan_name s d name = (case kv_store_sha_hex_name name of None \<Rightarrow> None
     | Some sha \<Rightarrow> kv_store_read_entry_file s (kv_store_path_join d name) sha)"

definition scan_dir :: "os \<Rightarrow> string \<Rightarrow> kv_store_entry list" where
  "scan_dir s d = (if opendir_ok s d then List.map_filter (scan_name s d) (os_readdir s d) else [])"

lemma scan_dir_cong:
  assumes "files s' = files s" and "can_read s' = can_read s" and "opendir_ok s' = opendir_ok s"
  shows "scan_dir s' d = scan_dir s d"
  unfolding scan_dir_def scan_name_def [abs_def] os_readdir_def kv_store_read_entry_file_def os_fopen_read_def assms ..

lemma scan_dir_frame [frame_simps]:
  "scan_dir (s\<lparr>mkdirs := m\<rparr>) d = scan_dir s d" "scan_dir (s\<lparr>ticks := t\<rparr>) d = scan_dir s d"
  by (rule scan_dir_cong; simp)+

lemma refresh_scan:
  "enabled kc \<Longrightarrow> kv_cache_refresh kc s = kc\<lparr>entry := scan_dir s (dir kc)\<rparr>"
proof -
  have "foldl (\<lambda>k name.
            case kv_store_sha_hex_name name of None \<Rightarrow> k | Some sha \<Rightarrow>
              (case kv_store_read_entry_file s (kv_store_path_join (dir k) name) sha of
                 None \<Rightarrow> k | Some e \<Rightarrow> kv_cache_push k e)) (kc\<lparr>entry := es\<rparr>) names
        = kc\<lparr>entry := es @ List.map_filter (scan_name s (dir kc)) names\<rparr>" for es names
    by (induction names arbitrary: es)
      (auto simp: map_filter_simps scan_name_def kv_cache_push_def split: option.splits)
  from this [of "[]"] show "enabled kc \<Longrightarrow> ?thesis"
    by (simp add: kv_cache_refresh_def Let_def kv_store_clear_def scan_dir_def)
qed

text \<open>The well-formedness of an entry against the directory it was read from.\<close>

definition entry_on_disk :: "os \<Rightarrow> string \<Rightarrow> kv_store_entry \<Rightarrow> bool" where
  "entry_on_disk s d e \<longleftrightarrow> (\<exists>name b. name \<in> set (os_readdir s d) \<and>
     kv_store_sha_hex_name name = Some (e_sha e) \<and> e_path e = kv_store_path_join d name \<and>
     map_of (files s) (e_path e) = Some b \<and> file_size e = word_of_nat (length b) \<and>
     52 \<le> length b \<and> tokens e \<noteq> 0)"

lemma read_entry_fileD:
  assumes "kv_store_read_entry_file s path sha = Some e"
  obtains b tb rest where "map_of (files s) path = Some b" "can_read s path"
    "kv_store_read_header b = Some (e\<lparr>e_sha := [], e_path := [], file_size := 0\<rparr>, tb, rest)"
    "e_sha e = sha" "e_path e = path" "file_size e = word_of_nat (length b)" "52 \<le> length b"
    "text_bytes e = ucast tb" "tokens e \<noteq> 0"
    "52 + unat (text_bytes e) + unat (payload_bytes e) \<le> unat (file_size e)"
proof -
  obtain b where b: "map_of (files s) path = Some b" "52 \<le> length b" "can_read s path"
    using assms by (auto simp: kv_store_read_entry_file_def os_fopen_read_def split: option.splits if_splits)
  then obtain e0 tb rest where h: "kv_store_read_header b = Some (e0, tb, rest)"
    "\<not> (UINT64_MAX - (48 + 4) < ucast tb \<or> UINT64_MAX - (48 + 4) - ucast tb < payload_bytes e0)"
    "\<not> word_of_nat (length b) < 48 + 4 + ucast tb + payload_bytes e0"
    "e = e0\<lparr>e_sha := sha, e_path := path, file_size := word_of_nat (length b)\<rparr>"
    using assms by (auto simp: kv_store_read_entry_file_def os_fopen_read_def Let_def split: option.splits if_splits)
  note r = read_header_SomeD [OF h(1)]
  have fits: "(52 :: nat) + unat (ucast tb :: u64) + unat (payload_bytes e0) < 2 ^ 64"
    using h(2) size_chain [of "48 + 4" "ucast tb" "payload_bytes e0" 0] by simp
  have "52 + unat (text_bytes e) + unat (payload_bytes e) = unat (48 + 4 + ucast tb + payload_bytes e0)"
    using unat_file_size [of "ucast tb" "payload_bytes e0" 0] fits r(3) h(4) by simp
  also have "\<dots> \<le> unat (file_size e)" using h(3,4) by (simp add: word_le_nat_alt not_less)
  finally show thesis
    using b h(1,4) r read_header_file_size [OF h(1)] that by simp
qed

lemma scan_dir_entry_on_disk: "e \<in> set (scan_dir s d) \<Longrightarrow> entry_on_disk s d e"
  by (auto simp: scan_dir_def scan_name_def entry_on_disk_def in_set_map_filter split: option.splits if_splits
      elim!: read_entry_fileD) blast

lemma name_in_Some: "name_in d path = Some name \<longleftrightarrow> path = kv_store_path_join d name \<and> CHR ''/'' \<notin> set name"
  by (auto simp: name_in_def Let_def kv_store_path_join_def prefix_def)

lemma distinct_readdir: "distinct (map fst (files s)) \<Longrightarrow> distinct (os_readdir s d)"
proof -
  have "distinct (List.map_filter (\<lambda>(path, _). name_in d path) fs) \<and>
      (\<forall>n \<in> set (List.map_filter (\<lambda>(path, _). name_in d path) fs). kv_store_path_join d n \<in> fst ` set fs)"
    if "distinct (map fst fs)" for fs :: "(string \<times> bytes) list"
    using that by (induction fs) (auto simp: map_filter_simps name_in_Some split: option.splits)
  then show "distinct (map fst (files s)) \<Longrightarrow> distinct (os_readdir s d)" by (simp add: os_readdir_def)
qed

lemma scan_name_path: "scan_name s d n = Some e \<Longrightarrow> e_path e = kv_store_path_join d n"
  by (auto simp: scan_name_def split: option.splits elim!: read_entry_fileD)

lemma distinct_scan_paths:
  assumes "distinct (map fst (files s))"
  shows "distinct (map e_path (scan_dir s d))"
proof -
  have "distinct (map e_path (List.map_filter (scan_name s d) ns)) \<and>
      e_path ` set (List.map_filter (scan_name s d) ns) \<subseteq> kv_store_path_join d ` set ns"
    if "distinct ns" for ns
    using that
    by (induction ns) (auto simp: map_filter_simps path_join_inj split: option.splits dest!: scan_name_path)
  with distinct_readdir [OF assms] show ?thesis by (simp add: scan_dir_def)
qed

section \<open>The eviction order\<close>

definition evict_key :: "(kv_store_entry \<Rightarrow> rat) \<Rightarrow> kv_store_entry \<Rightarrow> rat \<times> u64" where
  "evict_key score e = (score e, last_used e)"

lemma argmin_fold:
  fixes key :: "nat \<Rightarrow> 'a :: linorder"
  shows "foldl (\<lambda>v i. if key i < key v then i else v) k is \<in> insert k (set is) \<and>
    (\<forall>j \<in> insert k (set is). key (foldl (\<lambda>v i. if key i < key v then i else v) k is) \<le> key j)"
proof (induction "is" arbitrary: k)
  case (Cons i "is")
  show ?case
  proof (cases "key i < key k")
    case True
    with Cons [of i] show ?thesis by (auto intro: order_trans less_imp_le)
  next
    case False
    with Cons [of k] show ?thesis by (auto intro: order_trans)
  qed
qed simp

lemma pick_victim_min:
  assumes "es \<noteq> []" and "e \<in> set es"
  shows "evict_key score (es ! pick_victim score es) \<le> evict_key score e"
proof -
  have "pick_victim score es = foldl (\<lambda>v i. if evict_key score (es ! i) < evict_key score (es ! v) then i else v) 0 [1..<length es]"
    unfolding pick_victim_def evict_key_def
    by (rule arg_cong [of _ _ "\<lambda>f. foldl f 0 [1..<length es]"]) (auto simp: fun_eq_iff)
  moreover obtain j where j: "j < length es" "e = es ! j" using assms(2) by (auto simp: in_set_conv_nth)
  moreover have "j \<in> insert 0 (set [1..<length es])" using j by auto
  ultimately show ?thesis
    using argmin_fold [of "\<lambda>i. evict_key score (es ! i)" 0 "[1..<length es]"] by auto
qed

abbreviation sizes :: "kv_store_entry list \<Rightarrow> nat" where
  "sizes es \<equiv> sum_list (map (\<lambda>e. unat (file_size e)) es)"

lemma sum_sizes_exact: "sizes es < 2 ^ 64 \<Longrightarrow> unat (sum_sizes es) = sizes es"
proof -
  have "sizes es + unat t < 2 ^ 64 \<Longrightarrow> unat (foldl (\<lambda>t e. t + file_size e) t es) = unat t + sizes es" for t
  proof (induction es arbitrary: t)
    case (Cons e es)
    then have "unat (t + file_size e) = unat t + unat (file_size e)" by (intro unat_add_no_wrap) simp
    with Cons show ?case by simp
  qed simp
  from this [of 0] show "sizes es < 2 ^ 64 \<Longrightarrow> unat (sum_sizes es) = sizes es" by (simp add: sum_sizes_def)
qed

lemma mset_remove_at: "i < length xs \<Longrightarrow> mset xs = add_mset (xs ! i) (mset (remove_at i xs))"
  by (metis append_take_drop_id Cons_nth_drop_Suc mset_append remove_at_def union_mset_add_mset_right mset.simps(2))

lemma remove_at_facts:
  assumes "i < length es"
  shows "sizes es = unat (file_size (es ! i)) + sizes (remove_at i es)"
    "set es = insert (es ! i) (set (remove_at i es))"
    "distinct (map e_path es) \<Longrightarrow> distinct (map e_path (remove_at i es)) \<and> e_path (es ! i) \<notin> e_path ` set (remove_at i es)"
proof -
  note m = mset_remove_at [OF assms]
  show "sizes es = unat (file_size (es ! i)) + sizes (remove_at i es)"
    using arg_cong [OF m, of "\<lambda>M. sum_mset (image_mset (\<lambda>e. unat (file_size e)) M)"]
    by (simp flip: sum_mset_sum_list)
  show "set es = insert (es ! i) (set (remove_at i es))"
    using arg_cong [OF m, of set_mset] by simp
  assume d: "distinct (map e_path es)"
  have "mset (map e_path es) = mset (e_path (es ! i) # map e_path (remove_at i es))" using m by (simp add: image_mset_add_mset)
  then have "distinct (e_path (es ! i) # map e_path (remove_at i es))" using d mset_eq_imp_distinct_iff by blast
  then show "distinct (map e_path (remove_at i es)) \<and> e_path (es ! i) \<notin> e_path ` set (remove_at i es)" by simp
qed

lemma delete_filter: "AList.delete p fs = filter (\<lambda>(q, _). q \<noteq> p) fs"
  by (simp add: AList.delete_eq eq_commute)

lemma evict_loop_spec:
  assumes "evict_loop score target tot es s = (es', s')"
    and "distinct (map e_path es)" and "\<forall>e \<in> set es. map_of (files s) (e_path e) \<noteq> None \<and> can_unlink s (e_path e)"
    and "unat tot = sizes es"
  shows "\<exists>rs. mset es = mset es' + mset rs \<and> s' = s\<lparr>files := filter (\<lambda>(p, _). p \<notin> e_path ` set rs) (files s)\<rparr> \<and>
    sizes es' \<le> unat target \<and> (\<forall>r \<in> set rs. \<forall>k \<in> set es'. evict_key score r \<le> evict_key score k) \<and>
    (rs \<noteq> [] \<longrightarrow> unat target < sizes es' + unat (file_size (last rs)))"
  using assms
proof (induction score target tot es s rule: evict_loop.induct)
  case (1 score target tot es s)
  show ?case
  proof (cases "tot > target \<and> es \<noteq> []")
    case False
    then have "es' = es" "s' = s" using 1(3) by (auto simp: evict_loop.simps [of score])
    moreover have "sizes es \<le> unat target" using False 1(6) by (auto simp: word_less_nat_alt)
    ultimately show ?thesis by (intro exI [of _ "[]"]) (simp add: case_prod_unfold)
  next
    case True
    define v where "v = pick_victim score es"
    define e where "e = es ! v"
    have v: "v < length es" unfolding v_def using True pick_victim_less by blast
    note rm = remove_at_facts [OF v, folded e_def]
    let ?s = "s\<lparr>files := AList.delete (e_path e) (files s)\<rparr>"
    have e: "e \<in> set es" using v by (simp add: e_def)
    have u: "os_unlink s (e_path e) = (True, ?s)" using 1(5) e by (auto simp: os_unlink_def)
    have tot: "file_size e \<le> tot" "unat (tot - file_size e) = sizes (remove_at v es)"
      using rm(1) 1(6) by (auto simp: word_le_nat_alt unat_sub)
    have run: "evict_loop score target (tot - file_size e) (remove_at v es) ?s = (es', s')"
      using 1(3) True u tot(1) by (simp add: evict_loop.simps [of score target tot] v_def [symmetric] e_def [symmetric] Let_def)
    have pre: "distinct (map e_path (remove_at v es))"
      "\<forall>x \<in> set (remove_at v es). map_of (files ?s) (e_path x) \<noteq> None \<and> can_unlink ?s (e_path x)"
      using 1(4,5) rm by (auto simp: AList.delete_conv' image_iff)
    have "\<exists>rs. mset (remove_at v es) = mset es' + mset rs \<and>
        s' = ?s\<lparr>files := filter (\<lambda>(p, _). p \<notin> e_path ` set rs) (files ?s)\<rparr> \<and> sizes es' \<le> unat target \<and>
        (\<forall>r \<in> set rs. \<forall>k \<in> set es'. evict_key score r \<le> evict_key score k) \<and>
        (rs \<noteq> [] \<longrightarrow> unat target < sizes es' + unat (file_size (last rs)))"
      using 1(1) [OF True v_def e_def u [symmetric] refl] run pre tot by (simp add: e_def)
    then obtain rs where rs: "mset (remove_at v es) = mset es' + mset rs"
      "s' = ?s\<lparr>files := filter (\<lambda>(p, _). p \<notin> e_path ` set rs) (files ?s)\<rparr>" "sizes es' \<le> unat target"
      "\<forall>r \<in> set rs. \<forall>k \<in> set es'. evict_key score r \<le> evict_key score k"
      "rs \<noteq> [] \<longrightarrow> unat target < sizes es' + unat (file_size (last rs))" by blast
    have sub: "set es' \<subseteq> set es" using arg_cong [OF rs(1), of set_mset] rm(2) by auto
    have "unat target < sizes es' + unat (file_size (last (e # rs)))"
    proof (cases "rs = []")
      case True
      then have "sizes (remove_at v es) = sizes es'"
        using arg_cong [OF rs(1), of "\<lambda>M. sum_mset (image_mset (\<lambda>e. unat (file_size e)) M)"]
        by (simp flip: sum_mset_sum_list)
      then show ?thesis using True rm(1) 1(6) \<open>tot > target \<and> es \<noteq> []\<close> by (simp add: word_less_nat_alt)
    qed (use rs(5) in simp)
    moreover have "\<forall>r \<in> set (e # rs). \<forall>k \<in> set es'. evict_key score r \<le> evict_key score k"
      using rs(4) pick_victim_min [of es _ score] sub True by (auto simp: e_def v_def)
    moreover have "mset es = mset es' + mset (e # rs)" using mset_remove_at [OF v] rs(1) by (simp add: e_def)
    moreover have "s' = s\<lparr>files := filter (\<lambda>(p, _). p \<notin> e_path ` set (e # rs)) (files s)\<rparr>"
      unfolding rs(2) by (simp add: delete_filter case_prod_unfold conj_commute)
    ultimately show ?thesis using rs(3) by blast
  qed
qed

lemma evict_spec:
  assumes "enabled kc" and "budget_bytes kc \<noteq> 0" and "extra \<le> budget_bytes kc"
    and "distinct (map fst (files s))" and "\<forall>p. can_unlink s p"
    and "sizes (scan_dir s (dir kc)) < 2 ^ 64"
    and "kv_store_evict exp2 kc extra incoming s = (kc', s')"
  defines "key \<equiv> evict_key (\<lambda>e. kv_store_entry_eviction_score exp2 e (clock s (ticks s)) incoming)"
  shows "\<exists>removed. mset (scan_dir s (dir kc)) = mset (entry kc') + mset removed \<and>
    files s' = filter (\<lambda>(p, _). p \<notin> e_path ` set removed) (files s) \<and>
    sizes (entry kc') \<le> unat (budget_bytes kc - extra) \<and>
    (\<forall>r \<in> set removed. \<forall>k \<in> set (entry kc'). key r \<le> key k) \<and>
    (removed \<noteq> [] \<longrightarrow> unat (budget_bytes kc - extra) < sizes (entry kc') + unat (file_size (last removed)))"
proof -
  let ?score = "\<lambda>e. kv_store_entry_eviction_score exp2 e (clock s (ticks s)) incoming"
  let ?es = "scan_dir s (dir kc)" and ?s = "s\<lparr>ticks := Suc (ticks s)\<rparr>"
  obtain es where run: "evict_loop ?score (budget_bytes kc - extra) (sum_sizes ?es) ?es ?s = (es, s')"
    and es: "entry kc' = es"
    using assms(1-3,7) by (auto simp: kv_store_evict_def refresh_scan os_time_def Let_def not_less split: prod.splits if_splits)
  have disk: "\<forall>e \<in> set ?es. map_of (files ?s) (e_path e) \<noteq> None \<and> can_unlink ?s (e_path e)"
    using scan_dir_entry_on_disk [of _ s "dir kc"] assms(5) by (auto simp: entry_on_disk_def)
  from evict_loop_spec [OF run distinct_scan_paths [OF assms(4)] disk sum_sizes_exact [OF assms(6)]]
  show ?thesis unfolding es key_def by auto
qed

text \<open>
  C13.  Eviction meets its contract whenever the files can be unlinked.  What remains of the scanned
  checkpoints fits the budget less the bytes about to be stored; only files of checkpoints are
  removed and every other file of the system is left as it was; no removed checkpoint has a better
  score (or, on equal scores, a later use) than one that is kept; and removal stops as soon as
  the rest fits: with the last victim kept, the target would be exceeded.
\<close>

theorem evict_meets_budget:
  assumes "enabled kc" and "budget_bytes kc \<noteq> 0" and "extra \<le> budget_bytes kc"
    and "distinct (map fst (files s))" and "\<forall>p. can_unlink s p"
    and "sizes (scan_dir s (dir kc)) < 2 ^ 64"
    and "kv_store_evict exp2 kc extra incoming s = (kc', s')"
  defines "key \<equiv> evict_key (\<lambda>e. kv_store_entry_eviction_score exp2 e (clock s (ticks s)) incoming)"
  shows "\<exists>removed. mset (scan_dir s (dir kc)) = mset (entry kc') + mset removed \<and>
    files s' = filter (\<lambda>(p, _). p \<notin> e_path ` set removed) (files s) \<and>
    sizes (entry kc') \<le> unat (budget_bytes kc - extra) \<and>
    (\<forall>r \<in> set removed. \<forall>k \<in> set (entry kc'). key r \<le> key k) \<and>
    (removed \<noteq> [] \<longrightarrow> unat (budget_bytes kc - extra) < sizes (entry kc') + unat (file_size (last removed)))"
  unfolding key_def by (rule evict_spec) (fact assms)+

text \<open>A directory with one small checkpoint and one unrelated file.\<close>

definition sample_checkpoint :: "u64 \<Rightarrow> bytes" where
  "sample_checkpoint used = kv_store_fill_header 1 2 REASON_COLD 0 512 0 2048 10 used 3 @ kv_store_le_put32 2 @ [104, 105, 1, 2, 3]"

definition sample_path :: string where
  "sample_path = ''/kv/'' @ replicate 40 (CHR ''a'') @ ''.kv''"

definition sample_os :: os where
  "sample_os = \<lparr>files = [(sample_path, sample_checkpoint 20), (''/kv/notes.txt'', [1, 2])],
     clock = (\<lambda>n. 1000), ticks = 0, mkdirs = [], mkdir_ok = (\<lambda>_. True), opendir_ok = (\<lambda>_. True), can_read = (\<lambda>_. True),
     can_write = (\<lambda>_. True), can_unlink = (\<lambda>_. True), room = (\<lambda>_. 1000000),
     flush_ok = (\<lambda>_. True), close_ok = (\<lambda>_. True), truncate_ok = (\<lambda>_. True), rename_ok = (\<lambda>_. True), pid = 7\<rparr>"

abbreviation sample_name :: string where
  "sample_name \<equiv> replicate 40 (CHR ''a'') @ ''.kv''"

lemma sample_names: "os_readdir sample_os ''/kv'' = [sample_name, ''notes.txt'']"
proof -
  have "name_in ''/kv'' sample_path = Some sample_name" "name_in ''/kv'' ''/kv/notes.txt'' = Some ''notes.txt''"
    unfolding name_in_Some by (simp_all add: sample_path_def kv_store_path_join_def)
  then show ?thesis by (simp add: os_readdir_def sample_os_def map_filter_simps)
qed

lemma sample_hex: "kv_store_sha_hex_name sample_name = Some (replicate 40 (CHR ''a''))"
  "kv_store_sha_hex_name ''notes.txt'' = None"
proof -
  have "isxdigit (CHR ''a'') \<and> tolower (CHR ''a'') = CHR ''a''" by code_simp
  then show "kv_store_sha_hex_name sample_name = Some (replicate 40 (CHR ''a''))"
    by (simp add: kv_store_sha_hex_name_def list_all_iff)
qed (simp add: kv_store_sha_hex_name_def)

lemma sample_header:
  "kv_store_read_header (sample_checkpoint used) = Some (zero_entry\<lparr>quant_bits := 2, reason := REASON_COLD, ext_flags := 0,
       model_id := 1, tokens := 512, hits := 0, ctx_size := 2048, created_at := 10,
       last_used := used, payload_bytes := 3, text_bytes := 2\<rparr>, 2, [104, 105, 1, 2, 3])"
  unfolding sample_checkpoint_def by (subst read_fill_header) simp_all

lemma sample_file: "map_of (files sample_os) sample_path = Some (sample_checkpoint 20)"
  by (simp add: sample_os_def)

lemma sample_scan: "scan_dir sample_os ''/kv'' =
    [zero_entry\<lparr>quant_bits := 2, reason := REASON_COLD, ext_flags := 0, model_id := 1, tokens := 512, hits := 0,
       ctx_size := 2048, created_at := 10, last_used := 20, payload_bytes := 3, text_bytes := 2,
       e_sha := replicate 40 (CHR ''a''), e_path := sample_path, file_size := 57\<rparr>]"
proof -
  have p: "kv_store_path_join ''/kv'' sample_name = sample_path" by (simp add: sample_path_def kv_store_path_join_def)
  have l: "length (sample_checkpoint 20) = 57" by (simp add: sample_checkpoint_def)
  have "kv_store_read_entry_file sample_os sample_path (replicate 40 (CHR ''a'')) \<noteq> None"
    by (simp add: kv_store_read_entry_file_def os_fopen_read_def sample_file l sample_header sample_os_def)
  show ?thesis
    by (simp add: scan_dir_def sample_names map_filter_simps scan_name_def sample_hex p kv_store_read_entry_file_def
        os_fopen_read_def sample_file l sample_header)
      (simp add: sample_os_def)
qed

theorem evict_meets_budget_witness:
  "\<exists>kc' s'. kv_store_evict (\<lambda>_. 1) (sample_kv_store\<lparr>budget_bytes := 50\<rparr>) 0 None sample_os = (kc', s') \<and>
     sizes (entry kc') \<le> 50"
proof -
  obtain kc' s' where r: "kv_store_evict (\<lambda>_. 1) (sample_kv_store\<lparr>budget_bytes := 50\<rparr>) 0 None sample_os = (kc', s')"
    by (meson surj_pair)
  have d: "dir (sample_kv_store\<lparr>budget_bytes := 50\<rparr>) = ''/kv''" "distinct (map fst (files sample_os))" "\<forall>p. can_unlink sample_os p"
    by (simp_all add: sample_kv_store_def sample_os_def sample_path_def)
  have "sizes (scan_dir sample_os ''/kv'') = 57" by (simp add: sample_scan)
  then show ?thesis
    using evict_meets_budget [OF _ _ _ d(2,3) _ r] r by (simp add: d sample_kv_store_def) auto
qed

lemma evict_loop_frame:
  "evict_loop score target tot es s = (es', s') \<Longrightarrow>
   set es' \<subseteq> set es \<and> (\<exists>del. set del \<subseteq> e_path ` set es \<and> s' = s\<lparr>files := filter (\<lambda>(p, _). p \<notin> set del) (files s)\<rparr>)"
proof (induction score target tot es s rule: evict_loop.induct)
  case (1 score target tot es s)
  show ?case
  proof (cases "tot > target \<and> es \<noteq> []")
    case False
    then have "es' = es" "s' = s" using 1(3) by (auto simp: evict_loop.simps [of score])
    then show ?thesis by (auto intro!: exI [of _ "[]"] simp: case_prod_unfold)
  next
    case True
    define v where "v = pick_victim score es"
    define e where "e = es ! v"
    have v: "v < length es" unfolding v_def using True pick_victim_less by blast
    note rm = remove_at_facts(2) [OF v, folded e_def]
    obtain ok s1 where u: "os_unlink s (e_path e) = (ok, s1)" by (meson surj_pair)
    have ih: "set es' \<subseteq> set (remove_at v es) \<and> (\<exists>del. set del \<subseteq> e_path ` set (remove_at v es) \<and>
        s' = s1\<lparr>files := filter (\<lambda>(p, _). p \<notin> set del) (files s1)\<rparr>)"
    proof (cases ok)
      case True
      with 1(1) [OF \<open>tot > target \<and> es \<noteq> []\<close> v_def e_def u [symmetric]] 1(3) \<open>tot > target \<and> es \<noteq> []\<close> u
      show ?thesis by (simp add: evict_loop.simps [of score target tot] v_def [symmetric] e_def [symmetric] Let_def cong: if_cong)
    next
      case False
      with 1(2) [OF \<open>tot > target \<and> es \<noteq> []\<close> v_def e_def u [symmetric]] 1(3) \<open>tot > target \<and> es \<noteq> []\<close> u
      show ?thesis by (simp add: evict_loop.simps [of score target tot] v_def [symmetric] e_def [symmetric] Let_def cong: if_cong)
    qed
    then obtain del where del: "set del \<subseteq> e_path ` set (remove_at v es)"
      "s' = s1\<lparr>files := filter (\<lambda>(p, _). p \<notin> set del) (files s1)\<rparr>" by blast
    have "s1 = s\<lparr>files := filter (\<lambda>(p, _). p \<notin> set (if ok then [e_path e] else [])) (files s)\<rparr>"
      using u by (auto simp: os_unlink_def delete_filter case_prod_unfold split: if_splits)
    then have "s' = s\<lparr>files := filter (\<lambda>(p, _). p \<notin> set ((if ok then [e_path e] else []) @ del)) (files s)\<rparr>"
      unfolding del(2) by (auto simp: case_prod_unfold intro: filter_cong)
    moreover have "set ((if ok then [e_path e] else []) @ del) \<subseteq> e_path ` set es" using del(1) rm by auto
    ultimately show ?thesis using ih rm by blast
  qed
qed

lemma evict_frame:
  "\<exists>del t. set del \<subseteq> e_path ` set (scan_dir s (dir kc)) \<and>
     snd (kv_store_evict exp2 kc extra incoming s) = s\<lparr>ticks := t, files := filter (\<lambda>(p, _). p \<notin> set del) (files s)\<rparr>"
proof (cases "enabled kc \<and> budget_bytes kc \<noteq> 0 \<and> extra \<le> budget_bytes kc")
  case True
  obtain es s' where run: "evict_loop (\<lambda>e. kv_store_entry_eviction_score exp2 e (clock s (ticks s)) incoming)
     (budget_bytes kc - extra) (sum_sizes (scan_dir s (dir kc))) (scan_dir s (dir kc)) (s\<lparr>ticks := Suc (ticks s)\<rparr>) = (es, s')"
    by (meson surj_pair)
  then have "snd (kv_store_evict exp2 kc extra incoming s) = s'"
    using True by (auto simp: kv_store_evict_def refresh_scan os_time_def Let_def not_less [symmetric])
  with evict_loop_frame [OF run] show ?thesis by auto
next
  case False
  then have "snd (kv_store_evict exp2 kc extra incoming s) = s" by (auto simp: kv_store_evict_def)
  then show ?thesis by (intro exI [of _ "[]"] exI [of _ "ticks s"]) (simp add: case_prod_unfold)
qed

text \<open>
  Whatever the operating system refuses, eviction only ever removes files: every file of the
  system afterwards was there before with the same contents, and a file that is not a scanned
  checkpoint of the directory is never removed.
\<close>

theorem evict_only_removes:
  "\<exists>del. set del \<subseteq> e_path ` set (scan_dir s (dir kc)) \<and>
     files (snd (kv_store_evict exp2 kc extra incoming s)) = filter (\<lambda>(p, _). p \<notin> set del) (files s)"
proof -
  obtain del t where "set del \<subseteq> e_path ` set (scan_dir s (dir kc))"
    "snd (kv_store_evict exp2 kc extra incoming s) = s\<lparr>ticks := t, files := filter (\<lambda>(p, _). p \<notin> set del) (files s)\<rparr>"
    using evict_frame by blast
  then show ?thesis by (intro exI [of _ del]) simp
qed

section \<open>Touching a checkpoint\<close>

lemma map_of_update_file: "map_of (AList.update p b fs) q = (if p = q then Some b else map_of fs q)"
  by (simp add: AList.update_conv')

lemma touch_file_spec:
  assumes "map_of (files s) path = Some b" and "can_read s path" and "can_write s path" and "FIXED_HEADER \<le> room s path"
    and "kv_store_read_header b = Some (e, tb, rest)"
  shows "\<exists>b'. kv_store_touch_file s path hit = (True, s\<lparr>ticks := Suc (ticks s), files := AList.update path b' (files s)\<rparr>) \<and>
    kv_store_read_header b' = Some (e\<lparr>hits := hit, last_used := clock s (ticks s)\<rparr>, tb, rest) \<and> length b' = length b"
proof -
  let ?h = "kv_store_fill_header (model_id e) (quant_bits e) (reason e) (ext_flags e)
       (tokens e) hit (ctx_size e) (created_at e) (clock s (ticks s)) (payload_bytes e)"
  have "kv_store_touch_file s path hit = (True, s\<lparr>ticks := Suc (ticks s), files := AList.update path (?h @ drop 48 b) (files s)\<rparr>)"
    using assms by (simp add: kv_store_touch_file_def os_fopen_update_def os_time_def os_write_at_def Let_def)
  moreover have "length (?h @ drop 48 b) = length b" using read_header_SomeD(1) [OF assms(5)] by simp
  ultimately show ?thesis using read_header_replace [OF assms(5), of "ext_flags e" hit "clock s (ticks s)"] by fastforce
qed

text \<open>
  Touching a checkpoint changes nothing but its hit count and its time of use: every other
  header field, the text, the payload, the size of the file and all other files stay the same.
\<close>

theorem touch_file_updates_use:
  assumes "map_of (files s) path = Some b" and "can_read s path" and "can_write s path" and "FIXED_HEADER \<le> room s path"
    and "kv_store_read_header b = Some (e, tb, rest)" and "kv_store_touch_file s path hit = (ok, s')"
  shows "ok \<and> (\<forall>p. p \<noteq> path \<longrightarrow> map_of (files s') p = map_of (files s) p) \<and>
    (\<exists>b'. map_of (files s') path = Some b' \<and> length b' = length b \<and>
      kv_store_read_header b' = Some (e\<lparr>hits := hit, last_used := clock s (ticks s)\<rparr>, tb, rest))"
  using touch_file_spec [OF assms(1-5), of hit] assms(6) by (auto simp: map_of_update_file)

theorem touch_file_updates_use_witness:
  "fst (kv_store_touch_file sample_os sample_path 5)"
proof -
  obtain ok s' where r: "kv_store_touch_file sample_os sample_path 5 = (ok, s')" by (meson surj_pair)
  have "can_read sample_os sample_path" "can_write sample_os sample_path" "FIXED_HEADER \<le> room sample_os sample_path"
    by (simp_all add: sample_os_def)
  from touch_file_updates_use [OF sample_file this sample_header r] r show ?thesis by simp
qed

section \<open>Opening\<close>

lemma budget_mb_exact: "unat mb < 2 ^ 44 \<Longrightarrow> unat (mb * 1024 * 1024 :: u64) = unat mb * 2 ^ 20"
proof -
  assume "unat mb < 2 ^ 44"
  then have "unat (mb * 1048576) = unat mb * 1048576"
    using unat_mult_no_wrap [of mb 1048576] by simp
  then show ?thesis by (simp add: mult.assoc)
qed

lemma mkdir_all_files: "mkdir_all s ds = (ok, s') \<Longrightarrow> \<exists>m. s' = s\<lparr>mkdirs := m\<rparr>"
proof (induction ds arbitrary: s)
  case Nil
  then show ?case by (auto intro: exI [of _ "mkdirs s"])
next
  case (Cons d ds)
  then show ?case by (fastforce simp: Let_def split: if_splits)
qed

lemma mkdir_p_files: "kv_mkdir_p s d = (ok, s') \<Longrightarrow> \<exists>m. s' = s\<lparr>mkdirs := m\<rparr>"
  by (cases d) (auto simp: kv_mkdir_p_def dest: mkdir_all_files intro: exI [of _ "mkdirs s"])

text \<open>
  Opening a store over a writable directory enables it with exactly the configured number of
  megabytes (4096 when zero is given), keeps the options, and leaves on disk only checkpoints that
  together fit this budget.
\<close>

theorem open_within_budget:
  assumes "kv_store_open exp2 (Some d) mb rq options s = (True, kc, s')"
    and "unat mb < 2 ^ 44" and "distinct (map fst (files s))" and "\<forall>p. can_unlink s p"
    and "sizes (scan_dir s d) < 2 ^ 64"
  shows "enabled kc \<and> dir kc = d \<and> opt kc = options \<and> continued_last_store_tokens kc = 0 \<and>
    unat (budget_bytes kc) = (if mb = 0 then 4096 else unat mb) * 2 ^ 20 \<and> sizes (entry kc) \<le> unat (budget_bytes kc)"
proof -
  let ?mb = "if mb = 0 then 4096 else mb"
  let ?kc = "zero_store\<lparr>enabled := True, dir := d, budget_bytes := ?mb * 1024 * 1024, reject_different_quant := rq, opt := options\<rparr>"
  obtain s1 where mk: "kv_mkdir_p s d = (True, s1)" and ev: "kv_store_evict exp2 ?kc 0 None s1 = (kc, s')"
    using assms(1) by (auto simp: kv_store_open_def Let_def split: prod.splits bool.splits)
  obtain m where s1: "s1 = s\<lparr>mkdirs := m\<rparr>" using mkdir_p_files [OF mk] by blast
  have b: "unat (budget_bytes ?kc) = (if mb = 0 then 4096 else unat mb) * 2 ^ 20"
    using budget_mb_exact [of ?mb] assms(2) by auto
  have nz: "(if mb = 0 then 4096 else unat mb) * 2 ^ 20 \<noteq> (0 :: nat)" by (simp add: unat_gt_0)
  then have "budget_bytes ?kc \<noteq> 0" unfolding b [symmetric] unat_eq_zero .
  moreover have "sizes (scan_dir s1 (dir ?kc)) < 2 ^ 64" using assms(5) by (simp add: s1 frame_simps)
  ultimately have "sizes (entry kc) \<le> unat (budget_bytes ?kc - 0)"
    using evict_spec [of ?kc 0 s1, OF _ _ _ _ _ _ ev] assms(3,4) unfolding s1 by fastforce
  moreover have "kc = ?kc\<lparr>entry := entry kc\<rparr>"
    using ev by (auto simp: kv_store_evict_def refresh_scan os_time_def Let_def split: if_splits prod.splits)
  then have "enabled kc \<and> dir kc = d \<and> opt kc = options \<and> continued_last_store_tokens kc = 0 \<and>
      budget_bytes kc = budget_bytes ?kc" by (cases kc) (simp add: zero_store_def)
  ultimately show ?thesis using b by (simp del: mult_numeral_1_right)
qed

theorem open_within_budget_witness:
  "\<exists>kc s'. kv_store_open (\<lambda>_. 1) (Some ''/kv'') 0 False kv_store_default_options sample_os = (True, kc, s') \<and>
     unat (budget_bytes kc) = 4096 * 2 ^ 20 \<and> sizes (entry kc) \<le> 4096 * 2 ^ 20"
proof -
  have m: "fst (kv_mkdir_p sample_os ''/kv'')" by (simp add: kv_mkdir_p_def sample_os_def Let_def)
  then obtain s1 where "kv_mkdir_p sample_os ''/kv'' = (True, s1)" by (metis prod.collapse)
  then obtain kc s' where r: "kv_store_open (\<lambda>_. 1) (Some ''/kv'') 0 False kv_store_default_options sample_os = (True, kc, s')"
    by (auto simp: kv_store_open_def Let_def split: prod.splits) (meson surj_pair)
  have d: "distinct (map fst (files sample_os))" "\<forall>p. can_unlink sample_os p"
    by (simp_all add: sample_os_def sample_path_def)
  have "sizes (scan_dir sample_os ''/kv'') = 57" by (simp add: sample_scan)
  with open_within_budget [OF r _ d] r show ?thesis by simp
qed

end
