(* ===== verification/KvSession.thy ===== *)
theory KvSession
  imports KvStore
begin

text \<open>
  Storing the live session of the engine as a checkpoint and loading a checkpoint back
  (\<^verbatim>\<open>kv_store.c\<close>, from \<^verbatim>\<open>kv_store_render_tokens_text\<close> to \<^verbatim>\<open>kv_store_load_result_free\<close>).  The engine and
  its sessions are an interface, the record \<open>session_api\<close> over an abstract session state; a token
  list is an \<^typ>\<open>int list\<close>, and a rendered text is its bytes.  The clock of \<^verbatim>\<open>clock_gettime\<close> is
  used for log lines only; log lines and error texts are left out.
\<close>

section \<open>The engine interface\<close>

text \<open>
  \<open>stage_payload\<close> yields the bytes of the staged payload, or nothing on failure; \<open>load_payload\<close> reads
  a payload of the given length from a stream and yields success, the session and the rest of the
  stream.
\<close>

record 's session_api =
  routed_quant_bits :: int
  engine_model_id :: int
  token_text :: "int \<Rightarrow> bytes"
  tokenize_rendered_chat :: "bytes \<Rightarrow> int list"
  session_tokens :: "'s \<Rightarrow> int list option"
  session_ctx :: "'s \<Rightarrow> int"
  stage_payload :: "'s \<Rightarrow> bytes option"
  load_payload :: "'s \<Rightarrow> bytes \<Rightarrow> u64 \<Rightarrow> bool \<times> 's \<times> bytes"
  session_invalidate :: "'s \<Rightarrow> 's"

text \<open>
  The trailer hooks: the estimated size, and the bytes written with the success and the count the
  hook reports.  \<open>hook_load\<close> tells whether the hook is set; what is passed to it is part of the
  result of a load.
\<close>

record trailer_hooks =
  ext_flag :: u8
  serialized_size :: "(bytes \<Rightarrow> bool \<times> u64) option"
  hook_write :: "(bytes \<Rightarrow> bool \<times> bytes \<times> u64) option"
  hook_load :: bool

section \<open>Token lists and text\<close>

definition kv_store_render_tokens_text :: "'s session_api \<Rightarrow> int list \<Rightarrow> bytes" where
  "kv_store_render_tokens_text api toks = foldl (\<lambda>b t. b @ token_text api t) [] toks"

definition kv_store_byte_prefix_match :: "bytes \<Rightarrow> bytes \<Rightarrow> bool" where
  "kv_store_byte_prefix_match text pre \<longleftrightarrow>
     length pre \<le> length text \<and> (length pre = 0 \<or> take (length pre) text = pre)"

definition kv_store_tokens_copy_prefix :: "int list option \<Rightarrow> int \<Rightarrow> int list" where
  "kv_store_tokens_copy_prefix src n =
     (case src of None \<Rightarrow> [] | Some v \<Rightarrow>
        (let n = (if n > int (length v) then int (length v) else n) in take (nat n) v))"

definition ds4_tokens_starts_with :: "int list \<Rightarrow> int list \<Rightarrow> bool" where
  "ds4_tokens_starts_with toks pre \<longleftrightarrow>
     \<not> length pre > length toks \<and> list_all (\<lambda>i. toks ! i = pre ! i) [0..<length pre]"

definition kv_store_build_prompt_from_exact_prefix_and_text_suffix ::
    "'s session_api \<Rightarrow> int list \<Rightarrow> bytes option \<Rightarrow> int list" where
  "kv_store_build_prompt_from_exact_prefix_and_text_suffix api exact tail =
     exact @ tokenize_rendered_chat api (case tail of None \<Rightarrow> [] | Some t \<Rightarrow> t)"

section \<open>Existing files\<close>

definition kv_cache_file_text_matches :: "os \<Rightarrow> string \<Rightarrow> string \<Rightarrow> bytes \<Rightarrow> bool" where
  "kv_cache_file_text_matches s path sha text =
     (if length text > UINT32_MAX then False
      else (case os_fopen_read s path of None \<Rightarrow> False | Some fp \<Rightarrow>
        (case kv_store_read_header fp of None \<Rightarrow> False | Some (hdr, tb, rest) \<Rightarrow>
           if tb \<noteq> word_of_nat (length text) then False
           else if length rest < unat tb then False
           else (let stored = take (unat tb) rest in
             kv_store_sha1_bytes_hex stored = sha \<and> (length text = 0 \<or> stored = text)))))"

definition kv_cache_existing_compatible ::
    "kv_store \<Rightarrow> os \<Rightarrow> string \<Rightarrow> string \<Rightarrow> bytes \<Rightarrow> int \<Rightarrow> int \<Rightarrow> int \<Rightarrow> bool \<times> os" where
  "kv_cache_existing_compatible kc s path sha text model quant ctx =
     (if map_of (files s) path = None then (False, s)
      else (case kv_store_read_entry_file s path sha of None \<Rightarrow> (False, s) | Some e \<Rightarrow>
        if model_id e = word_of_int model
           \<and> (\<not> reject_different_quant kc \<or> quant_bits e = word_of_int quant)
           \<and> ctx_size e \<le> word_of_int ctx
           \<and> kv_cache_file_text_matches s path sha text
        then (True, s)
        else (False, snd (os_unlink s path))))"

definition kv_trailer_serialized_size :: "trailer_hooks option \<Rightarrow> bytes \<Rightarrow> bool \<times> u64" where
  "kv_trailer_serialized_size hooks text =
     (case hooks of None \<Rightarrow> (True, 0) | Some h \<Rightarrow>
        (case serialized_size h of None \<Rightarrow> (True, 0) | Some f \<Rightarrow> f text))"

text \<open>Appending to a file what a hook writes; the count is the one the hook reports.\<close>

definition file_end :: "os \<Rightarrow> string \<Rightarrow> nat" where
  "file_end s path = (case map_of (files s) path of None \<Rightarrow> 0 | Some b \<Rightarrow> length b)"

definition kv_trailer_write :: "trailer_hooks option \<Rightarrow> os \<Rightarrow> string \<Rightarrow> bytes \<Rightarrow> bool \<times> u64 \<times> os" where
  "kv_trailer_write hooks s path text =
     (case hooks of None \<Rightarrow> (True, 0, s) | Some h \<Rightarrow>
        (case hook_write h of None \<Rightarrow> (True, 0, s) | Some f \<Rightarrow>
           (case f text of (ok, data, cnt) \<Rightarrow>
             (case os_write_at s path (file_end s path) data of
                (n, s') \<Rightarrow> (ok \<and> n = length data, cnt, s')))))"

definition kv_cache_rewrite_trailer :: "os \<Rightarrow> string \<Rightarrow> bytes \<Rightarrow> trailer_hooks option \<Rightarrow> os" where
  "kv_cache_rewrite_trailer s path text hooks =
     (case hooks of None \<Rightarrow> s | Some h \<Rightarrow>
        if hook_write h = None \<or> serialized_size h = None then s
        else (case kv_trailer_serialized_size hooks text of (size_ok, est) \<Rightarrow>
          if \<not> size_ok \<or> est = 0 then s
          else (case os_fopen_update s path of None \<Rightarrow> s | Some b \<Rightarrow>
            (case kv_store_read_header b of None \<Rightarrow> s | Some (hdr, tb, _) \<Rightarrow>
               (let stop = 48 + 4 + ucast tb + payload_bytes hdr in
                if stop \<le> 9223372036854775807 \<and> truncate_ok s path then
                  (let b1 = take (unat stop) b @ replicate (unat stop - length b) 0;
                       s1 = s\<lparr>files := AList.update path b1 (files s)\<rparr> in
                   case kv_trailer_write hooks s1 path text of (ok, cnt, s2) \<Rightarrow>
                     if ok \<and> flush_ok s path \<and> cnt > 0 then
                       (case os_time s2 of (now, s3) \<Rightarrow>
                         snd (os_write_at s3 path 0
                           (kv_store_fill_header (model_id hdr) (quant_bits hdr) (reason hdr)
                              (ext_flags hdr OR ext_flag h) (tokens hdr) (hits hdr) (ctx_size hdr)
                              (created_at hdr) now (payload_bytes hdr))))
                     else s2)
                else s)))))"

section \<open>Storing\<close>

text \<open>Consecutive \<^verbatim>\<open>fwrite\<close> calls at the end of a file, stopping at the first short one.\<close>

fun write_pieces :: "os \<Rightarrow> string \<Rightarrow> bytes list \<Rightarrow> bool \<times> os" where
  "write_pieces s path [] = (True, s)"
| "write_pieces s path (p # ps) =
     (case os_write_at s path (file_end s path) p of
        (n, s') \<Rightarrow> if n = length p then write_pieces s' path ps else (False, s'))"

definition os_fopen_create :: "os \<Rightarrow> string \<Rightarrow> os option" where
  "os_fopen_create s path = (if can_write s path then Some (s\<lparr>files := AList.update path [] (files s)\<rparr>) else None)"

definition os_rename :: "os \<Rightarrow> string \<Rightarrow> string \<Rightarrow> bool \<times> os" where
  "os_rename s src dst =
     (case map_of (files s) src of None \<Rightarrow> (False, s) | Some b \<Rightarrow>
        if rename_ok s dst then (True, s\<lparr>files := AList.update dst b (AList.delete src (files s))\<rparr>) else (False, s))"

text \<open>
  The file is written under a temporary name and renamed.  The tail from the \<^verbatim>\<open>fopen\<close> of the
  temporary file is a definition of its own; \<open>est\<close> is the trailer estimate.
\<close>

definition write_checkpoint ::
    "'s session_api \<Rightarrow> kv_store \<Rightarrow> 's \<Rightarrow> nat \<Rightarrow> u8 \<Rightarrow> bytes \<Rightarrow> bool \<Rightarrow> u8 \<Rightarrow> trailer_hooks option \<Rightarrow> u64 \<Rightarrow>
     bytes \<Rightarrow> string \<Rightarrow> string \<Rightarrow> os \<Rightarrow> bool \<times> os" where
  "write_checkpoint api kc sess n_tokens reason_code text text_override text_ext hooks est payload tmp path s =
     (case os_time s of (now, s1) \<Rightarrow>
      (let ext0 = (case hooks of None \<Rightarrow> 0 | Some h \<Rightarrow> if est > 0 then ext_flag h else 0);
           ext = (if text_override then ext0 OR text_ext else ext0);
           payload_len = word_of_nat (length payload);
           h = kv_store_fill_header (word_of_int (engine_model_id api)) (word_of_int (routed_quant_bits api))
                 reason_code ext (word_of_nat n_tokens) 0 (word_of_int (session_ctx api sess)) now now payload_len;
           tb = kv_store_le_put32 (word_of_nat (length text))
       in case write_pieces s1 tmp [h, tb, text, payload] of (ok1, s2) \<Rightarrow>
          (case (if ok1 then kv_trailer_write hooks s2 tmp text else (False, 0, s2)) of (ok2, cnt, s3) \<Rightarrow>
            (let ok3 = (ok2 \<and> flush_ok s3 tmp \<and> close_ok s3 tmp);
                 ok4 = (ok3 \<and> fst (kv_store_file_size_fits (Some (budget_bytes kc)) (word_of_nat (length text)) payload_len cnt 0 0))
             in case (if ok4 then os_rename s3 tmp path else (False, s3)) of (ok5, s4) \<Rightarrow>
                  if ok5 then (True, s4) else (False, snd (os_unlink s4 tmp))))))"

definition kv_store_store_live_prefix_text ::
    "(rat \<Rightarrow> rat) \<Rightarrow> 's session_api \<Rightarrow> kv_store \<Rightarrow> 's \<Rightarrow> int list option \<Rightarrow> int \<Rightarrow> string option \<Rightarrow> bytes option \<Rightarrow> u8 \<Rightarrow>
     trailer_hooks option \<Rightarrow> os \<Rightarrow> bool \<times> kv_store \<times> os" where
  "kv_store_store_live_prefix_text exp2 api kc sess toks store_len rsn override text_ext hooks s =
     (if \<not> enabled kc then (False, kc, s)
      else if toks = None \<or> store_len < min_tokens (opt kc) then (False, kc, s)
      else (let store_tokens = kv_store_tokens_copy_prefix toks store_len; quant = routed_quant_bits api in
        if quant \<noteq> 2 \<and> quant \<noteq> 4 then (False, kc, s)
        else (case session_tokens api sess of None \<Rightarrow> (False, kc, s) | Some live \<Rightarrow>
          if length live \<noteq> length store_tokens \<or> \<not> ds4_tokens_starts_with live store_tokens then (False, kc, s)
          else (let text_override = (override \<noteq> None \<and> override \<noteq> Some []);
                    text = (if text_override then the override else kv_store_render_tokens_text api store_tokens) in
            if length text > UINT32_MAX then (False, kc, s)
            else (case kv_trailer_serialized_size hooks text of (size_ok, est) \<Rightarrow>
              if \<not> size_ok then (False, kc, s)
              else (let sha = kv_store_sha1_bytes_hex text; path = kv_store_path_for_sha (dir kc) sha in
                case kv_cache_existing_compatible kc s path sha text (engine_model_id api) quant (session_ctx api sess) of
                  (True, s1) \<Rightarrow> (True, kc, kv_cache_rewrite_trailer s1 path text hooks)
                | (False, s1) \<Rightarrow>
                  (case stage_payload api sess of None \<Rightarrow> (False, kc, s1) | Some payload \<Rightarrow>
                     (case kv_store_file_size_fits (Some (budget_bytes kc)) (word_of_nat (length text))
                             (word_of_nat (length payload)) est 0 0 of (fits, est_file, _) \<Rightarrow>
                        if \<not> fits then (False, kc, s1)
                        else (case kv_store_evict exp2 kc est_file
                                (Some \<lparr>ic_text = Some text, ic_model_id = word_of_int (engine_model_id api),
                                   ic_quant_bits = word_of_int quant, ic_ctx_size = word_of_int (session_ctx api sess),
                                   ic_reject_different_quant = reject_different_quant kc\<rparr>) s1 of (kc2, s2) \<Rightarrow>
                          (let tmp = path @ ''.tmp.'' @ show_nat (pid s2) in
                           case os_fopen_create s2 tmp of None \<Rightarrow> (False, kc2, s2) | Some s3 \<Rightarrow>
                             (case write_checkpoint api kc2 sess (length store_tokens) (kv_store_reason_code rsn) text
                                     text_override text_ext hooks est payload tmp path s3 of
                                (ok, s4) \<Rightarrow> (ok, kc2, s4))))))))))))"

definition kv_store_store_live_prefix ::
    "(rat \<Rightarrow> rat) \<Rightarrow> 's session_api \<Rightarrow> kv_store \<Rightarrow> 's \<Rightarrow> int list option \<Rightarrow> int \<Rightarrow> string option \<Rightarrow>
     trailer_hooks option \<Rightarrow> os \<Rightarrow> bool \<times> kv_store \<times> os" where
  "kv_store_store_live_prefix exp2 api kc sess toks store_len rsn hooks s =
     kv_store_store_live_prefix_text exp2 api kc sess toks store_len rsn None 0 hooks s"

definition kv_store_maybe_store_continued ::
    "(rat \<Rightarrow> rat) \<Rightarrow> 's session_api \<Rightarrow> kv_store \<Rightarrow> 's \<Rightarrow> trailer_hooks option \<Rightarrow> os \<Rightarrow> bool \<times> kv_store \<times> os" where
  "kv_store_maybe_store_continued exp2 api kc sess hooks s =
     (case session_tokens api sess of None \<Rightarrow> (False, kc, s) | Some toks \<Rightarrow>
        (let target = kv_store_continued_store_target kc (int (length toks)) in
         if target = 0 then (False, kc, s)
         else (case kv_store_store_live_prefix exp2 api kc sess (Some toks) target (Some ''continued'') hooks s of
             (True, kc', s') \<Rightarrow> (True, kv_store_note_store kc' target, s')
           | (False, kc', s') \<Rightarrow> (False, kc', s'))))"

section \<open>Loading\<close>

text \<open>The loop over the entries; \<open>best\<close> is the best index so far, -1 for none.\<close>

definition find_step :: "kv_store \<Rightarrow> bytes \<Rightarrow> int \<Rightarrow> int \<Rightarrow> int \<Rightarrow> int \<Rightarrow> nat \<Rightarrow> int" where
  "find_step kc prompt model quant ctx best i =
     (let e = entry kc ! i in
      if unat (text_bytes e) > length prompt then best
      else if sint (tokens e) < min_tokens (opt kc) then best
      else if model_id e \<noteq> word_of_int model then best
      else if word_of_int ctx < ctx_size e then best
      else if reject_different_quant kc \<and> quant_bits e \<noteq> word_of_int quant then best
      else if best \<ge> 0 \<and> text_bytes e < text_bytes (entry kc ! nat best) then best
      else if best \<ge> 0 \<and> text_bytes e = text_bytes (entry kc ! nat best) \<and> tokens e \<le> tokens (entry kc ! nat best) then best
      else if kv_store_sha1_bytes_hex (take (unat (text_bytes e)) prompt) = e_sha e then int i
      else best)"

definition kv_store_find_text_prefix ::
    "kv_store \<Rightarrow> os \<Rightarrow> bytes option \<Rightarrow> int \<Rightarrow> int \<Rightarrow> int \<Rightarrow> int \<times> kv_store" where
  "kv_store_find_text_prefix kc s prompt model quant ctx =
     (case prompt of None \<Rightarrow> (-1, kc) | Some p \<Rightarrow>
        (let kc1 = kv_cache_refresh kc s
         in (foldl (find_step kc1 p model quant ctx) (-1) [0..<length (entry kc1)], kc1)))"

record kv_store_load_result =
  r_tokens :: int
  r_text_bytes :: u32
  r_quant_bits :: u8
  r_ext_flags :: u8
  r_path :: "string option"

definition zero_result :: kv_store_load_result where
  "zero_result = \<lparr>r_tokens = 0, r_text_bytes = 0, r_quant_bits = 0, r_ext_flags = 0, r_path = None\<rparr>"

text \<open>The checks on the opened file: the text it holds and the rest of the stream.\<close>

definition load_header :: "bytes \<Rightarrow> string \<Rightarrow> int \<Rightarrow> bytes \<Rightarrow> (kv_store_entry \<times> u32 \<times> bytes) option" where
  "load_header fp sha model prompt =
     (case kv_store_read_header fp of None \<Rightarrow> None | Some (hdr, tb, rest) \<Rightarrow>
        if model_id hdr \<noteq> word_of_int model then None
        else if unat tb > length prompt then None
        else if length rest < unat tb then None
        else (let cached = take (unat tb) rest in
          if kv_store_sha1_bytes_hex cached \<noteq> sha then None
          else if \<not> kv_store_byte_prefix_match prompt cached then None
          else Some (hdr, tb, drop (unat tb) rest)))"

text \<open>
  What a load leaves behind: the number of tokens, the store, the session, the effective prompt, the
  result, the stream passed to the trailer hook if it is called, and the system.
\<close>

record 's load_outcome =
  loaded :: int
  l_store :: kv_store
  l_session :: 's
  l_prompt :: "int list"
  l_result :: kv_store_load_result
  l_trailer :: "bytes option"
  l_os :: os

definition kv_store_try_load_text ::
    "'s session_api \<Rightarrow> kv_store \<Rightarrow> 's \<Rightarrow> bytes option \<Rightarrow> trailer_hooks option \<Rightarrow> os \<Rightarrow> 's load_outcome" where
  "kv_store_try_load_text api kc sess prompt hooks s =
     (let none = \<lparr>loaded = 0, l_store = kc, l_session = sess, l_prompt = [], l_result = zero_result, l_trailer = None, l_os = s\<rparr> in
      case prompt of None \<Rightarrow> none | Some p \<Rightarrow>
      if \<not> enabled kc then none
      else if routed_quant_bits api \<noteq> 2 \<and> routed_quant_bits api \<noteq> 4 then none
      else (case kv_store_find_text_prefix kc s prompt (engine_model_id api) (routed_quant_bits api) (session_ctx api sess) of
        (idx, kc1) \<Rightarrow>
          if idx < 0 then none\<lparr>l_store := kc1\<rparr>
          else (let e = entry kc1 ! nat idx; path = e_path e in
            case os_fopen_read s path of None \<Rightarrow> none\<lparr>l_store := kc1\<rparr> | Some fp \<Rightarrow>
            (case load_header fp (e_sha e) (engine_model_id api) p of None \<Rightarrow> none\<lparr>l_store := kc1\<rparr>
             | Some (hdr, tb, rest) \<Rightarrow>
               (case load_payload api sess rest (payload_bytes hdr) of
                  (False, sess1, _) \<Rightarrow> none\<lparr>l_store := kc1, l_session := session_invalidate api sess1\<rparr>
                | (True, sess1, rest1) \<Rightarrow>
                  (case session_tokens api sess1 of
                     Some toks \<Rightarrow>
                       if int (length toks) = sint (tokens hdr) then
                         (let n = sint (tokens hdr);
                              out = none\<lparr>loaded := n, l_store := kc1, l_session := sess1,
                                l_prompt := kv_store_build_prompt_from_exact_prefix_and_text_suffix api toks (Some (drop (unat tb) p)),
                                l_trailer := (case hooks of None \<Rightarrow> None
                                   | Some h \<Rightarrow> if hook_load h \<and> ext_flags hdr AND ext_flag h \<noteq> 0 then Some rest1 else None)\<rparr>
                          in if n > 0 then
                               out\<lparr>l_store := kc1\<lparr>continued_last_store_tokens := n\<rparr>,
                                   l_os := snd (kv_store_touch_file s path (hits hdr + 1)),
                                   l_result := \<lparr>r_tokens = n, r_text_bytes = tb, r_quant_bits = quant_bits hdr,
                                      r_ext_flags = ext_flags hdr, r_path = Some path\<rparr>\<rparr>
                             else out)
                       else none\<lparr>l_store := kc1, l_session := session_invalidate api sess1, l_os := snd (os_unlink s path)\<rparr>
                   | None \<Rightarrow> none\<lparr>l_store := kc1, l_session := session_invalidate api sess1, l_os := snd (os_unlink s path)\<rparr>))))))"

definition kv_store_load_result_free :: "kv_store_load_result option \<Rightarrow> kv_store_load_result option" where
  "kv_store_load_result_free r = map_option (\<lambda>_. zero_result) r"

section \<open>The best matching checkpoint\<close>

text \<open>What a usable checkpoint for a prompt is, and the order by which one is preferred.\<close>

definition usable :: "kv_store \<Rightarrow> bytes \<Rightarrow> int \<Rightarrow> int \<Rightarrow> int \<Rightarrow> kv_store_entry \<Rightarrow> bool" where
  "usable kc prompt model quant ctx e \<longleftrightarrow>
     unat (text_bytes e) \<le> length prompt \<and> min_tokens (opt kc) \<le> sint (tokens e) \<and>
     model_id e = word_of_int model \<and> ctx_size e \<le> word_of_int ctx \<and>
     (reject_different_quant kc \<longrightarrow> quant_bits e = word_of_int quant) \<and>
     kv_store_sha1_bytes_hex (take (unat (text_bytes e)) prompt) = e_sha e"

definition reuse_key :: "kv_store_entry \<Rightarrow> u64 \<times> u32" where
  "reuse_key e = (text_bytes e, tokens e)"

lemma if_chain:
  "(if a then b else if c then b else if d then b else if e then b else if f then b else if g then b
    else if h then b else if k then x else b) =
   (if (\<not> a \<and> \<not> c \<and> \<not> d \<and> \<not> e \<and> \<not> f \<and> k) \<and> (\<not> g \<and> \<not> h) then x else b)"
  by simp

lemma reuse_key_less:
  "\<not> text_bytes e < text_bytes f \<and> \<not> (text_bytes e = text_bytes f \<and> tokens e \<le> tokens f) \<longleftrightarrow> reuse_key f < reuse_key e"
  by (auto simp: reuse_key_def not_less not_le order.strict_iff_order)

lemma find_step_alt:
  "find_step kc p model quant ctx best i =
     (if usable kc p model quant ctx (entry kc ! i) \<and> (best \<ge> 0 \<longrightarrow> reuse_key (entry kc ! nat best) < reuse_key (entry kc ! i))
      then int i else best)"
proof -
  have "usable kc p model quant ctx e \<longleftrightarrow>
      (\<not> length p < unat (text_bytes e) \<and> \<not> sint (tokens e) < min_tokens (opt kc) \<and> \<not> model_id e \<noteq> word_of_int model \<and>
       \<not> word_of_int ctx < ctx_size e \<and> \<not> (reject_different_quant kc \<and> quant_bits e \<noteq> word_of_int quant) \<and>
       kv_store_sha1_bytes_hex (take (unat (text_bytes e)) p) = e_sha e)" for e
    by (simp add: usable_def not_less)
  then show ?thesis unfolding find_step_def Let_def if_chain reuse_key_less [symmetric]
    by (intro if_cong conj_cong) auto
qed

definition best_of :: "kv_store \<Rightarrow> bytes \<Rightarrow> int \<Rightarrow> int \<Rightarrow> int \<Rightarrow> nat \<Rightarrow> int \<Rightarrow> bool" where
  "best_of kc p model quant ctx n best \<longleftrightarrow>
     (best = -1 \<and> (\<forall>j < n. \<not> usable kc p model quant ctx (entry kc ! j))) \<or>
     (0 \<le> best \<and> nat best < n \<and> usable kc p model quant ctx (entry kc ! nat best) \<and>
      (\<forall>j < n. usable kc p model quant ctx (entry kc ! j) \<longrightarrow> reuse_key (entry kc ! j) \<le> reuse_key (entry kc ! nat best)))"

lemma best_of_step:
  assumes "best_of kc p model quant ctx n b"
  shows "best_of kc p model quant ctx (Suc n) (find_step kc p model quant ctx b n)"
proof (cases "usable kc p model quant ctx (entry kc ! n) \<and> (b \<ge> 0 \<longrightarrow> reuse_key (entry kc ! nat b) < reuse_key (entry kc ! n))")
  case True
  then have "reuse_key (entry kc ! j) \<le> reuse_key (entry kc ! n)"
    if j: "j < Suc n" "usable kc p model quant ctx (entry kc ! j)" for j
  proof (cases "j = n")
    case False
    with j assms have "0 \<le> b" "reuse_key (entry kc ! j) \<le> reuse_key (entry kc ! nat b)"
      unfolding best_of_def by auto
    with True show ?thesis by (meson order_le_less_trans order_less_imp_le)
  qed simp
  with True show ?thesis by (simp add: find_step_alt best_of_def)
next
  case False
  then have st: "find_step kc p model quant ctx b n = b" by (auto simp: find_step_alt)
  show ?thesis unfolding st using assms False unfolding best_of_def by (auto simp: less_Suc_eq)
qed

lemma best_of_fold: "best_of kc p model quant ctx n (foldl (find_step kc p model quant ctx) (-1) [0..<n])"
proof (induction n)
  case (Suc n)
  from best_of_step [OF Suc] show ?case by simp
qed (simp add: best_of_def)

lemma find_best:
  assumes "enabled kc" and "kv_store_find_text_prefix kc s (Some p) model quant ctx = (idx, kc')"
  shows "entry kc' = scan_dir s (dir kc) \<and>
    (if idx < 0 then idx = -1 \<and> (\<forall>e \<in> set (entry kc'). \<not> usable kc p model quant ctx e)
     else nat idx < length (entry kc') \<and> usable kc p model quant ctx (entry kc' ! nat idx) \<and>
       (\<forall>e \<in> set (entry kc'). usable kc p model quant ctx e \<longrightarrow> reuse_key e \<le> reuse_key (entry kc' ! nat idx)))"
proof -
  have kc': "kc' = kc\<lparr>entry := scan_dir s (dir kc)\<rparr>"
    and idx: "idx = foldl (find_step kc' p model quant ctx) (-1) [0..<length (entry kc')]"
    using assms by (auto simp: kv_store_find_text_prefix_def refresh_scan Let_def)
  have "usable kc' p model quant ctx = usable kc p model quant ctx" by (simp add: kc' usable_def fun_eq_iff)
  with best_of_fold [of kc' p model quant ctx "length (entry kc')", folded idx] show ?thesis
    by (auto simp: kc' in_set_conv_nth best_of_def)
qed

text \<open>
  C22.  The lookup returns the best usable checkpoint: among the scanned checkpoints whose text hash,
  model, context, quantization and length allow reuse for this prompt, the one with the longest
  text, and the most tokens among equals; it returns -1 exactly if none is usable.
\<close>

theorem find_text_prefix_best:
  assumes "enabled kc" and "kv_store_find_text_prefix kc s (Some p) model quant ctx = (idx, kc')"
  shows "entry kc' = scan_dir s (dir kc) \<and>
    (if idx < 0 then idx = -1 \<and> (\<forall>e \<in> set (entry kc'). \<not> usable kc p model quant ctx e)
     else nat idx < length (entry kc') \<and> usable kc p model quant ctx (entry kc' ! nat idx) \<and>
       (\<forall>e \<in> set (entry kc'). usable kc p model quant ctx e \<longrightarrow> reuse_key e \<le> reuse_key (entry kc' ! nat idx)))"
  by (rule find_best [OF assms])

theorem find_text_prefix_best_witness:
  "fst (kv_store_find_text_prefix sample_kv_store sample_os (Some [104, 105]) 1 2 4096) < 0 \<or>
   nat (fst (kv_store_find_text_prefix sample_kv_store sample_os (Some [104, 105]) 1 2 4096)) < 1"
proof -
  obtain idx kc' where r: "kv_store_find_text_prefix sample_kv_store sample_os (Some [104, 105]) 1 2 4096 = (idx, kc')"
    by (meson surj_pair)
  have "enabled sample_kv_store" "dir sample_kv_store = ''/kv''" by (simp_all add: sample_kv_store_def)
  with find_text_prefix_best [OF _ r] r show ?thesis by (auto simp: sample_scan split: if_splits)
qed

section \<open>Prefix loads\<close>

lemma load_headerD:
  assumes "load_header fp sha model prompt = Some (hdr, tb, rest)"
  shows "\<exists>r. kv_store_read_header fp = Some (hdr, tb, r) \<and> rest = drop (unat tb) r \<and> unat tb \<le> length r \<and>
    kv_store_sha1_bytes_hex (take (unat tb) r) = sha \<and> take (unat tb) prompt = take (unat tb) r \<and>
    model_id hdr = word_of_int model \<and> unat tb \<le> length prompt"
  using assms by (auto simp: load_header_def Let_def kv_store_byte_prefix_match_def not_less min_def
      split: option.splits if_splits)

text \<open>The ways a load can end: with nothing done to the session, with the session invalidated, or with a hit.\<close>

lemma try_load_cases:
  assumes "kv_store_try_load_text api kc sess prompt hooks s = out"
  obtains (miss) "loaded out = 0" "l_session out = sess" "l_prompt out = []" "l_result out = zero_result" "l_os out = s" "l_trailer out = None"
    | (corrupt) x path where "loaded out = 0" "l_session out = session_invalidate api x" "l_prompt out = []"
        "l_result out = zero_result" "l_os out = s \<or> l_os out = snd (os_unlink s path)" "l_trailer out = None"
    | (hit) p idx kc1 e fp hdr tb rest sess1 rest1 toks where "prompt = Some p" "enabled kc"
        "kv_store_find_text_prefix kc s prompt (engine_model_id api) (routed_quant_bits api) (session_ctx api sess) = (idx, kc1)"
        "0 \<le> idx" "e = entry kc1 ! nat idx" "os_fopen_read s (e_path e) = Some fp"
        "load_header fp (e_sha e) (engine_model_id api) p = Some (hdr, tb, rest)"
        "load_payload api sess rest (payload_bytes hdr) = (True, sess1, rest1)"
        "session_tokens api sess1 = Some toks" "int (length toks) = sint (tokens hdr)"
        "loaded out = sint (tokens hdr)" "l_session out = sess1"
        "l_prompt out = toks @ tokenize_rendered_chat api (drop (unat tb) p)"
        "sint (tokens hdr) > 0 \<longrightarrow> l_store out = kc1\<lparr>continued_last_store_tokens := sint (tokens hdr)\<rparr> \<and>
           l_os out = snd (kv_store_touch_file s (e_path e) (hits hdr + 1)) \<and>
           l_result out = \<lparr>r_tokens = sint (tokens hdr), r_text_bytes = tb, r_quant_bits = quant_bits hdr,
              r_ext_flags = ext_flags hdr, r_path = Some (e_path e)\<rparr>"
        "\<not> sint (tokens hdr) > 0 \<longrightarrow> l_result out = zero_result \<and> l_os out = s"
proof -
  note D = assms [symmetric, unfolded kv_store_try_load_text_def Let_def]
  show thesis
  proof (cases "prompt = None \<or> \<not> enabled kc \<or> (routed_quant_bits api \<noteq> 2 \<and> routed_quant_bits api \<noteq> 4)")
    case True
    then show thesis by (intro miss) (auto simp: D split: option.splits)
  next
    case False
    then obtain p where p: "prompt = Some p" "enabled kc" "routed_quant_bits api \<noteq> 2 \<longrightarrow> routed_quant_bits api = 4" by auto
    obtain idx kc1 where f: "kv_store_find_text_prefix kc s prompt (engine_model_id api) (routed_quant_bits api) (session_ctx api sess) = (idx, kc1)"
      by (meson surj_pair)
    define e where "e = entry kc1 ! nat idx"
    note D1 = D [unfolded p(1) option.case f [unfolded p(1)] prod.case e_def [symmetric]]
    show thesis
    proof (cases "idx < 0 \<or> os_fopen_read s (e_path e) = None \<or>
        load_header (the (os_fopen_read s (e_path e))) (e_sha e) (engine_model_id api) p = None")
      case True
      then show thesis using p by (intro miss) (auto simp: D1 split: option.splits)
    next
      case False
      then obtain fp hdr tb rest where h: "0 \<le> idx" "os_fopen_read s (e_path e) = Some fp"
        "load_header fp (e_sha e) (engine_model_id api) p = Some (hdr, tb, rest)" by auto
      obtain ok sess1 rest1 where l: "load_payload api sess rest (payload_bytes hdr) = (ok, sess1, rest1)"
        by (cases "load_payload api sess rest (payload_bytes hdr)") auto
      note D2 = D1 [unfolded h(2,3) option.case prod.case l]
      show thesis
      proof (cases "ok \<and> (\<exists>toks. session_tokens api sess1 = Some toks \<and> int (length toks) = sint (tokens hdr))")
        case True
        then obtain toks where t: "ok" "session_tokens api sess1 = Some toks" "int (length toks) = sint (tokens hdr)" by auto
        note D3 = D2 [unfolded t(1,2) option.case bool.case kv_store_build_prompt_from_exact_prefix_and_text_suffix_def]
        show thesis
          using p h t D3 by (intro hit [OF p(1,2) f h(1) e_def h(2,3) _ t(2,3)]) (auto simp: l split: if_splits)
      next
        case False
        then show thesis using p h
          by (intro corrupt [where x = sess1 and path = "e_path e"]) (auto simp: D2 split: option.splits bool.splits)
      qed
    qed
  qed
qed

text \<open>
  C14.  A hit continues exactly the requested conversation.  When a load reports tokens, the checkpoint it
  used stores a text that is a byte prefix of the prompt and was written for this model; the session
  then holds that many tokens; the effective prompt is those tokens followed by the tokenized rest
  of the prompt text; and the counter of continued checkpoints restarts at that length.
\<close>

theorem load_hit_extends_prefix:
  assumes "kv_store_try_load_text api kc sess (Some p) hooks s = out" and "0 < loaded out"
  shows "\<exists>path b hdr tb r toks. r_path (l_result out) = Some path \<and> map_of (files s) path = Some b \<and>
    kv_store_read_header b = Some (hdr, tb, r) \<and> model_id hdr = word_of_int (engine_model_id api) \<and>
    unat tb \<le> length p \<and> unat tb \<le> length r \<and> take (unat tb) p = take (unat tb) r \<and>
    session_tokens api (l_session out) = Some toks \<and> loaded out = int (length toks) \<and>
    l_prompt out = toks @ tokenize_rendered_chat api (drop (unat tb) p) \<and>
    continued_last_store_tokens (l_store out) = loaded out"
  using assms(1)
proof (cases rule: try_load_cases)
  case (hit p' idx kc1 e fp hdr tb rest sess1 rest1 toks)
  obtain r where r: "kv_store_read_header fp = Some (hdr, tb, r)" "unat tb \<le> length r"
    "take (unat tb) p = take (unat tb) r" "model_id hdr = word_of_int (engine_model_id api)" "unat tb \<le> length p"
    using load_headerD [OF hit(7)] hit(1) by auto
  have "map_of (files s) (e_path e) = Some fp" using hit(6) by (simp add: os_fopen_read_def split: if_splits)
  with r hit assms(2) show ?thesis
    by (intro exI [of _ "e_path e"] exI [of _ fp] exI [of _ hdr] exI [of _ tb] exI [of _ r] exI [of _ toks]) simp
qed (use assms(2) in auto)

text \<open>
  A load that reports nothing is harmless: it yields no prompt and no result, leaves the session
  as it was or invalidates it, and removes at most one file, leaving every other file unchanged.
\<close>

theorem load_miss_harmless:
  assumes "kv_store_try_load_text api kc sess prompt hooks s = out" and "loaded out = 0"
  shows "l_prompt out = [] \<and> l_result out = zero_result \<and>
    (l_session out = sess \<or> (\<exists>x. l_session out = session_invalidate api x)) \<and>
    (\<exists>path. \<forall>q. q \<noteq> path \<longrightarrow> map_of (files (l_os out)) q = map_of (files s) q)"
  using assms(1)
proof (cases rule: try_load_cases)
  case (corrupt x path)
  have "\<forall>q. q \<noteq> path \<longrightarrow> map_of (files (snd (os_unlink s path))) q = map_of (files s) q"
    by (simp add: os_unlink_def AList.delete_conv')
  then have "\<forall>q. q \<noteq> path \<longrightarrow> map_of (files (l_os out)) q = map_of (files s) q" using corrupt(5) by auto
  with corrupt show ?thesis by blast
next
  case (hit p idx kc1 e fp hdr tb rest sess1 rest1 toks)
  have "kv_store_read_header fp = Some (hdr, tb, the (map_option (snd \<circ> snd) (kv_store_read_header fp)))"
    using load_headerD [OF hit(7)] by auto
  then have "tokens hdr \<noteq> 0" using read_header_SomeD(4) by blast
  then have "sint (tokens hdr) \<noteq> 0" by (metis signed_eq_0_iff)
  with hit(11) assms(2) show ?thesis by simp
qed auto

section \<open>Writing a checkpoint\<close>

lemma write_at_end:
  assumes "map_of (files s) path = Some b" and "os_write_at s path (file_end s path) data = (n, s')"
  shows "\<exists>b'. s' = s\<lparr>files := AList.update path b' (files s)\<rparr> \<and> (n = length data \<longrightarrow> b' = b @ data)"
  using assms by (auto simp: os_write_at_def file_end_def Let_def)

lemma update_same: "AList.update p x (AList.update p y fs) = AList.update p x fs"
  by (induction fs) auto

lemma update_id: "map_of fs p = Some x \<Longrightarrow> AList.update p x fs = fs"
  by (induction fs) auto

lemma write_pieces_spec:
  "write_pieces s path ps = (ok, s') \<Longrightarrow> map_of (files s) path = Some b \<Longrightarrow>
   \<exists>b'. s' = s\<lparr>files := AList.update path b' (files s)\<rparr> \<and> (ok \<longrightarrow> b' = b @ concat ps)"
proof (induction ps arbitrary: s b)
  case Nil
  with update_id [OF Nil(2)] show ?case by (intro exI [of _ b]) auto
next
  case (Cons p ps)
  obtain n s1 where w: "os_write_at s path (file_end s path) p = (n, s1)" by (meson surj_pair)
  then obtain b1 where b1: "s1 = s\<lparr>files := AList.update path b1 (files s)\<rparr>" "n = length p \<longrightarrow> b1 = b @ p"
    using write_at_end [OF Cons.prems(2)] by blast
  have f1: "map_of (files s1) path = Some b1" by (simp add: b1 map_of_update_file)
  show ?case
  proof (cases "n = length p")
    case True
    with Cons.prems(1) w have "write_pieces s1 path ps = (ok, s')" by simp
    from Cons.IH [OF this f1] obtain b' where "s' = s1\<lparr>files := AList.update path b' (files s1)\<rparr>" "ok \<longrightarrow> b' = b1 @ concat ps" by blast
    then show ?thesis using b1 True by (intro exI [of _ b']) (simp add: update_same)
  next
    case False
    with Cons.prems(1) w b1 show ?thesis by auto
  qed
qed

lemma trailer_write_spec:
  assumes "kv_trailer_write hooks s path text = (ok, cnt, s')" and "map_of (files s) path = Some b"
  shows "\<exists>b'. s' = s\<lparr>files := AList.update path b' (files s)\<rparr> \<and> (ok \<longrightarrow> (\<exists>t. b' = b @ t))"
proof (cases "\<exists>h f. hooks = Some h \<and> hook_write h = Some f")
  case True
  then obtain h f where h: "hooks = Some h" "hook_write h = Some f" by blast
  obtain k data c where f: "f text = (k, data, c)" by (cases "f text") auto
  obtain n s1 where w: "os_write_at s path (file_end s path) data = (n, s1)" by (meson surj_pair)
  from write_at_end [OF assms(2) w] assms(1) h f w show ?thesis by (auto simp: kv_trailer_write_def)
next
  case False
  then have "s' = s" using assms(1) by (auto simp: kv_trailer_write_def split: option.splits)
  moreover have "write_pieces s path [] = (True, s)" by simp
  ultimately show ?thesis using write_pieces_spec [of s path "[]" True s b] assms(2) by auto
qed

text \<open>The header a fresh checkpoint gets.\<close>

definition fresh_header :: "'s session_api \<Rightarrow> 's \<Rightarrow> nat \<Rightarrow> u8 \<Rightarrow> u8 \<Rightarrow> u64 \<Rightarrow> bytes \<Rightarrow> bytes" where
  "fresh_header api sess n reason_code ext now payload =
     kv_store_fill_header (word_of_int (engine_model_id api)) (word_of_int (routed_quant_bits api))
       reason_code ext (word_of_nat n) 0 (word_of_int (session_ctx api sess)) now now (word_of_nat (length payload))"

lemma write_checkpoint_spec:
  assumes "write_checkpoint api kc sess n rc text ov text_ext hooks est payload tmp path s = (ok, s')"
    and "map_of (files s) tmp = Some []" and "tmp \<noteq> path"
  shows "if ok then \<exists>ext trailer. map_of (files s') path =
        Some (fresh_header api sess n rc ext (clock s (ticks s)) payload @ kv_store_le_put32 (word_of_nat (length text))
          @ text @ payload @ trailer) \<and> map_of (files s') tmp = None \<and>
        (\<forall>q. q \<noteq> path \<longrightarrow> q \<noteq> tmp \<longrightarrow> map_of (files s') q = map_of (files s) q) \<and>
        can_read s' = can_read s \<and> opendir_ok s' = opendir_ok s
    else (\<forall>q. q \<noteq> tmp \<longrightarrow> map_of (files s') q = map_of (files s) q) \<and> (can_unlink s tmp \<longrightarrow> map_of (files s') tmp = None)"
proof -
  let ?s1 = "s\<lparr>ticks := Suc (ticks s)\<rparr>"
  define ext0 where "ext0 = (case hooks of None \<Rightarrow> 0 | Some h \<Rightarrow> if est > 0 then ext_flag h else 0)"
  define ext where "ext = (if ov then ext0 OR text_ext else ext0)"
  define h where "h = fresh_header api sess n rc ext (clock s (ticks s)) payload"
  define tb where "tb = kv_store_le_put32 (word_of_nat (length text))"
  obtain ok1 s2 where w: "write_pieces ?s1 tmp [h, tb, text, payload] = (ok1, s2)" by (meson surj_pair)
  obtain ok2 cnt s3 where t: "(if ok1 then kv_trailer_write hooks s2 tmp text else (False, 0, s2)) = (ok2, cnt, s3)"
    by (metis prod_cases3)
  define ok4 where "ok4 \<longleftrightarrow> ok2 \<and> flush_ok s3 tmp \<and> close_ok s3 tmp \<and>
    fst (kv_store_file_size_fits (Some (budget_bytes kc)) (word_of_nat (length text)) (word_of_nat (length payload)) cnt 0 0)"
  obtain ok5 s4 where r: "(if ok4 then os_rename s3 tmp path else (False, s3)) = (ok5, s4)" by (meson surj_pair)
  have res: "(ok, s') = (if ok5 then (True, s4) else (False, snd (os_unlink s4 tmp)))"
    using assms(1) w t r [unfolded ok4_def]
    unfolding write_checkpoint_def os_time_def prod.case Let_def ext0_def [symmetric] ext_def [symmetric]
      fresh_header_def [symmetric] h_def [symmetric] tb_def [symmetric] conj_assoc by (simp del: write_pieces.simps)
  have m1: "map_of (files ?s1) tmp = Some []" using assms(2) by simp
  obtain b2 where b2: "s2 = ?s1\<lparr>files := AList.update tmp b2 (files s)\<rparr>" "ok1 \<longrightarrow> b2 = h @ tb @ text @ payload"
    using write_pieces_spec [OF w m1] by auto
  have m2: "map_of (files s2) tmp = Some b2" by (simp add: b2 map_of_update_file)
  obtain b3 where b3: "s3 = ?s1\<lparr>files := AList.update tmp b3 (files s)\<rparr>" "ok2 \<longrightarrow> ok1 \<and> (\<exists>tr. b3 = b2 @ tr)"
  proof (cases ok1)
    case True
    with t have "kv_trailer_write hooks s2 tmp text = (ok2, cnt, s3)" by simp
    from trailer_write_spec [OF this m2] obtain b' where "s3 = s2\<lparr>files := AList.update tmp b' (files s2)\<rparr>"
      "ok2 \<longrightarrow> (\<exists>tr. b' = b2 @ tr)" by blast
    then show ?thesis using that [of b'] True b2(1) by (simp add: update_same)
  next
    case False
    then show ?thesis using that [of b2] t b2(1) by simp
  qed
  have m3: "map_of (files s3) q = (if q = tmp then Some b3 else map_of (files s) q)" for q
    by (simp add: b3 map_of_update_file)
  show ?thesis
  proof (cases ok5)
    case True
    then have "ok4" using r by (auto split: if_splits)
    then have ren: "os_rename s3 tmp path = (True, s4)" using r True by simp
    obtain tr where tr: "b3 = h @ tb @ text @ payload @ tr" using \<open>ok4\<close> b3(2) b2(2) ok4_def by auto
    have s4: "s4 = s3\<lparr>files := AList.update path b3 (AList.delete tmp (files s3))\<rparr>"
      using ren m3 [of tmp] by (auto simp: os_rename_def split: if_splits)
    have "map_of (files s4) q = (if q = path then Some b3 else if q = tmp then None else map_of (files s) q)" for q
      using m3 [of q] by (auto simp: s4 map_of_update_file AList.delete_conv')
    moreover have "ok" "s' = s4" using res True by auto
    ultimately show ?thesis using assms(3) tr by (auto simp: h_def tb_def s4 b3(1) intro!: exI [of _ ext])
  next
    case False
    have "s4 = s3" using r False by (auto simp: os_rename_def split: if_splits option.splits)
    moreover have "\<not> ok" "s' = snd (os_unlink s4 tmp)" using res False by auto
    ultimately show ?thesis using m3 by (auto simp: os_unlink_def AList.delete_conv' b3(1))
  qed
qed

section \<open>Rewriting a trailer\<close>

text \<open>What an operation on an existing checkpoint has to keep: text, payload and identity.\<close>

definition same_checkpoint :: "bytes \<Rightarrow> bytes \<Rightarrow> bool" where
  "same_checkpoint b b' \<longleftrightarrow> (\<exists>e tb r e' r'. kv_store_read_header b = Some (e, tb, r) \<and>
     kv_store_read_header b' = Some (e', tb, r') \<and>
     e'\<lparr>ext_flags := ext_flags e, last_used := last_used e\<rparr> = e \<and>
     take (unat tb + unat (payload_bytes e)) r' = take (unat tb + unat (payload_bytes e)) r)"

lemma same_checkpoint_refl: "kv_store_read_header b = Some (e, tb, r) \<Longrightarrow> same_checkpoint b b"
  by (auto simp: same_checkpoint_def)

lemma rewrite_trailer_keeps:
  assumes "map_of (files s) path = Some b" and "kv_store_read_header b = Some (e, tb, r)"
    and "52 + unat tb + unat (payload_bytes e) \<le> length b" and "length b < 2 ^ 64" and "FIXED_HEADER \<le> room s path"
    and s'_def: "s' = kv_cache_rewrite_trailer s path text hooks"
  shows "\<exists>b'. map_of (files s') path = Some b' \<and> same_checkpoint b b' \<and>
    (\<forall>q. q \<noteq> path \<longrightarrow> map_of (files s') q = map_of (files s) q)"
proof (cases "\<exists>h. hooks = Some h \<and> hook_write h \<noteq> None \<and> serialized_size h \<noteq> None \<and>
    fst (kv_trailer_serialized_size hooks text) \<and> snd (kv_trailer_serialized_size hooks text) \<noteq> 0 \<and>
    os_fopen_update s path = Some b \<and> 52 + ucast tb + payload_bytes e \<le> 9223372036854775807 \<and> truncate_ok s path")
  case False
  then have "s' = s"
    using assms(1,2) by (auto simp: s'_def kv_cache_rewrite_trailer_def os_fopen_update_def Let_def split: option.splits if_splits prod.splits)
  with assms(1,2) same_checkpoint_refl show ?thesis by auto
next
  case True
  then obtain h where h: "hooks = Some h" "hook_write h \<noteq> None" "serialized_size h \<noteq> None"
    "fst (kv_trailer_serialized_size hooks text)" "snd (kv_trailer_serialized_size hooks text) \<noteq> 0"
    "os_fopen_update s path = Some b" "52 + ucast tb + payload_bytes e \<le> 9223372036854775807" "truncate_ok s path" by auto
  define stop :: u64 where "stop = 52 + ucast tb + payload_bytes e"
  have utb: "unat (ucast tb :: u64) = unat tb" using unat_u32_less [of tb] by (simp add: unsigned_ucast_eq take_bit_nat_eq_self)
  have stop: "unat stop = 52 + unat tb + unat (payload_bytes e)"
    using unat_file_size [of "ucast tb" "payload_bytes e" 0] assms(3,4) utb by (simp add: stop_def)
  define b1 where "b1 = take (unat stop) b @ replicate (unat stop - length b) 0"
  have b1: "b1 = take (unat stop) b" using assms(3) stop by (simp add: b1_def)
  define s1 where "s1 = s\<lparr>files := AList.update path b1 (files s)\<rparr>"
  obtain ok cnt s2 where t: "kv_trailer_write hooks s1 path text = (ok, cnt, s2)" by (metis prod_cases3)
  have m1: "map_of (files s1) path = Some b1" by (simp add: s1_def map_of_update_file)
  obtain f where f: "hook_write h = Some f" using h(2) by blast
  obtain t2 where s2: "s2 = s1\<lparr>files := AList.update path (b1 @ t2) (files s1)\<rparr>"
    using t m1 by (auto simp: kv_trailer_write_def h(1) f os_write_at_def file_end_def Let_def split: prod.splits)
  define b2 where "b2 = b1 @ t2"
  have s2': "s2 = s\<lparr>files := AList.update path b2 (files s)\<rparr>" using s2 by (simp add: s1_def update_same b2_def)
  have t52: "take 52 b2 = take 52 b" and tp: "take (unat stop) b2 = take (unat stop) b"
    using stop assms(3) by (auto simp: b2_def b1 min_def)
  have h2: "kv_store_read_header b2 = Some (e, tb, drop 52 b2)" by (rule read_header_cong [OF assms(2) t52])
  have payload: "take (unat tb + unat (payload_bytes e)) (drop 52 b2) = take (unat tb + unat (payload_bytes e)) r"
  proof -
    have "take (unat tb + unat (payload_bytes e)) (drop 52 b2) = drop 52 (take (unat stop) b2)"
      using stop by (simp add: take_drop ac_simps)
    also have "\<dots> = take (unat tb + unat (payload_bytes e)) (drop 52 b)" unfolding tp using stop by (simp add: take_drop ac_simps)
    finally show ?thesis using read_header_SomeD(2) [OF assms(2)] by simp
  qed
  let ?hd = "kv_store_fill_header (model_id e) (quant_bits e) (reason e) (ext_flags e OR ext_flag h) (tokens e) (hits e) (ctx_size e)
       (created_at e) (clock s (ticks s)) (payload_bytes e)"
  define b3 where "b3 = (if ok \<and> flush_ok s path \<and> cnt > 0 then ?hd @ drop 48 b2 else b2)"
  have res: "files s' = AList.update path b3 (files s)"
    using h(2-6,8) t [unfolded h(1)] assms(2,5) s2' h(7) [folded stop_def]
    by (auto simp: s'_def h(1) kv_cache_rewrite_trailer_def stop_def [symmetric] b1_def [symmetric] s1_def [symmetric] Let_def
        os_time_def os_write_at_def map_of_update_file update_same b3_def split: prod.splits)
  have "same_checkpoint b b3"
  proof (cases "ok \<and> flush_ok s path \<and> cnt > 0")
    case True
    have "kv_store_read_header b3 = Some (e\<lparr>ext_flags := ext_flags e OR ext_flag h, hits := hits e, last_used := clock s (ticks s)\<rparr>, tb, drop 52 b2)"
      using read_header_replace [OF h2] True by (simp add: b3_def)
    with assms(2) payload show ?thesis by (auto simp: same_checkpoint_def)
  next
    case False
    with assms(2) payload h2 show ?thesis by (auto simp: same_checkpoint_def b3_def)
  qed
  with res show ?thesis by (auto simp: map_of_update_file)
qed

section \<open>Storing a checkpoint\<close>

text \<open>The text a checkpoint is stored under, and its file.\<close>

definition checkpoint_text :: "'s session_api \<Rightarrow> int list option \<Rightarrow> int \<Rightarrow> bytes option \<Rightarrow> bytes" where
  "checkpoint_text api toks store_len override =
     (if override \<noteq> None \<and> override \<noteq> Some [] then the override
      else kv_store_render_tokens_text api (kv_store_tokens_copy_prefix toks store_len))"

definition checkpoint_path :: "kv_store \<Rightarrow> bytes \<Rightarrow> string" where
  "checkpoint_path kc text = kv_store_path_for_sha (dir kc) (kv_store_sha1_bytes_hex text)"

lemma store_cases:
  assumes "kv_store_store_live_prefix_text exp2 api kc sess toks store_len rsn override text_ext hooks s = (ok, kc', s')"
  defines "text \<equiv> checkpoint_text api toks store_len override"
  defines "path \<equiv> checkpoint_path kc text" and "n \<equiv> length (kv_store_tokens_copy_prefix toks store_len)"
  obtains (skip) "\<not> ok" "s' = s \<or> s' = snd (os_unlink s path)"
    | (existing) "ok" "kv_cache_existing_compatible kc s path (kv_store_sha1_bytes_hex text) text (engine_model_id api)
          (routed_quant_bits api) (session_ctx api sess) = (True, s)" "s' = kv_cache_rewrite_trailer s path text hooks"
    | (fresh) s1 s2 payload est_file ic ov est where "s1 = s \<or> s1 = snd (os_unlink s path)"
        "stage_payload api sess = Some payload" "kv_store_evict exp2 kc est_file ic s1 = (kc', s2)"
        "routed_quant_bits api = 2 \<or> routed_quant_bits api = 4" "length text \<le> UINT32_MAX"
        "case os_fopen_create s2 (path @ ''.tmp.'' @ show_nat (pid s2)) of None \<Rightarrow> \<not> ok \<and> s' = s2
         | Some s3 \<Rightarrow> write_checkpoint api kc' sess n (kv_store_reason_code rsn) text ov text_ext hooks est payload
             (path @ ''.tmp.'' @ show_nat (pid s2)) path s3 = (ok, s')"
proof -
  define toks' where "toks' = kv_store_tokens_copy_prefix toks store_len"
  define ov where "ov \<longleftrightarrow> override \<noteq> None \<and> override \<noteq> Some []"
  have tx: "(if ov then the override else kv_store_render_tokens_text api toks') = text"
    by (simp add: text_def checkpoint_text_def ov_def toks'_def)
  note D = assms(1) [unfolded kv_store_store_live_prefix_text_def Let_def, folded toks'_def ov_def, unfolded tx,
      folded checkpoint_path_def path_def]
  obtain size_ok est where sz: "kv_trailer_serialized_size hooks text = (size_ok, est)" by (meson surj_pair)
  show thesis
  proof (cases "\<not> enabled kc \<or> (toks = None \<or> store_len < min_tokens (opt kc)) \<or>
      (routed_quant_bits api \<noteq> 2 \<and> routed_quant_bits api \<noteq> 4) \<or> session_tokens api sess = None \<or>
      (length (the (session_tokens api sess)) \<noteq> length toks' \<or> \<not> ds4_tokens_starts_with (the (session_tokens api sess)) toks') \<or>
      length text > UINT32_MAX \<or> \<not> size_ok")
    case True
    then have "\<not> ok \<and> s' = s" using D sz by (auto split: if_splits option.splits)
    then show thesis using skip by blast
  next
    case False
    then obtain live where g: "enabled kc" "toks \<noteq> None" "\<not> store_len < min_tokens (opt kc)"
      "routed_quant_bits api = 2 \<or> routed_quant_bits api = 4" "session_tokens api sess = Some live"
      "length live = length toks'" "ds4_tokens_starts_with live toks'" "length text \<le> UINT32_MAX" "size_ok" by auto
    obtain c s1 where ex: "kv_cache_existing_compatible kc s path (kv_store_sha1_bytes_hex text) text (engine_model_id api)
        (routed_quant_bits api) (session_ctx api sess) = (c, s1)" by (meson surj_pair)
    have s1: "if c then s1 = s else s1 = s \<or> s1 = snd (os_unlink s path)"
      using ex by (auto simp: kv_cache_existing_compatible_def split: if_splits option.splits)
    have not: "\<not> \<not> enabled kc" "\<not> (toks = None \<or> store_len < min_tokens (opt kc))"
      "\<not> (routed_quant_bits api \<noteq> 2 \<and> routed_quant_bits api \<noteq> 4)"
      "\<not> (length live \<noteq> length toks' \<or> \<not> ds4_tokens_starts_with live toks')" "\<not> length text > UINT32_MAX" "\<not> \<not> size_ok"
      using g by auto
    note D1 = D [unfolded if_not_P [OF not(1)] if_not_P [OF not(2)] if_not_P [OF not(3)] g(5) option.case if_not_P [OF not(4)]
        if_not_P [OF not(5)] sz prod.case if_not_P [OF not(6)] ex]
    show thesis
    proof (cases c)
      case True
      then show thesis using D1 ex s1 by (intro existing) auto
    next
      case False
      show thesis
      proof (cases "stage_payload api sess")
        case None
        then show thesis using D1 False s1 by (intro skip) auto
      next
        case (Some payload)
        obtain fits est_file x where ft: "kv_store_file_size_fits (Some (budget_bytes kc)) (word_of_nat (length text))
            (word_of_nat (length payload)) est 0 0 = (fits, est_file, x)" by (metis prod_cases3)
        let ?ic = "Some \<lparr>ic_text = Some text, ic_model_id = word_of_int (engine_model_id api),
             ic_quant_bits = word_of_int (routed_quant_bits api), ic_ctx_size = word_of_int (session_ctx api sess),
             ic_reject_different_quant = reject_different_quant kc\<rparr>"
        obtain kc2 s2 where ev: "kv_store_evict exp2 kc est_file ?ic s1 = (kc2, s2)" by (meson surj_pair)
        note D2 = D1 [unfolded Some option.case ft prod.case ev]
        show thesis
        proof (cases fits)
          case True
          then have "kc' = kc2" using D2 False by (auto split: option.splits prod.splits)
          then show thesis using D2 False True s1
            by (intro fresh [OF _ Some ev [folded \<open>kc' = kc2\<close>] g(4) g(8), of ov est])
              (auto simp: n_def toks'_def [symmetric] split: option.splits prod.splits)
        next
          case no: False
          then show thesis using D2 False s1 by (intro skip) auto
        qed
      qed
    qed
  qed
qed

lemma checkpoint_path_join: "checkpoint_path kc text = kv_store_path_join (dir kc) (kv_store_sha1_bytes_hex text @ ''.kv'')"
  by (simp add: checkpoint_path_def kv_store_path_for_sha_def length_sha1_hex)

lemma tmp_not_checkpoint:
  assumes "kv_store_sha_hex_name name = Some h"
  shows "kv_store_path_join (dir kc) name \<noteq> checkpoint_path kc text @ ''.tmp.'' @ x"
proof
  have l: "length name = 43" using assms by (auto simp: kv_store_sha_hex_name_def split: if_splits)
  assume "kv_store_path_join (dir kc) name = checkpoint_path kc text @ ''.tmp.'' @ x"
  then have "name = kv_store_sha1_bytes_hex text @ ''.kv'' @ ''.tmp.'' @ x"
    unfolding checkpoint_path_join by (simp add: kv_store_path_join_def)
  then have "length name = 48 + length x" by (simp add: length_sha1_hex)
  with l show False by simp
qed

lemma map_of_filter_keys: "map_of (filter (\<lambda>(p, _). p \<notin> D) fs) q = (if q \<in> D then None else map_of fs q)"
  by (induction fs) auto

lemma shrink_only:
  assumes "s1 = s \<or> s1 = snd (os_unlink s path)" and "kv_store_evict exp2 kc extra ic s1 = (kc', s2)"
  shows "map_of (files s2) q \<in> {None, map_of (files s) q} \<and> pid s2 = pid s \<and> can_read s2 = can_read s \<and>
    opendir_ok s2 = opendir_ok s \<and> (map_of (files s) q = None \<longrightarrow> map_of (files s2) q = None)"
proof -
  obtain del t where "s2 = s1\<lparr>ticks := t, files := filter (\<lambda>(p, _). p \<notin> set del) (files s1)\<rparr>"
    using evict_frame [of s1 kc exp2 extra ic] assms(2) by auto
  then show ?thesis using assms(1) by (auto simp: map_of_filter_keys os_unlink_def AList.delete_conv')
qed

lemma create_spec:
  assumes "os_fopen_create s tmp = Some s3"
  shows "map_of (files s3) tmp = Some []" "q \<noteq> tmp \<Longrightarrow> map_of (files s3) q = map_of (files s) q"
    "can_read s3 = can_read s" "opendir_ok s3 = opendir_ok s" "clock s3 = clock s" "ticks s3 = ticks s"
  using assms by (auto simp: os_fopen_create_def map_of_update_file split: if_splits)

text \<open>
  C15.  A store that fails never damages a checkpoint: afterwards every file of the directory with a
  checkpoint name is either unchanged or gone (evicted, or removed as incompatible).  In
  particular no partially written checkpoint becomes visible.
\<close>

theorem failed_store_atomic:
  assumes "kv_store_store_live_prefix_text exp2 api kc sess toks store_len rsn override text_ext hooks s = (False, kc', s')"
    and "kv_store_sha_hex_name name = Some h"
  shows "map_of (files s') (kv_store_path_join (dir kc) name) \<in> {None, map_of (files s) (kv_store_path_join (dir kc) name)}"
  using assms(1)
proof (cases rule: store_cases)
  case skip
  then show ?thesis by (auto simp: os_unlink_def AList.delete_conv')
next
  case (fresh s1 s2 payload est_file ic ov est)
  let ?q = "kv_store_path_join (dir kc) name"
  let ?path = "checkpoint_path kc (checkpoint_text api toks store_len override)"
  let ?tmp = "?path @ ''.tmp.'' @ show_nat (pid s2)"
  note sh = shrink_only [OF fresh(1,3), of ?q]
  have q: "?q \<noteq> ?tmp" by (rule tmp_not_checkpoint [OF assms(2)])
  show ?thesis
  proof (cases "os_fopen_create s2 ?tmp")
    case None
    with fresh(6) sh show ?thesis by simp
  next
    case (Some s3)
    have "map_of (files s') ?q = map_of (files s3) ?q"
      using write_checkpoint_spec [of api kc' sess _ _ _ ov text_ext hooks est payload ?tmp ?path s3 False s'] fresh(6) q
        create_spec(1) [OF Some] Some by simp
    with sh create_spec(2) [OF Some, of ?q] q show ?thesis by simp
  qed
qed auto

text \<open>Both ways a store succeeds leave a readable checkpoint with the text under its own hash.\<close>

definition holds_checkpoint :: "'s session_api \<Rightarrow> kv_store \<Rightarrow> 's \<Rightarrow> bytes \<Rightarrow> os \<Rightarrow> bool" where
  "holds_checkpoint api kc sess text s \<longleftrightarrow> (\<exists>b e tb rest.
     map_of (files s) (checkpoint_path kc text) = Some b \<and> kv_store_read_header b = Some (e, tb, rest) \<and>
     unat tb = length text \<and> take (length text) rest = text \<and> model_id e = word_of_int (engine_model_id api) \<and>
     (reject_different_quant kc \<longrightarrow> quant_bits e = word_of_int (routed_quant_bits api)) \<and>
     ctx_size e \<le> word_of_int (session_ctx api sess) \<and>
     52 + length text + unat (payload_bytes e) \<le> length b)"

lemma existing_holds:
  assumes "kv_cache_existing_compatible kc s (checkpoint_path kc text) (kv_store_sha1_bytes_hex text) text
      (engine_model_id api) (routed_quant_bits api) (session_ctx api sess) = (True, s)"
    and "\<forall>p b. map_of (files s) p = Some b \<longrightarrow> length b < 2 ^ 63"
  shows "holds_checkpoint api kc sess text s"
proof -
  let ?p = "checkpoint_path kc text"
  obtain e where e: "kv_store_read_entry_file s ?p (kv_store_sha1_bytes_hex text) = Some e"
    "model_id e = word_of_int (engine_model_id api)" "reject_different_quant kc \<longrightarrow> quant_bits e = word_of_int (routed_quant_bits api)"
    "ctx_size e \<le> word_of_int (session_ctx api sess)" "kv_cache_file_text_matches s ?p (kv_store_sha1_bytes_hex text) text"
    using assms(1) by (auto simp: kv_cache_existing_compatible_def split: if_splits option.splits)
  from e(1) obtain b tb rest where b: "map_of (files s) ?p = Some b" "can_read s ?p"
    "kv_store_read_header b = Some (e\<lparr>e_sha := [], e_path := [], file_size := 0\<rparr>, tb, rest)"
    "file_size e = word_of_nat (length b)" "text_bytes e = ucast tb"
    "52 + unat (text_bytes e) + unat (payload_bytes e) \<le> unat (file_size e)" by (rule read_entry_fileD)
  have l: "length b < 2 ^ 63" using assms(2) b(1) by blast
  then have "unat (file_size e) = length b" using b(4) by (simp add: unat_of_nat)
  moreover have tb: "unat (text_bytes e) = unat tb" using b(5) unat_u32_less [of tb]
    by (simp add: unsigned_ucast_eq take_bit_nat_eq_self)
  moreover have "length text \<le> UINT32_MAX" "tb = word_of_nat (length text)" "\<not> length rest < unat tb"
    "length text = 0 \<or> take (unat tb) rest = text"
    using e(5) b(1-3) by (auto simp: kv_cache_file_text_matches_def os_fopen_read_def Let_def split: if_splits)
  moreover from this have "unat tb = length text" by (simp add: unat_of_nat)
  ultimately show ?thesis using b e(2-4) unfolding holds_checkpoint_def
    by (intro exI [of _ b] exI [of _ "e\<lparr>e_sha := [], e_path := [], file_size := 0\<rparr>"] exI [of _ tb] exI [of _ rest]) auto
qed

lemma rewrite_holds:
  assumes "holds_checkpoint api kc sess text s" and "\<forall>p b. map_of (files s) p = Some b \<longrightarrow> length b < 2 ^ 63"
    and "\<forall>p. FIXED_HEADER \<le> room s p"
  shows "holds_checkpoint api kc sess text (kv_cache_rewrite_trailer s (checkpoint_path kc text) text hooks)"
proof -
  let ?p = "checkpoint_path kc text"
  obtain b e tb r where b: "map_of (files s) ?p = Some b" "kv_store_read_header b = Some (e, tb, r)"
    "unat tb = length text" "take (length text) r = text" "model_id e = word_of_int (engine_model_id api)"
    "reject_different_quant kc \<longrightarrow> quant_bits e = word_of_int (routed_quant_bits api)"
    "ctx_size e \<le> word_of_int (session_ctx api sess)" "52 + length text + unat (payload_bytes e) \<le> length b"
    using assms(1) unfolding holds_checkpoint_def by blast
  have l: "length b < 2 ^ 63" using assms(2) b(1) by blast
  have sz: "52 + unat tb + unat (payload_bytes e) \<le> length b" "length b < 2 ^ 64" "FIXED_HEADER \<le> room s ?p"
    using b(3,8) l assms(3) by auto
  obtain b' where b': "map_of (files (kv_cache_rewrite_trailer s ?p text hooks)) ?p = Some b'" "same_checkpoint b b'"
    using rewrite_trailer_keeps [OF b(1,2) sz refl] by blast
  then obtain e' r' where e': "kv_store_read_header b' = Some (e', tb, r')"
    "e'\<lparr>ext_flags := ext_flags e, last_used := last_used e\<rparr> = e"
    "take (unat tb + unat (payload_bytes e)) r' = take (unat tb + unat (payload_bytes e)) r"
    using b(2) by (auto simp: same_checkpoint_def)
  have f: "model_id e' = model_id e" "quant_bits e' = quant_bits e" "ctx_size e' = ctx_size e" "payload_bytes e' = payload_bytes e"
    using arg_cong [OF e'(2), of model_id] arg_cong [OF e'(2), of quant_bits] arg_cong [OF e'(2), of ctx_size]
      arg_cong [OF e'(2), of payload_bytes] by simp_all
  have r: "r = drop 52 b" "r' = drop 52 b'" "52 \<le> length b'" using read_header_SomeD(1,2) b(2) e'(1) by blast+
  have "length (take (unat tb + unat (payload_bytes e)) r) = unat tb + unat (payload_bytes e)" using r(1) b(3,8) by simp
  then have "length (take (unat tb + unat (payload_bytes e)) r') = unat tb + unat (payload_bytes e)" unfolding e'(3) .
  then have "unat tb + unat (payload_bytes e) \<le> length r'" by simp
  then have len: "52 + length text + unat (payload_bytes e') \<le> length b'" using r(2,3) b(3) f by simp
  have "take (length text) r' = text" using arg_cong [OF e'(3), of "take (length text)"] b(3,4) by (simp add: min_def)
  with b' e'(1) b(3,5-7) f len show ?thesis unfolding holds_checkpoint_def by auto
qed

lemma reason_code_known: "kv_store_reason_code r \<le> REASON_AGENT_SESSION"
  by (simp add: kv_store_reason_code_def split: option.splits)

lemma fresh_holds:
  assumes "map_of (files s) (checkpoint_path kc text) =
     Some (fresh_header api sess n rc ext now payload @ kv_store_le_put32 (word_of_nat (length text)) @ text @ payload @ trailer)"
    and "0 < n" and "n < 2 ^ 31" and "routed_quant_bits api = 2 \<or> routed_quant_bits api = 4" and "length text \<le> UINT32_MAX"
    and "rc \<le> REASON_AGENT_SESSION"
  shows "holds_checkpoint api kc sess text s"
    "\<exists>e. kv_store_read_header (the (map_of (files s) (checkpoint_path kc text))) = Some (e, word_of_nat (length text), text @ payload @ trailer) \<and>
       tokens e = word_of_nat n \<and> payload_bytes e = word_of_nat (length payload) \<and> reason e = rc \<and> hits e = 0"
proof -
  have "unat (word_of_nat n :: u32) = n" using assms(3) by (simp add: unat_of_nat)
  with assms(2) have t: "word_of_nat n \<noteq> (0 :: u32)" by (metis order_less_irrefl unat_0)
  have q: "word_of_int (routed_quant_bits api) = (2 :: u8) \<or> word_of_int (routed_quant_bits api) = (4 :: u8)" using assms(4) by auto
  have tb: "unat (word_of_nat (length text) :: u32) = length text" using assms(5) by (simp add: unat_of_nat)
  have pl: "unat (word_of_nat (length payload) :: u64) \<le> length payload" by (simp add: unat_of_nat)
  note rd = read_fill_header [OF t q]
  show "\<exists>e. kv_store_read_header (the (map_of (files s) (checkpoint_path kc text))) = Some (e, word_of_nat (length text), text @ payload @ trailer) \<and>
       tokens e = word_of_nat n \<and> payload_bytes e = word_of_nat (length payload) \<and> reason e = rc \<and> hits e = 0"
    using assms(6) by (simp add: assms(1) fresh_header_def rd)
  show "holds_checkpoint api kc sess text s"
    unfolding holds_checkpoint_def using tb pl by (simp add: assms(1) fresh_header_def rd)
qed

lemma store_success:
  assumes "kv_store_store_live_prefix_text exp2 api kc sess toks store_len rsn override text_ext hooks s = (True, kc', s')"
    and "\<forall>p b. map_of (files s) p = Some b \<longrightarrow> length b < 2 ^ 63" and "\<forall>p. FIXED_HEADER \<le> room s p"
    and "0 < length (kv_store_tokens_copy_prefix toks store_len)" and "length (kv_store_tokens_copy_prefix toks store_len) < 2 ^ 31"
  defines "text \<equiv> checkpoint_text api toks store_len override"
  shows "holds_checkpoint api kc sess text s' \<and>
    (map_of (files s) (checkpoint_path kc text) = None \<longrightarrow>
      can_read s' = can_read s \<and> opendir_ok s' = opendir_ok s \<and>
      (\<exists>e payload trailer. stage_payload api sess = Some payload \<and>
        kv_store_read_header (the (map_of (files s') (checkpoint_path kc text))) = Some (e, word_of_nat (length text), text @ payload @ trailer) \<and>
        tokens e = word_of_nat (length (kv_store_tokens_copy_prefix toks store_len)) \<and>
        payload_bytes e = word_of_nat (length payload) \<and> reason e = kv_store_reason_code rsn \<and> hits e = 0))"
  using assms(1)
proof (cases rule: store_cases)
  case existing
  have "holds_checkpoint api kc sess text s" using existing_holds [OF existing(2) assms(2)] by (simp add: text_def)
  then have "holds_checkpoint api kc sess text s'" using rewrite_holds [OF _ assms(2,3)] existing(3) by (simp add: text_def)
  moreover have "map_of (files s) (checkpoint_path kc text) \<noteq> None"
    using existing(2) by (auto simp: kv_cache_existing_compatible_def text_def split: if_splits)
  ultimately show ?thesis by blast
next
  case (fresh s1 s2 payload est_file ic ov est)
  let ?path = "checkpoint_path kc text"
  let ?tmp = "?path @ ''.tmp.'' @ show_nat (pid s2)"
  obtain s3 where c: "os_fopen_create s2 ?tmp = Some s3"
    and w: "write_checkpoint api kc' sess (length (kv_store_tokens_copy_prefix toks store_len)) (kv_store_reason_code rsn) text ov
      text_ext hooks est payload ?tmp ?path s3 = (True, s')"
    using fresh(6) by (auto simp: text_def split: option.splits)
  have ne: "?tmp \<noteq> ?path" by simp
  obtain ext trailer where f: "map_of (files s') ?path =
      Some (fresh_header api sess (length (kv_store_tokens_copy_prefix toks store_len)) (kv_store_reason_code rsn) ext (clock s3 (ticks s3)) payload
        @ kv_store_le_put32 (word_of_nat (length text)) @ text @ payload @ trailer)"
    and rd: "can_read s' = can_read s3" "opendir_ok s' = opendir_ok s3"
    using write_checkpoint_spec [OF w create_spec(1) [OF c] ne] by auto
  note h = fresh_holds [OF f assms(4,5) fresh(4) fresh(5) [folded text_def] reason_code_known]
  have "can_read s' = can_read s \<and> opendir_ok s' = opendir_ok s"
    using rd create_spec(3,4) [OF c] shrink_only [OF fresh(1,3)] by simp
  then show ?thesis using h fresh(2) by blast
qed simp

text \<open>
  C23.  A store that reports success leaves a complete checkpoint: the file named after the hash of
  the text parses, holds exactly that text, was written for this model (and quantization, when
  mixing is rejected) and for a context the session can load, and is long enough for the payload
  length it announces.
\<close>

theorem store_leaves_checkpoint:
  assumes "kv_store_store_live_prefix_text exp2 api kc sess toks store_len rsn override text_ext hooks s = (True, kc', s')"
    and "\<forall>p b. map_of (files s) p = Some b \<longrightarrow> length b < 2 ^ 63" and "\<forall>p. FIXED_HEADER \<le> room s p"
    and "0 < length (kv_store_tokens_copy_prefix toks store_len)" and "length (kv_store_tokens_copy_prefix toks store_len) < 2 ^ 31"
  shows "holds_checkpoint api kc sess (checkpoint_text api toks store_len override) s'"
  using store_success [OF assms] by blast

section \<open>Finding what was stored\<close>

lemma readdir_mem: "map_of (files s) (kv_store_path_join d name) \<noteq> None \<Longrightarrow> CHR ''/'' \<notin> set name \<Longrightarrow> name \<in> set (os_readdir s d)"
proof -
  assume "map_of (files s) (kv_store_path_join d name) \<noteq> None" and slash: "CHR ''/'' \<notin> set name"
  then obtain b where b: "(kv_store_path_join d name, b) \<in> set (files s)" by (auto dest: map_of_SomeD)
  have "name_in d (kv_store_path_join d name) = Some name" using slash by (simp add: name_in_Some)
  with b show ?thesis by (force simp: os_readdir_def in_set_map_filter)
qed

lemma sha_name_no_slash: "CHR ''/'' \<notin> set (kv_store_sha1_bytes_hex text @ ''.kv'')"
proof -
  have "set (kv_store_sha1_bytes_hex text) \<subseteq> set ''0123456789abcdef''" unfolding sha1_hex_fips by (rule set_hex20)
  then show ?thesis by auto
qed

lemma scan_contains:
  assumes "opendir_ok s (dir kc)" and "can_read s (checkpoint_path kc text)" and "map_of (files s) (checkpoint_path kc text) = Some b"
    and "kv_store_read_header b = Some (e, tb, rest)" and "52 + unat tb + unat (payload_bytes e) \<le> length b" and "length b < 2 ^ 64"
  shows "e\<lparr>e_sha := kv_store_sha1_bytes_hex text, e_path := checkpoint_path kc text, file_size := word_of_nat (length b)\<rparr>
     \<in> set (scan_dir s (dir kc))"
proof -
  let ?n = "kv_store_sha1_bytes_hex text @ ''.kv''"
  have utb: "unat (ucast tb :: u64) = unat tb" using unat_u32_less [of tb] by (simp add: unsigned_ucast_eq take_bit_nat_eq_self)
  have fits: "\<not> (UINT64_MAX - (48 + 4) < ucast tb \<or> UINT64_MAX - (48 + 4) - ucast tb < payload_bytes e)"
    using size_chain [of "48 + 4" "ucast tb" "payload_bytes e" 0] assms(5,6) utb by simp
  have "unat (48 + 4 + ucast tb + payload_bytes e) = 52 + unat tb + unat (payload_bytes e)"
    using unat_file_size [of "ucast tb" "payload_bytes e" 0] assms(5,6) utb by simp
  then have big: "\<not> word_of_nat (length b) < 48 + 4 + ucast tb + payload_bytes e"
    using assms(5,6) by (simp add: word_less_nat_alt unat_of_nat not_less)
  have "kv_store_read_entry_file s (checkpoint_path kc text) (kv_store_sha1_bytes_hex text) =
      Some (e\<lparr>e_sha := kv_store_sha1_bytes_hex text, e_path := checkpoint_path kc text, file_size := word_of_nat (length b)\<rparr>)"
    using assms(5) fits big unfolding kv_store_read_entry_file_def os_fopen_read_def
    by (simp add: assms(2,3,4) Let_def)
  then have "scan_name s (dir kc) ?n =
      Some (e\<lparr>e_sha := kv_store_sha1_bytes_hex text, e_path := checkpoint_path kc text, file_size := word_of_nat (length b)\<rparr>)"
    by (simp add: scan_name_def sha_hex_name_sha1 checkpoint_path_join)
  moreover have "?n \<in> set (os_readdir s (dir kc))"
    using readdir_mem [of s "dir kc" ?n] sha_name_no_slash [of "text"] assms(3) by (simp add: checkpoint_path_join)
  ultimately show ?thesis using assms(1) by (auto simp: scan_dir_def in_set_map_filter)
qed

text \<open>
  C16.  What is stored is found again.  After a fresh checkpoint has been stored under its text, a lookup
  for any prompt that starts with this text succeeds, and the checkpoint it selects covers at
  least as many bytes of the prompt.
\<close>

theorem stored_then_found:
  assumes "kv_store_store_live_prefix_text exp2 api kc sess toks store_len rsn override text_ext hooks s = (True, kc', s')"
    and "enabled kc" and "opendir_ok s (dir kc)" and "\<forall>p. can_read s p" and "\<forall>p. FIXED_HEADER \<le> room s p"
    and "\<forall>p b. map_of (files s) p = Some b \<longrightarrow> length b < 2 ^ 63" and "\<forall>p b. map_of (files s') p = Some b \<longrightarrow> length b < 2 ^ 63"
    and "map_of (files s) (checkpoint_path kc (checkpoint_text api toks store_len override)) = None"
    and "0 < length (kv_store_tokens_copy_prefix toks store_len)" and "length (kv_store_tokens_copy_prefix toks store_len) < 2 ^ 31"
    and "min_tokens (opt kc) \<le> int (length (kv_store_tokens_copy_prefix toks store_len))"
    and "prefix (checkpoint_text api toks store_len override) p"
    and "kv_store_find_text_prefix kc s' (Some p) (engine_model_id api) (routed_quant_bits api) (session_ctx api sess) = (idx, kc2)"
  shows "0 \<le> idx \<and> nat idx < length (entry kc2) \<and>
    length (checkpoint_text api toks store_len override) \<le> unat (text_bytes (entry kc2 ! nat idx))"
proof -
  define tx where "tx = checkpoint_text api toks store_len override"
  let ?n = "length (kv_store_tokens_copy_prefix toks store_len)"
  note st = store_success [OF assms(1,6,5,9,10), folded tx_def]
  have rd: "can_read s' = can_read s" "opendir_ok s' = opendir_ok s" using st assms(8) by (auto simp: tx_def)
  obtain b e tb rest where b: "map_of (files s') (checkpoint_path kc tx) = Some b" "kv_store_read_header b = Some (e, tb, rest)"
    "unat tb = length tx" "take (length tx) rest = tx" "model_id e = word_of_int (engine_model_id api)"
    "reject_different_quant kc \<longrightarrow> quant_bits e = word_of_int (routed_quant_bits api)"
    "ctx_size e \<le> word_of_int (session_ctx api sess)" "52 + length tx + unat (payload_bytes e) \<le> length b"
    using st unfolding holds_checkpoint_def by blast
  have tk: "tokens e = word_of_nat ?n" using st assms(8) b(1,2) by (auto simp: tx_def)
  have "length b < 2 ^ 63" using assms(7) b(1) by blast
  let ?e = "e\<lparr>e_sha := kv_store_sha1_bytes_hex tx, e_path := checkpoint_path kc tx, file_size := word_of_nat (length b)\<rparr>"
  have mem: "?e \<in> set (scan_dir s' (dir kc))"
    using assms(3,4) rd b(3,8) \<open>length b < 2 ^ 63\<close> by (intro scan_contains [OF _ _ b(1,2)]) auto
  have tb: "unat (text_bytes e) = length tx"
    using read_header_SomeD(3) [OF b(2)] b(3) unat_u32_less [of tb] by (simp add: unsigned_ucast_eq take_bit_nat_eq_self)
  have "sint (word_of_nat ?n :: u32) = int ?n"
    using assms(10) by (simp add: signed_of_nat signed_take_bit_int_eq_self)
  moreover have "take (length tx) p = tx" "length tx \<le> length p"
    using assms(12) by (auto simp: prefix_def tx_def)
  ultimately have us: "usable kc p (engine_model_id api) (routed_quant_bits api) (session_ctx api sess) ?e"
    using b(5-7) tk tb assms(11) by (simp add: usable_def)
  note f = find_best [OF assms(2,13)]
  have pos: "0 \<le> idx" using f mem us by (auto split: if_splits)
  with f mem us have "reuse_key ?e \<le> reuse_key (entry kc2 ! nat idx)" "nat idx < length (entry kc2)" by (auto split: if_splits)
  then show ?thesis using pos tb by (auto simp: reuse_key_def word_le_nat_alt word_less_nat_alt tx_def [symmetric])
qed

section \<open>A concrete session\<close>

text \<open>An engine with one-byte tokens, and an empty directory.\<close>

definition sample_api :: "int list session_api" where
  "sample_api = \<lparr>routed_quant_bits = 2, engine_model_id = 1, token_text = (\<lambda>t. [word_of_int t]),
     tokenize_rendered_chat = map uint, session_tokens = Some, session_ctx = (\<lambda>_. 4096),
     stage_payload = (\<lambda>_. Some [9, 9]), load_payload = (\<lambda>_ b n. (True, [104, 105], drop (unat n) b)),
     session_invalidate = (\<lambda>_. [])\<rparr>"

definition small_store :: kv_store where
  "small_store = sample_kv_store\<lparr>opt := kv_store_default_options\<lparr>min_tokens := 1\<rparr>\<rparr>"

definition empty_os :: os where
  "empty_os = sample_os\<lparr>files := []\<rparr>"

lemma sample_text: "checkpoint_text sample_api (Some [104, 105]) 2 None = [104, 105]"
  by (simp add: checkpoint_text_def kv_store_render_tokens_text_def kv_store_tokens_copy_prefix_def sample_api_def)

lemma empty_scan: "scan_dir (empty_os\<lparr>ticks := t\<rparr>) d = []" "scan_dir empty_os d = []"
  by (simp_all add: scan_dir_def os_readdir_def empty_os_def map_filter_simps)

lemma empty_evict: "budget_bytes kc \<noteq> 0 \<Longrightarrow> enabled kc \<Longrightarrow> extra \<le> budget_bytes kc \<Longrightarrow> entry kc = [] \<Longrightarrow>
    kv_store_evict exp2 kc extra ic empty_os = (kc, empty_os\<lparr>ticks := 1\<rparr>)"
  by (simp add: kv_store_evict_def refresh_scan empty_scan os_time_def sum_sizes_def evict_loop.simps)
    (simp add: empty_os_def sample_os_def)

lemma sample_store:
  "\<exists>s'. kv_store_store_live_prefix_text (\<lambda>_. 1) sample_api small_store [104, 105] (Some [104, 105]) 2 (Some ''cold'') None 0 None empty_os
     = (True, small_store, s') \<and> (\<forall>p b. map_of (files s') p = Some b \<longrightarrow> length b = 56)"
proof -
  define path where "path = checkpoint_path small_store [104, 105]"
  let ?h = "kv_store_fill_header 1 2 REASON_COLD 0 2 0 4096 1000 1000 2"
  let ?s = "empty_os\<lparr>files := [(path, ?h @ kv_store_le_put32 2 @ [104, 105] @ [9, 9])], ticks := 2\<rparr>"
  have ex: "kv_cache_existing_compatible small_store empty_os path sha t m q c = (False, empty_os)" for sha t m q c
    by (simp add: kv_cache_existing_compatible_def empty_os_def)
  have ev: "kv_store_evict (\<lambda>_. 1) small_store 56 ic empty_os = (small_store, empty_os\<lparr>ticks := 1\<rparr>)" for ic
    by (rule empty_evict) (simp_all add: small_store_def sample_kv_store_def)
  have fits: "kv_store_file_size_fits (Some (budget_bytes small_store)) 2 2 0 0 0 = (True, 56, 57)"
    by code_simp
  have w: "write_checkpoint sample_api small_store [104, 105] 2 REASON_COLD [104, 105] False 0 None 0 [9, 9]
      (path @ ''.tmp.7'') path (empty_os\<lparr>files := [(path @ ''.tmp.7'', [])], ticks := 1\<rparr>) = (True, ?s)"
    by (simp add: write_checkpoint_def os_time_def fits os_write_at_def file_end_def kv_trailer_write_def os_rename_def
        sample_api_def empty_os_def sample_os_def Let_def)
  have "kv_store_store_live_prefix_text (\<lambda>_. 1) sample_api small_store [104, 105] (Some [104, 105]) 2 (Some ''cold'') None 0 None empty_os
     = (True, small_store, ?s)"
  proof -
    have st: "kv_store_tokens_copy_prefix (Some [104, 105]) 2 = [104, 105]" "ds4_tokens_starts_with [104, 105] [104, 105]"
      "kv_store_render_tokens_text sample_api [104, 105] = [104, 105]" "kv_store_reason_code (Some ''cold'') = REASON_COLD"
      by (simp_all add: kv_store_tokens_copy_prefix_def ds4_tokens_starts_with_def kv_store_render_tokens_text_def sample_api_def
          kv_store_reason_code_def)
    have api: "routed_quant_bits sample_api = 2" "engine_model_id sample_api = 1" "session_tokens sample_api [104, 105] = Some [104, 105]"
      "stage_payload sample_api [104, 105] = Some [9, 9]" by (simp_all add: sample_api_def)
    have kc: "enabled small_store" "min_tokens (opt small_store) = 1" "reject_different_quant small_store = False"
      by (simp_all add: small_store_def sample_kv_store_def)
    have cr: "os_fopen_create (empty_os\<lparr>ticks := 1\<rparr>) (path @ ''.tmp.7'') = Some (empty_os\<lparr>files := [(path @ ''.tmp.7'', [])], ticks := 1\<rparr>)"
      "show_nat (pid (empty_os\<lparr>ticks := 1\<rparr>)) = ''7''"
    proof -
      show "show_nat (pid (empty_os\<lparr>ticks := 1\<rparr>)) = ''7''"
        unfolding empty_os_def sample_os_def os.simps by code_simp
    qed (simp add: os_fopen_create_def empty_os_def sample_os_def)
    show ?thesis
      unfolding kv_store_store_live_prefix_text_def Let_def st api option.case checkpoint_path_def [symmetric]
      using ev fits w cr st(2)
      by (simp add: kc ex path_def [symmetric] kv_trailer_serialized_size_def numeral_2_eq_2)
  qed
  moreover have "\<forall>p b. map_of (files ?s) p = Some b \<longrightarrow> length b = 56" by simp
  ultimately show ?thesis by blast
qed

lemma empty_os_facts: "files empty_os = []" "can_read empty_os p" "opendir_ok empty_os d" "room empty_os p = 1000000"
  by (simp_all add: empty_os_def sample_os_def)

lemma sample_prefix: "kv_store_tokens_copy_prefix (Some [104, 105]) 2 = [104, 105]"
  by (simp add: kv_store_tokens_copy_prefix_def)

theorem store_leaves_checkpoint_witness: "\<exists>s'. holds_checkpoint sample_api small_store [104, 105] [104, 105] s'"
proof -
  obtain s' where r: "kv_store_store_live_prefix_text (\<lambda>_. 1) sample_api small_store [104, 105] (Some [104, 105]) 2
      (Some ''cold'') None 0 None empty_os = (True, small_store, s')" using sample_store by blast
  from store_leaves_checkpoint [OF r] show ?thesis by (auto simp: empty_os_facts sample_prefix sample_text)
qed

theorem stored_then_found_witness:
  "\<exists>s'. 0 \<le> fst (kv_store_find_text_prefix small_store s' (Some [104, 105, 33]) 1 2 4096)"
proof -
  obtain s' where r: "kv_store_store_live_prefix_text (\<lambda>_. 1) sample_api small_store [104, 105] (Some [104, 105]) 2
      (Some ''cold'') None 0 None empty_os = (True, small_store, s')" and l: "\<forall>p b. map_of (files s') p = Some b \<longrightarrow> length b = 56"
    using sample_store by blast
  obtain idx kc2 where f: "kv_store_find_text_prefix small_store s' (Some [104, 105, 33]) (engine_model_id sample_api)
      (routed_quant_bits sample_api) (session_ctx sample_api [104, 105]) = (idx, kc2)" by (meson surj_pair)
  have "0 \<le> idx"
    using stored_then_found [OF r _ _ _ _ _ _ _ _ _ _ _ f] l
    by (simp add: empty_os_facts sample_prefix sample_text small_store_def sample_kv_store_def)
  with f show ?thesis by (auto simp: sample_api_def intro!: exI [of _ s'])
qed

theorem failed_store_atomic_witness:
  "map_of (files (snd (snd (kv_store_store_live_prefix_text (\<lambda>_. 1) sample_api (sample_kv_store\<lparr>enabled := False\<rparr>) [104, 105]
     (Some [104, 105]) 2 (Some ''cold'') None 0 None sample_os)))) (kv_store_path_join ''/kv'' sample_name)
   \<in> {None, map_of (files sample_os) (kv_store_path_join ''/kv'' sample_name)}"
proof -
  have r: "kv_store_store_live_prefix_text (\<lambda>_. 1) sample_api (sample_kv_store\<lparr>enabled := False\<rparr>) [104, 105]
     (Some [104, 105]) 2 (Some ''cold'') None 0 None sample_os = (False, sample_kv_store\<lparr>enabled := False\<rparr>, sample_os)"
    by (simp add: kv_store_store_live_prefix_text_def)
  have d: "dir (sample_kv_store\<lparr>enabled := False\<rparr>) = ''/kv''" by (simp add: sample_kv_store_def)
  from failed_store_atomic [OF r sample_hex(1)] show ?thesis unfolding r d snd_conv .
qed

text \<open>A directory that holds one checkpoint under the hash of its text.\<close>

definition stored_os :: os where
  "stored_os = empty_os\<lparr>files := [(checkpoint_path small_store [104, 105],
     kv_store_fill_header 1 2 REASON_COLD 0 2 0 4096 1000 1000 2 @ kv_store_le_put32 2 @ [104, 105, 9, 9])]\<rparr>"

abbreviation stored_header :: kv_store_entry where
  "stored_header \<equiv> zero_entry\<lparr>quant_bits := 2, reason := REASON_COLD, ext_flags := 0, model_id := 1, tokens := 2, hits := 0,
       ctx_size := 4096, created_at := 1000, last_used := 1000, payload_bytes := 2, text_bytes := 2\<rparr>"

lemma stored_file:
  "map_of (files stored_os) (checkpoint_path small_store [104, 105]) =
     Some (kv_store_fill_header 1 2 REASON_COLD 0 2 0 4096 1000 1000 2 @ kv_store_le_put32 2 @ [104, 105, 9, 9])"
  "kv_store_read_header (kv_store_fill_header 1 2 REASON_COLD 0 2 0 4096 1000 1000 2 @ kv_store_le_put32 2 @ [104, 105, 9, 9]) =
     Some (stored_header, 2, [104, 105, 9, 9])"
  using read_fill_header [of 2 2 1 REASON_COLD 0 0 4096 1000 1000 2 2 "[104, 105, 9, 9]"] by (simp_all add: stored_os_def)

lemma stored_scan: "scan_dir stored_os ''/kv'' =
    [stored_header\<lparr>e_sha := kv_store_sha1_bytes_hex [104, 105], e_path := checkpoint_path small_store [104, 105], file_size := 56\<rparr>]"
proof -
  let ?n = "kv_store_sha1_bytes_hex [104, 105] @ ''.kv''"
  have p: "checkpoint_path small_store [104, 105] = kv_store_path_join ''/kv'' ?n"
    by (simp add: checkpoint_path_join small_store_def sample_kv_store_def)
  have "name_in ''/kv'' (kv_store_path_join ''/kv'' ?n) = Some ?n"
    using sha_name_no_slash [of "[104, 105]"] by (simp add: name_in_Some)
  then have "os_readdir stored_os ''/kv'' = [?n]" by (simp add: os_readdir_def stored_os_def p map_filter_simps)
  moreover have "kv_store_read_entry_file stored_os (checkpoint_path small_store [104, 105]) (kv_store_sha1_bytes_hex [104, 105]) =
      Some (stored_header\<lparr>e_sha := kv_store_sha1_bytes_hex [104, 105], e_path := checkpoint_path small_store [104, 105], file_size := 56\<rparr>)"
    unfolding kv_store_read_entry_file_def os_fopen_read_def stored_file(1) option.case
    by (simp add: stored_file(2)) (simp add: stored_os_def empty_os_def sample_os_def)
  ultimately show ?thesis
    by (simp add: scan_dir_def map_filter_simps scan_name_def sha_hex_name_sha1 p stored_os_def empty_os_facts)
qed

lemma stored_find: "kv_store_find_text_prefix small_store stored_os (Some [104, 105, 33]) 1 2 4096 =
    (0, small_store\<lparr>entry := scan_dir stored_os ''/kv''\<rparr>)"
proof -
  have "enabled small_store" "dir small_store = ''/kv''" by (simp_all add: small_store_def sample_kv_store_def)
  then show ?thesis
    by (simp add: kv_store_find_text_prefix_def refresh_scan stored_scan find_step_alt usable_def)
      (simp add: small_store_def sample_kv_store_def zero_entry_def)
qed

lemma stored_load: "loaded (kv_store_try_load_text sample_api small_store [] (Some [104, 105, 33]) None stored_os) = 2"
proof -
  have api: "engine_model_id sample_api = 1" "routed_quant_bits sample_api = 2" "session_ctx sample_api [] = 4096" by (simp_all add: sample_api_def)
  have en: "enabled small_store" by (simp add: small_store_def sample_kv_store_def)
  have rd: "os_fopen_read stored_os (checkpoint_path small_store [104, 105]) =
      Some (kv_store_fill_header 1 2 REASON_COLD 0 2 0 4096 1000 1000 2 @ kv_store_le_put32 2 @ [104, 105, 9, 9])"
    using stored_file(1) by (simp add: os_fopen_read_def stored_os_def empty_os_def sample_os_def)
  have hd: "load_header (kv_store_fill_header 1 2 REASON_COLD 0 2 0 4096 1000 1000 2 @ kv_store_le_put32 2 @ [104, 105, 9, 9])
      (kv_store_sha1_bytes_hex [104, 105]) 1 [104, 105, 33] = Some (stored_header, 2, [9, 9])"
    by (simp add: load_header_def stored_file(2) kv_store_byte_prefix_match_def Let_def)
  show ?thesis unfolding kv_store_try_load_text_def Let_def api option.case stored_find prod.case
    by (simp add: en stored_scan rd hd sample_api_def)
qed

theorem load_hit_extends_prefix_witness:
  "\<exists>path. r_path (l_result (kv_store_try_load_text sample_api small_store [] (Some [104, 105, 33]) None stored_os)) = Some path"
  using load_hit_extends_prefix [of sample_api small_store "[]" "[104, 105, 33]" None stored_os, OF refl] stored_load by auto

theorem load_miss_harmless_witness:
  "l_session (kv_store_try_load_text sample_api small_store [7] (Some [104]) None empty_os) = [7] \<or>
   l_session (kv_store_try_load_text sample_api small_store [7] (Some [104]) None empty_os) = []"
proof -
  have en: "enabled small_store" by (simp add: small_store_def sample_kv_store_def)
  have f: "kv_store_find_text_prefix small_store empty_os (Some [104]) m q c = (-1, small_store\<lparr>entry := []\<rparr>)" for m q c
    using en by (simp add: kv_store_find_text_prefix_def refresh_scan empty_scan)
  have "loaded (kv_store_try_load_text sample_api small_store [7] (Some [104]) None empty_os) = 0"
    unfolding kv_store_try_load_text_def Let_def option.case f prod.case by simp
  from load_miss_harmless [OF refl this] show ?thesis by (auto simp: sample_api_def)
qed

end
