(* ===== verification/Json.thy ===== *)
theory Json
  imports Double "HOL-Library.Char_ord"
begin

text \<open>
  The JSON scanner of \<^verbatim>\<open>server.c\<close>.  A cursor \<^verbatim>\<open>const char **p\<close> is the remaining suffix of the
  C string; a scanner returns its value and the cursor after it, and \<^const>\<open>None\<close> when the C
  function returns false (its callers then give up, so the cursor is not looked at again).  The
  character at the cursor is \<open>peek\<close>, so an embedded NUL ends the text as it does in C.
\<close>

section \<open>Cursor primitives\<close>

definition json_ws :: "string \<Rightarrow> string" where
  "json_ws p = skip_space p"

definition json_lit :: "string \<Rightarrow> string \<Rightarrow> string option" where
  "json_lit p lit = (if take (length lit) p = lit then Some (drop (length lit) p) else None)"

definition json_hex :: "char \<Rightarrow> int" where
  "json_hex c =
     (if CHR ''0'' \<le> c \<and> c \<le> CHR ''9'' then int (of_char c) - 48
      else if CHR ''a'' \<le> c \<and> c \<le> CHR ''f'' then 10 + int (of_char c) - 97
      else if CHR ''A'' \<le> c \<and> c \<le> CHR ''F'' then 10 + int (of_char c) - 65
      else -1)"

section \<open>Strings\<close>

text \<open>The bytes \<^verbatim>\<open>utf8_put\<close> appends for a code point.\<close>

definition byte_chr :: "u32 \<Rightarrow> char" where
  "byte_chr w = char_of (unat w mod 256)"

definition utf8_put :: "u32 \<Rightarrow> string" where
  "utf8_put cp0 =
     (let cp = (if cp0 > 0x10ffff \<or> (cp0 \<ge> 0xd800 \<and> cp0 \<le> 0xdfff) then 0xfffd else cp0) in
      if cp \<le> 0x7f then [byte_chr cp]
      else if cp \<le> 0x7ff then [byte_chr (0xc0 OR drop_bit 6 cp), byte_chr (0x80 OR (cp AND 0x3f))]
      else if cp \<le> 0xffff then
        [byte_chr (0xe0 OR drop_bit 12 cp), byte_chr (0x80 OR (drop_bit 6 cp AND 0x3f)), byte_chr (0x80 OR (cp AND 0x3f))]
      else
        [byte_chr (0xf0 OR drop_bit 18 cp), byte_chr (0x80 OR (drop_bit 12 cp AND 0x3f)),
         byte_chr (0x80 OR (drop_bit 6 cp AND 0x3f)), byte_chr (0x80 OR (cp AND 0x3f))])"

text \<open>Reading a character at an offset; past the end it is the terminating NUL.\<close>

definition chr_at :: "string \<Rightarrow> nat \<Rightarrow> char" where
  "chr_at p i = peek (drop i p)"

text \<open>The four digits are read one by one, so a NUL stops the scan before anything past it is read.\<close>

definition json_u16 :: "string \<Rightarrow> (u32 \<times> string) option" where
  "json_u16 p =
     (if chr_at p 0 \<noteq> CHR 0x5C \<or> chr_at p 1 \<noteq> CHR ''u'' then None
      else (let hs = map (\<lambda>i. json_hex (chr_at p (2 + i))) [0, 1, 2, 3] in
        if \<exists>h \<in> set hs. h < 0 then None
        else Some (foldl (\<lambda>cp h. push_bit 4 cp OR word_of_int h) 0 hs, drop 6 p)))"

lemma json_u16_length: "json_u16 p = Some (v, r) \<Longrightarrow> length r < length p"
  by (cases p) (auto simp: json_u16_def chr_at_def split: if_splits)

text \<open>The value of a \<^verbatim>\<open>\u\<close> escape at the cursor, with its low surrogate if there is one.\<close>

definition json_escape_u :: "string \<Rightarrow> (u32 \<times> string) option" where
  "json_escape_u p =
     (case json_u16 p of None \<Rightarrow> None | Some (cp, q) \<Rightarrow>
        if cp \<ge> 0xd800 \<and> cp \<le> 0xdbff then
          (case json_u16 q of
             Some (lo, q2) \<Rightarrow> if lo \<ge> 0xdc00 \<and> lo \<le> 0xdfff
               then Some (0x10000 + push_bit 10 (cp - 0xd800) + (lo - 0xdc00), q2)
               else Some (0xfffd, q)
           | None \<Rightarrow> Some (0xfffd, q))
        else Some (cp, q))"

lemma json_escape_u_length: "json_escape_u p = Some (v, r) \<Longrightarrow> length r < length p"
  by (auto simp: json_escape_u_def split: option.splits if_splits dest!: json_u16_length)

definition simple_escape :: "char \<Rightarrow> char option" where
  "simple_escape c =
     (if c = CHR 0x22 then Some (CHR 0x22)
      else if c = CHR 0x5C then Some (CHR 0x5C)
      else if c = CHR ''/'' then Some (CHR ''/'')
      else if c = CHR ''b'' then Some (CHR 0x08)
      else if c = CHR ''f'' then Some (CHR 0x0C)
      else if c = CHR ''n'' then Some (CHR 0x0A)
      else if c = CHR ''r'' then Some (CHR 0x0D)
      else if c = CHR ''t'' then Some (CHR 0x09)
      else None)"

function json_string_loop :: "string \<Rightarrow> string \<Rightarrow> (string \<times> string) option" where
  "json_string_loop b p =
     (if peek p = NUL then None
      else if peek p = CHR 0x22 then Some (b, tl p)
      else if peek p \<noteq> CHR 0x5C then json_string_loop (b @ [peek p]) (tl p)
      else if chr_at p 1 = CHR ''u'' then
        (case json_escape_u p of None \<Rightarrow> None
         | Some (cp, q) \<Rightarrow> json_string_loop (b @ utf8_put cp) q)
      else (case simple_escape (chr_at p 1) of None \<Rightarrow> None
         | Some c \<Rightarrow> json_string_loop (b @ [c]) (drop 2 p)))"
  by pat_completeness auto

termination json_string_loop
proof (relation "measure (\<lambda>(_, p). length p)")
  fix b p x2 y cp q
  assume "json_escape_u p = Some x2" "(cp, q) = x2"
  then show "((b @ utf8_put cp, q), b, p) \<in> measure (\<lambda>(_, p). length p)"
    using json_escape_u_length by fastforce
qed (auto simp: peek_def split: list.splits)

declare json_string_loop.simps [simp del]

definition json_string :: "string \<Rightarrow> (string \<times> string) option" where
  "json_string p0 = (let p = json_ws p0 in if peek p \<noteq> CHR 0x22 then None else json_string_loop [] (tl p))"

section \<open>Numbers and booleans\<close>

text \<open>
  \<^verbatim>\<open>strtod\<close>: the value of the longest prefix that is a number (decimal, hexadecimal, infinity or
  NaN) and the rest.  The exponent range is unbounded here; a value too large or too small for a
  double clamps or truncates to the same integer.
\<close>

datatype dbl = NaN | Inf bool | Fin bool rat

definition hex_digit_val :: "char \<Rightarrow> nat" where
  "hex_digit_val c = nat (json_hex c)"

definition frac_value :: "nat \<Rightarrow> (char \<Rightarrow> nat) \<Rightarrow> string \<Rightarrow> string \<Rightarrow> rat" where
  "frac_value base dig whole fdigs =
     of_nat (foldl (\<lambda>v c. base * v + dig c) 0 (whole @ fdigs)) / of_nat (base ^ length fdigs)"

text \<open>An exponent after its letter: optional sign and at least one digit.\<close>

definition strtod_exp :: "char list \<Rightarrow> string \<Rightarrow> int \<times> string" where
  "strtod_exp letters p =
     (if peek p \<in> set letters then
        (let q = tl p; neg = (peek q = CHR ''-'');
             q1 = (if peek q = CHR ''-'' \<or> peek q = CHR ''+'' then tl q else q);
             ds = takeWhile isdigit q1
         in if ds = [] then (0, p)
            else ((if neg then - int (dec_value ds) else int (dec_value ds)), dropWhile isdigit q1))
      else (0, p))"

definition rat_pow :: "rat \<Rightarrow> int \<Rightarrow> rat" where
  "rat_pow b e = (if e \<ge> 0 then b ^ nat e else 1 / b ^ nat (- e))"

definition strtod_number :: "string \<Rightarrow> (rat \<times> string) option" where
  "strtod_number p =
     (let hex = (peek p = CHR ''0'' \<and> (chr_at p 1 = CHR ''x'' \<or> chr_at p 1 = CHR ''X'') \<and>
                 (isxdigit (chr_at p 2) \<or> (chr_at p 2 = CHR ''.'' \<and> isxdigit (chr_at p 3))));
          isd = (if hex then isxdigit else isdigit);
          q = (if hex then drop 2 p else p);
          whole = takeWhile isd q; q1 = dropWhile isd q;
          fdigs = (if peek q1 = CHR ''.'' then takeWhile isd (tl q1) else []);
          q2 = (if peek q1 = CHR ''.'' then dropWhile isd (tl q1) else q1)
      in if whole = [] \<and> fdigs = [] then None
         else if hex then (case strtod_exp ''pP'' q2 of (e, r) \<Rightarrow> Some (frac_value 16 hex_digit_val whole fdigs * rat_pow 2 e, r))
         else (case strtod_exp ''eE'' q2 of (e, r) \<Rightarrow> Some (frac_value 10 digit_val whole fdigs * rat_pow 10 e, r)))"

definition nan_tail :: "string \<Rightarrow> string" where
  "nan_tail p =
     (if peek p = CHR ''('' then
        (let q = dropWhile (\<lambda>c. isdigit c \<or> isupper c \<or> isupper (char_of (of_char c - (32 :: nat))) \<or> c = CHR ''_'') (tl p)
         in if peek q = CHR '')'' then tl q else p)
      else p)"

definition strtod :: "string \<Rightarrow> (dbl \<times> string) option" where
  "strtod s =
     (let t = skip_space s; neg = (peek t = CHR ''-'');
          u = (if peek t = CHR ''-'' \<or> peek t = CHR ''+'' then tl t else t)
      in if has_prefix_nocase ''infinity'' u then Some (Inf neg, drop 8 u)
         else if has_prefix_nocase ''inf'' u then Some (Inf neg, drop 3 u)
         else if has_prefix_nocase ''nan'' u then Some (NaN, nan_tail (drop 3 u))
         else (case strtod_number u of None \<Rightarrow> None | Some (v, r) \<Rightarrow> Some (Fin neg (fl v), r)))"

definition json_number :: "string \<Rightarrow> (dbl \<times> string) option" where
  "json_number p = strtod (json_ws p)"

text \<open>The clamps of \<^verbatim>\<open>json_int\<close>: NaN and negative numbers become 0, large ones \<^verbatim>\<open>INT_MAX\<close>.\<close>

definition json_clamp_int :: "dbl \<Rightarrow> int" where
  "json_clamp_int v =
     (case v of NaN \<Rightarrow> 0
      | Inf neg \<Rightarrow> if neg then 0 else INT_MAX
      | Fin neg q \<Rightarrow> if neg \<or> q \<le> 0 then 0 else if q > of_int INT_MAX then INT_MAX else \<lfloor>q\<rfloor>)"

definition json_int :: "string \<Rightarrow> (int \<times> string) option" where
  "json_int p = (case json_number p of None \<Rightarrow> None | Some (v, r) \<Rightarrow> Some (json_clamp_int v, r))"

definition json_bool :: "string \<Rightarrow> (bool \<times> string) option" where
  "json_bool p0 = (let p = json_ws p0 in
     case json_lit p ''true'' of Some r \<Rightarrow> Some (True, r)
     | None \<Rightarrow> (case json_lit p ''false'' of Some r \<Rightarrow> Some (False, r) | None \<Rightarrow> None))"

section \<open>Scanners consume input\<close>

lemma suffix_tl: "suffix (tl t) t"
  by (cases t) (auto simp: suffix_def)

lemma length_json_ws: "length (json_ws p) \<le> length p"
  by (simp add: json_ws_def length_skip_space)

lemma json_string_loop_length: "json_string_loop b p = Some (s, r) \<Longrightarrow> length r < length p"
proof (induction b p rule: json_string_loop.induct)
  case (1 b p)
  show ?case
  proof (cases "peek p = NUL \<or> peek p = CHR 0x22 \<or> peek p \<noteq> CHR 0x5C")
    case True
    then show ?thesis using 1(1) 1(4) [unfolded json_string_loop.simps [of b p]]
      by (cases p) (auto split: if_splits dest: less_SucI)
  next
    case False
    show ?thesis
    proof (cases "chr_at p 1 = CHR ''u''")
      case True
      then obtain cp q where q: "json_escape_u p = Some (cp, q)" "json_string_loop (b @ utf8_put cp) q = Some (s, r)"
        using 1(4) False by (auto simp: json_string_loop.simps [of b p] split: option.splits)
      then show ?thesis using 1(2) [of "(cp, q)" cp q] json_escape_u_length [OF q(1)] False True by auto
    next
      case u: False
      then obtain c where c: "simple_escape (chr_at p 1) = Some c" "json_string_loop (b @ [c]) (drop 2 p) = Some (s, r)"
        using 1(4) False by (auto simp: json_string_loop.simps [of b p] split: option.splits)
      then show ?thesis using 1(3) [of c] False u by auto
    qed
  qed
qed

lemma json_string_length: "json_string p = Some (s, r) \<Longrightarrow> length r < length p"
  using length_json_ws [of p] by (auto simp: json_string_def Let_def split: if_splits dest!: json_string_loop_length)

lemma json_lit_length: "json_lit p lit = Some r \<Longrightarrow> lit \<noteq> [] \<Longrightarrow> length r < length p"
  by (cases p) (auto simp: json_lit_def split: if_splits)

lemma length_drop_nocase: "has_prefix_nocase lit u \<Longrightarrow> lit \<noteq> [] \<Longrightarrow> 0 < n \<Longrightarrow> length (drop n u) < length u"
  by (cases u) (auto simp: has_prefix_nocase_def)

lemma length_nan_tail: "length (nan_tail p) \<le> length p"
proof -
  have "length (tl (dropWhile P (tl p))) \<le> length p" for P
    using length_dropWhile_le [of P "tl p"] by simp
  then show ?thesis by (simp add: nan_tail_def Let_def)
qed

lemma strtod_exp_length: "strtod_exp ls p = (e, r) \<Longrightarrow> length r \<le> length p"
proof -
  have "length (dropWhile isdigit (tl (tl p))) \<le> length p" "length (dropWhile isdigit (tl p)) \<le> length p"
    using length_dropWhile_le [of isdigit "tl (tl p)"] length_dropWhile_le [of isdigit "tl p"] by auto
  then show "strtod_exp ls p = (e, r) \<Longrightarrow> length r \<le> length p"
    by (auto simp: strtod_exp_def Let_def split: if_splits)
qed

lemma digits_consumed:
  assumes "\<not> (takeWhile P q = [] \<and> (if peek (dropWhile P q) = CHR ''.'' then takeWhile P (tl (dropWhile P q)) else []) = [])"
  shows "length (if peek (dropWhile P q) = CHR ''.'' then dropWhile P (tl (dropWhile P q)) else dropWhile P q) < length q"
proof -
  have l: "length (takeWhile P q) + length (dropWhile P q) = length q" by (metis length_append takeWhile_dropWhile_id)
  have m: "length (dropWhile P (tl (dropWhile P q))) \<le> length (tl (dropWhile P q))" by (rule length_dropWhile_le)
  show ?thesis
  proof (cases "peek (dropWhile P q) = CHR ''.''")
    case True
    then obtain t where t: "dropWhile P q = CHR ''.'' # t" by (cases "dropWhile P q") auto
    with l have "length t < length q" by simp
    with True m show ?thesis by (simp add: t)
  qed (use assms l in \<open>auto simp flip: length_greater_0_conv\<close>)
qed

lemma strtod_number_length: "strtod_number u = Some (v, r) \<Longrightarrow> length r < length u"
proof -
  define hex where "hex \<longleftrightarrow> peek u = CHR ''0'' \<and> (chr_at u 1 = CHR ''x'' \<or> chr_at u 1 = CHR ''X'') \<and>
                 (isxdigit (chr_at u 2) \<or> (chr_at u 2 = CHR ''.'' \<and> isxdigit (chr_at u 3)))"
  define P where "P = (if hex then isxdigit else isdigit)"
  define q where "q = (if hex then drop 2 u else u)"
  assume a: "strtod_number u = Some (v, r)"
  note D = a [unfolded strtod_number_def Let_def, folded hex_def, folded P_def q_def]
  have "\<not> (takeWhile P q = [] \<and> (if peek (dropWhile P q) = CHR ''.'' then takeWhile P (tl (dropWhile P q)) else []) = [])"
    using D by (auto split: if_splits)
  from digits_consumed [OF this] show "length r < length u"
    using D by (auto simp: q_def split: if_splits prod.splits dest!: strtod_exp_length)
qed

lemma json_number_length: "json_number p = Some (v, r) \<Longrightarrow> length r < length p"
proof -
  assume a: "json_number p = Some (v, r)"
  let ?t = "skip_space (json_ws p)"
  let ?u = "if peek ?t = CHR ''-'' \<or> peek ?t = CHR ''+'' then tl ?t else ?t"
  have u: "length ?u \<le> length p" using length_skip_space [of "json_ws p"] length_json_ws [of p] by auto
  have "length r < length ?u"
    using a length_drop_nocase [of "''infinity''" ?u 8] length_drop_nocase [of "''inf''" ?u 3] length_drop_nocase [of "''nan''" ?u 3]
      length_nan_tail [of "drop 3 ?u"] strtod_number_length [of ?u]
    unfolding json_number_def strtod_def Let_def by (fastforce split: if_splits option.splits)
  with u show "length r < length p" by simp
qed

section \<open>Skipping values\<close>

abbreviation JSON_MAX_NESTING :: nat where "JSON_MAX_NESTING \<equiv> 256"

text \<open>
  The two loops are functions of their own: \<open>json_array_items\<close> starts at an element,
  \<open>json_object_items\<close> at a key.
\<close>

function (domintros) json_skip_value_depth :: "nat \<Rightarrow> string \<Rightarrow> string option"
  and json_skip_array_depth :: "nat \<Rightarrow> string \<Rightarrow> string option"
  and json_array_items :: "nat \<Rightarrow> string \<Rightarrow> string option"
  and json_skip_object_depth :: "nat \<Rightarrow> string \<Rightarrow> string option"
  and json_object_items :: "nat \<Rightarrow> string \<Rightarrow> string option" where
  "json_skip_value_depth depth p0 =
     (let p = json_ws p0 in
      if peek p = CHR 0x22 then map_option snd (json_string p)
      else if peek p = CHR ''{'' then json_skip_object_depth depth p
      else if peek p = CHR ''['' then json_skip_array_depth depth p
      else (case json_lit p ''true'' of Some r \<Rightarrow> Some r | None \<Rightarrow>
            (case json_lit p ''false'' of Some r \<Rightarrow> Some r | None \<Rightarrow>
            (case json_lit p ''null'' of Some r \<Rightarrow> Some r | None \<Rightarrow> map_option snd (json_number p)))))"
| "json_skip_array_depth depth p0 =
     (if depth \<ge> JSON_MAX_NESTING then None
      else (let p = json_ws p0 in
        if peek p \<noteq> CHR ''['' then None
        else (let q = json_ws (tl p) in
          if peek q = CHR '']'' then Some (tl q) else json_array_items depth q)))"
| "json_array_items depth p =
     (case json_skip_value_depth (depth + 1) p of None \<Rightarrow> None | Some r \<Rightarrow>
        (let q = json_ws r in
         if peek q = CHR '']'' then Some (tl q)
         else if peek q \<noteq> CHR '','' then None
         else json_array_items depth (tl q)))"
| "json_skip_object_depth depth p0 =
     (if depth \<ge> JSON_MAX_NESTING then None
      else (let p = json_ws p0 in
        if peek p \<noteq> CHR ''{'' then None
        else (let q = json_ws (tl p) in
          if peek q = CHR ''}'' then Some (tl q) else json_object_items depth q)))"
| "json_object_items depth p =
     (case json_string p of None \<Rightarrow> None | Some (key, r0) \<Rightarrow>
        (let k = json_ws r0 in
         if peek k \<noteq> CHR '':'' then None
         else (case json_skip_value_depth (depth + 1) (tl k) of None \<Rightarrow> None | Some r \<Rightarrow>
           (let q = json_ws r in
            if peek q = CHR ''}'' then Some (tl q)
            else if peek q \<noteq> CHR '','' then None
            else json_object_items depth (tl q)))))"
  by pat_completeness auto

abbreviation skip_dom where "skip_dom \<equiv> json_skip_value_depth_json_skip_array_depth_json_array_items_json_skip_object_depth_json_object_items_dom"

lemma length_tl_ws: "length (tl (json_ws r)) \<le> length r"
  using length_json_ws [of r] by simp

lemma skip_consumes:
  "skip_dom (Inl (Inl (d1, p1))) \<Longrightarrow> (\<forall>r. json_skip_value_depth d1 p1 = Some r \<longrightarrow> length r < length p1)"
  "skip_dom (Inl (Inr (d2, p2))) \<Longrightarrow> (\<forall>r. json_skip_array_depth d2 p2 = Some r \<longrightarrow> length r < length p2)"
  "skip_dom (Inr (Inl (d3, p3))) \<Longrightarrow> (\<forall>r. json_array_items d3 p3 = Some r \<longrightarrow> length r < length p3)"
  "skip_dom (Inr (Inr (Inl (d4, p4)))) \<Longrightarrow> (\<forall>r. json_skip_object_depth d4 p4 = Some r \<longrightarrow> length r < length p4)"
  "skip_dom (Inr (Inr (Inr (d5, p5)))) \<Longrightarrow> (\<forall>r. json_object_items d5 p5 = Some r \<longrightarrow> length r < length p5)"
proof (induction d1 p1 and d2 p2 and d3 p3 and d4 p4 and d5 p5
    rule: json_skip_value_depth_json_skip_array_depth_json_array_items_json_skip_object_depth_json_object_items.pinduct)
  case (1 d p)
  have len: "length (json_ws p) \<le> length p" by (rule length_json_ws)
  have "length r < length (json_ws p)" if "json_skip_value_depth d p = Some r" for r
    using that 1(2) [OF refl] 1(3) [OF refl] unfolding json_skip_value_depth.psimps [OF 1(1)] Let_def
    by (auto split: if_splits option.splits dest: json_string_length json_number_length json_lit_length)
  with len show ?case by fastforce
next
  case (2 d p)
  have "length r < length p" if "json_skip_array_depth d p = Some r" for r
    using that 2(2) [OF _ refl _ refl] length_json_ws [of "tl (json_ws p)"] length_json_ws [of p]
    unfolding json_skip_array_depth.psimps [OF 2(1)] Let_def
    by (cases "json_ws p") (auto split: if_splits)
  then show ?case by blast
next
  case (3 d p)
  have "length r < length p" if a: "json_array_items d p = Some r" for r
  proof -
    obtain v where v: "json_skip_value_depth (d + 1) p = Some v"
      using a unfolding json_array_items.psimps [OF 3(1)] by (auto split: option.splits)
    have "length v < length p" using 3(2) v by blast
    then show ?thesis using a 3(3) [OF v refl] length_tl_ws [of v]
      unfolding json_array_items.psimps [OF 3(1)] v option.case Let_def by (auto split: if_splits)
  qed
  then show ?case by blast
next
  case (4 d p)
  have "length r < length p" if "json_skip_object_depth d p = Some r" for r
    using that 4(2) [OF _ refl _ refl] length_json_ws [of "tl (json_ws p)"] length_json_ws [of p]
    unfolding json_skip_object_depth.psimps [OF 4(1)] Let_def
    by (cases "json_ws p") (auto split: if_splits)
  then show ?case by blast
next
  case (5 d p)
  have "length r < length p" if a: "json_object_items d p = Some r" for r
  proof -
    obtain key k where k: "json_string p = Some (key, k)" "peek (json_ws k) = CHR '':''"
      using a unfolding json_object_items.psimps [OF 5(1)] Let_def by (auto split: option.splits if_splits)
    obtain v where v: "json_skip_value_depth (d + 1) (tl (json_ws k)) = Some v"
      using a k unfolding json_object_items.psimps [OF 5(1)] Let_def by (auto split: option.splits if_splits)
    have "length v < length (tl (json_ws k))" using 5(2) [OF k(1) refl refl] k(2) v by blast
    moreover have "length k < length p" using json_string_length [OF k(1)] .
    ultimately have "length v < length p" using length_tl_ws [of k] by simp
    then show ?thesis using a 5(3) [OF k(1) refl refl _ v refl] k length_tl_ws [of v]
      unfolding json_object_items.psimps [OF 5(1)] k v option.case prod.case Let_def by (auto split: if_splits)
  qed
  then show ?case by blast
qed

lemma peek_tl_length: "peek q = c \<Longrightarrow> c \<noteq> NUL \<Longrightarrow> Suc (length (tl q)) = length q"
  by (cases q) auto

lemma ws_tl_less: "peek (json_ws p) = c \<Longrightarrow> c \<noteq> NUL \<Longrightarrow> length (json_ws (tl (json_ws p))) < length p"
  using length_json_ws [of "tl (json_ws p)"] length_json_ws [of p] peek_tl_length [of "json_ws p" c] by linarith

lemma tl_ws_less: "peek (json_ws p) = c \<Longrightarrow> c \<noteq> NUL \<Longrightarrow> length (tl (json_ws p)) < length p"
  using length_json_ws [of p] peek_tl_length [of "json_ws p" c] by linarith

lemma ws_pred: "length (json_ws r) - Suc 0 \<le> length r"
  using length_json_ws [of r] by simp

lemma array_step_less:
  assumes "json_skip_value_depth (Suc d) p = Some x" and "skip_dom (Inl (Inl (Suc d, p)))"
  shows "length (json_ws x) - Suc 0 < length p"
proof -
  have "length x < length p" using skip_consumes(1) assms by blast
  then show ?thesis using ws_pred [of x] by simp
qed

lemma key_step_less: "json_string p = Some (a, b) \<Longrightarrow> length (json_ws b) - Suc 0 < length p"
  using json_string_length [of p a b] ws_pred [of b] by simp

lemma object_step_less:
  assumes "json_string p = Some (a, b)" and "json_skip_value_depth (Suc d) (tl (json_ws b)) = Some x"
    and "skip_dom (Inl (Inl (Suc d, tl (json_ws b))))"
  shows "length (json_ws x) - Suc 0 < length p"
  using array_step_less [OF assms(2,3)] key_step_less [OF assms(1)] by simp

definition skip_measure :: "((nat \<times> string) + (nat \<times> string)) + (nat \<times> string) + (nat \<times> string) + (nat \<times> string) \<Rightarrow> nat" where
  "skip_measure x = (case x of
      Inl (Inl (d, p)) \<Rightarrow> 4 * length p + 2 | Inl (Inr (d, p)) \<Rightarrow> 4 * length p + 1
    | Inr (Inl (d, p)) \<Rightarrow> 4 * length p + 3 | Inr (Inr (Inl (d, p))) \<Rightarrow> 4 * length p + 1
    | Inr (Inr (Inr (d, p))) \<Rightarrow> 4 * length p + 3)"

lemmas skip_decreases = skip_measure_def length_json_ws less_Suc_eq_le

lemma skip_total: "skip_dom x"
proof (induction x rule: measure_induct_rule [of skip_measure])
  case (less x)
  consider (v) d p where "x = Inl (Inl (d, p))" | (a) d p where "x = Inl (Inr (d, p))" | (i) d p where "x = Inr (Inl (d, p))"
    | (k) d p where "x = Inr (Inr (Inl (d, p)))" | (j) d p where "x = Inr (Inr (Inr (d, p)))"
    by (metis sum.exhaust surj_pair)
  then show ?case
  proof cases
    case v
    show ?thesis unfolding v
      by (rule json_skip_value_depth_json_skip_array_depth_json_array_items_json_skip_object_depth_json_object_items.domintros(1);
          rule less; simp add: v skip_decreases)
  next
    case a
    show ?thesis unfolding a
      by (rule json_skip_value_depth_json_skip_array_depth_json_array_items_json_skip_object_depth_json_object_items.domintros(2))
        (rule less, use ws_tl_less in \<open>fastforce simp: a skip_decreases\<close>)
  next
    case i
    have dv: "skip_dom (Inl (Inl (d + 1, p)))" by (rule less) (simp add: i skip_measure_def)
    show ?thesis unfolding i
      by (rule json_skip_value_depth_json_skip_array_depth_json_array_items_json_skip_object_depth_json_object_items.domintros(3))
        (use dv array_step_less in \<open>fastforce intro!: less simp: i skip_decreases\<close>)+
  next
    case k
    show ?thesis unfolding k
      by (rule json_skip_value_depth_json_skip_array_depth_json_array_items_json_skip_object_depth_json_object_items.domintros(4))
        (rule less, use ws_tl_less in \<open>fastforce simp: k skip_decreases\<close>)
  next
    case j
    have dv: "skip_dom (Inl (Inl (Suc d, tl (json_ws b))))" if "json_string p = Some (a, b)" for a b
      using key_step_less [OF that] by (intro less) (simp add: j skip_measure_def)
    show ?thesis unfolding j
      by (rule json_skip_value_depth_json_skip_array_depth_json_array_items_json_skip_object_depth_json_object_items.domintros(5))
        (use dv key_step_less object_step_less in \<open>fastforce intro!: less simp: j skip_decreases\<close>)+
  qed
qed

termination json_skip_value_depth
  using skip_total by blast

declare json_skip_value_depth.simps [simp del] json_skip_array_depth.simps [simp del] json_array_items.simps [simp del]
  json_skip_object_depth.simps [simp del] json_object_items.simps [simp del]

definition json_skip_value :: "string \<Rightarrow> string option" where
  "json_skip_value p = json_skip_value_depth 0 p"

text \<open>Since the recursion ends, the consumption facts hold without the domain condition.\<close>

lemma skip_shorter:
  "(\<forall>r. json_skip_value_depth d1 p1 = Some r \<longrightarrow> length r < length p1)"
  "(\<forall>r. json_skip_array_depth d2 p2 = Some r \<longrightarrow> length r < length p2)"
  "(\<forall>r. json_array_items d3 p3 = Some r \<longrightarrow> length r < length p3)"
  "(\<forall>r. json_skip_object_depth d4 p4 = Some r \<longrightarrow> length r < length p4)"
  "(\<forall>r. json_object_items d5 p5 = Some r \<longrightarrow> length r < length p5)"
  by (rule skip_consumes; rule skip_total)+

lemma json_skip_value_length: "json_skip_value p = Some r \<Longrightarrow> length r < length p"
  using skip_shorter(1) by (simp add: json_skip_value_def)

definition json_raw_value :: "string \<Rightarrow> (string \<times> string) option" where
  "json_raw_value p0 = (let start = json_ws p0 in
     case json_skip_value start of None \<Rightarrow> None
     | Some p \<Rightarrow> Some (take (length start - length p) start, p))"

text \<open>The copy loop of the minifier: characters outside strings are kept unless they are white space.\<close>

fun minify_loop :: "bool \<Rightarrow> bool \<Rightarrow> string \<Rightarrow> string" where
  "minify_loop in_string escape [] = []"
| "minify_loop in_string escape (c # s) =
     (if in_string then
        c # (if escape then minify_loop True False s
             else if c = CHR 0x5C then minify_loop True True s
             else if c = CHR 0x22 then minify_loop False False s
             else minify_loop True False s)
      else if c = CHR 0x22 then c # minify_loop True escape s
      else if \<not> isspace c then c # minify_loop False escape s
      else minify_loop False escape s)"

definition json_minify_raw_value :: "string option \<Rightarrow> string" where
  "json_minify_raw_value json =
     (let text0 = (case json of None \<Rightarrow> ''null'' | Some j \<Rightarrow> j); start = json_ws text0 in
      case json_skip_value start of None \<Rightarrow> text0
      | Some stop \<Rightarrow> minify_loop False False (take (length start - length stop) start))"

section \<open>Message content\<close>

text \<open>
  The loops of \<^verbatim>\<open>json_content\<close>: \<open>content_fields\<close> runs over the members of one content part and
  \<open>content_parts\<close> over the parts of an array, both collecting the text.  \<^verbatim>\<open>buf_puts\<close> stops at a
  NUL, so what is appended is \<open>cstr s\<close>.
\<close>

definition json_comma :: "string \<Rightarrow> string" where
  "json_comma p0 = (let p = json_ws p0 in json_ws (if peek p = CHR '','' then tl p else p))"

lemma length_json_comma: "length (json_comma p) \<le> length p"
  using length_json_ws [of p] length_json_ws [of "json_ws p"] length_json_ws [of "tl (json_ws p)"]
  by (auto simp: json_comma_def Let_def)

function content_fields :: "string \<Rightarrow> string \<Rightarrow> (string \<times> string) option" where
  "content_fields b p =
     (if peek p = NUL then None
      else if peek p = CHR ''}'' then Some (b, tl p)
      else (case json_string p of None \<Rightarrow> None | Some (key, r0) \<Rightarrow>
        (let k = json_ws r0 in
         if peek k \<noteq> CHR '':'' then None
         else if cstr key = ''text'' then
           (case json_string (tl k) of None \<Rightarrow> None
            | Some (s, r) \<Rightarrow> content_fields (b @ cstr s) (json_comma r))
         else (case json_skip_value (tl k) of None \<Rightarrow> None
            | Some r \<Rightarrow> content_fields b (json_comma r)))))"
  by pat_completeness auto

lemma field_value_less:
  assumes "json_string p = Some (key, r0)"
  shows "json_string (tl (json_ws r0)) = Some (s, r) \<Longrightarrow> length (json_comma r) < length p"
    "json_skip_value (tl (json_ws r0)) = Some r \<Longrightarrow> length (json_comma r) < length p"
  using key_step_less [OF assms] length_json_comma [of r] json_string_length [of "tl (json_ws r0)" s r]
    json_skip_value_length [of "tl (json_ws r0)" r] by auto

termination content_fields
  by (relation "measure (\<lambda>(_, p). length p)") (auto dest: field_value_less)

declare content_fields.simps [simp del]

lemma content_fields_length: "content_fields b p = Some (t, r) \<Longrightarrow> length r < length p"
proof (induction b p rule: content_fields.induct)
  case (1 b p)
  show ?case
  proof (cases "peek p = NUL \<or> peek p = CHR ''}''")
    case True
    then show ?thesis using 1(3) [unfolded content_fields.simps [of b p]] by (cases p) (auto split: if_splits)
  next
    case False
    then obtain key r0 where k: "json_string p = Some (key, r0)" "peek (json_ws r0) = CHR '':''"
      using 1(3) by (auto simp: content_fields.simps [of b p] Let_def split: if_splits option.splits)
    note D = 1(3) [unfolded content_fields.simps [of b p], simplified, unfolded k Let_def]
    show ?thesis
    proof (cases "cstr key = ''text''")
      case True
      then obtain s v where v: "json_string (tl (json_ws r0)) = Some (s, v)" "content_fields (b @ cstr s) (json_comma v) = Some (t, r)"
        using D False k by (auto split: option.splits if_splits)
      have "length r < length (json_comma v)" using 1(1) [OF _ _ k(1) refl refl _ True v(1) refl] v(2) False k(2) by auto
      then show ?thesis using field_value_less(1) [OF k(1) v(1)] by simp
    next
      case nt: False
      then obtain v where v: "json_skip_value (tl (json_ws r0)) = Some v" "content_fields b (json_comma v) = Some (t, r)"
        using D False k by (auto split: option.splits if_splits)
      have "length r < length (json_comma v)" using 1(2) [OF _ _ k(1) refl refl _ nt v(1)] v(2) False k(2) by auto
      then show ?thesis using field_value_less(2) [OF k(1) v(1)] by simp
    qed
  qed
qed

function content_parts :: "string \<Rightarrow> string \<Rightarrow> (string \<times> string) option" where
  "content_parts b p =
     (if peek p = NUL then None
      else if peek p = CHR '']'' then Some (b, tl p)
      else if peek p = CHR 0x22 then
        (case json_string p of None \<Rightarrow> None | Some (s, r) \<Rightarrow> content_parts (b @ cstr s) (json_comma r))
      else if peek p = CHR ''{'' then
        (case content_fields b (json_ws (tl p)) of None \<Rightarrow> None | Some (b', r) \<Rightarrow> content_parts b' (json_comma r))
      else (case json_skip_value p of None \<Rightarrow> None | Some r \<Rightarrow> content_parts b (json_comma r)))"
  by pat_completeness auto

lemma part_less:
  "json_string p = Some (s, r) \<Longrightarrow> length (json_comma r) < length p"
  "json_skip_value p = Some r \<Longrightarrow> length (json_comma r) < length p"
  "content_fields b (json_ws (tl p)) = Some (b', r) \<Longrightarrow> length (json_comma r) < length p"
  using length_json_comma [of r] json_string_length [of p s r] json_skip_value_length [of p r]
    content_fields_length [of b "json_ws (tl p)" b' r] length_json_ws [of "tl p"] by auto

termination content_parts
  by (relation "measure (\<lambda>(_, p). length p)") (auto dest: part_less)

declare content_parts.simps [simp del]

definition json_content :: "string \<Rightarrow> (string \<times> string) option" where
  "json_content p0 = (let p = json_ws p0 in
     if peek p = CHR 0x22 then json_string p
     else (case json_lit p ''null'' of Some r \<Rightarrow> Some ([], r) | None \<Rightarrow>
       if peek p \<noteq> CHR ''['' then map_option (\<lambda>r. ([], r)) (json_skip_value p)
       else content_parts [] (json_ws (tl p))))"

text \<open>The replacing forms free the old value only after the new one has been parsed.\<close>

definition replace_with :: "('a \<times> string) option \<Rightarrow> 'a option \<Rightarrow> 'a option \<times> string option" where
  "replace_with parsed old = (case parsed of None \<Rightarrow> (old, None) | Some (v, r) \<Rightarrow> (Some v, Some r))"

definition json_string_replace :: "string \<Rightarrow> string option \<Rightarrow> string option \<times> string option" where
  "json_string_replace p dst = replace_with (json_string p) dst"

definition json_raw_value_replace :: "string \<Rightarrow> string option \<Rightarrow> string option \<times> string option" where
  "json_raw_value_replace p dst = replace_with (json_raw_value p) dst"

definition json_content_replace :: "string \<Rightarrow> string option \<Rightarrow> string option \<times> string option" where
  "json_content_replace p dst = replace_with (json_content p) dst"

section \<open>Writing strings\<close>

definition hex_low :: "nat \<Rightarrow> char" where
  "hex_low d = ''0123456789abcdef'' ! d"

text \<open>One character of \<^verbatim>\<open>json_escape\<close>; \<^verbatim>\<open>%04x\<close> of a control character has two leading zeros.\<close>

definition json_escape_char :: "char \<Rightarrow> string" where
  "json_escape_char c =
     (if c = CHR 0x22 \<or> c = CHR 0x5C then [CHR 0x5C, c]
      else if c = CHR 0x0A then [CHR 0x5C, CHR ''n'']
      else if c = CHR 0x0D then [CHR 0x5C, CHR ''r'']
      else if c = CHR 0x09 then [CHR 0x5C, CHR ''t'']
      else if of_char c < (32 :: nat) then [CHR 0x5C, CHR ''u'', CHR ''0'', CHR ''0'', hex_low (of_char c div 16), hex_low (of_char c mod 16)]
      else [c])"

definition json_escape_fragment_n :: "string \<Rightarrow> nat \<Rightarrow> string" where
  "json_escape_fragment_n s n = concat (map json_escape_char (take n s))"

definition json_escape :: "string \<Rightarrow> string" where
  "json_escape s = [CHR 0x22] @ concat (map json_escape_char (cstr s)) @ [CHR 0x22]"

definition json_escape_n :: "string option \<Rightarrow> nat \<Rightarrow> string" where
  "json_escape_n s n = json_escape (take n (case s of None \<Rightarrow> [] | Some s \<Rightarrow> s))"

section \<open>Escaping and scanning are inverse\<close>

lemma json_hex_low: "d < 16 \<Longrightarrow> json_hex (hex_low d) = int d"
proof -
  assume "d < 16"
  then have "d \<in> set [0..<16]" by simp
  moreover have "list_all (\<lambda>d. json_hex (hex_low d) = int d) [0..<16]" by code_simp
  ultimately show ?thesis unfolding list_all_iff by blast
qed

lemma control_code:
  assumes "n < 32"
  shows "foldl (\<lambda>cp h. push_bit 4 cp OR word_of_int h) 0 [0, 0, int (n div 16), int (n mod 16)] = (word_of_nat n :: u32)"
    "utf8_put (word_of_nat n) = [char_of n]"
proof -
  have "list_all (\<lambda>n. foldl (\<lambda>cp h. push_bit 4 cp OR word_of_int h) 0 [0, 0, int (n div 16), int (n mod 16)] = (word_of_nat n :: u32)
    \<and> utf8_put (word_of_nat n) = [char_of n]) [0..<32]" by code_simp
  moreover have "n \<in> set [0..<32]" using assms by simp
  ultimately show "foldl (\<lambda>cp h. push_bit 4 cp OR word_of_int h) 0 [0, 0, int (n div 16), int (n mod 16)] = (word_of_nat n :: u32)"
    "utf8_put (word_of_nat n) = [char_of n]" unfolding list_all_iff by blast+
qed

lemma escape_control:
  assumes "n < 32"
  shows "json_escape_u ([CHR 0x5C, CHR ''u'', CHR ''0'', CHR ''0'', hex_low (n div 16), hex_low (n mod 16)] @ p) = Some (word_of_nat n, p)"
proof -
  have z: "json_hex (CHR ''0'') = 0" by code_simp
  have h: "json_hex (hex_low (n div 16)) = int (n div 16)" "json_hex (hex_low (n mod 16)) = int (n mod 16)"
    using assms by (auto intro: json_hex_low)
  have "json_u16 ([CHR 0x5C, CHR ''u'', CHR ''0'', CHR ''0'', hex_low (n div 16), hex_low (n mod 16)] @ p) = Some (word_of_nat n, p)"
    unfolding json_u16_def chr_at_def Let_def
    using control_code(1) [OF assms] by (simp add: z h del: foldl_Cons)
  moreover have "unat (word_of_nat n :: u32) < 32" using assms by (simp add: unat_of_nat)
  then have "\<not> (word_of_nat n :: u32) \<ge> 0xd800" by (simp add: word_le_nat_alt)
  ultimately show ?thesis by (simp add: json_escape_u_def)
qed

lemma loop_escape_char:
  assumes "c \<noteq> NUL"
  shows "json_string_loop b (json_escape_char c @ p) = json_string_loop (b @ [c]) p"
proof (cases "c \<in> {CHR 0x22, CHR 0x5C, CHR 0x0A, CHR 0x0D, CHR 0x09}")
  case True
  then show ?thesis
    by (subst json_string_loop.simps) (auto simp: json_escape_char_def chr_at_def simple_escape_def)
next
  case False
  show ?thesis
  proof (cases "of_char c < (32 :: nat)")
    case True
    then have e: "json_escape_char c = [CHR 0x5C, CHR ''u'', CHR ''0'', CHR ''0'', hex_low (of_char c div 16), hex_low (of_char c mod 16)]"
      using False by (simp add: json_escape_char_def)
    show ?thesis unfolding e
      by (subst json_string_loop.simps, subst escape_control [OF True])
        (simp add: chr_at_def control_code(2) [OF True])
  next
    case big: False
    then show ?thesis using assms False
      by (subst json_string_loop.simps) (simp add: json_escape_char_def)
  qed
qed

lemma loop_escape:
  "NUL \<notin> set s \<Longrightarrow> json_string_loop b (concat (map json_escape_char s) @ CHR 0x22 # rest) = Some (b @ s, rest)"
proof (induction s arbitrary: b)
  case Nil
  then show ?case by (subst json_string_loop.simps) simp
next
  case (Cons c s)
  then have "c \<noteq> NUL" "NUL \<notin> set s" by auto
  with Cons.IH show ?case by (simp add: loop_escape_char)
qed

lemma json_ws_escape: "json_ws (json_escape s @ rest) = json_escape s @ rest"
  by (simp add: json_ws_def json_escape_def skip_space_Cons isspace_def)

lemma scan_escaped: "json_string (json_escape s @ rest) = Some (cstr s, rest)"
  using loop_escape [of "cstr s" "[]" rest] json_ws_escape [of s rest] by (simp add: json_string_def json_escape_def)

text \<open>
  Escaping and scanning are inverse: for every C string, the JSON string \<^verbatim>\<open>json_escape\<close> writes is
  scanned back by \<^verbatim>\<open>json_string\<close> to the same bytes, and the cursor stops right behind it, whatever
  follows.
\<close>

theorem json_string_escape: "json_string (json_escape s @ rest) = Some (cstr s, rest)"
  by (rule scan_escaped)

section \<open>The nesting ceiling\<close>

lemma ws_bracket: "json_ws (CHR ''['' # p) = CHR ''['' # p" "json_ws (CHR '']'' # p) = CHR '']'' # p"
  by (simp_all add: json_ws_def skip_space_Cons isspace_def)

lemma skip_nested:
  "json_skip_value_depth d (replicate (Suc n) (CHR ''['') @ replicate (Suc n) (CHR '']'') @ rest) =
     (if d + Suc n \<le> JSON_MAX_NESTING then Some rest else None)"
proof (induction n arbitrary: d rest)
  case 0
  show ?case
    by (simp add: json_skip_value_depth.simps json_skip_array_depth.simps ws_bracket)
next
  case (Suc n)
  let ?inner = "replicate (Suc n) (CHR ''['') @ replicate (Suc n) (CHR '']'') @ CHR '']'' # rest"
  have shape: "replicate (Suc (Suc n)) (CHR ''['') @ replicate (Suc (Suc n)) (CHR '']'') @ rest = CHR ''['' # ?inner"
    by (simp add: replicate_app_Cons_same)
  have inner: "json_ws ?inner = ?inner" "peek ?inner = CHR ''[''" by (simp_all add: ws_bracket)
  have "json_skip_value_depth d (CHR ''['' # ?inner) = json_skip_array_depth d (CHR ''['' # ?inner)"
    by (simp add: json_skip_value_depth.simps ws_bracket)
  also have "\<dots> = (if d \<ge> JSON_MAX_NESTING then None else json_array_items d ?inner)"
    unfolding json_skip_array_depth.simps ws_bracket Let_def list.sel inner by simp
  also have "\<dots> = (if d + Suc (Suc n) \<le> JSON_MAX_NESTING then Some rest else None)"
    using Suc.IH [of "d + 1" "CHR '']'' # rest"] unfolding json_array_items.simps [of d ?inner] by (simp add: ws_bracket)
  finally show ?case unfolding shape .
qed

text \<open>
  The nesting ceiling is exact: an ignored value of \<open>n\<close> nested arrays is skipped if \<open>n\<close> is at
  most 256 and rejected if it is deeper, so the recursion of the skipper is bounded by the ceiling.
\<close>

theorem json_nesting_ceiling:
  "json_skip_value (replicate (Suc n) (CHR ''['') @ replicate (Suc n) (CHR '']'') @ rest) =
     (if Suc n \<le> 256 then Some rest else None)"
  using skip_nested [of 0 n rest] by (simp add: json_skip_value_def)

text \<open>
  Every scan makes progress and stays inside the text: a successful string, number or value
  scan leaves a cursor strictly behind the old one, so the loops over arrays and objects end.
\<close>

theorem json_scan_progress:
  "(case json_string p of None \<Rightarrow> True | Some (s, r) \<Rightarrow> length r < length p) \<and>
   (case json_number p of None \<Rightarrow> True | Some (v, r) \<Rightarrow> length r < length p) \<and>
   (case json_skip_value p of None \<Rightarrow> True | Some r \<Rightarrow> length r < length p)"
  using json_string_length json_number_length json_skip_value_length by (auto split: option.splits)

text \<open>
  An integer field never leaves the range of a C \<^verbatim>\<open>int\<close>: whatever number the text has, infinite,
  NaN, negative or huge, the scanned value is between 0 and \<^verbatim>\<open>INT_MAX\<close>.
\<close>

theorem json_int_range:
  assumes "json_int p = Some (v, r)"
  shows "0 \<le> v \<and> v \<le> INT_MAX"
  using assms
  by (auto simp: json_int_def json_clamp_int_def floor_le_iff split: option.splits dbl.splits if_splits)

theorem json_int_range_witness: "json_int ''1e30,'' = Some (INT_MAX, '','') \<and> 0 \<le> INT_MAX"
proof -
  have "json_int ''1e30,'' = Some (INT_MAX, '','')" by code_simp
  with json_int_range [OF this] show ?thesis by simp
qed

end
