(* ===== verification/JsonLoops.thy ===== *)
theory JsonLoops
  imports Json
begin

text \<open>
  The loops every request parser of \<^verbatim>\<open>server.c\<close> is made of.  A parser walks over the members of an
  object or the items of an array, hands each to a handler, and skips an optional comma.  Here the
  two loops are functions of the handler, so that each parser of the server is a handler.

  A handler works on the parser's variables and a cursor, and returns the variables and either the
  cursor behind the value or \<^const>\<open>None\<close> when the C code gives up.  The variables are returned in
  both cases, because some parsers keep what they have collected before a failure.
\<close>

type_synonym 'a scanner = "'a \<Rightarrow> string \<Rightarrow> 'a \<times> string option"

section \<open>The loops\<close>

text \<open>
  \<open>object_fields\<close> is the loop \<^verbatim>\<open>while (**p && **p != '}')\<close> over the members; it leaves the cursor at
  the closing brace or at the end of the text.  \<open>array_items\<close> is the same loop over items.  The test
  on the lengths holds for every handler that consumes its value (the locales below), so it never
  decides anything; it lets the loops be total functions of an arbitrary handler.
\<close>

function object_fields :: "(string \<Rightarrow> 'a scanner) \<Rightarrow> 'a scanner" where
  "object_fields f a p =
     (if peek p = NUL \<or> peek p = CHR ''}'' then (a, Some p)
      else (case json_string p of None \<Rightarrow> (a, None) | Some (key, r0) \<Rightarrow>
        (let k = json_ws r0 in
         if peek k \<noteq> CHR '':'' then (a, None)
         else (case f (cstr key) a (tl k) of (a', None) \<Rightarrow> (a', None) | (a', Some r) \<Rightarrow>
           if length r < length (tl k) then object_fields f a' (json_comma r) else (a', None)))))"
  by pat_completeness auto

lemma member_less:
  assumes "json_string p = Some (key, r0)" "length r < length (json_ws r0) - Suc 0"
  shows "length (json_comma r) < length p"
  using key_step_less [OF assms(1)] assms(2) length_json_comma [of r] by linarith

termination object_fields
  by (relation "measure (\<lambda>(_, _, p). length p)") (auto dest: member_less)

function array_items :: "'a scanner \<Rightarrow> 'a scanner" where
  "array_items g a p =
     (if peek p = NUL \<or> peek p = CHR '']'' then (a, Some p)
      else (case g a p of (a', None) \<Rightarrow> (a', None) | (a', Some r) \<Rightarrow>
        if length r < length p then array_items g a' (json_comma r) else (a', None)))"
  by pat_completeness auto

lemma item_less: "length r < length p \<Longrightarrow> length (json_comma r) < length p"
  using length_json_comma [of r] by linarith

termination array_items
  by (relation "measure (\<lambda>(_, _, p). length p)") (auto dest: item_less)

declare object_fields.simps [simp del] array_items.simps [simp del]

text \<open>
  The code around the loops: \<^verbatim>\<open>if (**p != '}') fail; (*p)++;\<close> behind the loop, and the opening
  bracket before it.
\<close>

definition expect_close :: "char \<Rightarrow> 'a \<times> string option \<Rightarrow> 'a \<times> string option" where
  "expect_close c x = (case x of (a, None) \<Rightarrow> (a, None) | (a, Some p) \<Rightarrow> (a, if peek p = c then Some (tl p) else None))"

definition object_value :: "(string \<Rightarrow> 'a scanner) \<Rightarrow> 'a scanner" where
  "object_value f a p = (if peek p \<noteq> CHR ''{'' then (a, None)
     else expect_close (CHR ''}'') (object_fields f a (json_ws (tl p))))"

definition array_value :: "'a scanner \<Rightarrow> 'a scanner" where
  "array_value g a p = (if peek p \<noteq> CHR ''['' then (a, None)
     else expect_close (CHR '']'') (array_items g a (json_ws (tl p))))"

text \<open>The handlers that recur: skip a value, or scan one and store it.\<close>

definition skip_field :: "'a scanner" where
  "skip_field a p = (a, json_skip_value p)"

definition store_field :: "(string \<Rightarrow> ('v \<times> string) option) \<Rightarrow> ('v \<Rightarrow> 'a \<Rightarrow> 'a) \<Rightarrow> 'a scanner" where
  "store_field scan put a p = (case scan p of None \<Rightarrow> (a, None) | Some (v, r) \<Rightarrow> (put v a, Some r))"

text \<open>
  What a caller of \<^verbatim>\<open>json_string\<close> or \<^verbatim>\<open>json_content\<close> sees of the returned buffer is a C string: it ends
  at the first NUL, which a \<^verbatim>\<open>\u0000\<close> escape can produce.
\<close>

definition json_cstring :: "string \<Rightarrow> (string \<times> string) option" where
  "json_cstring p = map_option (apfst cstr) (json_string p)"

definition json_ccontent :: "string \<Rightarrow> (string \<times> string) option" where
  "json_ccontent p = map_option (apfst cstr) (json_content p)"

section \<open>Progress\<close>

lemma array_items_length: "array_items g a p = (a', Some r) \<Longrightarrow> length r \<le> length p"
proof (induction g a p rule: array_items.induct)
  case (1 g a p)
  show ?case
  proof (cases "peek p = NUL \<or> peek p = CHR '']''")
    case True
    then show ?thesis using 1(2) by (auto simp: array_items.simps [of g a p])
  next
    case False
    then obtain b q where q: "g a p = (b, Some q)" "length q < length p" "array_items g b (json_comma q) = (a', Some r)"
      using 1(2) by (auto simp: array_items.simps [of g a p] split: prod.splits option.splits if_splits)
    have "length r \<le> length (json_comma q)" using 1(1) [OF False q(1) [symmetric] refl _ q(3)] q(2) by simp
    then show ?thesis using item_less [OF q(2)] by linarith
  qed
qed

lemma object_fields_length: "object_fields f a p = (a', Some r) \<Longrightarrow> length r \<le> length p"
proof (induction f a p rule: object_fields.induct)
  case (1 f a p)
  show ?case
  proof (cases "peek p = NUL \<or> peek p = CHR ''}''")
    case True
    then show ?thesis using 1(2) by (auto simp: object_fields.simps [of f a p])
  next
    case False
    then obtain key r0 where k: "json_string p = Some (key, r0)" "peek (json_ws r0) = CHR '':''"
      using 1(2) by (auto simp: object_fields.simps [of f a p] Let_def split: option.splits if_splits)
    obtain b q where q: "f (cstr key) a (tl (json_ws r0)) = (b, Some q)" "length q < length (tl (json_ws r0))"
        "object_fields f b (json_comma q) = (a', Some r)"
      using 1(2) False k
      by (auto simp: object_fields.simps [of f a p] Let_def split: prod.splits option.splits if_splits)
    have "length r \<le> length (json_comma q)"
      using 1(1) [OF False k(1) refl refl _ q(1) [symmetric] refl q(2) q(3)] k(2) by simp
    then show ?thesis using member_less [OF k(1)] q(2) by fastforce
  qed
qed

lemma expect_close_length:
  "expect_close c x = (a, Some r) \<Longrightarrow> c \<noteq> NUL \<Longrightarrow> \<exists>q. x = (a, Some q) \<and> length r < length q"
  by (cases x) (auto simp: expect_close_def peek_def split: option.splits if_splits list.splits)

section \<open>Interfaces\<close>

text \<open>A scanner makes progress if it never succeeds without consuming a character.\<close>

locale value_scanner =
  fixes g :: "'a scanner"
  assumes progress: "g a p = (a', Some r) \<Longrightarrow> length r < length p"
begin

lemma array_items_step:
  "array_items g a p =
     (if peek p = NUL \<or> peek p = CHR '']'' then (a, Some p)
      else (case g a p of (a', None) \<Rightarrow> (a', None) | (a', Some r) \<Rightarrow> array_items g a' (json_comma r)))"
  by (auto simp: array_items.simps [of g a p] split: prod.splits option.splits dest: progress)

end

locale field_scanner =
  fixes f :: "string \<Rightarrow> 'a scanner"
  assumes progress: "f key a p = (a', Some r) \<Longrightarrow> length r < length p"
begin

lemma object_fields_step:
  "object_fields f a p =
     (if peek p = NUL \<or> peek p = CHR ''}'' then (a, Some p)
      else (case json_string p of None \<Rightarrow> (a, None) | Some (key, r0) \<Rightarrow>
        if peek (json_ws r0) \<noteq> CHR '':'' then (a, None)
        else (case f (cstr key) a (tl (json_ws r0)) of (a', None) \<Rightarrow> (a', None)
          | (a', Some r) \<Rightarrow> object_fields f a' (json_comma r))))"
  by (auto simp: object_fields.simps [of f a p] Let_def split: prod.splits option.splits dest!: progress)

end

text \<open>A property of the variables that each handler keeps is kept by the loops.\<close>

lemma object_fields_invariant:
  assumes "\<And>key a p. I a \<Longrightarrow> I (fst (f (cstr key) a p))" "I a"
  shows "I (fst (object_fields f a p))"
  using assms
proof (induction f a p rule: object_fields.induct)
  case (1 f a p)
  then have keep: "f (cstr key) a q = (a', b) \<Longrightarrow> I a'" for key q a' b by (metis fst_conv)
  show ?case using 1(1) [OF _ _ _ _ _ _ _ _ 1(2)] 1(3) keep
    by (auto simp: object_fields.simps [of f a p] Let_def split: option.splits prod.splits)
qed

lemma array_items_invariant:
  assumes "\<And>a p. I a \<Longrightarrow> I (fst (g a p))" "I a"
  shows "I (fst (array_items g a p))"
  using assms
proof (induction g a p rule: array_items.induct)
  case (1 g a p)
  then have keep: "g a q = (a', b) \<Longrightarrow> I a'" for q a' b by (metis fst_conv)
  show ?case using 1(1) [OF _ _ _ _ 1(2)] 1(3) keep
    by (auto simp: array_items.simps [of g a p] split: option.splits prod.splits)
qed

lemma fst_expect_close [simp]: "fst (expect_close c x) = fst x"
  by (auto simp: expect_close_def split: prod.splits option.splits)

lemma object_value_invariant:
  "(\<And>key a p. I a \<Longrightarrow> I (fst (f (cstr key) a p))) \<Longrightarrow> I a \<Longrightarrow> I (fst (object_value f a p))"
  by (simp add: object_value_def object_fields_invariant)

lemma array_value_invariant:
  "(\<And>a p. I a \<Longrightarrow> I (fst (g a p))) \<Longrightarrow> I a \<Longrightarrow> I (fst (array_value g a p))"
  by (simp add: array_value_def array_items_invariant)

lemma fst_skip_field [simp]: "fst (skip_field a p) = a"
  by (simp add: skip_field_def)

lemma store_field_invariant: "(\<And>v. I (put v a)) \<Longrightarrow> I a \<Longrightarrow> I (fst (store_field scan put a p))"
  by (auto simp: store_field_def split: option.splits)

section \<open>Building scanners\<close>

text \<open>
  The rules by which a parser is seen to make progress: the collection \<open>scanner_intros\<close> follows the
  structure of its definition.
\<close>

named_theorems scanner_intros \<open>progress of scanners\<close>

lemma value_scannerI: "(\<And>a p a' r. g a p = (a', Some r) \<Longrightarrow> length r < length p) \<Longrightarrow> value_scanner g"
  by unfold_locales

lemma field_scannerI: "(\<And>key. value_scanner (f key)) \<Longrightarrow> field_scanner f"
  by unfold_locales (blast dest: value_scanner.progress)

lemma scanner_if [scanner_intros]: "value_scanner g \<Longrightarrow> value_scanner h \<Longrightarrow> value_scanner (if c then g else h)"
  by simp

lemma scanner_skip [scanner_intros]: "value_scanner skip_field"
  by (rule value_scannerI) (auto simp: skip_field_def json_skip_value_length)

lemma scanner_store:
  "(\<And>p v r. scan p = Some (v, r) \<Longrightarrow> length r < length p) \<Longrightarrow> value_scanner (store_field scan put)"
  by (rule value_scannerI) (auto simp: store_field_def split: option.splits)

lemma json_cstring_length: "json_cstring p = Some (s, r) \<Longrightarrow> length r < length p"
  by (auto simp: json_cstring_def json_string_length)

lemma json_raw_value_length: "json_raw_value p = Some (s, r) \<Longrightarrow> length r < length p"
  using length_json_ws [of p] by (fastforce simp: json_raw_value_def Let_def split: option.splits dest: json_skip_value_length)

lemma json_bool_length: "json_bool p = Some (v, r) \<Longrightarrow> length r < length p"
  using length_json_ws [of p] by (fastforce simp: json_bool_def Let_def split: option.splits dest: json_lit_length)

lemma json_int_length: "json_int p = Some (v, r) \<Longrightarrow> length r < length p"
  by (auto simp: json_int_def json_number_length split: option.splits prod.splits)

lemma content_parts_length: "content_parts b p = Some (t, r) \<Longrightarrow> length r < length p"
proof (induction "length p" arbitrary: b p rule: less_induct)
  case less
  note step = less(2) [unfolded content_parts.simps [of b p]]
  show ?case
  proof (cases "peek p = NUL \<or> peek p = CHR '']''")
    case True
    then show ?thesis using step by (cases p) (auto split: if_splits)
  next
    case False
    then have "\<exists>b' q. length (json_comma q) < length p \<and> content_parts b' (json_comma q) = Some (t, r)"
      using step by (auto split: option.splits if_splits dest: part_less)
    then show ?thesis using less(1) less_trans by blast
  qed
qed

lemma json_content_length: "json_content p = Some (s, r) \<Longrightarrow> length r < length p"
  using length_json_ws [of p] length_json_ws [of "tl (json_ws p)"]
  by (fastforce simp: json_content_def Let_def split: if_splits option.splits
      dest: json_string_length json_lit_length json_skip_value_length content_parts_length)

lemma json_ccontent_length: "json_ccontent p = Some (s, r) \<Longrightarrow> length r < length p"
  by (auto simp: json_ccontent_def json_content_length)

lemmas scanner_store_intros [scanner_intros] =
  scanner_store [where scan = json_cstring, OF json_cstring_length]
  scanner_store [where scan = json_ccontent, OF json_ccontent_length]
  scanner_store [where scan = json_raw_value, OF json_raw_value_length]
  scanner_store [where scan = json_bool, OF json_bool_length]
  scanner_store [where scan = json_int, OF json_int_length]

lemma scanner_object [scanner_intros]: "value_scanner (object_value f)"
proof (rule value_scannerI)
  fix a p a' r assume "object_value f a p = (a', Some r)"
  then obtain q where "object_fields f a (json_ws (tl p)) = (a', Some q)" "length r < length q"
    by (auto simp: object_value_def split: if_splits dest!: expect_close_length)
  moreover have "length (json_ws (tl p)) \<le> length p" using length_json_ws [of "tl p"] by simp
  ultimately show "length r < length p" using object_fields_length by (metis le_trans less_le_trans)
qed

lemma scanner_array [scanner_intros]: "value_scanner (array_value g)"
proof (rule value_scannerI)
  fix a p a' r assume "array_value g a p = (a', Some r)"
  then obtain q where "array_items g a (json_ws (tl p)) = (a', Some q)" "length r < length q"
    by (auto simp: array_value_def split: if_splits dest!: expect_close_length)
  moreover have "length (json_ws (tl p)) \<le> length p" using length_json_ws [of "tl p"] by simp
  ultimately show "length r < length p" using array_items_length by (metis le_trans less_le_trans)
qed

lemma scanner_ws [scanner_intros]:
  assumes "value_scanner g" shows "value_scanner (\<lambda>a p. g a (json_ws p))"
proof (rule value_scannerI)
  fix a p a' r assume "g a (json_ws p) = (a', Some r)"
  then have "length r < length (json_ws p)" by (rule value_scanner.progress [OF assms])
  then show "length r < length p" using length_json_ws [of p] by linarith
qed

lemma scanner_null [scanner_intros]:
  "value_scanner g \<Longrightarrow> value_scanner (\<lambda>a p. case json_lit p ''null'' of Some r \<Rightarrow> (h a, Some r) | None \<Rightarrow> g a p)"
  by (rule value_scannerI) (auto split: option.splits dest: json_lit_length value_scanner.progress)

lemma scanner_if_at [scanner_intros]:
  "value_scanner g \<Longrightarrow> value_scanner h \<Longrightarrow> value_scanner (\<lambda>a p. if c a p then g a p else h a p)"
  by (rule value_scannerI) (auto split: if_splits dest: value_scanner.progress)

lemma scanner_fail [scanner_intros]: "value_scanner (\<lambda>a p. (h a p, None))"
  by (rule value_scannerI) auto

lemma scanner_map [scanner_intros]:
  "value_scanner g \<Longrightarrow> value_scanner (\<lambda>a p. apfst (h a) (g (k a) p))"
  by (rule value_scannerI) (auto simp: apfst_def map_prod_def split: prod.splits dest: value_scanner.progress)

end
