(* ===== verification/Requests.thy ===== *)
theory Requests
  imports JsonLoops
begin

text \<open>
  The data of an API request and its small parsers, from \<^verbatim>\<open>server.c\<close>: tool calls, chat messages, tool
  schema orders, stop lists, reasoning effort, and the stop and UTF-8 boundaries of a stream.

  A C array with \<^verbatim>\<open>len\<close> and \<^verbatim>\<open>cap\<close> is a list; a \<^verbatim>\<open>char *\<close> that may be NULL is a \<^typ>\<open>string option\<close>.
  The \<^verbatim>\<open>*_free\<close> functions reset a record to its zero value.
\<close>

section \<open>Data\<close>

datatype req_kind = REQ_CHAT | REQ_COMPLETION
datatype api_style = API_OPENAI | API_ANTHROPIC | API_RESPONSES
datatype server_model_syntax = SERVER_MODEL_SYNTAX_DEEPSEEK | SERVER_MODEL_SYNTAX_GLM
datatype ds4_think_mode = DS4_THINK_NONE | DS4_THINK_HIGH | DS4_THINK_MAX

record tool_call =
  tc_id :: "string option"
  tc_name :: "string option"
  tc_arguments :: "string option"

record tool_calls =
  calls_v :: "tool_call list"
  raw_tool_text :: "string option"

record tool_schema_order =
  so_name :: "string option"
  so_wire_name :: "string option"
  so_namespace :: "string option"
  responses_tool_search :: bool
  so_prop :: "string list"

type_synonym tool_schema_orders = "tool_schema_order list"

record chat_msg =
  role :: "string option"
  content :: "string option"
  reasoning :: "string option"
  tool_call_id :: "string option"
  tool_call_ids :: "string list"
  calls :: tool_calls

type_synonym chat_msgs = "chat_msg list"

record stop_list =
  stop_v :: "string list"
  stop_max_len :: nat

definition tool_call_zero :: tool_call where
  "tool_call_zero = \<lparr>tc_id = None, tc_name = None, tc_arguments = None\<rparr>"

definition tool_calls_free :: tool_calls where
  "tool_calls_free = \<lparr>calls_v = [], raw_tool_text = None\<rparr>"

definition tool_schema_order_zero :: tool_schema_order where
  "tool_schema_order_zero = \<lparr>so_name = None, so_wire_name = None, so_namespace = None, responses_tool_search = False, so_prop = []\<rparr>"

definition chat_msg_zero :: chat_msg where
  "chat_msg_zero = \<lparr>role = None, content = None, reasoning = None, tool_call_id = None, tool_call_ids = [], calls = tool_calls_free\<rparr>"

section \<open>Collections\<close>

definition tool_calls_push :: "tool_calls \<Rightarrow> tool_call \<Rightarrow> tool_calls" where
  "tool_calls_push cs tc = cs\<lparr>calls_v := calls_v cs @ [tc]\<rparr>"

definition chat_msg_add_tool_call_id :: "chat_msg \<Rightarrow> string option \<Rightarrow> chat_msg" where
  "chat_msg_add_tool_call_id m id0 = (case id0 of None \<Rightarrow> m | Some i \<Rightarrow>
     if i = [] then m
     else (let m' = (if tool_call_id m = None then m\<lparr>tool_call_id := Some i\<rparr> else m) in
       if i \<in> set (tool_call_ids m') then m'
       else m'\<lparr>tool_call_ids := tool_call_ids m' @ [i]\<rparr>))"

definition chat_msgs_push :: "chat_msgs \<Rightarrow> chat_msg \<Rightarrow> chat_msgs" where
  "chat_msgs_push ms m = ms @ [m]"

definition tool_schema_order_prop_push :: "tool_schema_order \<Rightarrow> string \<Rightarrow> tool_schema_order" where
  "tool_schema_order_prop_push o1 p = o1\<lparr>so_prop := so_prop o1 @ [p]\<rparr>"

text \<open>The index of the order with a name, or none where C returns -1.\<close>

fun find_index_from :: "nat \<Rightarrow> tool_schema_orders \<Rightarrow> string \<Rightarrow> nat option" where
  "find_index_from i [] name = None"
| "find_index_from i (o1 # os) name = (if so_name o1 = Some name then Some i else find_index_from (Suc i) os name)"

definition tool_schema_orders_find_index :: "tool_schema_orders \<Rightarrow> string option \<Rightarrow> nat option" where
  "tool_schema_orders_find_index os name = (case name of None \<Rightarrow> None | Some n \<Rightarrow> find_index_from 0 os n)"

definition tool_schema_orders_push :: "tool_schema_orders \<Rightarrow> tool_schema_order \<Rightarrow> tool_schema_orders" where
  "tool_schema_orders_push os o1 = (case tool_schema_orders_find_index os (so_name o1) of
     Some i \<Rightarrow> os[i := o1] | None \<Rightarrow> os @ [o1])"

definition tool_schema_orders_find :: "tool_schema_orders \<Rightarrow> string option \<Rightarrow> tool_schema_order option" where
  "tool_schema_orders_find os name = map_option (\<lambda>i. os ! i) (tool_schema_orders_find_index os name)"

section \<open>Thinking\<close>

definition ds4_think_mode_enabled :: "ds4_think_mode \<Rightarrow> bool" where
  "ds4_think_mode_enabled m \<longleftrightarrow> m = DS4_THINK_HIGH \<or> m = DS4_THINK_MAX"

definition think_mode_from_enabled :: "bool \<Rightarrow> ds4_think_mode \<Rightarrow> ds4_think_mode" where
  "think_mode_from_enabled enabled effort =
     (if \<not> enabled \<or> effort = DS4_THINK_NONE then DS4_THINK_NONE
      else if effort = DS4_THINK_MAX then DS4_THINK_MAX else DS4_THINK_HIGH)"

definition parse_reasoning_effort_name :: "string option \<Rightarrow> ds4_think_mode option" where
  "parse_reasoning_effort_name s0 = (case s0 of None \<Rightarrow> None | Some s \<Rightarrow>
     if s = ''max'' then Some DS4_THINK_MAX
     else if s = ''xhigh'' \<or> s = ''high'' \<or> s = ''medium'' \<or> s = ''low'' \<or> s = ''minimal'' then Some DS4_THINK_HIGH
     else if s = ''none'' then Some DS4_THINK_NONE
     else None)"

definition parse_reasoning_effort_value :: "ds4_think_mode scanner" where
  "parse_reasoning_effort_value out p0 = (let p = json_ws p0 in
     case json_lit p ''null'' of Some r \<Rightarrow> (out, Some r) | None \<Rightarrow>
     case json_cstring p of None \<Rightarrow> (out, None) | Some (effort, r) \<Rightarrow>
     case parse_reasoning_effort_name (Some effort) of None \<Rightarrow> (out, None) | Some m \<Rightarrow> (m, Some r))"

definition thinking_field :: "string \<Rightarrow> bool scanner" where
  "thinking_field key =
     (if key = ''type'' then store_field json_cstring
        (\<lambda>ty en. if ty = ''enabled'' then True else if ty = ''disabled'' then False else en)
      else skip_field)"

definition parse_thinking_control_value :: "bool scanner" where
  "parse_thinking_control_value en p0 = (let p = json_ws p0 in
     case json_lit p ''null'' of Some r \<Rightarrow> (en, Some r) | None \<Rightarrow>
     if peek p = CHR ''t'' \<or> peek p = CHR ''f'' then store_field json_bool (\<lambda>b _. b) en p
     else if peek p \<noteq> CHR ''{'' then skip_field en p
     else object_value thinking_field en p)"

definition output_config_field :: "string \<Rightarrow> ds4_think_mode scanner" where
  "output_config_field key = (if key = ''effort'' then parse_reasoning_effort_value else skip_field)"

definition parse_output_config_effort :: "ds4_think_mode scanner" where
  "parse_output_config_effort effort p0 = (let p = json_ws p0 in
     case json_lit p ''null'' of Some r \<Rightarrow> (effort, Some r) | None \<Rightarrow>
     if peek p \<noteq> CHR ''{'' then skip_field effort p
     else object_value output_config_field effort p)"

section \<open>Model names\<close>

definition model_alias_disables_thinking :: "string option \<Rightarrow> bool" where
  "model_alias_disables_thinking model = (case model of None \<Rightarrow> False | Some m \<Rightarrow>
     m \<in> {''deepseek-chat'', ''glm-5.2-chat'', ''glm-5.2-no-think'', ''glm-5.2-nothink'', ''zai/glm-5.2-chat'',
       ''glm-5.3-flash-chat'', ''glm-5.3-flash-no-think'', ''glm-5.3-flash-nothink'', ''zai/glm-5.3-flash-chat''})"

definition model_alias_enables_thinking :: "string option \<Rightarrow> bool" where
  "model_alias_enables_thinking model = (case model of None \<Rightarrow> False | Some m \<Rightarrow>
     m \<in> {''deepseek-reasoner'', ''glm-5.2-reasoner'', ''zai/glm-5.2-reasoner'', ''glm-5.3-flash-reasoner'',
       ''zai/glm-5.3-flash-reasoner''})"

definition server_model_alias_known :: "string option \<Rightarrow> bool" where
  "server_model_alias_known model = (case model of None \<Rightarrow> False | Some m \<Rightarrow>
     m \<in> {''deepseek-v4-flash'', ''deepseek-v4-pro'', ''glm-5.2'', ''glm-5.2-chat'', ''glm-5.2-no-think'', ''glm-5.2-nothink'',
       ''glm-5.2-reasoner'', ''zai/glm-5.2'', ''zai/glm-5.2-chat'', ''zai/glm-5.2-reasoner'', ''glm-5.3-flash'', ''glm-5.3-flash-chat'',
       ''glm-5.3-flash-no-think'', ''glm-5.3-flash-nothink'', ''glm-5.3-flash-reasoner'', ''zai/glm-5.3-flash'',
       ''zai/glm-5.3-flash-chat'', ''zai/glm-5.3-flash-reasoner''})"

section \<open>Stop sequences\<close>

definition stop_list_clear :: "stop_list \<Rightarrow> stop_list" where
  "stop_list_clear sl = sl\<lparr>stop_v := [], stop_max_len := 0\<rparr>"

definition stop_list_push :: "stop_list \<Rightarrow> string option \<Rightarrow> stop_list" where
  "stop_list_push sl s0 = (case s0 of None \<Rightarrow> sl | Some s \<Rightarrow>
     if s = [] then sl
     else sl\<lparr>stop_v := stop_v sl @ [s],
             stop_max_len := (if length s > stop_max_len sl then length s else stop_max_len sl)\<rparr>)"

definition push_stop_field :: "stop_list scanner" where
  "push_stop_field = store_field json_cstring (\<lambda>s sl. stop_list_push sl (Some s))"

definition stop_item :: "stop_list scanner" where
  "stop_item sl p = (if peek p = CHR 0x22 then push_stop_field sl p else skip_field sl p)"

definition parse_stop :: "stop_list scanner" where
  "parse_stop sl p0 = (let p = json_ws p0; out = stop_list_clear sl in
     if peek p = CHR 0x22 then push_stop_field out p
     else if peek p \<noteq> CHR ''['' then skip_field out p
     else array_value stop_item out p)"

text \<open>The scan for the earliest stop; \<open>find_stop_loop\<close> carries the best hit so far.\<close>

fun find_stop_loop :: "string \<Rightarrow> nat \<Rightarrow> (nat \<times> nat) option \<Rightarrow> string list \<Rightarrow> (nat \<times> nat) option" where
  "find_stop_loop txt from best [] = best"
| "find_stop_loop txt from best (s # ss) =
     (case strstr (drop from txt) s of None \<Rightarrow> find_stop_loop txt from best ss
      | Some i \<Rightarrow> (let ppos = from + i; plen = length s in
          find_stop_loop txt from
            (case best of None \<Rightarrow> Some (ppos, plen) | Some (bp, bl) \<Rightarrow> if ppos < bp then Some (ppos, plen) else best) ss))"

definition stop_list_find_from :: "stop_list \<Rightarrow> string option \<Rightarrow> nat \<Rightarrow> (nat \<times> nat) option" where
  "stop_list_find_from sl text0 from = (case text0 of None \<Rightarrow> None | Some txt \<Rightarrow>
     if stop_v sl = [] then None else find_stop_loop txt from None (stop_v sl))"

definition stop_list_stream_safe_len :: "stop_list \<Rightarrow> nat \<Rightarrow> nat" where
  "stop_list_stream_safe_len sl text_len =
     (if stop_v sl = [] \<or> stop_max_len sl \<le> 1 then text_len
      else (let hold = stop_max_len sl - 1 in if text_len > hold then text_len - hold else 0))"

section \<open>UTF-8 boundaries\<close>

definition utf8_expected_len :: "char \<Rightarrow> nat" where
  "utf8_expected_len ch = (let c = of_char ch :: nat in
     if c < 0x80 then 1
     else if c \<ge> 0xc2 \<and> c \<le> 0xdf then 2
     else if c \<ge> 0xe0 \<and> c \<le> 0xef then 3
     else if c \<ge> 0xf0 \<and> c \<le> 0xf4 then 4
     else 1)"

definition is_cont :: "char \<Rightarrow> bool" where
  "is_cont c \<longleftrightarrow> (of_char c :: nat) AND 0xc0 = 0x80"

fun cont_back :: "string \<Rightarrow> nat \<Rightarrow> nat \<Rightarrow> nat \<Rightarrow> nat" where
  "cont_back s start p cont =
     (if p > start \<and> cont < 4 \<and> is_cont (s ! (p - 1)) then cont_back s start (p - 1) (cont + 1) else p)"

declare cont_back.simps [simp del]

definition utf8_stream_safe_len :: "string option \<Rightarrow> nat \<Rightarrow> nat \<Rightarrow> bool \<Rightarrow> nat" where
  "utf8_stream_safe_len s0 start limit final =
     (if final \<or> limit \<le> start then limit
      else (case s0 of None \<Rightarrow> limit | Some s \<Rightarrow>
        (let p = cont_back s start limit 0 in
         if p = limit then (if utf8_expected_len (s ! (limit - 1)) > 1 then limit - 1 else limit)
         else if p = start \<and> is_cont (s ! p) then start
         else (let lead = p - 1; need = utf8_expected_len (s ! lead) in
           if limit - lead < need then lead else limit))))"

section \<open>Tool calls in messages\<close>

definition stream_options_field :: "string \<Rightarrow> bool scanner" where
  "stream_options_field key = (if key = ''include_usage'' then store_field json_bool (\<lambda>b _. b) else skip_field)"

definition parse_stream_options :: "bool scanner" where
  "parse_stream_options include_usage p0 = (let p = json_ws p0 in
     if peek p \<noteq> CHR ''{'' then skip_field include_usage p
     else object_value stream_options_field include_usage p)"

definition arguments_field :: "tool_call scanner" where
  "arguments_field tc p0 = (let p = json_ws p0 in
     if peek p = CHR 0x22 then store_field json_cstring (\<lambda>s. tc_arguments_update (\<lambda>_. Some s)) tc p
     else store_field json_raw_value (\<lambda>s. tc_arguments_update (\<lambda>_. Some s)) tc p)"

definition function_call_field :: "string \<Rightarrow> tool_call scanner" where
  "function_call_field key =
     (if key = ''name'' then store_field json_cstring (\<lambda>s. tc_name_update (\<lambda>_. Some s))
      else if key = ''arguments'' then arguments_field
      else skip_field)"

definition parse_function_call :: "tool_call scanner" where
  "parse_function_call tc p = object_value function_call_field tc (json_ws p)"

definition tool_call_field :: "string \<Rightarrow> tool_call scanner" where
  "tool_call_field key =
     (if key = ''id'' then store_field json_cstring (\<lambda>s. tc_id_update (\<lambda>_. Some s))
      else if key = ''function'' then parse_function_call
      else skip_field)"

definition tool_call_item :: "tool_calls scanner" where
  "tool_call_item cs p = (case object_value tool_call_field tool_call_zero p of
     (tc, None) \<Rightarrow> (cs, None)
   | (tc, Some r) \<Rightarrow> (if tc_name tc \<noteq> None \<and> tc_arguments tc \<noteq> None then tool_calls_push cs tc else cs, Some r))"

definition parse_tool_calls_value :: "tool_calls scanner" where
  "parse_tool_calls_value cs p0 = (let p = json_ws p0 in
     case json_lit p ''null'' of Some r \<Rightarrow> (cs, Some r) | None \<Rightarrow> array_value tool_call_item cs p)"

section \<open>Tool call ids\<close>

text \<open>
  The sixteen bytes of an id come from the system's random source; when that fails they are built
  from the time, the process id, a counter and an address.
\<close>

definition le_bytes :: "u64 \<Rightarrow> bytes" where
  "le_bytes w = map (\<lambda>i. ucast (drop_bit (8 * i) w)) [0..<8]"

definition tool_id_bytes :: "bytes option \<Rightarrow> u64 \<Rightarrow> u64 \<Rightarrow> u64 \<Rightarrow> u64 \<Rightarrow> bytes \<times> u64" where
  "tool_id_bytes random now pid ctr addr = (case random of Some b \<Rightarrow> (b, ctr)
     | None \<Rightarrow> (le_bytes (push_bit 32 now XOR pid) @ le_bytes ((ctr + 1) XOR addr), ctr + 1))"

fun put_hex :: "nat \<Rightarrow> nat \<Rightarrow> bytes \<Rightarrow> string" where
  "put_hex dstlen pos [] = []"
| "put_hex dstlen pos (b # bs) =
     (if pos + 2 < dstlen
      then hex_low (unat (drop_bit 4 b)) # hex_low (unat (b AND 15)) # put_hex dstlen (pos + 2) bs
      else [])"

definition random_tool_id :: "bytes \<Rightarrow> nat \<Rightarrow> api_style \<Rightarrow> string" where
  "random_tool_id random dstlen api =
     (let pre = (if api = API_ANTHROPIC then ''toolu_'' else ''call_''); pos = length pre in
      if pos \<ge> dstlen then take (dstlen - 1) pre else pre @ put_hex dstlen pos random)"

section \<open>Every parser consumes its value\<close>

lemma parse_reasoning_effort_value_scanner [scanner_intros]: "value_scanner parse_reasoning_effort_value"
  using length_json_ws
  by (intro value_scannerI) (fastforce simp: parse_reasoning_effort_value_def Let_def split: option.splits prod.splits
      dest: json_lit_length json_cstring_length intro: less_le_trans)

interpretation thinking: field_scanner thinking_field
  unfolding thinking_field_def by (intro field_scannerI scanner_intros)

interpretation output_config: field_scanner output_config_field
  unfolding output_config_field_def by (intro field_scannerI scanner_intros)

interpretation stream_options: field_scanner stream_options_field
  unfolding stream_options_field_def by (intro field_scannerI scanner_intros)

lemma arguments_field_scanner [scanner_intros]: "value_scanner arguments_field"
  unfolding arguments_field_def [abs_def] Let_def
  by (rule scanner_ws [where g = "\<lambda>tc p. if peek p = CHR 0x22 then _ tc p else _ tc p"]) (intro scanner_intros)

interpretation function_call: field_scanner function_call_field
  unfolding function_call_field_def by (intro field_scannerI scanner_intros)

lemma parse_function_call_scanner [scanner_intros]: "value_scanner parse_function_call"
  unfolding parse_function_call_def [abs_def] by (intro scanner_ws scanner_intros)

interpretation tool_call: field_scanner tool_call_field
  unfolding tool_call_field_def by (intro field_scannerI scanner_intros)

interpretation tool_call_array: value_scanner tool_call_item
  using value_scanner.progress [OF scanner_object, of tool_call_field]
  by unfold_locales (auto simp: tool_call_item_def split: prod.splits option.splits)

interpretation stops: value_scanner stop_item
  unfolding stop_item_def [abs_def] push_stop_field_def by (intro scanner_if_at scanner_intros)

end
