(* ===== verification/Streaming.thy ===== *)
theory Streaming
  imports Requests
begin

text \<open>
  Correctness of the two boundaries a stream of generated text respects (\<^verbatim>\<open>server.c\<close>): no byte of a
  stop sequence is ever sent, and no character is cut.
\<close>

section \<open>Stop lists\<close>

text \<open>The maximum the list carries is the length of its longest member, and no member is empty.\<close>

definition stop_list_wf :: "stop_list \<Rightarrow> bool" where
  "stop_list_wf sl \<longleftrightarrow> [] \<notin> set (stop_v sl) \<and> stop_max_len sl = foldr max (map length (stop_v sl)) 0"

lemma foldr_max_start: "foldr max ns (n :: nat) = max (foldr max ns 0) n"
  by (induction ns) auto

lemma foldr_max_ge: "n \<in> set ns \<Longrightarrow> n \<le> foldr max ns (0 :: nat)"
  by (induction ns) auto

lemma stop_list_wf_clear [simp]: "stop_list_wf (stop_list_clear sl)"
  by (simp add: stop_list_wf_def stop_list_clear_def)

lemma stop_list_wf_push [simp]: "stop_list_wf sl \<Longrightarrow> stop_list_wf (stop_list_push sl s)"
  by (auto simp: stop_list_wf_def stop_list_push_def foldr_max_start [of _ "length _"] split: option.splits)

lemma stop_item_wf: "stop_list_wf sl \<Longrightarrow> stop_list_wf (fst (stop_item sl p))"
  by (simp add: stop_item_def push_stop_field_def store_field_invariant)

lemma parse_stop_wf: "stop_list_wf (fst (parse_stop sl p))"
  unfolding parse_stop_def Let_def push_stop_field_def
  using array_value_invariant [of stop_list_wf stop_item, OF stop_item_wf]
  by (simp add: store_field_invariant)

lemma stop_max_len_ge: "stop_list_wf sl \<Longrightarrow> s \<in> set (stop_v sl) \<Longrightarrow> length s \<le> stop_max_len sl"
  by (simp add: stop_list_wf_def foldr_max_ge)

text \<open>A stop sequence at an offset of the text.\<close>

definition stop_at :: "string list \<Rightarrow> string \<Rightarrow> nat \<Rightarrow> bool" where
  "stop_at ss t q \<longleftrightarrow> (\<exists>s \<in> set ss. prefix s (drop q t))"

lemma find_stop_loop_spec:
  "case find_stop_loop t k best ss of
     None \<Rightarrow> best = None \<and> (\<forall>s \<in> set ss. strstr (drop k t) s = None)
   | Some (q, n) \<Rightarrow>
       (best = Some (q, n) \<or> (k \<le> q \<and> (\<exists>s \<in> set ss. n = length s \<and> prefix s (drop q t)))) \<and>
       (\<forall>bp bl. best = Some (bp, bl) \<longrightarrow> q \<le> bp) \<and>
       (\<forall>s \<in> set ss. \<forall>j. k \<le> j \<and> j < q \<longrightarrow> \<not> prefix s (drop j t))"
proof (induction t k best ss rule: find_stop_loop.induct)
  case (1 t k best)
  then show ?case by (auto split: option.splits)
next
  case (2 t k best s ss)
  show ?case
  proof (cases "strstr (drop k t) s")
    case None
    then have none: "\<not> prefix s (drop j t)" if "k \<le> j" for j
    proof -
      have "\<forall>i. i \<le> length (drop k t) \<longrightarrow> \<not> prefix s (drop i (drop k t))"
        using None by (simp only: strstr_None)
      then show ?thesis using that
        by (metis drop_all drop_drop le_add_diff_inverse2 linorder_le_cases prefix_bot.extremum_unique zero_le)
    qed
    show ?thesis using 2(1) [OF None] None none by (auto split: option.splits)
  next
    case (Some i)
    let ?b = "case best of None \<Rightarrow> Some (k + i, length s) | Some (bp, bl) \<Rightarrow> if k + i < bp then Some (k + i, length s) else best"
    have hit: "prefix s (drop (k + i) t)" using strstr_Some [OF Some] by (simp add: add.commute)
    have first: "\<not> prefix s (drop j t)" if "k \<le> j" "j < k + i" for j
      using strstr_first [OF Some, of "j - k"] that by simp
    have "find_stop_loop t k best (s # ss) = find_stop_loop t k ?b ss" using Some by (simp add: Let_def)
    then show ?thesis using 2(2) [OF Some refl refl] hit first
      by (auto split: option.splits if_splits prod.splits)
  qed
qed


lemma find_from_Some:
  assumes "stop_list_find_from sl (Some t) k = Some (q, n)"
  shows "k \<le> q" "\<exists>s \<in> set (stop_v sl). n = length s \<and> prefix s (drop q t)" "k \<le> j \<Longrightarrow> j < q \<Longrightarrow> \<not> stop_at (stop_v sl) t j"
  using assms find_stop_loop_spec [where t = t and k = k and best = None and ss = "stop_v sl"]
  by (auto simp: stop_list_find_from_def stop_at_def split: if_splits option.splits)

lemma find_from_None:
  assumes "stop_list_find_from sl (Some t) k = None"
  shows "s \<in> set (stop_v sl) \<Longrightarrow> strstr (drop k t) s = None"
  using assms find_stop_loop_spec [where t = t and k = k and best = None and ss = "stop_v sl"]
  by (auto simp: stop_list_find_from_def split: if_splits option.splits)

text \<open>
  The stop search returns the first stop of the text: if it reports a position and a length, a stop
  sequence of that length stands there, at or behind the start of the search, and no stop sequence
  starts anywhere between the start and that position.
\<close>

theorem stop_find_earliest:
  assumes "stop_list_find_from sl (Some t) k = Some (q, n)"
  shows "k \<le> q \<and> take n (drop q t) \<in> set (stop_v sl) \<and> (\<forall>j \<in> {k..<q}. \<forall>s \<in> set (stop_v sl). \<not> prefix s (drop j t))"
proof -
  obtain s where s: "s \<in> set (stop_v sl)" "n = length s" "prefix s (drop q t)"
    using find_from_Some(2) [OF assms] by blast
  then have "take n (drop q t) \<in> set (stop_v sl)" by (auto simp: prefix_def)
  then show ?thesis using find_from_Some(1) [OF assms] find_from_Some(3) [OF assms] by (auto simp: stop_at_def)
qed

theorem stop_find_earliest_witness:
  "stop_list_find_from \<lparr>stop_v = [''END'', ''b''], stop_max_len = 3\<rparr> (Some ''aab END'') 1 = Some (2, 1) \<and> take 1 ''b END'' = ''b''"
  using stop_find_earliest [of "\<lparr>stop_v = [''END'', ''b''], stop_max_len = 3\<rparr>" "''aab END''" 1 2 1]
  by (simp add: stop_list_find_from_def)

section \<open>Streaming before the stop is known\<close>

lemma stop_hit_extends:
  assumes wf: "stop_list_wf sl" and none: "stop_list_find_from sl (Some t) 0 = None"
    and s: "s \<in> set (stop_v sl)" "prefix s (drop q (t @ u))"
  shows "stop_list_stream_safe_len sl (length t) \<le> q"
proof -
  have ne: "s \<noteq> []" using wf s(1) by (auto simp: stop_list_wf_def)
  have "length t < q + length s"
  proof (rule ccontr)
    assume "\<not> length t < q + length s"
    then have "prefix s (drop q t)" using s(2) prefix_length_prefix [of s "drop q (t @ u)" "drop q t"] by auto
    moreover have "strstr t s = None" using find_from_None [OF none s(1)] by simp
    ultimately show False using \<open>\<not> length t < q + length s\<close> by (auto simp: strstr_None)
  qed
  then show ?thesis using stop_max_len_ge [OF wf s(1)] s(1)
    by (auto simp: stop_list_stream_safe_len_def Let_def)
qed

text \<open>
  C26.  Streaming never sends a byte of a stop sequence: with the stops of a request, if the text so far
  holds no stop, whatever is generated next, the first stop of the longer text starts at or behind
  the length that was declared safe to send.
\<close>

theorem stream_stop_safe:
  assumes "parse_stop sl p = (stops, Some r)" "stop_list_find_from stops (Some t) 0 = None"
    and "stop_list_find_from stops (Some (t @ u)) 0 = Some (q, n)"
  shows "stop_list_stream_safe_len stops (length t) \<le> q"
  using stop_hit_extends [OF _ assms(2)] find_from_Some(2) [OF assms(3)] parse_stop_wf [of sl p] assms(1) by auto

theorem stream_stop_safe_witness:
  "stop_list_stream_safe_len \<lparr>stop_v = [''END''], stop_max_len = 3\<rparr> (length ''text E'') \<le> 5"
proof -
  have "parse_stop \<lparr>stop_v = [], stop_max_len = 0\<rparr> (''['' @ json_escape ''END'' @ '']'') = (\<lparr>stop_v = [''END''], stop_max_len = 3\<rparr>, Some [])"
    by code_simp
  then show ?thesis
    by (rule stream_stop_safe [where t = "''text E''" and u = "''ND''" and n = 3]) code_simp+
qed

text \<open>
  The list of stop sequences a request yields is well formed, also when its parser gives up: no
  member is empty and the recorded maximum is the length of the longest member.
\<close>

theorem parse_stop_well_formed: "stop_list_wf (fst (parse_stop sl p))"
  by (rule parse_stop_wf)

section \<open>Characters\<close>

lemma of_byte_chr: "of_char (byte_chr w) = unat w mod (256 :: nat)"
  by (simp add: byte_chr_def of_char_of)

lemma or_high_bits:
  "\<forall>m \<in> set [0..<32]. (192 :: nat) OR m = 192 + m" "\<forall>m \<in> set [0..<16]. (224 :: nat) OR m = 224 + m"
  "\<forall>m \<in> set [0..<8]. (240 :: nat) OR m = 240 + m" "\<forall>m \<in> set [0..<64]. (128 :: nat) OR m = 128 + m"
  by code_simp+

lemma and_low_mask: "(n :: nat) AND 3 = n mod 4" "n AND 63 = n mod 64"
  using take_bit_eq_mask [of 2 n] take_bit_eq_mask [of 6 n] by (simp_all add: take_bit_eq_mod mask_eq_exp_minus_1)

lemma is_cont_div: "is_cont c \<longleftrightarrow> of_char c div 64 = (2 :: nat)"
proof -
  let ?n = "of_char c :: nat"
  have n: "?n < 256" by (rule of_char_bound)
  have "drop_bit 6 (?n AND 192) = ?n div 64 mod 4"
  proof -
    have "drop_bit 6 (?n AND 192) = drop_bit 6 ?n AND drop_bit 6 192" by (rule drop_bit_and)
    also have "\<dots> = ?n div 64 AND 3" by (simp add: drop_bit_eq_div)
    finally show ?thesis by (simp only: and_low_mask)
  qed
  then have hi: "(?n AND 192) div 64 = ?n div 64 mod 4" by (simp add: drop_bit_eq_div)
  have "take_bit 6 (?n AND 192) = take_bit 6 ?n AND take_bit 6 192" by (rule take_bit_and)
  then have lo: "(?n AND 192) mod 64 = 0" by (simp add: take_bit_eq_mod)
  have "?n AND 192 = 64 * (?n div 64 mod 4)" using hi lo by (metis add.right_neutral mult_div_mod_eq)
  then show ?thesis using n by (auto simp: is_cont_def)
qed

lemma cont_byte: "of_char (byte_chr (0x80 OR (w AND 0x3f))) = 128 + unat w mod (64 :: nat)"
proof -
  have "unat (w AND 0x3f) = unat w mod 64" by (simp add: unsigned_and_eq and_low_mask)
  then show ?thesis using or_high_bits(4) by (simp add: of_byte_chr unsigned_or_eq)
qed

lemma lead_bytes:
  "unat w < 2048 \<Longrightarrow> of_char (byte_chr (0xc0 OR drop_bit 6 w)) = 192 + unat w div (64 :: nat)"
  "unat w < 65536 \<Longrightarrow> of_char (byte_chr (0xe0 OR drop_bit 12 w)) = 224 + unat w div (4096 :: nat)"
  "unat w < 2097152 \<Longrightarrow> of_char (byte_chr (0xf0 OR drop_bit 18 w)) = 240 + unat w div (262144 :: nat)"
proof -
  have d: "unat (drop_bit k w) = unat w div 2 ^ k" for k by (simp only: unat_drop_bit_eq) (simp add: drop_bit_eq_div)
  show "unat w < 2048 \<Longrightarrow> of_char (byte_chr (0xc0 OR drop_bit 6 w)) = 192 + unat w div (64 :: nat)"
    using or_high_bits(1) by (simp only: of_byte_chr unsigned_or_eq d) simp
  show "unat w < 65536 \<Longrightarrow> of_char (byte_chr (0xe0 OR drop_bit 12 w)) = 224 + unat w div (4096 :: nat)"
    using or_high_bits(2) by (simp only: of_byte_chr unsigned_or_eq d) simp
  show "unat w < 2097152 \<Longrightarrow> of_char (byte_chr (0xf0 OR drop_bit 18 w)) = 240 + unat w div (262144 :: nat)"
    using or_high_bits(3) by (simp only: of_byte_chr unsigned_or_eq d) simp
qed


text \<open>The encoding of a code point: a leading byte that tells the length, then continuation bytes.\<close>

definition utf8_char :: "string \<Rightarrow> bool" where
  "utf8_char s \<longleftrightarrow> (case s of [] \<Rightarrow> False | l # cs \<Rightarrow>
     \<not> is_cont l \<and> utf8_expected_len l = Suc (length cs) \<and> (\<forall>c \<in> set cs. is_cont c) \<and> length cs \<le> 3)"

lemma is_cont_byte: "is_cont (byte_chr (0x80 OR (w AND 0x3f)))"
  by (simp add: is_cont_div cont_byte)

lemma byte_div64: "d < 64 \<Longrightarrow> (192 + d) div 64 = (3 :: nat)" "(128 + n mod 64) div 64 = (2 :: nat)"
  by simp_all

lemma utf8_char_valid:
  fixes cp :: u32
  assumes "unat cp < 0x110000" "\<not> (0xd800 \<le> unat cp \<and> unat cp \<le> 0xdfff)"
  shows "utf8_char (utf8_put cp)"
proof -
  have cp: "\<not> (cp > 0x10ffff \<or> (cp \<ge> 0xd800 \<and> cp \<le> 0xdfff))"
    using assms by (simp add: word_less_nat_alt word_le_nat_alt)
  consider "unat cp \<le> 0x7f" | "0x80 \<le> unat cp" "unat cp \<le> 0x7ff" | "0x800 \<le> unat cp" "unat cp \<le> 0xffff" | "0x10000 \<le> unat cp"
    by linarith
  then show ?thesis
  proof cases
    case 1
    then show ?thesis using cp
      by (simp add: utf8_put_def utf8_char_def word_le_nat_alt of_byte_chr is_cont_div utf8_expected_len_def Let_def)
  next
    case 2
    then have "2 \<le> unat cp div 64" "unat cp div 64 < 32" by (simp_all add: div_less_iff_less_mult less_eq_div_iff_mult_less_eq)
    with 2 show ?thesis using cp
      by (simp add: utf8_put_def utf8_char_def word_le_nat_alt lead_bytes is_cont_div cont_byte byte_div64 utf8_expected_len_def Let_def)
  next
    case 3
    then have "unat cp div 4096 < 16" by (simp add: div_less_iff_less_mult)
    with 3 show ?thesis using cp
      by (simp add: utf8_put_def utf8_char_def word_le_nat_alt lead_bytes is_cont_div cont_byte byte_div64 utf8_expected_len_def Let_def)
  next
    case 4
    then have "unat cp div 262144 \<le> 4" using assms(1) by (simp add: less_Suc_eq_le [symmetric] div_less_iff_less_mult)
    with 4 assms(1) show ?thesis using cp
      by (simp add: utf8_put_def utf8_char_def word_le_nat_alt lead_bytes is_cont_div cont_byte byte_div64 utf8_expected_len_def Let_def)
  qed
qed

lemma utf8_char_put: "utf8_char (utf8_put cp)"
proof (cases "cp > 0x10ffff \<or> (cp \<ge> 0xd800 \<and> cp \<le> 0xdfff)")
  case True
  then have "utf8_put cp = utf8_put 0xfffd" by (simp add: utf8_put_def)
  then show ?thesis using utf8_char_valid [of "0xfffd"] by simp
next
  case False
  then show ?thesis by (intro utf8_char_valid) (auto simp: word_less_nat_alt word_le_nat_alt)
qed

lemma cont_back_run:
  "s = A @ l # cs @ cs' @ rest \<Longrightarrow> \<forall>c \<in> set cs. is_cont c \<Longrightarrow> \<not> is_cont l \<Longrightarrow> start \<le> length A \<Longrightarrow> n + length cs \<le> 4 \<Longrightarrow>
    cont_back s start (Suc (length A + length cs)) n = Suc (length A)"
proof (induction cs arbitrary: cs' n rule: rev_induct)
  case Nil
  then show ?case by (simp add: cont_back.simps [of _ _ "Suc _"] nth_append)
next
  case (snoc c cs)
  have "s ! Suc (length A + length cs) = c" using snoc(2) by (simp add: nth_append)
  then have "cont_back s start (Suc (length A + length (cs @ [c]))) n = cont_back s start (Suc (length A + length cs)) (Suc n)"
    using snoc(3,5,6) by (simp add: cont_back.simps [of _ _ "Suc (Suc _)"])
  also have "\<dots> = Suc (length A)" using snoc(1) [of "c # cs'" "Suc n"] snoc(2-6) by simp
  finally show ?case .
qed

lemma utf8_safe_core:
  assumes s: "s = A @ l # cs @ rest" and cs: "\<forall>c \<in> set cs. is_cont c" "\<not> is_cont l" "length cs \<le> 3" and start: "start \<le> length A"
  shows "utf8_stream_safe_len (Some s) start (Suc (length A + length cs)) False =
    (if Suc (length cs) < utf8_expected_len l then length A else Suc (length A + length cs))"
proof -
  have p: "cont_back s start (Suc (length A + length cs)) 0 = Suc (length A)"
    using cont_back_run [of s A l cs "[]" rest start 0] assms by simp
  have "s ! length A = l" using s by simp
  with p show ?thesis using start by (cases cs) (auto simp: utf8_stream_safe_len_def Let_def)
qed

lemma utf8_char_split:
  assumes "utf8_char ch" "k \<le> length ch" "0 < k"
  obtains l cs where "take k ch = l # cs" "Suc (length cs) = k" "\<not> is_cont l" "\<forall>c \<in> set cs. is_cont c" "length cs \<le> 3"
    "utf8_expected_len l = length ch"
  using assms by (cases ch; cases k) (auto simp: utf8_char_def dest: in_set_takeD)

text \<open>
  C27.  A stream is cut only between characters: if the bytes since the last event are whole characters
  followed by the first bytes of one more, exactly the whole characters are released and the begun
  one is held back, whatever follows it later in the buffer; without a begun character everything is
  released.
\<close>

theorem utf8_boundary_exact:
  assumes "s = sent @ concat (map utf8_put cps) @ take k (utf8_put cp) @ rest" "k < length (utf8_put cp)"
  shows "utf8_stream_safe_len (Some s) (length sent) (length (sent @ concat (map utf8_put cps)) + k) False =
    length (sent @ concat (map utf8_put cps))"
proof (cases "k = 0")
  case False
  then obtain l cs where *: "take k (utf8_put cp) = l # cs" "Suc (length cs) = k" "\<not> is_cont l" "\<forall>c \<in> set cs. is_cont c"
      "length cs \<le> 3" "utf8_expected_len l = length (utf8_put cp)"
    using utf8_char_split [OF utf8_char_put [of cp], of k] assms(2) by (metis less_imp_le neq0_conv)
  let ?A = "sent @ concat (map utf8_put cps)"
  have "s = ?A @ l # cs @ rest" using assms(1) *(1) by simp
  from utf8_safe_core [OF this *(4) *(3) *(5), of "length sent"]
  have "utf8_stream_safe_len (Some s) (length sent) (length ?A + k) False = (if k < length (utf8_put cp) then length ?A else length ?A + k)"
    unfolding *(6) by (simp flip: *(2))
  then show ?thesis using assms(2) by simp
next
  case True
  show ?thesis
  proof (cases cps rule: rev_cases)
    case Nil
    then show ?thesis using True by (simp add: utf8_stream_safe_len_def)
  next
    case (snoc cps' c)
    obtain l cs where *: "utf8_put c = l # cs" "\<not> is_cont l" "\<forall>c \<in> set cs. is_cont c" "length cs \<le> 3"
        "utf8_expected_len l = length (utf8_put c)"
      using utf8_char_put [of c] by (cases "utf8_put c") (auto simp: utf8_char_def)
    let ?A = "sent @ concat (map utf8_put cps')"
    have "s = ?A @ l # cs @ rest" using assms(1) True snoc *(1) by simp
    from utf8_safe_core [OF this *(3) *(2) *(4), of "length sent"] show ?thesis using *(1,5) True snoc by (simp add: add.assoc)
  qed
qed

theorem utf8_boundary_exact_witness:
  "utf8_stream_safe_len (Some (''ab'' @ utf8_put 0x20ac @ take 2 (utf8_put 0x1f600))) 1 7 False = 5"
proof -
  have s: "''ab'' @ utf8_put 0x20ac @ take 2 (utf8_put 0x1f600) =
      ''a'' @ concat (map utf8_put [0x62, 0x20ac]) @ take 2 (utf8_put 0x1f600) @ []" by code_simp
  have k: "2 < length (utf8_put 0x1f600)" by code_simp
  have "length (''a'' @ concat (map utf8_put [0x62, 0x20ac])) = 5" by code_simp
  with utf8_boundary_exact [OF s k] show ?thesis by simp
qed
end
