(* ===== verification/ToolSchemas.thy ===== *)
theory ToolSchemas
  imports Requests
begin

text \<open>
  The tool schemas of a request (\<^verbatim>\<open>server.c\<close>): OpenAI tools are unwrapped, Responses namespaces
  flattened and hosted tools rewritten, so that the prompt has one function schema per line; beside
  it the property order of every schema is recorded.  A failed parser keeps what it has recorded, as
  the C code does.
\<close>

abbreviation dq :: string where "dq \<equiv> [CHR 0x22]"
abbreviation nl :: string where "nl \<equiv> [CHR 0x0A]"

section \<open>Schemas of single tools\<close>

definition append_raw_json_line :: "string \<Rightarrow> string option \<Rightarrow> string" where
  "append_raw_json_line b json = (case json of None \<Rightarrow> b | Some j \<Rightarrow>
     if j = [] then b else b @ (if b \<noteq> [] then nl else []) @ j)"

text \<open>The handler that finds the function leaves the loop at once with its value.\<close>

definition function_schema_field :: "string \<Rightarrow> string option scanner" where
  "function_schema_field key =
     (if key = ''function'' then (\<lambda>v p. case json_raw_value p of None \<Rightarrow> (None, None) | Some (raw, r) \<Rightarrow> (Some raw, None))
      else skip_field)"

definition openai_function_schema_from_tool :: "string \<Rightarrow> string option" where
  "openai_function_schema_from_tool raw = (let p = json_ws raw in
     if peek p \<noteq> CHR ''{'' then None else fst (object_fields function_schema_field None (json_ws (tl p))))"

record schema_vars =
  sv_type :: "string option"
  sv_name :: "string option"
  sv_description :: "string option"
  sv_parameters :: "string option"

definition schema_vars_zero :: schema_vars where
  "schema_vars_zero = \<lparr>sv_type = None, sv_name = None, sv_description = None, sv_parameters = None\<rparr>"

definition special_field :: "string \<Rightarrow> schema_vars scanner" where
  "special_field key =
     (if key = ''type'' then store_field json_cstring (\<lambda>s. sv_type_update (\<lambda>_. Some s))
      else if key = ''description'' then store_field json_cstring (\<lambda>s. sv_description_update (\<lambda>_. Some s))
      else if key = ''parameters'' then store_field json_raw_value (\<lambda>s. sv_parameters_update (\<lambda>_. Some s))
      else skip_field)"

definition or_default :: "string option \<Rightarrow> string \<Rightarrow> string" where
  "or_default s d = (case s of None \<Rightarrow> d | Some x \<Rightarrow> x)"

definition empty_schema :: string where
  "empty_schema = ''{'' @ dq @ ''type'' @ dq @ '':'' @ dq @ ''object'' @ dq @ '','' @ dq @ ''properties'' @ dq @ '':{}}''"

definition responses_special_schema_from_tool :: "string \<Rightarrow> string option" where
  "responses_special_schema_from_tool raw = (let p = json_ws raw in
     if peek p \<noteq> CHR ''{'' then None
     else (case object_fields special_field schema_vars_zero (json_ws (tl p)) of
       (v, None) \<Rightarrow> None
     | (v, Some _) \<Rightarrow>
         if sv_type v = Some ''tool_search''
         then Some (''{'' @ dq @ ''name'' @ dq @ '':'' @ dq @ ''tool_search'' @ dq @ '','' @ dq @ ''description'' @ dq @ '':'' @
                json_escape (or_default (sv_description v) ''Search available tools.'') @
                '','' @ dq @ ''parameters'' @ dq @ '':'' @ or_default (sv_parameters v) empty_schema @ ''}'')
         else None))"

definition namespace_function_field :: "string \<Rightarrow> schema_vars scanner" where
  "namespace_function_field key =
     (if key = ''type'' then store_field json_cstring (\<lambda>s. sv_type_update (\<lambda>_. Some s))
      else if key = ''name'' then store_field json_cstring (\<lambda>s. sv_name_update (\<lambda>_. Some s))
      else if key = ''description'' then store_field json_cstring (\<lambda>s. sv_description_update (\<lambda>_. Some s))
      else if key = ''parameters'' \<or> key = ''input_schema'' then store_field json_raw_value (\<lambda>s. sv_parameters_update (\<lambda>_. Some s))
      else skip_field)"

text \<open>The schema and the name the client knows the function by.\<close>

definition responses_namespace_function_schema_from_tool :: "string \<Rightarrow> string option \<Rightarrow> (string \<times> string) option" where
  "responses_namespace_function_schema_from_tool raw namespace = (let p = json_ws raw in
     if peek p \<noteq> CHR ''{'' then None
     else (case object_fields namespace_function_field schema_vars_zero (json_ws (tl p)) of
       (v, None) \<Rightarrow> None
     | (v, Some _) \<Rightarrow> (case (namespace, sv_name v) of
         (Some ns, Some name) \<Rightarrow>
           if (sv_type v = None \<or> sv_type v = Some ''function'') \<and> name \<noteq> []
           then Some (''{'' @ dq @ ''name'' @ dq @ '':'' @ json_escape (ns @ name) @ '','' @ dq @ ''description'' @ dq @ '':'' @
                  json_escape (or_default (sv_description v) []) @ '','' @ dq @ ''parameters'' @ dq @ '':'' @
                  or_default (sv_parameters v) empty_schema @ ''}'', name)
           else None
       | _ \<Rightarrow> None)))"

section \<open>Property orders\<close>

definition prop_field :: "string \<Rightarrow> tool_schema_order scanner" where
  "prop_field prop o1 p = skip_field (tool_schema_order_prop_push o1 prop) p"

definition schema_field :: "string \<Rightarrow> tool_schema_order scanner" where
  "schema_field key = (if key = ''properties'' then (\<lambda>o1 p. object_value prop_field o1 (json_ws p)) else skip_field)"

definition parse_schema_properties :: "string \<Rightarrow> tool_schema_order \<Rightarrow> tool_schema_order \<times> bool" where
  "parse_schema_properties json o1 = (let p = json_ws json in
     if peek p \<noteq> CHR ''{'' then (o1, False)
     else (case object_fields schema_field o1 (json_ws (tl p)) of
       (o2, None) \<Rightarrow> (o2, False) | (o2, Some q) \<Rightarrow> (o2, peek q = CHR ''}'')))"

definition order_field :: "string \<Rightarrow> tool_schema_order scanner" where
  "order_field key =
     (if key = ''name'' then store_field json_cstring (\<lambda>s. so_name_update (\<lambda>_. Some s))
      else if key = ''input_schema'' \<or> key = ''parameters'' then
        store_field json_raw_value (\<lambda>schema o1. fst (parse_schema_properties schema o1))
      else skip_field)"

definition nonempty :: "string option \<Rightarrow> string option" where
  "nonempty s = (case s of None \<Rightarrow> None | Some x \<Rightarrow> if x = [] then None else Some x)"

definition tool_schema_orders_add_json_wire ::
  "tool_schema_orders \<Rightarrow> string option \<Rightarrow> string option \<Rightarrow> string option \<Rightarrow> bool \<Rightarrow> tool_schema_orders" where
  "tool_schema_orders_add_json_wire os json namespace wire rts = (case json of None \<Rightarrow> os | Some j \<Rightarrow>
     let p = json_ws j in
     if peek p \<noteq> CHR ''{'' then os
     else (case object_fields order_field tool_schema_order_zero (json_ws (tl p)) of
       (o1, None) \<Rightarrow> os
     | (o1, Some _) \<Rightarrow>
         if so_name o1 = None then os
         else tool_schema_orders_push os
           (o1\<lparr>so_namespace := nonempty namespace, so_wire_name := nonempty wire, responses_tool_search := rts\<rparr>)))"

definition tool_schema_orders_add_json :: "tool_schema_orders \<Rightarrow> string option \<Rightarrow> tool_schema_orders" where
  "tool_schema_orders_add_json os json = tool_schema_orders_add_json_wire os json None None False"

section \<open>Namespaces and the tool list\<close>

record namespace_vars =
  nv_type :: "string option"
  nv_name :: "string option"
  nv_tools :: "string option"

definition namespace_field :: "string \<Rightarrow> namespace_vars scanner" where
  "namespace_field key =
     (if key = ''type'' then store_field json_cstring (\<lambda>s. nv_type_update (\<lambda>_. Some s))
      else if key = ''name'' then store_field json_cstring (\<lambda>s. nv_name_update (\<lambda>_. Some s))
      else if key = ''tools'' then store_field json_raw_value (\<lambda>s. nv_tools_update (\<lambda>_. Some s))
      else skip_field)"

type_synonym schema_state = "string \<times> tool_schema_orders \<times> bool"

definition namespace_tool_item :: "string \<Rightarrow> schema_state scanner" where
  "namespace_tool_item name st p = (case st of (schemas, orders, appended) \<Rightarrow>
     (case json_raw_value p of None \<Rightarrow> (st, None)
      | Some (tool_raw, r) \<Rightarrow>
         (case responses_namespace_function_schema_from_tool tool_raw (Some name) of
            None \<Rightarrow> (st, Some r)
          | Some (schema, wire) \<Rightarrow>
              ((append_raw_json_line schemas (Some schema),
                tool_schema_orders_add_json_wire orders (Some schema) (Some name) (Some wire) False, True), Some r))))"

definition append_responses_namespace_tool_schemas :: "string \<Rightarrow> tool_schema_orders \<Rightarrow> string \<Rightarrow> schema_state" where
  "append_responses_namespace_tool_schemas schemas orders raw = (let p = json_ws raw in
     if peek p \<noteq> CHR ''{'' then (schemas, orders, False)
     else (case object_fields namespace_field \<lparr>nv_type = None, nv_name = None, nv_tools = None\<rparr> (json_ws (tl p)) of
       (v, None) \<Rightarrow> (schemas, orders, False)
     | (v, Some _) \<Rightarrow> (case (nv_name v, nv_tools v) of
         (Some name, Some tools) \<Rightarrow>
           (let tp = json_ws tools in
            if nv_type v \<noteq> Some ''namespace'' \<or> peek tp \<noteq> CHR ''['' then (schemas, orders, False)
            else fst (array_items (namespace_tool_item name) (schemas, orders, False) (json_ws (tl tp))))
       | _ \<Rightarrow> (schemas, orders, False))))"

text \<open>What one member of the tool list adds.\<close>

definition add_tool :: "string \<Rightarrow> string \<times> tool_schema_orders \<Rightarrow> string \<times> tool_schema_orders" where
  "add_tool raw st = (case st of (schemas, orders) \<Rightarrow>
     (case openai_function_schema_from_tool raw of
        Some f \<Rightarrow> (append_raw_json_line schemas (Some f), tool_schema_orders_add_json orders (Some f))
      | None \<Rightarrow> (case append_responses_namespace_tool_schemas schemas orders raw of (schemas', orders', appended) \<Rightarrow>
          if appended then (schemas', orders')
          else (case responses_special_schema_from_tool raw of
              Some sp \<Rightarrow> (append_raw_json_line schemas' (Some sp), tool_schema_orders_add_json_wire orders' (Some sp) None None True)
            | None \<Rightarrow> (append_raw_json_line schemas' (Some raw), tool_schema_orders_add_json orders' (Some raw))))))"

definition tool_item :: "(string \<times> tool_schema_orders) scanner" where
  "tool_item = store_field json_raw_value add_tool"

definition parse_tools_value :: "(string option \<times> tool_schema_orders) scanner" where
  "parse_tools_value st p0 = (case st of (out, orders) \<Rightarrow>
     (let p = json_ws p0 in
      case json_lit p ''null'' of Some r \<Rightarrow> ((Some [], orders), Some r) | None \<Rightarrow>
      (case array_value tool_item ([], orders) p of
         ((schemas, orders'), None) \<Rightarrow> ((out, orders'), None)
       | ((schemas, orders'), Some r) \<Rightarrow> ((Some schemas, orders'), Some r))))"

section \<open>Every parser consumes its value\<close>

interpretation function_schema: field_scanner function_schema_field
  unfolding function_schema_field_def
  by (intro field_scannerI scanner_if scanner_skip value_scannerI) (auto split: option.splits)

interpretation special_schema: field_scanner special_field
  unfolding special_field_def by (intro field_scannerI scanner_intros)

interpretation namespace_function: field_scanner namespace_function_field
  unfolding namespace_function_field_def by (intro field_scannerI scanner_intros)

interpretation schema_property: field_scanner prop_field
  by unfold_locales (auto simp: prop_field_def skip_field_def json_skip_value_length)

interpretation schema: field_scanner schema_field
  unfolding schema_field_def by (intro field_scannerI scanner_if scanner_ws scanner_object scanner_skip)

interpretation schema_order: field_scanner order_field
  unfolding order_field_def by (intro field_scannerI scanner_intros)

interpretation namespace_tools: field_scanner namespace_field
  unfolding namespace_field_def by (intro field_scannerI scanner_intros)

interpretation namespace_tool: value_scanner "namespace_tool_item name" for name
  by unfold_locales (auto simp: namespace_tool_item_def split: prod.splits option.splits dest: json_raw_value_length)

interpretation tool: value_scanner tool_item
  unfolding tool_item_def by (intro scanner_intros)

section \<open>The table of property orders\<close>

definition orders_wf :: "tool_schema_orders \<Rightarrow> bool" where
  "orders_wf os \<longleftrightarrow> None \<notin> set (map so_name os) \<and> distinct (map so_name os)"

lemma find_index_from_shift: "find_index_from i os n = map_option (\<lambda>k. i + k) (find_index_from 0 os n)"
proof (induction os arbitrary: i)
  case (Cons o1 os)
  show ?case using Cons.IH [of "Suc i"] Cons.IH [of 1] by (simp add: option.map_comp comp_def)
qed simp

lemma find_index_Cons:
  "find_index_from 0 (o1 # os) n = (if so_name o1 = Some n then Some 0 else map_option Suc (find_index_from 0 os n))"
  using find_index_from_shift [of 1 os n] by simp

declare find_index_from.simps(2) [simp del] find_index_Cons [simp]

lemma find_index_Some:
  "find_index_from 0 os n = Some i \<Longrightarrow> i < length os \<and> so_name (os ! i) = Some n"
  by (induction os arbitrary: i) (auto split: if_splits)

lemma find_index_None: "find_index_from 0 os n = None \<longleftrightarrow> Some n \<notin> so_name ` set os"
  by (induction os) auto

lemma find_index_update:
  "find_index_from 0 os n = Some i \<Longrightarrow> so_name o1 = Some n \<Longrightarrow> find_index_from 0 (os[i := o1]) m = find_index_from 0 os m"
  by (induction os arbitrary: i) (auto split: if_splits nat.splits simp: list_update.simps)

lemma find_index_append:
  "find_index_from 0 (os @ [o1]) m =
     (case find_index_from 0 os m of Some i \<Rightarrow> Some i | None \<Rightarrow> if so_name o1 = Some m then Some (length os) else None)"
  by (induction os) (auto split: option.splits)

lemma orders_wf_push:
  assumes "orders_wf os" "so_name o1 \<noteq> None" shows "orders_wf (tool_schema_orders_push os o1)"
proof -
  obtain n where n: "so_name o1 = Some n" using assms(2) by blast
  show ?thesis
  proof (cases "find_index_from 0 os n")
    case None
    then show ?thesis using assms n find_index_None [of os n]
      by (auto simp: orders_wf_def tool_schema_orders_push_def tool_schema_orders_find_index_def)
  next
    case (Some i)
    then have "map so_name (os[i := o1]) = map so_name os"
      using find_index_Some [OF Some] n by (metis list_update_id map_update nth_map)
    then show ?thesis using assms n Some
      by (simp add: orders_wf_def tool_schema_orders_push_def tool_schema_orders_find_index_def)
  qed
qed

lemma orders_wf_add_json_wire: "orders_wf os \<Longrightarrow> orders_wf (tool_schema_orders_add_json_wire os json ns wire rts)"
  by (auto simp: tool_schema_orders_add_json_wire_def Let_def orders_wf_push split: option.splits prod.splits)

lemma orders_wf_namespace_item:
  "orders_wf (fst (snd st)) \<Longrightarrow> orders_wf (fst (snd (fst (namespace_tool_item name st p))))"
  by (auto simp: namespace_tool_item_def orders_wf_add_json_wire split: prod.splits option.splits)

lemma orders_wf_namespace:
  assumes "orders_wf orders"
  shows "orders_wf (fst (snd (append_responses_namespace_tool_schemas schemas orders raw)))"
  using assms array_items_invariant [of "\<lambda>st. orders_wf (fst (snd st))", OF orders_wf_namespace_item]
  by (auto simp: append_responses_namespace_tool_schemas_def Let_def split: prod.splits option.splits)

lemma orders_wf_add_tool: "orders_wf (snd st) \<Longrightarrow> orders_wf (snd (add_tool raw st))"
proof (cases st)
  case (Pair schemas orders)
  assume "orders_wf (snd st)"
  with Pair show ?thesis using orders_wf_namespace [of orders schemas raw]
    by (auto simp: add_tool_def tool_schema_orders_add_json_def orders_wf_add_json_wire split: prod.splits option.splits)
qed

text \<open>
  The table of schema orders has at most one entry per tool name, and every entry has a name,
  whatever the tool list of the request holds and wherever its parser gives up.
\<close>

theorem tool_orders_unique:
  assumes "orders_wf orders"
  shows "orders_wf (snd (fst (parse_tools_value (out, orders) p)))"
proof -
  have item: "orders_wf (snd st) \<Longrightarrow> orders_wf (snd (fst (tool_item st q)))" for st q
    by (auto simp: tool_item_def store_field_def orders_wf_add_tool split: option.splits)
  have "orders_wf (snd (fst (array_value tool_item ([], orders) q)))" for q
    by (rule array_value_invariant [of "\<lambda>st. orders_wf (snd st)", OF item]) (simp_all add: assms)
  then show ?thesis using assms
    by (auto simp: parse_tools_value_def Let_def split: prod.splits option.splits) (metis fst_conv snd_conv)+
qed

theorem tool_orders_unique_witness:
  "let p = ''[{'' @ dq @ ''name'' @ dq @ '':'' @ dq @ ''ls'' @ dq @ ''},{'' @ dq @ ''name'' @ dq @ '':'' @ dq @ ''ls'' @ dq @ ''}]'';
       orders = snd (fst (parse_tools_value (None, []) p))
   in orders_wf orders \<and> map so_name orders = [Some ''ls'']"
proof -
  let ?p = "''[{'' @ dq @ ''name'' @ dq @ '':'' @ dq @ ''ls'' @ dq @ ''},{'' @ dq @ ''name'' @ dq @ '':'' @ dq @ ''ls'' @ dq @ ''}]''"
  have "map so_name (snd (fst (parse_tools_value (None, []) ?p))) = [Some ''ls'']" by code_simp
  moreover have "orders_wf (snd (fst (parse_tools_value (None, []) ?p)))"
    by (rule tool_orders_unique) (simp add: orders_wf_def)
  ultimately show ?thesis unfolding Let_def by (intro conjI)
qed

text \<open>
  A recorded order is the one found: after an order with a name has been recorded, a lookup of that
  name returns it, and lookups of other names are what they were.
\<close>

theorem tool_orders_lookup:
  assumes "so_name o1 = Some n"
  shows "tool_schema_orders_find (tool_schema_orders_push os o1) m =
    (if m = Some n then Some o1 else tool_schema_orders_find os m)"
proof (cases "find_index_from 0 os n")
  case None
  then show ?thesis using assms find_index_Some
    by (cases m) (fastforce simp: tool_schema_orders_find_def tool_schema_orders_push_def tool_schema_orders_find_index_def
      find_index_append nth_append split: option.splits)+
next
  case (Some i)
  note i = find_index_Some [OF Some]
  show ?thesis
  proof (cases m)
    case None
    then show ?thesis by (simp add: tool_schema_orders_find_def tool_schema_orders_find_index_def)
  next
    case m: (Some k)
    have "find_index_from 0 os k = Some j \<Longrightarrow> k \<noteq> n \<Longrightarrow> j \<noteq> i" for j using find_index_Some i by fastforce
    then show ?thesis using m assms Some i
      by (cases "find_index_from 0 os k") (auto simp: tool_schema_orders_find_def tool_schema_orders_push_def
        tool_schema_orders_find_index_def find_index_update)
  qed
qed

theorem tool_orders_lookup_witness:
  "tool_schema_orders_find (tool_schema_orders_push [] (tool_schema_order_zero\<lparr>so_name := Some ''ls''\<rparr>)) (Some ''ls'') =
     Some (tool_schema_order_zero\<lparr>so_name := Some ''ls''\<rparr>)"
  using tool_orders_lookup [of "tool_schema_order_zero\<lparr>so_name := Some ''ls''\<rparr>" "''ls''" "[]" "Some ''ls''"] by simp

end
