(* ===== verification/Escaping.thy ===== *)
theory Escaping
  imports ToolSchemas
begin

text \<open>
  The text escaping between tool data and the chat template (\<^verbatim>\<open>server.c\<close>): values are kept as they are
  except for their own closing tag, attributes are escaped in full, and the parser of generated text
  undoes the entities.  Strings given to these functions are C strings that may be NULL.
\<close>

abbreviation of_ptr :: "string option \<Rightarrow> string" where "of_ptr s \<equiv> cstr (or_default s [])"

section \<open>Tags\<close>

text \<open>The bytes of the two wide characters the DeepSeek tags are written with.\<close>

definition bar :: string where "bar = [CHR 0xEF, CHR 0xBD, CHR 0x9C]"
definition low_line :: string where "low_line = [CHR 0xE2, CHR 0x96, CHR 0x81]"

definition DS4_DSML :: string where "DS4_DSML = bar @ ''DSML'' @ bar"
definition DS4_DSML_SHORT :: string where "DS4_DSML_SHORT = ''DSML'' @ bar"

definition DS4_TOOL_CALLS_START :: string where "DS4_TOOL_CALLS_START = ''<'' @ DS4_DSML @ ''tool_calls>''"
definition DS4_TOOL_CALLS_END :: string where "DS4_TOOL_CALLS_END = ''</'' @ DS4_DSML @ ''tool_calls>''"
definition DS4_INVOKE_START :: string where "DS4_INVOKE_START = ''<'' @ DS4_DSML @ ''invoke''"
definition DS4_INVOKE_END :: string where "DS4_INVOKE_END = ''</'' @ DS4_DSML @ ''invoke>''"
definition DS4_PARAM_START :: string where "DS4_PARAM_START = ''<'' @ DS4_DSML @ ''parameter''"
definition DS4_PARAM_END :: string where "DS4_PARAM_END = ''</'' @ DS4_DSML @ ''parameter>''"

section \<open>Escaping\<close>

definition attr_escape_char :: "char \<Rightarrow> string" where
  "attr_escape_char c =
     (if c = CHR ''&'' then ''&amp;''
      else if c = CHR ''<'' then ''&lt;''
      else if c = CHR ''>'' then ''&gt;''
      else if c = CHR 0x22 then ''&quot;''
      else [c])"

definition append_dsml_attr_escaped :: "string option \<Rightarrow> string" where
  "append_dsml_attr_escaped s = concat (map attr_escape_char (of_ptr s))"

text \<open>The loop shared by the text escapes: the first character of each closing tag is replaced.\<close>

fun tag_escape :: "string \<Rightarrow> string \<Rightarrow> string \<Rightarrow> string" where
  "tag_escape tag rep [] = []"
| "tag_escape tag rep (c # s) = (if prefix tag (c # s) then rep @ tag_escape tag rep s else c # tag_escape tag rep s)"

definition append_dsml_parameter_text :: "string option \<Rightarrow> string" where
  "append_dsml_parameter_text s = tag_escape DS4_PARAM_END ''&lt;'' (of_ptr s)"

definition append_glm_tag_body_text :: "string option \<Rightarrow> string \<Rightarrow> string" where
  "append_glm_tag_body_text s tag = tag_escape tag ''&lt;'' (of_ptr s)"

definition append_glm_arg_key_text :: "string option \<Rightarrow> string" where
  "append_glm_arg_key_text s = append_glm_tag_body_text s ''</arg_key>''"

definition append_glm_arg_value_text :: "string option \<Rightarrow> string" where
  "append_glm_arg_value_text s = append_glm_tag_body_text s ''</arg_value>''"

definition append_glm_tool_response_text :: "string option \<Rightarrow> string" where
  "append_glm_tool_response_text s = append_glm_tag_body_text s ''</tool_response>''"

definition append_tool_result_text :: "string option \<Rightarrow> string" where
  "append_tool_result_text s = tag_escape ''</tool_result>'' ''&lt;'' (of_ptr s)"

definition append_dsml_json_literal :: "string option \<Rightarrow> string" where
  "append_dsml_json_literal s = tag_escape DS4_PARAM_END ([CHR 0x5C] @ ''u003c'') (of_ptr s)"

section \<open>Unescaping\<close>

function unescape_loop :: "string \<Rightarrow> string" where
  "unescape_loop s =
     (case s of [] \<Rightarrow> []
      | c # s' \<Rightarrow>
          if c \<noteq> CHR ''&'' then c # unescape_loop s'
          else if prefix ''&amp;'' s then CHR ''&'' # unescape_loop (drop 5 s)
          else if prefix ''&lt;'' s then CHR ''<'' # unescape_loop (drop 4 s)
          else if prefix ''&gt;'' s then CHR ''>'' # unescape_loop (drop 4 s)
          else if prefix ''&quot;'' s then CHR 0x22 # unescape_loop (drop 6 s)
          else if prefix ''&apos;'' s then CHR 0x27 # unescape_loop (drop 6 s)
          else CHR ''&'' # unescape_loop s')"
  by pat_completeness auto

termination unescape_loop
  by (relation "measure length") auto

declare unescape_loop.simps [simp del]

definition dsml_unescape_text :: "string option \<Rightarrow> string" where
  "dsml_unescape_text s = unescape_loop (of_ptr s)"

text \<open>The value of an attribute of a tag; the pattern buffer holds 63 characters.\<close>

definition dsml_attr :: "string \<Rightarrow> string \<Rightarrow> string option" where
  "dsml_attr tag name = (let pat = take 63 (name @ ''='' @ dq) in
     case strstr tag pat of None \<Rightarrow> None
     | Some i \<Rightarrow> (let p = drop (i + length pat) tag in
         case strstr p dq of None \<Rightarrow> None
         | Some n \<Rightarrow> Some (dsml_unescape_text (Some (take n p)))))"

section \<open>A closing tag ends its own element\<close>

lemma strstr_skip: "tag \<noteq> [] \<Longrightarrow> hd tag \<notin> set pre \<Longrightarrow> strstr (pre @ t) tag = map_option (\<lambda>i. length pre + i) (strstr t tag)"
proof (induction pre)
  case Nil
  then show ?case by (simp add: option.map_ident)
next
  case (Cons c pre)
  then have "\<not> prefix tag (c # pre @ t)" by (cases tag) auto
  with Cons show ?case by (simp add: option.map_comp comp_def)
qed

lemma strstr_here: "prefix tag t \<Longrightarrow> strstr t tag = Some 0"
  by (cases t) auto

text \<open>
  What makes the replacement safe: the tag opens with a character it does not contain again, and the
  replacement starts with one the tag does not contain at all.
\<close>

locale tag_escaping =
  fixes tag rep :: string
  assumes tag_opens: "tag \<noteq> []" "hd tag \<notin> set (tl tag)"
    and rep_foreign: "rep \<noteq> []" "hd rep \<notin> set tag" "hd tag \<notin> set rep"
begin

lemma prefix_through:
  "prefix u (tag_escape tag rep s @ hd tag # t) \<Longrightarrow> hd tag \<notin> set u \<Longrightarrow> hd rep \<notin> set u \<Longrightarrow> prefix u s"
proof (induction s arbitrary: u)
  case Nil
  then show ?case by (cases u) auto
next
  case (Cons c s)
  show ?case
  proof (cases u)
    case u: (Cons d v)
    then show ?thesis
    proof (cases "prefix tag (c # s)")
      case True
      then show ?thesis using Cons.prems u rep_foreign(1) by (cases rep) auto
    next
      case False
      then show ?thesis using Cons u by auto
    qed
  qed simp
qed

lemma closing_tag_first: "strstr (tag_escape tag rep s @ tag @ t) tag = Some (length (tag_escape tag rep s))"
proof (induction s)
  case Nil
  show ?case by (simp add: strstr_here)
next
  case (Cons c s)
  show ?case
  proof (cases "prefix tag (c # s)")
    case True
    then show ?thesis using Cons strstr_skip [OF tag_opens(1) rep_foreign(3)] by simp
  next
    case False
    have "\<not> prefix tag (c # tag_escape tag rep s @ tag @ t)"
    proof
      assume p: "prefix tag (c # tag_escape tag rep s @ tag @ t)"
      obtain u where tag: "tag = c # u" using p tag_opens(1) by (cases tag) auto
      then have "prefix u s" using p prefix_through [of u s "u @ t"] tag_opens(2) rep_foreign(2) by auto
      then show False using False tag by simp
    qed
    then show ?thesis using Cons False by simp
  qed
qed

end

lemmas tag_defs = DS4_PARAM_END_def DS4_DSML_def bar_def

interpretation dsml_param: tag_escaping DS4_PARAM_END "''&lt;''"
  by unfold_locales (simp_all add: tag_defs)

interpretation dsml_literal: tag_escaping DS4_PARAM_END "[CHR 0x5C] @ ''u003c''"
  by unfold_locales (simp_all add: tag_defs)

interpretation arg_key: tag_escaping "''</arg_key>''" "''&lt;''"
  by unfold_locales simp_all

interpretation arg_value: tag_escaping "''</arg_value>''" "''&lt;''"
  by unfold_locales simp_all

interpretation tool_response: tag_escaping "''</tool_response>''" "''&lt;''"
  by unfold_locales simp_all

interpretation tool_result: tag_escaping "''</tool_result>''" "''&lt;''"
  by unfold_locales simp_all

text \<open>
  C25.  Tool data cannot break out of its element: whatever text a tool, a file or an argument holds, the
  first closing tag behind the opening one is the one the renderer wrote, for tool results and
  parameters of the DeepSeek template and for responses, keys and values of the GLM template.
\<close>

theorem element_text_contained:
  "strstr (append_tool_result_text s @ ''</tool_result>'' @ t) ''</tool_result>'' = Some (length (append_tool_result_text s)) \<and>
   strstr (append_dsml_parameter_text s @ DS4_PARAM_END @ t) DS4_PARAM_END = Some (length (append_dsml_parameter_text s)) \<and>
   strstr (append_dsml_json_literal s @ DS4_PARAM_END @ t) DS4_PARAM_END = Some (length (append_dsml_json_literal s)) \<and>
   strstr (append_glm_tool_response_text s @ ''</tool_response>'' @ t) ''</tool_response>'' = Some (length (append_glm_tool_response_text s)) \<and>
   strstr (append_glm_arg_key_text s @ ''</arg_key>'' @ t) ''</arg_key>'' = Some (length (append_glm_arg_key_text s)) \<and>
   strstr (append_glm_arg_value_text s @ ''</arg_value>'' @ t) ''</arg_value>'' = Some (length (append_glm_arg_value_text s))"
  unfolding append_tool_result_text_def append_dsml_parameter_text_def append_dsml_json_literal_def
    append_glm_tool_response_text_def append_glm_arg_key_text_def append_glm_arg_value_text_def append_glm_tag_body_text_def
  by (intro conjI; rule tool_result.closing_tag_first dsml_param.closing_tag_first dsml_literal.closing_tag_first
      tool_response.closing_tag_first arg_key.closing_tag_first arg_value.closing_tag_first)

section \<open>Attributes round trip\<close>

lemma unescape_attr_char: "unescape_loop (attr_escape_char c @ t) = c # unescape_loop t"
  by (auto simp: attr_escape_char_def unescape_loop.simps [of "_ # _"])

lemma unescape_attr: "unescape_loop (concat (map attr_escape_char s)) = s"
  by (induction s) (simp_all add: unescape_attr_char, simp add: unescape_loop.simps)

lemma NUL_attr_char: "NUL \<notin> set s \<Longrightarrow> NUL \<notin> set (concat (map attr_escape_char s))"
  by (induction s) (auto simp: attr_escape_char_def)

lemma quote_attr_char: "CHR 0x22 \<notin> set (concat (map attr_escape_char s))"
  by (induction s) (auto simp: attr_escape_char_def)

lemma dsml_attr_escaped:
  assumes "length name \<le> 61" "tag = pre @ name @ ''='' @ dq @ append_dsml_attr_escaped s @ dq @ t"
    "strstr tag (name @ ''='' @ dq) = Some (length pre)"
  shows "dsml_attr tag name = Some (of_ptr s)"
proof -
  let ?e = "append_dsml_attr_escaped s"
  have q: "strstr (?e @ dq @ t) dq = Some (length ?e)"
    using strstr_skip [of dq ?e "dq @ t"] quote_attr_char by (simp add: append_dsml_attr_escaped_def)
  have "cstr ?e = ?e" unfolding append_dsml_attr_escaped_def by (rule cstr_id [OF NUL_attr_char [OF NUL_notin_cstr]])
  then have "dsml_unescape_text (Some ?e) = of_ptr s"
    by (simp add: dsml_unescape_text_def or_default_def append_dsml_attr_escaped_def unescape_attr)
  then show ?thesis using assms q by (simp add: dsml_attr_def)
qed

text \<open>
  The name attribute of a rendered tag reads back exactly: for every tool and parameter name, the
  parser of generated text finds in the tag the renderer writes the name it was written with.
\<close>

lemma dsml_attr_roundtrip:
  "dsml_attr (DS4_INVOKE_START @ '' name='' @ dq @ append_dsml_attr_escaped s @ dq @ t) ''name'' = Some (of_ptr s) \<and>
   dsml_attr (DS4_PARAM_START @ '' name='' @ dq @ append_dsml_attr_escaped s @ dq @ t) ''name'' = Some (of_ptr s)"
proof
  show "dsml_attr (DS4_INVOKE_START @ '' name='' @ dq @ append_dsml_attr_escaped s @ dq @ t) ''name'' = Some (of_ptr s)"
    by (rule dsml_attr_escaped [where pre = "DS4_INVOKE_START @ '' ''" and t = t]) (simp_all add: DS4_INVOKE_START_def DS4_DSML_def bar_def)
  show "dsml_attr (DS4_PARAM_START @ '' name='' @ dq @ append_dsml_attr_escaped s @ dq @ t) ''name'' = Some (of_ptr s)"
    by (rule dsml_attr_escaped [where pre = "DS4_PARAM_START @ '' ''" and t = t]) (simp_all add: DS4_PARAM_START_def DS4_DSML_def bar_def)
qed

text \<open>
  Parameter text does not read back exactly when it looks like an entity: the renderer leaves an
  ampersand as it is and the parser decodes it, so the value \<^verbatim>\<open>&amp;\<close> is rendered as itself and read back as
  a single ampersand.
\<close>

theorem dsml_parameter_entity_lost:
  "append_dsml_parameter_text (Some ''&amp;'') = ''&amp;'' \<and> dsml_unescape_text (Some (append_dsml_parameter_text (Some ''&amp;''))) = ''&''"
  by code_simp

end
