(* ===== verification/Messages.thy ===== *)
theory Messages
  imports Escaping
begin

text \<open>
  The parsers of chat messages (\<^verbatim>\<open>server.c\<close>): OpenAI messages, Anthropic messages with their content
  blocks, and the Anthropic system prompt.
\<close>

section \<open>OpenAI messages\<close>

definition set_content :: "string \<Rightarrow> chat_msg \<Rightarrow> chat_msg" where
  "set_content s m = m\<lparr>content := Some s\<rparr>"

definition message_field :: "string \<Rightarrow> chat_msg scanner" where
  "message_field key =
     (if key = ''role'' then store_field json_cstring (\<lambda>s. role_update (\<lambda>_. Some s))
      else if key = ''content'' then store_field json_ccontent set_content
      else if key = ''reasoning_content'' then store_field json_ccontent (\<lambda>s. reasoning_update (\<lambda>_. Some s))
      else if key = ''tool_call_id'' then store_field json_cstring (\<lambda>i m. chat_msg_add_tool_call_id m (Some i))
      else if key = ''tool_calls'' then
        (\<lambda>m p. apfst (\<lambda>cs. m\<lparr>calls := cs\<rparr>) (parse_tool_calls_value tool_calls_free p))
      else skip_field)"

text \<open>A message without a role is a user message, one without content an empty one.\<close>

definition message_defaults :: "chat_msg \<Rightarrow> chat_msg" where
  "message_defaults m = m\<lparr>role := Some (or_default (role m) ''user''), content := Some (or_default (content m) [])\<rparr>"

definition message_item_with :: "(string \<Rightarrow> chat_msg scanner) \<Rightarrow> chat_msgs scanner" where
  "message_item_with f msgs p = (case object_value f chat_msg_zero p of
     (m, None) \<Rightarrow> (msgs, None)
   | (m, Some r) \<Rightarrow> (chat_msgs_push msgs (message_defaults m), Some r))"

definition parse_messages :: "chat_msgs scanner" where
  "parse_messages msgs p = array_value (message_item_with message_field) msgs (json_ws p)"

section \<open>Anthropic messages\<close>

record block_vars =
  bv_type :: "string option"
  bv_text :: "string option"
  bv_thinking :: "string option"
  bv_id :: "string option"
  bv_name :: "string option"
  bv_input :: "string option"
  bv_tool_result :: "string option"

definition block_vars_zero :: block_vars where
  "block_vars_zero = \<lparr>bv_type = None, bv_text = None, bv_thinking = None, bv_id = None, bv_name = None, bv_input = None, bv_tool_result = None\<rparr>"

definition block_field :: "string \<Rightarrow> block_vars scanner" where
  "block_field key =
     (if key = ''type'' then store_field json_cstring (\<lambda>s. bv_type_update (\<lambda>_. Some s))
      else if key = ''text'' then store_field json_ccontent (\<lambda>s. bv_text_update (\<lambda>_. Some s))
      else if key = ''thinking'' then store_field json_ccontent (\<lambda>s. bv_thinking_update (\<lambda>_. Some s))
      else if key = ''id'' \<or> key = ''tool_use_id'' then store_field json_cstring (\<lambda>s. bv_id_update (\<lambda>_. Some s))
      else if key = ''name'' then store_field json_cstring (\<lambda>s. bv_name_update (\<lambda>_. Some s))
      else if key = ''input'' then store_field json_raw_value (\<lambda>s. bv_input_update (\<lambda>_. Some s))
      else if key = ''content'' then store_field json_ccontent (\<lambda>s. bv_tool_result_update (\<lambda>_. Some s))
      else skip_field)"

definition append_anthropic_block_content :: "string \<Rightarrow> string option \<Rightarrow> string" where
  "append_anthropic_block_content dst s = dst @ or_default s []"

text \<open>What a finished block does to its message.\<close>

definition apply_block :: "block_vars \<Rightarrow> chat_msg \<Rightarrow> chat_msg" where
  "apply_block v msg =
     (if bv_type v = Some ''tool_use'' then
        msg\<lparr>calls := tool_calls_push (calls msg)
          \<lparr>tc_id = bv_id v, tc_name = Some (or_default (bv_name v) []), tc_arguments = Some (or_default (bv_input v) ''{}'')\<rparr>\<rparr>
      else if bv_type v = Some ''tool_result'' then
        (let m = chat_msg_add_tool_call_id msg (bv_id v) in
         m\<lparr>content := Some (or_default (content m) [] @ ''<tool_result>'' @ append_tool_result_text (bv_tool_result v) @ ''</tool_result>'')\<rparr>)
      else
        (let m = (if bv_text v = None then msg
              else msg\<lparr>content := Some (append_anthropic_block_content (or_default (content msg) []) (bv_text v))\<rparr>) in
         if bv_thinking v = None then m
         else m\<lparr>reasoning := Some (append_anthropic_block_content (or_default (reasoning m) []) (bv_thinking v))\<rparr>))"

definition parse_anthropic_content_block :: "chat_msg scanner" where
  "parse_anthropic_content_block msg p = (case object_value block_field block_vars_zero p of
     (v, None) \<Rightarrow> (msg, None) | (v, Some r) \<Rightarrow> (apply_block v msg, Some r))"

definition anthropic_content_item :: "chat_msg scanner" where
  "anthropic_content_item msg p =
     (if peek p = CHR 0x22 then store_field json_cstring (\<lambda>s m. set_content (or_default (content m) [] @ s) m) msg p
      else if peek p = CHR ''{'' then parse_anthropic_content_block msg p
      else skip_field msg p)"

definition parse_anthropic_content :: "chat_msg scanner" where
  "parse_anthropic_content msg p0 = (let p = json_ws p0 in
     if peek p = CHR 0x22 then store_field json_cstring set_content msg p
     else (case json_lit p ''null'' of Some r \<Rightarrow> (set_content [] msg, Some r) | None \<Rightarrow>
       if peek p \<noteq> CHR ''['' then skip_field msg p
       else (case array_value anthropic_content_item msg p of
           (m, None) \<Rightarrow> (m, None)
         | (m, Some r) \<Rightarrow> (set_content (or_default (content m) []) m, Some r))))"

definition anthropic_message_field :: "string \<Rightarrow> chat_msg scanner" where
  "anthropic_message_field key =
     (if key = ''role'' then store_field json_cstring (\<lambda>s. role_update (\<lambda>_. Some s))
      else if key = ''content'' then (\<lambda>m p. parse_anthropic_content (m\<lparr>content := None\<rparr>) p)
      else skip_field)"

definition parse_anthropic_messages :: "chat_msgs scanner" where
  "parse_anthropic_messages msgs p = array_value (message_item_with anthropic_message_field) msgs (json_ws p)"

section \<open>Anthropic system prompt\<close>

definition anthropic_system_part_is_private :: "string option \<Rightarrow> bool" where
  "anthropic_system_part_is_private s = (case s of None \<Rightarrow> False | Some x \<Rightarrow> take 12 x = ''x-anthropic-'')"

definition append_anthropic_system_part :: "string \<Rightarrow> string option \<Rightarrow> string" where
  "append_anthropic_system_part b s0 = (case s0 of None \<Rightarrow> b | Some s \<Rightarrow>
     if s = [] \<or> anthropic_system_part_is_private (Some s) then b
     else b @ (if b \<noteq> [] \<and> List.last b \<noteq> CHR 0x0A then nl else []) @ s)"

definition system_part_field :: "string scanner" where
  "system_part_field = store_field json_cstring (\<lambda>s b. append_anthropic_system_part b (Some s))"

definition system_object_field :: "string \<Rightarrow> string scanner" where
  "system_object_field key = (if key = ''text'' then system_part_field else skip_field)"

definition parse_anthropic_system_object :: "string scanner" where
  "parse_anthropic_system_object b p = object_value system_object_field b p"

definition system_item :: "string scanner" where
  "system_item b p =
     (if peek p = CHR 0x22 then system_part_field b p
      else if peek p = CHR ''{'' then parse_anthropic_system_object b p
      else skip_field b p)"

definition parse_anthropic_system :: "string option scanner" where
  "parse_anthropic_system out p0 = (let p = json_ws p0; done = (\<lambda>x. case x of (b, None) \<Rightarrow> (out, None) | (b, Some r) \<Rightarrow> (Some b, Some r)) in
     if peek p = CHR 0x22 then done (system_part_field [] p)
     else (case json_lit p ''null'' of Some r \<Rightarrow> (Some [], Some r) | None \<Rightarrow>
       if peek p \<noteq> CHR ''['' then done (skip_field [] p)
       else done (array_value system_item [] p)))"

section \<open>Every parser consumes its value\<close>

lemma parse_tool_calls_scanner [scanner_intros]: "value_scanner parse_tool_calls_value"
  unfolding parse_tool_calls_value_def [abs_def] Let_def
  by (rule scanner_ws [where g = "\<lambda>cs p. case json_lit p ''null'' of Some r \<Rightarrow> (cs, Some r) | None \<Rightarrow> array_value tool_call_item cs p"],
      rule scanner_null [where h = "\<lambda>cs. cs"], rule scanner_array)

interpretation message: field_scanner message_field
  unfolding message_field_def
  by (intro field_scannerI scanner_if scanner_store_intros scanner_skip value_scannerI)
    (use value_scanner.progress [OF parse_tool_calls_scanner] in \<open>auto simp: apfst_def map_prod_def split: prod.splits\<close>)

lemma message_item_scanner: "value_scanner (message_item_with f)"
  using value_scanner.progress [OF scanner_object, of f]
  by (intro value_scannerI) (auto simp: message_item_with_def split: prod.splits option.splits)

interpretation message_array: value_scanner "message_item_with f" for f
  by (rule message_item_scanner)

interpretation anthropic_block: field_scanner block_field
  unfolding block_field_def by (intro field_scannerI scanner_intros)

lemma content_block_scanner [scanner_intros]: "value_scanner parse_anthropic_content_block"
  using value_scanner.progress [OF scanner_object, of block_field]
  by (intro value_scannerI) (auto simp: parse_anthropic_content_block_def split: prod.splits option.splits)

interpretation anthropic_item: value_scanner anthropic_content_item
  unfolding anthropic_content_item_def [abs_def]
  by (intro scanner_if_at scanner_store_intros content_block_scanner scanner_skip)

interpretation anthropic_system: value_scanner system_item
  unfolding system_item_def [abs_def] system_part_field_def parse_anthropic_system_object_def
  by (intro scanner_if_at scanner_store_intros scanner_object scanner_skip)

section \<open>Well-formed messages\<close>

text \<open>
  The call ids of a message are distinct and not empty, and the single id is the first of them; a
  finished message has a role and content, on which the renderers rely.
\<close>

definition ids_wf :: "chat_msg \<Rightarrow> bool" where
  "ids_wf m \<longleftrightarrow> distinct (tool_call_ids m) \<and> [] \<notin> set (tool_call_ids m) \<and>
     tool_call_id m = (case tool_call_ids m of [] \<Rightarrow> None | i # _ \<Rightarrow> Some i)"

definition chat_msg_wf :: "chat_msg \<Rightarrow> bool" where
  "chat_msg_wf m \<longleftrightarrow> role m \<noteq> None \<and> content m \<noteq> None \<and> ids_wf m"

lemma ids_wf_updates [simp]:
  "ids_wf (m\<lparr>role := a\<rparr>) = ids_wf m" "ids_wf (m\<lparr>content := a\<rparr>) = ids_wf m" "ids_wf (m\<lparr>reasoning := a\<rparr>) = ids_wf m"
  "ids_wf (m\<lparr>calls := cs\<rparr>) = ids_wf m" "ids_wf (set_content s m) = ids_wf m"
  by (simp_all add: ids_wf_def set_content_def)

lemma ids_wf_add [simp]: "ids_wf m \<Longrightarrow> ids_wf (chat_msg_add_tool_call_id m i)"
  by (auto simp: ids_wf_def chat_msg_add_tool_call_id_def split: option.splits list.splits)

lemma ids_wf_block [simp]: "ids_wf m \<Longrightarrow> ids_wf (apply_block v m)"
  by (simp add: apply_block_def Let_def)

lemmas ids_wf_store [simp] = store_field_invariant [where I = ids_wf]

lemma ids_wf_message_field: "ids_wf m \<Longrightarrow> ids_wf (fst (message_field key m p))"
  by (auto simp: message_field_def apfst_def map_prod_def split: prod.splits)

lemma ids_wf_content_block: "ids_wf m \<Longrightarrow> ids_wf (fst (parse_anthropic_content_block m p))"
  by (auto simp: parse_anthropic_content_block_def split: prod.splits option.splits)

lemma ids_wf_content_item: "ids_wf m \<Longrightarrow> ids_wf (fst (anthropic_content_item m p))"
  by (auto simp: anthropic_content_item_def ids_wf_content_block)

lemma ids_wf_anthropic_content: "ids_wf m \<Longrightarrow> ids_wf (fst (parse_anthropic_content m p))"
proof -
  assume m: "ids_wf m"
  have "ids_wf (fst (array_value anthropic_content_item m q))" for q
    by (rule array_value_invariant [where I = ids_wf]) (simp_all add: m ids_wf_content_item)
  then have "array_value anthropic_content_item m q = (m', r) \<Longrightarrow> ids_wf m'" for q m' r by (metis fst_conv)
  with m show ?thesis
    by (auto simp: parse_anthropic_content_def Let_def split: prod.splits option.splits)
qed

lemma ids_wf_anthropic_field: "ids_wf m \<Longrightarrow> ids_wf (fst (anthropic_message_field key m p))"
  by (auto simp: anthropic_message_field_def ids_wf_anthropic_content)

lemma ids_wf_zero [simp]: "ids_wf chat_msg_zero"
  by (simp add: ids_wf_def chat_msg_zero_def)

lemma chat_msg_wf_defaults: "ids_wf m \<Longrightarrow> chat_msg_wf (message_defaults m)"
  by (simp add: chat_msg_wf_def message_defaults_def)

lemma message_array_wf:
  assumes "\<And>key m p. ids_wf m \<Longrightarrow> ids_wf (fst (f key m p))" "list_all chat_msg_wf msgs"
  shows "list_all chat_msg_wf (fst (array_value (message_item_with f) msgs p))"
proof (rule array_value_invariant [where I = "list_all chat_msg_wf"])
  fix ms q assume ms: "list_all chat_msg_wf ms"
  have "ids_wf (fst (object_value f chat_msg_zero q))" by (rule object_value_invariant [where I = ids_wf]) (simp_all add: assms(1))
  then show "list_all chat_msg_wf (fst (message_item_with f ms q))" using ms
    by (auto simp: message_item_with_def chat_msgs_push_def chat_msg_wf_defaults split: prod.splits option.splits)
qed (rule assms(2))

text \<open>
  Both message parsers only ever add well formed messages, also before they give up: every message has
  a role and content, its tool call ids are distinct and not empty, and its single id is the first of
  them.
\<close>

theorem parsed_messages_well_formed:
  assumes "list_all chat_msg_wf msgs"
  shows "list_all chat_msg_wf (fst (parse_messages msgs p)) \<and> list_all chat_msg_wf (fst (parse_anthropic_messages msgs p))"
  unfolding parse_messages_def parse_anthropic_messages_def
  by (intro conjI message_array_wf ids_wf_message_field ids_wf_anthropic_field assms)

theorem parsed_messages_well_formed_witness:
  "let msgs = fst (parse_anthropic_messages [] (''[{'' @ dq @ ''content'' @ dq @ '':['' @ dq @ ''hi'' @ dq @ '',{'' @ dq @ ''type'' @ dq @
       '':'' @ dq @ ''tool_result'' @ dq @ '','' @ dq @ ''tool_use_id'' @ dq @ '':'' @ dq @ ''c1'' @ dq @ ''}]}]''))
   in list_all chat_msg_wf msgs \<and> map tool_call_ids msgs = [[''c1'']]"
proof -
  let ?p = "''[{'' @ dq @ ''content'' @ dq @ '':['' @ dq @ ''hi'' @ dq @ '',{'' @ dq @ ''type'' @ dq @
       '':'' @ dq @ ''tool_result'' @ dq @ '','' @ dq @ ''tool_use_id'' @ dq @ '':'' @ dq @ ''c1'' @ dq @ ''}]}]''"
  have "map tool_call_ids (fst (parse_anthropic_messages [] ?p)) = [[''c1'']]" by code_simp
  moreover have "list_all chat_msg_wf (fst (parse_anthropic_messages [] ?p))"
    by (rule parsed_messages_well_formed [THEN conjunct2]) simp
  ultimately show ?thesis unfolding Let_def by (intro conjI)
qed

end
