(* ===== verification/ToolArgs.thy ===== *)
theory ToolArgs
  imports Messages "HOL-Library.Multiset"
begin

text \<open>
  Tool call arguments in the prompt (\<^verbatim>\<open>server.c\<close>): a JSON object is split into its members, which are
  written in the order of the tool's schema in the syntax of the model's template.  The functions
  that append to a buffer return the text they append.
\<close>

section \<open>Argument lists\<close>

record json_arg =
  arg_key :: string
  arg_value :: string
  arg_is_string :: bool
  arg_used :: bool

definition json_args_push :: "json_arg list \<Rightarrow> json_arg \<Rightarrow> json_arg list" where
  "json_args_push args a = args @ [a]"

fun find_unused_from :: "nat \<Rightarrow> json_arg list \<Rightarrow> string \<Rightarrow> nat option" where
  "find_unused_from i [] key = None"
| "find_unused_from i (a # as) key = (if \<not> arg_used a \<and> arg_key a = key then Some i else find_unused_from (Suc i) as key)"

definition json_args_find_unused :: "json_arg list \<Rightarrow> string \<Rightarrow> nat option" where
  "json_args_find_unused args key = find_unused_from 0 args key"

definition push_arg :: "string \<Rightarrow> bool \<Rightarrow> string \<Rightarrow> json_arg list \<Rightarrow> json_arg list" where
  "push_arg key is_string v args = json_args_push args \<lparr>arg_key = key, arg_value = v, arg_is_string = is_string, arg_used = False\<rparr>"

definition arg_field :: "string \<Rightarrow> json_arg list scanner" where
  "arg_field key args p0 = (let p = json_ws p0 in
     if peek p = CHR 0x22 then store_field json_cstring (push_arg key True) args p
     else store_field json_raw_value (\<lambda>raw. push_arg key False (json_minify_raw_value (Some raw))) args p)"

definition json_args_parse :: "string option \<Rightarrow> json_arg list option" where
  "json_args_parse json = (case object_value arg_field [] (json_ws (of_ptr json)) of
     (args, None) \<Rightarrow> None | (args, Some _) \<Rightarrow> Some args)"

section \<open>Schemas for the GLM template\<close>

definition is_deferred :: "json_arg \<Rightarrow> bool" where
  "is_deferred a \<longleftrightarrow> arg_key a = ''defer_loading'' \<and> \<not> arg_is_string a \<and> arg_value a = ''true''"

fun join_with :: "string \<Rightarrow> string list \<Rightarrow> string" where
  "join_with sep [] = []"
| "join_with sep [s] = s"
| "join_with sep (s # ss) = s @ sep @ join_with sep ss"

definition arg_value_text :: "json_arg \<Rightarrow> string" where
  "arg_value_text a = (if arg_is_string a then json_escape (arg_value a) else arg_value a)"

text \<open>The text and whether the schema is shown; none if the text is no JSON object.\<close>

definition append_glm_tool_schema_json :: "string \<Rightarrow> (string \<times> bool) option" where
  "append_glm_tool_schema_json json = (case json_args_parse (Some json) of None \<Rightarrow> None
     | Some args \<Rightarrow>
         if \<exists>a \<in> set args. is_deferred a then Some ([], False)
         else Some (''{'' @ join_with '', '' (map (\<lambda>a. json_escape (arg_key a) @ '': '' @ arg_value_text a)
                      (filter (\<lambda>a. arg_key a \<noteq> ''defer_loading'' \<and> arg_key a \<noteq> ''strict'') args)) @ ''}'', True))"

function glm_schemas_loop :: "bool \<Rightarrow> string \<Rightarrow> string \<times> bool" where
  "glm_schemas_loop any p =
     (if peek p = NUL then ([], any)
      else (case json_raw_value p of None \<Rightarrow> ([], any)
       | Some (raw, r) \<Rightarrow>
           (let (piece, emitted) = (case append_glm_tool_schema_json raw of None \<Rightarrow> (raw, True) | Some x \<Rightarrow> x);
                (more, any') = glm_schemas_loop (any \<or> emitted) (json_ws r)
            in (piece @ (if emitted then nl @ nl @ nl else []) @ more, any'))))"
  by pat_completeness auto

lemma raw_ws_less: "json_raw_value p = Some (raw, r) \<Longrightarrow> length (json_ws r) < length p"
  using length_json_ws [of r] by (auto dest: json_raw_value_length)

termination glm_schemas_loop
  by (relation "measure (\<lambda>(_, p). length p)") (auto dest: raw_ws_less)

declare glm_schemas_loop.simps [simp del]

definition append_glm_tools_prompt_text :: "string option \<Rightarrow> string" where
  "append_glm_tools_prompt_text schemas = (if of_ptr schemas = [] then [] else
    nl @ ''# Tools'' @ nl @ nl @ ''You may call one or more functions to assist with the user query.'' @ nl @ nl
    @ ''You are provided with function signatures within <tools></tools> XML tags:'' @ nl @ ''<tools>'' @ nl @ nl @
    (case glm_schemas_loop False (json_ws (of_ptr schemas)) of (t, any) \<Rightarrow> t @ (if any then [] else nl)) @
    ''</tools>'' @ nl @ nl
    @ ''For each function call, output the function name and arguments within the following XML format:'' @ nl
    @ ''<tool_call>{function-name}<arg_key>{arg-key-1}</arg_key><arg_value>{arg-value-1}</arg_value><arg_key>{arg-key-2}</arg_key><arg_value>{arg-value-2}</arg_value>...</tool_call>'')"

definition append_tools_prompt_text :: "string option \<Rightarrow> string" where
  "append_tools_prompt_text schemas = (if of_ptr schemas = [] then [] else
    ''## Tools'' @ nl @ nl
    @ ''You have access to a set of tools to help answer the user question. You can invoke tools by writing a '' @ dq
    @ ''<'' @ DS4_DSML @ ''tool_calls>'' @ dq @ '' block like the following:'' @ nl @ nl @ ''<'' @ DS4_DSML
    @ ''tool_calls>'' @ nl @ ''<'' @ DS4_DSML @ ''invoke name='' @ dq @ ''$TOOL_NAME'' @ dq @ ''>'' @ nl @ ''<'' @ DS4_DSML
    @ ''parameter name='' @ dq @ ''$PARAMETER_NAME'' @ dq @ '' string='' @ dq @ ''true|false'' @ dq
    @ ''>$PARAMETER_VALUE</'' @ DS4_DSML @ ''parameter>'' @ nl @ ''...'' @ nl @ ''</'' @ DS4_DSML @ ''invoke>'' @ nl @ ''<''
    @ DS4_DSML @ ''invoke name='' @ dq @ ''$TOOL_NAME2'' @ dq @ ''>'' @ nl @ ''...'' @ nl @ ''</'' @ DS4_DSML @ ''invoke>''
    @ nl @ ''</'' @ DS4_DSML @ ''tool_calls>'' @ nl @ nl
    @ ''String parameters should be specified as raw text and set `string='' @ dq @ ''true'' @ dq
    @ ''`. Preserve characters such as `>`, `&`, and `&&` exactly; never replace normal string characters with XML or HTML entity escapes. Only if a string value itself contains the exact closing parameter tag `</''
    @ DS4_DSML @ ''parameter>`, write that tag as `&lt;/'' @ DS4_DSML
    @ ''parameter>` inside the value. For all other types (numbers, booleans, arrays, objects), pass the value in JSON format and set `string=''
    @ dq @ ''false'' @ dq @ ''`.'' @ nl @ nl
    @ ''When thinking mode is enabled, finish reasoning with </think> before any tool calls or final response.'' @ nl @ nl
    @ ''Otherwise, output directly after </think> with tool calls or final response.'' @ nl @ nl
    @ ''### Available Tool Schemas'' @ nl @ nl @
    of_ptr schemas @
    nl @ nl
    @ ''You MUST strictly follow the above defined tool name and parameter schemas to invoke tool calls. Use the exact parameter names from the schemas.'')"

section \<open>Arguments\<close>

definition append_dsml_arg :: "json_arg \<Rightarrow> string" where
  "append_dsml_arg a = DS4_PARAM_START @ '' name='' @ dq @ append_dsml_attr_escaped (Some (arg_key a)) @ dq @ '' string='' @ dq @
     (if arg_is_string a then ''true'' else ''false'') @ dq @ ''>'' @
     (if arg_is_string a then append_dsml_parameter_text (Some (arg_value a)) else append_dsml_json_literal (Some (arg_value a))) @
     DS4_PARAM_END @ nl"

definition append_glm_arg :: "json_arg \<Rightarrow> string" where
  "append_glm_arg a = ''<arg_key>'' @ append_glm_arg_key_text (Some (arg_key a)) @ ''</arg_key><arg_value>'' @
     append_glm_arg_value_text (Some (arg_value a)) @ ''</arg_value>''"

text \<open>The schema's properties first, each taking the first member of that name not yet used, then the rest.\<close>

definition take_arg :: "json_arg list \<times> json_arg list \<Rightarrow> string \<Rightarrow> json_arg list \<times> json_arg list" where
  "take_arg st prop = (case st of (out, args) \<Rightarrow>
     (case json_args_find_unused args prop of None \<Rightarrow> (out, args)
      | Some i \<Rightarrow> (out @ [args ! i], args[i := (args ! i)\<lparr>arg_used := True\<rparr>])))"

definition order_args :: "json_arg list \<Rightarrow> tool_schema_order option \<Rightarrow> json_arg list" where
  "order_args args order =
     (case foldl take_arg ([], args) (case order of None \<Rightarrow> [] | Some o1 \<Rightarrow> so_prop o1) of
        (out, args') \<Rightarrow> out @ filter (\<lambda>a. \<not> arg_used a) args')"

definition append_dsml_arguments_from_json :: "string option \<Rightarrow> tool_schema_order option \<Rightarrow> string option" where
  "append_dsml_arguments_from_json json order =
     map_option (\<lambda>args. concat (map append_dsml_arg (order_args args order))) (json_args_parse json)"

definition append_glm_arguments_from_json :: "string option \<Rightarrow> tool_schema_order option \<Rightarrow> string option" where
  "append_glm_arguments_from_json json order =
     map_option (\<lambda>args. concat (map append_glm_arg (order_args args order))) (json_args_parse json)"

definition append_json_arg_pair :: "json_arg \<Rightarrow> string" where
  "append_json_arg_pair a = json_escape (arg_key a) @ '':'' @ arg_value_text a"

definition append_json_object_or_empty :: "string option \<Rightarrow> string" where
  "append_json_object_or_empty json = (case json_args_parse json of None \<Rightarrow> ''{}''
     | Some args \<Rightarrow> ''{'' @ join_with '','' (map append_json_arg_pair args) @ ''}'')"

section \<open>Tool calls\<close>

definition dsml_call_text :: "tool_call \<Rightarrow> string" where
  "dsml_call_text tc = DS4_INVOKE_START @ '' name='' @ dq @ append_dsml_attr_escaped (tc_name tc) @ dq @ ''>'' @ nl @
     (case append_dsml_arguments_from_json (tc_arguments tc) None of
        Some t \<Rightarrow> t
      | None \<Rightarrow> DS4_PARAM_START @ '' name='' @ dq @ ''arguments'' @ dq @ '' string='' @ dq @ ''true'' @ dq @ ''>'' @
          append_dsml_parameter_text (tc_arguments tc) @ DS4_PARAM_END @ nl) @
     DS4_INVOKE_END @ nl"

definition append_dsml_tool_calls_text :: "tool_calls \<Rightarrow> string" where
  "append_dsml_tool_calls_text cs =
     (if calls_v cs = [] then []
      else if of_ptr (raw_tool_text cs) \<noteq> [] then of_ptr (raw_tool_text cs)
      else nl @ nl @ DS4_TOOL_CALLS_START @ nl @ concat (map dsml_call_text (calls_v cs)) @ DS4_TOOL_CALLS_END)"

definition glm_call_text :: "tool_schema_orders \<Rightarrow> tool_call \<Rightarrow> string" where
  "glm_call_text orders tc = ''<tool_call>'' @ of_ptr (tc_name tc) @
     (case append_glm_arguments_from_json (tc_arguments tc) (tool_schema_orders_find orders (tc_name tc)) of
        Some t \<Rightarrow> t
      | None \<Rightarrow> ''<arg_key>arguments</arg_key><arg_value>'' @ append_glm_arg_value_text (tc_arguments tc) @ ''</arg_value>'') @
     ''</tool_call>''"

definition append_glm_tool_calls_text :: "tool_calls \<Rightarrow> tool_schema_orders \<Rightarrow> string" where
  "append_glm_tool_calls_text cs orders =
     (if calls_v cs = [] then []
      else if of_ptr (raw_tool_text cs) \<noteq> [] then of_ptr (raw_tool_text cs)
      else nl @ concat (map (glm_call_text orders) (calls_v cs)) @ nl)"

definition append_tool_calls_text_for_syntax :: "server_model_syntax \<Rightarrow> tool_calls \<Rightarrow> tool_schema_orders \<Rightarrow> string" where
  "append_tool_calls_text_for_syntax syntax cs orders =
     (case syntax of SERVER_MODEL_SYNTAX_GLM \<Rightarrow> append_glm_tool_calls_text cs orders
      | SERVER_MODEL_SYNTAX_DEEPSEEK \<Rightarrow> append_dsml_tool_calls_text cs)"

section \<open>Every argument is written once\<close>

interpretation argument: field_scanner arg_field
  unfolding arg_field_def [abs_def] Let_def
  by (intro field_scannerI scanner_ws [where g = "\<lambda>args p. if peek p = CHR 0x22 then _ args p else _ args p"]
      scanner_if_at scanner_store_intros)

lemma find_unused_shift: "find_unused_from i xs key = map_option (\<lambda>k. i + k) (find_unused_from 0 xs key)"
proof (induction xs arbitrary: i)
  case (Cons a xs)
  show ?case using Cons.IH [of "Suc i"] Cons.IH [of 1] by (simp add: option.map_comp comp_def)
qed simp

lemma find_unused_Some:
  "find_unused_from 0 xs key = Some i \<Longrightarrow> i < length xs \<and> \<not> arg_used (xs ! i) \<and> arg_key (xs ! i) = key"
proof (induction xs arbitrary: i)
  case (Cons a xs)
  then show ?case using find_unused_shift [of 1 xs key] by (auto split: if_splits elim!: map_option_eq_Some [THEN iffD1, elim_format] dest: sym)
qed simp

lemma find_unused_None: "find_unused_from i xs key = None \<longleftrightarrow> (\<forall>a \<in> set xs. \<not> arg_used a \<longrightarrow> arg_key a \<noteq> key)"
  by (induction xs arbitrary: i) auto

definition unused :: "json_arg list \<Rightarrow> json_arg list" where
  "unused xs = filter (\<lambda>a. \<not> arg_used a) xs"

lemma unused_mark:
  "i < length xs \<Longrightarrow> \<not> arg_used (xs ! i) \<Longrightarrow> mset (unused xs) = add_mset (xs ! i) (mset (unused (xs[i := (xs ! i)\<lparr>arg_used := True\<rparr>])))"
proof (induction xs arbitrary: i)
  case (Cons a xs)
  then show ?case by (cases i) (auto simp: unused_def)
qed simp

lemma take_arg_mset:
  "take_arg (out, xs) nm = (out', xs') \<Longrightarrow> mset out' + mset (unused xs') = mset out + mset (unused xs)"
  using find_unused_Some [of xs nm] unused_mark [of _ xs]
  by (auto simp: take_arg_def json_args_find_unused_def split: option.splits)

lemma take_args_mset: "foldl take_arg (out, xs) nms = (out', xs') \<Longrightarrow> mset out' + mset (unused xs') = mset out + mset (unused xs)"
proof (induction nms arbitrary: out xs)
  case (Cons nm nms)
  obtain o2 a2 where t: "take_arg (out, xs) nm = (o2, a2)" by (cases "take_arg (out, xs) nm") auto
  then have "mset out' + mset (unused xs') = mset o2 + mset (unused a2)" using Cons by simp
  with take_arg_mset [OF t] show ?case by simp
qed simp

lemma order_args_mset: "mset (order_args xs order) = mset (unused xs)"
  using take_args_mset [of "[]" xs "case order of None \<Rightarrow> [] | Some o1 \<Rightarrow> so_prop o1"]
  by (auto simp: order_args_def unused_def split: prod.splits)

lemma take_arg_keys:
  assumes "take_arg (out, xs) nm = (out', xs')"
  shows "map arg_key out' = map arg_key out @ (if \<exists>a \<in> set xs. \<not> arg_used a \<and> arg_key a = nm then [nm] else [])"
    and "q \<noteq> nm \<Longrightarrow> (\<exists>a \<in> set xs'. \<not> arg_used a \<and> arg_key a = q) \<longleftrightarrow> (\<exists>a \<in> set xs. \<not> arg_used a \<and> arg_key a = q)"
proof -
  show "map arg_key out' = map arg_key out @ (if \<exists>a \<in> set xs. \<not> arg_used a \<and> arg_key a = nm then [nm] else [])"
    using assms find_unused_Some [of xs nm] find_unused_None [of 0 xs nm]
    by (auto simp: take_arg_def json_args_find_unused_def split: option.splits dest: nth_mem)
  show "(\<exists>a \<in> set xs'. \<not> arg_used a \<and> arg_key a = q) \<longleftrightarrow> (\<exists>a \<in> set xs. \<not> arg_used a \<and> arg_key a = q)" if "q \<noteq> nm"
  proof (cases "json_args_find_unused xs nm")
    case None
    then show ?thesis using assms by (simp add: take_arg_def)
  next
    case (Some i)
    note i = find_unused_Some [OF Some [unfolded json_args_find_unused_def]]
    have xs': "xs' = xs[i := (xs ! i)\<lparr>arg_used := True\<rparr>]" using assms Some by (simp add: take_arg_def)
    show ?thesis unfolding xs' in_set_conv_nth Bex_def
      using i that by (auto simp: nth_list_update)
  qed
qed

lemma take_args_keys:
  "distinct nms \<Longrightarrow> map arg_key (fst (foldl take_arg (out, xs) nms)) =
     map arg_key out @ filter (\<lambda>q. \<exists>a \<in> set xs. \<not> arg_used a \<and> arg_key a = q) nms"
proof (induction nms arbitrary: out xs)
  case (Cons nm nms)
  obtain o2 a2 where t: "take_arg (out, xs) nm = (o2, a2)" by (cases "take_arg (out, xs) nm") auto
  have "filter (\<lambda>q. \<exists>a \<in> set a2. \<not> arg_used a \<and> arg_key a = q) nms = filter (\<lambda>q. \<exists>a \<in> set xs. \<not> arg_used a \<and> arg_key a = q) nms"
    using Cons.prems by (intro filter_cong refl take_arg_keys(2) [OF t]) auto
  then show ?case using Cons.IH [of o2 a2] Cons.prems t take_arg_keys(1) [OF t] by simp
qed simp

text \<open>What a parsed argument list is known to hold.\<close>

definition args_ok :: "json_arg list \<Rightarrow> bool" where
  "args_ok xs \<longleftrightarrow> (\<forall>a \<in> set xs. \<not> arg_used a)"

lemma args_ok_field: "args_ok xs \<Longrightarrow> args_ok (fst (arg_field key xs p))"
  by (auto simp: arg_field_def Let_def args_ok_def push_arg_def json_args_push_def store_field_def split: option.splits)

lemma args_ok_parse: "json_args_parse json = Some xs \<Longrightarrow> args_ok xs"
  using object_value_invariant [where I = args_ok and f = arg_field and a = "[]" and p = "json_ws (of_ptr json)"] args_ok_field
  by (auto simp: json_args_parse_def args_ok_def split: prod.splits option.splits)

text \<open>
  C30.  Writing a call's arguments in schema order loses and repeats none: the members written are the
  members of the JSON object, each exactly once, and those the schema names come first, in the
  schema's order.
\<close>

theorem arguments_once_in_schema_order:
  assumes "json_args_parse json = Some args"
  shows "mset (order_args args (Some o1)) = mset args \<and>
    (distinct (so_prop o1) \<longrightarrow>
      prefix (filter (\<lambda>q. q \<in> arg_key ` set args) (so_prop o1)) (map arg_key (order_args args (Some o1))))"
proof -
  have ok: "args_ok args" by (rule args_ok_parse [OF assms])
  then have "mset (order_args args (Some o1)) = mset args"
    by (simp add: order_args_mset unused_def args_ok_def filter_id_conv)
  moreover have "(\<exists>a \<in> set args. \<not> arg_used a \<and> arg_key a = q) \<longleftrightarrow> q \<in> arg_key ` set args" for q
    using ok by (auto simp: args_ok_def)
  ultimately show ?thesis
    using take_args_keys [of "so_prop o1" "[]" args] by (auto simp: order_args_def split: prod.splits)
qed

theorem arguments_once_in_schema_order_witness:
  "let args = [\<lparr>arg_key = ''b'', arg_value = ''1'', arg_is_string = False, arg_used = False\<rparr>,
               \<lparr>arg_key = ''a'', arg_value = ''x'', arg_is_string = True, arg_used = False\<rparr>]
   in mset (order_args args (Some (tool_schema_order_zero\<lparr>so_prop := [''a'']\<rparr>))) = mset args"
proof -
  have "json_args_parse (Some (''{'' @ dq @ ''b'' @ dq @ '':1,'' @ dq @ ''a'' @ dq @ '':'' @ dq @ ''x'' @ dq @ ''}'')) =
    Some [\<lparr>arg_key = ''b'', arg_value = ''1'', arg_is_string = False, arg_used = False\<rparr>,
          \<lparr>arg_key = ''a'', arg_value = ''x'', arg_is_string = True, arg_used = False\<rparr>]"
    by code_simp
  from arguments_once_in_schema_order [OF this, of "tool_schema_order_zero\<lparr>so_prop := [''a'']\<rparr>"]
  show ?thesis unfolding Let_def by (rule conjunct1)
qed

section \<open>Objects of strings read back\<close>

lemma NUL_notin_escape_char: "c \<noteq> NUL \<Longrightarrow> NUL \<notin> set (json_escape_char c)"
proof -
  assume "c \<noteq> NUL"
  have low: "hex_low d \<noteq> NUL" if "d < 16" for d
  proof -
    have "hex_low d \<in> set ''0123456789abcdef''" unfolding hex_low_def by (rule nth_mem) (use that in simp)
    then show ?thesis by auto
  qed
  have "of_char c div 16 < (16 :: nat)" using of_char_bound [of c] by (intro less_mult_imp_div_less) simp
  then have "NUL \<noteq> hex_low (of_char c div 16)" "NUL \<noteq> hex_low (of_char c mod 16)"
    using low [of "of_char c div 16"] low [of "of_char c mod 16"] by simp_all
  then show ?thesis using \<open>c \<noteq> NUL\<close> by (auto simp: json_escape_char_def)
qed

lemma NUL_notin_escape: "NUL \<notin> set (json_escape s)"
proof -
  have "NUL \<notin> set (json_escape_char c)" if "c \<in> set (cstr s)" for c
    using that NUL_notin_escape_char NUL_notin_cstr [of s] by metis
  then show ?thesis by (auto simp: json_escape_def)
qed

text \<open>Arguments that are strings without NUL, as the parser yields them.\<close>

definition plain_arg :: "json_arg \<Rightarrow> bool" where
  "plain_arg a \<longleftrightarrow> arg_is_string a \<and> \<not> arg_used a \<and> cstr (arg_key a) = arg_key a \<and> cstr (arg_value a) = arg_value a"

lemma json_ws_punct: "c \<in> {CHR '','', CHR '':'', CHR ''{'', CHR ''}''} \<Longrightarrow> json_ws (c # p) = c # p"
  by (auto simp: json_ws_def skip_space_Cons isspace_def)

lemma arg_field_escaped:
  "arg_field key xs (json_escape v @ p) = (push_arg key True (cstr v) xs, Some p)"
  by (simp add: arg_field_def Let_def json_ws_escape store_field_def json_cstring_def scan_escaped)
    (simp add: json_escape_def)

text \<open>A member of an object, with blanks behind its colon; behind a comma stand the same blanks.\<close>

definition spaced_pair :: "string \<Rightarrow> json_arg \<Rightarrow> string" where
  "spaced_pair gap a = json_escape (arg_key a) @ '':'' @ gap @ json_escape (arg_value a)"

definition spaced_members :: "string \<Rightarrow> json_arg list \<Rightarrow> string" where
  "spaced_members gap ys = join_with ('','' @ gap) (map (spaced_pair gap) ys)"

lemma json_ws_gap: "list_all isspace gap \<Longrightarrow> json_ws (gap @ p) = json_ws p"
  by (induction gap) (simp_all add: json_ws_def skip_space_Cons)

lemma read_pair:
  assumes "plain_arg a" "json_comma p = q" "list_all isspace gap"
  shows "object_fields arg_field xs (spaced_pair gap a @ p) = object_fields arg_field (xs @ [a]) q"
proof -
  have "peek (spaced_pair gap a @ p) = CHR 0x22" by (simp add: spaced_pair_def json_escape_def)
  moreover have "push_arg (arg_key a) True (arg_value a) xs = xs @ [a]"
    using assms(1) by (simp add: push_arg_def json_args_push_def plain_arg_def)
  moreover have "arg_field key xs (gap @ json_escape v @ p) = (push_arg key True (cstr v) xs, Some p)" for key v
    using arg_field_escaped [of key xs v p] by (simp add: arg_field_def json_ws_gap [OF assms(3)])
  ultimately show ?thesis using assms(1,2)
    by (simp add: argument.object_fields_step [of xs] spaced_pair_def plain_arg_def scan_escaped json_ws_punct)
qed

lemma comma_punct:
  "list_all isspace gap \<Longrightarrow> json_comma (CHR '','' # gap @ json_escape s @ p) = json_escape s @ p" "json_comma ''}'' = ''}''"
  by (simp_all add: json_comma_def json_ws_punct json_ws_gap json_ws_escape)

lemma spaced_members_head: "\<exists>t. spaced_members gap (a # xs) @ p = json_escape (arg_key a) @ t"
  by (cases xs) (simp_all add: spaced_members_def spaced_pair_def)

lemma read_pairs:
  "list_all plain_arg ys \<Longrightarrow> list_all isspace gap \<Longrightarrow> object_fields arg_field xs (spaced_members gap ys @ ''}'') = (xs @ ys, Some ''}'')"
proof (induction ys arbitrary: xs rule: induct_list012)
  case 1
  show ?case by (simp add: spaced_members_def object_fields.simps)
next
  case (2 a)
  then show ?case using read_pair [of a "''}''" "''}''" gap xs] by (simp add: spaced_members_def comma_punct object_fields.simps [of _ _ "''}''"])
next
  case (3 a b ys)
  let ?t = "spaced_members gap (b # ys) @ ''}''"
  have "json_comma (CHR '','' # gap @ ?t) = ?t" using spaced_members_head [of gap b ys "''}''"] comma_punct(1) [OF 3(4)] by auto
  from read_pair [OF _ this 3(4), of a xs] 3 show ?case by (simp add: spaced_members_def)
qed

lemma NUL_notin_members: "list_all isspace gap \<Longrightarrow> NUL \<notin> set (spaced_members gap ys)"
proof (induction ys rule: induct_list012)
  case (3 a b ys)
  then show ?case by (auto simp: spaced_members_def spaced_pair_def NUL_notin_escape list_all_iff isspace_def)
qed (auto simp: spaced_members_def spaced_pair_def NUL_notin_escape list_all_iff isspace_def)

lemma read_object:
  assumes ys: "list_all plain_arg ys" and gap: "list_all isspace gap"
  shows "json_args_parse (Some (''{'' @ spaced_members gap ys @ ''}'')) = Some ys"
proof -
  let ?t = "spaced_members gap ys @ ''}''"
  have t: "cstr (CHR ''{'' # ?t) = CHR ''{'' # ?t" using NUL_notin_members [OF gap] by (intro cstr_id) auto
  have "json_ws ?t = ?t"
    using spaced_members_head [of gap "hd ys" "tl ys" "''}''"] by (cases ys) (auto simp: spaced_members_def json_ws_punct json_ws_escape)
  then show ?thesis using t read_pairs [OF ys gap, of "[]"]
    by (simp add: json_args_parse_def or_default_def json_ws_punct object_value_def expect_close_def)
qed

lemma plain_members: "list_all plain_arg ys \<Longrightarrow> join_with '','' (map append_json_arg_pair ys) = spaced_members [] ys"
  by (auto simp: spaced_members_def append_json_arg_pair_def spaced_pair_def arg_value_text_def plain_arg_def list_all_iff intro!: arg_cong [where f = "join_with '',''"])

lemma plain_args_field: "(\<forall>a \<in> set xs. arg_is_string a \<longrightarrow> plain_arg a) \<Longrightarrow>
    \<forall>a \<in> set (fst (arg_field (cstr key) xs p)). arg_is_string a \<longrightarrow> plain_arg a"
  by (auto simp: arg_field_def Let_def push_arg_def json_args_push_def store_field_def json_cstring_def plain_arg_def split: option.splits)

lemma parsed_plain:
  assumes "json_args_parse json = Some args" "list_all arg_is_string args" shows "list_all plain_arg args"
proof -
  let ?I = "\<lambda>xs. \<forall>a \<in> set xs. arg_is_string a \<longrightarrow> plain_arg a"
  have "?I (fst (object_value arg_field [] (json_ws (of_ptr json))))"
    by (rule object_value_invariant [where I = ?I and f = arg_field]) (rule plain_args_field, assumption, simp)
  then show ?thesis using assms by (auto simp: json_args_parse_def list_all_iff split: prod.splits option.splits)
qed

text \<open>
  An arguments object whose members are strings reads back after it has been written again: parsing the
  text \<^verbatim>\<open>append_json_object_or_empty\<close> produces gives the same names and values in the same order.
\<close>

theorem string_arguments_roundtrip:
  assumes "json_args_parse json = Some args" "list_all arg_is_string args"
  shows "json_args_parse (Some (append_json_object_or_empty json)) = Some args"
  using parsed_plain [OF assms] plain_members read_object [of args "[]"] assms(1) by (simp add: append_json_object_or_empty_def)

theorem string_arguments_roundtrip_witness:
  "let j = ''{ '' @ dq @ ''a'' @ dq @ '' : '' @ dq @ ''x'' @ [CHR 0x5C] @ ''n'' @ dq @ ''}''
   in json_args_parse (Some (append_json_object_or_empty (Some j))) = json_args_parse (Some j)"
proof -
  let ?j = "''{ '' @ dq @ ''a'' @ dq @ '' : '' @ dq @ ''x'' @ [CHR 0x5C] @ ''n'' @ dq @ ''}''"
  let ?a = "[\<lparr>arg_key = ''a'', arg_value = ''x'' @ nl, arg_is_string = True, arg_used = False\<rparr>]"
  have p: "json_args_parse (Some ?j) = Some ?a" by code_simp
  have "json_args_parse (Some (append_json_object_or_empty (Some ?j))) = Some ?a"
    by (rule string_arguments_roundtrip [OF p]) simp
  then show ?thesis unfolding Let_def p .
qed

end
