(* ===== verification/Prompt.thy ===== *)
theory Prompt
  imports ToolArgs
begin

text \<open>
  The prompt renderers of \<^verbatim>\<open>server.c\<close> for the DeepSeek and the GLM chat template, and the tail renderers
  that continue a live session after tool calls.  A loop over messages is a fold of one step over the
  output and the loop's flags; the full and the tail renderer of a template share the step, as their
  bodies agree except for when reasoning is kept.  The renderers compare roles with \<^verbatim>\<open>strcmp\<close>: parsed
  messages always have one.
\<close>

section \<open>Roles\<close>

definition role_is_system :: "chat_msg \<Rightarrow> bool" where
  "role_is_system m \<longleftrightarrow> role m = Some ''system'' \<or> role m = Some ''developer''"

definition role_is_user_like :: "chat_msg \<Rightarrow> bool" where
  "role_is_user_like m \<longleftrightarrow> role m = Some ''user'' \<or> role m = Some ''tool'' \<or> role m = Some ''function''"

definition chat_history_uses_tool_context :: "chat_msgs \<Rightarrow> string option \<Rightarrow> bool" where
  "chat_history_uses_tool_context msgs schemas \<longleftrightarrow> of_ptr schemas \<noteq> [] \<or>
     (\<exists>m \<in> set msgs. (role m = Some ''assistant'' \<and> calls_v (calls m) \<noteq> []) \<or> role m = Some ''tool'' \<or> role m = Some ''function'')"

definition last_user_idx :: "chat_msgs \<Rightarrow> int" where
  "last_user_idx msgs = foldl (\<lambda>l (i, m). if role_is_user_like m then int i else l) (-1) (enumerate 0 msgs)"

section \<open>DeepSeek\<close>

definition BOS :: string where "BOS = ''<'' @ bar @ ''begin'' @ low_line @ ''of'' @ low_line @ ''sentence'' @ bar @ ''>''"
definition EOS :: string where "EOS = ''<'' @ bar @ ''end'' @ low_line @ ''of'' @ low_line @ ''sentence'' @ bar @ ''>''"
definition USER_TAG :: string where "USER_TAG = ''<'' @ bar @ ''User'' @ bar @ ''>''"
definition ASSISTANT_TAG :: string where "ASSISTANT_TAG = ''<'' @ bar @ ''Assistant'' @ bar @ ''>''"

definition ds4_think_max_prefix :: string where
  "ds4_think_max_prefix =
    ''Reasoning Effort: Absolute maximum with no shortcuts permitted.'' @ nl
    @ ''You MUST be very thorough in your thinking and comprehensively decompose the problem to resolve the root cause, rigorously stress-testing your logic against all potential paths, edge cases, and adversarial scenarios.''
    @ nl
    @ ''Explicitly write out your entire deliberation process, documenting every intermediate step, considered alternative, and rejected hypothesis to ensure absolutely no assumption is left unchecked.''
    @ nl @ nl"

text \<open>The system text: tool schemas first, then the system messages, separated by blank lines.\<close>

definition system_step :: "string \<Rightarrow> chat_msg \<Rightarrow> string" where
  "system_step b m = (if \<not> role_is_system m then b else b @ (if b \<noteq> [] then nl @ nl else []) @ of_ptr (content m))"

definition deepseek_system :: "chat_msgs \<Rightarrow> string option \<Rightarrow> string" where
  "deepseek_system msgs schemas = foldl system_step (append_tools_prompt_text schemas) msgs"

type_synonym render_state = "string \<times> bool \<times> bool"

text \<open>One message: output, assistant turn pending, tool result block open.\<close>

definition deepseek_step :: "bool \<Rightarrow> bool \<Rightarrow> chat_msg \<Rightarrow> render_state \<Rightarrow> render_state" where
  "deepseek_step think keep m st = (case st of (out, pending_assistant, pending_tool_result) \<Rightarrow>
     if role_is_system m then st
     else if role m = Some ''user'' then (out @ USER_TAG @ of_ptr (content m), True, False)
     else if role m = Some ''tool'' \<or> role m = Some ''function'' then
       (out @ (if pending_tool_result then [] else USER_TAG) @ ''<tool_result>'' @ append_tool_result_text (content m) @ ''</tool_result>'', True, True)
     else if role m = Some ''assistant'' then
       (out @ (if pending_assistant
               then ASSISTANT_TAG @ (if think \<and> keep then ''<think>'' @ of_ptr (reasoning m) @ ''</think>'' else ''</think>'')
               else []) @
        of_ptr (content m) @ append_dsml_tool_calls_text (calls m) @ EOS, False, False)
     else st)"

definition deepseek_close :: "bool \<Rightarrow> render_state \<Rightarrow> string" where
  "deepseek_close think st = (case st of (out, pending_assistant, _) \<Rightarrow>
     out @ (if pending_assistant then ASSISTANT_TAG @ (if think then ''<think>'' else ''</think>'') else []))"

text \<open>The loop over the messages; \<open>keep\<close> decides by index whether reasoning is shown.\<close>

fun render_loop :: "(bool \<Rightarrow> chat_msg \<Rightarrow> render_state \<Rightarrow> render_state) \<Rightarrow> (nat \<Rightarrow> bool) \<Rightarrow> nat \<Rightarrow> chat_msgs \<Rightarrow> render_state \<Rightarrow> render_state" where
  "render_loop step keep i [] st = st"
| "render_loop step keep i (m # ms) st = render_loop step keep (Suc i) ms (step (keep i) m st)"

definition keep_reasoning :: "chat_msgs \<Rightarrow> string option \<Rightarrow> nat \<Rightarrow> bool" where
  "keep_reasoning msgs schemas i \<longleftrightarrow> chat_history_uses_tool_context msgs schemas \<or> int i > last_user_idx msgs"

definition render_deepseek_chat_prompt_text ::
  "chat_msgs \<Rightarrow> string option \<Rightarrow> tool_schema_orders \<Rightarrow> ds4_think_mode \<Rightarrow> string" where
  "render_deepseek_chat_prompt_text msgs schemas orders mode =
     (let think = ds4_think_mode_enabled mode;
          out = BOS @ (if mode = DS4_THINK_MAX then ds4_think_max_prefix else []) @ deepseek_system msgs schemas
      in deepseek_close think (render_loop (deepseek_step think) (keep_reasoning msgs schemas) 0 msgs (out, False, False)))"

definition render_deepseek_live_tool_tail :: "chat_msgs \<Rightarrow> nat \<Rightarrow> ds4_think_mode \<Rightarrow> string" where
  "render_deepseek_live_tool_tail msgs start mode =
     (let think = ds4_think_mode_enabled mode
      in deepseek_close think (render_loop (deepseek_step think) (\<lambda>_. True) start (drop start msgs) (EOS, False, False)))"

section \<open>GLM\<close>

definition ds4_glm_reasoning_effort_text :: "ds4_think_mode \<Rightarrow> string option" where
  "ds4_glm_reasoning_effort_text mode = (case mode of
     DS4_THINK_HIGH \<Rightarrow> Some ''Reasoning Effort: High'' | DS4_THINK_MAX \<Rightarrow> Some ''Reasoning Effort: Max'' | DS4_THINK_NONE \<Rightarrow> None)"

definition chat_msg_is_glm_tool_result :: "chat_msg \<Rightarrow> bool" where
  "chat_msg_is_glm_tool_result m \<longleftrightarrow> role m = Some ''tool'' \<or> role m = Some ''function'' \<or>
     (role m = Some ''user'' \<and> tool_call_ids m \<noteq> [])"

definition append_glm_tool_response :: "string \<Rightarrow> string" where
  "append_glm_tool_response body = ''<tool_response>'' @ append_glm_tool_response_text (Some body) @ ''</tool_response>''"

text \<open>The bodies of the result blocks of an Anthropic message.\<close>

function tool_result_bodies :: "string \<Rightarrow> string list" where
  "tool_result_bodies p = (case strstr p ''<tool_result>'' of None \<Rightarrow> []
     | Some i \<Rightarrow> (let body = drop (i + 13) p in
         case strstr body ''</tool_result>'' of None \<Rightarrow> []
         | Some n \<Rightarrow> take n body # tool_result_bodies (drop (n + 14) body)))"
  by pat_completeness auto

termination tool_result_bodies
  by (relation "measure length") (auto dest!: strstr_Some)

declare tool_result_bodies.simps [simp del]

definition append_glm_tool_result_message :: "chat_msg \<Rightarrow> string" where
  "append_glm_tool_result_message m =
     (let bodies = (if role m = Some ''user'' \<and> tool_call_ids m \<noteq> [] then tool_result_bodies (of_ptr (content m)) else [])
      in if bodies \<noteq> [] then concat (map append_glm_tool_response bodies)
         else append_glm_tool_response (of_ptr (content m)))"

definition text_starts_with_think_tag :: "string \<Rightarrow> bool" where
  "text_starts_with_think_tag s \<longleftrightarrow> prefix ''<think>'' s \<or> prefix ''</think>'' s"

definition append_trimmed_text :: "string option \<Rightarrow> string" where
  "append_trimmed_text s = rev (dropWhile isspace (rev (skip_space (of_ptr s))))"

definition append_glm_assistant_message_prefix :: "chat_msg \<Rightarrow> bool \<Rightarrow> string" where
  "append_glm_assistant_message_prefix m preserve_reasoning =
     (if text_starts_with_think_tag (of_ptr (content m)) then []
      else if preserve_reasoning then ''<think>'' @ of_ptr (reasoning m) @ ''</think>''
      else ''<think></think>'')"

definition glm_step :: "bool \<Rightarrow> tool_schema_orders \<Rightarrow> bool \<Rightarrow> chat_msg \<Rightarrow> render_state \<Rightarrow> render_state" where
  "glm_step think orders keep m st = (case st of (out, pending_assistant, observation_open) \<Rightarrow>
     if role_is_system m then (out, pending_assistant, False)
     else if chat_msg_is_glm_tool_result m then
       (out @ (if observation_open then [] else ''<|observation|>'') @ append_glm_tool_result_message m, True, True)
     else if role m = Some ''user'' then (out @ ''<|user|>'' @ of_ptr (content m), True, False)
     else if role m = Some ''assistant'' then
       (out @ ''<|assistant|>'' @ append_glm_assistant_message_prefix m (think \<and> keep) @ append_trimmed_text (content m) @
        append_tool_calls_text_for_syntax SERVER_MODEL_SYNTAX_GLM (calls m) orders, False, False)
     else st)"

definition glm_close :: "bool \<Rightarrow> render_state \<Rightarrow> string" where
  "glm_close think st = (case st of (out, pending_assistant, _) \<Rightarrow>
     out @ (if pending_assistant then ''<|assistant|>'' @ (if think then ''<think>'' else ''<think></think>'') else []))"

definition glm_head :: "chat_msgs \<Rightarrow> string option \<Rightarrow> ds4_think_mode \<Rightarrow> string" where
  "glm_head msgs schemas mode = ''[gMASK]<sop>'' @
     (if ds4_think_mode_enabled mode then ''<|system|>'' @ or_default (ds4_glm_reasoning_effort_text mode) ''Reasoning Effort: Max'' else []) @
     (if append_glm_tools_prompt_text schemas \<noteq> [] then ''<|system|>'' @ append_glm_tools_prompt_text schemas else []) @
     concat (map (\<lambda>m. ''<|system|>'' @ of_ptr (content m)) (filter role_is_system msgs))"

definition render_glm_chat_prompt_text ::
  "chat_msgs \<Rightarrow> string option \<Rightarrow> tool_schema_orders \<Rightarrow> ds4_think_mode \<Rightarrow> string" where
  "render_glm_chat_prompt_text msgs schemas orders mode =
     (let think = ds4_think_mode_enabled mode
      in glm_close think (render_loop (glm_step think orders) (keep_reasoning msgs schemas) 0 msgs (glm_head msgs schemas mode, False, False)))"

definition render_glm_live_tool_tail :: "chat_msgs \<Rightarrow> nat \<Rightarrow> tool_schema_orders \<Rightarrow> ds4_think_mode \<Rightarrow> string" where
  "render_glm_live_tool_tail msgs start orders mode =
     (let think = ds4_think_mode_enabled mode
      in glm_close think (render_loop (glm_step think orders) (\<lambda>_. True) start (drop start msgs) ([], False, False)))"

section \<open>Both templates\<close>

definition render_chat_prompt_text_for_syntax ::
  "server_model_syntax \<Rightarrow> chat_msgs \<Rightarrow> string option \<Rightarrow> tool_schema_orders \<Rightarrow> ds4_think_mode \<Rightarrow> string" where
  "render_chat_prompt_text_for_syntax syntax msgs schemas orders mode = (case syntax of
     SERVER_MODEL_SYNTAX_GLM \<Rightarrow> render_glm_chat_prompt_text msgs schemas orders mode
   | SERVER_MODEL_SYNTAX_DEEPSEEK \<Rightarrow> render_deepseek_chat_prompt_text msgs schemas orders mode)"

definition render_live_tool_tail_for_syntax ::
  "server_model_syntax \<Rightarrow> chat_msgs \<Rightarrow> nat \<Rightarrow> tool_schema_orders \<Rightarrow> ds4_think_mode \<Rightarrow> string" where
  "render_live_tool_tail_for_syntax syntax msgs start orders mode = (case syntax of
     SERVER_MODEL_SYNTAX_GLM \<Rightarrow> render_glm_live_tool_tail msgs start orders mode
   | SERVER_MODEL_SYNTAX_DEEPSEEK \<Rightarrow> render_deepseek_live_tool_tail msgs start mode)"

section \<open>Continuing a rendered conversation\<close>

text \<open>
  A step of a renderer appends to the output, and what it appends and the new flags depend only on
  the old flags and the message.
\<close>

locale message_renderer =
  fixes step :: "bool \<Rightarrow> chat_msg \<Rightarrow> render_state \<Rightarrow> render_state"
  assumes step_appends: "step k m (a @ out, x, y) = apfst ((@) a) (step k m (out, x, y))"
    and assistant_closes: "role m = Some ''assistant'' \<Longrightarrow> \<exists>t. step k m (out, x, y) = (out @ t, False, False)"
begin

lemma loop_appends: "render_loop step keep i ms (a @ out, x, y) = apfst ((@) a) (render_loop step keep i ms (out, x, y))"
proof (induction ms arbitrary: i out x y)
  case (Cons m ms)
  show ?case by (cases "step (keep i) m (out, x, y)") (simp add: step_appends Cons)
qed simp

lemma loop_cong: "(\<And>j. i \<le> j \<Longrightarrow> j < i + length ms \<Longrightarrow> keep j = keep' j) \<Longrightarrow> render_loop step keep i ms st = render_loop step keep' i ms st"
proof (induction ms arbitrary: i st)
  case (Cons m ms)
  then show ?case by simp
qed simp

lemma loop_split: "render_loop step keep i (ms @ ns) st = render_loop step keep (i + length ms) ns (render_loop step keep i ms st)"
  by (induction ms arbitrary: i st) simp_all

lemma loop_after_assistant:
  "role m = Some ''assistant'' \<Longrightarrow> \<exists>out. render_loop step keep i (ms @ [m]) st = (out, False, False)"
  using assistant_closes
  by (cases "render_loop step keep i ms st") (force simp: loop_split)

end

interpretation deepseek: message_renderer "deepseek_step think" for think
  by unfold_locales (auto simp: deepseek_step_def role_is_system_def)

interpretation glm: message_renderer "glm_step think orders" for think orders
  by unfold_locales (auto simp: glm_step_def role_is_system_def chat_msg_is_glm_tool_result_def)

lemma tool_context_append: "chat_history_uses_tool_context ms schemas \<Longrightarrow> chat_history_uses_tool_context (ms @ ns) schemas"
  by (auto simp: chat_history_uses_tool_context_def)

lemma keep_in_tool_context: "chat_history_uses_tool_context ms schemas \<Longrightarrow> keep_reasoning ms schemas = (\<lambda>_. True)"
  by (auto simp: keep_reasoning_def)

lemma system_step_skip: "list_all (\<lambda>m. \<not> role_is_system m) ms \<Longrightarrow> foldl system_step b ms = b"
  by (induction ms arbitrary: b) (simp_all add: system_step_def)

lemma deepseek_system_append: "list_all (\<lambda>m. \<not> role_is_system m) ns \<Longrightarrow> deepseek_system (ms @ ns) schemas = deepseek_system ms schemas"
  by (simp add: deepseek_system_def system_step_skip)

lemma glm_head_append: "list_all (\<lambda>m. \<not> role_is_system m) ns \<Longrightarrow> glm_head (ms @ ns) schemas mode = glm_head ms schemas mode"
  by (simp add: glm_head_def filter_empty_conv list_all_iff)

lemma loop_index_irrelevant: "render_loop step (\<lambda>_. True) i ms st = render_loop step (\<lambda>_. True) j ms st"
  by (induction ms arbitrary: i j st) auto

lemma deepseek_assistant_eos:
  "role m = Some ''assistant'' \<Longrightarrow> \<exists>t. deepseek_step think keep m st = (t @ EOS, False, False)"
  by (cases st) (auto simp: deepseek_step_def role_is_system_def)

lemma deepseek_tail:
  assumes "chat_history_uses_tool_context (hist @ [a]) schemas" "role a = Some ''assistant''" "list_all (\<lambda>m. \<not> role_is_system m) new"
  shows "\<exists>sent. render_deepseek_chat_prompt_text (hist @ [a]) schemas orders mode = sent @ EOS \<and>
    render_deepseek_chat_prompt_text (hist @ [a] @ new) schemas orders mode =
      sent @ render_deepseek_live_tool_tail (hist @ [a] @ new) (length hist + 1) mode"
proof -
  let ?think = "ds4_think_mode_enabled mode"
  let ?out = "BOS @ (if mode = DS4_THINK_MAX then ds4_think_max_prefix else []) @ deepseek_system (hist @ [a]) schemas"
  let ?loop = "\<lambda>i ms. render_loop (deepseek_step ?think) (\<lambda>_. True) i ms"
  note keep = keep_in_tool_context [OF assms(1)] keep_in_tool_context [OF tool_context_append [OF assms(1), of new]]
  obtain sent where sent: "?loop 0 (hist @ [a]) (?out, False, False) = (sent @ EOS, False, False)"
    using deepseek_assistant_eos [OF assms(2), of ?think True "?loop 0 hist (?out, False, False)"]
    by (auto simp: deepseek.loop_split)
  have one: "render_deepseek_chat_prompt_text (hist @ [a]) schemas orders mode = sent @ EOS"
    unfolding render_deepseek_chat_prompt_text_def Let_def keep sent by (simp add: deepseek_close_def)
  have sys: "deepseek_system (hist @ [a] @ new) schemas = deepseek_system (hist @ [a]) schemas"
    using deepseek_system_append [OF assms(3), of "hist @ [a]"] by simp
  have "?loop 0 ((hist @ [a]) @ new) (?out, False, False) = apfst ((@) sent) (?loop (length hist + 1) new (EOS, False, False))"
    unfolding deepseek.loop_split [where ms = "hist @ [a]"] sent
    using deepseek.loop_appends [of ?think "\<lambda>_. True" "0 + length (hist @ [a])" new sent EOS False False]
    by (simp add: loop_index_irrelevant [of _ "Suc (length hist)"])
  then have "render_deepseek_chat_prompt_text (hist @ [a] @ new) schemas orders mode =
      deepseek_close ?think (apfst ((@) sent) (?loop (length hist + 1) new (EOS, False, False)))"
    using sys keep(2) by (simp add: render_deepseek_chat_prompt_text_def Let_def)
  also have "\<dots> = sent @ render_deepseek_live_tool_tail (hist @ [a] @ new) (length hist + 1) mode"
    by (cases "?loop (length hist + 1) new (EOS, False, False)") (simp add: render_deepseek_live_tool_tail_def Let_def deepseek_close_def)
  finally show ?thesis using one by blast
qed

lemma glm_tail:
  assumes "chat_history_uses_tool_context (hist @ [a]) schemas" "role a = Some ''assistant''" "list_all (\<lambda>m. \<not> role_is_system m) new"
  shows "render_glm_chat_prompt_text (hist @ [a] @ new) schemas orders mode =
    render_glm_chat_prompt_text (hist @ [a]) schemas orders mode @ render_glm_live_tool_tail (hist @ [a] @ new) (length hist + 1) orders mode"
proof -
  let ?think = "ds4_think_mode_enabled mode"
  let ?out = "glm_head (hist @ [a]) schemas mode"
  let ?loop = "\<lambda>i ms. render_loop (glm_step ?think orders) (\<lambda>_. True) i ms"
  note keep = keep_in_tool_context [OF assms(1)] keep_in_tool_context [OF tool_context_append [OF assms(1), of new]]
  obtain sent where sent: "?loop 0 (hist @ [a]) (?out, False, False) = (sent, False, False)"
    using glm.loop_after_assistant [OF assms(2)] by blast
  have one: "render_glm_chat_prompt_text (hist @ [a]) schemas orders mode = sent"
    unfolding render_glm_chat_prompt_text_def Let_def keep sent by (simp add: glm_close_def)
  have hd: "glm_head (hist @ [a] @ new) schemas mode = glm_head (hist @ [a]) schemas mode"
    using glm_head_append [OF assms(3), of "hist @ [a]"] by simp
  have "?loop 0 ((hist @ [a]) @ new) (?out, False, False) = apfst ((@) sent) (?loop (length hist + 1) new ([], False, False))"
    unfolding glm.loop_split [where ms = "hist @ [a]"] sent
    using glm.loop_appends [of ?think orders "\<lambda>_. True" "0 + length (hist @ [a])" new sent "[]" False False]
    by (simp add: loop_index_irrelevant [of _ "Suc (length hist)"])
  then have "render_glm_chat_prompt_text (hist @ [a] @ new) schemas orders mode =
      glm_close ?think (apfst ((@) sent) (?loop (length hist + 1) new ([], False, False)))"
    using hd keep(2) by (simp add: render_glm_chat_prompt_text_def Let_def)
  also have "\<dots> = sent @ render_glm_live_tool_tail (hist @ [a] @ new) (length hist + 1) orders mode"
    by (cases "?loop (length hist + 1) new ([], False, False)") (simp add: render_glm_live_tool_tail_def Let_def glm_close_def)
  finally show ?thesis using one by simp
qed

text \<open>
  C24.  The live tail is what a full rendering would append: when the conversation uses tools and its last
  message so far is the assistant's, rendering it together with new messages gives the text of the
  old conversation followed by the tail the live session appends.  In the DeepSeek template the tail
  starts with the end-of-sentence mark the old text ends with, so nothing is written twice.
\<close>

theorem live_tail_continues_prompt:
  assumes "chat_history_uses_tool_context (hist @ [a]) schemas" "role a = Some ''assistant''"
    and "list_all (\<lambda>m. \<not> role_is_system m) new"
  shows "(\<exists>sent. render_chat_prompt_text_for_syntax SERVER_MODEL_SYNTAX_DEEPSEEK (hist @ [a]) schemas orders mode = sent @ EOS \<and>
      render_chat_prompt_text_for_syntax SERVER_MODEL_SYNTAX_DEEPSEEK (hist @ [a] @ new) schemas orders mode =
        sent @ render_live_tool_tail_for_syntax SERVER_MODEL_SYNTAX_DEEPSEEK (hist @ [a] @ new) (length hist + 1) orders mode) \<and>
    render_chat_prompt_text_for_syntax SERVER_MODEL_SYNTAX_GLM (hist @ [a] @ new) schemas orders mode =
      render_chat_prompt_text_for_syntax SERVER_MODEL_SYNTAX_GLM (hist @ [a]) schemas orders mode @
      render_live_tool_tail_for_syntax SERVER_MODEL_SYNTAX_GLM (hist @ [a] @ new) (length hist + 1) orders mode"
  using deepseek_tail [OF assms, of orders mode] glm_tail [OF assms, of orders mode]
  by (simp add: render_chat_prompt_text_for_syntax_def render_live_tool_tail_for_syntax_def)

definition sample_call :: chat_msg where
  "sample_call = chat_msg_zero\<lparr>role := Some ''assistant'', content := Some ''ok'',
     calls := \<lparr>calls_v = [\<lparr>tc_id = Some ''c1'', tc_name = Some ''ls'', tc_arguments = Some ''{}''\<rparr>], raw_tool_text = None\<rparr>\<rparr>"

definition sample_result :: chat_msg where
  "sample_result = chat_msg_zero\<lparr>role := Some ''tool'', content := Some ''a.c''\<rparr>"

theorem live_tail_continues_prompt_witness:
  "render_chat_prompt_text_for_syntax SERVER_MODEL_SYNTAX_GLM ([] @ [sample_call] @ [sample_result]) None [] DS4_THINK_HIGH =
     render_chat_prompt_text_for_syntax SERVER_MODEL_SYNTAX_GLM ([] @ [sample_call]) None [] DS4_THINK_HIGH @
     ''<|observation|><tool_response>a.c</tool_response><|assistant|><think>''"
proof -
  have tail_text: "render_live_tool_tail_for_syntax SERVER_MODEL_SYNTAX_GLM ([] @ [sample_call] @ [sample_result]) (length ([] :: chat_msgs) + 1) [] DS4_THINK_HIGH =
      ''<|observation|><tool_response>a.c</tool_response><|assistant|><think>''" by code_simp
  have "chat_history_uses_tool_context ([] @ [sample_call]) None" "role sample_call = Some ''assistant''"
    "list_all (\<lambda>m. \<not> role_is_system m) [sample_result]" by code_simp+
  from live_tail_continues_prompt [OF this, of "[]" DS4_THINK_HIGH] show ?thesis unfolding tail_text by blast
qed

end
