(* ===== verification/Continuation.thy ===== *)
theory Continuation
  imports Prompt Streaming
begin

text \<open>
  Which tool results a request may carry (\<^verbatim>\<open>server.c\<close>): each result names the call it answers, and the
  call must be known, either to the live session or from an assistant message earlier in the same
  request.  The radix tree from call ids to messages is a map; a message in it stands for the C
  pointer to it.  Whether the live session knows an id is a parameter here.
\<close>

section \<open>Lists of ids\<close>

definition id_list_contains :: "stop_list \<Rightarrow> string option \<Rightarrow> bool" where
  "id_list_contains ids i \<longleftrightarrow> (case i of None \<Rightarrow> False | Some s \<Rightarrow> s \<noteq> [] \<and> s \<in> set (stop_v ids))"

definition id_list_push_unique :: "stop_list \<Rightarrow> string option \<Rightarrow> stop_list" where
  "id_list_push_unique ids i = (case i of None \<Rightarrow> ids | Some s \<Rightarrow>
     if s = [] \<or> id_list_contains ids i then ids else stop_list_push ids (Some s))"

definition id_list_free :: stop_list where
  "id_list_free = \<lparr>stop_v = [], stop_max_len = 0\<rparr>"

definition chat_msg_collect_tool_call_ids :: "chat_msg \<Rightarrow> stop_list \<Rightarrow> stop_list" where
  "chat_msg_collect_tool_call_ids m ids =
     foldl id_list_push_unique (id_list_push_unique ids (tool_call_id m)) (map Some (tool_call_ids m))"

definition collect_message_ids :: "stop_list \<Rightarrow> chat_msg \<Rightarrow> stop_list" where
  "collect_message_ids ids m = foldl id_list_push_unique (chat_msg_collect_tool_call_ids m ids) (map tc_id (calls_v (calls m)))"

definition collect_tool_call_ids :: "chat_msgs \<Rightarrow> stop_list \<Rightarrow> stop_list" where
  "collect_tool_call_ids msgs ids = foldl collect_message_ids ids msgs"

lemma set_push_unique: "set (stop_v (id_list_push_unique ids i)) = set (stop_v ids) \<union> (set_option i - {[]})"
  by (auto simp: id_list_push_unique_def id_list_contains_def stop_list_push_def split: option.splits)

lemma distinct_push_unique: "distinct (stop_v ids) \<Longrightarrow> distinct (stop_v (id_list_push_unique ids i))"
  by (auto simp: id_list_push_unique_def id_list_contains_def stop_list_push_def split: option.splits)

lemma set_push_all: "set (stop_v (foldl id_list_push_unique ids xs)) = set (stop_v ids) \<union> (\<Union>(set_option ` set xs) - {[]})"
  by (induction xs arbitrary: ids) (auto simp: set_push_unique)

lemma distinct_push_all: "distinct (stop_v ids) \<Longrightarrow> distinct (stop_v (foldl id_list_push_unique ids xs))"
  by (induction xs arbitrary: ids) (auto simp: distinct_push_unique)

section \<open>Validation\<close>

text \<open>An assistant message declares the ids of its calls; a later declaration replaces an earlier one.\<close>

definition register_calls :: "(string \<rightharpoonup> chat_msg) \<Rightarrow> chat_msg \<Rightarrow> (string \<rightharpoonup> chat_msg)" where
  "register_calls by_call_id m = foldl (\<lambda>mp tc. case tc_id tc of None \<Rightarrow> mp
     | Some cid \<Rightarrow> if cid \<noteq> [] then mp(cid \<mapsto> m) else mp) by_call_id (calls_v (calls m))"

type_synonym live_flags = "bool \<times> bool"

text \<open>
  The check of the ids of one result: the flags are \<^verbatim>\<open>requires_live_tool_state\<close> and
  \<^verbatim>\<open>requires_live_reasoning\<close>; an id that is known to nobody is the error.
\<close>

fun check_ids :: "(string \<Rightarrow> bool) \<Rightarrow> bool \<Rightarrow> (string \<rightharpoonup> chat_msg) \<Rightarrow> live_flags \<Rightarrow> string list \<Rightarrow> string + live_flags" where
  "check_ids live needs by_call_id flags [] = Inr flags"
| "check_ids live needs by_call_id (need_tools, need_reasoning) (i # ids) =
     (case (if i \<noteq> [] then by_call_id i else None) of
        None \<Rightarrow> if \<not> live i then Inl i else check_ids live needs by_call_id (True, need_reasoning) ids
      | Some prior \<Rightarrow> check_ids live needs by_call_id
          (need_tools, need_reasoning \<or> (needs \<and> of_ptr (reasoning prior) = [])) ids)"

fun validate_loop ::
  "(chat_msg \<Rightarrow> bool) \<Rightarrow> (string \<Rightarrow> bool) \<Rightarrow> bool \<Rightarrow> (string \<rightharpoonup> chat_msg) \<Rightarrow> live_flags \<Rightarrow> chat_msgs \<Rightarrow> string + live_flags" where
  "validate_loop is_result live needs by_call_id flags [] = Inr flags"
| "validate_loop is_result live needs by_call_id flags (m # ms) =
     (if role m = Some ''assistant'' then validate_loop is_result live needs (register_calls by_call_id m) flags ms
      else if \<not> is_result m then validate_loop is_result live needs by_call_id flags ms
      else (case check_ids live needs by_call_id flags (stop_v (chat_msg_collect_tool_call_ids m id_list_free)) of
          Inl i \<Rightarrow> Inl i
        | Inr flags' \<Rightarrow> validate_loop is_result live needs by_call_id flags' ms))"

definition is_tool_message :: "chat_msg \<Rightarrow> bool" where
  "is_tool_message m \<longleftrightarrow> role m = Some ''tool'' \<or> role m = Some ''function''"

definition anthropic_msg_is_tool_result_tail :: "chat_msg \<Rightarrow> bool" where
  "anthropic_msg_is_tool_result_tail m \<longleftrightarrow> role m = Some ''user'' \<and> (of_ptr (tool_call_id m) \<noteq> [] \<or> tool_call_ids m \<noteq> [])"

text \<open>The messages a client gets; \<^verbatim>\<open>snprintf\<close> cuts them at the size of the buffer.\<close>

definition responses_validate_tool_outputs ::
  "(string \<Rightarrow> bool) \<Rightarrow> chat_msgs \<Rightarrow> ds4_think_mode \<Rightarrow> nat \<Rightarrow> string + live_flags" where
  "responses_validate_tool_outputs live msgs mode errlen =
     (case validate_loop is_tool_message live (ds4_think_mode_enabled mode) Map.empty (False, False) msgs of
        Inl i \<Rightarrow> Inl (take (errlen - 1) (''Responses continuation state is not available for call_id '' @ i @
                   ''; retry by replaying the full input history''))
      | Inr flags \<Rightarrow> Inr flags)"

definition anthropic_validate_tool_results :: "(string \<Rightarrow> bool) \<Rightarrow> chat_msgs \<Rightarrow> nat \<Rightarrow> string + bool" where
  "anthropic_validate_tool_results live msgs errlen =
     (case validate_loop anthropic_msg_is_tool_result_tail live False Map.empty (False, False) msgs of
        Inl i \<Rightarrow> Inl (take (errlen - 1) (''Anthropic continuation state is not available for tool_use_id '' @ i @
                   ''; retry by replaying the full messages history''))
      | Inr (need_tools, _) \<Rightarrow> Inr need_tools)"

section \<open>The tail of a live continuation\<close>

text \<open>The number of trailing messages of a kind, counted as the loops count back from the end.\<close>

fun tail_start :: "(chat_msg \<Rightarrow> bool) \<Rightarrow> chat_msgs \<Rightarrow> nat \<Rightarrow> nat" where
  "tail_start P msgs 0 = 0"
| "tail_start P msgs (Suc n) = (if P (msgs ! n) then tail_start P msgs n else Suc n)"

text \<open>The ids and the text of the suffix; none when the request keeps what it has.\<close>

definition responses_prepare_live_continuation ::
  "server_model_syntax \<Rightarrow> api_style \<Rightarrow> chat_msgs \<Rightarrow> tool_schema_orders \<Rightarrow> ds4_think_mode \<Rightarrow> stop_list \<times> string option \<Rightarrow> stop_list \<times> string option" where
  "responses_prepare_live_continuation syntax api msgs orders mode live =
     (if api \<noteq> API_RESPONSES \<or> msgs = [] then live
      else (let start = tail_start is_tool_message msgs (length msgs) in
        if start = length msgs then live
        else (let ids0 = stop_list_clear (fst live) in
          if start > 0 \<and> (role (msgs ! (start - 1)) \<noteq> Some ''assistant'' \<or> calls_v (calls (msgs ! (start - 1))) = []) then (ids0, snd live)
          else (let ids = (if start > 0
                  then foldl id_list_push_unique ids0 (map tc_id (calls_v (calls (msgs ! (start - 1)))))
                  else foldl (\<lambda>l m. chat_msg_collect_tool_call_ids m l) ids0 (drop start msgs))
            in if stop_v ids = [] then (ids, snd live)
               else (ids, Some (render_live_tool_tail_for_syntax syntax msgs start orders mode))))))"

definition anthropic_prepare_live_continuation ::
  "server_model_syntax \<Rightarrow> api_style \<Rightarrow> chat_msgs \<Rightarrow> tool_schema_orders \<Rightarrow> ds4_think_mode \<Rightarrow> stop_list \<times> string option \<Rightarrow> stop_list \<times> string option" where
  "anthropic_prepare_live_continuation syntax api msgs orders mode live =
     (if api \<noteq> API_ANTHROPIC \<or> msgs = [] then live
      else (let tail_end = tail_start role_is_system msgs (length msgs);
                start = tail_start anthropic_msg_is_tool_result_tail msgs tail_end in
        if start = tail_end then live
        else (let ids = foldl (\<lambda>l m. chat_msg_collect_tool_call_ids m l) (stop_list_clear (fst live)) (drop start msgs)
          in if stop_v ids = [] then (ids, snd live)
             else (ids, Some (render_live_tool_tail_for_syntax syntax msgs start orders mode)))))"

section \<open>The map finds the nearest declaration\<close>

text \<open>
  The reference the map replaced: a scan backwards over the messages already passed (the nearest
  first) for an assistant message that declares the id.
\<close>

definition declares :: "string \<Rightarrow> chat_msg \<Rightarrow> bool" where
  "declares i m \<longleftrightarrow> role m = Some ''assistant'' \<and> Some i \<in> tc_id ` set (calls_v (calls m))"

definition find_prior_call_msg :: "chat_msgs \<Rightarrow> string \<Rightarrow> chat_msg option" where
  "find_prior_call_msg before i = (if i = [] then None else List.find (declares i) before)"

text \<open>Every id of every result, with the message the reference finds for it.\<close>

fun result_ids :: "(chat_msg \<Rightarrow> bool) \<Rightarrow> chat_msgs \<Rightarrow> chat_msgs \<Rightarrow> (string \<times> chat_msg option) list" where
  "result_ids is_result before [] = []"
| "result_ids is_result before (m # ms) =
     (if role m \<noteq> Some ''assistant'' \<and> is_result m
      then map (\<lambda>i. (i, find_prior_call_msg before i)) (stop_v (chat_msg_collect_tool_call_ids m id_list_free)) else []) @
     result_ids is_result (m # before) ms"

definition reference_validation :: "(string \<Rightarrow> bool) \<Rightarrow> bool \<Rightarrow> (string \<times> chat_msg option) list \<Rightarrow> string + live_flags" where
  "reference_validation live needs refs =
     (case List.find (\<lambda>(i, prior). \<not> live i \<and> prior = None) refs of
        Some (i, _) \<Rightarrow> Inl i
      | None \<Rightarrow> Inr (\<exists>(i, prior) \<in> set refs. prior = None,
          \<exists>(i, prior) \<in> set refs. needs \<and> (case prior of None \<Rightarrow> False | Some m \<Rightarrow> of_ptr (reasoning m) = [])))"

lemma register_calls_apply:
  "i \<noteq> [] \<Longrightarrow> register_calls mp m i = (if Some i \<in> tc_id ` set (calls_v (calls m)) then Some m else mp i)"
proof -
  assume i: "i \<noteq> []"
  have "foldl (\<lambda>mp tc. case tc_id tc of None \<Rightarrow> mp | Some cid \<Rightarrow> if cid \<noteq> [] then mp(cid \<mapsto> m) else mp) mp cs i =
      (if Some i \<in> tc_id ` set cs then Some m else mp i)" for cs :: "tool_call list"
    using i by (induction cs arbitrary: mp) (auto split: option.splits)
  then show ?thesis by (simp add: register_calls_def)
qed

lemma check_ids_reference:
  "(\<And>i. i \<noteq> [] \<Longrightarrow> mp i = find_prior_call_msg before i) \<Longrightarrow>
   check_ids live needs mp (a, b) ids =
     (case reference_validation live needs (map (\<lambda>i. (i, find_prior_call_msg before i)) ids) of
        Inl i \<Rightarrow> Inl i | Inr (x, y) \<Rightarrow> Inr (a \<or> x, b \<or> y))"
proof (induction ids arbitrary: a b)
  case Nil
  then show ?case by (simp add: reference_validation_def)
next
  case (Cons i ids)
  have m: "(if i \<noteq> [] then mp i else None) = find_prior_call_msg before i"
    using Cons.prems [of i] by (simp add: find_prior_call_msg_def)
  show ?case using Cons.IH [OF Cons.prems] m
    by (cases "find_prior_call_msg before i") (auto simp: reference_validation_def split: option.splits sum.splits)
qed

lemma reference_Nil [simp]: "reference_validation live needs [] = Inr (False, False)"
  by (simp add: reference_validation_def)

lemma find_in_append: "List.find P (xs @ ys) = (case List.find P xs of None \<Rightarrow> List.find P ys | Some x \<Rightarrow> Some x)"
  by (induction xs) auto

lemma reference_append:
  "reference_validation live needs (xs @ ys) =
     (case reference_validation live needs xs of Inl i \<Rightarrow> Inl i | Inr (a, b) \<Rightarrow>
        (case reference_validation live needs ys of Inl i \<Rightarrow> Inl i | Inr (x, y) \<Rightarrow> Inr (a \<or> x, b \<or> y)))"
  by (auto simp: reference_validation_def find_in_append split: option.splits)

lemma validate_reference:
  "(\<And>i. i \<noteq> [] \<Longrightarrow> mp i = find_prior_call_msg before i) \<Longrightarrow>
   validate_loop is_result live needs mp (a, b) ms =
     (case reference_validation live needs (result_ids is_result before ms) of
        Inl i \<Rightarrow> Inl i | Inr (x, y) \<Rightarrow> Inr (a \<or> x, b \<or> y))"
proof (induction ms arbitrary: mp before a b)
  case Nil
  then show ?case by (simp add: reference_validation_def)
next
  case (Cons m ms)
  show ?case
  proof (cases "role m = Some ''assistant''")
    case True
    have "register_calls mp m i = find_prior_call_msg (m # before) i" if "i \<noteq> []" for i
      using that Cons.prems True by (simp add: register_calls_apply find_prior_call_msg_def declares_def)
    from Cons.IH [OF this] True show ?thesis by simp
  next
    case False
    have mp: "mp i = find_prior_call_msg (m # before) i" if "i \<noteq> []" for i
      using that Cons.prems False by (simp add: find_prior_call_msg_def declares_def)
    show ?thesis using Cons.IH [OF mp] check_ids_reference [OF Cons.prems] False
      by (auto simp: reference_append split: sum.splits)
  qed
qed

text \<open>
  C29.  One pass with a map decides like a backward scan for every id: the validation of tool results, for
  Responses and for Anthropic requests, fails exactly when some result answers a call that neither the
  live session nor an earlier assistant message declares, reporting the first such id, and otherwise
  asks for the live tool state and the live reasoning exactly when the scan finds no message, or one
  without reasoning.
\<close>

theorem validation_matches_backward_scan:
  "validate_loop is_result live needs Map.empty (False, False) msgs =
     reference_validation live needs (result_ids is_result [] msgs) \<and>
   responses_validate_tool_outputs live msgs mode errlen =
     map_sum (\<lambda>i. take (errlen - 1) (''Responses continuation state is not available for call_id '' @ i @
         ''; retry by replaying the full input history'')) id
       (reference_validation live (ds4_think_mode_enabled mode) (result_ids is_tool_message [] msgs)) \<and>
   anthropic_validate_tool_results live msgs errlen =
     map_sum (\<lambda>i. take (errlen - 1) (''Anthropic continuation state is not available for tool_use_id '' @ i @
         ''; retry by replaying the full messages history'')) fst
       (reference_validation live False (result_ids anthropic_msg_is_tool_result_tail [] msgs))"
proof -
  have v: "validate_loop P live n Map.empty (False, False) msgs = reference_validation live n (result_ids P [] msgs)" for P n
    using validate_reference [where mp = Map.empty and before = "[]" and a = False and b = False]
    by (auto simp: find_prior_call_msg_def split: sum.splits)
  show ?thesis unfolding responses_validate_tool_outputs_def anthropic_validate_tool_results_def v
    by (auto split: sum.splits)
qed

section \<open>Continuations answer the last assistant turn\<close>

lemma tail_start_le: "tail_start P msgs n \<le> n"
  by (induction n) (auto intro: le_SucI)

lemma tail_start_all: "n \<le> length msgs \<Longrightarrow> list_all P (take (n - tail_start P msgs n) (drop (tail_start P msgs n) msgs))"
proof (induction n)
  case (Suc n)
  show ?case
  proof (cases "P (msgs ! n)")
    case True
    let ?k = "tail_start P msgs n"
    have k: "?k \<le> n" by (rule tail_start_le)
    have "take (Suc n - ?k) (drop ?k msgs) = take (n - ?k) (drop ?k msgs) @ [msgs ! n]"
      using k Suc.prems by (simp add: Suc_diff_le take_Suc_conv_app_nth)
    then show ?thesis using Suc True by simp
  qed simp
qed simp

text \<open>
  A live Responses continuation carries exactly the results at the end of the request: the suffix it
  prepares is the tail of tool messages, and when messages precede them, the one right before is an
  assistant message whose calls are exactly the ids the continuation is bound to.
\<close>

theorem responses_continuation_bound:
  assumes "responses_prepare_live_continuation syntax API_RESPONSES msgs orders mode (ids0, None) = (ids, Some t)"
  defines "start \<equiv> tail_start is_tool_message msgs (length msgs)"
  shows "t = render_live_tool_tail_for_syntax syntax msgs start orders mode \<and> list_all is_tool_message (drop start msgs) \<and>
    (0 < start \<longrightarrow> role (msgs ! (start - 1)) = Some ''assistant'' \<and>
       set (stop_v ids) = {i. Some i \<in> tc_id ` set (calls_v (calls (msgs ! (start - 1))))} - {[]})"
proof -
  have "list_all is_tool_message (drop start msgs)"
    using tail_start_all [of "length msgs" msgs is_tool_message] by (simp add: start_def)
  moreover have "set (stop_v (foldl id_list_push_unique (stop_list_clear ids0) xs)) = {i. Some i \<in> set xs} - {[]}" for xs
    by (auto simp: set_push_all stop_list_clear_def)
  ultimately show ?thesis using assms(1)
    by (auto simp: responses_prepare_live_continuation_def Let_def start_def [symmetric] split: if_splits)
qed

theorem responses_continuation_bound_witness:
  "let r = responses_prepare_live_continuation SERVER_MODEL_SYNTAX_GLM API_RESPONSES [sample_call, sample_result] [] DS4_THINK_NONE (id_list_free, None)
   in stop_v (fst r) = [''c1''] \<and>
     snd r = Some (render_live_tool_tail_for_syntax SERVER_MODEL_SYNTAX_GLM [sample_call, sample_result] 1 [] DS4_THINK_NONE)"
proof -
  let ?r = "responses_prepare_live_continuation SERVER_MODEL_SYNTAX_GLM API_RESPONSES [sample_call, sample_result] [] DS4_THINK_NONE (id_list_free, None)"
  have ids: "stop_v (fst ?r) = [''c1'']" by code_simp
  have start: "tail_start is_tool_message [sample_call, sample_result] (length [sample_call, sample_result]) = 1" by code_simp
  have "snd ?r \<noteq> None" by code_simp
  then obtain t where "?r = (fst ?r, Some t)" by (cases ?r) auto
  from responses_continuation_bound [OF this] this ids show ?thesis unfolding start Let_def by (metis snd_conv)
qed

end
