(* ===== verification/Scheduler.thy ===== *)
theory Scheduler
  imports Continuation
begin

text \<open>
  The scheduler of \<^verbatim>\<open>server.c\<close>: client threads enqueue jobs, the dispatcher assigns them to resident slots,
  a worker thread per slot runs them, and a client may cancel its job at any time.  A job is named by
  a number that stands for its address; the parts of its request the scheduler reads are in \<open>jobs\<close>.
  Each critical section of a mutex is one operation; \<open>phase\<close> is where a slot's worker thread is
  between its critical sections, with the local variable that holds its job.
\<close>

section \<open>State\<close>

record live_tool_state =
  lt_valid :: bool
  lt_live_tokens :: int
  lt_visible_text :: "string option"
  lt_call_ids :: stop_list

datatype worker_phase = Waiting | Taken nat | Generating nat | Generated nat | Completed

record server_slot =
  responses_live :: live_tool_state
  anthropic_live :: live_tool_state
  checkpoint :: "int list option"
  assigned :: "nat option"
  busy :: bool
  running :: "nat option"
  phase :: worker_phase
  prefill_waiting :: bool
  decode_pending :: bool
  decode_in_flight :: bool
  decode_done :: bool
  decode_rc :: int

record job =
  job_prompt :: "int list"
  responses_requires_live_tool_state :: bool
  anthropic_requires_live_tool_state :: bool
  responses_live_call_ids :: stop_list
  anthropic_live_call_ids :: stop_list

record server =
  slots :: "server_slot list"
  queue :: "nat list"
  batched_mode :: bool
  stopping :: bool
  jobs :: "nat \<Rightarrow> job"
  job_done :: "nat \<Rightarrow> bool"
  job_cancel :: "nat \<Rightarrow> bool"
  model_busy :: bool
  decodes_pending :: int
  active_generations :: int
  mixed_prefill_quantum :: int
  last_prefill_slot :: int

definition upd_slot :: "nat \<Rightarrow> (server_slot \<Rightarrow> server_slot) \<Rightarrow> server \<Rightarrow> server" where
  "upd_slot i f s = s\<lparr>slots := (slots s)[i := f (slots s ! i)]\<rparr>"

section \<open>Job flags\<close>

definition job_cancelled :: "server \<Rightarrow> nat option \<Rightarrow> bool" where
  "job_cancelled s j = (case j of None \<Rightarrow> False | Some k \<Rightarrow> job_cancel s k)"

definition job_mark_cancelled :: "nat \<Rightarrow> server \<Rightarrow> server" where
  "job_mark_cancelled j s = s\<lparr>job_cancel := (job_cancel s)(j := True)\<rparr>"

definition job_complete :: "nat \<Rightarrow> server \<Rightarrow> server" where
  "job_complete j s = s\<lparr>job_done := (job_done s)(j := True)\<rparr>"

definition slot_job_cancelled :: "server \<Rightarrow> server_slot \<Rightarrow> bool" where
  "slot_job_cancelled s sl \<longleftrightarrow> job_cancelled s (running sl)"

section \<open>Choosing a slot\<close>

definition live_state_contains_all :: "live_tool_state \<Rightarrow> stop_list \<Rightarrow> bool" where
  "live_state_contains_all st ids \<longleftrightarrow> lt_valid st \<and> stop_v ids \<noteq> [] \<and>
     list_all (\<lambda>i. id_list_contains (lt_call_ids st) (Some i)) (stop_v ids)"

definition slot_bound :: "job \<Rightarrow> server_slot \<Rightarrow> bool" where
  "slot_bound r sl \<longleftrightarrow>
     (responses_requires_live_tool_state r \<and> live_state_contains_all (responses_live sl) (responses_live_call_ids r)) \<or>
     (anthropic_requires_live_tool_state r \<and> live_state_contains_all (anthropic_live sl) (anthropic_live_call_ids r))"

fun required_from :: "nat \<Rightarrow> server_slot list \<Rightarrow> job \<Rightarrow> int" where
  "required_from i [] r = -1"
| "required_from i (sl # sls) r = (if slot_bound r sl then int i else required_from (Suc i) sls r)"

definition job_required_slot_locked :: "server_slot list \<Rightarrow> job \<Rightarrow> int" where
  "job_required_slot_locked sls r = required_from 0 sls r"

fun common_len :: "int list \<Rightarrow> int list \<Rightarrow> nat" where
  "common_len (x # xs) (y # ys) = (if x = y then Suc (common_len xs ys) else 0)"
| "common_len xs ys = 0"

definition ds4_session_common_prefix :: "int list option \<Rightarrow> int list \<Rightarrow> int" where
  "ds4_session_common_prefix cp prompt = (case cp of None \<Rightarrow> 0 | Some toks \<Rightarrow> int (common_len toks prompt))"

definition job_slot_score :: "server_slot list \<Rightarrow> nat \<Rightarrow> job \<Rightarrow> int \<Rightarrow> int" where
  "job_slot_score sls i r required =
     (let sl = sls ! i in
      if busy sl \<or> assigned sl \<noteq> None then INT_MIN
      else if required \<ge> 0 \<and> int i \<noteq> required then INT_MIN
      else if required = int i then INT_MAX
      else ds4_session_common_prefix (checkpoint sl) (job_prompt r))"

text \<open>The best slot for a job: the first of the highest score.\<close>

definition best_step :: "server_slot list \<Rightarrow> job \<Rightarrow> int \<Rightarrow> nat option \<times> int \<Rightarrow> nat \<Rightarrow> nat option \<times> int" where
  "best_step sls r required best i = (let score = job_slot_score sls i r required in
     if score > snd best then (Some i, score) else best)"

definition best_slot :: "server_slot list \<Rightarrow> job \<Rightarrow> nat option" where
  "best_slot sls r = fst (foldl (best_step sls r (job_required_slot_locked sls r)) (None, INT_MIN) [0..<length sls])"

text \<open>The first job of the queue that can run now, and its slot.\<close>

fun pick_job :: "server_slot list \<Rightarrow> (nat \<Rightarrow> job) \<Rightarrow> nat list \<Rightarrow> (nat \<times> nat) option" where
  "pick_job sls js [] = None"
| "pick_job sls js (j # q) = (case best_slot sls (js j) of Some i \<Rightarrow> Some (j, i) | None \<Rightarrow> pick_job sls js q)"

lemma pick_job_mem: "pick_job sls js q = Some (j, i) \<Longrightarrow> j \<in> set q \<and> best_slot sls (js j) = Some i"
  by (induction q) (auto split: option.splits)

section \<open>Dispatching\<close>

definition assign :: "nat \<Rightarrow> nat \<Rightarrow> server \<Rightarrow> server" where
  "assign j i s = upd_slot i (\<lambda>sl. sl\<lparr>assigned := Some j, busy := True\<rparr>) (s\<lparr>queue := remove1 j (queue s)\<rparr>)"

function dispatch_loop :: "server \<Rightarrow> server" where
  "dispatch_loop s = (case pick_job (slots s) (jobs s) (queue s) of None \<Rightarrow> s | Some (j, i) \<Rightarrow> dispatch_loop (assign j i s))"
  by pat_completeness auto

lemma queue_assign [simp]: "queue (assign j i s) = remove1 j (queue s)"
  by (simp add: assign_def upd_slot_def)

lemma length_remove1_less: "j \<in> set q \<Longrightarrow> length (remove1 j q) < length q"
  using length_pos_if_in_set [of j q] by (simp add: length_remove1)

termination dispatch_loop
  by (relation "measure (\<lambda>s. length (queue s))") (auto dest!: pick_job_mem intro: length_remove1_less)

declare dispatch_loop.simps [simp del]

definition dispatch_jobs_locked :: "server \<Rightarrow> server" where
  "dispatch_jobs_locked s = (if batched_mode s then dispatch_loop s else s)"

definition enqueue :: "nat \<Rightarrow> server \<Rightarrow> bool \<times> server" where
  "enqueue j s = (if stopping s then (False, s) else (True, dispatch_jobs_locked (s\<lparr>queue := queue s @ [j]\<rparr>)))"

text \<open>\<^verbatim>\<open>dequeue\<close> of the single worker, at a moment it does not have to wait.\<close>

definition dequeue :: "server \<Rightarrow> nat option \<times> server" where
  "dequeue s = (case queue s of [] \<Rightarrow> (None, s) | j # q \<Rightarrow> (Some j, s\<lparr>queue := q\<rparr>))"

section \<open>The slot worker\<close>

definition slot_take :: "nat \<Rightarrow> server \<Rightarrow> server" where
  "slot_take i s = upd_slot i (\<lambda>sl. sl\<lparr>phase := (case assigned sl of None \<Rightarrow> phase sl | Some j \<Rightarrow> Taken j), assigned := None\<rparr>) s"

definition generate_begin :: "nat \<Rightarrow> server \<Rightarrow> server" where
  "generate_begin i s = upd_slot i (\<lambda>sl. case phase sl of Taken j \<Rightarrow> sl\<lparr>running := Some j, phase := Generating j\<rparr> | _ \<Rightarrow> sl) s"

definition generate_end :: "nat \<Rightarrow> server \<Rightarrow> server" where
  "generate_end i s = upd_slot i (\<lambda>sl. case phase sl of
     Generating j \<Rightarrow> (if running sl = Some j then sl\<lparr>running := None\<rparr> else sl)\<lparr>phase := Generated j\<rparr> | _ \<Rightarrow> sl) s"

definition slot_complete :: "nat \<Rightarrow> server \<Rightarrow> server" where
  "slot_complete i s = (case phase (slots s ! i) of
     Generated j \<Rightarrow> job_complete j (upd_slot i (\<lambda>sl. sl\<lparr>phase := Completed\<rparr>) s) | _ \<Rightarrow> s)"

definition slot_finish :: "nat \<Rightarrow> server \<Rightarrow> server" where
  "slot_finish i s = dispatch_jobs_locked (upd_slot i (\<lambda>sl. sl\<lparr>busy := False, phase := Waiting\<rparr>) s)"

section \<open>Cancelling\<close>

definition server_cancel_pending_decode_locked :: "nat \<Rightarrow> server \<Rightarrow> bool \<times> server" where
  "server_cancel_pending_decode_locked i s = (let sl = slots s ! i in
     if \<not> decode_pending sl \<or> decode_in_flight sl then (False, s)
     else (True, upd_slot i (\<lambda>sl. sl\<lparr>decode_pending := False, decode_rc := 2, decode_done := True\<rparr>)
                   (s\<lparr>decodes_pending := decodes_pending s - 1\<rparr>)))"

fun slot_index :: "(server_slot \<Rightarrow> bool) \<Rightarrow> server_slot list \<Rightarrow> nat option" where
  "slot_index P [] = None"
| "slot_index P (sl # sls) = (if P sl then Some 0 else map_option Suc (slot_index P sls))"

text \<open>The part under the queue lock: whether the job was detached.\<close>

definition detach_job :: "nat \<Rightarrow> server \<Rightarrow> bool \<times> server" where
  "detach_job j s =
     (if j \<in> set (queue s) then (True, s\<lparr>queue := remove1 j (queue s)\<rparr>)
      else if batched_mode s then
        (case slot_index (\<lambda>sl. assigned sl = Some j) (slots s) of None \<Rightarrow> (False, s)
         | Some i \<Rightarrow> (True, dispatch_jobs_locked (upd_slot i (\<lambda>sl. sl\<lparr>assigned := None, busy := False\<rparr>) s)))
      else (False, s))"

definition cancel_running :: "nat \<Rightarrow> server \<Rightarrow> server" where
  "cancel_running j s = (case slot_index (\<lambda>sl. running sl = Some j) (slots s) of None \<Rightarrow> s
     | Some i \<Rightarrow> snd (server_cancel_pending_decode_locked i s))"

definition server_cancel_job :: "nat \<Rightarrow> server \<Rightarrow> server" where
  "server_cancel_job j s =
     (case detach_job j (job_mark_cancelled j s) of (detached, s1) \<Rightarrow>
        (let s2 = cancel_running j s1 in if detached then job_complete j s2 else s2))"

end
