(* ===== verification/SchedulerProofs.thy ===== *)
theory SchedulerProofs
  imports Scheduler "HOL-Library.Multiset"
begin

text \<open>
  The scheduler as a state machine, for the batched mode with a worker per slot: a job is in one place
  at a time and nowhere once it is complete, so that its memory may be freed; and every accepted job
  is completed when the workers go on.
\<close>

section \<open>Choosing\<close>

lemma best_loop:
  "foldl (best_step sls r q) (b, sc) is = (b', sc') \<Longrightarrow>
     sc \<le> sc' \<and> (\<forall>i \<in> set is. job_slot_score sls i r q \<le> sc') \<and>
     ((b', sc') = (b, sc) \<or> (\<exists>i \<in> set is. b' = Some i \<and> sc' = job_slot_score sls i r q \<and> sc < sc'))"
proof (induction "is" arbitrary: b sc)
  case (Cons i "is")
  obtain b1 s1 where st: "best_step sls r q (b, sc) i = (b1, s1)" by (cases "best_step sls r q (b, sc) i") auto
  have "sc \<le> s1" "job_slot_score sls i r q \<le> s1" "(b1, s1) = (b, sc) \<or> (b1 = Some i \<and> s1 = job_slot_score sls i r q \<and> sc < s1)"
    using st by (auto simp: best_step_def Let_def split: if_splits)
  then show ?case using Cons st by fastforce
qed simp

lemma best_slot_Some:
  assumes "best_slot sls r = Some i"
  shows "i < length sls" "\<not> busy (sls ! i)" "assigned (sls ! i) = None"
    "0 \<le> job_required_slot_locked sls r \<Longrightarrow> job_required_slot_locked sls r = int i"
proof -
  let ?q = "job_required_slot_locked sls r"
  obtain b sc where f: "foldl (best_step sls r ?q) (None, INT_MIN) [0..<length sls] = (b, sc)" by fastforce
  then have b: "b = Some i" using assms by (simp add: best_slot_def)
  then have i: "i < length sls" "INT_MIN < job_slot_score sls i r ?q" using best_loop [OF f] by auto
  then show "i < length sls" "\<not> busy (sls ! i)" "assigned (sls ! i) = None" "0 \<le> ?q \<Longrightarrow> ?q = int i"
    by (auto simp: job_slot_score_def Let_def split: if_splits)
qed

lemma best_slot_None: "best_slot sls r = None \<Longrightarrow> i < length sls \<Longrightarrow> job_slot_score sls i r (job_required_slot_locked sls r) \<le> INT_MIN"
proof -
  assume n: "best_slot sls r = None" and i: "i < length sls"
  obtain b sc where f: "foldl (best_step sls r (job_required_slot_locked sls r)) (None, INT_MIN) [0..<length sls] = (b, sc)" by fastforce
  then have "b = None" using n by (simp add: best_slot_def)
  then show ?thesis using best_loop [OF f] i by auto
qed

lemma required_from_range: "required_from k sls r = -1 \<or> (int k \<le> required_from k sls r \<and> required_from k sls r < int (k + length sls))"
  by (induction sls arbitrary: k) force+

lemma idle_slots_serve:
  assumes "sls \<noteq> []" "\<forall>sl \<in> set sls. \<not> busy sl \<and> assigned sl = None"
  shows "best_slot sls r \<noteq> None"
proof
  assume n: "best_slot sls r = None"
  let ?q = "job_required_slot_locked sls r"
  define i where "i = (if 0 \<le> ?q then nat ?q else 0)"
  have i: "i < length sls" "0 \<le> ?q \<longrightarrow> ?q = int i"
    using required_from_range [of 0 sls r] assms(1) by (auto simp: i_def job_required_slot_locked_def)
  have "\<not> busy (sls ! i)" "assigned (sls ! i) = None" using assms(2) i(1) by auto
  moreover have "0 \<le> ds4_session_common_prefix cp p" for cp p by (simp add: ds4_session_common_prefix_def split: option.splits)
  ultimately have "INT_MIN < job_slot_score sls i r ?q"
    using i(2) by (auto simp: job_slot_score_def Let_def intro: less_le_trans [of _ 0])
  then show False using best_slot_None [OF n i(1)] by simp
qed

lemma pick_job_None: "pick_job sls js q = None \<Longrightarrow> j \<in> set q \<Longrightarrow> best_slot sls (js j) = None"
  by (induction q) (auto split: option.splits)

section \<open>Where a job is\<close>

fun phase_jobs :: "worker_phase \<Rightarrow> nat list" where
  "phase_jobs (Taken j) = [j]"
| "phase_jobs (Generating j) = [j]"
| "phase_jobs (Generated j) = [j]"
| "phase_jobs _ = []"

definition slot_jobs :: "server_slot \<Rightarrow> nat list" where
  "slot_jobs sl = (case assigned sl of None \<Rightarrow> [] | Some j \<Rightarrow> [j]) @ phase_jobs (phase sl)"

definition located :: "server \<Rightarrow> nat list" where
  "located s = queue s @ concat (map slot_jobs (slots s))"

definition slot_ok :: "server_slot \<Rightarrow> bool" where
  "slot_ok sl \<longleftrightarrow> (busy sl \<longleftrightarrow> assigned sl \<noteq> None \<or> phase sl \<noteq> Waiting) \<and> (assigned sl \<noteq> None \<longrightarrow> phase sl = Waiting) \<and>
     running sl = (case phase sl of Generating j \<Rightarrow> Some j | _ \<Rightarrow> None)"

text \<open>The part of the invariant the dispatcher keeps, and the whole of it.\<close>

definition sched_core :: "server \<Rightarrow> bool" where
  "sched_core s \<longleftrightarrow> batched_mode s \<and> slots s \<noteq> [] \<and> distinct (located s) \<and> (\<forall>j \<in> set (located s). \<not> job_done s j) \<and>
     list_all slot_ok (slots s)"

definition sched_inv :: "server \<Rightarrow> bool" where
  "sched_inv s \<longleftrightarrow> sched_core s \<and> (queue s \<noteq> [] \<longrightarrow> (\<exists>sl \<in> set (slots s). busy sl))"

lemma mset_slots_update:
  "i < length sls \<Longrightarrow> mset (concat (map f (sls[i := y]))) + mset (f (sls ! i)) = mset (concat (map f sls)) + mset (f y)"
proof (induction sls arbitrary: i)
  case (Cons x sls)
  then show ?case by (cases i) (auto simp: ac_simps)
qed simp

lemma upd_slot_simps [simp]:
  "queue (upd_slot i f s) = queue s" "batched_mode (upd_slot i f s) = batched_mode s" "job_done (upd_slot i f s) = job_done s"
  "slots (upd_slot i f s) = (slots s)[i := f (slots s ! i)]" "jobs (upd_slot i f s) = jobs s" "stopping (upd_slot i f s) = stopping s"
  by (simp_all add: upd_slot_def)

lemma located_upd_slot:
  assumes "i < length (slots s)"
  shows "mset (located (upd_slot i f s)) + mset (slot_jobs (slots s ! i)) = mset (located s) + mset (slot_jobs (f (slots s ! i)))"
  using mset_slots_update [OF assms, of slot_jobs "f (slots s ! i)"] by (simp add: located_def ac_simps)

lemma distinct_submset:
  assumes "mset xs \<subseteq># mset ys" "distinct ys" shows "distinct xs" "set xs \<subseteq> set ys"
proof -
  show "set xs \<subseteq> set ys" using set_mset_mono [OF assms(1)] by simp
  have "count (mset xs) a = (if a \<in> set xs then 1 else 0)" for a
  proof -
    have le: "count (mset xs) a \<le> count (mset ys) a" by (rule mset_subset_eq_count [OF assms(1)])
    have one: "count (mset ys) a \<le> 1" using assms(2) by (simp add: distinct_count_atmost_1)
    show ?thesis
    proof (cases "a \<in> set xs")
      case True
      then have "0 < count (mset xs) a" by (simp add: count_greater_zero_iff)
      then show ?thesis unfolding if_P [OF True] using le one by linarith
    qed (simp add: count_eq_zero_iff)
  qed
  then show "distinct xs" by (simp add: distinct_count_atmost_1)
qed

text \<open>A change of one slot that names no new job keeps the core.\<close>

lemma core_upd_slot:
  assumes "sched_core s" "i < length (slots s)" "slot_ok (f (slots s ! i))" "mset (slot_jobs (f (slots s ! i))) \<subseteq># mset (slot_jobs (slots s ! i))"
  shows "sched_core (upd_slot i f s)"
proof -
  have "mset (located (upd_slot i f s)) + mset (slot_jobs (slots s ! i)) \<subseteq># mset (located s) + mset (slot_jobs (slots s ! i))"
    unfolding located_upd_slot [OF assms(2)] using assms(4) by (rule subset_mset.add_left_mono)
  then have "mset (located (upd_slot i f s)) \<subseteq># mset (located s)" by simp
  note sub = distinct_submset [OF this]
  show ?thesis using sub assms by (auto simp: sched_core_def list_all_length nth_list_update)
qed

lemma located_assign:
  assumes "sched_core s" "best_slot (slots s) r = Some i" "j \<in> set (queue s)"
  shows "mset (located (assign j i s)) = mset (located s)" "slot_ok ((slots s ! i)\<lparr>assigned := Some j, busy := True\<rparr>)"
proof -
  note i = best_slot_Some [OF assms(2)]
  let ?sl = "slots s ! i"
  have ok: "slot_ok ?sl" using assms(1) i(1) by (simp add: sched_core_def list_all_length)
  then have idle: "phase ?sl = Waiting" using i(2,3) by (auto simp: slot_ok_def)
  have "mset (slot_jobs (?sl\<lparr>assigned := Some j, busy := True\<rparr>)) = {#j#}" "slot_jobs ?sl = []"
    using i(3) idle by (simp_all add: slot_jobs_def)
  then have "mset (concat (map slot_jobs ((slots s)[i := ?sl\<lparr>assigned := Some j, busy := True\<rparr>]))) = mset (concat (map slot_jobs (slots s))) + {#j#}"
    using mset_slots_update [OF i(1), of slot_jobs "?sl\<lparr>assigned := Some j, busy := True\<rparr>"] by simp
  then show "mset (located (assign j i s)) = mset (located s)"
    using assms(3) by (simp add: located_def assign_def upd_slot_def)
  show "slot_ok (?sl\<lparr>assigned := Some j, busy := True\<rparr>)" using ok idle by (simp add: slot_ok_def)
qed

lemma core_assign:
  assumes "sched_core s" "best_slot (slots s) r = Some i" "j \<in> set (queue s)"
  shows "sched_core (assign j i s)"
proof -
  note m = located_assign [OF assms]
  show ?thesis using assms(1) m(2) mset_eq_setD [OF m(1)] mset_eq_imp_distinct_iff [OF m(1)] best_slot_Some(1) [OF assms(2)]
    by (auto simp: sched_core_def assign_def upd_slot_def list_all_length nth_list_update)
qed

lemma dispatch_core: "sched_core s \<Longrightarrow> sched_inv (dispatch_loop s)"
proof (induction s rule: dispatch_loop.induct)
  case (1 s)
  show ?case
  proof (cases "pick_job (slots s) (jobs s) (queue s)")
    case None
    have "\<exists>sl \<in> set (slots s). busy sl" if "queue s \<noteq> []"
    proof (rule ccontr)
      assume n: "\<not> (\<exists>sl \<in> set (slots s). busy sl)"
      then have "\<forall>sl \<in> set (slots s). \<not> busy sl \<and> assigned sl = None"
        using 1(2) by (auto simp: sched_core_def list_all_iff slot_ok_def)
      then have "best_slot (slots s) (jobs s (hd (queue s))) \<noteq> None"
        using 1(2) by (intro idle_slots_serve) (auto simp: sched_core_def)
      then show False using pick_job_None [OF None] that by (metis list.set_sel(1))
    qed
    then show ?thesis using 1(2) None by (simp add: dispatch_loop.simps [of s] sched_inv_def)
  next
    case (Some x)
    obtain j i where x: "x = (j, i)" by (cases x)
    note p = pick_job_mem [OF Some [unfolded x]]
    have "sched_core (assign j i s)" using core_assign [OF 1(2)] p by blast
    then show ?thesis using 1(1) [OF Some x [symmetric]] Some x by (simp add: dispatch_loop.simps [of s])
  qed
qed

lemma located_dispatch: "sched_core s \<Longrightarrow> mset (located (dispatch_loop s)) = mset (located s)"
proof (induction s rule: dispatch_loop.induct)
  case (1 s)
  show ?case
  proof (cases "pick_job (slots s) (jobs s) (queue s)")
    case (Some x)
    obtain j i where x: "x = (j, i)" by (cases x)
    note p = pick_job_mem [OF Some [unfolded x]]
    then have "sched_core (assign j i s)" "mset (located (assign j i s)) = mset (located s)"
      using core_assign [OF 1(2)] located_assign(1) [OF 1(2)] by blast+
    then show ?thesis using 1(1) [OF Some x [symmetric]] Some x by (simp add: dispatch_loop.simps [of s])
  qed (simp add: dispatch_loop.simps [of s])
qed

lemma set_located_dispatch: "sched_core s \<Longrightarrow> set (located (dispatch_jobs_locked s)) = set (located s)"
  using mset_eq_setD [OF located_dispatch] by (simp add: dispatch_jobs_locked_def)

lemma dispatch_inv: "sched_core s \<Longrightarrow> sched_inv (dispatch_jobs_locked s)"
  using dispatch_core by (simp add: dispatch_jobs_locked_def sched_core_def)

section \<open>The machine\<close>

text \<open>The state of a job that a client has just built.\<close>

definition new_job :: "nat \<Rightarrow> job \<Rightarrow> server \<Rightarrow> server" where
  "new_job j r s = s\<lparr>jobs := (jobs s)(j := r), job_done := (job_done s)(j := False), job_cancel := (job_cancel s)(j := False)\<rparr>"

text \<open>What generation may change of its slot: everything but the scheduler's own fields.\<close>

definition same_place :: "server_slot \<Rightarrow> server_slot \<Rightarrow> bool" where
  "same_place a b \<longleftrightarrow> assigned a = assigned b \<and> busy a = busy b \<and> running a = running b \<and> phase a = phase b"

inductive worker_step :: "server \<Rightarrow> server \<Rightarrow> bool" where
  Take: "i < length (slots s) \<Longrightarrow> assigned (slots s ! i) = Some j \<Longrightarrow> worker_step s (slot_take i s)"
| Begin: "i < length (slots s) \<Longrightarrow> phase (slots s ! i) = Taken j \<Longrightarrow> worker_step s (generate_begin i s)"
| End: "i < length (slots s) \<Longrightarrow> phase (slots s ! i) = Generating j \<Longrightarrow> worker_step s (generate_end i s)"
| Complete: "i < length (slots s) \<Longrightarrow> phase (slots s ! i) = Generated j \<Longrightarrow> worker_step s (slot_complete i s)"
| Finish: "i < length (slots s) \<Longrightarrow> phase (slots s ! i) = Completed \<Longrightarrow> worker_step s (slot_finish i s)"

text \<open>
  A cancellation takes its locks one after the other, so beside the whole of it each of its critical
  sections is a step of its own, which other threads may come between: the mark, the detachment, the
  withdrawal of a pending token and the report of a job that is detached.
\<close>

inductive sched_step :: "server \<Rightarrow> server \<Rightarrow> bool" where
  Work: "worker_step s t \<Longrightarrow> sched_step s t"
| Enqueue: "j \<notin> set (located s) \<Longrightarrow> sched_step s (snd (enqueue j (new_job j r s)))"
| Cancel: "sched_step s (server_cancel_job j s)"
| Mark: "sched_step s (job_mark_cancelled j s)"
| Detach: "sched_step s (snd (detach_job j s))"
| Withdraw: "sched_step s (cancel_running j s)"
| Report: "j \<notin> set (located s) \<Longrightarrow> sched_step s (job_complete j s)"
| Generate: "i < length (slots s) \<Longrightarrow> same_place sl (slots s ! i) \<Longrightarrow> sched_step s (upd_slot i (\<lambda>_. sl) s)"
| Stop: "sched_step s (s\<lparr>stopping := True\<rparr>)"

inductive_cases worker_stepE: "worker_step s t"

definition init_slot :: server_slot where
  "init_slot = \<lparr>responses_live = \<lparr>lt_valid = False, lt_live_tokens = 0, lt_visible_text = None, lt_call_ids = id_list_free\<rparr>,
     anthropic_live = \<lparr>lt_valid = False, lt_live_tokens = 0, lt_visible_text = None, lt_call_ids = id_list_free\<rparr>,
     checkpoint = None, assigned = None, busy = False, running = None, phase = Waiting, prefill_waiting = False,
     decode_pending = False, decode_in_flight = False, decode_done = False, decode_rc = 0\<rparr>"

definition init_server :: "nat \<Rightarrow> server" where
  "init_server n = \<lparr>slots = replicate n init_slot, queue = [], batched_mode = True, stopping = False,
     jobs = (\<lambda>_. \<lparr>job_prompt = [], responses_requires_live_tool_state = False, anthropic_requires_live_tool_state = False,
        responses_live_call_ids = id_list_free, anthropic_live_call_ids = id_list_free\<rparr>),
     job_done = (\<lambda>_. False), job_cancel = (\<lambda>_. False), model_busy = False, decodes_pending = 0, active_generations = 0,
     mixed_prefill_quantum = 128, last_prefill_slot = int n - 1\<rparr>"

definition reachable :: "server \<Rightarrow> bool" where
  "reachable s \<longleftrightarrow> (\<exists>n > 0. sched_step\<^sup>*\<^sup>* (init_server n) s)"

section \<open>The invariant\<close>

lemma init_inv: "0 < n \<Longrightarrow> sched_inv (init_server n)"
  by (simp add: sched_inv_def sched_core_def init_server_def init_slot_def located_def slot_jobs_def slot_ok_def list_all_iff)

lemma slot_ok_nth: "sched_core s \<Longrightarrow> i < length (slots s) \<Longrightarrow> slot_ok (slots s ! i)"
  by (simp add: sched_core_def list_all_length)

lemma inv_upd_slot:
  assumes "sched_inv s" "i < length (slots s)" "slot_ok (f (slots s ! i))"
    "mset (slot_jobs (f (slots s ! i))) \<subseteq># mset (slot_jobs (slots s ! i))" "busy (f (slots s ! i)) = busy (slots s ! i)"
  shows "sched_inv (upd_slot i f s)"
proof -
  have "\<exists>sl \<in> set (slots (upd_slot i f s)). busy sl" if "\<exists>sl \<in> set (slots s). busy sl"
    using that assms(2,5) by (auto simp: in_set_conv_nth Bex_def nth_list_update)
  then show ?thesis using assms core_upd_slot [of s i f] by (auto simp: sched_inv_def)
qed

lemma core_job_complete:
  assumes "sched_core s" "j \<notin> set (located s)" shows "sched_core (job_complete j s)"
  using assms by (auto simp: sched_core_def job_complete_def located_def)

lemma inv_worker: "worker_step s t \<Longrightarrow> sched_inv s \<Longrightarrow> sched_inv t"
proof (induction rule: worker_step.induct)
  case (Take i s j)
  then show ?case unfolding slot_take_def using slot_ok_nth [of s i]
    by (intro inv_upd_slot) (auto simp: sched_inv_def slot_ok_def slot_jobs_def)
next
  case (Begin i s j)
  then show ?case unfolding generate_begin_def using slot_ok_nth [of s i]
    by (intro inv_upd_slot) (auto simp: sched_inv_def slot_ok_def slot_jobs_def)
next
  case (End i s j)
  then show ?case unfolding generate_end_def using slot_ok_nth [of s i]
    by (intro inv_upd_slot) (auto simp: sched_inv_def slot_ok_def slot_jobs_def)
next
  case (Complete i s j)
  let ?t = "upd_slot i (\<lambda>sl. sl\<lparr>phase := Completed\<rparr>) s"
  have inv: "sched_inv ?t" using Complete slot_ok_nth [of s i]
    by (intro inv_upd_slot) (auto simp: sched_inv_def slot_ok_def slot_jobs_def)
  have a: "assigned (slots s ! i) = None" using Complete slot_ok_nth [of s i] by (auto simp: sched_inv_def slot_ok_def)
  have "mset (located ?t) + {#j#} = mset (located s)"
    using located_upd_slot [OF Complete(1), of "\<lambda>sl. sl\<lparr>phase := Completed\<rparr>"] Complete(2) a by (simp add: slot_jobs_def)
  moreover have "distinct (located s)" using Complete(3) by (simp add: sched_inv_def sched_core_def)
  ultimately have "j \<notin> set (located ?t)"
    by (metis distinct.simps(2) mset.simps(2) mset_eq_imp_distinct_iff add_mset_add_single)
  then have "sched_core (job_complete j ?t)" using inv core_job_complete by (simp add: sched_inv_def)
  then have "sched_inv (job_complete j ?t)" using inv by (simp add: sched_inv_def job_complete_def)
  then show ?case using Complete(2) by (simp add: slot_complete_def)
next
  case (Finish i s)
  then have "assigned (slots s ! i) = None" "slot_ok (slots s ! i)" using slot_ok_nth [of s i] by (auto simp: sched_inv_def slot_ok_def)
  then have "sched_core (upd_slot i (\<lambda>sl. sl\<lparr>busy := False, phase := Waiting\<rparr>) s)"
    using Finish by (intro core_upd_slot) (auto simp: sched_inv_def slot_ok_def slot_jobs_def)
  then show ?case unfolding slot_finish_def by (rule dispatch_inv)
qed

lemma inv_same_place:
  assumes "sched_inv s" "i < length (slots s)" "same_place (f (slots s ! i)) (slots s ! i)"
  shows "sched_inv (upd_slot i f s)" "mset (located (upd_slot i f s)) = mset (located s)"
proof -
  have j: "slot_jobs (f (slots s ! i)) = slot_jobs (slots s ! i)" "slot_ok (f (slots s ! i)) = slot_ok (slots s ! i)"
    using assms(3) by (simp_all add: same_place_def slot_jobs_def slot_ok_def)
  then show "sched_inv (upd_slot i f s)"
    using assms slot_ok_nth [of s i] by (intro inv_upd_slot) (auto simp: sched_inv_def same_place_def)
  show "mset (located (upd_slot i f s)) = mset (located s)" using located_upd_slot [OF assms(2), of f] j(1) by simp
qed

lemma inv_other_fields [simp]:
  "located (s\<lparr>decodes_pending := d\<rparr>) = located s" "sched_inv (s\<lparr>decodes_pending := d\<rparr>) = sched_inv s"
  "located (s\<lparr>stopping := b\<rparr>) = located s" "sched_inv (s\<lparr>stopping := b\<rparr>) = sched_inv s"
  "located (job_mark_cancelled j s) = located s" "sched_inv (job_mark_cancelled j s) = sched_inv s"
  "located (new_job j r s) = located s"
  by (simp_all add: located_def sched_inv_def sched_core_def job_mark_cancelled_def new_job_def)

lemma slot_index_Some: "slot_index P sls = Some i \<Longrightarrow> i < length sls \<and> P (sls ! i)"
  by (induction sls arbitrary: i) (auto split: if_splits)

lemma slot_index_None: "slot_index P sls = None \<longleftrightarrow> (\<forall>sl \<in> set sls. \<not> P sl)"
  by (induction sls) auto

lemma cancel_running_inv:
  assumes "sched_inv s"
  shows "sched_inv (cancel_running j s)" "mset (located (cancel_running j s)) = mset (located s)"
proof -
  have "sched_inv (cancel_running j s) \<and> mset (located (cancel_running j s)) = mset (located s)"
  proof (cases "slot_index (\<lambda>sl. running sl = Some j) (slots s)")
    case (Some i)
    note i = slot_index_Some [OF Some]
    let ?f = "\<lambda>sl. sl\<lparr>decode_pending := False, decode_rc := 2, decode_done := True\<rparr>"
    let ?s = "s\<lparr>decodes_pending := decodes_pending s - 1\<rparr>"
    have "sched_inv ?s" "i < length (slots ?s)" "same_place (?f (slots ?s ! i)) (slots ?s ! i)"
      using assms i by (simp_all add: same_place_def)
    from inv_same_place [where f = ?f, OF this] Some assms show ?thesis
      by (simp add: cancel_running_def server_cancel_pending_decode_locked_def Let_def)
  qed (simp add: cancel_running_def assms)
  then show "sched_inv (cancel_running j s)" "mset (located (cancel_running j s)) = mset (located s)" by simp_all
qed

lemma detach_inv:
  assumes "sched_inv s" "detach_job j s = (d, t)"
  shows "sched_inv t" "d \<Longrightarrow> j \<notin> set (located t)"
proof -
  have core: "sched_core s" "distinct (located s)" using assms(1) by (simp_all add: sched_inv_def sched_core_def)
  consider (q) "j \<in> set (queue s)" | (a) i where "j \<notin> set (queue s)" "slot_index (\<lambda>sl. assigned sl = Some j) (slots s) = Some i"
    | (n) "j \<notin> set (queue s)" "slot_index (\<lambda>sl. assigned sl = Some j) (slots s) = None" by fastforce
  then have "sched_inv t \<and> (d \<longrightarrow> j \<notin> set (located t))"
  proof cases
    case q
    then have t: "t = s\<lparr>queue := remove1 j (queue s)\<rparr>" "d" using assms(2) by (auto simp: detach_job_def)
    have "set (remove1 j (queue s)) \<subseteq> set (queue s)" by (rule set_remove1_subset)
    then show ?thesis using t q assms(1) core(2)
      by (auto simp: sched_inv_def sched_core_def located_def distinct_remove1)
  next
    case (a i)
    note i = slot_index_Some [OF a(2)]
    let ?t = "upd_slot i (\<lambda>sl. sl\<lparr>assigned := None, busy := False\<rparr>) s"
    have ok: "slot_ok (slots s ! i)" using slot_ok_nth core i by blast
    then have "sched_core ?t" using core(1) i by (intro core_upd_slot) (auto simp: slot_ok_def slot_jobs_def)
    moreover have "mset (located ?t) + {#j#} = mset (located s)"
      using located_upd_slot [of i s "\<lambda>sl. sl\<lparr>assigned := None, busy := False\<rparr>"] i ok by (simp add: slot_jobs_def slot_ok_def)
    then have "j \<notin> set (located ?t)" using core(2)
      by (metis distinct.simps(2) mset.simps(2) mset_eq_imp_distinct_iff add_mset_add_single)
    moreover have "t = dispatch_jobs_locked ?t" using a assms by (simp add: detach_job_def sched_inv_def sched_core_def)
    ultimately show ?thesis using dispatch_inv set_located_dispatch by simp
  next
    case n
    then show ?thesis using assms by (auto simp: detach_job_def split: if_splits)
  qed
  then show "sched_inv t" "d \<Longrightarrow> j \<notin> set (located t)" by simp_all
qed

lemma inv_detach: "sched_inv s \<Longrightarrow> sched_inv (snd (detach_job j s))"
  using detach_inv(1) [of s j] by (cases "detach_job j s") auto

lemma inv_job_complete: "sched_inv s \<Longrightarrow> j \<notin> set (located s) \<Longrightarrow> sched_inv (job_complete j s)"
  using core_job_complete by (simp add: sched_inv_def job_complete_def)

lemma inv_cancel: "sched_inv s \<Longrightarrow> sched_inv (server_cancel_job j s)"
proof -
  assume inv: "sched_inv s"
  obtain d t where t: "detach_job j (job_mark_cancelled j s) = (d, t)" by fastforce
  note a = detach_inv [OF _ t] cancel_running_inv [of t j]
  then show ?thesis using inv t mset_eq_setD [OF a(4)]
    by (auto simp: server_cancel_job_def Let_def intro: inv_job_complete)
qed

lemma inv_enqueue:
  assumes "sched_inv s" "j \<notin> set (located s)" shows "sched_inv (snd (enqueue j (new_job j r s)))"
proof (cases "stopping s")
  case True
  then show ?thesis using assms by (auto simp: enqueue_def new_job_def sched_inv_def sched_core_def located_def)
next
  case False
  have "sched_core ((new_job j r s)\<lparr>queue := queue s @ [j]\<rparr>)"
    using assms by (auto simp: new_job_def sched_inv_def sched_core_def located_def)
  then show ?thesis using dispatch_inv False by (simp add: enqueue_def new_job_def)
qed

lemma inv_step: "sched_step s t \<Longrightarrow> sched_inv s \<Longrightarrow> sched_inv t"
  by (induction rule: sched_step.induct)
    (auto simp: inv_worker inv_enqueue inv_cancel cancel_running_inv inv_detach inv_job_complete intro!: inv_same_place(1))

lemma reachable_inv: "reachable s \<Longrightarrow> sched_inv s"
proof -
  have "sched_step\<^sup>*\<^sup>* s t \<Longrightarrow> sched_inv s \<Longrightarrow> sched_inv t" for s t by (induction rule: rtranclp_induct) (auto intro: inv_step)
  then show "reachable s \<Longrightarrow> sched_inv s" using init_inv by (auto simp: reachable_def)
qed

text \<open>
  C18.  A job is in one place at a time, and in none once it is complete: in every reachable state the jobs of
  the queue, the slots and the workers are pairwise different, and none of them is marked done.  The
  client, which frees its job when it sees it done, so never frees one that the server still refers
  to; and a slot is busy exactly while it has or runs a job.
\<close>

theorem job_placement_safe:
  assumes "reachable s"
  shows "distinct (located s) \<and> list_all (\<lambda>j. \<not> job_done s j) (located s) \<and>
    list_all (\<lambda>sl. busy sl = (assigned sl \<noteq> None \<or> phase sl \<noteq> Waiting)) (slots s)"
  using reachable_inv [OF assms] by (auto simp: sched_inv_def sched_core_def list_all_iff slot_ok_def)

lemma reachable_one: "sched_step (init_server 1) s \<Longrightarrow> reachable s"
  unfolding reachable_def by (intro exI [of _ 1]) auto

definition sample_job :: job where
  "sample_job = \<lparr>job_prompt = [1, 2], responses_requires_live_tool_state = False, anthropic_requires_live_tool_state = False,
     responses_live_call_ids = id_list_free, anthropic_live_call_ids = id_list_free\<rparr>"

theorem job_placement_safe_witness:
  "let s = snd (enqueue 7 (new_job 7 sample_job (init_server 1)))
   in distinct (located s) \<and> located s = [7] \<and> list_all (\<lambda>j. \<not> job_done s j) (located s)"
proof -
  let ?s = "snd (enqueue 7 (new_job 7 sample_job (init_server 1)))"
  have l: "located ?s = [7]" by code_simp
  have "reachable ?s" by (rule reachable_one, rule sched_step.Enqueue) code_simp
  from job_placement_safe [OF this] l show ?thesis unfolding Let_def by blast
qed

section \<open>Progress\<close>

fun phase_weight :: "worker_phase \<Rightarrow> nat" where
  "phase_weight Waiting = 0"
| "phase_weight (Taken j) = 4"
| "phase_weight (Generating j) = 3"
| "phase_weight (Generated j) = 2"
| "phase_weight Completed = 1"

definition slot_weight :: "server_slot \<Rightarrow> nat" where
  "slot_weight sl = (if assigned sl = None then 0 else 5) + phase_weight (phase sl)"

definition work_left :: "server \<Rightarrow> nat" where
  "work_left s = 6 * length (queue s) + sum_list (map slot_weight (slots s))"

lemma sum_list_weight_update:
  "i < length sls \<Longrightarrow> sum_list (map slot_weight (sls[i := y])) + slot_weight (sls ! i) = sum_list (map slot_weight sls) + slot_weight y"
proof (induction sls arbitrary: i)
  case (Cons x sls)
  then show ?case by (cases i) auto
qed simp

lemma work_upd_slot:
  "i < length (slots s) \<Longrightarrow> slot_weight (f (slots s ! i)) < slot_weight (slots s ! i) \<Longrightarrow> work_left (upd_slot i f s) < work_left s"
  using sum_list_weight_update [of i "slots s" "f (slots s ! i)"] by (simp add: work_left_def)

lemma work_assign:
  assumes "sched_core s" "best_slot (slots s) r = Some i" "j \<in> set (queue s)"
  shows "work_left (assign j i s) < work_left s"
proof -
  note i = best_slot_Some [OF assms(2)]
  have "phase (slots s ! i) = Waiting" using slot_ok_nth [OF assms(1) i(1)] i by (auto simp: slot_ok_def)
  then show ?thesis
    using sum_list_weight_update [OF i(1), of "(slots s ! i)\<lparr>assigned := Some j, busy := True\<rparr>"] i(3) length_remove1_less [OF assms(3)]
    by (simp add: work_left_def assign_def slot_weight_def)
qed

lemma work_dispatch: "sched_core s \<Longrightarrow> work_left (dispatch_loop s) \<le> work_left s"
proof (induction s rule: dispatch_loop.induct)
  case (1 s)
  show ?case
  proof (cases "pick_job (slots s) (jobs s) (queue s)")
    case (Some x)
    obtain j i where x: "x = (j, i)" by (cases x)
    note p = pick_job_mem [OF Some [unfolded x]]
    then have "sched_core (assign j i s)" "work_left (assign j i s) < work_left s"
      using core_assign [OF 1(2)] work_assign [OF 1(2)] by blast+
    then show ?thesis using 1(1) [OF Some x [symmetric]] Some x by (simp add: dispatch_loop.simps [of s])
  qed (simp add: dispatch_loop.simps [of s])
qed

lemma worker_work_less: "worker_step s t \<Longrightarrow> sched_inv s \<Longrightarrow> work_left t < work_left s"
proof (induction rule: worker_step.induct)
  case (Take i s j)
  then have "phase (slots s ! i) = Waiting" using slot_ok_nth [of s i] by (auto simp: sched_inv_def slot_ok_def)
  with Take show ?case unfolding slot_take_def by (intro work_upd_slot) (auto simp: slot_weight_def)
next
  case (Begin i s j)
  then show ?case unfolding generate_begin_def by (intro work_upd_slot) (auto simp: slot_weight_def)
next
  case (End i s j)
  then show ?case unfolding generate_end_def by (intro work_upd_slot) (auto simp: slot_weight_def)
next
  case (Complete i s j)
  then have "work_left (upd_slot i (\<lambda>sl. sl\<lparr>phase := Completed\<rparr>) s) < work_left s"
    by (intro work_upd_slot) (auto simp: slot_weight_def)
  with Complete show ?case by (simp add: slot_complete_def job_complete_def work_left_def)
next
  case (Finish i s)
  let ?t = "upd_slot i (\<lambda>sl. sl\<lparr>busy := False, phase := Waiting\<rparr>) s"
  have "slot_ok (slots s ! i)" using Finish slot_ok_nth [of s i] by (simp add: sched_inv_def)
  then have "sched_core ?t" using Finish by (intro core_upd_slot) (auto simp: sched_inv_def slot_ok_def slot_jobs_def)
  moreover have "work_left ?t < work_left s" using Finish by (intro work_upd_slot) (auto simp: slot_weight_def)
  ultimately show ?case using work_dispatch [of ?t] by (auto simp: slot_finish_def dispatch_jobs_locked_def)
qed

lemma worker_enabled:
  assumes "sched_inv s" "located s \<noteq> []" shows "\<exists>t. worker_step s t"
proof -
  have "\<exists>sl \<in> set (slots s). assigned sl \<noteq> None \<or> phase sl \<noteq> Waiting"
  proof (cases "queue s = []")
    case True
    then obtain sl where "sl \<in> set (slots s)" "slot_jobs sl \<noteq> []" using assms(2) by (auto simp: located_def)
    then have "assigned sl \<noteq> None \<or> phase sl \<noteq> Waiting" by (cases "phase sl") (auto simp: slot_jobs_def split: option.splits)
    then show ?thesis using \<open>sl \<in> set (slots s)\<close> by blast
  next
    case False
    then show ?thesis using assms(1) by (auto simp: sched_inv_def sched_core_def list_all_iff slot_ok_def)
  qed
  then obtain i where i: "i < length (slots s)" "assigned (slots s ! i) \<noteq> None \<or> phase (slots s ! i) \<noteq> Waiting"
    by (metis in_set_conv_nth)
  then show ?thesis by (cases "phase (slots s ! i)") (blast intro: worker_step.intros)+
qed

lemma job_done_dispatch [simp]: "job_done (dispatch_jobs_locked s) = job_done s"
proof -
  have "job_done (dispatch_loop s) = job_done s"
    by (induction s rule: dispatch_loop.induct)
      (auto simp: dispatch_loop.simps assign_def split: option.splits)
  then show ?thesis by (simp add: dispatch_jobs_locked_def)
qed

lemma located_upd_same:
  "i < length (slots s) \<Longrightarrow> mset (slot_jobs (f (slots s ! i))) = mset (slot_jobs (slots s ! i)) \<Longrightarrow> set (located (upd_slot i f s)) = set (located s)"
  using located_upd_slot [of i s f] by (intro mset_eq_setD) simp

text \<open>A worker step completes a job or leaves it where it is known.\<close>

lemma worker_keeps_jobs:
  assumes "worker_step s t" "sched_inv s"
  shows "j \<in> set (located s) \<Longrightarrow> j \<in> set (located t) \<or> job_done t j" "job_done s j \<Longrightarrow> job_done t j"
proof -
  have "(j \<in> set (located s) \<longrightarrow> j \<in> set (located t) \<or> job_done t j) \<and> (job_done s j \<longrightarrow> job_done t j)"
    using assms
  proof (induction rule: worker_step.induct)
    case (Take i s k)
    then have "phase (slots s ! i) = Waiting" using slot_ok_nth [of s i] by (auto simp: sched_inv_def slot_ok_def)
    with Take have "set (located (slot_take i s)) = set (located s)"
      unfolding slot_take_def by (intro located_upd_same) (auto simp: slot_jobs_def)
    then show ?case by (simp add: slot_take_def)
  next
    case (Begin i s k)
    then have "set (located (generate_begin i s)) = set (located s)"
      unfolding generate_begin_def by (intro located_upd_same) (auto simp: slot_jobs_def)
    then show ?case by (simp add: generate_begin_def)
  next
    case (End i s k)
    then have "set (located (generate_end i s)) = set (located s)"
      unfolding generate_end_def by (intro located_upd_same) (auto simp: slot_jobs_def)
    then show ?case by (simp add: generate_end_def)
  next
    case (Complete i s k)
    let ?t = "upd_slot i (\<lambda>sl. sl\<lparr>phase := Completed\<rparr>) s"
    have "mset (located ?t) + {#k#} = mset (located s)"
      using located_upd_slot [OF Complete(1), of "\<lambda>sl. sl\<lparr>phase := Completed\<rparr>"] Complete(2) slot_ok_nth [of s i] Complete(1,3)
      by (auto simp: slot_jobs_def sched_inv_def slot_ok_def)
    then have "set (located s) = insert k (set (located ?t))" by (metis mset_eq_setD mset.simps(2) add_mset_add_single list.set(2))
    then show ?case using Complete(2) by (auto simp: slot_complete_def job_complete_def located_def)
  next
    case (Finish i s)
    let ?t = "upd_slot i (\<lambda>sl. sl\<lparr>busy := False, phase := Waiting\<rparr>) s"
    have "slot_ok (slots s ! i)" using Finish slot_ok_nth [of s i] by (simp add: sched_inv_def)
    then have "sched_core ?t" using Finish by (intro core_upd_slot) (auto simp: sched_inv_def slot_ok_def slot_jobs_def)
    moreover have "set (located ?t) = set (located s)" using Finish by (intro located_upd_same) (auto simp: slot_jobs_def)
    ultimately show ?case using set_located_dispatch by (simp add: slot_finish_def)
  qed
  then show "j \<in> set (located s) \<Longrightarrow> j \<in> set (located t) \<or> job_done t j" "job_done s j \<Longrightarrow> job_done t j" by blast+
qed

lemma workers_invariant:
  assumes "worker_step\<^sup>*\<^sup>* s t" "sched_inv s" "j \<in> set (located s) \<or> job_done s j"
  shows "sched_inv t \<and> (j \<in> set (located t) \<or> job_done t j)"
  using assms(1)
proof (induction rule: rtranclp_induct)
  case (step t u)
  then show ?case using inv_worker worker_keeps_jobs by blast
qed (use assms in simp)

lemma workers_bounded: "(worker_step ^^ n) s t \<Longrightarrow> sched_inv s \<Longrightarrow> n + work_left t \<le> work_left s \<and> sched_inv t"
proof (induction n arbitrary: t)
  case (Suc n)
  then obtain u where u: "(worker_step ^^ n) s u" "worker_step u t" by auto
  with Suc have "n + work_left u \<le> work_left s" "sched_inv u" by blast+
  with u show ?case using worker_work_less [of u t] inv_worker [of u t] by auto
qed simp

lemma workers_finish:
  assumes "sched_inv s" shows "\<exists>t. worker_step\<^sup>*\<^sup>* s t \<and> located t = []"
  using assms
proof (induction "work_left s" arbitrary: s rule: less_induct)
  case less
  show ?case
  proof (cases "located s = []")
    case False
    then obtain t where t: "worker_step s t" using worker_enabled less.prems by blast
    then have "sched_inv t" "work_left t < work_left s" using inv_worker worker_work_less less.prems by blast+
    then show ?thesis using less.hyps [of t] t by (meson converse_rtranclp_into_rtranclp)
  qed auto
qed

text \<open>
  C17.  Every accepted job completes when the workers go on.  From every reachable state the workers can bring
  every job to completion; they cannot go on forever, the number of their steps is bounded by the work
  left; and whenever they have come to rest, the job is done.
\<close>

theorem accepted_jobs_complete:
  assumes "reachable s" "j \<in> set (located s)"
  shows "(\<exists>t. worker_step\<^sup>*\<^sup>* s t \<and> job_done t j) \<and> (\<forall>n t. (worker_step ^^ n) s t \<longrightarrow> n \<le> work_left s) \<and>
    (\<forall>t. worker_step\<^sup>*\<^sup>* s t \<and> (\<forall>u. \<not> worker_step t u) \<longrightarrow> job_done t j)"
proof -
  note inv = reachable_inv [OF assms(1)]
  have rest: "job_done t j" if "worker_step\<^sup>*\<^sup>* s t" "located t = []" for t
    using workers_invariant [OF that(1) inv, of j] assms(2) that(2) by auto
  have "located t = []" if "worker_step\<^sup>*\<^sup>* s t" "\<forall>u. \<not> worker_step t u" for t
    using workers_invariant [OF that(1) inv, of j] assms(2) worker_enabled that(2) by blast
  moreover have "\<exists>t. worker_step\<^sup>*\<^sup>* s t \<and> job_done t j" using workers_finish [OF inv] rest by blast
  moreover have "n \<le> work_left s" if "(worker_step ^^ n) s t" for n t using workers_bounded [OF that inv] by simp
  ultimately show ?thesis using rest by blast
qed

theorem accepted_jobs_complete_witness:
  "\<exists>t. worker_step\<^sup>*\<^sup>* (snd (enqueue 7 (new_job 7 sample_job (init_server 1)))) t \<and> job_done t 7"
proof -
  let ?s = "snd (enqueue 7 (new_job 7 sample_job (init_server 1)))"
  have "reachable ?s" by (rule reachable_one, rule sched_step.Enqueue) code_simp
  moreover have "7 \<in> set (located ?s)" by code_simp
  ultimately show ?thesis using accepted_jobs_complete by blast
qed

section \<open>Bindings\<close>

text \<open>
  The slot that holds the session a job continues: the live state of the job's protocol is valid there and
  knows every call the job brings results for.
\<close>

definition holds_session :: "job \<Rightarrow> server_slot \<Rightarrow> bool" where
  "holds_session r sl \<longleftrightarrow>
     responses_requires_live_tool_state r \<and> lt_valid (responses_live sl) \<and> stop_v (responses_live_call_ids r) \<noteq> [] \<and>
       set (stop_v (responses_live_call_ids r)) \<subseteq> set (stop_v (lt_call_ids (responses_live sl))) - {[]} \<or>
     anthropic_requires_live_tool_state r \<and> lt_valid (anthropic_live sl) \<and> stop_v (anthropic_live_call_ids r) \<noteq> [] \<and>
       set (stop_v (anthropic_live_call_ids r)) \<subseteq> set (stop_v (lt_call_ids (anthropic_live sl))) - {[]}"

definition shared_tokens :: "job \<Rightarrow> server_slot \<Rightarrow> nat" where
  "shared_tokens r sl = length (longest_common_prefix (case checkpoint sl of None \<Rightarrow> [] | Some ts \<Rightarrow> ts) (job_prompt r))"

definition idle :: "server_slot \<Rightarrow> bool" where
  "idle sl \<longleftrightarrow> \<not> busy sl \<and> assigned sl = None"

lemma slot_bound_holds: "slot_bound r sl = holds_session r sl"
  by (auto simp: slot_bound_def holds_session_def live_state_contains_all_def id_list_contains_def list_all_iff subset_iff)

lemma common_len_prefix: "common_len xs ys = length (longest_common_prefix xs ys)"
  by (induction xs ys rule: common_len.induct) auto

lemma session_prefix_shared: "ds4_session_common_prefix (checkpoint sl) (job_prompt r) = int (shared_tokens r sl)"
  by (simp add: ds4_session_common_prefix_def shared_tokens_def common_len_prefix split: option.split)

lemma required_from_first:
  "if \<exists>k < length sls. holds_session r (sls ! k)
   then \<exists>k < length sls. required_from n sls r = int (n + k) \<and> holds_session r (sls ! k) \<and> (\<forall>k' < k. \<not> holds_session r (sls ! k'))
   else required_from n sls r = -1"
proof (induction sls arbitrary: n)
  case (Cons sl sls)
  show ?case
  proof (cases "holds_session r sl")
    case True
    then show ?thesis by (auto simp: slot_bound_holds intro!: exI [of _ 0])
  next
    case False
    show ?thesis
    proof (cases "\<exists>k < length sls. holds_session r (sls ! k)")
      case True
      then obtain k where k: "k < length sls" "required_from (Suc n) sls r = int (Suc n + k)" "holds_session r (sls ! k)" "\<forall>k' < k. \<not> holds_session r (sls ! k')"
        using Cons.IH [of "Suc n"] by auto
      have "\<not> holds_session r ((sl # sls) ! k')" if "k' < Suc k" for k' using that k(4) False by (cases k') auto
      then show ?thesis using k False by (auto simp: slot_bound_holds intro!: exI [of _ "Suc k"])
    next
      case none: False
      then have "\<not> holds_session r ((sl # sls) ! k)" if "k < length (sl # sls)" for k using that False by (cases k) auto
      then show ?thesis using none False Cons.IH [of "Suc n"] by (auto simp: slot_bound_holds)
    qed
  qed
qed simp

lemma score_idle:
  assumes "idle (sls ! k)"
  shows "INT_MIN < job_slot_score sls k r q \<longleftrightarrow> q < 0 \<or> q = int k" "q < 0 \<Longrightarrow> job_slot_score sls k r q = int (shared_tokens r (sls ! k))"
  using assms by (auto simp: job_slot_score_def idle_def session_prefix_shared Let_def intro: less_le_trans [of _ 0])

lemma best_slot_spec:
  assumes "best_slot sls r = Some i"
  shows "i < length sls \<and> idle (sls ! i) \<and>
    (if \<exists>k < length sls. holds_session r (sls ! k) then holds_session r (sls ! i) \<and> (\<forall>k < i. \<not> holds_session r (sls ! k))
     else \<forall>k < length sls. idle (sls ! k) \<longrightarrow> shared_tokens r (sls ! k) \<le> shared_tokens r (sls ! i))"
proof -
  let ?q = "job_required_slot_locked sls r"
  note b = best_slot_Some [OF assms]
  have i: "idle (sls ! i)" using b by (simp add: idle_def)
  show ?thesis
  proof (cases "\<exists>k < length sls. holds_session r (sls ! k)")
    case True
    then show ?thesis using required_from_first [of sls r 0] b i by (auto simp: job_required_slot_locked_def)
  next
    case False
    then have q: "?q = -1" using required_from_first [of sls r 0] by (simp add: job_required_slot_locked_def)
    obtain c sc where f: "foldl (best_step sls r ?q) (None, INT_MIN) [0..<length sls] = (c, sc)" by fastforce
    then have "c = Some i" using assms by (simp add: best_slot_def)
    then have "\<forall>k < length sls. job_slot_score sls k r ?q \<le> job_slot_score sls i r ?q" using best_loop [OF f] by auto
    then show ?thesis using False b(1) i score_idle(2) [of sls _ ?q r] q by auto
  qed
qed

lemma best_slot_none_spec:
  assumes "best_slot sls r = None" "i < length sls" "idle (sls ! i)"
  shows "\<exists>k < length sls. holds_session r (sls ! k) \<and> (\<forall>k' < k. \<not> holds_session r (sls ! k')) \<and> \<not> idle (sls ! k)"
proof -
  have n: "idle (sls ! k) \<Longrightarrow> k < length sls \<Longrightarrow> \<not> (job_required_slot_locked sls r < 0 \<or> job_required_slot_locked sls r = int k)" for k
    using best_slot_None [OF assms(1), of k] score_idle(1) [of sls k r "job_required_slot_locked sls r"] by auto
  then have "\<not> job_required_slot_locked sls r < 0" using assms(2,3) by blast
  then show ?thesis using required_from_first [of sls r 0] n by (auto simp: job_required_slot_locked_def split: if_splits)
qed

lemma pick_job_first:
  "pick_job sls js q = Some (j, i) \<Longrightarrow> \<exists>q1 q2. q = q1 @ j # q2 \<and> best_slot sls (js j) = Some i \<and> (\<forall>j' \<in> set q1. best_slot sls (js j') = None)"
proof (induction q)
  case (Cons a q)
  show ?case
  proof (cases "best_slot sls (js a)")
    case None
    then obtain q1 q2 where "q = q1 @ j # q2 \<and> best_slot sls (js j) = Some i \<and> (\<forall>j' \<in> set q1. best_slot sls (js j') = None)" using Cons by auto
    then have "a # q = (a # q1) @ j # q2 \<and> best_slot sls (js j) = Some i \<and> (\<forall>j' \<in> set (a # q1). best_slot sls (js j') = None)" using None by simp
    then show ?thesis by blast
  next
    case (Some k)
    then have "a # q = [] @ j # q \<and> best_slot sls (js j) = Some i" using Cons.prems by simp
    then show ?thesis by fastforce
  qed
qed simp

text \<open>Slot 1 holds the session of call \<open>c1\<close>; slot 0 has more of the prompt.\<close>

definition bound_job :: job where
  "bound_job = sample_job\<lparr>responses_requires_live_tool_state := True, responses_live_call_ids := id_list_push_unique id_list_free (Some ''c1'')\<rparr>"

definition bound_server :: server where
  "bound_server = (init_server 2)\<lparr>slots := [init_slot\<lparr>checkpoint := Some [1, 2]\<rparr>,
     init_slot\<lparr>responses_live := (responses_live init_slot)\<lparr>lt_valid := True, lt_call_ids := id_list_push_unique id_list_free (Some ''c1'')\<rparr>\<rparr>],
     queue := [7], jobs := (\<lambda>_. bound_job)\<rparr>"

text \<open>
  C28.  The dispatcher respects bindings and is first come, first served otherwise.  The slot it picks is idle.
  If slots hold the live session the tool results of the job continue, it is the first of them and no
  other; if none does, no idle slot shares more tokens with the prompt.  Every job it passes over in
  the queue waits for the slot that holds its own session, which is not idle.
\<close>

theorem dispatch_respects_binding:
  assumes "pick_job (slots s) (jobs s) (queue s) = Some (j, i)"
  shows "i < length (slots s) \<and> idle (slots s ! i) \<and>
    (if \<exists>k < length (slots s). holds_session (jobs s j) (slots s ! k)
     then holds_session (jobs s j) (slots s ! i) \<and> (\<forall>k < i. \<not> holds_session (jobs s j) (slots s ! k))
     else \<forall>k < length (slots s). idle (slots s ! k) \<longrightarrow> shared_tokens (jobs s j) (slots s ! k) \<le> shared_tokens (jobs s j) (slots s ! i)) \<and>
    (\<exists>q1 q2. queue s = q1 @ j # q2 \<and> (\<forall>j' \<in> set q1. \<exists>k < length (slots s).
       holds_session (jobs s j') (slots s ! k) \<and> (\<forall>k' < k. \<not> holds_session (jobs s j') (slots s ! k')) \<and> \<not> idle (slots s ! k)))"
proof -
  obtain q1 q2 where q: "queue s = q1 @ j # q2" "best_slot (slots s) (jobs s j) = Some i" "\<forall>j' \<in> set q1. best_slot (slots s) (jobs s j') = None"
    using pick_job_first [OF assms] by blast
  note b = best_slot_spec [OF q(2)]
  then have "\<forall>j' \<in> set q1. \<exists>k < length (slots s). holds_session (jobs s j') (slots s ! k) \<and>
      (\<forall>k' < k. \<not> holds_session (jobs s j') (slots s ! k')) \<and> \<not> idle (slots s ! k)"
    using best_slot_none_spec q(3) by blast
  then show ?thesis using b q(1) by blast
qed

theorem dispatch_respects_binding_witness:
  "pick_job (slots bound_server) (jobs bound_server) (queue bound_server) = Some (7, 1) \<and> holds_session bound_job (slots bound_server ! 1) \<and>
   \<not> holds_session bound_job (slots bound_server ! 0)"
proof -
  have p: "pick_job (slots bound_server) (jobs bound_server) (queue bound_server) = Some (7, 1)" by code_simp
  have h: "holds_session bound_job (slots bound_server ! 1)" by code_simp
  have "1 < length (slots bound_server)" "jobs bound_server 7 = bound_job" by (simp_all add: bound_server_def)
  then show ?thesis using dispatch_respects_binding [OF p] p h by (metis zero_less_one)
qed

end
