(* ===== verification/Executor.thy ===== *)
theory Executor
  imports SchedulerProofs
begin

text \<open>
  The model executor of \<^verbatim>\<open>server.c\<close> in batched mode: the slot workers and the decode worker share the model
  under \<^verbatim>\<open>model_mu\<close>.  A worker asks for a turn to prefill, or submits a token to be decoded; the decode
  worker runs all submitted tokens as one batch; prefill turns go round the slots and give way to
  pending tokens.  Each critical section is one operation.  \<open>holder\<close> names the thread that runs the model
  and \<open>wst\<close> what each slot's worker is doing, both implicit in the program counters of the threads.
\<close>

section \<open>Prefill turns\<close>

fun next_prefill :: "server \<Rightarrow> nat \<Rightarrow> nat \<Rightarrow> nat option" where
  "next_prefill s n 0 = None"
| "next_prefill s n (Suc fuel) =
     (let i = nat ((last_prefill_slot s + int n) mod int (length (slots s))) in
      if prefill_waiting (slots s ! i) then Some i else next_prefill s (Suc n) fuel)"

definition server_next_prefill_slot_locked :: "server \<Rightarrow> nat option" where
  "server_next_prefill_slot_locked s = (if slots s = [] then None else next_prefill s 1 (length (slots s)))"

text \<open>\<^verbatim>\<open>server_prefill_enter\<close>: the request, the grant at the end of the wait, and giving up.\<close>

definition prefill_request :: "nat \<Rightarrow> server \<Rightarrow> server" where
  "prefill_request i s = upd_slot i (\<lambda>sl. sl\<lparr>prefill_waiting := True\<rparr>) s"

definition prefill_may_enter :: "server \<Rightarrow> nat \<Rightarrow> bool" where
  "prefill_may_enter s i \<longleftrightarrow> \<not> (model_busy s \<or> decodes_pending s > 0 \<or> server_next_prefill_slot_locked s \<noteq> Some i)"

definition prefill_grant :: "nat \<Rightarrow> server \<Rightarrow> server" where
  "prefill_grant i s = (upd_slot i (\<lambda>sl. sl\<lparr>prefill_waiting := False\<rparr>) s)\<lparr>last_prefill_slot := int i, model_busy := True\<rparr>"

definition prefill_abort :: "nat \<Rightarrow> server \<Rightarrow> server" where
  "prefill_abort i s = upd_slot i (\<lambda>sl. sl\<lparr>prefill_waiting := False\<rparr>) s"

definition server_prefill_leave :: "server \<Rightarrow> server" where
  "server_prefill_leave s = (if batched_mode s then s\<lparr>model_busy := False\<rparr> else s)"

definition server_prefill_quantum_for :: "server \<Rightarrow> bool \<Rightarrow> bool \<Rightarrow> int" where
  "server_prefill_quantum_for s is_glm53 generation_active =
     (let quantum = (if generation_active then mixed_prefill_quantum s else 2048) in
      if generation_active \<and> quantum < 1024 \<and> is_glm53 then 1024 else quantum)"

definition server_prefill_quantum :: "server \<Rightarrow> bool \<Rightarrow> int" where
  "server_prefill_quantum s is_glm53 = server_prefill_quantum_for s is_glm53 (active_generations s > 0)"

definition server_generation_enter :: "server \<Rightarrow> server" where
  "server_generation_enter s = (if batched_mode s then s\<lparr>active_generations := active_generations s + 1\<rparr> else s)"

definition server_generation_leave :: "server \<Rightarrow> server" where
  "server_generation_leave s = (if batched_mode s \<and> active_generations s > 0 then s\<lparr>active_generations := active_generations s - 1\<rparr> else s)"

section \<open>Decoding\<close>

text \<open>\<^verbatim>\<open>server_eval_token\<close>: submitting the token, and taking the result once it is done.\<close>

definition decode_submit :: "nat \<Rightarrow> server \<Rightarrow> bool \<times> server" where
  "decode_submit i s = (let sl = slots s ! i in
     if decode_pending sl \<or> decode_in_flight sl then (False, s)
     else (True, (upd_slot i (\<lambda>sl. sl\<lparr>decode_rc := 1, decode_done := False, decode_pending := True\<rparr>) s)
             \<lparr>decodes_pending := decodes_pending s + 1\<rparr>))"

definition decode_collect :: "nat \<Rightarrow> bool \<Rightarrow> server \<Rightarrow> int \<times> server" where
  "decode_collect i stop s = (let rc = decode_rc (slots s ! i) in
     (if stop \<and> rc = 0 then 2 else rc, upd_slot i (\<lambda>sl. sl\<lparr>decode_done := False\<rparr>) s))"

text \<open>\<^verbatim>\<open>decode_worker_main\<close>: forming a batch from the pending tokens, and publishing its result.\<close>

definition batch_members :: "server \<Rightarrow> nat list" where
  "batch_members s = filter (\<lambda>i. decode_pending (slots s ! i)) [0..<length (slots s)]"

definition take_pending :: "server_slot \<Rightarrow> server_slot" where
  "take_pending sl = (if decode_pending sl then sl\<lparr>decode_pending := False, decode_in_flight := True\<rparr> else sl)"

definition batch_start :: "server \<Rightarrow> server" where
  "batch_start s = s\<lparr>slots := map take_pending (slots s), decodes_pending := decodes_pending s - int (length (batch_members s)),
     model_busy := (batch_members s \<noteq> [] \<or> model_busy s)\<rparr>"

definition publish :: "int \<Rightarrow> server_slot \<Rightarrow> server_slot" where
  "publish rc sl = sl\<lparr>decode_in_flight := False, decode_rc := rc, decode_done := True\<rparr>"

fun publish_all :: "int \<Rightarrow> nat list \<Rightarrow> server \<Rightarrow> server" where
  "publish_all rc [] s = s"
| "publish_all rc (i # is) s = publish_all rc is (upd_slot i (publish rc) s)"

definition batch_finish :: "int \<Rightarrow> nat list \<Rightarrow> server \<Rightarrow> server" where
  "batch_finish rc members s = publish_all rc members (s\<lparr>model_busy := False\<rparr>)"

section \<open>The machine\<close>

datatype holder = Free | Prefill nat | Batch "nat list"
datatype wstate = Idle | AskPrefill | InPrefill | Decoding

record exec =
  srv :: server
  holder :: holder
  wst :: "wstate list"

abbreviation slot_of :: "exec \<Rightarrow> nat \<Rightarrow> server_slot" where "slot_of x i \<equiv> slots (srv x) ! i"

definition set_worker :: "nat \<Rightarrow> wstate \<Rightarrow> server \<Rightarrow> exec \<Rightarrow> exec" where
  "set_worker i w s x = x\<lparr>srv := s, wst := (wst x)[i := w]\<rparr>"

inductive exec_step :: "exec \<Rightarrow> exec \<Rightarrow> bool" where
  Ask: "i < length (wst x) \<Longrightarrow> wst x ! i = Idle \<Longrightarrow> exec_step x (set_worker i AskPrefill (prefill_request i (srv x)) x)"
| Grant: "i < length (wst x) \<Longrightarrow> wst x ! i = AskPrefill \<Longrightarrow> prefill_may_enter (srv x) i \<Longrightarrow>
    exec_step x ((set_worker i InPrefill (prefill_grant i (srv x)) x)\<lparr>holder := Prefill i\<rparr>)"
| Abort: "i < length (wst x) \<Longrightarrow> wst x ! i = AskPrefill \<Longrightarrow> exec_step x (set_worker i Idle (prefill_abort i (srv x)) x)"
| Leave: "i < length (wst x) \<Longrightarrow> wst x ! i = InPrefill \<Longrightarrow>
    exec_step x ((set_worker i Idle (server_prefill_leave (srv x)) x)\<lparr>holder := Free\<rparr>)"
| Submit: "i < length (wst x) \<Longrightarrow> wst x ! i = Idle \<Longrightarrow> exec_step x (set_worker i Decoding (snd (decode_submit i (srv x))) x)"
| Withdraw: "i < length (wst x) \<Longrightarrow> wst x ! i = Decoding \<Longrightarrow> exec_step x (x\<lparr>srv := snd (server_cancel_pending_decode_locked i (srv x))\<rparr>)"
| Start: "\<not> model_busy (srv x) \<Longrightarrow> batch_members (srv x) \<noteq> [] \<Longrightarrow>
    exec_step x (x\<lparr>srv := batch_start (srv x), holder := Batch (batch_members (srv x))\<rparr>)"
| Finish: "holder x = Batch ms \<Longrightarrow> exec_step x (x\<lparr>srv := batch_finish rc ms (srv x), holder := Free\<rparr>)"
| Collect: "i < length (wst x) \<Longrightarrow> wst x ! i = Decoding \<Longrightarrow> decode_done (slot_of x i) \<Longrightarrow>
    exec_step x (set_worker i Idle (snd (decode_collect i stop (srv x))) x)"

section \<open>The invariant\<close>

text \<open>What the flags of a slot say about its worker, given whether it is in the running batch.\<close>

definition slot_flags_ok :: "wstate \<Rightarrow> bool \<Rightarrow> server_slot \<Rightarrow> bool" where
  "slot_flags_ok w in_batch sl \<longleftrightarrow>
     (prefill_waiting sl \<longleftrightarrow> w = AskPrefill) \<and> decode_in_flight sl = in_batch \<and>
     \<not> (decode_pending sl \<and> decode_in_flight sl) \<and> \<not> (decode_done sl \<and> (decode_pending sl \<or> decode_in_flight sl)) \<and>
     (w = Decoding \<longleftrightarrow> decode_pending sl \<or> decode_in_flight sl \<or> decode_done sl)"

definition in_batch :: "holder \<Rightarrow> nat \<Rightarrow> bool" where
  "in_batch h i \<longleftrightarrow> (case h of Batch ms \<Rightarrow> i \<in> set ms | _ \<Rightarrow> False)"

definition exec_inv :: "exec \<Rightarrow> bool" where
  "exec_inv x \<longleftrightarrow> batched_mode (srv x) \<and> length (wst x) = length (slots (srv x)) \<and>
     (model_busy (srv x) \<longleftrightarrow> holder x \<noteq> Free) \<and>
     (\<forall>i < length (wst x). wst x ! i = InPrefill \<longleftrightarrow> holder x = Prefill i) \<and>
     (\<forall>i < length (wst x). slot_flags_ok (wst x ! i) (in_batch (holder x) i) (slot_of x i)) \<and>
     (case holder x of Batch ms \<Rightarrow> distinct ms \<and> set ms \<subseteq> {..<length (slots (srv x))} | Prefill i \<Rightarrow> i < length (wst x) | Free \<Rightarrow> True) \<and>
     decodes_pending (srv x) = int (length (filter decode_pending (slots (srv x))))"

lemma count_update:
  "i < length xs \<Longrightarrow> int (length (filter P (xs[i := y]))) = int (length (filter P xs)) - of_bool (P (xs ! i)) + of_bool (P y)"
proof (induction xs arbitrary: i)
  case (Cons x xs)
  then show ?case by (cases i) auto
qed simp

lemma count_indices: "length (filter (\<lambda>i. P (xs ! i)) [0..<length xs]) = length (filter P xs)"
proof -
  have "filter P xs = filter P (map ((!) xs) [0..<length xs])" by (simp add: map_nth)
  then show ?thesis by (simp only: filter_map length_map comp_def)
qed

lemma exec_upd_simps [simp]:
  "batched_mode (upd_slot i f s) = batched_mode s" "model_busy (upd_slot i f s) = model_busy s"
  "decodes_pending (upd_slot i f s) = decodes_pending s" "slots (upd_slot i f s) = (slots s)[i := f (slots s ! i)]"
  by (simp_all add: upd_slot_def)

text \<open>A change of one slot by its worker, with the counter brought in line.\<close>

lemma exec_inv_slot:
  assumes "exec_inv x" "i < length (wst x)" "w \<noteq> InPrefill" "wst x ! i \<noteq> InPrefill"
    and "slot_flags_ok w (in_batch (holder x) i) (f (slot_of x i))"
    and "d = decodes_pending (srv x) - of_bool (decode_pending (slot_of x i)) + of_bool (decode_pending (f (slot_of x i)))"
  shows "exec_inv (set_worker i w ((upd_slot i f (srv x))\<lparr>decodes_pending := d\<rparr>) x)"
proof -
  have i: "i < length (slots (srv x))" using assms(1,2) by (simp add: exec_inv_def)
  have "holder x \<noteq> Prefill i" using assms(1,2,4) by (auto simp: exec_inv_def)
  then show ?thesis using assms count_update [OF i, of decode_pending "f (slot_of x i)"] i
    by (auto simp: exec_inv_def set_worker_def nth_list_update split: holder.splits)
qed

lemma same_count [simp]: "s\<lparr>decodes_pending := decodes_pending s\<rparr> = (s :: server)"
  by simp

lemma upd_slot_count: "upd_slot i f (s\<lparr>decodes_pending := d\<rparr>) = (upd_slot i f s)\<lparr>decodes_pending := d\<rparr>"
  by (cases s) (simp add: upd_slot_def)

lemma flags_nth: "exec_inv x \<Longrightarrow> i < length (wst x) \<Longrightarrow> slot_flags_ok (wst x ! i) (in_batch (holder x) i) (slot_of x i)"
  by (simp add: exec_inv_def)

lemma worker_slot_steps:
  assumes "exec_inv x" "i < length (wst x)"
  shows "wst x ! i = Idle \<Longrightarrow> exec_inv (set_worker i AskPrefill (prefill_request i (srv x)) x)"
    and "wst x ! i = AskPrefill \<Longrightarrow> exec_inv (set_worker i Idle (prefill_abort i (srv x)) x)"
    and "wst x ! i = Idle \<Longrightarrow> exec_inv (set_worker i Decoding (snd (decode_submit i (srv x))) x)"
    and "wst x ! i = Decoding \<Longrightarrow> decode_done (slot_of x i) \<Longrightarrow> exec_inv (set_worker i Idle (snd (decode_collect i stop (srv x))) x)"
    and "wst x ! i = Decoding \<Longrightarrow> exec_inv (x\<lparr>srv := snd (server_cancel_pending_decode_locked i (srv x))\<rparr>)"
proof -
  note ok = flags_nth [OF assms]
  show "exec_inv (set_worker i AskPrefill (prefill_request i (srv x)) x)" if "wst x ! i = Idle"
    using exec_inv_slot [OF assms, of AskPrefill "\<lambda>sl. sl\<lparr>prefill_waiting := True\<rparr>" "decodes_pending (srv x)"] that ok
    by (auto simp: slot_flags_ok_def prefill_request_def upd_slot_def)
  show "exec_inv (set_worker i Idle (prefill_abort i (srv x)) x)" if "wst x ! i = AskPrefill"
    using exec_inv_slot [OF assms, of Idle "\<lambda>sl. sl\<lparr>prefill_waiting := False\<rparr>" "decodes_pending (srv x)"] that ok
    by (auto simp: slot_flags_ok_def prefill_abort_def upd_slot_def)
  show "exec_inv (set_worker i Decoding (snd (decode_submit i (srv x))) x)" if "wst x ! i = Idle"
    using exec_inv_slot [OF assms, of Decoding "\<lambda>sl. sl\<lparr>decode_rc := 1, decode_done := False, decode_pending := True\<rparr>" "decodes_pending (srv x) + 1"] that ok
    by (auto simp: slot_flags_ok_def decode_submit_def)
  show "exec_inv (set_worker i Idle (snd (decode_collect i stop (srv x))) x)" if "wst x ! i = Decoding" "decode_done (slot_of x i)"
    using exec_inv_slot [OF assms, of Idle "\<lambda>sl. sl\<lparr>decode_done := False\<rparr>" "decodes_pending (srv x)"] that ok
    by (auto simp: slot_flags_ok_def decode_collect_def upd_slot_def Let_def)
  show "exec_inv (x\<lparr>srv := snd (server_cancel_pending_decode_locked i (srv x))\<rparr>)" if w: "wst x ! i = Decoding"
  proof (cases "decode_pending (slot_of x i) \<and> \<not> decode_in_flight (slot_of x i)")
    case True
    then have "exec_inv (set_worker i Decoding ((upd_slot i (\<lambda>sl. sl\<lparr>decode_pending := False, decode_rc := 2, decode_done := True\<rparr>) (srv x))
        \<lparr>decodes_pending := decodes_pending (srv x) - 1\<rparr>) x)"
      using w ok by (intro exec_inv_slot [OF assms]) (simp_all add: slot_flags_ok_def)
    moreover have "(wst x)[i := Decoding] = wst x" using w by (metis list_update_id)
    ultimately show ?thesis using True by (simp add: server_cancel_pending_decode_locked_def Let_def set_worker_def upd_slot_count)
  qed (use assms(1) in \<open>auto simp: server_cancel_pending_decode_locked_def Let_def\<close>)
qed

lemma next_prefill_waiting: "next_prefill s n k = Some i \<Longrightarrow> slots s \<noteq> [] \<Longrightarrow> i < length (slots s) \<and> prefill_waiting (slots s ! i)"
  by (induction s n k rule: next_prefill.induct) (auto simp: Let_def nat_less_iff split: if_splits)

lemma grant_inv:
  assumes "exec_inv x" "i < length (wst x)" "wst x ! i = AskPrefill" "prefill_may_enter (srv x) i"
  shows "exec_inv ((set_worker i InPrefill (prefill_grant i (srv x)) x)\<lparr>holder := Prefill i\<rparr>)"
proof -
  have i: "i < length (slots (srv x))" and free: "holder x = Free" using assms by (simp_all add: exec_inv_def prefill_may_enter_def)
  have "slot_flags_ok AskPrefill False (slot_of x i)" using flags_nth [OF assms(1,2)] assms(3) free by (simp add: in_batch_def)
  then show ?thesis
    using assms(1,2) free count_update [OF i, of decode_pending "(slot_of x i)\<lparr>prefill_waiting := False\<rparr>"]
    by (auto simp: exec_inv_def set_worker_def prefill_grant_def nth_list_update in_batch_def slot_flags_ok_def)
qed

lemma leave_inv:
  assumes "exec_inv x" "i < length (wst x)" "wst x ! i = InPrefill"
  shows "exec_inv ((set_worker i Idle (server_prefill_leave (srv x)) x)\<lparr>holder := Free\<rparr>)"
proof -
  have h: "holder x = Prefill i" using assms by (simp add: exec_inv_def)
  then have "slot_flags_ok InPrefill False (slot_of x i)" using flags_nth [OF assms(1,2)] assms(3) by (simp add: in_batch_def)
  then show ?thesis using assms(1,2) h
    by (auto simp: exec_inv_def set_worker_def server_prefill_leave_def nth_list_update in_batch_def slot_flags_ok_def)
qed

lemma start_inv:
  assumes "exec_inv x" "\<not> model_busy (srv x)" "batch_members (srv x) \<noteq> []"
  shows "exec_inv (x\<lparr>srv := batch_start (srv x), holder := Batch (batch_members (srv x))\<rparr>)"
proof -
  have free: "holder x = Free" using assms by (simp add: exec_inv_def)
  have none: "filter decode_pending (map take_pending sls) = []" for sls by (induction sls) (auto simp: take_pending_def)
  have cnt: "decodes_pending (srv x) = int (length (batch_members (srv x)))"
    using assms(1) count_indices [of decode_pending "slots (srv x)"] by (simp add: exec_inv_def batch_members_def)
  have "slot_flags_ok (wst x ! i) (i \<in> set (batch_members (srv x))) (take_pending (slot_of x i))" if "i < length (wst x)" for i
    using flags_nth [OF assms(1) that] that assms(1) free
    by (auto simp: slot_flags_ok_def in_batch_def take_pending_def batch_members_def exec_inv_def)
  then show ?thesis using assms free none cnt
    by (auto simp: exec_inv_def batch_start_def in_batch_def batch_members_def)
qed

lemma publish_all_slots:
  "distinct ms \<Longrightarrow> set ms \<subseteq> {..<length (slots s)} \<Longrightarrow> slots (publish_all rc ms s) =
     map (\<lambda>i. if i \<in> set ms then publish rc (slots s ! i) else slots s ! i) [0..<length (slots s)]"
  "model_busy (publish_all rc ms s) = model_busy s" "decodes_pending (publish_all rc ms s) = decodes_pending s"
  "batched_mode (publish_all rc ms s) = batched_mode s"
proof -
  show "distinct ms \<Longrightarrow> set ms \<subseteq> {..<length (slots s)} \<Longrightarrow> slots (publish_all rc ms s) =
     map (\<lambda>i. if i \<in> set ms then publish rc (slots s ! i) else slots s ! i) [0..<length (slots s)]"
  proof (induction ms arbitrary: s)
    case Nil
    then show ?case by (simp add: map_nth)
  next
    case (Cons m ms)
    then show ?case by (auto simp: nth_list_update intro!: nth_equalityI)
  qed
qed (induction ms arbitrary: s; simp)+

lemma finish_inv:
  assumes "exec_inv x" "holder x = Batch ms"
  shows "exec_inv (x\<lparr>srv := batch_finish rc ms (srv x), holder := Free\<rparr>)"
proof -
  let ?n = "length (slots (srv x))"
  let ?f = "\<lambda>i. if i \<in> set ms then publish rc (slot_of x i) else slot_of x i"
  have ms: "distinct ms" "set ms \<subseteq> {..<?n}" using assms by (simp_all add: exec_inv_def)
  have sl: "slots (batch_finish rc ms (srv x)) = map ?f [0..<?n]"
    using publish_all_slots(1) [of ms "(srv x)\<lparr>model_busy := False\<rparr>" rc] ms by (simp add: batch_finish_def)
  have "length (filter decode_pending (map ?f [0..<?n])) = length (filter (\<lambda>i. decode_pending (?f i)) [0..<?n])"
    by (simp only: filter_map length_map comp_def)
  also have "(\<lambda>i. decode_pending (?f i)) = (\<lambda>i. decode_pending (slot_of x i))" by (auto simp: publish_def)
  finally have cnt: "length (filter decode_pending (map ?f [0..<?n])) = length (filter decode_pending (slots (srv x)))"
    by (simp only: count_indices)
  have "i \<in> set ms \<Longrightarrow> slot_flags_ok (wst x ! i) False (publish rc (slot_of x i))" "i \<notin> set ms \<Longrightarrow> slot_flags_ok (wst x ! i) False (slot_of x i)"
    if "i < length (wst x)" for i
    using flags_nth [OF assms(1) that] assms(2) by (auto simp: slot_flags_ok_def in_batch_def publish_def)
  then show ?thesis using assms sl cnt
    by (auto simp: exec_inv_def in_batch_def batch_finish_def publish_all_slots(2-4))
qed

lemma exec_inv_step: "exec_step x y \<Longrightarrow> exec_inv x \<Longrightarrow> exec_inv y"
  by (induction rule: exec_step.induct) (simp_all add: worker_slot_steps grant_inv leave_inv start_inv finish_inv)

definition exec_init :: "nat \<Rightarrow> server \<Rightarrow> exec" where
  "exec_init n s = \<lparr>srv = s, holder = Free, wst = replicate n Idle\<rparr>"

definition exec_reachable :: "nat \<Rightarrow> server \<Rightarrow> exec \<Rightarrow> bool" where
  "exec_reachable n s x \<longleftrightarrow> exec_step\<^sup>*\<^sup>* (exec_init n s) x"

text \<open>A server before any work: no flag of any slot is set.\<close>

definition quiet :: "nat \<Rightarrow> server \<Rightarrow> bool" where
  "quiet n s \<longleftrightarrow> batched_mode s \<and> length (slots s) = n \<and> \<not> model_busy s \<and> decodes_pending s = 0 \<and>
     list_all (\<lambda>sl. \<not> prefill_waiting sl \<and> \<not> decode_pending sl \<and> \<not> decode_in_flight sl \<and> \<not> decode_done sl) (slots s)"

lemma exec_init_inv: "quiet n s \<Longrightarrow> exec_inv (exec_init n s)"
  by (auto simp: exec_inv_def exec_init_def quiet_def slot_flags_ok_def in_batch_def list_all_length filter_empty_conv in_set_conv_nth)

lemma exec_reachable_inv:
  assumes "exec_reachable n s x" "quiet n s" shows "exec_inv x"
  using assms(1) unfolding exec_reachable_def
  by (induction rule: rtranclp_induct) (auto intro: exec_inv_step exec_init_inv [OF assms(2)])

text \<open>
  C19.  One thread runs the model at a time, and no token is lost: in every reachable state at most one worker
  is inside its prefill turn and none while a batch runs; the counter of pending tokens is the number
  of slots that have one; and a worker that waits for its token finds it in exactly one of the states
  pending, in flight and done.
\<close>

theorem executor_exclusive:
  assumes "exec_reachable n s x" "quiet n s" "i < n" "k < n"
  shows "(wst x ! i = InPrefill \<and> wst x ! k = InPrefill \<longrightarrow> i = k) \<and>
    (wst x ! i = InPrefill \<longrightarrow> \<not> decode_in_flight (slot_of x k)) \<and>
    decodes_pending (srv x) = int (length (filter decode_pending (slots (srv x)))) \<and>
    (wst x ! i = Decoding \<longrightarrow>
      length (filter id [decode_pending (slot_of x i), decode_in_flight (slot_of x i), decode_done (slot_of x i)]) = 1)"
proof -
  note inv = exec_reachable_inv [OF assms(1,2)]
  have "length (wst x) = n"
    using assms(1) unfolding exec_reachable_def
    by (induction rule: rtranclp_induct) (auto simp: exec_init_def set_worker_def elim: exec_step.cases)
  then have "i < length (wst x)" "k < length (wst x)" using assms by simp_all
  with inv flags_nth [OF inv, of i] flags_nth [OF inv, of k] show ?thesis
    by (auto simp: exec_inv_def slot_flags_ok_def in_batch_def split: holder.splits)
qed

text \<open>A run of two slots: both workers ask, and the first gets its turn.\<close>

definition sample_ask :: "nat \<Rightarrow> exec \<Rightarrow> exec" where
  "sample_ask i x = set_worker i AskPrefill (prefill_request i (srv x)) x"

definition sample_asked :: exec where
  "sample_asked = sample_ask 1 (sample_ask 0 (exec_init 2 (init_server 2)))"

definition sample_granted :: exec where
  "sample_granted = (set_worker 0 InPrefill (prefill_grant 0 (srv sample_asked)) sample_asked)\<lparr>holder := Prefill 0\<rparr>"

lemma sample_quiet: "quiet 2 (init_server 2)"
  by (simp add: quiet_def init_server_def init_slot_def list_all_iff)

lemma sample_asked_workers [simp]: "wst sample_asked = [AskPrefill, AskPrefill]" "holder sample_asked = Free"
  by (code_simp, code_simp)

lemma sample_granted_workers [simp]: "wst sample_granted = [InPrefill, AskPrefill]" "holder sample_granted = Prefill 0"
  by (code_simp, code_simp)

lemma sample_asked_reachable: "exec_reachable 2 (init_server 2) sample_asked"
proof -
  let ?x = "exec_init 2 (init_server 2)"
  have "exec_step ?x (sample_ask 0 ?x)" unfolding sample_ask_def by (rule exec_step.Ask) (simp_all add: exec_init_def)
  moreover have "exec_step (sample_ask 0 ?x) (sample_ask 1 (sample_ask 0 ?x))"
    unfolding sample_ask_def [of 1] by (rule exec_step.Ask) (code_simp, code_simp)
  ultimately show ?thesis by (simp add: exec_reachable_def sample_asked_def)
qed

lemma sample_grant: "exec_step sample_asked sample_granted"
  unfolding sample_granted_def by (rule exec_step.Grant) (simp, simp, code_simp)

theorem executor_exclusive_witness:
  "wst sample_granted ! 0 = InPrefill \<and> \<not> decode_in_flight (slot_of sample_granted 1)"
proof -
  have "exec_reachable 2 (init_server 2) sample_granted"
    using sample_asked_reachable sample_grant by (simp add: exec_reachable_def)
  then show ?thesis using executor_exclusive [of 2 "init_server 2" sample_granted 0 1] sample_quiet by simp
qed

section \<open>Prefill turns go round\<close>

text \<open>How many slots come before slot \<open>i\<close> in the order of turns.\<close>

definition turns_before :: "exec \<Rightarrow> nat \<Rightarrow> nat" where
  "turns_before x i = nat ((int i - last_prefill_slot (srv x) - 1) mod int (length (slots (srv x))))"

lemma next_prefill_first:
  "next_prefill s n k = Some i \<Longrightarrow> \<exists>m. n \<le> m \<and> i = nat ((last_prefill_slot s + int m) mod int (length (slots s))) \<and>
     (\<forall>m'. n \<le> m' \<and> m' < m \<longrightarrow> \<not> prefill_waiting (slots s ! nat ((last_prefill_slot s + int m') mod int (length (slots s)))))"
proof (induction s n k rule: next_prefill.induct)
  case (2 s n k)
  show ?case
  proof (cases "prefill_waiting (slots s ! nat ((last_prefill_slot s + int n) mod int (length (slots s))))")
    case True
    then show ?thesis using 2(2) by (auto simp: Let_def)
  next
    case False
    then obtain m where m: "Suc n \<le> m" "i = nat ((last_prefill_slot s + int m) mod int (length (slots s)))"
        "\<forall>m'. Suc n \<le> m' \<and> m' < m \<longrightarrow> \<not> prefill_waiting (slots s ! nat ((last_prefill_slot s + int m') mod int (length (slots s))))"
      using 2(1) [OF refl False] 2(2) by (auto simp: Let_def)
    have "\<not> prefill_waiting (slots s ! nat ((last_prefill_slot s + int m') mod int (length (slots s))))" if "n \<le> m'" "m' < m" for m'
      using that m(3) False by (cases "m' = n") auto
    then show ?thesis using m(1,2) by (intro exI [of _ m]) auto
  qed
qed simp

lemma mod_diff_shift: "((l + d) mod n - (l + m) mod n - 1) mod n = (d - m - 1) mod (n :: int)"
proof -
  have "((l + d) mod n - (l + m) mod n - 1) mod n = (((l + d) mod n - (l + m) mod n) mod n - 1) mod n"
    by (rule mod_diff_left_eq [symmetric])
  also have "\<dots> = ((l + d - (l + m)) mod n - 1) mod n" by (simp only: mod_diff_eq)
  also have "\<dots> = (l + d - (l + m) - 1) mod n" by (rule mod_diff_left_eq)
  finally show ?thesis by simp
qed

text \<open>The slot at a distance behind the last turn, and the distances after the turn of slot \<open>k\<close>.\<close>

lemma slot_at_turn:
  assumes "j < length (slots (srv x))"
  shows "int j = (last_prefill_slot (srv x) + int (turns_before x j + 1)) mod int (length (slots (srv x)))"
proof -
  let ?N = "int (length (slots (srv x)))" and ?l = "last_prefill_slot (srv x)"
  have "0 < ?N" using assms by linarith
  then have "int (turns_before x j) = (int j - ?l - 1) mod ?N" by (simp add: turns_before_def)
  then have "(?l + int (turns_before x j + 1)) mod ?N = ((int j - ?l - 1) mod ?N + (?l + 1)) mod ?N" by (simp add: ac_simps)
  also have "\<dots> = (int j - ?l - 1 + (?l + 1)) mod ?N" by (rule mod_add_left_eq)
  finally show ?thesis using assms by simp
qed

lemma turns_before_less: "j < length (slots (srv x)) \<Longrightarrow> turns_before x j < length (slots (srv x))"
  unfolding turns_before_def by (subst nat_less_iff) (auto intro!: pos_mod_bound pos_mod_sign)

lemma turns_after_grant:
  assumes "k < length (slots (srv x))" "j < length (slots (srv x))"
  shows "turns_before (x\<lparr>srv := prefill_grant k (srv x)\<rparr>) k = length (slots (srv x)) - 1"
    and "turns_before x k < turns_before x j \<Longrightarrow> turns_before (x\<lparr>srv := prefill_grant k (srv x)\<rparr>) j = turns_before x j - turns_before x k - 1"
proof -
  let ?N = "int (length (slots (srv x)))" and ?y = "x\<lparr>srv := prefill_grant k (srv x)\<rparr>"
  have g: "turns_before ?y j = nat ((int j - int k - 1) mod ?N)" for j by (simp add: turns_before_def prefill_grant_def)
  have "- 1 mod ?N = ?N - 1" using assms(1) by (intro zmod_minus1) linarith
  then show "turns_before ?y k = length (slots (srv x)) - 1" by (simp add: g)
  assume l: "turns_before x k < turns_before x j"
  have "(int j - int k - 1) mod ?N = (int (turns_before x j + 1) - int (turns_before x k + 1) - 1) mod ?N"
    by (subst slot_at_turn [OF assms(1)], subst slot_at_turn [OF assms(2)]) (rule mod_diff_shift)
  also have "\<dots> = int (turns_before x j) - int (turns_before x k) - 1"
    using l turns_before_less [OF assms(2)] by (subst mod_pos_pos_trivial) simp_all
  finally show "turns_before ?y j = turns_before x j - turns_before x k - 1" using l by (simp add: g)
qed

lemma granted_before:
  assumes "exec_inv x" "i < length (wst x)" "wst x ! i = AskPrefill" "prefill_may_enter (srv x) k" "k \<noteq> i"
  shows "k < length (slots (srv x)) \<and> turns_before x k < turns_before x i"
proof -
  let ?N = "int (length (slots (srv x)))" and ?l = "last_prefill_slot (srv x)"
  have N: "0 < ?N" "i < length (slots (srv x))" using assms(1,2) by (auto simp: exec_inv_def)
  obtain m where m: "1 \<le> m" "k = nat ((?l + int m) mod ?N)"
      "\<forall>m'. 1 \<le> m' \<and> m' < m \<longrightarrow> \<not> prefill_waiting (slots (srv x) ! nat ((?l + int m') mod ?N))"
    using assms(4) next_prefill_first [of "srv x" 1 _ k]
    by (auto simp: prefill_may_enter_def server_next_prefill_slot_locked_def split: if_splits)
  have w: "prefill_waiting (slot_of x i)" using flags_nth [OF assms(1,2)] assms(3) by (simp add: slot_flags_ok_def)
  have di: "nat ((?l + int (turns_before x i + 1)) mod ?N) = i" using slot_at_turn [OF N(2)] by (metis nat_int)
  have "m \<noteq> turns_before x i + 1" using di m(2) assms(5) by blast
  moreover have "\<not> turns_before x i + 1 < m" using m(3) w di by (metis le_add2)
  ultimately have md: "m \<le> turns_before x i" by simp
  have kN: "k < length (slots (srv x))" using m(2) N(1) by (simp add: nat_less_iff)
  have "int k = (?l + int m) mod ?N" using m(2) N(1) by simp
  then have "(int k - ?l - 1) mod ?N = ((?l + int m) mod ?N - (?l + 1)) mod ?N" by (simp add: algebra_simps)
  also have "\<dots> = (int m - 1) mod ?N" by (simp add: mod_diff_left_eq)
  also have "\<dots> = int m - 1" using md turns_before_less [OF N(2)] m(1) by (intro mod_pos_pos_trivial) simp_all
  finally have "turns_before x k = m - 1" using m(1) by (simp add: turns_before_def)
  then show ?thesis using kN md m(1) by simp
qed

text \<open>
  A run during which the worker of slot \<open>i\<close> keeps waiting for its turn, and the slots that are given a turn
  in it, in order.
\<close>

inductive waits :: "nat \<Rightarrow> nat list \<Rightarrow> exec \<Rightarrow> exec \<Rightarrow> bool" where
  Nil: "wst x ! i = AskPrefill \<Longrightarrow> waits i [] x x"
| Other: "waits i js x y \<Longrightarrow> exec_step y z \<Longrightarrow> wst z ! i = AskPrefill \<Longrightarrow> \<not> (\<exists>k. holder y = Free \<and> holder z = Prefill k) \<Longrightarrow> waits i js x z"
| Turn: "waits i js x y \<Longrightarrow> exec_step y z \<Longrightarrow> wst z ! i = AskPrefill \<Longrightarrow> holder y = Free \<Longrightarrow> holder z = Prefill k \<Longrightarrow> waits i (js @ [k]) x z"

inductive_cases exec_stepE: "exec_step x y"

lemma step_lengths: "exec_step x y \<Longrightarrow> exec_inv x \<Longrightarrow> length (wst y) = length (wst x)"
  by (erule exec_stepE) (auto simp: set_worker_def)

lemma publish_all_last [simp]: "last_prefill_slot (publish_all rc ms s) = last_prefill_slot s"
  by (induction ms arbitrary: s) (simp_all add: upd_slot_def)

lemma other_keeps_turns:
  assumes "exec_step x y" "exec_inv x" "\<not> (\<exists>k. holder x = Free \<and> holder y = Prefill k)"
  shows "turns_before y i = turns_before x i"
proof -
  have "length (slots (srv y)) = length (slots (srv x))"
    using step_lengths [OF assms(1,2)] exec_inv_step [OF assms(1,2)] assms(2) by (simp add: exec_inv_def)
  moreover have "last_prefill_slot (srv y) = last_prefill_slot (srv x)"
    using assms by (elim exec_stepE)
      (auto simp: set_worker_def prefill_request_def prefill_abort_def decode_submit_def decode_collect_def upd_slot_def Let_def
        server_cancel_pending_decode_locked_def batch_start_def batch_finish_def server_prefill_leave_def exec_inv_def prefill_may_enter_def)
  ultimately show ?thesis by (simp add: turns_before_def)
qed

lemma turn_passes:
  assumes "exec_step x y" "exec_inv x" "i < length (wst x)" "wst x ! i = AskPrefill" "wst y ! i = AskPrefill" "holder x = Free" "holder y = Prefill k"
  shows "k < length (slots (srv x)) \<and> turns_before x k < turns_before x i \<and> turns_before y i < turns_before y k \<and>
    (\<forall>j < length (slots (srv x)). turns_before x i < turns_before x j \<longrightarrow> turns_before y i < turns_before y j)"
  using assms(1)
proof (cases rule: exec_step.cases)
  case (Grant m)
  then have "m = k" using assms(7) by simp
  then have ki: "k \<noteq> i" using Grant assms(3,5) by (auto simp: set_worker_def)
  have y: "turns_before y j = turns_before (x\<lparr>srv := prefill_grant k (srv x)\<rparr>) j" for j using Grant \<open>m = k\<close> by (simp add: turns_before_def set_worker_def)
  have i: "i < length (slots (srv x))" using assms(2,3) by (simp add: exec_inv_def)
  have b: "k < length (slots (srv x))" "turns_before x k < turns_before x i"
    using granted_before [OF assms(2,3,4) _ ki] Grant \<open>m = k\<close> by auto
  have yi: "turns_before y i = turns_before x i - turns_before x k - 1" unfolding y by (rule turns_after_grant(2) [OF b(1) i b(2)])
  moreover have "turns_before y k = length (slots (srv x)) - 1" unfolding y by (rule turns_after_grant(1) [OF b(1) i])
  moreover have "turns_before y j = turns_before x j - turns_before x k - 1" if "j < length (slots (srv x))" "turns_before x i < turns_before x j" for j
    unfolding y by (rule turns_after_grant(2) [OF b(1) that(1)]) (use that b in simp)
  ultimately show ?thesis using b turns_before_less [OF i] by auto
qed (use assms(6,7) in \<open>auto simp: set_worker_def\<close>)

text \<open>Every slot that had its turn comes behind the waiting one from then on.\<close>

lemma waits_order:
  "waits i js x y \<Longrightarrow> exec_inv x \<Longrightarrow> i < length (wst x) \<Longrightarrow>
     exec_inv y \<and> length (wst y) = length (wst x) \<and> wst y ! i = AskPrefill \<and> distinct js \<and>
     (\<forall>j \<in> set js. j < length (wst x) \<and> turns_before y i < turns_before y j)"
proof (induction rule: waits.induct)
  case (Other i js x y z)
  then show ?case using exec_inv_step [of y z] step_lengths [of y z] other_keeps_turns [of y z] by auto
next
  case (Turn i js x y z k)
  then have y: "exec_inv y" "length (wst y) = length (wst x)" "wst y ! i = AskPrefill" "distinct js"
    "\<forall>j \<in> set js. j < length (wst x) \<and> turns_before y i < turns_before y j" by auto
  have len: "length (slots (srv y)) = length (wst x)" using y(1,2) by (simp add: exec_inv_def)
  have i: "i < length (wst y)" using Turn.prems(2) y(2) by simp
  note p = turn_passes [OF Turn.hyps(2) y(1) i y(3) Turn.hyps(3,4,5)]
  have "k \<notin> set js" using p y(5) by force
  then show ?case using p y len exec_inv_step [OF Turn.hyps(2) y(1)] step_lengths [OF Turn.hyps(2) y(1)] Turn.hyps(3) by auto
qed simp

text \<open>
  C20.  Prefill turns are fair: while a worker waits for its turn, every other slot is given a turn at most once,
  whatever the workers do in between.
\<close>

theorem prefill_turns_fair:
  assumes "exec_reachable n s x" "quiet n s" "i < n" "waits i js x y"
  shows "distinct js \<and> set js \<subseteq> {..<n} - {i}"
proof -
  note inv = exec_reachable_inv [OF assms(1,2)]
  have "length (wst x) = n"
    using assms(1) unfolding exec_reachable_def
    by (induction rule: rtranclp_induct) (auto simp: exec_init_def set_worker_def elim: exec_step.cases)
  then show ?thesis using waits_order [OF assms(4) inv] assms(3) by auto
qed

theorem prefill_turns_fair_witness: "waits 1 [0] sample_asked sample_granted \<and> set [0] \<subseteq> {..<2} - {1 :: nat}"
proof -
  have "waits 1 ([] @ [0]) sample_asked sample_granted"
    by (rule waits.Turn [OF waits.Nil sample_grant]) simp_all
  then show ?thesis using prefill_turns_fair [of 2 "init_server 2" sample_asked 1 "[0]" sample_granted] sample_asked_reachable sample_quiet
    by simp
qed

end
