(* ===== verification/ToolMemory.thy ===== *)
theory ToolMemory
  imports Requests Escaping "HOL-Library.Monad_Syntax"
begin

text \<open>
  The memory of sampled tool call text of \<^verbatim>\<open>server.c\<close>: for every call id the exact text the model wrote, so
  that a replayed conversation is rendered byte for byte.  It is a heap structure: entries form a
  doubly linked list in the order of their last use, entries of the same text share a reference
  counted block and form a list of their own, and two radix trees, maps here, index entries by id and
  blocks by text.

  A pointer is an address, \<^const>\<open>None\<close> for NULL; \<open>tm_entry\<close> and \<open>tm_block\<close> are the two parts of the heap and
  \<open>tm_brk\<close> is the next address \<^verbatim>\<open>xmalloc\<close> returns.  An operation returns \<^const>\<open>None\<close> when it dereferences NULL or
  freed memory, or does not return: that it never does is part of what is proved.
\<close>

section \<open>Data\<close>

type_synonym addr = nat

datatype tool_memory_source = TOOL_MEMORY_RAM | TOOL_MEMORY_DISK

record tool_memory_block =
  tb_dsml :: string
  tb_len :: nat
  tb_bytes :: u64
  tb_refs :: int
  tb_seen :: u64
  tb_entries :: "addr option"

record tool_memory_entry =
  te_id :: string
  te_block :: "addr option"
  te_bytes :: u64
  te_stamp :: u64
  te_source :: tool_memory_source
  te_prev :: "addr option"
  te_next :: "addr option"
  te_block_next :: "addr option"

record tool_memory =
  tm_by_id :: "string \<rightharpoonup> addr"
  tm_by_block :: "string \<rightharpoonup> addr"
  tm_head :: "addr option"
  tm_tail :: "addr option"
  tm_entries :: int
  tm_max_entries :: int
  tm_bytes :: u64
  tm_max_bytes :: u64
  tm_clock :: u64
  tm_scan_clock :: u64
  tm_entry :: "addr \<rightharpoonup> tool_memory_entry"
  tm_block :: "addr \<rightharpoonup> tool_memory_block"
  tm_brk :: addr

text \<open>The sizes of the two structures on a 64-bit target.\<close>

abbreviation sizeof_block :: nat where "sizeof_block \<equiv> 48"
abbreviation sizeof_entry :: nat where "sizeof_entry \<equiv> 64"

definition DS4_TOOL_MEMORY_MAX_BYTES :: u64 where "DS4_TOOL_MEMORY_MAX_BYTES = 536870912"

section \<open>Operations\<close>

definition tool_memory_max_entries :: "tool_memory \<Rightarrow> int" where
  "tool_memory_max_entries m = (if tm_max_entries m > 0 then tm_max_entries m else 100000)"

definition tool_memory_max_bytes :: "tool_memory \<Rightarrow> u64" where
  "tool_memory_max_bytes m = (if tm_max_bytes m > 0 then tm_max_bytes m else DS4_TOOL_MEMORY_MAX_BYTES)"

definition mod_entry :: "addr \<Rightarrow> (tool_memory_entry \<Rightarrow> tool_memory_entry) \<Rightarrow> tool_memory \<Rightarrow> tool_memory option" where
  "mod_entry a f m = do { e \<leftarrow> tm_entry m a; Some (m\<lparr>tm_entry := (tm_entry m)(a \<mapsto> f e)\<rparr>) }"

definition mod_block :: "addr \<Rightarrow> (tool_memory_block \<Rightarrow> tool_memory_block) \<Rightarrow> tool_memory \<Rightarrow> tool_memory option" where
  "mod_block b f m = do { k \<leftarrow> tm_block m b; Some (m\<lparr>tm_block := (tm_block m)(b \<mapsto> f k)\<rparr>) }"

definition tool_memory_link_head :: "addr \<Rightarrow> tool_memory \<Rightarrow> tool_memory option" where
  "tool_memory_link_head a m = do {
     m1 \<leftarrow> mod_entry a (\<lambda>e. e\<lparr>te_prev := None, te_next := tm_head m\<rparr>) m;
     m2 \<leftarrow> (case tm_head m1 of Some h \<Rightarrow> mod_entry h (\<lambda>e. e\<lparr>te_prev := Some a\<rparr>) m1 | None \<Rightarrow> Some (m1\<lparr>tm_tail := Some a\<rparr>));
     Some (m2\<lparr>tm_head := Some a\<rparr>) }"

definition tool_memory_unlink :: "addr \<Rightarrow> tool_memory \<Rightarrow> tool_memory option" where
  "tool_memory_unlink a m = do {
     e \<leftarrow> tm_entry m a;
     m1 \<leftarrow> (case te_prev e of Some p \<Rightarrow> mod_entry p (\<lambda>x. x\<lparr>te_next := te_next e\<rparr>) m | None \<Rightarrow> Some (m\<lparr>tm_head := te_next e\<rparr>));
     e1 \<leftarrow> tm_entry m1 a;
     m2 \<leftarrow> (case te_next e1 of Some n \<Rightarrow> mod_entry n (\<lambda>x. x\<lparr>te_prev := te_prev e1\<rparr>) m1 | None \<Rightarrow> Some (m1\<lparr>tm_tail := te_prev e1\<rparr>));
     mod_entry a (\<lambda>x. x\<lparr>te_prev := None, te_next := None\<rparr>) m2 }"

definition tool_memory_touch :: "addr \<Rightarrow> tool_memory \<Rightarrow> tool_memory option" where
  "tool_memory_touch a m = do {
     m1 \<leftarrow> mod_entry a (\<lambda>e. e\<lparr>te_stamp := tm_clock m + 1\<rparr>) (m\<lparr>tm_clock := tm_clock m + 1\<rparr>);
     if tm_head m1 = Some a then Some m1
     else do { m2 \<leftarrow> tool_memory_unlink a m1; tool_memory_link_head a m2 } }"

text \<open>
  The walk of \<^verbatim>\<open>tool_block_unlink_entry\<close>: its pointer to a pointer is the field \<^verbatim>\<open>entries\<close> of the block, or the
  field \<^verbatim>\<open>block_next\<close> of an entry.
\<close>

definition read_link :: "addr \<Rightarrow> addr option \<Rightarrow> tool_memory \<Rightarrow> addr option option" where
  "read_link b holder m = (case holder of None \<Rightarrow> map_option tb_entries (tm_block m b) | Some x \<Rightarrow> map_option te_block_next (tm_entry m x))"

definition write_link :: "addr \<Rightarrow> addr option \<Rightarrow> addr option \<Rightarrow> tool_memory \<Rightarrow> tool_memory option" where
  "write_link b holder v m = (case holder of None \<Rightarrow> mod_block b (\<lambda>k. k\<lparr>tb_entries := v\<rparr>) m
     | Some x \<Rightarrow> mod_entry x (\<lambda>e. e\<lparr>te_block_next := v\<rparr>) m)"

partial_function (option) block_unlink_walk :: "addr \<Rightarrow> addr option \<Rightarrow> addr \<Rightarrow> tool_memory \<Rightarrow> tool_memory option" where
  "block_unlink_walk b holder a m = do {
     q \<leftarrow> read_link b holder m;
     (case q of None \<Rightarrow> Some m
      | Some c \<Rightarrow>
          if c = a then do {
            e \<leftarrow> tm_entry m a;
            m1 \<leftarrow> write_link b holder (te_block_next e) m;
            mod_entry a (\<lambda>x. x\<lparr>te_block_next := None\<rparr>) m1 }
          else block_unlink_walk b (Some c) a m) }"

definition tool_block_unlink_entry :: "addr \<Rightarrow> addr \<Rightarrow> tool_memory \<Rightarrow> tool_memory option" where
  "tool_block_unlink_entry b a m = block_unlink_walk b None a m"

definition tool_memory_find_block_locked :: "tool_memory \<Rightarrow> string \<Rightarrow> addr option" where
  "tool_memory_find_block_locked m d = (if d = [] then None else tm_by_block m d)"

definition tool_memory_get_block_locked :: "string \<Rightarrow> tool_memory \<Rightarrow> addr \<times> tool_memory" where
  "tool_memory_get_block_locked d m = (case tool_memory_find_block_locked m d of Some b \<Rightarrow> (b, m)
     | None \<Rightarrow> (let b = tm_brk m;
          k = \<lparr>tb_dsml = d, tb_len = length d, tb_bytes = word_of_nat (length d + 1 + sizeof_block), tb_refs = 0, tb_seen = 0, tb_entries = None\<rparr>
        in (b, m\<lparr>tm_brk := Suc b, tm_block := (tm_block m)(b \<mapsto> k), tm_by_block := (tm_by_block m)(d \<mapsto> b),
             tm_bytes := tm_bytes m + tb_bytes k\<rparr>)))"

text \<open>\<^verbatim>\<open>size_t\<close> subtraction that stops at zero.\<close>

definition bytes_sub :: "u64 \<Rightarrow> u64 \<Rightarrow> u64" where
  "bytes_sub x y = (if y \<le> x then x - y else 0)"

definition tool_memory_release_block_locked :: "addr \<Rightarrow> tool_memory \<Rightarrow> tool_memory option" where
  "tool_memory_release_block_locked b m = do {
     k \<leftarrow> tm_block m b;
     if tb_refs k - 1 > 0 then mod_block b (\<lambda>k. k\<lparr>tb_refs := tb_refs k - 1\<rparr>) m
     else Some (m\<lparr>tm_by_block := (tm_by_block m)(tb_dsml k := None), tm_bytes := bytes_sub (tm_bytes m) (tb_bytes k),
                  tm_block := (tm_block m)(b := None)\<rparr>) }"

definition tool_memory_remove_entry_locked :: "addr \<Rightarrow> tool_memory \<Rightarrow> tool_memory option" where
  "tool_memory_remove_entry_locked a m = do {
     e \<leftarrow> tm_entry m a;
     m1 \<leftarrow> tool_memory_unlink a (m\<lparr>tm_by_id := (tm_by_id m)(te_id e := None)\<rparr>);
     m2 \<leftarrow> (case te_block e of None \<Rightarrow> Some m1 | Some b \<Rightarrow> tool_block_unlink_entry b a m1);
     m3 \<leftarrow> (let m2' = m2\<lparr>tm_bytes := bytes_sub (tm_bytes m2) (te_bytes e),
                          tm_entries := (if tm_entries m2 > 0 then tm_entries m2 - 1 else tm_entries m2)\<rparr>
       in case te_block e of None \<Rightarrow> Some m2' | Some b \<Rightarrow> tool_memory_release_block_locked b m2');
     Some (m3\<lparr>tm_entry := (tm_entry m3)(a := None)\<rparr>) }"

definition over_limits :: "tool_memory \<Rightarrow> bool" where
  "over_limits m \<longleftrightarrow> tm_entries m > tool_memory_max_entries m \<or> tm_bytes m > tool_memory_max_bytes m"

partial_function (option) tool_memory_prune_locked :: "tool_memory \<Rightarrow> tool_memory option" where
  "tool_memory_prune_locked m =
     (if over_limits m then (case tm_tail m of None \<Rightarrow> Some m
        | Some t \<Rightarrow> do { m1 \<leftarrow> tool_memory_remove_entry_locked t m; tool_memory_prune_locked m1 })
      else Some m)"

definition tool_memory_find_entry_locked :: "tool_memory \<Rightarrow> string \<Rightarrow> addr option" where
  "tool_memory_find_entry_locked m i = (if i = [] then None else tm_by_id m i)"

text \<open>The part of \<^verbatim>\<open>tool_memory_put_locked\<close> that inserts a new entry.\<close>

definition put_new :: "string \<Rightarrow> string \<Rightarrow> tool_memory_source \<Rightarrow> tool_memory \<Rightarrow> tool_memory option" where
  "put_new i d source m = (case tool_memory_get_block_locked d m of (b, m1) \<Rightarrow> do {
     k \<leftarrow> tm_block m1 b;
     let a = tm_brk m1;
     let e = \<lparr>te_id = i, te_block = Some b, te_bytes = word_of_nat (length i + 1 + sizeof_entry), te_stamp = tm_clock m1 + 1,
              te_source = source, te_prev = None, te_next = None, te_block_next = tb_entries k\<rparr>;
     m2 \<leftarrow> tool_memory_link_head a (m1\<lparr>tm_brk := Suc a, tm_clock := tm_clock m1 + 1, tm_entry := (tm_entry m1)(a \<mapsto> e),
              tm_block := (tm_block m1)(b \<mapsto> k\<lparr>tb_entries := Some a, tb_refs := tb_refs k + 1\<rparr>),
              tm_by_id := (tm_by_id m1)(i \<mapsto> a)\<rparr>);
     tool_memory_prune_locked (m2\<lparr>tm_entries := tm_entries m2 + 1, tm_bytes := tm_bytes m2 + te_bytes e\<rparr>) })"

definition tool_memory_put_locked :: "string option \<Rightarrow> string option \<Rightarrow> tool_memory_source \<Rightarrow> tool_memory \<Rightarrow> tool_memory option" where
  "tool_memory_put_locked id0 dsml source m = (let i = of_ptr id0; d = of_ptr dsml in
     if i = [] \<or> d = [] then Some m
     else (case tool_memory_find_entry_locked m i of None \<Rightarrow> put_new i d source m
       | Some old \<Rightarrow> do {
           e \<leftarrow> tm_entry m old;
           same \<leftarrow> (case te_block e of None \<Rightarrow> Some False
             | Some b \<Rightarrow> map_option (\<lambda>k. tb_len k = length d \<and> tb_dsml k = d) (tm_block m b));
           if same then do {
             m1 \<leftarrow> mod_entry old (\<lambda>x. if source = TOOL_MEMORY_RAM then x\<lparr>te_source := TOOL_MEMORY_RAM\<rparr> else x) m;
             m2 \<leftarrow> tool_memory_touch old m1;
             tool_memory_prune_locked m2 }
           else do { m1 \<leftarrow> tool_memory_remove_entry_locked old m; put_new i d source m1 } }))"

definition tool_memory_zero :: tool_memory where
  "tool_memory_zero = \<lparr>tm_by_id = Map.empty, tm_by_block = Map.empty, tm_head = None, tm_tail = None, tm_entries = 0, tm_max_entries = 0,
     tm_bytes = 0, tm_max_bytes = 0, tm_clock = 0, tm_scan_clock = 0, tm_entry = Map.empty, tm_block = Map.empty, tm_brk = 1\<rparr>"

partial_function (option) free_entries :: "tool_memory \<Rightarrow> tool_memory option" where
  "free_entries m = (case tm_tail m of None \<Rightarrow> Some m
     | Some t \<Rightarrow> do { m1 \<leftarrow> tool_memory_remove_entry_locked t m; free_entries m1 })"

text \<open>What is left allocated is part of the result.\<close>

definition tool_memory_free :: "tool_memory \<Rightarrow> tool_memory option" where
  "tool_memory_free m = do { m1 \<leftarrow> free_entries m;
     Some (tool_memory_zero\<lparr>tm_entry := tm_entry m1, tm_block := tm_block m1, tm_brk := tm_brk m1\<rparr>) }"

text \<open>The text, its source and its block, and the memory with the entry moved to the front.\<close>

definition tool_memory_lookup_locked ::
  "string option \<Rightarrow> tool_memory \<Rightarrow> ((string \<times> tool_memory_source \<times> addr) option \<times> tool_memory) option" where
  "tool_memory_lookup_locked i m = (case tool_memory_find_entry_locked m (of_ptr i) of None \<Rightarrow> Some (None, m)
     | Some a \<Rightarrow> do {
         e \<leftarrow> tm_entry m a;
         (case te_block e of None \<Rightarrow> Some (None, m)
          | Some b \<Rightarrow> do { m1 \<leftarrow> tool_memory_touch a m; k \<leftarrow> tm_block m1 b; Some (Some (tb_dsml k, te_source e, b), m1) }) })"

declare block_unlink_walk.simps [code] tool_memory_prune_locked.simps [code] free_entries.simps [code]

end
