(* ===== verification/ToolMemoryProofs.thy ===== *)
theory ToolMemoryProofs
  imports ToolMemory "HOL-Library.Multiset"
begin

text \<open>
  The memory of tool texts against its specification.  The invariant \<open>tm_inv\<close> ties the heap to the list of its
  entries: the links, the two indexes, the lists and counts of the blocks, the byte counter and the
  absence of anything else in the heap.  Every operation keeps it, returns, and acts on the list of
  texts as the specification says; the locale \<open>text_memory\<close> states that as the interface of the memory, and
  runs of operations are treated inside it.
\<close>

section \<open>The list of entries\<close>

definition first :: "addr list \<Rightarrow> addr option \<Rightarrow> addr option" where
  "first xs n = (case xs of [] \<Rightarrow> n | x # _ \<Rightarrow> Some x)"

definition final :: "addr option \<Rightarrow> addr list \<Rightarrow> addr option" where
  "final p xs = (if xs = [] then p else Some (last xs))"

lemma first_simps [simp]: "first [] n = n" "first (x # xs) n = Some x" "first (xs @ ys) n = first xs (first ys n)"
  by (simp_all add: first_def split: list.splits)

lemma final_simps [simp]: "final p [] = p" "final p (x # xs) = final (Some x) xs" "final p (xs @ ys) = final (final p xs) ys"
  by (auto simp: final_def)

text \<open>The segment \<open>xs\<close> of the doubly linked list between \<open>p\<close> and \<open>n\<close>.\<close>

fun dll :: "(addr \<rightharpoonup> tool_memory_entry) \<Rightarrow> addr option \<Rightarrow> addr list \<Rightarrow> addr option \<Rightarrow> bool" where
  "dll h p [] n = True"
| "dll h p (a # xs) n = ((\<exists>e. h a = Some e \<and> te_prev e = p \<and> te_next e = first xs n) \<and> dll h (Some a) xs n)"

lemma dll_append [simp]: "dll h p (xs @ ys) n \<longleftrightarrow> dll h p xs (first ys n) \<and> dll h (final p xs) ys n"
  by (induction xs arbitrary: p) auto

lemma dll_cong:
  assumes "\<And>a. a \<in> set xs \<Longrightarrow> map_option (\<lambda>e. (te_prev e, te_next e)) (h' a) = map_option (\<lambda>e. (te_prev e, te_next e)) (h a)"
  shows "dll h' p xs n \<longleftrightarrow> dll h p xs n"
proof -
  have *: "(\<exists>e. h' a = Some e \<and> te_prev e = p \<and> te_next e = q) \<longleftrightarrow> (\<exists>e. h a = Some e \<and> te_prev e = p \<and> te_next e = q)"
    if "a \<in> set xs" for a p q
    using assms [OF that] by (cases "h' a"; cases "h a") auto
  from * show ?thesis by (induction xs arbitrary: p) auto
qed

lemma dll_upd [simp]: "u \<notin> set xs \<Longrightarrow> dll (h(u := v)) p xs n \<longleftrightarrow> dll h p xs n"
  by (rule dll_cong) auto

lemma dll_set_next:
  assumes "dll h p (xs @ [x]) n" "distinct (xs @ [x])" "h x = Some e"
  shows "dll (h(x \<mapsto> e\<lparr>te_next := n'\<rparr>)) p (xs @ [x]) n'"
  using assms by auto

lemma dll_set_prev:
  assumes "dll h p (y # ys) n" "distinct (y # ys)" "h y = Some e"
  shows "dll (h(y \<mapsto> e\<lparr>te_prev := p'\<rparr>)) p' (y # ys) n"
  using assms by auto

text \<open>The heap of entries without its links.\<close>

definition strip :: "tool_memory_entry \<Rightarrow> tool_memory_entry" where
  "strip e = e\<lparr>te_prev := None, te_next := None\<rparr>"

definition core :: "(addr \<rightharpoonup> tool_memory_entry) \<Rightarrow> (addr \<rightharpoonup> tool_memory_entry)" where
  "core h = map_option strip \<circ> h"

lemma strip_upd [simp]: "strip (e\<lparr>te_prev := p\<rparr>) = strip e" "strip (e\<lparr>te_next := p\<rparr>) = strip e" "strip (strip e) = strip e"
  by (simp_all add: strip_def)

lemma strip_sel [simp]:
  "te_id (strip e) = te_id e" "te_block (strip e) = te_block e" "te_bytes (strip e) = te_bytes e" "te_source (strip e) = te_source e"
  "te_block_next (strip e) = te_block_next e"
  by (simp_all add: strip_def)

lemma core_upd: "core (h(a := v)) = (core h)(a := map_option strip v)"
  by (auto simp: core_def)

lemma core_same: "h a = Some e \<Longrightarrow> strip e' = strip e \<Longrightarrow> core (h(a \<mapsto> e')) = core h"
  by (auto simp: core_def fun_eq_iff)

definition linked :: "tool_memory \<Rightarrow> addr list \<Rightarrow> bool" where
  "linked m es \<longleftrightarrow> distinct es \<and> dll (tm_entry m) None es None \<and> tm_head m = first es None \<and> tm_tail m = final None es"


text \<open>What the operations on the list leave alone.\<close>

definition same_rest :: "tool_memory \<Rightarrow> tool_memory \<Rightarrow> bool" where
  "same_rest m m' \<longleftrightarrow> core (tm_entry m') = core (tm_entry m) \<and> tm_by_id m' = tm_by_id m \<and> tm_by_block m' = tm_by_block m \<and>
     tm_entries m' = tm_entries m \<and> tm_max_entries m' = tm_max_entries m \<and> tm_bytes m' = tm_bytes m \<and> tm_max_bytes m' = tm_max_bytes m \<and>
     tm_clock m' = tm_clock m \<and> tm_scan_clock m' = tm_scan_clock m \<and> tm_block m' = tm_block m \<and> tm_brk m' = tm_brk m"

lemma same_rest_trans: "same_rest m m' \<Longrightarrow> same_rest m' m'' \<Longrightarrow> same_rest m m''"
  by (simp add: same_rest_def)

lemma unlink_linked:
  assumes "linked m (xs @ a # ys)"
  shows "\<exists>m'. tool_memory_unlink a m = Some m' \<and> same_rest m m' \<and> linked m' (xs @ ys)"
proof -
  from assms obtain e where e: "tm_entry m a = Some e" "te_prev e = final None xs" "te_next e = first ys None"
    and d: "distinct (xs @ a # ys)" "dll (tm_entry m) None xs (Some a)" "dll (tm_entry m) (Some a) ys None"
    and ht: "tm_head m = first xs (Some a)" "tm_tail m = final (Some a) ys"
    by (auto simp: linked_def)
  have s: "strip (e\<lparr>te_prev := None, te_next := None\<rparr>) = strip e" by (simp add: strip_def)
  show ?thesis
  proof (cases xs rule: rev_cases)
    case Nil
    show ?thesis
    proof (cases ys)
      case Nil
      with \<open>xs = []\<close> e ht s show ?thesis
        by (simp add: tool_memory_unlink_def mod_entry_def same_rest_def linked_def core_same)
    next
      case (Cons y zs)
      then obtain f where "tm_entry m y = Some f" using d(3) by auto
      with \<open>xs = []\<close> Cons e ht d s show ?thesis
        by (auto simp: tool_memory_unlink_def mod_entry_def same_rest_def linked_def core_same)
    qed
  next
    case (snoc ws x)
    then obtain f where f: "tm_entry m x = Some f" using d(2) by auto
    show ?thesis
    proof (cases ys)
      case Nil
      with snoc f e ht d s show ?thesis
        by (auto simp: tool_memory_unlink_def mod_entry_def same_rest_def linked_def core_same)
    next
      case (Cons y zs)
      then obtain g where "tm_entry m y = Some g" using d(3) by auto
      with snoc f Cons e ht d s show ?thesis
        by (auto simp: tool_memory_unlink_def mod_entry_def same_rest_def linked_def core_same)
    qed
  qed
qed

lemma link_head_linked:
  assumes "linked m es" "a \<notin> set es" "tm_entry m a = Some e"
  shows "\<exists>m'. tool_memory_link_head a m = Some m' \<and> same_rest m m' \<and> linked m' (a # es)"
proof (cases es)
  case Nil
  with assms show ?thesis
    by (auto simp: tool_memory_link_head_def mod_entry_def same_rest_def linked_def core_same strip_def)
next
  case (Cons y ys)
  then obtain f where "tm_entry m y = Some f" using assms by (auto simp: linked_def)
  with assms Cons show ?thesis
    by (auto simp: tool_memory_link_head_def mod_entry_def same_rest_def linked_def core_same strip_def)
qed

section \<open>The entries of a block\<close>

fun blist :: "(addr \<rightharpoonup> tool_memory_entry) \<Rightarrow> addr option \<Rightarrow> addr list \<Rightarrow> bool" where
  "blist h p [] = (p = None)"
| "blist h p (a # xs) = (p = Some a \<and> (\<exists>e. h a = Some e \<and> blist h (te_block_next e) xs))"

lemma blist_cong:
  "(\<And>a. a \<in> set xs \<Longrightarrow> map_option te_block_next (h' a) = map_option te_block_next (h a)) \<Longrightarrow> blist h' p xs \<longleftrightarrow> blist h p xs"
proof (induction xs arbitrary: p)
  case (Cons a xs)
  have "map_option te_block_next (h' a) = map_option te_block_next (h a)" by (rule Cons.prems) simp
  with Cons.IH Cons.prems show ?case by (cases "h' a"; cases "h a") auto
qed simp

lemma blist_upd [simp]: "u \<notin> set xs \<Longrightarrow> blist (h(u := v)) p xs \<longleftrightarrow> blist h p xs"
  by (rule blist_cong) auto

lemma blist_core [simp]: "blist (core h) p xs \<longleftrightarrow> blist h p xs"
  by (rule blist_cong) (auto simp: core_def strip_def option.map_comp comp_def)

text \<open>Where the walk stops: at the link that leads to the entry.\<close>

definition splice :: "addr \<Rightarrow> addr option \<Rightarrow> addr \<Rightarrow> tool_memory \<Rightarrow> tool_memory option" where
  "splice b holder a m = do {
     e \<leftarrow> tm_entry m a;
     m1 \<leftarrow> write_link b holder (te_block_next e) m;
     mod_entry a (\<lambda>x. x\<lparr>te_block_next := None\<rparr>) m1 }"

lemma walk_splice:
  "read_link b holder m = Some q \<Longrightarrow> blist (tm_entry m) q (us @ a # vs) \<Longrightarrow> a \<notin> set us \<Longrightarrow>
     block_unlink_walk b holder a m = splice b (final holder us) a m"
proof (induction us arbitrary: holder q)
  case Nil
  then show ?case by (subst block_unlink_walk.simps) (simp add: splice_def)
next
  case (Cons u us)
  from Cons.prems obtain e where e: "tm_entry m u = Some e" "q = Some u" "blist (tm_entry m) (te_block_next e) (us @ a # vs)" by auto
  have "read_link b (Some u) m = Some (te_block_next e)" using e by (simp add: read_link_def)
  from Cons.IH [OF this e(3)] Cons.prems have "block_unlink_walk b (Some u) a m = splice b (final (Some u) us) a m" by simp
  then show ?case using Cons.prems e by (subst block_unlink_walk.simps) simp
qed

text \<open>A list of entries with one of them taken out.\<close>

lemma blist_splice:
  assumes "blist h p (us @ a # vs)" "distinct (us @ a # vs)" "h a = Some e"
  shows "us = [] \<Longrightarrow> blist h (te_block_next e) vs"
    and "us = ws @ [x] \<Longrightarrow> h x = Some f \<Longrightarrow> blist (h(x \<mapsto> f\<lparr>te_block_next := te_block_next e\<rparr>)) p (us @ vs)"
proof -
  show "us = [] \<Longrightarrow> blist h (te_block_next e) vs" using assms by auto
  have app: "blist h p (ws @ x # zs) \<Longrightarrow> distinct (ws @ x # zs) \<Longrightarrow> blist g v zs' \<Longrightarrow> (\<And>y. y \<in> set ws \<Longrightarrow> g y = h y) \<Longrightarrow>
      g x = Some (f\<lparr>te_block_next := v\<rparr>) \<Longrightarrow> blist g p (ws @ x # zs')" for g v ws x zs zs' p f
    by (induction ws arbitrary: p) auto
  show "blist (h(x \<mapsto> f\<lparr>te_block_next := te_block_next e\<rparr>)) p (us @ vs)" if us: "us = ws @ [x]" and x: "h x = Some f"
  proof -
    have tail: "blist h q (ws @ x # a # vs) \<Longrightarrow> blist h (te_block_next e) vs" for q ws
      by (induction ws arbitrary: q) (use assms(3) x in auto)
    have v: "blist (h(x \<mapsto> f\<lparr>te_block_next := te_block_next e\<rparr>)) (te_block_next e) vs"
      using tail [of p ws] assms(1,2) us by simp
    have g: "(h(x \<mapsto> f\<lparr>te_block_next := te_block_next e\<rparr>)) y = h y" if "y \<in> set ws" for y using that assms(2) us by auto
    show ?thesis unfolding us
      using app [of p ws x "a # vs" _ _ vs f, OF _ _ v g] assms(1,2) us by (simp add: fun_upd_def)
  qed
qed

section \<open>The invariant\<close>

text \<open>A C string that is not empty.\<close>

definition c_text :: "string \<Rightarrow> bool" where
  "c_text s \<longleftrightarrow> s \<noteq> [] \<and> NUL \<notin> set s"

definition block_ok :: "(addr \<rightharpoonup> tool_memory_entry) \<Rightarrow> addr \<Rightarrow> tool_memory_block \<Rightarrow> addr list \<Rightarrow> bool" where
  "block_ok h b k ls \<longleftrightarrow> blist h (tb_entries k) ls \<and> distinct ls \<and> set ls = {a. \<exists>e. h a = Some e \<and> te_block e = Some b} \<and>
     tb_refs k = int (length ls)"

definition block_fields :: "tool_memory_block \<Rightarrow> bool" where
  "block_fields k \<longleftrightarrow> tb_len k = length (tb_dsml k) \<and> tb_bytes k = word_of_nat (length (tb_dsml k) + 49) \<and> c_text (tb_dsml k)"

definition entry_fields :: "tool_memory_entry \<Rightarrow> bool" where
  "entry_fields e \<longleftrightarrow> te_bytes e = word_of_nat (length (te_id e) + 65) \<and> c_text (te_id e)"

definition shape :: "(addr \<rightharpoonup> tool_memory_entry) \<Rightarrow> (addr \<rightharpoonup> tool_memory_block) \<Rightarrow> bool" where
  "shape h bk \<longleftrightarrow> (\<forall>a e. h a = Some e \<longrightarrow> entry_fields e \<and> (\<exists>b k. te_block e = Some b \<and> bk b = Some k)) \<and>
     (\<forall>b k. bk b = Some k \<longrightarrow> block_fields k \<and> (\<exists>ls. ls \<noteq> [] \<and> block_ok h b k ls))"

definition cost :: "(addr \<rightharpoonup> tool_memory_entry) \<Rightarrow> (addr \<rightharpoonup> tool_memory_block) \<Rightarrow> nat" where
  "cost h bk = (\<Sum>a \<in> dom h. length (te_id (the (h a))) + 65) + (\<Sum>b \<in> dom bk. length (tb_dsml (the (bk b))) + 49)"

definition tm_inv :: "tool_memory \<Rightarrow> addr list \<Rightarrow> bool" where
  "tm_inv m es \<longleftrightarrow> linked m es \<and> dom (tm_entry m) = set es \<and> finite (dom (tm_block m)) \<and> shape (core (tm_entry m)) (tm_block m) \<and>
     (\<forall>i a. tm_by_id m i = Some a \<longleftrightarrow> (\<exists>e. core (tm_entry m) a = Some e \<and> te_id e = i)) \<and>
     (\<forall>d b. tm_by_block m d = Some b \<longleftrightarrow> (\<exists>k. tm_block m b = Some k \<and> tb_dsml k = d)) \<and>
     tm_entries m = int (length es) \<and> unat (tm_bytes m) = cost (core (tm_entry m)) (tm_block m) \<and>
     (\<forall>a \<in> dom (tm_entry m) \<union> dom (tm_block m). a < tm_brk m)"

text \<open>A change that concerns the entries of one block only.\<close>

lemma shape_change:
  assumes s: "shape h bk"
    and ent: "\<And>y e. h' y = Some e \<Longrightarrow> entry_fields e \<and> (te_block e = Some b \<or> h y = Some e)"
    and oth: "\<And>y e. h y = Some e \<Longrightarrow> te_block e \<noteq> Some b \<Longrightarrow> h' y = Some e"
    and blk: "block_ok h' b k ls" "block_fields k"
  shows "shape h' (bk(b := if ls = [] then None else Some k))"
proof -
  have mem: "y \<in> set ls \<longleftrightarrow> (\<exists>e. h' y = Some e \<and> te_block e = Some b)" for y using blk(1) by (auto simp: block_ok_def)
  have "entry_fields e \<and> (\<exists>c j. te_block e = Some c \<and> (bk(b := if ls = [] then None else Some k)) c = Some j)" if y: "h' y = Some e" for y e
  proof (cases "te_block e = Some b")
    case True
    then show ?thesis using ent [OF y] mem [of y] y by auto
  next
    case False
    then have "h y = Some e" using ent [OF y] by blast
    then obtain c j where "te_block e = Some c" "bk c = Some j" using s unfolding shape_def by blast
    then show ?thesis using False ent [OF y] by auto
  qed
  moreover have "block_fields j \<and> (\<exists>ls. ls \<noteq> [] \<and> block_ok h' c j ls)" if c: "c \<noteq> b" "bk c = Some j" for c j
  proof -
    obtain ls' where l: "block_fields j" "ls' \<noteq> []" "block_ok h c j ls'" using s c(2) unfolding shape_def by blast
    have same: "h' y = h y" if "y \<in> set ls'" for y using that l(3) c(1) oth [of y] by (auto simp: block_ok_def)
    have "blist h' (tb_entries j) ls' = blist h (tb_entries j) ls'" by (rule blist_cong) (simp add: same)
    moreover have "{y. \<exists>e. h' y = Some e \<and> te_block e = Some c} = {y. \<exists>e. h y = Some e \<and> te_block e = Some c}"
      using c(1) ent oth by (fastforce)
    ultimately have "block_ok h' c j ls'" using l(3) by (simp add: block_ok_def)
    with l show ?thesis by blast
  qed
  ultimately show ?thesis using blk unfolding shape_def by auto
qed

text \<open>Taking an entry out of the list of its block, of the count of its block, and out of the heap.\<close>

lemma block_ok_remove:
  assumes ok: "block_ok h b k (us @ a # vs)" and a: "h a = Some e"
  shows "us = [] \<Longrightarrow> block_ok (h(a := None)) b (k\<lparr>tb_entries := te_block_next e, tb_refs := tb_refs k - 1\<rparr>) vs"
    and "us = ws @ [x] \<Longrightarrow> h x = Some f \<Longrightarrow>
      block_ok (h(x \<mapsto> f\<lparr>te_block_next := te_block_next e\<rparr>, a := None)) b (k\<lparr>tb_refs := tb_refs k - 1\<rparr>) (us @ vs)"
proof -
  have d: "distinct (us @ a # vs)" "blist h (tb_entries k) (us @ a # vs)" and r: "tb_refs k = int (length (us @ a # vs))"
    using ok by (simp_all add: block_ok_def)
  have mem: "y \<in> set (us @ a # vs) \<longleftrightarrow> (\<exists>e'. h y = Some e' \<and> te_block e' = Some b)" for y
    using ok by (auto simp: block_ok_def)
  show "block_ok (h(a := None)) b (k\<lparr>tb_entries := te_block_next e, tb_refs := tb_refs k - 1\<rparr>) vs" if "us = []"
  proof -
    have "set vs = {y. \<exists>e'. (h(a := None)) y = Some e' \<and> te_block e' = Some b}" using mem d(1) that by auto
    then show ?thesis using blist_splice(1) [OF d(2,1) a that] d(1) r that by (simp add: block_ok_def)
  qed
  show "block_ok (h(x \<mapsto> f\<lparr>te_block_next := te_block_next e\<rparr>, a := None)) b (k\<lparr>tb_refs := tb_refs k - 1\<rparr>) (us @ vs)"
    if u: "us = ws @ [x]" and x: "h x = Some f"
  proof -
    let ?h = "h(x \<mapsto> f\<lparr>te_block_next := te_block_next e\<rparr>)"
    have "blist ?h (tb_entries k) (us @ vs)" by (rule blist_splice(2) [OF d(2,1) a u x])
    then have bl: "blist (?h(a := None)) (tb_entries k) (us @ vs)" using d(1) by simp
    have "(y \<in> set (us @ vs)) = (\<exists>e'. (?h(a := None)) y = Some e' \<and> te_block e' = Some b)" for y
    proof -
      have "y \<in> set (us @ vs) \<longleftrightarrow> y \<in> set (us @ a # vs) \<and> y \<noteq> a" using d(1) by auto
      also have "\<dots> \<longleftrightarrow> (\<exists>e'. (?h(a := None)) y = Some e' \<and> te_block e' = Some b)" using mem [of y] x by (auto simp del: set_append)
      finally show ?thesis .
    qed
    then have "set (us @ vs) = {y. \<exists>e'. (?h(a := None)) y = Some e' \<and> te_block e' = Some b}" by blast
    then show ?thesis using bl d(1) r by (simp add: block_ok_def)
  qed
qed

lemma cost_remove_entry:
  assumes "finite (dom h)" "h a = Some e" "\<And>y. y \<noteq> a \<Longrightarrow> map_option te_id (h' y) = map_option te_id (h y)" "h' a = None"
  shows "cost h bk = cost h' bk + (length (te_id e) + 65)"
proof -
  have dm: "dom h = insert a (dom h')"
  proof -
    have "y \<in> dom h \<longleftrightarrow> y = a \<or> y \<in> dom h'" for y
      using assms(2,4) assms(3) [of y] by (cases "y = a"; cases "h y"; cases "h' y") auto
    then show ?thesis by blast
  qed
  have "(\<Sum>y \<in> dom h'. length (te_id (the (h' y))) + 65) = (\<Sum>y \<in> dom h'. length (te_id (the (h y))) + 65)"
  proof (rule sum.cong)
    fix y assume "y \<in> dom h'"
    then have "y \<noteq> a" using assms(4) by auto
    then show "length (te_id (the (h' y))) + 65 = length (te_id (the (h y))) + 65"
      using assms(3) [of y] \<open>y \<in> dom h'\<close> by (cases "h y"; cases "h' y") auto
  qed simp
  moreover have "finite (dom h')" "a \<notin> dom h'" using assms(1,4) dm by auto
  ultimately show ?thesis using assms(2) dm by (simp add: cost_def)
qed

lemma cost_remove_block:
  assumes "finite (dom bk)" "bk b = Some k"
  shows "cost h bk = cost h (bk(b := None)) + (length (tb_dsml k) + 49)"
proof -
  have "(\<Sum>y \<in> dom bk - {b}. length (tb_dsml (the ((bk(b := None)) y))) + 49) = (\<Sum>y \<in> dom bk - {b}. length (tb_dsml (the (bk y))) + 49)"
    by (rule sum.cong) auto
  moreover have "(\<Sum>y \<in> dom bk. length (tb_dsml (the (bk y))) + 49) = length (tb_dsml k) + 49 + (\<Sum>y \<in> dom bk - {b}. length (tb_dsml (the (bk y))) + 49)"
    by (subst sum.remove [of _ b]) (use assms in auto)
  ultimately show ?thesis by (simp add: cost_def dom_fun_upd)
qed

lemma cost_same_block:
  assumes "bk b = Some k" "tb_dsml k' = tb_dsml k"
  shows "cost h (bk(b \<mapsto> k')) = cost h bk"
proof -
  have "dom (bk(b \<mapsto> k')) = dom bk" using assms by auto
  then show ?thesis using assms by (auto simp: cost_def intro!: sum.cong)
qed

section \<open>Removing an entry\<close>

definition no_link :: "tool_memory_entry \<Rightarrow> tool_memory_entry" where
  "no_link e = (strip e)\<lparr>te_block_next := None\<rparr>"

text \<open>What a user of the memory sees of an entry: its id, its text and its source.\<close>

definition view :: "tool_memory \<Rightarrow> addr \<Rightarrow> (string \<times> string \<times> tool_memory_source) option" where
  "view m a = do { e \<leftarrow> core (tm_entry m) a; b \<leftarrow> te_block e; k \<leftarrow> tm_block m b; Some (te_id e, tb_dsml k, te_source e) }"

lemma core_Some: "core h a = Some e \<longleftrightarrow> (\<exists>f. h a = Some f \<and> e = strip f)"
  by (auto simp: core_def)

lemma dom_core [simp]: "dom (core h) = dom h"
  by (auto simp: core_def dom_def)

lemma unat_cost: "unat (w :: u64) = c + n \<Longrightarrow> unat (bytes_sub w (word_of_nat n)) = c"
proof -
  assume w: "unat w = c + n"
  then have n: "unat (word_of_nat n :: u64) = n" using unat_u64_less [of w] by (simp add: unat_of_nat)
  then have "(word_of_nat n :: u64) \<le> w" using w by (simp add: word_le_nat_alt)
  then show ?thesis using w n by (simp add: bytes_sub_def unat_sub_le)
qed

lemma remove_finish:
  assumes inv: "tm_inv m (xs @ a # ys)" and e: "core (tm_entry m) a = Some e" "te_block e = Some b" "tm_block m b = Some k"
    and h': "core (tm_entry m') a = None" "\<And>y. y \<noteq> a \<Longrightarrow> map_option no_link (core (tm_entry m') y) = map_option no_link (core (tm_entry m) y)"
      "\<And>y f. y \<noteq> a \<Longrightarrow> core (tm_entry m) y = Some f \<Longrightarrow> te_block f \<noteq> Some b \<Longrightarrow> core (tm_entry m') y = Some f"
    and k': "block_ok (core (tm_entry m')) b k' zs" "tb_dsml k' = tb_dsml k" "block_fields k'"
      "tm_block m' = (tm_block m)(b := if zs = [] then None else Some k')"
    and m': "linked m' (xs @ ys)" "tm_by_id m' = (tm_by_id m)(te_id e := None)"
      "tm_by_block m' = (if zs = [] then (tm_by_block m)(tb_dsml k := None) else tm_by_block m)"
      "tm_entries m' = tm_entries m - 1" "tm_brk m' = tm_brk m"
      "tm_bytes m' = (if zs = [] then bytes_sub (bytes_sub (tm_bytes m) (te_bytes e)) (tb_bytes k) else bytes_sub (tm_bytes m) (te_bytes e))"
  shows "tm_inv m' (xs @ ys)" "y \<noteq> a \<Longrightarrow> view m' y = view m y"
proof -
  let ?h = "core (tm_entry m)" and ?h' = "core (tm_entry m')"
  have fld: "y \<noteq> a \<Longrightarrow> ?h' y = Some f' \<Longrightarrow> \<exists>f. ?h y = Some f \<and> te_id f' = te_id f \<and> te_block f' = te_block f \<and> te_source f' = te_source f \<and> te_bytes f' = te_bytes f"
    "y \<noteq> a \<Longrightarrow> ?h y = Some f \<Longrightarrow> \<exists>f'. ?h' y = Some f' \<and> te_id f' = te_id f \<and> te_block f' = te_block f \<and> te_source f' = te_source f \<and> te_bytes f' = te_bytes f" for y f f'
    using h'(2) [of y] by (cases "?h y"; cases "?h' y"; auto simp: no_link_def strip_def dest!: arg_cong [of _ _ "\<lambda>e. (te_id e, te_block e, te_source e, te_bytes e)"])+
  have dom: "dom (tm_entry m') = set (xs @ ys)"
  proof -
    have "?h' y \<noteq> None \<longleftrightarrow> ?h y \<noteq> None \<and> y \<noteq> a" for y
      using h'(1) h'(2) [of y] by (cases "y = a"; cases "?h y"; cases "?h' y") auto
    then have "dom ?h' = dom ?h - {a}" unfolding dom_def by blast
    then have "dom (tm_entry m') = dom (tm_entry m) - {a}" by simp
    then show ?thesis using inv by (auto simp: tm_inv_def linked_def)
  qed
  have sh: "shape ?h (tm_block m)" using inv by (simp add: tm_inv_def)
  have ef: "entry_fields f" if "?h y = Some f" for y f using sh that by (auto simp: shape_def)
  have "shape ?h' (tm_block m')"
    unfolding k'(4)
  proof (rule shape_change [OF sh _ _ k'(1,3)])
    show "entry_fields f \<and> (te_block f = Some b \<or> ?h y = Some f)" if f: "?h' y = Some f" for y f
    proof -
      have ya: "y \<noteq> a" using f h'(1) by auto
      obtain g where g: "?h y = Some g" "te_id f = te_id g" "te_block f = te_block g" "te_bytes f = te_bytes g" using fld(1) [OF ya f] by blast
      then show ?thesis using ef [OF g(1)] h'(3) [OF ya g(1)] f by (auto simp: entry_fields_def)
    qed
    show "?h' y = Some f" if "?h y = Some f" "te_block f \<noteq> Some b" for y f
      using that h'(3) [of y f] e by (cases "y = a") auto
  qed
  moreover have "tm_by_id m' i = Some y \<longleftrightarrow> (\<exists>f. ?h' y = Some f \<and> te_id f = i)" for i y
  proof -
    have o: "tm_by_id m i = Some y \<longleftrightarrow> (\<exists>f. ?h y = Some f \<and> te_id f = i)" "tm_by_id m (te_id e) = Some a" for i y
      using inv e by (auto simp: tm_inv_def)
    show ?thesis
    proof (cases "y = a")
      case True
      then show ?thesis using o(1) [of i a] e(1) h'(1) m'(2) by auto
    next
      case False
      have "(\<exists>f. ?h' y = Some f \<and> te_id f = i) \<longleftrightarrow> tm_by_id m i = Some y" using o(1) fld [OF False] by metis
      then show ?thesis using m'(2) o(2) False by auto
    qed
  qed
  moreover have "tm_by_block m' d = Some c \<longleftrightarrow> (\<exists>j. tm_block m' c = Some j \<and> tb_dsml j = d)" for d c
  proof -
    have o: "tm_by_block m d = Some c \<longleftrightarrow> (\<exists>j. tm_block m c = Some j \<and> tb_dsml j = d)" for d c using inv by (auto simp: tm_inv_def)
    then have "tm_by_block m (tb_dsml k) = Some b" using e(3) by blast
    then show ?thesis using o [of d c] e(3) k'(2,4) m'(3) by (cases "c = b") auto
  qed
  moreover have fin: "finite (dom (tm_block m'))" using inv k'(4) by (auto simp: tm_inv_def)
  moreover have "unat (tm_bytes m') = cost ?h' (tm_block m')"
  proof -
    have fe: "finite (dom ?h)" using inv by (simp add: tm_inv_def)
    have c1: "cost ?h bk = cost ?h' bk + (length (te_id e) + 65)" for bk
      using fld h'(1) by (intro cost_remove_entry [OF fe e(1)]) (metis option.exhaust option.simps(8,9), simp)
    have b1: "te_bytes e = word_of_nat (length (te_id e) + 65)" using ef [OF e(1)] by (simp add: entry_fields_def)
    have "unat (tm_bytes m) = cost ?h' (tm_block m) + (length (te_id e) + 65)" using inv c1 by (simp add: tm_inv_def)
    from unat_cost [OF this] have s1: "unat (bytes_sub (tm_bytes m) (te_bytes e)) = cost ?h' (tm_block m)" by (simp only: b1)
    have b2: "tb_bytes k = word_of_nat (length (tb_dsml k) + 49)" using sh e(3) by (auto simp: shape_def block_fields_def)
    show ?thesis
    proof (cases "zs = []")
      case True
      have "cost ?h' (tm_block m) = cost ?h' (tm_block m') + (length (tb_dsml k) + 49)"
        using cost_remove_block [of "tm_block m" b k] e(3) inv k'(4) True by (simp add: tm_inv_def)
      with s1 have "unat (bytes_sub (tm_bytes m) (te_bytes e)) = cost ?h' (tm_block m') + (length (tb_dsml k) + 49)" by simp
      from unat_cost [OF this] True m'(6) b2 show ?thesis by simp
    next
      case False
      then show ?thesis using cost_same_block [of "tm_block m" b k k'] e(3) k'(2) s1 k'(4) m'(6) by simp
    qed
  qed
  moreover have "c < tm_brk m'" if "c \<in> dom (tm_entry m') \<union> dom (tm_block m')" for c
    using that inv dom m'(5) k'(4) e(3) by (auto simp: tm_inv_def split: if_splits)
  ultimately show "tm_inv m' (xs @ ys)" using inv m'(1,4) dom by (auto simp: tm_inv_def)
  show "view m' y = view m y" if ya: "y \<noteq> a"
  proof (cases "?h y")
    case None
    then have "?h' y = None" using fld(1) [OF ya] by (cases "?h' y") auto
    then show ?thesis using None by (simp add: view_def)
  next
    case (Some f)
    obtain f' where f': "?h' y = Some f'" "te_id f' = te_id f" "te_block f' = te_block f" "te_source f' = te_source f"
      using fld(2) [OF ya Some] by blast
    obtain c j where c: "te_block f = Some c" "tm_block m c = Some j" using sh Some unfolding shape_def by blast
    have "map_option tb_dsml (tm_block m' c) = Some (tb_dsml j)"
    proof (cases "c = b")
      case True
      then have "y \<in> set zs" using k'(1) f' c(1) by (auto simp: block_ok_def)
      then show ?thesis using True c(2) e(3) k'(2,4) by auto
    qed (use c k'(4) in simp)
    then show ?thesis using Some f' c by (auto simp: view_def)
  qed
qed

lemma linked_cong:
  assumes "\<And>a. a \<in> set es \<Longrightarrow> map_option (\<lambda>e. (te_prev e, te_next e)) (tm_entry m' a) = map_option (\<lambda>e. (te_prev e, te_next e)) (tm_entry m a)"
    "tm_head m' = tm_head m" "tm_tail m' = tm_tail m" "linked m es"
  shows "linked m' es"
  using dll_cong [of es "tm_entry m'" "tm_entry m"] assms by (simp add: linked_def)

text \<open>The state in the middle of the removal: the entry is out of the list but still in the heap.\<close>

definition unlinked ::
  "tool_memory \<Rightarrow> addr list \<Rightarrow> addr \<Rightarrow> tool_memory_entry \<Rightarrow> addr \<Rightarrow> tool_memory_block \<Rightarrow> addr list \<Rightarrow> addr list \<Rightarrow> tool_memory \<Rightarrow> bool" where
  "unlinked m zs a e b k us vs m1 \<longleftrightarrow> tm_entry m a = Some e \<and> te_block e = Some b \<and> tm_block m b = Some k \<and> block_fields k \<and>
     block_ok (core (tm_entry m)) b k (us @ a # vs) \<and> a \<notin> set us \<and> a \<notin> set zs \<and>
     tool_memory_unlink a (m\<lparr>tm_by_id := (tm_by_id m)(te_id e := None)\<rparr>) = Some m1 \<and> linked m1 zs \<and>
     same_rest (m\<lparr>tm_by_id := (tm_by_id m)(te_id e := None)\<rparr>) m1 \<and>
     tool_block_unlink_entry b a m1 = splice b (final None us) a m1 \<and> tm_entries m > 0"

lemma unlinked_exists:
  assumes inv: "tm_inv m (xs @ a # ys)"
  shows "\<exists>e b k us vs m1. unlinked m (xs @ ys) a e b k us vs m1"
proof -
  have lk: "linked m (xs @ a # ys)" and sh: "shape (core (tm_entry m)) (tm_block m)" and n: "tm_entries m = int (length (xs @ a # ys))"
    using inv by (simp_all add: tm_inv_def)
  obtain e where e: "tm_entry m a = Some e" using lk by (auto simp: linked_def)
  then have ce: "core (tm_entry m) a = Some (strip e)" by (simp add: core_def)
  obtain b k where b: "te_block e = Some b" "tm_block m b = Some k" using sh ce unfolding shape_def by fastforce
  obtain ls where ls: "block_ok (core (tm_entry m)) b k ls" and kf: "block_fields k" using sh b(2) unfolding shape_def by blast
  have "a \<in> set ls" using ls ce b(1) by (auto simp: block_ok_def)
  then obtain us vs where l: "ls = us @ a # vs" "a \<notin> set us" by (meson split_list_first)
  let ?m0 = "m\<lparr>tm_by_id := (tm_by_id m)(te_id e := None)\<rparr>"
  have "linked ?m0 (xs @ a # ys)" using lk by (simp add: linked_def)
  then obtain m1 where m1: "tool_memory_unlink a ?m0 = Some m1" "same_rest ?m0 m1" "linked m1 (xs @ ys)" using unlink_linked by blast
  have bl: "blist (tm_entry m1) (tb_entries k) (us @ a # vs)"
    using ls l m1(2) blist_core [of "tm_entry m1"] by (simp add: block_ok_def same_rest_def)
  have w: "tool_block_unlink_entry b a m1 = splice b (final None us) a m1"
    unfolding tool_block_unlink_entry_def
    by (rule walk_splice [OF _ bl l(2)]) (use m1(2) b in \<open>simp add: read_link_def same_rest_def\<close>)
  have "unlinked m (xs @ ys) a e b k us vs m1"
    unfolding unlinked_def using e b kf ls l m1 w n lk by (auto simp: linked_def)
  then show ?thesis by blast
qed

lemma unlinked_facts:
  assumes "unlinked m zs a e b k us vs m1"
  shows "core (tm_entry m1) = core (tm_entry m)" "tm_block m1 = tm_block m" "tm_by_id m1 = (tm_by_id m)(te_id e := None)"
    "tm_by_block m1 = tm_by_block m" "tm_entries m1 = tm_entries m" "tm_bytes m1 = tm_bytes m" "tm_brk m1 = tm_brk m"
    "tm_max_entries m1 = tm_max_entries m" "tm_max_bytes m1 = tm_max_bytes m" "tb_refs k = int (length (us @ vs)) + 1"
    "core (tm_entry m) a = Some (strip e)" "\<exists>e1. tm_entry m1 a = Some e1 \<and> te_block_next e1 = te_block_next e"
proof -
  note u = assms [unfolded unlinked_def]
  show c: "core (tm_entry m1) = core (tm_entry m)" and "tm_block m1 = tm_block m" "tm_by_id m1 = (tm_by_id m)(te_id e := None)"
    "tm_by_block m1 = tm_by_block m" "tm_entries m1 = tm_entries m" "tm_bytes m1 = tm_bytes m" "tm_brk m1 = tm_brk m"
    "tm_max_entries m1 = tm_max_entries m" "tm_max_bytes m1 = tm_max_bytes m"
    using u by (simp_all add: same_rest_def)
  show "tb_refs k = int (length (us @ vs)) + 1" using u by (simp add: block_ok_def)
  show ce: "core (tm_entry m) a = Some (strip e)" using u by (simp add: core_def)
  from ce [folded c] obtain e1 where "tm_entry m1 a = Some e1" "strip e1 = strip e" by (auto simp: core_Some)
  then show "\<exists>e1. tm_entry m1 a = Some e1 \<and> te_block_next e1 = te_block_next e" using strip_sel(5) by metis
qed

lemma remove_first:
  assumes inv: "tm_inv m (xs @ a # ys)" and u: "unlinked m (xs @ ys) a e b k [] vs m1"
  shows "\<exists>m'. tool_memory_remove_entry_locked a m = Some m' \<and> tm_inv m' (xs @ ys) \<and> (\<forall>y. y \<noteq> a \<longrightarrow> view m' y = view m y) \<and>
    tm_max_entries m' = tm_max_entries m \<and> tm_max_bytes m' = tm_max_bytes m"
proof -
  note f = unlinked_facts [OF u] and u' = u [unfolded unlinked_def]
  let ?k = "k\<lparr>tb_entries := te_block_next e, tb_refs := tb_refs k - 1\<rparr>"
  have "\<exists>m'. tool_memory_remove_entry_locked a m = Some m' \<and> tm_entry m' = (tm_entry m1)(a := None) \<and>
      tm_block m' = (tm_block m)(b := if vs = [] then None else Some ?k) \<and> tm_by_id m' = (tm_by_id m)(te_id e := None) \<and>
      tm_by_block m' = (if vs = [] then (tm_by_block m)(tb_dsml k := None) else tm_by_block m) \<and> tm_entries m' = tm_entries m - 1 \<and>
      tm_brk m' = tm_brk m \<and> tm_head m' = tm_head m1 \<and> tm_tail m' = tm_tail m1 \<and> tm_max_entries m' = tm_max_entries m \<and>
      tm_max_bytes m' = tm_max_bytes m \<and>
      tm_bytes m' = (if vs = [] then bytes_sub (bytes_sub (tm_bytes m) (te_bytes e)) (tb_bytes k) else bytes_sub (tm_bytes m) (te_bytes e))"
    using f(12) u' f(2-10)
    by (elim exE conjE) (simp add: tool_memory_remove_entry_locked_def splice_def write_link_def mod_block_def mod_entry_def tool_memory_release_block_locked_def)
  then obtain m' where m': "tool_memory_remove_entry_locked a m = Some m'" "tm_entry m' = (tm_entry m1)(a := None)"
      "tm_block m' = (tm_block m)(b := if vs = [] then None else Some ?k)" "tm_by_id m' = (tm_by_id m)(te_id e := None)"
      "tm_by_block m' = (if vs = [] then (tm_by_block m)(tb_dsml k := None) else tm_by_block m)" "tm_entries m' = tm_entries m - 1"
      "tm_brk m' = tm_brk m" "tm_head m' = tm_head m1" "tm_tail m' = tm_tail m1" "tm_max_entries m' = tm_max_entries m" "tm_max_bytes m' = tm_max_bytes m"
      "tm_bytes m' = (if vs = [] then bytes_sub (bytes_sub (tm_bytes m) (te_bytes e)) (tb_bytes k) else bytes_sub (tm_bytes m) (te_bytes e))"
    by blast
  have c': "core (tm_entry m') = (core (tm_entry m))(a := None)" unfolding m'(2) core_upd f(1) by simp
  have ok: "block_ok (core (tm_entry m')) b ?k vs" unfolding c' using block_ok_remove(1) [of "core (tm_entry m)" b k "[]" a vs "strip e"] f(11) u' by simp
  have lk': "linked m' (xs @ ys)" by (rule linked_cong [OF _ m'(8,9)]) (use m'(2) u' in auto)
  have kb: "te_block (strip e) = Some b" "tm_block m b = Some k" "tb_dsml ?k = tb_dsml k" "block_fields ?k" using u' by (simp_all add: block_fields_def)
  have "tm_inv m' (xs @ ys)" "\<And>y. y \<noteq> a \<Longrightarrow> view m' y = view m y"
    by (rule remove_finish [OF inv f(11) kb(1,2) _ _ _ ok kb(3,4) m'(3) lk' _ m'(5-7)]; simp add: c' m'(4,12))+
  then show ?thesis using m'(1,10,11) by blast
qed

lemma remove_later:
  assumes inv: "tm_inv m (xs @ a # ys)" and u: "unlinked m (xs @ ys) a e b k (ws @ [x]) vs m1"
  shows "\<exists>m'. tool_memory_remove_entry_locked a m = Some m' \<and> tm_inv m' (xs @ ys) \<and> (\<forall>y. y \<noteq> a \<longrightarrow> view m' y = view m y) \<and>
    tm_max_entries m' = tm_max_entries m \<and> tm_max_bytes m' = tm_max_bytes m"
proof -
  note f = unlinked_facts [OF u] and u' = u [unfolded unlinked_def]
  have xa: "x \<noteq> a" using u' by auto
  have "x \<in> set ((ws @ [x]) @ a # vs)" by simp
  then obtain g where g: "core (tm_entry m) x = Some g" "te_block g = Some b" using u' unfolding block_ok_def by blast
  then obtain z where z: "tm_entry m1 x = Some z" "strip z = g" unfolding f(1) [symmetric] by (auto simp: core_Some)
  let ?k = "k\<lparr>tb_refs := tb_refs k - 1\<rparr>"
  have "\<exists>m'. tool_memory_remove_entry_locked a m = Some m' \<and>
      tm_entry m' = (tm_entry m1)(x \<mapsto> z\<lparr>te_block_next := te_block_next e\<rparr>, a := None) \<and>
      tm_block m' = (tm_block m)(b \<mapsto> ?k) \<and> tm_by_id m' = (tm_by_id m)(te_id e := None) \<and>
      tm_by_block m' = tm_by_block m \<and> tm_entries m' = tm_entries m - 1 \<and>
      tm_brk m' = tm_brk m \<and> tm_head m' = tm_head m1 \<and> tm_tail m' = tm_tail m1 \<and> tm_max_entries m' = tm_max_entries m \<and>
      tm_max_bytes m' = tm_max_bytes m \<and> tm_bytes m' = bytes_sub (tm_bytes m) (te_bytes e)"
    using f(12) u' f(2-10) z(1) xa
    by (elim exE conjE) (simp add: tool_memory_remove_entry_locked_def splice_def write_link_def mod_block_def mod_entry_def tool_memory_release_block_locked_def)
  then obtain m' where m': "tool_memory_remove_entry_locked a m = Some m'"
      "tm_entry m' = (tm_entry m1)(x \<mapsto> z\<lparr>te_block_next := te_block_next e\<rparr>, a := None)"
      "tm_block m' = (tm_block m)(b \<mapsto> ?k)" "tm_by_id m' = (tm_by_id m)(te_id e := None)"
      "tm_by_block m' = tm_by_block m" "tm_entries m' = tm_entries m - 1"
      "tm_brk m' = tm_brk m" "tm_head m' = tm_head m1" "tm_tail m' = tm_tail m1" "tm_max_entries m' = tm_max_entries m" "tm_max_bytes m' = tm_max_bytes m"
      "tm_bytes m' = bytes_sub (tm_bytes m) (te_bytes e)"
    by blast
  have sf: "strip (z\<lparr>te_block_next := v\<rparr>) = g\<lparr>te_block_next := v\<rparr>" for v using z(2) by (auto simp: strip_def)
  have c': "core (tm_entry m') = (core (tm_entry m))(x \<mapsto> g\<lparr>te_block_next := te_block_next e\<rparr>, a := None)"
    unfolding m'(2) core_upd f(1) using sf by simp
  have ok: "block_ok (core (tm_entry m')) b ?k ((ws @ [x]) @ vs)"
    unfolding c' using block_ok_remove(2) [of "core (tm_entry m)" b k "ws @ [x]" a vs "strip e" ws x g] f(11) g(1) u' by simp
  have same: "core (tm_entry m') a = None" "y \<noteq> a \<Longrightarrow> map_option no_link (core (tm_entry m') y) = map_option no_link (core (tm_entry m) y)"
      "y \<noteq> a \<Longrightarrow> core (tm_entry m) y = Some h \<Longrightarrow> te_block h \<noteq> Some b \<Longrightarrow> core (tm_entry m') y = Some h" for y h
    unfolding c' using g by (auto simp: no_link_def strip_def)
  have lk': "linked m' (xs @ ys)" by (rule linked_cong [OF _ m'(8,9)]) (use m'(2) u' z in auto)
  have kb: "te_block (strip e) = Some b" "tm_block m b = Some k" "tb_dsml ?k = tb_dsml k" "block_fields ?k" using u' by (simp_all add: block_fields_def)
  have "tm_inv m' (xs @ ys)" "\<And>y. y \<noteq> a \<Longrightarrow> view m' y = view m y"
    by (rule remove_finish [OF inv f(11) kb(1,2) same ok kb(3,4) _ lk' _ _ m'(6,7)]; simp add: m'(3,4,5,12))+
  then show ?thesis using m'(1,10,11) by blast
qed

lemma remove_entry_inv:
  assumes "tm_inv m (xs @ a # ys)"
  shows "\<exists>m'. tool_memory_remove_entry_locked a m = Some m' \<and> tm_inv m' (xs @ ys) \<and> (\<forall>y. y \<noteq> a \<longrightarrow> view m' y = view m y) \<and>
    tm_max_entries m' = tm_max_entries m \<and> tm_max_bytes m' = tm_max_bytes m"
proof -
  obtain e b k us vs m1 where u: "unlinked m (xs @ ys) a e b k us vs m1" using unlinked_exists [OF assms] by blast
  then show ?thesis using remove_first [OF assms] remove_later [OF assms] by (cases us rule: rev_cases) blast+
qed

section \<open>Changes that keep the invariant\<close>

definition key :: "tool_memory_entry \<Rightarrow> string \<times> addr option \<times> u64 \<times> addr option" where
  "key e = (te_id e, te_block e, te_bytes e, te_block_next e)"

definition same_keys :: "(addr \<rightharpoonup> tool_memory_entry) \<Rightarrow> (addr \<rightharpoonup> tool_memory_entry) \<Rightarrow> bool" where
  "same_keys h h' \<longleftrightarrow> (\<forall>a. map_option key (h' a) = map_option key (h a))"

lemma same_keysD:
  assumes "same_keys h h'"
  shows "(\<exists>e. h' a = Some e \<and> P (te_id e) (te_block e) (te_bytes e) (te_block_next e)) \<longleftrightarrow>
    (\<exists>e. h a = Some e \<and> P (te_id e) (te_block e) (te_bytes e) (te_block_next e))"
proof -
  have "map_option key (h' a) = map_option key (h a)" using assms by (simp add: same_keys_def)
  then show ?thesis by (cases "h' a"; cases "h a") (auto simp: key_def)
qed

lemma same_keysI: "same_keys h h' \<Longrightarrow> map_option key (h' a) = map_option key (h a)"
  by (simp add: same_keys_def)

lemma same_keys_dom: "same_keys h h' \<Longrightarrow> dom h' = dom h"
  using same_keysD [of h h' _ "\<lambda>_ _ _ _. True"] by (auto simp: dom_def)

lemma block_ok_keys: "same_keys h h' \<Longrightarrow> block_ok h b k ls \<Longrightarrow> block_ok h' b k ls"
proof -
  assume s: "same_keys h h'" and ok: "block_ok h b k ls"
  have "map_option te_block_next (h' a) = map_option te_block_next (h a)" for a
    using arg_cong [OF same_keysI [OF s], of "map_option (snd \<circ> snd \<circ> snd)" a] by (simp add: option.map_comp comp_def key_def)
  then have "blist h' (tb_entries k) ls" using ok blist_cong [of ls h' h] by (simp add: block_ok_def)
  moreover have "{a. \<exists>e. h' a = Some e \<and> te_block e = Some b} = {a. \<exists>e. h a = Some e \<and> te_block e = Some b}"
    using same_keysD [OF s, of _ "\<lambda>_ c _ _. c = Some b"] by auto
  ultimately show "block_ok h' b k ls" using ok by (simp add: block_ok_def)
qed

lemma shape_keys:
  assumes s: "same_keys h h'" and sh: "shape h bk"
  shows "shape h' bk"
proof -
  have "entry_fields e \<and> (\<exists>b k. te_block e = Some b \<and> bk b = Some k)" if he: "h' a = Some e" for a e
  proof -
    obtain f where "h a = Some f" "key f = key e" using same_keysI [OF s, of a] he by (cases "h a") auto
    moreover then have "te_id f = te_id e" "te_block f = te_block e" "te_bytes f = te_bytes e" by (simp_all add: key_def)
    moreover have "entry_fields f \<and> (\<exists>b k. te_block f = Some b \<and> bk b = Some k)" using sh calculation(1) unfolding shape_def by blast
    ultimately show ?thesis by (simp add: entry_fields_def)
  qed
  then show ?thesis using sh block_ok_keys [OF s] unfolding shape_def by meson
qed

lemma cost_keys: "same_keys h h' \<Longrightarrow> cost h' bk = cost h bk"
proof -
  assume s: "same_keys h h'"
  have "length (te_id (the (h' a))) = length (te_id (the (h a)))" if "a \<in> dom h" for a
    using same_keysI [OF s, of a] that by (cases "h' a") (auto simp: key_def)
  then show ?thesis using same_keys_dom [OF s] by (simp add: cost_def)
qed

text \<open>A change of links, stamps and sources.\<close>

lemma inv_keys:
  assumes inv: "tm_inv m es" and s: "same_keys (core (tm_entry m)) (core (tm_entry m'))" and es: "linked m' es'" "mset es' = mset es"
    and r: "tm_by_id m' = tm_by_id m" "tm_by_block m' = tm_by_block m" "tm_block m' = tm_block m" "tm_entries m' = tm_entries m"
      "tm_bytes m' = tm_bytes m" "tm_brk m' = tm_brk m"
  shows "tm_inv m' es'"
proof -
  have "(\<exists>e. core (tm_entry m') a = Some e \<and> te_id e = i) \<longleftrightarrow> (\<exists>e. core (tm_entry m) a = Some e \<and> te_id e = i)" for a i
    using same_keysD [OF s, of a "\<lambda>j _ _ _. j = i"] by simp
  moreover have "dom (tm_entry m') = dom (tm_entry m)" using same_keys_dom [OF s] by simp
  moreover have "set es' = set es" "length es' = length es" using mset_eq_setD [OF es(2)] mset_eq_length [OF es(2)] by simp_all
  ultimately show ?thesis using inv es(1) r shape_keys [OF s] cost_keys [OF s] by (simp add: tm_inv_def)
qed

lemma same_rest_keys: "same_rest m m' \<Longrightarrow> same_keys (core (tm_entry m)) (core (tm_entry m'))"
  by (simp add: same_rest_def same_keys_def)

lemma same_rest_view: "same_rest m m' \<Longrightarrow> view m' = view m"
  by (auto simp: same_rest_def view_def fun_eq_iff)

lemma touch_inv:
  assumes inv: "tm_inv m (xs @ a # ys)"
  shows "\<exists>m'. tool_memory_touch a m = Some m' \<and> tm_inv m' (a # xs @ ys) \<and> view m' = view m \<and> tm_block m' = tm_block m \<and> tm_bytes m' = tm_bytes m \<and> tm_entries m' = tm_entries m \<and>
    tm_max_entries m' = tm_max_entries m \<and> tm_max_bytes m' = tm_max_bytes m"
proof -
  obtain e where e: "tm_entry m a = Some e" using inv by (auto simp: tm_inv_def linked_def)
  define m1 where "m1 = m\<lparr>tm_clock := tm_clock m + 1, tm_entry := (tm_entry m)(a \<mapsto> e\<lparr>te_stamp := tm_clock m + 1\<rparr>)\<rparr>"
  have lk: "linked m1 (xs @ a # ys)" using inv e by (intro linked_cong [of _ m1 m]) (auto simp: m1_def tm_inv_def)
  have ck: "same_keys (core (tm_entry m)) (core (tm_entry m1))" using e by (auto simp: same_keys_def m1_def core_upd key_def strip_def core_def)
  have v1: "view m1 = view m" using e by (auto simp: view_def m1_def core_upd core_def strip_def fun_eq_iff)
  show ?thesis
  proof (cases "tm_head m = Some a")
    case True
    then have "xs = []" using lk by (cases xs) (auto simp: linked_def m1_def)
    then show ?thesis using True e inv_keys [OF inv ck lk] v1 by (auto simp: tool_memory_touch_def mod_entry_def m1_def)
  next
    case False
    obtain m2 where m2: "tool_memory_unlink a m1 = Some m2" "same_rest m1 m2" "linked m2 (xs @ ys)" using unlink_linked [OF lk] by blast
    have "a \<in> dom (core (tm_entry m2))" using m2(2) e by (auto simp: same_rest_def m1_def)
    then obtain f where "tm_entry m2 a = Some f" by auto
    moreover have "a \<notin> set (xs @ ys)" using lk by (auto simp: linked_def)
    ultimately obtain m3 where m3: "tool_memory_link_head a m2 = Some m3" "same_rest m2 m3" "linked m3 (a # xs @ ys)"
      using link_head_linked [OF m2(3)] by blast
    have sr: "same_rest m1 m3" by (rule same_rest_trans [OF m2(2) m3(2)])
    have "tm_inv m1 (xs @ a # ys)" by (rule inv_keys [OF inv ck lk]) (simp_all add: m1_def)
    then have "tm_inv m3 (a # xs @ ys)"
      by (rule inv_keys [OF _ same_rest_keys [OF sr] m3(3)]) (use sr in \<open>simp_all add: same_rest_def\<close>)
    then show ?thesis using False e m2(1) m3(1) sr same_rest_view [OF sr] v1
      by (auto simp: tool_memory_touch_def mod_entry_def m1_def same_rest_def)
  qed
qed

section \<open>The contents as a list\<close>

type_synonym tool_text = "string \<times> string \<times> tool_memory_source"

definition contents :: "tool_memory \<Rightarrow> addr list \<Rightarrow> tool_text list" where
  "contents m es = map (\<lambda>a. the (view m a)) es"

text \<open>The memory taken by texts: an entry for each id, a block for each text.\<close>

definition texts_size :: "tool_text list \<Rightarrow> nat" where
  "texts_size L = sum_list (map (\<lambda>x. length (fst x) + 65) L) + sum_list (map (\<lambda>d. length d + 49) (remdups (map (fst \<circ> snd) L)))"

lemma view_entry:
  assumes inv: "tm_inv m es" and a: "a \<in> set es"
  shows "\<exists>e b k. core (tm_entry m) a = Some e \<and> te_block e = Some b \<and> tm_block m b = Some k \<and> view m a = Some (te_id e, tb_dsml k, te_source e)"
proof -
  have "a \<in> dom (core (tm_entry m))" using assms by (simp add: tm_inv_def)
  then obtain e where e: "core (tm_entry m) a = Some e" by blast
  then obtain b k where "te_block e = Some b" "tm_block m b = Some k" using inv unfolding tm_inv_def shape_def by blast
  with e show ?thesis by (simp add: view_def)
qed

lemma block_texts:
  assumes inv: "tm_inv m es"
  shows "(\<lambda>b. tb_dsml (the (tm_block m b))) ` dom (tm_block m) = (fst \<circ> snd) ` set (contents m es)"
    and "inj_on (\<lambda>b. tb_dsml (the (tm_block m b))) (dom (tm_block m))"
proof -
  have ix: "tm_by_block m d = Some b \<longleftrightarrow> (\<exists>k. tm_block m b = Some k \<and> tb_dsml k = d)" for d b using inv by (auto simp: tm_inv_def)
  show "inj_on (\<lambda>b. tb_dsml (the (tm_block m b))) (dom (tm_block m))"
  proof (rule inj_onI)
    fix b c assume a: "b \<in> dom (tm_block m)" "c \<in> dom (tm_block m)" "tb_dsml (the (tm_block m b)) = tb_dsml (the (tm_block m c))"
    then have "tm_by_block m (tb_dsml (the (tm_block m c))) = Some b" "tm_by_block m (tb_dsml (the (tm_block m c))) = Some c"
      using ix by fastforce+
    then show "b = c" by simp
  qed
  show "(\<lambda>b. tb_dsml (the (tm_block m b))) ` dom (tm_block m) = (fst \<circ> snd) ` set (contents m es)" (is "?L = ?R")
  proof
    show "?L \<subseteq> ?R"
    proof
      fix d assume "d \<in> ?L"
      then obtain b k where b: "tm_block m b = Some k" "d = tb_dsml k" by auto
      then obtain ls where ls: "ls \<noteq> []" "block_ok (core (tm_entry m)) b k ls" using inv unfolding tm_inv_def shape_def by blast
      then obtain e where e: "core (tm_entry m) (hd ls) = Some e" "te_block e = Some b"
        using hd_in_set [OF ls(1)] unfolding block_ok_def by blast
      have "hd ls \<in> dom (core (tm_entry m))" using e by blast
      then have "hd ls \<in> set es" using inv by (simp add: tm_inv_def)
      moreover have "view m (hd ls) = Some (te_id e, d, te_source e)" using e b by (simp add: view_def)
      ultimately show "d \<in> ?R" unfolding contents_def by (force simp: image_iff)
    qed
    show "?R \<subseteq> ?L"
    proof
      fix d assume "d \<in> ?R"
      then obtain a where "a \<in> set es" "d = fst (snd (the (view m a)))" by (auto simp: contents_def)
      then show "d \<in> ?L" using view_entry [OF inv] by (force simp: image_iff)
    qed
  qed
qed

lemma cost_contents: "tm_inv m es \<Longrightarrow> cost (core (tm_entry m)) (tm_block m) = texts_size (contents m es)"
proof -
  assume inv: "tm_inv m es"
  have "(\<Sum>a \<in> dom (core (tm_entry m)). length (te_id (the (core (tm_entry m) a))) + 65) = (\<Sum>a \<in> set es. length (fst (the (view m a))) + 65)"
  proof (rule sum.cong)
    show "dom (core (tm_entry m)) = set es" using inv by (simp add: tm_inv_def)
  next
    fix a assume "a \<in> set es"
    from view_entry [OF inv this] show "length (te_id (the (core (tm_entry m) a))) + 65 = length (fst (the (view m a))) + 65" by auto
  qed
  also have "\<dots> = sum_list (map (\<lambda>a. length (fst (the (view m a))) + 65) es)"
    by (rule sum_list_distinct_conv_sum_set [symmetric]) (use inv in \<open>simp add: tm_inv_def linked_def\<close>)
  finally have 1: "(\<Sum>a \<in> dom (core (tm_entry m)). length (te_id (the (core (tm_entry m) a))) + 65) =
    sum_list (map (\<lambda>x. length (fst x) + 65) (contents m es))" by (simp add: contents_def comp_def)
  have "(\<Sum>b \<in> dom (tm_block m). length (tb_dsml (the (tm_block m b))) + 49) = (\<Sum>d \<in> (fst \<circ> snd) ` set (contents m es). length d + 49)"
    using sum.reindex [OF block_texts(2) [OF inv], of "\<lambda>d. length d + 49"] block_texts(1) [OF inv] by (simp add: comp_def)
  also have "\<dots> = sum_list (map (\<lambda>d. length d + 49) (remdups (map (fst \<circ> snd) (contents m es))))"
    by (subst sum_list_distinct_conv_sum_set) simp_all
  finally show ?thesis using 1 by (simp add: cost_def texts_size_def)
qed

text \<open>What the limits of the memory ask for: forget the least recently used texts until the rest fits.\<close>

function lru_prune :: "int \<Rightarrow> nat \<Rightarrow> tool_text list \<Rightarrow> tool_text list" where
  "lru_prune max_ids max_bytes L =
     (if L \<noteq> [] \<and> (int (length L) > max_ids \<or> texts_size L > max_bytes) then lru_prune max_ids max_bytes (butlast L) else L)"
  by pat_completeness auto
termination lru_prune
  by (relation "measure (\<lambda>(_, _, L). length L)") auto

declare lru_prune.simps [simp del]

abbreviation limited :: "tool_memory \<Rightarrow> tool_text list \<Rightarrow> tool_text list" where
  "limited m L \<equiv> lru_prune (tool_memory_max_entries m) (unat (tool_memory_max_bytes m)) L"

lemma over_limits_contents:
  "tm_inv m es \<Longrightarrow> over_limits m \<longleftrightarrow> int (length (contents m es)) > tool_memory_max_entries m \<or>
     texts_size (contents m es) > unat (tool_memory_max_bytes m)"
  using cost_contents [of m es] by (simp add: over_limits_def tm_inv_def contents_def word_less_nat_alt)

lemma prune_inv:
  "tm_inv m es \<Longrightarrow> \<exists>m' es'. tool_memory_prune_locked m = Some m' \<and> tm_inv m' es' \<and> contents m' es' = limited m (contents m es) \<and>
     tm_max_entries m' = tm_max_entries m \<and> tm_max_bytes m' = tm_max_bytes m"
proof (induction es arbitrary: m rule: rev_induct)
  case Nil
  then have "tm_tail m = None" by (simp add: tm_inv_def linked_def)
  with Nil show ?case
    by (subst tool_memory_prune_locked.simps) (auto simp: contents_def lru_prune.simps intro!: exI [of _ "[]"])
next
  case (snoc t es)
  show ?case
  proof (cases "over_limits m")
    case False
    then show ?thesis using snoc.prems over_limits_contents [OF snoc.prems]
      by (subst tool_memory_prune_locked.simps) (auto simp: lru_prune.simps intro!: exI [of _ "es @ [t]"])
  next
    case True
    have tl: "tm_tail m = Some t" "distinct (es @ [t])" using snoc.prems by (simp_all add: tm_inv_def linked_def)
    obtain m1 where m1: "tool_memory_remove_entry_locked t m = Some m1" "tm_inv m1 (es @ [])" "\<forall>y. y \<noteq> t \<longrightarrow> view m1 y = view m y"
        "tm_max_entries m1 = tm_max_entries m" "tm_max_bytes m1 = tm_max_bytes m"
      using remove_entry_inv [of m es t "[]"] snoc.prems by auto
    have "contents m1 es = contents m es" using m1(3) tl(2) by (auto simp: contents_def)
    moreover have "limited m (contents m (es @ [t])) = limited m (contents m es)"
      using True over_limits_contents [OF snoc.prems] by (subst lru_prune.simps) (simp add: contents_def)
    moreover have "tool_memory_prune_locked m = tool_memory_prune_locked m1"
      using True tl(1) m1(1) by (subst tool_memory_prune_locked.simps) simp
    moreover have "tool_memory_max_entries m1 = tool_memory_max_entries m" "tool_memory_max_bytes m1 = tool_memory_max_bytes m"
      using m1(4,5) by (simp_all add: tool_memory_max_entries_def tool_memory_max_bytes_def)
    ultimately show ?thesis using snoc.IH [of m1] m1 by simp
  qed
qed

section \<open>Inserting an entry\<close>

lemma unat_grow: "unat (w :: u64) = c \<Longrightarrow> c + n < 2 ^ 64 \<Longrightarrow> unat (w + word_of_nat n) = c + n"
  by (subst unat_add_no_wrap) (simp_all add: unat_of_nat)

text \<open>The memory with a block for a text that is about to get an entry.\<close>

definition with_block :: "tool_memory \<Rightarrow> string \<Rightarrow> addr \<Rightarrow> tool_memory \<Rightarrow> tool_memory_block \<Rightarrow> addr list \<Rightarrow> bool" where
  "with_block m d b m1 k ls \<longleftrightarrow> tm_block m1 = (tm_block m)(b \<mapsto> k) \<and> tb_dsml k = d \<and> block_fields k \<and> block_ok (core (tm_entry m)) b k ls \<and>
     b < tm_brk m1 \<and> tm_brk m \<le> tm_brk m1 \<and>
     tm_entry m1 = tm_entry m \<and> tm_by_id m1 = tm_by_id m \<and> tm_head m1 = tm_head m \<and> tm_tail m1 = tm_tail m \<and> tm_entries m1 = tm_entries m \<and>
     tm_max_entries m1 = tm_max_entries m \<and> tm_max_bytes m1 = tm_max_bytes m \<and> unat (tm_bytes m1) = cost (core (tm_entry m)) (tm_block m1) \<and>
     cost (core (tm_entry m)) (tm_block m1) \<le> cost (core (tm_entry m)) (tm_block m) + (length d + 49) \<and>
     (\<forall>c b'. tm_by_block m1 c = Some b' \<longleftrightarrow> (\<exists>j. tm_block m1 b' = Some j \<and> tb_dsml j = c)) \<and>
     (\<forall>c j. tm_block m c = Some j \<longrightarrow> map_option tb_dsml (tm_block m1 c) = Some (tb_dsml j))"

lemma get_block_inv:
  assumes inv: "tm_inv m es" and d: "c_text d" and fits: "cost (core (tm_entry m)) (tm_block m) + (length d + 49) < 2 ^ 64"
    and g: "tool_memory_get_block_locked d m = (b, m1)"
  shows "\<exists>k ls. with_block m d b m1 k ls"
proof -
  have ix: "tm_by_block m d = Some b \<longleftrightarrow> (\<exists>k. tm_block m b = Some k \<and> tb_dsml k = d)" for d b using inv by (auto simp: tm_inv_def)
  have fin: "finite (dom (tm_block m))" and bs: "unat (tm_bytes m) = cost (core (tm_entry m)) (tm_block m)"
    and fr: "\<And>a. a \<in> dom (tm_block m) \<Longrightarrow> a < tm_brk m" and sh: "shape (core (tm_entry m)) (tm_block m)"
    using inv by (auto simp: tm_inv_def)
  show ?thesis
  proof (cases "tm_by_block m d")
    case (Some b0)
    then obtain k where k: "tm_block m b0 = Some k" "tb_dsml k = d" using ix by blast
    obtain ls where "block_fields k" "block_ok (core (tm_entry m)) b0 k ls" using sh k(1) unfolding shape_def by blast
    moreover have "(tm_block m)(b0 \<mapsto> k) = tm_block m" using k(1) by (simp add: fun_upd_idem)
    moreover have "b = b0" "m1 = m" using g Some d by (simp_all add: c_text_def tool_memory_get_block_locked_def tool_memory_find_block_locked_def)
    moreover have "b0 < tm_brk m" using fr k(1) by blast
    ultimately have "with_block m d b m1 k ls" unfolding with_block_def using k bs ix by auto
    then show ?thesis by blast
  next
    case None
    let ?k = "\<lparr>tb_dsml = d, tb_len = length d, tb_bytes = word_of_nat (length d + 49), tb_refs = 0, tb_seen = 0, tb_entries = None\<rparr>"
    have nb: "tm_block m (tm_brk m) = None" using fr [of "tm_brk m"] by (cases "tm_block m (tm_brk m)") auto
    have m1: "b = tm_brk m" "m1 = m\<lparr>tm_brk := Suc b, tm_block := (tm_block m)(b \<mapsto> ?k), tm_by_block := (tm_by_block m)(d \<mapsto> b),
        tm_bytes := tm_bytes m + word_of_nat (length d + 49)\<rparr>"
      using g None d by (auto simp: c_text_def tool_memory_get_block_locked_def tool_memory_find_block_locked_def Let_def add.commute)
    have "\<not> (\<exists>a e. core (tm_entry m) a = Some e \<and> te_block e = Some b)" using sh nb m1(1) unfolding shape_def by fastforce
    then have ok: "block_ok (core (tm_entry m)) b ?k []" by (auto simp: block_ok_def)
    have c: "cost (core (tm_entry m)) ((tm_block m)(b \<mapsto> ?k)) = cost (core (tm_entry m)) (tm_block m) + (length d + 49)"
      using cost_remove_block [of "(tm_block m)(b \<mapsto> ?k)" b ?k "core (tm_entry m)"] fin nb m1(1) by (simp add: fun_upd_idem)
    have "((tm_by_block m)(d \<mapsto> b)) x = Some c \<longleftrightarrow> (\<exists>j. ((tm_block m)(b \<mapsto> ?k)) c = Some j \<and> tb_dsml j = x)" for x c
      using ix [of x c] None nb m1(1) by (cases "c = b") auto
    then have "with_block m d b m1 ?k []" unfolding with_block_def
      using ok c unat_grow [OF bs fits] m1 nb by (auto simp: block_fields_def d)
    then show ?thesis by blast
  qed
qed

text \<open>The memory just after the entry \<open>a\<close> has been added, before it is pruned.\<close>

lemma insert_inv:
  assumes inv: "tm_inv m es" and w: "with_block m d b m1 k ls" and i: "c_text i" "tm_by_id m i = None"
    and fits: "cost (core (tm_entry m)) (tm_block m1) + (length i + 65) < 2 ^ 64"
    and a: "a = tm_brk m1" and e: "e = \<lparr>te_id = i, te_block = Some b, te_bytes = word_of_nat (length i + 65), te_stamp = st, te_source = src,
      te_prev = None, te_next = None, te_block_next = tb_entries k\<rparr>"
    and m3: "core (tm_entry m3) = (core (tm_entry m))(a \<mapsto> e)" "linked m3 (a # es)" "tm_block m3 = (tm_block m)(b \<mapsto> k\<lparr>tb_entries := Some a, tb_refs := tb_refs k + 1\<rparr>)"
      "tm_by_id m3 = (tm_by_id m)(i \<mapsto> a)" "tm_by_block m3 = tm_by_block m1" "tm_entries m3 = tm_entries m + 1" "tm_brk m3 = Suc a"
      "tm_bytes m3 = tm_bytes m1 + word_of_nat (length i + 65)"
  shows "tm_inv m3 (a # es)" "contents m3 (a # es) = (i, d, src) # contents m es"
proof -
  let ?h = "core (tm_entry m)" and ?k = "k\<lparr>tb_entries := Some a, tb_refs := tb_refs k + 1\<rparr>"
  note w' = w [unfolded with_block_def]
  have fr: "y < a" if "y \<in> dom (tm_entry m) \<union> dom (tm_block m)" for y
  proof -
    have "y < tm_brk m" using inv that unfolding tm_inv_def by blast
    then show ?thesis using w' a by simp
  qed
  have na: "?h a = None" using fr [of a] by (cases "tm_entry m a") (auto simp: core_def)
  have sh: "shape ?h (tm_block m)" and dom: "dom (tm_entry m) = set es" using inv by (simp_all add: tm_inv_def)
  have als: "a \<notin> set ls" using w' na by (auto simp: block_ok_def)
  have mem: "set ls = {y. \<exists>f. ?h y = Some f \<and> te_block f = Some b}" using w' by (simp add: block_ok_def)
  have ok: "block_ok (?h(a \<mapsto> e)) b ?k (a # ls)"
  proof -
    have "blist (?h(a \<mapsto> e)) (Some a) (a # ls)" using w' als e by (simp add: block_ok_def)
    moreover have "set (a # ls) = {y. \<exists>f. (?h(a \<mapsto> e)) y = Some f \<and> te_block f = Some b}" using mem na e by auto
    ultimately show ?thesis using w' als by (simp add: block_ok_def)
  qed
  have shape3: "shape (?h(a \<mapsto> e)) ((tm_block m)(b := if a # ls = [] then None else Some ?k))"
  proof (rule shape_change [OF sh _ _ ok])
    show "entry_fields f \<and> (te_block f = Some b \<or> ?h y = Some f)" if y: "(?h(a \<mapsto> e)) y = Some f" for y f
    proof (cases "y = a")
      case True
      then show ?thesis using y e i(1) by (auto simp: entry_fields_def)
    next
      case False
      then show ?thesis using y sh unfolding shape_def by auto
    qed
    show "(?h(a \<mapsto> e)) y = Some f" if "?h y = Some f" for y f using that na by auto
    show "block_fields ?k" using w' by (auto simp: block_fields_def)
  qed
  have cost3: "cost (?h(a \<mapsto> e)) ((tm_block m)(b \<mapsto> ?k)) = cost ?h (tm_block m1) + (length i + 65)"
  proof -
    have "cost (?h(a \<mapsto> e)) bk = cost ?h bk + (length i + 65)" for bk
      using cost_remove_entry [of "?h(a \<mapsto> e)" a e ?h bk] na e inv by (simp add: tm_inv_def)
    moreover have "cost ?h ((tm_block m)(b \<mapsto> ?k)) = cost ?h (tm_block m1)"
      using cost_same_block [of "tm_block m1" b k ?k ?h] w' by simp
    ultimately show ?thesis by simp
  qed
  have ids: "tm_by_id m3 j = Some y \<longleftrightarrow> (\<exists>f. core (tm_entry m3) y = Some f \<and> te_id f = j)" for j y
  proof -
    have "tm_by_id m j = Some y \<longleftrightarrow> (\<exists>f. ?h y = Some f \<and> te_id f = j)" using inv unfolding tm_inv_def by blast
    moreover have "?h y = Some f \<Longrightarrow> te_id f \<noteq> i" for f using inv i(2) unfolding tm_inv_def by (metis option.distinct(1))
    ultimately show ?thesis using na e m3(1,4) by (cases "y = a") auto
  qed
  have blks: "tm_by_block m3 c = Some y \<longleftrightarrow> (\<exists>j. tm_block m3 y = Some j \<and> tb_dsml j = c)" for c y
    using w' m3(3,5) by (cases "y = b") auto
  have "unat (tm_bytes m3) = cost ?h (tm_block m1) + (length i + 65)" unfolding m3(8) by (rule unat_grow) (use w' fits in auto)
  then have "unat (tm_bytes m3) = cost (core (tm_entry m3)) (tm_block m3)" using cost3 m3(1,3) by simp
  moreover have "dom (tm_entry m3) = set (a # es)" using arg_cong [OF m3(1), of dom] dom by simp
  moreover have "y < tm_brk m3" if "y \<in> dom (tm_entry m3) \<union> dom (tm_block m3)" for y
  proof -
    have "y = a \<or> y = b \<or> y \<in> dom (tm_entry m) \<union> dom (tm_block m)" using that calculation(2) dom m3(3) by (auto split: if_splits)
    moreover have "b < a" using w' a by simp
    ultimately show ?thesis using fr [of y] m3(7) by (elim disjE) simp_all
  qed
  ultimately show inv3: "tm_inv m3 (a # es)"
    unfolding tm_inv_def using inv m3 shape3 ids blks by (simp add: tm_inv_def)
  have "view m3 a = Some (i, d, src)" using m3(1,3) e w' by (simp add: view_def)
  moreover have "view m3 y = view m y" if y: "y \<in> set es" for y
  proof -
    obtain f c j where f: "?h y = Some f" "te_block f = Some c" "tm_block m c = Some j" "view m y = Some (te_id f, tb_dsml j, te_source f)"
      using view_entry [OF inv y] by blast
    have "y \<noteq> a" using f(1) na by auto
    moreover have "map_option tb_dsml (tm_block m3 c) = Some (tb_dsml j)"
      using w' f(3) m3(3) by (cases "c = b") (auto dest: spec [of _ b])
    ultimately show ?thesis using f m3(1) by (auto simp: view_def)
  qed
  ultimately show "contents m3 (a # es) = (i, d, src) # contents m es" by (simp add: contents_def)
qed

lemma put_new_inv:
  assumes inv: "tm_inv m es" and i: "c_text i" "tm_by_id m i = None" and d: "c_text d"
    and fits: "texts_size (contents m es) + length i + length d + 114 < 2 ^ 64"
  shows "\<exists>m' es'. put_new i d src m = Some m' \<and> tm_inv m' es' \<and> contents m' es' = limited m ((i, d, src) # contents m es) \<and>
    tm_max_entries m' = tm_max_entries m \<and> tm_max_bytes m' = tm_max_bytes m"
proof -
  obtain b m1 where g: "tool_memory_get_block_locked d m = (b, m1)" by fastforce
  have cc: "cost (core (tm_entry m)) (tm_block m) + length i + length d + 114 < 2 ^ 64" using fits cost_contents [OF inv] by simp
  then obtain k ls where w: "with_block m d b m1 k ls" using get_block_inv [OF inv d _ g] by auto
  note w' = w [unfolded with_block_def]
  define a where "a = tm_brk m1"
  define e where "e = \<lparr>te_id = i, te_block = Some b, te_bytes = word_of_nat (length i + 65), te_stamp = tm_clock m1 + 1, te_source = src,
      te_prev = None, te_next = None, te_block_next = tb_entries k\<rparr>"
  define mA where "mA = m1\<lparr>tm_brk := Suc a, tm_clock := tm_clock m1 + 1, tm_entry := (tm_entry m1)(a \<mapsto> e),
      tm_block := (tm_block m1)(b \<mapsto> k\<lparr>tb_entries := Some a, tb_refs := tb_refs k + 1\<rparr>), tm_by_id := (tm_by_id m1)(i \<mapsto> a)\<rparr>"
  have aes: "a \<notin> set es" using inv w' unfolding tm_inv_def a_def by (metis UnCI not_less)
  have "linked mA es"
    by (rule linked_cong [of es mA m]) (use aes inv w' in \<open>auto simp: mA_def tm_inv_def\<close>)
  moreover have "tm_entry mA a = Some e" by (simp add: mA_def)
  ultimately obtain m2 where m2: "tool_memory_link_head a mA = Some m2" "same_rest mA m2" "linked m2 (a # es)"
    using link_head_linked aes by blast
  define m3 where "m3 = m2\<lparr>tm_entries := tm_entries m2 + 1, tm_bytes := tm_bytes m2 + te_bytes e\<rparr>"
  have p: "put_new i d src m = tool_memory_prune_locked m3"
    using g w' m2(1) by (simp add: put_new_def Let_def mA_def e_def a_def m3_def add.commute [of 65])
  have se: "strip e = e" by (simp add: strip_def e_def)
  have "tm_inv m3 (a # es)" "contents m3 (a # es) = (i, d, src) # contents m es"
  proof -
    have 1: "core (tm_entry m3) = (core (tm_entry m))(a \<mapsto> e)" using m2(2) w' se by (simp add: same_rest_def m3_def mA_def core_upd)
    have 2: "linked m3 (a # es)" using m2(3) by (simp add: linked_def m3_def)
    have 3: "cost (core (tm_entry m)) (tm_block m1) + (length i + 65) < 2 ^ 64" using w' cc by linarith
    have 4: "tm_block m3 = (tm_block m)(b \<mapsto> k\<lparr>tb_entries := Some a, tb_refs := tb_refs k + 1\<rparr>)" "tm_by_id m3 = (tm_by_id m)(i \<mapsto> a)"
      "tm_by_block m3 = tm_by_block m1" "tm_entries m3 = tm_entries m + 1" "tm_brk m3 = Suc a" "tm_bytes m3 = tm_bytes m1 + word_of_nat (length i + 65)"
      using m2(2) w' by (simp_all add: same_rest_def m3_def mA_def e_def)
    show "tm_inv m3 (a # es)" "contents m3 (a # es) = (i, d, src) # contents m es"
      by (rule insert_inv [OF inv w i 3 a_def e_def 1 2 4])+
  qed
  moreover have "tm_max_entries m3 = tm_max_entries m" "tm_max_bytes m3 = tm_max_bytes m"
    using m2(2) w' by (simp_all add: same_rest_def m3_def mA_def)
  moreover then have "tool_memory_max_entries m3 = tool_memory_max_entries m" "tool_memory_max_bytes m3 = tool_memory_max_bytes m"
    by (simp_all add: tool_memory_max_entries_def tool_memory_max_bytes_def)
  ultimately show ?thesis using prune_inv [of m3 "a # es"] p by simp
qed

section \<open>Looking up and putting\<close>

lemma find_entry_inv:
  assumes inv: "tm_inv m es"
  shows "tm_by_id m i = None \<longleftrightarrow> map_of (contents m es) i = None"
    and "tm_by_id m i = Some a \<Longrightarrow> \<exists>xs ys e b k. es = xs @ a # ys \<and> tm_entry m a = Some e \<and> te_id e = i \<and> te_block e = Some b \<and> tm_block m b = Some k \<and>
      view m a = Some (i, tb_dsml k, te_source e) \<and> map_of (contents m es) i = Some (tb_dsml k, te_source e) \<and>
      filter (\<lambda>x. fst x \<noteq> i) (contents m es) = contents m (xs @ ys)"
proof -
  have ix: "tm_by_id m j = Some y \<longleftrightarrow> (\<exists>f. core (tm_entry m) y = Some f \<and> te_id f = j)" for j y using inv unfolding tm_inv_def by blast
  have dom: "dom (core (tm_entry m)) = set es" "distinct es" using inv by (simp_all add: tm_inv_def linked_def)
  have idof: "tm_by_id m j = Some y \<longleftrightarrow> y \<in> set es \<and> fst (the (view m y)) = j" for j y
  proof (cases "y \<in> set es")
    case True
    then obtain f where "core (tm_entry m) y = Some f" "fst (the (view m y)) = te_id f" using view_entry [OF inv True] by auto
    then show ?thesis using True by (auto simp: ix)
  next
    case False
    then have "core (tm_entry m) y = None" unfolding dom(1) [symmetric] by blast
    then show ?thesis using False by (simp add: ix)
  qed
  have "(\<exists>y. tm_by_id m i = Some y) \<longleftrightarrow> (\<exists>y \<in> set es. fst (the (view m y)) = i)" using idof by blast
  then have "tm_by_id m i = None \<longleftrightarrow> i \<notin> (\<lambda>y. fst (the (view m y))) ` set es" by (cases "tm_by_id m i") (auto simp: image_iff)
  then show "tm_by_id m i = None \<longleftrightarrow> map_of (contents m es) i = None" by (simp add: map_of_eq_None_iff contents_def image_image)
  show "\<exists>xs ys e b k. es = xs @ a # ys \<and> tm_entry m a = Some e \<and> te_id e = i \<and> te_block e = Some b \<and> tm_block m b = Some k \<and>
      view m a = Some (i, tb_dsml k, te_source e) \<and> map_of (contents m es) i = Some (tb_dsml k, te_source e) \<and>
      filter (\<lambda>x. fst x \<noteq> i) (contents m es) = contents m (xs @ ys)" if s: "tm_by_id m i = Some a"
  proof -
    have a: "a \<in> set es" "fst (the (view m a)) = i" using idof s by auto
    obtain xs ys where es: "es = xs @ a # ys" using split_list [OF a(1)] by blast
    obtain e b k where v: "core (tm_entry m) a = Some e" "te_block e = Some b" "tm_block m b = Some k" "view m a = Some (te_id e, tb_dsml k, te_source e)"
      using view_entry [OF inv a(1)] by blast
    obtain f where f: "tm_entry m a = Some f" "e = strip f" using v(1) by (auto simp: core_Some)
    have ne: "fst (the (view m y)) \<noteq> i" if "y \<in> set (xs @ ys)" for y
      using that idof [of i y] s es dom(2) by auto
    have "filter (\<lambda>x. fst x \<noteq> i) (contents m zs) = contents m zs" if "set zs \<subseteq> set (xs @ ys)" for zs
      using that ne by (auto simp: contents_def filter_id_conv)
    moreover have "i \<notin> (\<lambda>y. fst (the (view m y))) ` set xs" using ne by force
    then have "map_of (contents m xs) i = None" by (simp add: map_of_eq_None_iff contents_def image_image)
    ultimately show ?thesis using es f v a(2)
      by (intro exI [of _ xs] exI [of _ ys] exI [of _ f] exI [of _ b] exI [of _ k]) (auto simp: contents_def map_add_def)
  qed
qed

text \<open>The specification: the new text goes to the front, with the better of the two sources if it is known.\<close>

definition remember_text :: "string \<Rightarrow> string \<Rightarrow> tool_memory_source \<Rightarrow> tool_text list \<Rightarrow> tool_text list" where
  "remember_text i d src L = (i, d, case map_of L i of Some (d', old) \<Rightarrow> if d' = d \<and> src \<noteq> TOOL_MEMORY_RAM then old else src | None \<Rightarrow> src) #
     filter (\<lambda>x. fst x \<noteq> i) L"

definition recall_text :: "string \<Rightarrow> tool_text list \<Rightarrow> (string \<times> tool_memory_source) option \<times> tool_text list" where
  "recall_text i L = (map_of L i, case map_of L i of Some x \<Rightarrow> (i, x) # filter (\<lambda>x. fst x \<noteq> i) L | None \<Rightarrow> L)"

lemma contents_cong: "(\<And>a. a \<in> set es \<Longrightarrow> view m' a = view m a) \<Longrightarrow> contents m' es = contents m es"
  by (simp add: contents_def)

lemma limits_cong:
  "tm_max_entries m' = tm_max_entries m \<Longrightarrow> tm_max_bytes m' = tm_max_bytes m \<Longrightarrow> limited m' = limited m"
  by (simp add: tool_memory_max_entries_def tool_memory_max_bytes_def fun_eq_iff)

lemma lookup_inv:
  assumes inv: "tm_inv m es"
  shows "\<exists>r m' es'. tool_memory_lookup_locked i m = Some (r, m') \<and> tm_inv m' es' \<and>
    (map_option (\<lambda>(d, s, b). (d, s)) r, contents m' es') = recall_text (of_ptr i) (contents m es) \<and>
    (\<forall>d s b. r = Some (d, s, b) \<longrightarrow> tm_by_block m' d = Some b) \<and> tm_block m' = tm_block m \<and> tm_bytes m' = tm_bytes m \<and> tm_entries m' = tm_entries m \<and>
    tm_max_entries m' = tm_max_entries m \<and> tm_max_bytes m' = tm_max_bytes m"
proof (cases "tool_memory_find_entry_locked m (of_ptr i)")
  case None
  have "map_of (contents m es) (of_ptr i) = None"
  proof (cases "of_ptr i = []")
    case True
    have "fst (the (view m a)) \<noteq> []" if "a \<in> set es" for a
    proof -
      obtain e where "core (tm_entry m) a = Some e" "fst (the (view m a)) = te_id e" using view_entry [OF inv \<open>a \<in> set es\<close>] by auto
      moreover then have "entry_fields e" using inv unfolding tm_inv_def shape_def by blast
      ultimately show ?thesis by (simp add: entry_fields_def c_text_def)
    qed
    then have "[] \<notin> (\<lambda>a. fst (the (view m a))) ` set es" by force
    then show ?thesis using True by (simp add: map_of_eq_None_iff contents_def image_image)
  next
    case False
    then show ?thesis using None find_entry_inv(1) [OF inv] by (simp add: tool_memory_find_entry_locked_def)
  qed
  then show ?thesis using None inv by (auto simp: tool_memory_lookup_locked_def recall_text_def)
next
  case (Some a)
  then have "tm_by_id m (of_ptr i) = Some a" by (simp add: tool_memory_find_entry_locked_def split: if_splits)
  from find_entry_inv(2) [OF inv this] obtain xs ys e b k where f: "es = xs @ a # ys" "tm_entry m a = Some e" "te_block e = Some b"
      "tm_block m b = Some k" "view m a = Some (of_ptr i, tb_dsml k, te_source e)" "map_of (contents m es) (of_ptr i) = Some (tb_dsml k, te_source e)"
      "filter (\<lambda>x. fst x \<noteq> of_ptr i) (contents m es) = contents m (xs @ ys)" by blast
  obtain m' where m': "tool_memory_touch a m = Some m'" "tm_inv m' (a # xs @ ys)" "view m' = view m" "tm_block m' = tm_block m" "tm_bytes m' = tm_bytes m" "tm_entries m' = tm_entries m"
      "tm_max_entries m' = tm_max_entries m" "tm_max_bytes m' = tm_max_bytes m"
    using touch_inv [of m xs a ys] inv f(1) by auto
  have "contents m' (a # xs @ ys) = (of_ptr i, tb_dsml k, te_source e) # contents m (xs @ ys)" using m'(3) f(5) by (simp add: contents_def)
  moreover have "tm_by_block m' (tb_dsml k) = Some b" using m'(2,4) f(4) unfolding tm_inv_def by auto
  ultimately show ?thesis using Some f m'
    by (intro exI [of _ "Some (tb_dsml k, te_source e, b)"] exI [of _ m'] exI [of _ "a # xs @ ys"])
      (auto simp: tool_memory_lookup_locked_def recall_text_def)
qed

lemma texts_size_filter: "texts_size (filter P L) \<le> texts_size L"
proof -
  have s: "sum_list (map (\<lambda>d. length d + 49) (remdups (map (fst \<circ> snd) xs))) = (\<Sum>d \<in> set (map (fst \<circ> snd) xs). length d + 49)" for xs :: "tool_text list"
    by (subst sum_list_distinct_conv_sum_set) simp_all
  have "(\<Sum>d \<in> set (map (fst \<circ> snd) (filter P L)). length d + 49) \<le> (\<Sum>d \<in> set (map (fst \<circ> snd) L). length d + 49)"
    by (rule sum_mono2) auto
  moreover have "sum_list (map (\<lambda>x. length (fst x) + 65) (filter P L)) \<le> sum_list (map (\<lambda>x. length (fst x) + 65) L)"
    by (rule sum_list_filter_le_nat)
  ultimately show ?thesis unfolding texts_size_def s by linarith
qed

lemma put_inv:
  assumes inv: "tm_inv m es" and fits: "texts_size (contents m es) + length (of_ptr i) + length (of_ptr d) + 114 < 2 ^ 64"
  shows "\<exists>m' es'. tool_memory_put_locked i d src m = Some m' \<and> tm_inv m' es' \<and>
    contents m' es' = (if of_ptr i = [] \<or> of_ptr d = [] then contents m es else limited m (remember_text (of_ptr i) (of_ptr d) src (contents m es))) \<and>
    tm_max_entries m' = tm_max_entries m \<and> tm_max_bytes m' = tm_max_bytes m"
proof (cases "of_ptr i = [] \<or> of_ptr d = []")
  case True
  then show ?thesis using inv by (auto simp: tool_memory_put_locked_def)
next
  case False
  let ?i = "of_ptr i" and ?d = "of_ptr d"
  show ?thesis
  proof (cases "tm_by_id m ?i")
    case None
    then have n: "map_of (contents m es) ?i = None" using find_entry_inv(1) [OF inv] by simp
    then have "filter (\<lambda>x. fst x \<noteq> ?i) (contents m es) = contents m es" unfolding map_of_eq_None_iff filter_id_conv by (metis imageI)
    then have "remember_text ?i ?d src (contents m es) = (?i, ?d, src) # contents m es" using n by (simp add: remember_text_def)
    moreover have "tool_memory_put_locked i d src m = put_new ?i ?d src m"
      using None False by (simp add: tool_memory_put_locked_def tool_memory_find_entry_locked_def Let_def)
    ultimately show ?thesis using put_new_inv [OF inv, of ?i ?d src] None False fits by (simp add: c_text_def)
  next
    case (Some a)
    from find_entry_inv(2) [OF inv this] obtain xs ys e b k where f: "es = xs @ a # ys" "tm_entry m a = Some e" "te_id e = ?i" "te_block e = Some b"
      "tm_block m b = Some k" "view m a = Some (?i, tb_dsml k, te_source e)" "map_of (contents m es) ?i = Some (tb_dsml k, te_source e)"
      "filter (\<lambda>x. fst x \<noteq> ?i) (contents m es) = contents m (xs @ ys)" by blast
    have len: "tb_len k = length (tb_dsml k)" using inv f(5) unfolding tm_inv_def shape_def block_fields_def by blast
    show ?thesis
    proof (cases "tb_dsml k = ?d")
      case True
      define m1 where "m1 = m\<lparr>tm_entry := (tm_entry m)(a \<mapsto> if src = TOOL_MEMORY_RAM then e\<lparr>te_source := TOOL_MEMORY_RAM\<rparr> else e)\<rparr>"
      have lk: "linked m1 es" using inv f(2) by (intro linked_cong [of _ m1 m]) (auto simp: m1_def tm_inv_def)
      have ck: "same_keys (core (tm_entry m)) (core (tm_entry m1))" using f(2) by (auto simp: same_keys_def m1_def core_upd key_def core_def)
      have i1: "tm_inv m1 es" by (rule inv_keys [OF inv ck lk]) (simp_all add: m1_def)
      obtain m2 where m2: "tool_memory_touch a m1 = Some m2" "tm_inv m2 (a # xs @ ys)" "view m2 = view m1"
          "tm_max_entries m2 = tm_max_entries m1" "tm_max_bytes m2 = tm_max_bytes m1"
        using touch_inv [of m1 xs a ys] i1 f(1) by auto
      have va: "view m1 a = Some (?i, ?d, if src = TOOL_MEMORY_RAM then TOOL_MEMORY_RAM else te_source e)"
        using f True by (simp add: view_def m1_def core_upd)
      have vo: "view m1 y = view m y" if "y \<noteq> a" for y using that by (simp add: view_def m1_def core_upd)
      have "a \<notin> set (xs @ ys)" using m2(2) by (simp add: tm_inv_def linked_def)
      then have "contents m2 (xs @ ys) = contents m (xs @ ys)" using m2(3) by (intro contents_cong) (metis vo)
      then have "contents m2 (a # xs @ ys) = remember_text ?i ?d src (contents m es)"
        using m2(3) va f(7,8) True by (cases src) (simp_all add: contents_def remember_text_def)
      moreover have "tool_memory_put_locked i d src m = tool_memory_prune_locked m2"
        using Some False f True len m2(1) by (simp add: tool_memory_put_locked_def tool_memory_find_entry_locked_def Let_def mod_entry_def m1_def)
      moreover have "tm_max_entries m2 = tm_max_entries m" "tm_max_bytes m2 = tm_max_bytes m" using m2(4,5) by (simp_all add: m1_def)
      ultimately show ?thesis using prune_inv [OF m2(2)] limits_cong [of m2 m] False by auto
    next
      case ne: False
      obtain m1 where m1: "tool_memory_remove_entry_locked a m = Some m1" "tm_inv m1 (xs @ ys)" "\<forall>y. y \<noteq> a \<longrightarrow> view m1 y = view m y"
          "tm_max_entries m1 = tm_max_entries m" "tm_max_bytes m1 = tm_max_bytes m"
        using remove_entry_inv [of m xs a ys] inv f(1) by auto
      have "a \<notin> set (xs @ ys)" using inv f(1) by (auto simp: tm_inv_def linked_def)
      then have c1: "contents m1 (xs @ ys) = contents m (xs @ ys)" using m1(3) by (intro contents_cong) auto
      have n: "tm_by_id m1 ?i = None"
        unfolding find_entry_inv(1) [OF m1(2)] c1 f(8) [symmetric] by (auto simp: map_of_eq_None_iff)
      have "texts_size (contents m1 (xs @ ys)) \<le> texts_size (contents m es)" unfolding c1 f(8) [symmetric] by (rule texts_size_filter)
      then have "texts_size (contents m1 (xs @ ys)) + length ?i + length ?d + 114 < 2 ^ 64" using fits by simp
      from put_new_inv [OF m1(2) _ n _ this, of src] obtain m' es' where "put_new ?i ?d src m1 = Some m'" "tm_inv m' es'"
          "contents m' es' = limited m1 ((?i, ?d, src) # contents m1 (xs @ ys))" "tm_max_entries m' = tm_max_entries m1" "tm_max_bytes m' = tm_max_bytes m1"
        using False by (auto simp: c_text_def)
      moreover have "remember_text ?i ?d src (contents m es) = (?i, ?d, src) # contents m1 (xs @ ys)"
        using f(7,8) ne c1 by (simp add: remember_text_def)
      moreover have "tool_memory_put_locked i d src m = put_new ?i ?d src m1"
        using Some False f ne m1(1) by (simp add: tool_memory_put_locked_def tool_memory_find_entry_locked_def Let_def)
      ultimately show ?thesis using False m1(4,5) limits_cong [of m1 m] by auto
    qed
  qed
qed

section \<open>The memory as a client sees it\<close>

datatype tool_memory_op = Put "string option" "string option" tool_memory_source | Lookup "string option"

text \<open>A run of operations: the answers of the lookups and the final state.\<close>

fun run_ops ::
  "(string option \<Rightarrow> string option \<Rightarrow> tool_memory_source \<Rightarrow> 'm \<Rightarrow> 'm option) \<Rightarrow>
   (string option \<Rightarrow> 'm \<Rightarrow> ((string \<times> tool_memory_source) option \<times> 'm) option) \<Rightarrow>
   tool_memory_op list \<Rightarrow> 'm \<Rightarrow> ((string \<times> tool_memory_source) option list \<times> 'm) option" where
  "run_ops put lookup [] m = Some ([], m)"
| "run_ops put lookup (Put i d src # ops) m = do { m1 \<leftarrow> put i d src m; run_ops put lookup ops m1 }"
| "run_ops put lookup (Lookup i # ops) m = do { (r, m1) \<leftarrow> lookup i m; (rs, m2) \<leftarrow> run_ops put lookup ops m1; Some (r # rs, m2) }"

text \<open>The specification keeps a plain list of texts, the most recently used first.\<close>

definition spec_put :: "int \<Rightarrow> nat \<Rightarrow> string option \<Rightarrow> string option \<Rightarrow> tool_memory_source \<Rightarrow> tool_text list \<Rightarrow> tool_text list option" where
  "spec_put max_ids max_bytes i d src L = Some (if of_ptr i = [] \<or> of_ptr d = [] then L
     else lru_prune max_ids max_bytes (remember_text (of_ptr i) (of_ptr d) src L))"

definition spec_lookup :: "string option \<Rightarrow> tool_text list \<Rightarrow> ((string \<times> tool_memory_source) option \<times> tool_text list) option" where
  "spec_lookup i L = Some (recall_text (of_ptr i) L)"

lemma lru_prune_within: "0 \<le> max_ids \<Longrightarrow> int (length (lru_prune max_ids max_bytes L)) \<le> max_ids \<and> texts_size (lru_prune max_ids max_bytes L) \<le> max_bytes"
proof (induction max_ids max_bytes L rule: lru_prune.induct)
  case (1 max_ids max_bytes L)
  then show ?case
  proof (cases "L \<noteq> [] \<and> (int (length L) > max_ids \<or> texts_size L > max_bytes)")
    case False
    moreover have "texts_size [] = 0" by (simp add: texts_size_def)
    ultimately show ?thesis using 1(2) by (subst (1 2) lru_prune.simps) auto
  qed (use 1 in \<open>simp add: lru_prune.simps [of max_ids max_bytes L]\<close>)
qed

definition op_fits :: "(string option \<Rightarrow> string option \<Rightarrow> bool) \<Rightarrow> tool_memory_op \<Rightarrow> bool" where
  "op_fits fits op \<longleftrightarrow> (case op of Put i d src \<Rightarrow> fits i d | Lookup i \<Rightarrow> True)"

locale text_memory =
  fixes rep :: "'m \<Rightarrow> tool_text list \<Rightarrow> bool"
    and put :: "string option \<Rightarrow> string option \<Rightarrow> tool_memory_source \<Rightarrow> 'm \<Rightarrow> 'm option"
    and lookup :: "string option \<Rightarrow> 'm \<Rightarrow> ((string \<times> tool_memory_source) option \<times> 'm) option"
    and max_ids :: int and max_bytes :: nat and fits :: "string option \<Rightarrow> string option \<Rightarrow> bool"
  assumes put_rep: "rep m L \<Longrightarrow> fits i d \<Longrightarrow> \<exists>m' L'. put i d src m = Some m' \<and> spec_put max_ids max_bytes i d src L = Some L' \<and> rep m' L'"
    and lookup_rep: "rep m L \<Longrightarrow> \<exists>m' r L'. lookup i m = Some (r, m') \<and> spec_lookup i L = Some (r, L') \<and> rep m' L'"
begin

lemma run_rep:
  "rep m L \<Longrightarrow> list_all (op_fits fits) ops \<Longrightarrow>
     \<exists>rs m' L'. run_ops put lookup ops m = Some (rs, m') \<and> run_ops (spec_put max_ids max_bytes) spec_lookup ops L = Some (rs, L') \<and> rep m' L'"
proof (induction ops arbitrary: m L)
  case (Cons op ops)
  show ?case
  proof (cases op)
    case (Put i d src)
    then obtain m' L' where "put i d src m = Some m'" "spec_put max_ids max_bytes i d src L = Some L'" "rep m' L'"
      using put_rep [OF Cons.prems(1), of i d src] Cons.prems(2) by (auto simp: op_fits_def)
    then show ?thesis using Cons.IH [of m' L'] Cons.prems(2) Put by auto
  next
    case (Lookup i)
    then obtain m' r L' where "lookup i m = Some (r, m')" "spec_lookup i L = Some (r, L')" "rep m' L'"
      using lookup_rep [OF Cons.prems(1), of i] by auto
    then show ?thesis using Cons.IH [of m' L'] Cons.prems(2) Lookup by fastforce
  qed
qed simp

end

definition lookup_text :: "string option \<Rightarrow> tool_memory \<Rightarrow> ((string \<times> tool_memory_source) option \<times> tool_memory) option" where
  "lookup_text i m = map_option (\<lambda>(r, m'). (map_option (\<lambda>(d, s, b). (d, s)) r, m')) (tool_memory_lookup_locked i m)"

definition tm_rep :: "int \<Rightarrow> u64 \<Rightarrow> tool_memory \<Rightarrow> tool_text list \<Rightarrow> bool" where
  "tm_rep n w m L \<longleftrightarrow> (\<exists>es. tm_inv m es \<and> contents m es = L) \<and> tool_memory_max_entries m = n \<and> tool_memory_max_bytes m = w \<and>
     int (length L) \<le> n \<and> texts_size L \<le> unat w"

definition text_fits :: "u64 \<Rightarrow> string option \<Rightarrow> string option \<Rightarrow> bool" where
  "text_fits w i d \<longleftrightarrow> unat w + length (of_ptr i) + length (of_ptr d) + 114 < 2 ^ 64"

lemma max_entries_pos: "0 < tool_memory_max_entries m"
  by (simp add: tool_memory_max_entries_def)

lemma same_limits:
  "tm_max_entries m' = tm_max_entries m \<Longrightarrow> tm_max_bytes m' = tm_max_bytes m \<Longrightarrow>
     tool_memory_max_entries m' = tool_memory_max_entries m \<and> tool_memory_max_bytes m' = tool_memory_max_bytes m"
  by (simp add: tool_memory_max_entries_def tool_memory_max_bytes_def)

interpretation tool_mem: text_memory "tm_rep n w" tool_memory_put_locked lookup_text n "unat w" "text_fits w" for n w
proof
  fix m L i d src
  assume r: "tm_rep n w m L" and f: "text_fits w i d"
  then obtain es where es: "tm_inv m es" "contents m es = L" by (auto simp: tm_rep_def)
  have "texts_size (contents m es) + length (of_ptr i) + length (of_ptr d) + 114 < 2 ^ 64"
    using r f es by (simp add: tm_rep_def text_fits_def)
  from put_inv [OF es(1) this, of src] obtain m' es' where m': "tool_memory_put_locked i d src m = Some m'" "tm_inv m' es'"
    "contents m' es' = (if of_ptr i = [] \<or> of_ptr d = [] then L else limited m (remember_text (of_ptr i) (of_ptr d) src L))"
    "tm_max_entries m' = tm_max_entries m" "tm_max_bytes m' = tm_max_bytes m" unfolding es(2) by blast
  have n: "0 \<le> n" using r max_entries_pos [of m] by (simp add: tm_rep_def)
  show "\<exists>m' L'. tool_memory_put_locked i d src m = Some m' \<and> spec_put n (unat w) i d src L = Some L' \<and> tm_rep n w m' L'"
    using m' r same_limits [OF m'(4,5)] lru_prune_within [OF n] by (auto simp: tm_rep_def spec_put_def)
next
  fix m L i
  assume r: "tm_rep n w m L"
  then obtain es where es: "tm_inv m es" "contents m es = L" by (auto simp: tm_rep_def)
  from lookup_inv [OF es(1), of i] obtain res m' es' where m': "tool_memory_lookup_locked i m = Some (res, m')" "tm_inv m' es'"
    "(map_option (\<lambda>(d, s, b). (d, s)) res, contents m' es') = recall_text (of_ptr i) L" "tm_bytes m' = tm_bytes m" "tm_entries m' = tm_entries m"
    "tm_max_entries m' = tm_max_entries m" "tm_max_bytes m' = tm_max_bytes m" unfolding es(2) by blast
  have "texts_size (contents m' es') = texts_size L"
    using cost_contents [OF m'(2)] cost_contents [OF es(1)] m'(2,4) es unfolding tm_inv_def by simp
  moreover have "length (contents m' es') = length L" using m'(2,5) es unfolding tm_inv_def by (auto simp: contents_def)
  ultimately have "tm_rep n w m' (contents m' es')" using r m'(2) same_limits [OF m'(6,7)] by (auto simp: tm_rep_def)
  moreover have "lookup_text i m = Some (fst (recall_text (of_ptr i) L), m')" "contents m' es' = snd (recall_text (of_ptr i) L)"
    using m'(1) m'(3) [symmetric] by (simp_all add: lookup_text_def)
  ultimately show "\<exists>m' r L'. lookup_text i m = Some (r, m') \<and> spec_lookup i L = Some (r, L') \<and> tm_rep n w m' L'"
    by (auto simp: spec_lookup_def intro: prod.collapse [symmetric])
qed

section \<open>Properties\<close>

text \<open>A memory without entries, with the limits of a configuration.\<close>

definition empty_memory :: "int \<Rightarrow> u64 \<Rightarrow> tool_memory" where
  "empty_memory max_ids max_bytes = tool_memory_zero\<lparr>tm_max_entries := max_ids, tm_max_bytes := max_bytes\<rparr>"

lemma empty_memory_rep: "tm_rep (tool_memory_max_entries (empty_memory n w)) (tool_memory_max_bytes (empty_memory n w)) (empty_memory n w) []"
proof -
  have "tm_inv (empty_memory n w) []"
    by (auto simp: tm_inv_def empty_memory_def tool_memory_zero_def linked_def shape_def core_def cost_def)
  moreover have "contents (empty_memory n w) [] = []" "texts_size [] = 0" by (simp_all add: contents_def texts_size_def)
  ultimately show ?thesis using max_entries_pos [of "empty_memory n w"] by (auto simp: tm_rep_def)
qed

text \<open>
  C1.  The memory of tool texts is a bounded map with least-recently-used eviction.  Whatever sequence of puts and
  lookups is run on an empty memory, every operation returns without touching freed or null memory, and
  the lookups answer what they answer on a plain list of texts, the last used first, of which a put
  keeps the longest prefix that is within both limits.
\<close>

theorem tool_memory_refines_lru:
  assumes "m = empty_memory n w" "list_all (op_fits (text_fits (tool_memory_max_bytes m))) ops"
  shows "\<exists>rs m' L. run_ops tool_memory_put_locked lookup_text ops m = Some (rs, m') \<and>
    run_ops (spec_put (tool_memory_max_entries m) (unat (tool_memory_max_bytes m))) spec_lookup ops [] = Some (rs, L)"
proof -
  from tool_mem.run_rep [OF empty_memory_rep assms(2) [unfolded assms(1)]] show ?thesis unfolding assms(1) by blast
qed

lemma free_entries_inv: "tm_inv m es \<Longrightarrow> \<exists>m'. free_entries m = Some m' \<and> tm_inv m' []"
proof (induction es arbitrary: m rule: rev_induct)
  case Nil
  then have "tm_tail m = None" by (simp add: tm_inv_def linked_def)
  then show ?case using Nil by (subst free_entries.simps) simp
next
  case (snoc t es)
  then have "tm_tail m = Some t" by (simp add: tm_inv_def linked_def)
  moreover obtain m1 where "tool_memory_remove_entry_locked t m = Some m1" "tm_inv m1 es"
    using remove_entry_inv [of m es t "[]"] snoc.prems by auto
  ultimately show ?case using snoc.IH by (subst free_entries.simps) simp
qed

lemma empty_heap: "tm_inv m [] \<Longrightarrow> tm_entry m = Map.empty \<and> tm_block m = Map.empty"
proof -
  assume inv: "tm_inv m []"
  then have "dom (tm_entry m) = {}" by (simp add: tm_inv_def)
  then have e: "tm_entry m = Map.empty" by simp
  have "tm_block m b = None" for b
  proof (cases "tm_block m b")
    case (Some k)
    then obtain ls where "ls \<noteq> []" "block_ok (core (tm_entry m)) b k ls" using inv unfolding tm_inv_def shape_def by blast
    moreover have "core (tm_entry m) a = None" for a by (simp add: e core_def)
    ultimately show ?thesis by (simp add: block_ok_def)
  qed
  then show ?thesis using e by auto
qed

text \<open>
  C31.  The memory stays within its limits and loses nothing: after every sequence of operations the counters of
  ids and bytes are at most the limits, and freeing it leaves no entry and no block allocated, so that
  every reference count has come down to zero exactly when its last entry went.
\<close>

theorem tool_memory_bounded_no_leak:
  assumes "m = empty_memory n w" "list_all (op_fits (text_fits (tool_memory_max_bytes m))) ops"
    "run_ops tool_memory_put_locked lookup_text ops m = Some (rs, m')"
  shows "tm_entries m' \<le> tool_memory_max_entries m \<and> tm_bytes m' \<le> tool_memory_max_bytes m \<and>
    (\<exists>z. tool_memory_free m' = Some z \<and> tm_entry z = Map.empty \<and> tm_block z = Map.empty)"
proof -
  from tool_mem.run_rep [OF empty_memory_rep assms(2) [unfolded assms(1)]] obtain L where
    "tm_rep (tool_memory_max_entries m) (tool_memory_max_bytes m) m' L" using assms(3) unfolding assms(1) by auto
  then obtain es where es: "tm_inv m' es" "contents m' es = L" and b: "int (length L) \<le> tool_memory_max_entries m"
      "texts_size L \<le> unat (tool_memory_max_bytes m)" by (auto simp: tm_rep_def)
  have "tm_entries m' = int (length L)" "unat (tm_bytes m') = texts_size L"
    using es cost_contents [OF es(1)] by (auto simp: tm_inv_def contents_def)
  moreover obtain m1 where "free_entries m' = Some m1" "tm_inv m1 []" using free_entries_inv [OF es(1)] by blast
  ultimately show ?thesis using b empty_heap [of m1] by (auto simp: word_le_nat_alt tool_memory_free_def)
qed

text \<open>Three texts under two ids, the second of them replaced.\<close>

definition sample_ops :: "tool_memory_op list" where
  "sample_ops = [Put (Some ''a'') (Some ''x'') TOOL_MEMORY_RAM, Put (Some ''b'') (Some ''x'') TOOL_MEMORY_DISK, Lookup (Some ''a''),
     Put (Some ''c'') (Some ''y'') TOOL_MEMORY_RAM, Lookup (Some ''b''), Lookup (Some ''a'')]"

lemma sample_ops_ok: "list_all (op_fits (text_fits (tool_memory_max_bytes (empty_memory 2 300)))) sample_ops"
  by (simp add: sample_ops_def op_fits_def text_fits_def tool_memory_max_bytes_def empty_memory_def or_default_def)

lemma sample_limits: "tool_memory_max_entries (empty_memory 2 300) = 2" "unat (tool_memory_max_bytes (empty_memory 2 300)) = 300"
  by (simp_all add: tool_memory_max_entries_def tool_memory_max_bytes_def empty_memory_def)

theorem tool_memory_refines_lru_witness:
  "\<exists>rs m' L. run_ops tool_memory_put_locked lookup_text sample_ops (empty_memory 2 300) = Some (rs, m') \<and>
    run_ops (spec_put 2 300) spec_lookup sample_ops [] = Some (rs, L) \<and>
    rs = [Some (''x'', TOOL_MEMORY_RAM), None, Some (''x'', TOOL_MEMORY_RAM)]"
proof -
  have "map_option fst (run_ops (spec_put 2 300) spec_lookup sample_ops []) =
    Some [Some (''x'', TOOL_MEMORY_RAM), None, Some (''x'', TOOL_MEMORY_RAM)]" by code_simp
  then show ?thesis using tool_memory_refines_lru [OF refl sample_ops_ok] unfolding sample_limits by auto
qed

theorem tool_memory_bounded_no_leak_witness:
  "\<exists>rs m' z. run_ops tool_memory_put_locked lookup_text sample_ops (empty_memory 2 300) = Some (rs, m') \<and> tm_entries m' \<le> 2 \<and>
    tool_memory_free m' = Some z \<and> tm_entry z = Map.empty \<and> tm_block z = Map.empty"
proof -
  have "run_ops tool_memory_put_locked lookup_text sample_ops (empty_memory 2 300) \<noteq> None" by code_simp
  then obtain rs m' where r: "run_ops tool_memory_put_locked lookup_text sample_ops (empty_memory 2 300) = Some (rs, m')" by auto
  with tool_memory_bounded_no_leak [OF refl sample_ops_ok r] show ?thesis unfolding sample_limits by auto
qed

end
