(* ===== verification/ToolMarkers.thy ===== *)
theory ToolMarkers
  imports ToolArgs
begin

text \<open>
  Finding tool calls in generated text (\<^verbatim>\<open>server.c\<close>): the start and end markers in their three spellings, and the
  next whole block of tool calls.  Positions are offsets into the text.
\<close>

section \<open>Markers\<close>

definition DS4_TOOL_CALLS_START_SHORT :: string where "DS4_TOOL_CALLS_START_SHORT = ''<'' @ DS4_DSML_SHORT @ ''tool_calls>''"
definition DS4_TOOL_CALLS_END_SHORT :: string where "DS4_TOOL_CALLS_END_SHORT = ''</'' @ DS4_DSML_SHORT @ ''tool_calls>''"
definition DS4_INVOKE_START_SHORT :: string where "DS4_INVOKE_START_SHORT = ''<'' @ DS4_DSML_SHORT @ ''invoke''"
definition DS4_INVOKE_END_SHORT :: string where "DS4_INVOKE_END_SHORT = ''</'' @ DS4_DSML_SHORT @ ''invoke>''"
definition DS4_PARAM_START_SHORT :: string where "DS4_PARAM_START_SHORT = ''<'' @ DS4_DSML_SHORT @ ''parameter''"
definition DS4_PARAM_END_SHORT :: string where "DS4_PARAM_END_SHORT = ''</'' @ DS4_DSML_SHORT @ ''parameter>''"

text \<open>The least of the candidates that are there.\<close>

definition nearest :: "nat option list \<Rightarrow> nat option" where
  "nearest cs = foldl (\<lambda>best c. case c of None \<Rightarrow> best | Some i \<Rightarrow> (case best of None \<Rightarrow> Some i | Some b \<Rightarrow> if i < b then Some i else best)) None cs"

definition find_any_tool_start :: "string \<Rightarrow> nat option" where
  "find_any_tool_start s = nearest (map (strstr s) [DS4_TOOL_CALLS_START, DS4_TOOL_CALLS_START_SHORT, ''<tool_calls>'', ''<tool_call>''])"

definition find_any_tool_end :: "string \<Rightarrow> nat option" where
  "find_any_tool_end s = nearest (map (strstr s) [DS4_TOOL_CALLS_END, DS4_TOOL_CALLS_END_SHORT, ''</tool_calls>'', ''</tool_call>''])"

text \<open>The three flags are \<^verbatim>\<open>saw_start\<close>, \<^verbatim>\<open>saw_end\<close> and \<^verbatim>\<open>orphan_end\<close>.\<close>

definition observe_tool_markers :: "string option \<Rightarrow> bool \<times> bool \<times> bool \<Rightarrow> bool \<times> bool \<times> bool" where
  "observe_tool_markers scan flags = (case scan of None \<Rightarrow> flags | Some s \<Rightarrow>
     (case flags of (saw_start, saw_end, orphan_end) \<Rightarrow>
       (let start = find_any_tool_start s;
            end_scan = (if saw_start then Some s else map_option (\<lambda>i. drop i s) start);
            found = (case end_scan of None \<Rightarrow> None | Some t \<Rightarrow> find_any_tool_end t)
        in if found \<noteq> None then (saw_start \<or> start \<noteq> None, True, orphan_end)
           else if \<not> saw_start \<and> start = None \<and> find_any_tool_end s \<noteq> None then (saw_start, saw_end, True)
           else (saw_start \<or> start \<noteq> None, saw_end, orphan_end))))"

text \<open>The loop of \<^verbatim>\<open>find_last_substr\<close>, from an offset on.\<close>

function find_last_from :: "string \<Rightarrow> string \<Rightarrow> nat \<Rightarrow> nat option \<Rightarrow> nat option" where
  "find_last_from s needle off best =
     (case strstr (drop off s) needle of None \<Rightarrow> best
      | Some i \<Rightarrow> if needle = [] then best else find_last_from s needle (Suc (off + i)) (Some (off + i)))"
  by pat_completeness auto
termination find_last_from
  by (relation "measure (\<lambda>(s, needle, off, best). length s - off)") (auto dest!: strstr_Some simp: length_greater_0_conv [symmetric] simp del: length_greater_0_conv)

declare find_last_from.simps [simp del]

definition find_last_substr :: "string \<Rightarrow> string \<Rightarrow> nat option" where
  "find_last_substr s needle = (if needle = [] then None else find_last_from s needle 0 None)"

definition skip_ascii_ws :: "string \<Rightarrow> string" where
  "skip_ascii_ws p = dropWhile isspace p"

fun trim_tool_separator_ws :: "string \<Rightarrow> nat \<Rightarrow> nat \<Rightarrow> nat" where
  "trim_tool_separator_ws raw start 0 = 0"
| "trim_tool_separator_ws raw start (Suc limit) =
     (if start \<le> limit \<and> isspace (raw ! limit) then trim_tool_separator_ws raw start limit else Suc limit)"

section \<open>Blocks\<close>

definition block_forms :: "(string \<times> string) list" where
  "block_forms = [(nl @ nl @ DS4_TOOL_CALLS_START, DS4_TOOL_CALLS_END), (DS4_TOOL_CALLS_START, DS4_TOOL_CALLS_END),
     (nl @ nl @ DS4_TOOL_CALLS_START_SHORT, DS4_TOOL_CALLS_END_SHORT), (DS4_TOOL_CALLS_START_SHORT, DS4_TOOL_CALLS_END_SHORT),
     (nl @ nl @ ''<tool_calls>'', ''</tool_calls>''), (''<tool_calls>'', ''</tool_calls>'')]"

fun next_block :: "string \<Rightarrow> (string \<times> string) list \<Rightarrow> (nat \<times> nat) option \<Rightarrow> (nat \<times> nat) option" where
  "next_block p [] best = best"
| "next_block p ((st, en) # forms) best = (case strstr p st of None \<Rightarrow> next_block p forms best
     | Some i \<Rightarrow>
         if (case best of None \<Rightarrow> False | Some (b, _) \<Rightarrow> i \<ge> b) then next_block p forms best
         else (case strstr (drop i p) en of None \<Rightarrow> next_block p forms best
           | Some j \<Rightarrow> next_block p forms (Some (i, i + j + length en))))"

text \<open>The start and the end of the first block, as offsets.\<close>

definition find_next_dsml_tool_block :: "string \<Rightarrow> (nat \<times> nat) option" where
  "find_next_dsml_tool_block p = next_block p block_forms None"

lemma next_block_bounds:
  "next_block p forms best = Some (i, e) \<Longrightarrow> list_all (\<lambda>f. snd f \<noteq> []) forms \<Longrightarrow> (\<And>b f. best = Some (b, f) \<Longrightarrow> b < f \<and> f \<le> length p) \<Longrightarrow>
     i < e \<and> e \<le> length p"
proof (induction forms arbitrary: best)
  case (Cons f forms)
  obtain st en where f: "f = (st, en)" by (cases f)
  show ?case
  proof (cases "\<exists>k j. strstr p st = Some k \<and> strstr (drop k p) en = Some j \<and> next_block p (f # forms) best = next_block p forms (Some (k, k + j + length en))")
    case True
    then obtain k j where k: "strstr p st = Some k" "strstr (drop k p) en = Some j"
      "next_block p forms (Some (k, k + j + length en)) = Some (i, e)" using Cons.prems(1) by auto
    have "k \<le> length p" using strstr_Some [OF k(1)] by simp
    moreover have "en \<noteq> []" using Cons.prems(2) f by simp
    ultimately have "k < k + j + length en \<and> k + j + length en \<le> length p" 
      using strstr_Some [OF k(2)] by (auto simp: length_greater_0_conv [symmetric] simp del: length_greater_0_conv)
    then show ?thesis using Cons.IH [OF k(3)] Cons.prems(2) by simp
  next
    case False
    then have "next_block p forms best = Some (i, e)" using Cons.prems(1) f by (auto split: option.splits if_splits)
    then show ?thesis using Cons.IH Cons.prems(2,3) by simp
  qed
qed auto

lemma find_next_bounds: "find_next_dsml_tool_block p = Some (i, e) \<Longrightarrow> i < e \<and> e \<le> length p"
  unfolding find_next_dsml_tool_block_def
  by (erule next_block_bounds)
    (auto simp: block_forms_def DS4_TOOL_CALLS_END_def DS4_TOOL_CALLS_END_SHORT_def)

end
