(* ===== verification/ToolMap.thy ===== *)
theory ToolMap
  imports ToolMemoryProofs ToolMarkers Continuation KvSession
begin

text \<open>
  The tool texts of a checkpoint (\<^verbatim>\<open>server.c\<close>): the trailer of a checkpoint file holds, for every block of tool
  calls in its text that the memory knows, the ids and the text, so that a later process can replay
  the conversation byte for byte.  The writer visits the blocks of the text in order and marks a block
  it has written with the number of the scan.
\<close>

section \<open>Visiting the blocks of a text\<close>

partial_function (option) block_ids :: "addr option \<Rightarrow> tool_memory \<Rightarrow> string list option" where
  "block_ids p m = (case p of None \<Rightarrow> Some []
     | Some a \<Rightarrow> do { e \<leftarrow> tm_entry m a; ids \<leftarrow> block_ids (te_block_next e) m; Some (te_id e # ids) })"

declare block_ids.simps [code]

definition visit_block :: "u64 \<Rightarrow> string \<Rightarrow> tool_memory \<Rightarrow> ((string \<times> string list) list \<times> tool_memory) option" where
  "visit_block scan d m = (case tool_memory_find_block_locked m d of None \<Rightarrow> Some ([], m)
     | Some b \<Rightarrow> do {
         k \<leftarrow> tm_block m b;
         if tb_seen k = scan then Some ([], m)
         else do {
           m1 \<leftarrow> mod_block b (\<lambda>k. k\<lparr>tb_seen := scan\<rparr>) m;
           ids \<leftarrow> block_ids (tb_entries k) m1;
           Some ([(tb_dsml k, ids)], m1) } })"

function visit_blocks :: "u64 \<Rightarrow> string \<Rightarrow> tool_memory \<Rightarrow> ((string \<times> string list) list \<times> tool_memory) option" where
  "visit_blocks scan p m = (case find_next_dsml_tool_block p of None \<Rightarrow> Some ([], m)
     | Some (i, e) \<Rightarrow> (case visit_block scan (take (e - i) (drop i p)) m of None \<Rightarrow> None
         | Some (here, m1) \<Rightarrow> (case visit_blocks scan (drop e p) m1 of None \<Rightarrow> None
             | Some (others, m2) \<Rightarrow> Some (here @ others, m2))))"
  by pat_completeness auto
termination visit_blocks
  by (relation "measure (\<lambda>(_, p, _). length p)") (auto dest!: find_next_bounds)

declare visit_blocks.simps [simp del]

section \<open>Writing\<close>

text \<open>An id of a block that fits the format, and the sizes it adds.\<close>

definition storable :: "string \<Rightarrow> string \<Rightarrow> bool" where
  "storable d i \<longleftrightarrow> \<not> (length i > UINT32_MAX \<or> length d > UINT32_MAX)"

fun measure_ids :: "string \<Rightarrow> string list \<Rightarrow> u32 \<times> u64 \<Rightarrow> (u32 \<times> u64) option" where
  "measure_ids d [] acc = Some acc"
| "measure_ids d (i # ids) (cnt, n) =
     (if \<not> storable d i then measure_ids d ids (cnt, n)
      else if unat cnt = UINT32_MAX then None
      else if UINT64_MAX - n < 8 \<or> UINT64_MAX - n - 8 < word_of_nat (length i) \<or>
              UINT64_MAX - n - 8 - word_of_nat (length i) < word_of_nat (length d) then None
      else measure_ids d ids (cnt + 1, n + (8 + word_of_nat (length i) + word_of_nat (length d))))"

fun measure_visited :: "(string \<times> string list) list \<Rightarrow> u32 \<times> u64 \<Rightarrow> (u32 \<times> u64) option" where
  "measure_visited [] acc = Some acc"
| "measure_visited ((d, ids) # vs) acc = (case measure_ids d ids acc of None \<Rightarrow> None | Some acc' \<Rightarrow> measure_visited vs acc')"

definition KV_TOOL_MAP_HEADER :: u64 where "KV_TOOL_MAP_HEADER = 8"

text \<open>
  Nothing when the sizes pass their types.  The code stops its scan there, and leaves the blocks it has not
  reached unmarked; the mark of a scan is only compared with the number of that scan.
\<close>

definition kv_tool_map_measure_locked :: "string \<Rightarrow> tool_memory \<Rightarrow> ((u32 \<times> u64) option \<times> tool_memory) option" where
  "kv_tool_map_measure_locked tx m = (let scan = tm_scan_clock m + 1 in
     case visit_blocks scan tx (m\<lparr>tm_scan_clock := scan\<rparr>) of None \<Rightarrow> None
     | Some (vs, m1) \<Rightarrow> Some (map_option (\<lambda>(cnt, n). (cnt, if cnt = 0 then 0 else n)) (measure_visited vs (0, KV_TOOL_MAP_HEADER)), m1))"

definition kv_tool_map_serialized_size :: "bool \<Rightarrow> string option \<Rightarrow> tool_memory \<Rightarrow> ((bool \<times> u64) \<times> tool_memory) option" where
  "kv_tool_map_serialized_size disabled tx m =
     (if disabled \<or> of_ptr tx = [] then Some ((True, 0), m)
      else map_option (\<lambda>(r, m1). (case r of None \<Rightarrow> (False, 0) | Some (_, n) \<Rightarrow> (True, n), m1)) (kv_tool_map_measure_locked (of_ptr tx) m))"

definition encode_entry :: "string \<Rightarrow> string \<Rightarrow> bytes" where
  "encode_entry d i = kv_store_le_put32 (word_of_nat (length i)) @ kv_store_le_put32 (word_of_nat (length d)) @ bytes_of i @ bytes_of d"

definition encode_visited :: "(string \<times> string list) list \<Rightarrow> bytes" where
  "encode_visited vs = concat (map (\<lambda>(d, ids). concat (map (encode_entry d) (filter (storable d) ids))) vs)"

definition tool_map_header :: "u32 \<Rightarrow> bytes" where
  "tool_map_header cnt = bytes_of ''KTM'' @ [1] @ kv_store_le_put32 cnt"

text \<open>The success, the bytes and the count reported; whether the bytes reach the file is up to the caller.\<close>

definition kv_tool_map_write :: "bool \<Rightarrow> string option \<Rightarrow> tool_memory \<Rightarrow> ((bool \<times> bytes \<times> u64) \<times> tool_memory) option" where
  "kv_tool_map_write disabled tx m =
     (if disabled \<or> of_ptr tx = [] then Some ((True, [], 0), m)
      else (case kv_tool_map_measure_locked (of_ptr tx) m of None \<Rightarrow> None
        | Some (None, m1) \<Rightarrow> Some ((False, [], 0), m1)
        | Some (Some (cnt, n), m1) \<Rightarrow>
            if cnt = 0 then Some ((True, [], 0), m1)
            else (let scan = tm_scan_clock m1 + 1 in
              case visit_blocks scan (of_ptr tx) (m1\<lparr>tm_scan_clock := scan\<rparr>) of None \<Rightarrow> None
              | Some (vs, m2) \<Rightarrow> Some ((True, tool_map_header cnt @ encode_visited vs, n), m2))))"

section \<open>Loading\<close>

definition tool_memory_put_source :: "bool \<Rightarrow> string option \<Rightarrow> string option \<Rightarrow> tool_memory_source \<Rightarrow> tool_memory \<Rightarrow> tool_memory option" where
  "tool_memory_put_source disabled i d source m =
     (if disabled \<or> of_ptr i = [] \<or> of_ptr d = [] then Some m else tool_memory_put_locked i d source m)"

primrec load_entries :: "stop_list option \<Rightarrow> nat \<Rightarrow> bytes \<Rightarrow> int \<Rightarrow> tool_memory \<Rightarrow> (int \<times> tool_memory) option" where
  "load_entries wanted 0 fp n_loaded m = Some (n_loaded, m)"
| "load_entries wanted (Suc cnt) fp n_loaded m =
     (if length fp < 8 then Some (n_loaded, m)
      else (let id_len = unat (kv_store_le_get32 fp); dsml_len = unat (kv_store_le_get32 (drop 4 fp)) in
        if id_len = 0 \<or> id_len > 256 \<or> dsml_len = 0 \<or> dsml_len > unat DS4_TOOL_MEMORY_MAX_BYTES then Some (n_loaded, m)
        else if length fp < 8 + id_len + dsml_len then Some (n_loaded, m)
        else (let i = cstr (string_of_bytes (take id_len (drop 8 fp))); d = cstr (string_of_bytes (take dsml_len (drop (8 + id_len) fp)));
                  fp' = drop (8 + id_len + dsml_len) fp in
          if wanted = None \<or> id_list_contains (the wanted) (Some i)
          then (case tool_memory_put_source False (Some i) (Some d) TOOL_MEMORY_DISK m of None \<Rightarrow> None
            | Some m1 \<Rightarrow> load_entries wanted cnt fp' (n_loaded + 1) m1)
          else load_entries wanted cnt fp' n_loaded m)))"

definition kv_tool_map_load_from_pos :: "bool \<Rightarrow> bytes option \<Rightarrow> stop_list option \<Rightarrow> tool_memory \<Rightarrow> (int \<times> tool_memory) option" where
  "kv_tool_map_load_from_pos disabled fp wanted m = (case fp of None \<Rightarrow> Some (0, m) | Some b \<Rightarrow>
     if disabled then Some (0, m)
     else if length b < 8 then Some (0, m)
     else if take 3 b \<noteq> bytes_of ''KTM'' \<or> b ! 3 \<noteq> 1 then Some (0, m)
     else (let cnt = kv_store_le_get32 (drop 4 b) in
       if int (unat cnt) > tool_memory_max_entries m * 4 then Some (0, m)
       else load_entries wanted (unat cnt) (drop 8 b) 0 m))"

section \<open>A scan only marks\<close>

definition unmarked :: "tool_memory_block \<Rightarrow> tool_memory_block" where
  "unmarked k = k\<lparr>tb_seen := 0\<rparr>"

definition alike :: "tool_memory \<Rightarrow> tool_memory \<Rightarrow> bool" where
  "alike m m' \<longleftrightarrow> (\<forall>b. map_option unmarked (tm_block m' b) = map_option unmarked (tm_block m b)) \<and> tm_entry m' = tm_entry m \<and>
     tm_by_id m' = tm_by_id m \<and> tm_by_block m' = tm_by_block m \<and> tm_head m' = tm_head m \<and> tm_tail m' = tm_tail m \<and>
     tm_entries m' = tm_entries m \<and> tm_max_entries m' = tm_max_entries m \<and> tm_bytes m' = tm_bytes m \<and> tm_max_bytes m' = tm_max_bytes m \<and>
     tm_brk m' = tm_brk m"

lemma alike_refl [simp]: "alike m m" "alike m (m\<lparr>tm_scan_clock := c\<rparr>)"
  by (simp_all add: alike_def)

lemma alike_sym: "alike m m' \<Longrightarrow> alike m' m"
  by (simp add: alike_def)

lemma alike_trans: "alike m m' \<Longrightarrow> alike m' m'' \<Longrightarrow> alike m m''"
  by (simp add: alike_def)

lemma alike_block:
  assumes "alike m m'" "tm_block m' b = Some k'"
  shows "\<exists>k. tm_block m b = Some k \<and> tb_dsml k = tb_dsml k' \<and> tb_len k = tb_len k' \<and> tb_bytes k = tb_bytes k' \<and> tb_refs k = tb_refs k' \<and>
    tb_entries k = tb_entries k'"
proof -
  have "map_option unmarked (tm_block m b) = Some (unmarked k')" using assms unfolding alike_def by (metis option.simps(9))
  then obtain k where "tm_block m b = Some k" "unmarked k = unmarked k'" by auto
  then show ?thesis by (cases k; cases k') (auto simp: unmarked_def)
qed

lemma alike_ok: "alike m m' \<Longrightarrow> tm_block m' b = Some k' \<Longrightarrow> tm_block m b = Some k \<Longrightarrow> block_ok h b k ls \<Longrightarrow> block_fields k \<Longrightarrow> block_ok h b k' ls \<and> block_fields k'"
  using alike_block [of m m' b k'] by (auto simp: block_ok_def block_fields_def)

lemma alike_dom: "alike m m' \<Longrightarrow> dom (tm_block m') = dom (tm_block m)"
  using alike_block [of m m'] alike_block [OF alike_sym, of m m'] by blast

lemma view_dsml: "view m a = do { e \<leftarrow> core (tm_entry m) a; b \<leftarrow> te_block e; d \<leftarrow> map_option tb_dsml (tm_block m b); Some (te_id e, d, te_source e) }"
  by (auto simp: view_def split: bind_split)

lemma alike_inv:
  assumes a: "alike m m'" and inv: "tm_inv m es"
  shows "tm_inv m' es" "view m' = view m"
proof -
  have e: "tm_entry m' = tm_entry m" "tm_by_id m' = tm_by_id m" "tm_by_block m' = tm_by_block m" "tm_head m' = tm_head m" "tm_tail m' = tm_tail m"
    "tm_entries m' = tm_entries m" "tm_bytes m' = tm_bytes m" "tm_brk m' = tm_brk m" using a by (simp_all add: alike_def)
  have d: "map_option tb_dsml (tm_block m' b) = map_option tb_dsml (tm_block m b)" for b
    using alike_block [OF a, of b] alike_block [OF alike_sym [OF a], of b] by (cases "tm_block m' b"; cases "tm_block m b") auto
  have sh: "shape (core (tm_entry m)) (tm_block m')"
  proof -
    have "shape (core (tm_entry m)) (tm_block m)" using inv by (simp add: tm_inv_def)
    moreover have "block_fields k' \<and> (\<exists>ls. ls \<noteq> [] \<and> block_ok (core (tm_entry m)) b k' ls)" if k': "tm_block m' b = Some k'" for b k'
    proof -
      obtain k where k: "tm_block m b = Some k" using alike_block [OF a k'] by blast
      then obtain ls where "block_fields k" "ls \<noteq> []" "block_ok (core (tm_entry m)) b k ls" using calculation unfolding shape_def by blast
      then show ?thesis using alike_ok [OF a k' k] by blast
    qed
    moreover have "\<exists>k. tm_block m' b = Some k" if "tm_block m b = Some k" for b k using alike_block [OF alike_sym [OF a] that] by blast
    ultimately show ?thesis unfolding shape_def by blast
  qed
  have "cost (core (tm_entry m)) (tm_block m') = cost (core (tm_entry m)) (tm_block m)"
  proof -
    have "length (tb_dsml (the (tm_block m' b))) = length (tb_dsml (the (tm_block m b)))" if "b \<in> dom (tm_block m)" for b
      using d [of b] that by (cases "tm_block m' b") auto
    then show ?thesis using alike_dom [OF a] by (simp add: cost_def)
  qed
  moreover have "(\<exists>k. tm_block m' b = Some k \<and> tb_dsml k = x) \<longleftrightarrow> (\<exists>k. tm_block m b = Some k \<and> tb_dsml k = x)" for b x
    using d [of b] by (cases "tm_block m' b"; cases "tm_block m b") auto
  ultimately show "tm_inv m' es" using inv sh alike_dom [OF a] e by (simp add: tm_inv_def linked_def)
  show "view m' = view m" by (rule ext) (simp add: view_dsml d e(1))
qed

section \<open>What a scan visits\<close>

lemma block_ids_blist: "blist (tm_entry m) p ls \<Longrightarrow> block_ids p m = Some (map (\<lambda>a. te_id (the (tm_entry m a))) ls)"
  by (induction ls arbitrary: p) (subst block_ids.simps, auto)+

definition text_ids :: "tool_memory \<Rightarrow> string \<Rightarrow> string list" where
  "text_ids m d = (case tm_by_block m d of None \<Rightarrow> [] | Some b \<Rightarrow> the (block_ids (tb_entries (the (tm_block m b))) m))"

lemma block_ids_entry: "tm_entry m' = tm_entry m \<Longrightarrow> blist (tm_entry m) p ls \<Longrightarrow> block_ids p m' = block_ids p m"
  using block_ids_blist [of m p ls] block_ids_blist [of m' p ls] by simp

lemma known_block:
  assumes inv: "tm_inv m es" and d: "tm_by_block m d = Some b"
  shows "\<exists>k ls. tm_block m b = Some k \<and> tb_dsml k = d \<and> c_text d \<and> block_ids (tb_entries k) m = Some (text_ids m d) \<and>
    ls \<noteq> [] \<and> text_ids m d = map (\<lambda>a. te_id (the (tm_entry m a))) ls \<and> block_ok (core (tm_entry m)) b k ls \<and> blist (tm_entry m) (tb_entries k) ls"
proof -
  obtain k where k: "tm_block m b = Some k" "tb_dsml k = d" using inv d unfolding tm_inv_def by blast
  then obtain ls where ls: "block_ok (core (tm_entry m)) b k ls" "block_fields k" "ls \<noteq> []" using inv unfolding tm_inv_def shape_def by blast
  then have "blist (tm_entry m) (tb_entries k) ls" by (simp add: block_ok_def)
  moreover from block_ids_blist [OF this] have "text_ids m d = map (\<lambda>a. te_id (the (tm_entry m a))) ls" using d k by (simp add: text_ids_def)
  ultimately show ?thesis using k ls block_ids_blist by (auto simp: block_fields_def)
qed

lemma alike_text_ids:
  assumes "alike m m'" "tm_inv m es" shows "text_ids m' d = text_ids m d"
proof (cases "tm_by_block m d")
  case None
  then show ?thesis using assms by (simp add: text_ids_def alike_def)
next
  case (Some b)
  obtain k ls where k: "tm_block m b = Some k" "blist (tm_entry m) (tb_entries k) ls" using known_block [OF assms(2) Some] by blast
  obtain k' where k': "tm_block m' b = Some k'" "tb_entries k' = tb_entries k" using alike_block [OF alike_sym [OF assms(1)] k(1)] by auto
  have "tm_entry m' = tm_entry m" "tm_by_block m' = tm_by_block m" using assms(1) by (simp_all add: alike_def)
  then show ?thesis using Some k k' block_ids_entry [of m' m] by (simp add: text_ids_def)
qed

text \<open>The texts a scan has marked already.\<close>

definition marked :: "tool_memory \<Rightarrow> u64 \<Rightarrow> string set" where
  "marked m scan = {d. \<exists>b k. tm_by_block m d = Some b \<and> tm_block m b = Some k \<and> tb_seen k = scan}"

lemma visit_block_spec:
  assumes inv: "tm_inv m es"
  shows "\<exists>m1. visit_block scan d m = Some (if tm_by_block m d = None \<or> d \<in> marked m scan then [] else [(d, text_ids m d)], m1) \<and>
    alike m m1 \<and> marked m1 scan = (if tm_by_block m d = None then marked m scan else insert d (marked m scan)) \<and>
    (\<forall>b k. tm_block m1 b = Some k \<longrightarrow> tb_seen k = scan \<or> tm_block m b = Some k) \<and> tm_scan_clock m1 = tm_scan_clock m"
proof (cases "tm_by_block m d")
  case None
  then show ?thesis by (auto simp: visit_block_def tool_memory_find_block_locked_def)
next
  case (Some b)
  obtain k ls where k: "tm_block m b = Some k" "tb_dsml k = d" "c_text d" "block_ids (tb_entries k) m = Some (text_ids m d)"
    "blist (tm_entry m) (tb_entries k) ls" using known_block [OF inv Some] by blast
  have f: "tool_memory_find_block_locked m d = Some b" using Some k(3) by (simp add: tool_memory_find_block_locked_def c_text_def)
  have ix: "tm_by_block m x = Some c \<longleftrightarrow> (\<exists>j. tm_block m c = Some j \<and> tb_dsml j = x)" for x c using inv unfolding tm_inv_def by blast
  show ?thesis
  proof (cases "tb_seen k = scan")
    case True
    then have "d \<in> marked m scan" using Some k by (auto simp: marked_def)
    moreover have "visit_block scan d m = Some ([], m)" using f k True by (simp add: visit_block_def)
    ultimately show ?thesis by (auto simp: insert_absorb)
  next
    case False
    let ?m1 = "m\<lparr>tm_block := (tm_block m)(b \<mapsto> k\<lparr>tb_seen := scan\<rparr>)\<rparr>"
    have "d \<notin> marked m scan" using Some k False by (auto simp: marked_def)
    moreover have "visit_block scan d m = Some ([(d, text_ids m d)], ?m1)"
      using f k False block_ids_entry [of ?m1 m "tb_entries k" ls] by (simp add: visit_block_def mod_block_def)
    moreover have "alike m ?m1" using k(1) by (auto simp: alike_def unmarked_def)
    moreover have "marked ?m1 scan = insert d (marked m scan)"
    proof -
      have "x \<in> marked ?m1 scan \<longleftrightarrow> x = d \<or> x \<in> marked m scan" for x
        using k(1,2) Some ix [of x b] ix [of d b] by (auto simp: marked_def split: if_splits)
      then show ?thesis by blast
    qed
    ultimately show ?thesis using Some by auto
  qed
qed

text \<open>The blocks of tool calls in a text, in order, and the first occurrences among them.\<close>

function tool_blocks :: "string \<Rightarrow> string list" where
  "tool_blocks p = (case find_next_dsml_tool_block p of None \<Rightarrow> []
     | Some (i, e) \<Rightarrow> take (e - i) (drop i p) # tool_blocks (drop e p))"
  by pat_completeness auto
termination tool_blocks
  by (relation "measure length") (auto dest!: find_next_bounds)

declare tool_blocks.simps [simp del]

fun news :: "string set \<Rightarrow> string list \<Rightarrow> string list" where
  "news S [] = []"
| "news S (d # ds) = (if d \<in> S then news S ds else d # news (insert d S) ds)"

lemma set_news [simp]: "set (news S ds) = set ds - S"
  by (induction S ds rule: news.induct) auto

lemma distinct_news: "distinct (news S ds)"
  by (induction S ds rule: news.induct) auto

definition visited :: "tool_memory \<Rightarrow> string set \<Rightarrow> string \<Rightarrow> (string \<times> string list) list" where
  "visited m S p = map (\<lambda>d. (d, text_ids m d)) (news S (filter (\<lambda>d. tm_by_block m d \<noteq> None) (tool_blocks p)))"

lemma visit_blocks_spec:
  "tm_inv m es \<Longrightarrow> \<exists>m1. visit_blocks scan p m = Some (visited m (marked m scan) p, m1) \<and> alike m m1 \<and>
     (\<forall>b k. tm_block m1 b = Some k \<longrightarrow> tb_seen k = scan \<or> tm_block m b = Some k) \<and> tm_scan_clock m1 = tm_scan_clock m"
proof (induction p arbitrary: m rule: tool_blocks.induct)
  case (1 p)
  show ?case
  proof (cases "find_next_dsml_tool_block p")
    case None
    then show ?thesis by (simp add: visit_blocks.simps [of scan p] tool_blocks.simps [of p] visited_def)
  next
    case (Some ie)
    obtain i e where ie: "ie = (i, e)" by (cases ie)
    let ?d = "take (e - i) (drop i p)"
    obtain m1 where m1: "visit_block scan ?d m = Some (if tm_by_block m ?d = None \<or> ?d \<in> marked m scan then [] else [(?d, text_ids m ?d)], m1)"
        "alike m m1" "marked m1 scan = (if tm_by_block m ?d = None then marked m scan else insert ?d (marked m scan))"
        "\<forall>b k. tm_block m1 b = Some k \<longrightarrow> tb_seen k = scan \<or> tm_block m b = Some k" "tm_scan_clock m1 = tm_scan_clock m"
      using visit_block_spec [OF 1(2)] by blast
    obtain m2 where m2: "visit_blocks scan (drop e p) m1 = Some (visited m1 (marked m1 scan) (drop e p), m2)" "alike m1 m2"
        "\<forall>b k. tm_block m2 b = Some k \<longrightarrow> tb_seen k = scan \<or> tm_block m1 b = Some k" "tm_scan_clock m2 = tm_scan_clock m1"
      using 1(1) [OF Some ie [symmetric] alike_inv(1) [OF m1(2) 1(2)]] by blast
    have "tm_by_block m1 = tm_by_block m" "text_ids m1 = text_ids m" using m1(2) alike_text_ids [OF m1(2) 1(2)] by (auto simp: alike_def)
    then have "(if tm_by_block m ?d = None \<or> ?d \<in> marked m scan then [] else [(?d, text_ids m ?d)]) @ visited m1 (marked m1 scan) (drop e p) =
      visited m (marked m scan) p"
      using m1(3) Some ie by (simp add: visited_def tool_blocks.simps [of p] insert_absorb)
    then have "visit_blocks scan p m = Some (visited m (marked m scan) p, m2)"
      using Some ie m1(1) m2(1) by (simp add: visit_blocks.simps [of scan p])
    then show ?thesis using alike_trans [OF m1(2) m2(2)] m1(4,5) m2(3,4) by auto
  qed
qed

section \<open>The written bytes\<close>

text \<open>The pairs of id and text in the order they are written.\<close>

definition pairs_of :: "(string \<times> string list) list \<Rightarrow> (string \<times> string) list" where
  "pairs_of vs = concat (map (\<lambda>(d, ids). map (\<lambda>i. (i, d)) (filter (storable d) ids)) vs)"

lemma encode_pairs: "encode_visited vs = concat (map (\<lambda>(i, d). encode_entry d i) (pairs_of vs))"
  by (induction vs) (auto simp: encode_visited_def pairs_of_def comp_def)

lemma length_encode_entry [simp]: "length (encode_entry d i) = 8 + length i + length d"
  by (simp add: encode_entry_def)

lemma storable_unat: "storable d i \<Longrightarrow> unat (word_of_nat (length i) :: u64) = length i \<and> unat (word_of_nat (length d) :: u64) = length d"
  by (simp add: storable_def unat_of_nat)

lemma measure_ids_exact:
  "measure_ids d ids (c, n) = Some (c', n') \<Longrightarrow> unat c' = unat c + length (filter (storable d) ids) \<and>
     unat n' = unat n + length (concat (map (encode_entry d) (filter (storable d) ids)))"
proof (induction ids arbitrary: c n)
  case (Cons i ids)
  show ?case
  proof (cases "storable d i")
    case True
    let ?i = "word_of_nat (length i) :: u64" and ?d = "word_of_nat (length d) :: u64"
    have nc: "unat c \<noteq> UINT32_MAX" and g: "\<not> UINT64_MAX - n < 8" "\<not> UINT64_MAX - n - 8 < ?i" "\<not> UINT64_MAX - n - 8 - ?i < ?d"
      and r: "measure_ids d ids (c + 1, n + (8 + ?i + ?d)) = Some (c', n')"
      using Cons.prems True by (auto split: if_splits)
    have u: "unat ?i = length i" "unat ?d = length d" using storable_unat [OF True] by simp_all
    define x where "x = UINT64_MAX - n"
    have s0: "unat x = 2 ^ 64 - 1 - unat n"
      unfolding x_def by (subst unat_sub_le) (use unat_u64_less [of n] in \<open>simp_all add: word_le_nat_alt\<close>)
    have s1: "8 \<le> x" "?i \<le> x - 8" "?d \<le> x - 8 - ?i" using g by (simp_all only: not_less x_def)
    have s2: "unat (x - 8) = unat x - 8" "unat (x - 8 - ?i) = unat x - 8 - length i" using s1(1,2) u by (simp_all add: unat_sub_le)
    have "8 \<le> unat x" "length i \<le> unat x - 8" "length d \<le> unat x - 8 - length i"
      using s1 s2 u unfolding word_le_nat_alt by simp_all
    then have "8 \<le> 2 ^ 64 - 1 - unat n" "length i \<le> 2 ^ 64 - 1 - unat n - 8" "length d \<le> 2 ^ 64 - 1 - unat n - 8 - length i"
      unfolding s0 by simp_all
    then have le: "unat n + (8 + length i + length d) < 2 ^ 64" by linarith
    have "unat (8 + ?i + ?d) = 8 + length i + length d"
      using le u by (simp add: unat_add_no_wrap)
    then have "unat (n + (8 + ?i + ?d)) = unat n + (8 + length i + length d)" using le by (subst unat_add_no_wrap) simp_all
    moreover have "unat (c + 1) = unat c + 1" using nc unat_u32_less [of c] by (subst unat_add_no_wrap) simp_all
    ultimately show ?thesis using Cons.IH [OF r] True by simp
  next
    case False
    then show ?thesis using Cons by simp
  qed
qed simp

lemma measure_visited_exact:
  "measure_visited vs (c, n) = Some (c', n') \<Longrightarrow> unat c' = unat c + length (pairs_of vs) \<and> unat n' = unat n + length (encode_visited vs)"
proof (induction vs arbitrary: c n)
  case (Cons v vs)
  obtain d ids where v: "v = (d, ids)" by (cases v)
  obtain c1 n1 where m: "measure_ids d ids (c, n) = Some (c1, n1)" "measure_visited vs (c1, n1) = Some (c', n')"
    using Cons.prems v by (auto split: option.splits)
  show ?case using measure_ids_exact [OF m(1)] Cons.IH [OF m(2)] v by (simp add: pairs_of_def encode_visited_def)
qed (simp add: pairs_of_def encode_visited_def)

section \<open>Loading what was written\<close>

text \<open>A pair the loader accepts.\<close>

definition loadable :: "string \<times> string \<Rightarrow> bool" where
  "loadable x \<longleftrightarrow> c_text (fst x) \<and> length (fst x) \<le> 256 \<and> c_text (snd x) \<and> length (snd x) \<le> 536870912"

fun put_texts :: "(string \<times> string) list \<Rightarrow> tool_memory \<Rightarrow> tool_memory option" where
  "put_texts [] m = Some m"
| "put_texts ((i, d) # ps) m = do { m1 \<leftarrow> tool_memory_put_locked (Some i) (Some d) TOOL_MEMORY_DISK m; put_texts ps m1 }"

lemma load_entry:
  assumes "loadable (i, d)"
  shows "load_entries None (Suc n) (encode_entry d i @ b) c m =
    (case tool_memory_put_locked (Some i) (Some d) TOOL_MEMORY_DISK m of None \<Rightarrow> None | Some m1 \<Rightarrow> load_entries None n b (c + 1) m1)"
proof -
  note l = assms [unfolded loadable_def c_text_def, simplified]
  have len: "unat (kv_store_le_get32 (encode_entry d i @ b)) = length i" "unat (kv_store_le_get32 (drop 4 (encode_entry d i @ b))) = length d"
    using l le_get_put32 [of "word_of_nat (length i)"] le_get_put32 [of "word_of_nat (length d)"]
    by (simp_all add: encode_entry_def unat_of_nat)
  have s: "take (length i) (drop 8 (encode_entry d i @ b)) = bytes_of i" "take (length d) (drop (8 + length i) (encode_entry d i @ b)) = bytes_of d"
    "drop (8 + length i + length d) (encode_entry d i @ b) = b"
    by (simp_all add: encode_entry_def)
  have "unat DS4_TOOL_MEMORY_MAX_BYTES = 536870912" by (simp add: DS4_TOOL_MEMORY_MAX_BYTES_def)
  then show ?thesis
    using l len s by (simp add: Let_def tool_memory_put_source_def cstr_id or_default_def)
qed

lemma load_entries_pairs:
  "list_all loadable ps \<Longrightarrow> load_entries None (length ps) (concat (map (\<lambda>(i, d). encode_entry d i) ps)) c m =
     map_option (\<lambda>m'. (c + int (length ps), m')) (put_texts ps m)"
proof (induction ps arbitrary: c m)
  case (Cons x ps)
  obtain i d where x: "x = (i, d)" by (cases x)
  show ?case
    using load_entry [of i d "length ps"] Cons x by (auto simp: option.map_comp comp_def add.assoc simp del: load_entries.simps split: option.split bind_split)
qed simp

section \<open>Round trip\<close>

text \<open>No scan is ahead of its clock, and the clock can count two more.\<close>

definition scan_ok :: "tool_memory \<Rightarrow> bool" where
  "scan_ok m \<longleftrightarrow> (\<forall>b k. tm_block m b = Some k \<longrightarrow> tb_seen k \<le> tm_scan_clock m) \<and> unat (tm_scan_clock m) + 2 < 2 ^ 64"

lemma unseen:
  assumes "\<And>b k. tm_block m b = Some k \<Longrightarrow> unat (tb_seen k) < unat w" shows "marked m w = {}"
  using assms unfolding marked_def by fastforce

lemma alike_visited: "alike m m' \<Longrightarrow> tm_inv m es \<Longrightarrow> visited m' S p = visited m S p"
  using alike_text_ids [of m m' es] by (simp add: visited_def alike_def)

lemma measure_spec:
  assumes inv: "tm_inv m es" and sc: "scan_ok m"
  shows "\<exists>m1. kv_tool_map_measure_locked tx m = Some (map_option (\<lambda>(cnt, n). (cnt, if cnt = 0 then 0 else n))
      (measure_visited (visited m {} tx) (0, 8)), m1) \<and> alike m m1 \<and> tm_scan_clock m1 = tm_scan_clock m + 1 \<and>
    (\<forall>b k. tm_block m1 b = Some k \<longrightarrow> unat (tb_seen k) \<le> unat (tm_scan_clock m) + 1)"
proof -
  let ?w = "tm_scan_clock m + 1" and ?m = "m\<lparr>tm_scan_clock := tm_scan_clock m + 1\<rparr>"
  have w: "unat ?w = unat (tm_scan_clock m) + 1" using sc by (subst unat_add_no_wrap) (simp_all add: scan_ok_def)
  have le: "unat (tb_seen k) \<le> unat (tm_scan_clock m)" if "tm_block m b = Some k" for b k
    using sc that unfolding scan_ok_def word_le_nat_alt by blast
  have a: "alike m ?m" by simp
  have inv1: "tm_inv ?m es" by (rule alike_inv(1) [OF a inv])
  have mk: "marked ?m ?w = {}" by (rule unseen) (use le w in fastforce)
  obtain m1 where m1: "visit_blocks ?w tx ?m = Some (visited ?m {} tx, m1)" "alike ?m m1" "tm_scan_clock m1 = ?w"
      "\<forall>b k. tm_block m1 b = Some k \<longrightarrow> tb_seen k = ?w \<or> tm_block ?m b = Some k"
    using visit_blocks_spec [OF inv1, of ?w tx] mk by auto
  have "unat (tb_seen k) \<le> unat (tm_scan_clock m) + 1" if k: "tm_block m1 b = Some k" for b k
  proof -
    have "tb_seen k = ?w \<or> tm_block m b = Some k" using m1(4) k by simp
    then show ?thesis using w le [of b k] by (elim disjE) simp_all
  qed
  then show ?thesis using m1 alike_visited [OF a inv] alike_trans [OF a m1(2)]
    by (simp add: kv_tool_map_measure_locked_def Let_def KV_TOOL_MAP_HEADER_def)
qed

lemma write_spec:
  assumes inv: "tm_inv m es" and sc: "scan_ok m" and t: "of_ptr tx \<noteq> []"
  shows "\<exists>m1. kv_tool_map_write False tx m = Some (case measure_visited (visited m {} (of_ptr tx)) (0, 8) of None \<Rightarrow> (False, [], 0)
      | Some (cnt, n) \<Rightarrow> if cnt = 0 then (True, [], 0) else (True, tool_map_header cnt @ encode_visited (visited m {} (of_ptr tx)), n), m1) \<and> alike m m1"
proof -
  let ?v = "visited m {} (of_ptr tx)"
  obtain m1 where m1: "kv_tool_map_measure_locked (of_ptr tx) m = Some (map_option (\<lambda>(cnt, n). (cnt, if cnt = 0 then 0 else n)) (measure_visited ?v (0, 8)), m1)"
    "alike m m1" "tm_scan_clock m1 = tm_scan_clock m + 1" "\<forall>b k. tm_block m1 b = Some k \<longrightarrow> unat (tb_seen k) \<le> unat (tm_scan_clock m) + 1"
    using measure_spec [OF inv sc, of "of_ptr tx"] by blast
  note inv1 = alike_inv(1) [OF m1(2) inv]
  let ?w = "tm_scan_clock m1 + 1" and ?m = "m1\<lparr>tm_scan_clock := tm_scan_clock m1 + 1\<rparr>"
  have "unat (tm_scan_clock m + 1) = unat (tm_scan_clock m) + 1" using sc by (subst unat_add_no_wrap) (simp_all add: scan_ok_def)
  then have w: "unat ?w = unat (tm_scan_clock m) + 2" unfolding m1(3) using sc by (subst unat_add_no_wrap) (simp_all add: scan_ok_def)
  have mk: "marked ?m ?w = {}" by (rule unseen) (use m1(4) w in fastforce)
  have a: "alike m1 ?m" by simp
  obtain m2 where m2: "visit_blocks ?w (of_ptr tx) ?m = Some (visited ?m {} (of_ptr tx), m2)" "alike ?m m2"
    using visit_blocks_spec [OF alike_inv(1) [OF a inv1], of ?w "of_ptr tx"] mk by auto
  have v: "visited ?m {} (of_ptr tx) = ?v" using alike_visited [OF a inv1] alike_visited [OF m1(2) inv] by simp
  have am: "alike m m2" by (rule alike_trans [OF m1(2) alike_trans [OF a m2(2)]])
  show ?thesis
  proof (cases "measure_visited ?v (0, 8)")
    case None
    then show ?thesis using m1(1,2) t by (auto simp: kv_tool_map_write_def)
  next
    case (Some x)
    then show ?thesis using m1(1,2) m2(1) v am t by (cases x) (auto simp: kv_tool_map_write_def Let_def)
  qed
qed

lemma text_ids_lookup:
  assumes inv: "tm_inv m es"
  shows "tm_by_block m d \<noteq> None \<and> i \<in> set (text_ids m d) \<longleftrightarrow> (\<exists>s. map_of (contents m es) i = Some (d, s))"
proof
  assume l: "tm_by_block m d \<noteq> None \<and> i \<in> set (text_ids m d)"
  then obtain b k ls where k: "tm_block m b = Some k" "tb_dsml k = d" "text_ids m d = map (\<lambda>a. te_id (the (tm_entry m a))) ls" "block_ok (core (tm_entry m)) b k ls"
    using known_block [OF inv] by blast
  then obtain a where a: "a \<in> set ls" "i = te_id (the (tm_entry m a))" using l by auto
  then obtain e where e: "core (tm_entry m) a = Some e" "te_block e = Some b" using k(4) by (auto simp: block_ok_def)
  then have "i = te_id e" using a(2) by (auto simp: core_Some)
  then have "tm_by_id m i = Some a" using inv e(1) unfolding tm_inv_def by blast
  from find_entry_inv(2) [OF inv this] obtain f c j where f: "tm_entry m a = Some f" "te_block f = Some c" "tm_block m c = Some j"
    "map_of (contents m es) i = Some (tb_dsml j, te_source f)" by blast
  have "c = b" using f e by (auto simp: core_Some)
  then show "\<exists>s. map_of (contents m es) i = Some (d, s)" using f k by auto
next
  assume "\<exists>s. map_of (contents m es) i = Some (d, s)"
  then obtain s where s: "map_of (contents m es) i = Some (d, s)" by blast
  then obtain a where a: "tm_by_id m i = Some a" using find_entry_inv(1) [OF inv, of i] by fastforce
  from find_entry_inv(2) [OF inv a] obtain e b k where e: "tm_entry m a = Some e" "te_id e = i" "te_block e = Some b" "tm_block m b = Some k"
    "tb_dsml k = d" using s by auto
  then have kb: "tm_by_block m d = Some b" using inv unfolding tm_inv_def by blast
  obtain ls where ls: "text_ids m d = map (\<lambda>a. te_id (the (tm_entry m a))) ls" "block_ok (core (tm_entry m)) b k ls"
    using known_block [OF inv kb] e(4) by auto
  have "core (tm_entry m) a = Some (strip e)" using e(1) by (simp add: core_def)
  then have "a \<in> set ls" using ls(2) e(3) by (auto simp: block_ok_def)
  then show "tm_by_block m d \<noteq> None \<and> i \<in> set (text_ids m d)" using kb ls(1) e by force
qed

lemma set_pairs_visited:
  assumes inv: "tm_inv m es"
  shows "set (pairs_of (visited m {} p)) = {(i, d). d \<in> set (tool_blocks p) \<and> storable d i \<and> (\<exists>s. map_of (contents m es) i = Some (d, s))}"
proof -
  have "(i, d) \<in> set (pairs_of (visited m {} p)) \<longleftrightarrow> d \<in> set (tool_blocks p) \<and> storable d i \<and> tm_by_block m d \<noteq> None \<and> i \<in> set (text_ids m d)" for i d
    by (auto simp: pairs_of_def visited_def)
  then show ?thesis using text_ids_lookup [OF inv] by auto
qed

lemma contents_distinct:
  assumes inv: "tm_inv m es" shows "distinct (map fst (contents m es))" "x \<in> set (contents m es) \<Longrightarrow> c_text (fst x) \<and> c_text (fst (snd x))"
proof -
  have es: "distinct es" using inv by (simp add: tm_inv_def linked_def)
  have f: "\<exists>e. core (tm_entry m) a = Some e \<and> te_id e = fst (the (view m a)) \<and> c_text (te_id e) \<and> c_text (fst (snd (the (view m a))))" if a: "a \<in> set es" for a
  proof -
    obtain e b k where v: "core (tm_entry m) a = Some e" "te_block e = Some b" "tm_block m b = Some k" "view m a = Some (te_id e, tb_dsml k, te_source e)"
      using view_entry [OF inv a] by blast
    moreover have "c_text (te_id e)" "c_text (tb_dsml k)" using inv v(1,3) unfolding tm_inv_def shape_def entry_fields_def block_fields_def by blast+
    ultimately show ?thesis by simp
  qed
  have "a = a'" if a: "a \<in> set es" "a' \<in> set es" "fst (the (view m a)) = fst (the (view m a'))" for a a'
  proof -
    obtain e e' where "core (tm_entry m) a = Some e" "core (tm_entry m) a' = Some e'" "te_id e = te_id e'"
      using f [OF a(1)] f [OF a(2)] a(3) by metis
    then have "tm_by_id m (te_id e) = Some a" "tm_by_id m (te_id e) = Some a'" using inv unfolding tm_inv_def by metis+
    then show ?thesis by simp
  qed
  then have "inj_on (\<lambda>a. fst (the (view m a))) (set es)" by (auto intro: inj_onI)
  then show "distinct (map fst (contents m es))" using es by (simp add: contents_def distinct_map comp_def)
  show "c_text (fst x) \<and> c_text (fst (snd x))" if "x \<in> set (contents m es)" using f that by (force simp: contents_def)
qed

lemma text_ids_distinct:
  assumes inv: "tm_inv m es" and d: "tm_by_block m d \<noteq> None" shows "distinct (text_ids m d)"
proof -
  obtain b k ls where ls: "text_ids m d = map (\<lambda>a. te_id (the (tm_entry m a))) ls" "block_ok (core (tm_entry m)) b k ls"
    using d known_block [OF inv, of d] by blast
  have "a = a'" if a: "a \<in> set ls" "a' \<in> set ls" "te_id (the (tm_entry m a)) = te_id (the (tm_entry m a'))" for a a'
  proof -
    obtain e e' where e: "core (tm_entry m) a = Some e" "core (tm_entry m) a' = Some e'" using ls(2) a(1,2) by (auto simp: block_ok_def)
    then have "te_id e = te_id e'" using a(3) by (auto simp: core_Some)
    then have "tm_by_id m (te_id e) = Some a" "tm_by_id m (te_id e) = Some a'" using inv e unfolding tm_inv_def by metis+
    then show ?thesis by simp
  qed
  then have "inj_on (\<lambda>a. te_id (the (tm_entry m a))) (set ls)" by (auto intro: inj_onI)
  then show ?thesis using ls by (simp add: distinct_map block_ok_def)
qed

lemma pairs_distinct:
  "distinct (map fst vs) \<Longrightarrow> (\<And>d ids. (d, ids) \<in> set vs \<Longrightarrow> distinct ids) \<Longrightarrow> distinct (pairs_of vs)"
proof (induction vs)
  case (Cons v vs)
  obtain d ids where v: "v = (d, ids)" by (cases v)
  have "distinct (map (\<lambda>i. (i, d)) (filter (storable d) ids))" using Cons.prems(2) [of d ids] v by (simp add: distinct_map inj_on_def)
  moreover have "distinct (pairs_of vs)" using Cons.prems by (intro Cons.IH) (auto simp del: split_paired_All)
  moreover have "snd x \<in> fst ` set vs" if "x \<in> set (pairs_of vs)" for x using that by (force simp: pairs_of_def)
  ultimately show ?case using Cons.prems(1) v by (fastforce simp: pairs_of_def)
qed (simp add: pairs_of_def)

lemma visited_distinct:
  assumes inv: "tm_inv m es" shows "distinct (map fst (pairs_of (visited m {} p)))"
proof -
  let ?ps = "pairs_of (visited m {} p)"
  have "distinct ?ps"
    by (rule pairs_distinct) (auto simp: visited_def comp_def distinct_news intro: text_ids_distinct [OF inv])
  moreover have "inj_on fst (set ?ps)" unfolding set_pairs_visited [OF inv] by (auto intro!: inj_onI)
  ultimately show ?thesis by (simp add: distinct_map)
qed

text \<open>Under the limits of the loader no size passes its type.\<close>

lemma measure_ids_some:
  "length d \<le> 536870912 \<Longrightarrow> (\<And>i. i \<in> set ids \<Longrightarrow> length i \<le> 256) \<Longrightarrow> unat c + length ids < 2 ^ 32 \<Longrightarrow> unat n + 2 ^ 30 * length ids < 2 ^ 64 \<Longrightarrow>
     \<exists>c' n'. measure_ids d ids (c, n) = Some (c', n') \<and> unat c' = unat c + length ids \<and> unat n' \<le> unat n + 2 ^ 30 * length ids"
proof (induction ids arbitrary: c n)
  case (Cons i ids)
  let ?i = "word_of_nat (length i) :: u64" and ?d = "word_of_nat (length d) :: u64"
  have sm: "length i \<le> 256" "length d \<le> 536870912" using Cons.prems(1,2) by simp_all
  then have st: "storable d i" by (simp add: storable_def)
  have u: "unat ?i = length i" "unat ?d = length d" using storable_unat [OF st] by simp_all
  have c1: "unat (c + 1) = unat c + 1" using Cons.prems(3) by (subst unat_add_no_wrap) simp_all
  have k: "unat (8 + ?i + ?d) = 8 + length i + length d" using u sm by (simp add: unat_add_no_wrap)
  have n1: "unat (n + (8 + ?i + ?d)) = unat n + (8 + length i + length d)" using Cons.prems(4) sm k by (subst unat_add_no_wrap) simp_all
  define x where "x = UINT64_MAX - n"
  have s0: "unat x = 2 ^ 64 - 1 - unat n"
    unfolding x_def by (subst unat_sub_le) (use unat_u64_less [of n] in \<open>simp_all add: word_le_nat_alt\<close>)
  then have x: "8 + 256 + 536870912 \<le> unat x" using Cons.prems(4) by simp
  then have x8: "unat (x - 8) = unat x - 8" by (simp add: unat_sub_le word_le_nat_alt)
  then have xi: "unat (x - 8 - ?i) = unat x - 8 - length i" using x u sm by (simp add: unat_sub_le word_le_nat_alt)
  have "\<not> x < 8" "\<not> x - 8 < ?i" "\<not> x - 8 - ?i < ?d" using x x8 xi u sm by (simp_all add: word_less_nat_alt)
  then have "measure_ids d (i # ids) (c, n) = measure_ids d ids (c + 1, n + (8 + ?i + ?d))" using st Cons.prems(3) by (simp add: x_def)
  moreover have "\<exists>c' n'. measure_ids d ids (c + 1, n + (8 + ?i + ?d)) = Some (c', n') \<and> unat c' = unat (c + 1) + length ids \<and>
      unat n' \<le> unat (n + (8 + ?i + ?d)) + 2 ^ 30 * length ids"
  proof (rule Cons.IH)
    show "unat (n + (8 + ?i + ?d)) + 2 ^ 30 * length ids < 2 ^ 64" using Cons.prems(4) sm unfolding n1 by simp
  qed (use Cons.prems(1-3) c1 in simp_all)
  ultimately show ?case using c1 n1 sm by auto
qed simp

lemma measure_visited_some:
  "(\<And>d ids. (d, ids) \<in> set vs \<Longrightarrow> length d \<le> 536870912 \<and> (\<forall>i \<in> set ids. length i \<le> 256)) \<Longrightarrow> unat c + length (pairs_of vs) < 2 ^ 32 \<Longrightarrow>
     unat n + 2 ^ 30 * length (pairs_of vs) < 2 ^ 64 \<Longrightarrow> \<exists>c' n'. measure_visited vs (c, n) = Some (c', n')"
proof (induction vs arbitrary: c n)
  case (Cons v vs)
  obtain d ids where v: "v = (d, ids)" by (cases v)
  have sm: "length d \<le> 536870912" "\<And>i. i \<in> set ids \<Longrightarrow> length i \<le> 256" using Cons.prems(1) [of d ids] v by auto
  then have "storable d i" if "i \<in> set ids" for i using sm(2) [OF that] by (simp add: storable_def)
  then have "filter (storable d) ids = ids" by (simp add: filter_id_conv)
  then have len: "length (pairs_of (v # vs)) = length ids + length (pairs_of vs)" by (simp add: pairs_of_def v)
  obtain c1 n1 where m: "measure_ids d ids (c, n) = Some (c1, n1)" "unat c1 = unat c + length ids" "unat n1 \<le> unat n + 2 ^ 30 * length ids"
  proof -
    have "unat c + length ids < 2 ^ 32" "unat n + 2 ^ 30 * length ids < 2 ^ 64" using Cons.prems(2,3) len by simp_all
    from measure_ids_some [of d ids, OF sm this] show thesis using that by blast
  qed
  have "\<exists>c' n'. measure_visited vs (c1, n1) = Some (c', n')"
    by (rule Cons.IH) (use Cons.prems m(2,3) len in auto)
  then show ?case using m(1) v by simp
qed simp

text \<open>A list of texts under ids of another one takes no more room than that one.\<close>

lemma texts_size_sum:
  "distinct (map fst A) \<Longrightarrow> texts_size A = (\<Sum>i\<in>fst ` set A. length i + 65) + (\<Sum>d\<in>(fst \<circ> snd) ` set A. length d + 49)"
proof -
  assume d: "distinct (map fst A)"
  have "(\<Sum>x\<leftarrow>A. length (fst x) + 65) = (\<Sum>i\<leftarrow>map fst A. length i + 65)" by (simp add: comp_def)
  also have "\<dots> = (\<Sum>i\<in>fst ` set A. length i + 65)" using d by (subst sum_list_distinct_conv_sum_set) simp_all
  finally show ?thesis by (simp add: texts_size_def sum_list_distinct_conv_sum_set)
qed

lemma texts_size_le:
  assumes "distinct (map fst A)" "distinct (map fst B)" "\<And>i d s. (i, d, s) \<in> set A \<Longrightarrow> \<exists>s'. (i, d, s') \<in> set B"
  shows "texts_size A \<le> texts_size B" "length A \<le> length B"
proof -
  have f: "fst ` set A \<subseteq> fst ` set B" "(fst \<circ> snd) ` set A \<subseteq> (fst \<circ> snd) ` set B" using assms(3) by force+
  show "texts_size A \<le> texts_size B" using f by (auto simp: texts_size_sum assms(1,2) intro!: add_mono sum_mono2)
  have "card (fst ` set A) \<le> card (fst ` set B)" using f(1) by (rule card_mono [rotated]) simp
  then show "length A \<le> length B" using distinct_card [OF assms(1)] distinct_card [OF assms(2)] by simp
qed

text \<open>Texts under fresh ids that fit together are all kept.\<close>

definition disk_text :: "string \<times> string \<Rightarrow> tool_text" where
  "disk_text x = (fst x, snd x, TOOL_MEMORY_DISK)"

lemma put_texts_rep:
  assumes "tm_rep N W m L" "list_all loadable ps" "unat W + 2 ^ 30 < 2 ^ 64"
    "distinct (map fst (rev (map disk_text ps) @ L))" "int (length ps + length L) \<le> N" "texts_size (rev (map disk_text ps) @ L) \<le> unat W"
  shows "\<exists>m'. put_texts ps m = Some m' \<and> tm_rep N W m' (rev (map disk_text ps) @ L)"
  using assms
proof (induction ps arbitrary: m L)
  case (Cons x ps)
  obtain i d where x: "x = (i, d)" by (cases x)
  have ct: "c_text i" "c_text d" "length i \<le> 256" "length d \<le> 536870912" using Cons.prems(2) x by (simp_all add: loadable_def)
  then have o: "of_ptr (Some i) = i" "of_ptr (Some d) = d" "i \<noteq> []" "d \<noteq> []" by (simp_all add: or_default_def c_text_def cstr_id)
  have "text_fits W (Some i) (Some d)" using Cons.prems(3) ct o by (simp add: text_fits_def)
  from tool_mem.put_rep [OF Cons.prems(1) this, of TOOL_MEMORY_DISK] obtain m1 L1 where m1:
    "tool_memory_put_locked (Some i) (Some d) TOOL_MEMORY_DISK m = Some m1" "spec_put N (unat W) (Some i) (Some d) TOOL_MEMORY_DISK L = Some L1"
    "tm_rep N W m1 L1" by blast
  have "i \<notin> fst ` set L" using Cons.prems(4) x by (auto simp: disk_text_def)
  then have r: "remember_text i d TOOL_MEMORY_DISK L = disk_text x # L"
    using map_of_eq_None_iff [of L i] by (auto simp: remember_text_def x disk_text_def filter_id_conv)
  have "texts_size (disk_text x # L) \<le> texts_size (rev (map disk_text (x # ps)) @ L)"
    by (rule texts_size_le(1)) (use Cons.prems(4) in auto)
  then have "lru_prune N (unat W) (disk_text x # L) = disk_text x # L"
    using Cons.prems(5,6) by (simp add: lru_prune.simps [of N "unat W"])
  then have L1: "L1 = disk_text x # L" using m1(2) o r by (simp add: spec_put_def)
  have "\<exists>m'. put_texts ps m1 = Some m' \<and> tm_rep N W m' (rev (map disk_text ps) @ L1)"
    by (rule Cons.IH) (use Cons.prems m1(3) L1 in \<open>simp_all add: add.commute\<close>)
  then show ?case using m1(1) L1 x by simp
qed simp

lemma load_map_header:
  "kv_tool_map_load_from_pos False (Some (tool_map_header c @ b)) wanted m =
     (if int (unat c) > tool_memory_max_entries m * 4 then Some (0, m) else load_entries wanted (unat c) b 0 m)"
proof -
  have "bytes_of ''KTM'' = [75, 84, 77]" by code_simp
  then show ?thesis by (simp add: kv_tool_map_load_from_pos_def tool_map_header_def le_get_put32 Let_def)
qed

text \<open>
  C2.  The tool texts of a checkpoint survive it.  Writing the map of a text visits every block of tool calls once and
  changes nothing the memory remembers; the size announced for the trailer is the size of the bytes
  written.  Loading those bytes into an empty memory with the same limits accepts all of them and evicts
  none: the new memory knows exactly the ids whose text occurs as a block of tool calls in the text
  written, each with the text it had.
\<close>

theorem tool_map_roundtrip:
  assumes "tm_rep N W m L" "scan_ok m" "of_ptr tx \<noteq> []" "N \<le> 2147483647" "unat W + 2 ^ 30 < 2 ^ 64"
    "\<And>i d s. (i, d, s) \<in> set L \<Longrightarrow> length i \<le> 256 \<and> length d \<le> 536870912"
    "tool_memory_max_entries (empty_memory n w) = N" "tool_memory_max_bytes (empty_memory n w) = W"
  shows "\<exists>b len m1 cnt m' L'. kv_tool_map_write False tx m = Some ((True, b, len), m1) \<and> tm_rep N W m1 L \<and> unat len = length b \<and>
    kv_tool_map_load_from_pos False (Some b) None (empty_memory n w) = Some (cnt, m') \<and> tm_rep N W m' L' \<and>
    (\<forall>i d s. map_of L' i = Some (d, s) \<longleftrightarrow> s = TOOL_MEMORY_DISK \<and> d \<in> set (tool_blocks (of_ptr tx)) \<and> (\<exists>s'. map_of L i = Some (d, s')))"
proof -
  obtain es where es: "tm_inv m es" "contents m es = L" using assms(1) by (auto simp: tm_rep_def)
  let ?v = "visited m {} (of_ptr tx)" let ?ps = "pairs_of ?v" let ?L = "rev (map disk_text ?ps)"
  have dL: "distinct (map fst L)" using contents_distinct(1) [OF es(1)] es(2) by simp
  have ids: "length i \<le> 256 \<and> length d \<le> 536870912 \<and> c_text i \<and> c_text d" if "map_of L i = Some (d, s)" for i d s
    using map_of_SomeD [OF that] assms(6) contents_distinct(2) [OF es(1), of "(i, d, s)"] es(2) by auto
  have st: "storable d i" if "map_of L i = Some (d, s)" for i d s using ids [OF that] by (simp add: storable_def)
  then have ps: "set ?ps = {(i, d). d \<in> set (tool_blocks (of_ptr tx)) \<and> (\<exists>s. map_of L i = Some (d, s))}"
    using set_pairs_visited [OF es(1), of "of_ptr tx"] es(2) by auto
  then have ld: "list_all loadable ?ps" using ids by (auto simp: list_all_iff loadable_def)
  have fst_L: "map fst ?L = rev (map fst ?ps)" by (simp add: rev_map comp_def disk_text_def)
  have dps: "distinct (map fst ?L)" unfolding fst_L using visited_distinct [OF es(1), of "of_ptr tx"] by simp
  have sub: "\<exists>s'. (i, d, s') \<in> set L" if "(i, d, s) \<in> set ?L" for i d s
    using that ps by (force simp: disk_text_def dest: map_of_SomeD)
  have "texts_size ?L \<le> texts_size L" "length ?L \<le> length L" by (rule texts_size_le [OF dps dL], rule sub, assumption)+
  then have sz: "texts_size ?L \<le> unat W" "int (length ?ps) \<le> N" using assms(1) by (auto simp: tm_rep_def)
  have "\<exists>c' n'. measure_visited ?v (0, 8) = Some (c', n')"
  proof (rule measure_visited_some)
    fix d ids' assume "(d, ids') \<in> set ?v"
    then have d: "ids' = text_ids m d" "tm_by_block m d \<noteq> None" "d \<in> set (tool_blocks (of_ptr tx))" by (auto simp: visited_def)
    then have i: "\<exists>s. map_of L i = Some (d, s)" if "i \<in> set ids'" for i using text_ids_lookup [OF es(1), of d i] es(2) that by auto
    have "ids' \<noteq> []" using known_block [OF es(1), of d] d by auto
    then show "length d \<le> 536870912 \<and> (\<forall>i\<in>set ids'. length i \<le> 256)" using i ids by (metis list.set_intros(1) neq_Nil_conv)
  qed (use sz assms(4) in simp_all)
  then obtain c n' where mv: "measure_visited ?v (0, 8) = Some (c, n')" by blast
  have cn: "unat c = length ?ps" "unat n' = 8 + length (encode_visited ?v)" using measure_visited_exact [OF mv] by simp_all
  obtain m1 where m1: "kv_tool_map_write False tx m = Some (if c = 0 then (True, [], 0) else (True, tool_map_header c @ encode_visited ?v, n'), m1)" "alike m m1"
    using write_spec [OF es(1) assms(2,3)] mv by auto
  have rep1: "tm_rep N W m1 L"
    using assms(1) alike_inv [OF m1(2) es(1)] es m1(2)
    by (auto simp: tm_rep_def contents_def alike_def tool_memory_max_entries_def tool_memory_max_bytes_def)
  obtain m' where m': "put_texts ?ps (empty_memory n w) = Some m'" "tm_rep N W m' ?L"
    using put_texts_rep [OF empty_memory_rep [of n w, unfolded assms(7,8)] ld assms(5)] dps sz by auto
  have mo: "map_of ?L i = Some (d, s) \<longleftrightarrow> s = TOOL_MEMORY_DISK \<and> d \<in> set (tool_blocks (of_ptr tx)) \<and> (\<exists>s'. map_of L i = Some (d, s'))" for i d s
    using map_of_eq_Some_iff [OF dps, of i "(d, s)"] ps by (force simp: disk_text_def)
  show ?thesis
  proof (cases "c = 0")
    case True
    then have "?ps = []" using cn by simp
    then have "kv_tool_map_load_from_pos False (Some []) None (empty_memory n w) = Some (0, m')" using m'(1) by (simp add: kv_tool_map_load_from_pos_def)
    then show ?thesis using True m1(1) rep1 m'(2) mo by fastforce
  next
    case False
    let ?b = "tool_map_header c @ encode_visited ?v"
    have "kv_tool_map_load_from_pos False (Some ?b) None (empty_memory n w) = map_option (\<lambda>m'. (int (length ?ps), m')) (put_texts ?ps (empty_memory n w))"
      using load_entries_pairs [OF ld, of 0 "empty_memory n w"] cn(1) sz(2) max_entries_pos [of "empty_memory n w"] assms(7)
      unfolding load_map_header encode_pairs by simp
    moreover have "unat n' = length ?b" using cn(2) by (simp add: tool_map_header_def)
    ultimately show ?thesis using False m1(1) rep1 m' mo by fastforce
  qed
qed

definition sample_block :: string where "sample_block = ''<tool_calls>f</tool_calls>''"

definition sample_puts :: "tool_memory_op list" where
  "sample_puts = [Put (Some ''a'') (Some sample_block) TOOL_MEMORY_RAM, Put (Some ''b'') (Some ''x'') TOOL_MEMORY_RAM]"

theorem tool_map_roundtrip_witness:
  "\<exists>rs m b len m1 cnt m' L'. run_ops tool_memory_put_locked lookup_text sample_puts (empty_memory 2 600) = Some (rs, m) \<and>
    kv_tool_map_write False (Some (''q'' @ sample_block)) m = Some ((True, b, len), m1) \<and>
    kv_tool_map_load_from_pos False (Some b) None (empty_memory 2 600) = Some (cnt, m') \<and> tm_rep 2 600 m' L' \<and>
    map_of L' ''a'' = Some (sample_block, TOOL_MEMORY_DISK) \<and> map_of L' ''b'' = None"
proof -
  have lim: "tool_memory_max_entries (empty_memory 2 600) = 2" "tool_memory_max_bytes (empty_memory 2 600) = 600"
    by (simp_all add: tool_memory_max_entries_def tool_memory_max_bytes_def empty_memory_def)
  have "list_all (op_fits (text_fits 600)) sample_puts"
    by (simp add: sample_puts_def sample_block_def op_fits_def text_fits_def or_default_def)
  from tool_mem.run_rep [OF empty_memory_rep [of 2 600, unfolded lim] this] obtain rs m L where
    m: "run_ops tool_memory_put_locked lookup_text sample_puts (empty_memory 2 600) = Some (rs, m)" "tm_rep 2 600 m L"
    "run_ops (spec_put 2 (unat (600 :: u64))) spec_lookup sample_puts [] = Some (rs, L)" by auto
  have "map_option snd (run_ops (spec_put 2 600) spec_lookup sample_puts []) = Some [(''b'', ''x'', TOOL_MEMORY_RAM), (''a'', sample_block, TOOL_MEMORY_RAM)]"
    by code_simp
  then have L: "L = [(''b'', ''x'', TOOL_MEMORY_RAM), (''a'', sample_block, TOOL_MEMORY_RAM)]" using m(3) by simp
  have "case run_ops tool_memory_put_locked lookup_text sample_puts (empty_memory 2 600) of None \<Rightarrow> False | Some (rs, m) \<Rightarrow>
      tm_scan_clock m = 0 \<and> tm_brk m < 10 \<and> list_all (\<lambda>b. case tm_block m b of None \<Rightarrow> True | Some k \<Rightarrow> tb_seen k = 0) [0..<10]" by code_simp
  then have s: "tm_scan_clock m = 0" "tm_brk m < 10" "\<And>b k. b < 10 \<Longrightarrow> tm_block m b = Some k \<Longrightarrow> tb_seen k = 0"
    unfolding m(1) by (auto simp: list_all_iff split: option.splits)
  have "b < tm_brk m" if "tm_block m b = Some k" for b k using m(2) that unfolding tm_rep_def tm_inv_def by blast
  then have "tb_seen k = 0" if "tm_block m b = Some k" for b k using s(2) s(3) [OF _ that] that by (meson less_trans)
  then have ok: "scan_ok m" using s(1) by (auto simp: scan_ok_def)
  have tx: "of_ptr (Some (''q'' @ sample_block)) = ''q'' @ sample_block" by (simp add: sample_block_def or_default_def)
  have ne: "of_ptr (Some (''q'' @ sample_block)) \<noteq> []" by (simp add: sample_block_def or_default_def)
  have tb: "tool_blocks (''q'' @ sample_block) = [sample_block]" by code_simp
  have sm: "length i \<le> 256 \<and> length d \<le> 536870912" if "(i, d, s) \<in> set L" for i d s using that by (auto simp: L sample_block_def)
  have "\<exists>b len m1 cnt m' L'. kv_tool_map_write False (Some (''q'' @ sample_block)) m = Some ((True, b, len), m1) \<and> tm_rep 2 600 m1 L \<and> unat len = length b \<and>
    kv_tool_map_load_from_pos False (Some b) None (empty_memory 2 600) = Some (cnt, m') \<and> tm_rep 2 600 m' L' \<and>
    (\<forall>i d s. map_of L' i = Some (d, s) \<longleftrightarrow> s = TOOL_MEMORY_DISK \<and> d \<in> set (tool_blocks (''q'' @ sample_block)) \<and> (\<exists>s'. map_of L i = Some (d, s')))"
    using tool_map_roundtrip [OF m(2) ok ne _ _ _ lim] sm unfolding tx by simp
  then obtain b len m1 cnt m' L' where r: "kv_tool_map_write False (Some (''q'' @ sample_block)) m = Some ((True, b, len), m1)"
    "kv_tool_map_load_from_pos False (Some b) None (empty_memory 2 600) = Some (cnt, m')" "tm_rep 2 600 m' L'"
    "\<forall>i d s. map_of L' i = Some (d, s) \<longleftrightarrow> s = TOOL_MEMORY_DISK \<and> d \<in> set (tool_blocks (''q'' @ sample_block)) \<and> (\<exists>s'. map_of L i = Some (d, s'))" by (elim exE conjE) (rule that)
  have "map_of L' ''a'' = Some (sample_block, TOOL_MEMORY_DISK)" using r(4) [rule_format, of "''a''" sample_block TOOL_MEMORY_DISK] unfolding tb by (simp add: L)
  moreover have "map_of L' ''b'' = None"
  proof (cases "map_of L' ''b''")
    case (Some x)
    then have "fst x \<in> set (tool_blocks (''q'' @ sample_block)) \<and> (\<exists>s'. map_of L ''b'' = Some (fst x, s'))" using r(4) [rule_format, of "''b''" "fst x" "snd x"] by simp
    then show ?thesis unfolding tb by (elim conjE) (simp add: L sample_block_def)
  qed
  ultimately show ?thesis using m(1) r(1-3) by blast
qed

end
