(* ===== verification/Generated.thy ===== *)
theory Generated
  imports ToolMarkers
begin

text \<open>
  Parsing what the model generated (\<^verbatim>\<open>server.c\<close>): the text of an assistant turn is split into reasoning, content and
  tool calls, in the DeepSeek and in the GLM template, and a truncated block of calls is closed.

  A pointer into the text is the suffix it points to.  The output strings are \<open>None\<close> where a parser leaves
  them alone.
\<close>

section \<open>Arguments\<close>

definition tool_call_json_args_add :: "string \<Rightarrow> string \<Rightarrow> string \<Rightarrow> string \<Rightarrow> string" where
  "tool_call_json_args_add args name value is_string =
     args @ (if args \<noteq> [] then '', '' else []) @ json_escape name @ '': '' @
     (if is_string = ''true'' then json_escape value
      else (let m = json_minify_raw_value (Some value) in if m \<noteq> [] then m else ''null''))"

text \<open>A tag from its start to its first \<^verbatim>\<open>>\<close>, and what follows.\<close>

definition open_tag :: "string \<Rightarrow> (string \<times> string) option" where
  "open_tag p = map_option (\<lambda>i. (take (Suc i) p, drop (Suc i) p)) (strstr p ''>'')"

definition param_value :: "string option \<Rightarrow> string \<Rightarrow> string \<times> string" where
  "param_value is_string raw = (let type = or_default is_string ''true'' in
     (type, if type = ''true'' then dsml_unescape_text (Some raw) else raw))"

definition dsml_parse_leaf_param_json :: "string \<Rightarrow> string \<Rightarrow> string \<Rightarrow> string \<Rightarrow> (string \<times> string) option" where
  "dsml_parse_leaf_param_json p param_start param_end out =
     (if \<not> prefix param_start p then None
      else (case open_tag p of None \<Rightarrow> None
        | Some (tag, v) \<Rightarrow> (case dsml_attr tag ''name'' of None \<Rightarrow> None
          | Some name \<Rightarrow> (case strstr v param_end of None \<Rightarrow> None
            | Some n \<Rightarrow> (case param_value (dsml_attr tag ''string'') (take n v) of (type, value) \<Rightarrow>
                Some (drop (n + length param_end) v, tool_call_json_args_add out name value type))))))"

lemma open_tag_length: "open_tag p = Some (tag, v) \<Longrightarrow> length v < length p"
  by (auto simp: open_tag_def dest!: strstr_Some)

lemma leaf_param_length: "dsml_parse_leaf_param_json p ps pe out = Some (r, out') \<Longrightarrow> length r < length p"
  by (auto simp: dsml_parse_leaf_param_json_def dest!: open_tag_length split: if_splits option.splits prod.splits)

lemma length_skip_ws: "length (skip_ascii_ws p) \<le> length p"
  by (simp add: skip_ascii_ws_def length_dropWhile_le)

function nested_params :: "string \<Rightarrow> string \<Rightarrow> string \<Rightarrow> string \<Rightarrow> bool \<Rightarrow> (string \<times> string \<times> bool) option" where
  "nested_params ps pe p members any = (let q = skip_ascii_ws p in
     if \<not> prefix ps q then Some (q, members, any)
     else (case dsml_parse_leaf_param_json q ps pe members of None \<Rightarrow> None
       | Some (r, members') \<Rightarrow> nested_params ps pe r members' True))"
  by pat_completeness auto
termination nested_params
proof (relation "measure (\<lambda>(ps, pe, p, members, any). length p)")
  fix ps pe p members q x r members' assume "q = skip_ascii_ws p" "dsml_parse_leaf_param_json q ps pe members = Some x" "(r, members') = x"
  then have "length r < length (skip_ascii_ws p)" by (metis leaf_param_length)
  then show "((ps, pe, r, members', True), ps, pe, p, members, any) \<in> measure (\<lambda>(ps, pe, p, members, any). length p)" for any
    using length_skip_ws [of p] by simp
qed simp

declare nested_params.simps [simp del]

definition dsml_parse_nested_params_object :: "string \<Rightarrow> string \<Rightarrow> string \<Rightarrow> (string \<times> string) option" where
  "dsml_parse_nested_params_object p ps pe = (case nested_params ps pe p [] False of None \<Rightarrow> None
     | Some (r, members, any) \<Rightarrow> if any then Some (r, ''{'' @ members @ ''}'') else None)"

lemma nested_params_length: "nested_params ps pe p members any = Some (r, m', a') \<Longrightarrow> length r \<le> length p"
proof (induction ps pe p members any rule: nested_params.induct)
  case (1 ps pe p members any)
  show ?case
  proof (cases "prefix ps (skip_ascii_ws p)")
    case True
    then obtain s mm where l: "dsml_parse_leaf_param_json (skip_ascii_ws p) ps pe members = Some (s, mm)" "nested_params ps pe s mm True = Some (r, m', a')"
      using 1(2) by (auto simp: nested_params.simps [of ps pe p] Let_def split: option.splits)
    then have "length r \<le> length s" using 1(1) [OF refl _ l(1) refl l(2)] True by simp
    then show ?thesis using leaf_param_length [OF l(1)] length_skip_ws [of p] by simp
  next
    case False
    then show ?thesis using 1(2) length_skip_ws [of p] by (auto simp: nested_params.simps [of ps pe p])
  qed
qed

section \<open>The DeepSeek template\<close>

record dsml_tags =
  tool_calls_start :: string
  tool_calls_end :: string
  invoke_start :: string
  invoke_end :: string
  param_start :: string
  param_end :: string

text \<open>The spellings: 0 is DSML, 1 plain XML, 2 DSML without the first vertical bar.\<close>

definition style_tags :: "nat \<Rightarrow> dsml_tags" where
  "style_tags style =
     (if style = 1 then \<lparr>tool_calls_start = ''<tool_calls>'', tool_calls_end = ''</tool_calls>'', invoke_start = ''<invoke'',
        invoke_end = ''</invoke>'', param_start = ''<parameter'', param_end = ''</parameter>''\<rparr>
      else if style = 2 then \<lparr>tool_calls_start = DS4_TOOL_CALLS_START_SHORT, tool_calls_end = DS4_TOOL_CALLS_END_SHORT,
        invoke_start = DS4_INVOKE_START_SHORT, invoke_end = DS4_INVOKE_END_SHORT, param_start = DS4_PARAM_START_SHORT,
        param_end = DS4_PARAM_END_SHORT\<rparr>
      else \<lparr>tool_calls_start = DS4_TOOL_CALLS_START, tool_calls_end = DS4_TOOL_CALLS_END, invoke_start = DS4_INVOKE_START,
        invoke_end = DS4_INVOKE_END, param_start = DS4_PARAM_START, param_end = DS4_PARAM_END\<rparr>)"

text \<open>One parameter of a call: the text behind it and the arguments with it.\<close>

definition call_param :: "dsml_tags \<Rightarrow> string \<Rightarrow> string \<Rightarrow> (string \<times> string) option" where
  "call_param tags p args =
     (if \<not> prefix (param_start tags) p then None
      else (case open_tag p of None \<Rightarrow> None
        | Some (tag, v) \<Rightarrow> (case dsml_attr tag ''name'' of None \<Rightarrow> None
          | Some name \<Rightarrow>
              if dsml_attr tag ''string'' = None \<and> prefix (param_start tags) (skip_ascii_ws v)
              then (case dsml_parse_nested_params_object v (param_start tags) (param_end tags) of None \<Rightarrow> None
                | Some (r, nested) \<Rightarrow> (let q = skip_ascii_ws r in
                    Some (if prefix (param_end tags) q then drop (length (param_end tags)) q else q, tool_call_json_args_add args name nested ''false'')))
              else (case strstr v (param_end tags) of None \<Rightarrow> None
                | Some n \<Rightarrow> (case param_value (dsml_attr tag ''string'') (take n v) of (type, value) \<Rightarrow>
                    Some (drop (n + length (param_end tags)) v, tool_call_json_args_add args name value type))))))"

lemma nested_object_length: "dsml_parse_nested_params_object p ps pe = Some (r, out) \<Longrightarrow> length r \<le> length p"
  by (auto simp: dsml_parse_nested_params_object_def dest!: nested_params_length split: option.splits if_splits)

lemma call_param_length: "call_param tags p args = Some (r, args') \<Longrightarrow> length r < length p"
proof -
  assume c: "call_param tags p args = Some (r, args')"
  then obtain tag v where o: "open_tag p = Some (tag, v)" by (auto simp: call_param_def split: if_splits option.splits)
  show ?thesis
  proof (cases "\<exists>s nested. dsml_parse_nested_params_object v (param_start tags) (param_end tags) = Some (s, nested) \<and> suffix r (skip_ascii_ws s)")
    case True
    then obtain s nested where s: "dsml_parse_nested_params_object v (param_start tags) (param_end tags) = Some (s, nested)" "suffix r (skip_ascii_ws s)" by blast
    then show ?thesis using nested_object_length [OF s(1)] suffix_length_le [OF s(2)] length_skip_ws [of s] open_tag_length [OF o] by simp
  next
    case False
    then have "length r \<le> length v" using c o by (auto simp: call_param_def Let_def suffix_drop split: if_splits option.splits prod.splits)
    then show ?thesis using open_tag_length [OF o] by simp
  qed
qed

function params_loop :: "dsml_tags \<Rightarrow> string \<Rightarrow> string \<Rightarrow> (string \<times> string) option" where
  "params_loop tags p args = (let q = skip_ascii_ws p in
     if prefix (invoke_end tags) q then Some (drop (length (invoke_end tags)) q, args)
     else (case call_param tags q args of None \<Rightarrow> None | Some (r, args') \<Rightarrow> params_loop tags r args'))"
  by pat_completeness auto
termination params_loop
proof (relation "measure (\<lambda>(tags, p, args). length p)")
  fix tags p args q x r args' assume "q = skip_ascii_ws p" "call_param tags q args = Some x" "(r, args') = x"
  then have "length r < length (skip_ascii_ws p)" by (metis call_param_length)
  then show "((tags, r, args'), tags, p, args) \<in> measure (\<lambda>(tags, p, args). length p)" using length_skip_ws [of p] by simp
qed simp

declare params_loop.simps [simp del]

lemma params_loop_length: "params_loop tags p args = Some (r, args') \<Longrightarrow> length r \<le> length p"
proof (induction tags p args rule: params_loop.induct)
  case (1 tags p args)
  show ?case
  proof (cases "prefix (invoke_end tags) (skip_ascii_ws p)")
    case True
    then show ?thesis using 1(2) length_skip_ws [of p] by (auto simp: params_loop.simps [of tags p])
  next
    case False
    then obtain s a where l: "call_param tags (skip_ascii_ws p) args = Some (s, a)" "params_loop tags s a = Some (r, args')"
      using 1(2) by (auto simp: params_loop.simps [of tags p] Let_def split: option.splits)
    then have "length r \<le> length s" using 1(1) [OF refl _ l(1) refl l(2)] False by simp
    then show ?thesis using call_param_length [OF l(1)] length_skip_ws [of p] by simp
  qed
qed

definition call_of :: "string \<Rightarrow> string \<Rightarrow> tool_call" where
  "call_of name args = tool_call_zero\<lparr>tc_name := Some name, tc_arguments := Some (''{'' @ args @ ''}'')\<rparr>"

text \<open>The calls up to the end tag, with the text behind it; on failure the calls read so far.\<close>

function invokes_loop :: "dsml_tags \<Rightarrow> string \<Rightarrow> tool_calls \<Rightarrow> string option \<times> tool_calls" where
  "invokes_loop tags p cs = (let q = skip_ascii_ws p in
     if prefix (tool_calls_end tags) q then (Some (drop (length (tool_calls_end tags)) q), cs)
     else if \<not> prefix (invoke_start tags) q then (None, cs)
     else (case open_tag q of None \<Rightarrow> (None, cs)
       | Some (tag, v) \<Rightarrow> (case dsml_attr tag ''name'' of None \<Rightarrow> (None, cs)
         | Some name \<Rightarrow> (case params_loop tags v [] of None \<Rightarrow> (None, cs)
           | Some (r, args) \<Rightarrow> invokes_loop tags r (tool_calls_push cs (call_of name args))))))"
  by pat_completeness auto
termination invokes_loop
proof (relation "measure (\<lambda>(tags, p, cs). length p)")
  fix tags p cs q x tag v name y r args
  assume a: "q = skip_ascii_ws p" "open_tag q = Some x" "(tag, v) = x" "params_loop tags v [] = Some y" "(r, args) = y"
  have "length v < length (skip_ascii_ws p)" using a by (metis open_tag_length)
  moreover have "length r \<le> length v" using a by (metis params_loop_length)
  ultimately show "((tags, r, tool_calls_push cs (call_of name args)), tags, p, cs) \<in> measure (\<lambda>(tags, p, cs). length p)"
    using length_skip_ws [of p] by simp
qed simp

declare invokes_loop.simps [simp del]

section \<open>Reasoning and content\<close>

text \<open>Both return the content and the reasoning.\<close>

definition split_reasoning_content :: "string \<Rightarrow> nat \<Rightarrow> string option \<times> string option" where
  "split_reasoning_content t n = (let s = take n t; body = (if prefix ''<think>'' s then drop 7 s else s) in
     case strstr body ''</think>'' of None \<Rightarrow> (Some s, None) | Some i \<Rightarrow> (Some (drop (i + 8) body), Some (take i body)))"

definition ds4_local_unterminated_reasoning :: "string \<Rightarrow> string option \<times> string option" where
  "ds4_local_unterminated_reasoning t = (Some [], Some (if prefix ''<think>'' t then drop 7 t else t))"

definition ds4_unterminated_reasoning_before_tool :: "string \<Rightarrow> nat \<Rightarrow> string option \<times> string option" where
  "ds4_unterminated_reasoning_before_tool t prefix_len = (let n = min prefix_len (length t) in
     (Some [], Some (if n \<ge> 7 \<and> prefix ''<think>'' t then take (n - 7) (drop 7 t) else take n t)))"

record parsed_message =
  pm_ok :: bool
  pm_content :: "string option"
  pm_reasoning :: "string option"
  pm_calls :: tool_calls

definition parsed :: "string option \<times> string option \<Rightarrow> tool_calls \<Rightarrow> parsed_message" where
  "parsed cr cs = \<lparr>pm_ok = True, pm_content = fst cr, pm_reasoning = snd cr, pm_calls = cs\<rparr>"

definition unparsed :: "tool_calls \<Rightarrow> parsed_message" where
  "unparsed cs = \<lparr>pm_ok = False, pm_content = None, pm_reasoning = None, pm_calls = cs\<rparr>"

text \<open>
  Where tool calls may start: behind the last end of thinking, or, when thinking was never closed, at the
  first marker if an end marker follows it; the flag tells the two apart.
\<close>

definition search_from :: "(string \<Rightarrow> nat option) \<Rightarrow> (string \<Rightarrow> nat option) \<Rightarrow> string \<Rightarrow> bool \<Rightarrow> (nat \<times> bool) option" where
  "search_from find_start find_end t require_thinking_closed =
     (if \<not> require_thinking_closed then Some (0, False)
      else (case find_last_substr t ''</think>'' of Some k \<Rightarrow> Some (k + 8, False)
        | None \<Rightarrow> (case find_start t of None \<Rightarrow> None
            | Some i \<Rightarrow> if find_end (drop i t) = None then None else Some (i, True))))"

definition before_calls :: "bool \<Rightarrow> string \<Rightarrow> nat \<Rightarrow> string option \<times> string option" where
  "before_calls recovered t content_len =
     (if recovered then ds4_unterminated_reasoning_before_tool t content_len else split_reasoning_content t content_len)"

fun first_form :: "string \<Rightarrow> (string \<times> nat) list \<Rightarrow> (nat \<times> nat) option" where
  "first_form t [] = None"
| "first_form t ((needle, style) # forms) = (case strstr t needle of Some i \<Rightarrow> Some (i, style) | None \<Rightarrow> first_form t forms)"

definition start_forms :: "(string \<times> nat) list" where
  "start_forms = [(nl @ nl @ DS4_TOOL_CALLS_START, 0), (DS4_TOOL_CALLS_START, 0), (nl @ nl @ DS4_TOOL_CALLS_START_SHORT, 2),
     (DS4_TOOL_CALLS_START_SHORT, 2), (nl @ nl @ ''<tool_calls>'', 1), (''<tool_calls>'', 1)]"

definition parse_deepseek_generated_message_ex :: "string option \<Rightarrow> bool \<Rightarrow> tool_calls \<Rightarrow> parsed_message" where
  "parse_deepseek_generated_message_ex text0 require_thinking_closed cs = (let t = of_ptr text0 in
     case search_from find_any_tool_start find_any_tool_end t require_thinking_closed of
       None \<Rightarrow> parsed (ds4_local_unterminated_reasoning t) cs
     | Some (k, recovered) \<Rightarrow>
         (case first_form (drop k t) start_forms of
            None \<Rightarrow> parsed (split_reasoning_content t (length t)) cs
          | Some (i, style) \<Rightarrow> (let start = k + i; block = drop start t; tags = style_tags style in
              case strstr block (tool_calls_start tags) of None \<Rightarrow> unparsed cs
              | Some j \<Rightarrow> (case invokes_loop tags (drop (j + length (tool_calls_start tags)) block) cs of
                    (None, cs') \<Rightarrow> unparsed cs'
                  | (Some r, cs') \<Rightarrow> parsed (before_calls recovered t (trim_tool_separator_ws t 0 start))
                      (cs'\<lparr>raw_tool_text := Some (take (length block - length r) block)\<rparr>)))))"

section \<open>The GLM template\<close>

definition trim_const_span :: "string \<Rightarrow> string" where
  "trim_const_span s = rev (dropWhile isspace (rev (dropWhile isspace s)))"

text \<open>
  The arguments of a call.  \<open>close_len\<close> is the length of the text from the first end tag on: a position lies
  behind that tag when less text than this is left there.
\<close>

function glm_args :: "nat \<Rightarrow> string \<Rightarrow> string \<Rightarrow> (string \<times> string) option" where
  "glm_args close_len p args = (let q = skip_ascii_ws p in
     if prefix ''</tool_call>'' q then Some (drop 12 q, args)
     else if \<not> prefix ''<arg_key>'' q then None
     else (let p1 = drop 9 q in
       case strstr p1 ''</arg_key>'' of None \<Rightarrow> None
       | Some k \<Rightarrow>
           if length p1 - k < close_len then None
           else (let p2 = skip_ascii_ws (drop (k + 10) p1) in
             if \<not> prefix ''<arg_value>'' p2 then None
             else (let p3 = drop 11 p2 in
               case strstr p3 ''</arg_value>'' of None \<Rightarrow> None
               | Some n \<Rightarrow>
                   if length p3 - n < close_len then None
                   else glm_args close_len (drop (n + 12) p3)
                     (tool_call_json_args_add args (dsml_unescape_text (Some (trim_const_span (take k p1)))) (dsml_unescape_text (Some (take n p3))) ''true'')))))"
  by pat_completeness auto
termination glm_args
proof (relation "measure (\<lambda>(c, p, args). length p)")
  fix close_len :: nat and p args q p1 p2 p3 :: string and k n :: nat and args'
  assume a: "q = skip_ascii_ws p" "\<not> \<not> prefix ''<arg_key>'' q" "p1 = drop 9 q" "p2 = skip_ascii_ws (drop (k + 10) p1)" "p3 = drop 11 p2"
  have "9 \<le> length q" using a(2) prefix_length_le [of "''<arg_key>''" q] by simp
  moreover have "length p2 \<le> length p1 - (k + 10)" using a(4) length_skip_ws [of "drop (k + 10) p1"] by simp
  ultimately have "length (drop (n + 12) p3) < length p" using a(1,3,5) length_skip_ws [of p] by simp
  then show "((close_len, drop (n + 12) p3, args'), close_len, p, args) \<in> measure (\<lambda>(c, p, args). length p)"
    by simp
qed simp

declare glm_args.simps [simp del]

lemma glm_args_length: "glm_args c p args = Some (r, args') \<Longrightarrow> length r < length p"
proof (induction c p args rule: glm_args.induct)
  case (1 c p args)
  let ?q = "skip_ascii_ws p"
  show ?case
  proof (cases "prefix ''</tool_call>'' ?q")
    case True
    then have "?q \<noteq> []" by auto
    then show ?thesis using 1(2) True length_skip_ws [of p] by (auto simp: glm_args.simps [of c p] Let_def length_greater_0_conv [symmetric] simp del: length_greater_0_conv)
  next
    case False
    obtain k n p2 where k: "prefix ''<arg_key>'' ?q" "strstr (drop 9 ?q) ''</arg_key>'' = Some k" "\<not> length (drop 9 ?q) - k < c"
        "p2 = skip_ascii_ws (drop (k + 10) (drop 9 ?q))" "prefix ''<arg_value>'' p2" "strstr (drop 11 p2) ''</arg_value>'' = Some n"
        "\<not> length (drop 11 p2) - n < c"
        "glm_args c (drop (n + 12) (drop 11 p2)) (tool_call_json_args_add args (dsml_unescape_text (Some (trim_const_span (take k (drop 9 ?q)))))
          (dsml_unescape_text (Some (take n (drop 11 p2)))) ''true'') = Some (r, args')"
      using 1(2) False by (auto simp: glm_args.simps [of c p] Let_def split: if_splits option.splits)
    have "length r < length (drop (n + 12) (drop 11 p2))"
      using 1(1) [OF refl False _ refl k(2,3) k(4) _ refl k(6,7,8)] k(1,5) by blast
    then show ?thesis using k(4) length_skip_ws [of p] length_skip_ws [of "drop (k + 10) (drop 9 ?q)"] by simp
  qed
qed

function glm_calls :: "string \<Rightarrow> tool_calls \<Rightarrow> string option \<times> tool_calls" where
  "glm_calls p cs = (let q = skip_ascii_ws p in
     if \<not> prefix ''<tool_call>'' q then (Some q, cs)
     else (let p1 = drop 11 q in
       case strstr p1 ''</tool_call>'' of None \<Rightarrow> (None, cs)
       | Some c \<Rightarrow> (let span = take (case strstr p1 ''<arg_key>'' of Some a \<Rightarrow> if a > c then c else a | None \<Rightarrow> c) p1; name = trim_const_span span in
           if name = [] then (None, cs)
           else (case glm_args (length p1 - c) (drop (length (takeWhile isspace span) + length name) p1) [] of None \<Rightarrow> (None, cs)
             | Some (r, args) \<Rightarrow> glm_calls r (tool_calls_push cs (call_of name args))))))"
  by pat_completeness auto
termination glm_calls
proof (relation "measure (\<lambda>(p, cs). length p)")
  fix p q p1 span name r args :: string and cs c x i
  assume a: "q = skip_ascii_ws p" "p1 = drop 11 q" "glm_args (length p1 - c) (drop (length (takeWhile isspace span) + length name) p1) [] = Some x" "(r, args) = x"
  then have "length r < length (drop (length (takeWhile isspace span) + length name) p1)" by (metis glm_args_length)
  then have "length r < length p" using a(1,2) length_skip_ws [of p] by simp
  then show "((r, tool_calls_push cs (call_of name args)), p, cs) \<in> measure (\<lambda>(p, cs). length p)" by simp
qed simp

declare glm_calls.simps [simp del]

definition parse_glm_generated_message_ex :: "string option \<Rightarrow> bool \<Rightarrow> tool_calls \<Rightarrow> parsed_message" where
  "parse_glm_generated_message_ex text0 require_thinking_closed cs = (let t = of_ptr text0 in
     case search_from (\<lambda>s. strstr s ''<tool_call>'') (\<lambda>s. strstr s ''</tool_call>'') t require_thinking_closed of
       None \<Rightarrow> parsed (ds4_local_unterminated_reasoning t) cs
     | Some (k, recovered) \<Rightarrow>
         (case strstr (drop k t) ''<tool_call>'' of
            None \<Rightarrow> parsed (split_reasoning_content t (length t)) cs
          | Some i \<Rightarrow> (let start = k + i;
                raw_start = (if start \<ge> 2 \<and> take 2 (drop (start - 2) t) = nl @ nl then start - 2 else start) in
              case glm_calls (drop start t) cs of (None, cs') \<Rightarrow> unparsed cs'
              | (Some r, cs') \<Rightarrow> if calls_v cs' = [] then unparsed cs'
                  else parsed (before_calls recovered t (trim_tool_separator_ws t 0 raw_start))
                    (cs'\<lparr>raw_tool_text := Some (take (length t - length r - raw_start) (drop raw_start t))\<rparr>))))"

definition parse_generated_message_ex_for_syntax :: "server_model_syntax \<Rightarrow> string option \<Rightarrow> bool \<Rightarrow> tool_calls \<Rightarrow> parsed_message" where
  "parse_generated_message_ex_for_syntax syntax =
     (case syntax of SERVER_MODEL_SYNTAX_GLM \<Rightarrow> parse_glm_generated_message_ex
      | SERVER_MODEL_SYNTAX_DEEPSEEK \<Rightarrow> parse_deepseek_generated_message_ex)"

definition parse_generated_message_ex :: "string option \<Rightarrow> bool \<Rightarrow> tool_calls \<Rightarrow> parsed_message" where
  "parse_generated_message_ex = parse_generated_message_ex_for_syntax SERVER_MODEL_SYNTAX_DEEPSEEK"

section \<open>Recovery\<close>

text \<open>The tags of the block, from the first spelling whose start is there.\<close>

definition repair_tags :: "string \<Rightarrow> dsml_tags option" where
  "repair_tags scan = (if strstr scan DS4_TOOL_CALLS_START \<noteq> None then Some (style_tags 0)
     else if strstr scan DS4_TOOL_CALLS_START_SHORT \<noteq> None then Some (style_tags 2)
     else if strstr scan ''<tool_calls>'' \<noteq> None then Some (style_tags 1) else None)"

text \<open>The single pass: the first of the tags that is there is counted and skipped.\<close>

fun tag_at :: "string list \<Rightarrow> string \<Rightarrow> string option" where
  "tag_at [] p = None"
| "tag_at (g # gs) p = (if g \<noteq> [] \<and> prefix g p then Some g else tag_at gs p)"

lemma tag_at_length: "tag_at gs p = Some g \<Longrightarrow> g \<noteq> [] \<and> prefix g p \<and> g \<in> set gs"
  by (induction gs) (auto split: if_splits)

function scan_tags :: "string list \<Rightarrow> string \<Rightarrow> string list" where
  "scan_tags gs p = (case p of [] \<Rightarrow> [] | c # p' \<Rightarrow> (case tag_at gs p of Some g \<Rightarrow> g # scan_tags gs (drop (length g) p) | None \<Rightarrow> scan_tags gs p'))"
  by pat_completeness auto
termination scan_tags
  by (relation "measure (\<lambda>(gs, p). length p)") (auto dest!: tag_at_length simp: Suc_le_eq)

declare scan_tags.simps [simp del]

definition tag_list :: "dsml_tags \<Rightarrow> string list" where
  "tag_list tags = [tool_calls_start tags, tool_calls_end tags, invoke_start tags, invoke_end tags, param_start tags, param_end tags]"

definition try_repair_dsml :: "string option \<Rightarrow> string option" where
  "try_repair_dsml s0 = (let s = of_ptr s0 in
     if s = [] then None
     else (let scan = (case find_last_substr s ''</think>'' of Some k \<Rightarrow> drop (k + 8) s | None \<Rightarrow> s) in
       case repair_tags scan of None \<Rightarrow> None
       | Some tags \<Rightarrow> (let found = scan_tags (tag_list tags) scan; n = (\<lambda>g. length (filter ((=) g) found));
             tos = n (tool_calls_start tags); toe = n (tool_calls_end tags); ios = n (invoke_start tags); ioe = n (invoke_end tags);
             pos = n (param_start tags); poe = n (param_end tags) in
           if tos = toe \<and> ios = ioe \<and> pos = poe then None
           else if toe > tos \<or> ioe > ios \<or> poe > pos then None
           else Some (s @ concat (replicate (pos - poe) (param_end tags)) @ concat (replicate (ios - ioe) (invoke_end tags)) @
                      concat (replicate (tos - toe) (tool_calls_end tags))))))"

definition tool_parse_failure_recovery_finish :: "string option \<Rightarrow> string" where
  "tool_parse_failure_recovery_finish finish = (if finish = Some ''length'' then ''length'' else ''stop'')"

record response_parse =
  rp_ok :: bool
  rp_message :: parsed_message
  rp_finish :: "string option"
  rp_err :: "string option"
  rp_recovered :: bool

text \<open>The finish reason and the error are \<open>None\<close> when their pointer, or the buffer, is missing; \<open>rp_err\<close> is what is written.\<close>

definition parse_generated_message_for_response_for_syntax ::
  "server_model_syntax \<Rightarrow> string option \<Rightarrow> bool \<Rightarrow> bool \<Rightarrow> bool \<Rightarrow> string option \<Rightarrow> nat \<Rightarrow> tool_calls \<Rightarrow> response_parse" where
  "parse_generated_message_for_response_for_syntax syntax text0 has_tools saw_tool_start require_thinking_closed finish errlen cs =
     (let m = parse_generated_message_ex_for_syntax syntax text0 require_thinking_closed cs in
      if pm_ok m then \<lparr>rp_ok = True, rp_message = m, rp_finish = finish, rp_err = None, rp_recovered = False\<rparr>
      else (let failed = \<lparr>pm_ok = False, pm_content = Some (of_ptr text0), pm_reasoning = None, pm_calls = tool_calls_free\<rparr>;
                fin = or_default finish ''stop'' in
        if has_tools \<and> saw_tool_start \<and> fin \<noteq> ''error''
        then \<lparr>rp_ok = False, rp_message = failed, rp_finish = Some (tool_parse_failure_recovery_finish (Some fin)),
               rp_err = (if errlen > 0 then Some (take (errlen - 1) ''invalid tool call'') else None), rp_recovered = True\<rparr>
        else \<lparr>rp_ok = False, rp_message = failed, rp_finish = finish, rp_err = None, rp_recovered = False\<rparr>))"

end
