(* ===== verification/GeneratedProofs.thy ===== *)
theory GeneratedProofs
  imports Generated
begin

text \<open>
  What the parsers of generated text guarantee: nothing written while thinking becomes a tool call, a call
  rendered into a prompt is read back as the same call, and a repaired block is balanced.
\<close>

section \<open>Reasoning is not executed\<close>

lemma last_substr_at:
  "find_last_from s needle off best = Some k \<Longrightarrow> best = Some k \<or> (off \<le> k \<and> prefix needle (drop k s))"
proof (induction s needle off best rule: find_last_from.induct)
  case (1 s needle off best)
  show ?case
  proof (cases "strstr (drop off s) needle")
    case None
    then show ?thesis using 1(2) by (simp add: find_last_from.simps [of s])
  next
    case (Some i)
    then show ?thesis using 1 strstr_Some [OF Some] by (auto simp: find_last_from.simps [of s needle off] add.commute split: if_splits)
  qed
qed

lemma find_last_substr_at: "find_last_substr s needle = Some k \<Longrightarrow> prefix needle (drop k s)"
  by (auto simp: find_last_substr_def dest!: last_substr_at split: if_splits)

lemma find_last_from_last:
  assumes "needle \<noteq> []" "prefix needle (drop k s)" "off \<le> k" "\<forall>j. k < j \<longrightarrow> \<not> prefix needle (drop j s)"
  shows "find_last_from s needle off best = Some k"
  using assms
proof (induction s needle off best rule: find_last_from.induct)
  case (1 s needle off best)
  have k: "drop (k - off) (drop off s) = drop k s" using 1(4) by simp
  have "k < length s" using 1(2,3) by (cases "k < length s") auto
  then have "k - off \<le> length (drop off s)" by simp
  then have "\<not> (strstr (drop off s) needle = None)" using 1(3) k unfolding strstr_None by metis
  then obtain i where i: "strstr (drop off s) needle = Some i" by auto
  have "i \<le> k - off" using strstr_first [OF i, of "k - off"] 1(3) k by (cases "i \<le> k - off") auto
  show ?case
  proof (cases "off + i = k")
    case True
    have "strstr (drop (Suc k) s) needle = None" using 1(5) by (simp add: strstr_None)
    then show ?thesis using i True 1(2) by (simp add: find_last_from.simps [of s needle off] find_last_from.simps [of s needle "Suc k"])
  next
    case False
    then have "Suc (off + i) \<le> k" using \<open>i \<le> k - off\<close> 1(4) by simp
    then show ?thesis using 1(1) [OF i 1(2) 1(2,3) _ 1(5)] i 1(2) by (simp add: find_last_from.simps [of s needle off])
  qed
qed

lemma sublist_drop: "sublist n s \<longleftrightarrow> (\<exists>j. prefix n (drop j s))"
  by (metis append_take_drop_id prefix_order.eq_iff sublist_altdef sublist_altdef' suffix_drop suffix_def drop_append prefix_def append.assoc sublist_append_rightI append_eq_conv_conj prefixE)

text \<open>The end of thinking does not overlap itself, so an occurrence behind one lies in the text behind it.\<close>

lemma think_end_last:
  assumes "\<not> sublist ''</think>'' b"
  shows "find_last_substr (a @ ''</think>'' @ b) ''</think>'' = Some (length a)"
proof -
  have "\<not> prefix ''</think>'' (drop j (a @ ''</think>'' @ b))" if j: "length a < j" for j
  proof (cases "length a + 8 \<le> j")
    case True
    have "drop j ((a @ ''</think>'') @ b) = drop (j - length (a @ ''</think>'')) b" by (subst drop_append) (use True in simp)
    then have "drop j (a @ ''</think>'' @ b) = drop (j - length (a @ ''</think>'')) b" by (simp only: append.assoc)
    then show ?thesis using assms by (metis sublist_drop)
  next
    case False
    then have "j - length a \<in> {1, 2, 3, 4, 5, 6, 7}" using j by auto
    then show ?thesis using j by auto
  qed
  then show ?thesis by (simp add: find_last_substr_def find_last_from_last)
qed

lemma last_think_end: "sublist ''</think>'' s \<Longrightarrow> \<exists>a b. s = a @ ''</think>'' @ b \<and> \<not> sublist ''</think>'' b"
proof (induction "length s" arbitrary: s rule: less_induct)
  case less
  then obtain a b where s: "s = a @ ''</think>'' @ b" by (auto simp: sublist_def)
  show ?case
  proof (cases "sublist ''</think>'' b")
    case True
    then obtain a' b' where b: "b = a' @ ''</think>'' @ b'" "\<not> sublist ''</think>'' b'" using less.hyps [of b] s by auto
    then have "s = (a @ ''</think>'' @ a') @ ''</think>'' @ b'" using s by simp
    then show ?thesis using b(2) by blast
  qed (use s in blast)
qed

text \<open>The text behind the last end of thinking.\<close>

definition behind_thinking :: "string \<Rightarrow> string \<Rightarrow> bool" where
  "behind_thinking b s \<longleftrightarrow> (\<exists>a. s = a @ b \<and> (a = [] \<or> suffix ''</think>'' a)) \<and> \<not> sublist ''</think>'' b"

lemma of_ptr_drop: "of_ptr (Some (drop k (of_ptr x))) = drop k (of_ptr x)"
proof -
  have "NUL \<notin> set (drop k (of_ptr x))" using set_drop_subset [of k "of_ptr x"] NUL_notin_cstr by blast
  then show ?thesis by (simp add: or_default_def cstr_id)
qed

lemma deepseek_calls_from:
  assumes "search_from find_any_tool_start find_any_tool_end (of_ptr x) r = Some (k, recovered)"
  shows "pm_ok (parse_deepseek_generated_message_ex x r cs) = pm_ok (parse_deepseek_generated_message_ex (Some (drop k (of_ptr x))) False cs) \<and>
    pm_calls (parse_deepseek_generated_message_ex x r cs) = pm_calls (parse_deepseek_generated_message_ex (Some (drop k (of_ptr x))) False cs)"
proof -
  have z: "search_from find_any_tool_start find_any_tool_end (drop k (of_ptr x)) False = Some (0, False)" by (simp add: search_from_def)
  show ?thesis unfolding parse_deepseek_generated_message_ex_def of_ptr_drop Let_def assms z
    by (simp add: parsed_def unparsed_def add.commute split: option.split prod.split)
qed

lemma glm_calls_from:
  assumes "search_from (\<lambda>s. strstr s ''<tool_call>'') (\<lambda>s. strstr s ''</tool_call>'') (of_ptr x) r = Some (k, recovered)"
    "\<And>i. k \<le> i \<Longrightarrow> i < k + 2 \<Longrightarrow> i \<ge> 2 \<Longrightarrow> take 2 (drop (i - 2) (of_ptr x)) \<noteq> nl @ nl"
  shows "pm_ok (parse_glm_generated_message_ex x r cs) = pm_ok (parse_glm_generated_message_ex (Some (drop k (of_ptr x))) False cs) \<and>
    pm_calls (parse_glm_generated_message_ex x r cs) = pm_calls (parse_glm_generated_message_ex (Some (drop k (of_ptr x))) False cs)"
proof -
  let ?t = "of_ptr x"
  define raw where "raw t start = (if start \<ge> 2 \<and> take 2 (drop (start - 2) t) = nl @ nl then start - 2 else start)" for t :: string and start :: nat
  have r: "raw ?t (k + i) = k + raw (drop k ?t) i" for i
  proof (cases "i < 2")
    case True
    then show ?thesis using assms(2) [of "k + i"] by (auto simp: raw_def)
  next
    case False
    then have "k + i - 2 = k + (i - 2)" by simp
    then show ?thesis using False by (simp add: raw_def add.commute [of k "i - 2"])
  qed
  have z: "search_from (\<lambda>s. strstr s ''<tool_call>'') (\<lambda>s. strstr s ''</tool_call>'') (drop k ?t) False = Some (0, False)" by (simp add: search_from_def)
  have l: "length (drop k ?t) - n - raw (drop k ?t) i = length ?t - n - (k + raw (drop k ?t) i)" for n i by simp
  show ?thesis unfolding parse_glm_generated_message_ex_def of_ptr_drop Let_def assms(1) z raw_def [symmetric]
    by (simp add: parsed_def unparsed_def r r [unfolded add.commute [of k]] l drop_drop ac_simps split: option.split prod.split)
qed

text \<open>
  C5.  What the model writes while it is thinking is never executed.  When the last end of thinking in a text
  stands in front of \<open>b\<close>, the tool calls and the raw text of their block are those of \<open>b\<close> read alone, in both
  templates: whatever the text in front of it quotes, drafts or mentions, calls between two ends of
  thinking included, has no influence on them.
\<close>

theorem reasoning_has_no_calls:
  assumes "of_ptr x = a @ ''</think>'' @ b" "\<not> sublist ''</think>'' b"
  shows "pm_ok (parse_generated_message_ex_for_syntax sx x True cs) = pm_ok (parse_generated_message_ex_for_syntax sx (Some b) False cs) \<and>
    pm_calls (parse_generated_message_ex_for_syntax sx x True cs) = pm_calls (parse_generated_message_ex_for_syntax sx (Some b) False cs)"
proof -
  let ?t = "of_ptr x" and ?k = "length a"
  have k: "find_last_substr ?t ''</think>'' = Some ?k" using think_end_last [OF assms(2), of a] assms(1) by simp
  have b: "drop (?k + 8) ?t = b" using assms(1) by simp
  show ?thesis
  proof (cases sx)
    case SERVER_MODEL_SYNTAX_DEEPSEEK
    have "search_from find_any_tool_start find_any_tool_end ?t True = Some (?k + 8, False)" using k by (simp add: search_from_def)
    from deepseek_calls_from [OF this] show ?thesis unfolding b by (simp add: SERVER_MODEL_SYNTAX_DEEPSEEK parse_generated_message_ex_for_syntax_def)
  next
    case SERVER_MODEL_SYNTAX_GLM
    have s: "search_from (\<lambda>s. strstr s ''<tool_call>'') (\<lambda>s. strstr s ''</tool_call>'') ?t True = Some (?k + 8, False)" using k by (simp add: search_from_def)
    have "take 2 (drop (i - 2) ?t) \<noteq> nl @ nl" if i: "?k + 8 \<le> i" "i < ?k + 8 + 2" for i
    proof -
      have "drop (i - 2) ?t = drop (i - 2 - ?k) (''</think>'' @ b)" using i assms(1) by simp
      moreover have "i - 2 - ?k = 6 \<or> i - 2 - ?k = 7" using i by linarith
      ultimately show ?thesis by auto
    qed
    then show ?thesis using glm_calls_from [OF s] unfolding b by (simp add: SERVER_MODEL_SYNTAX_GLM parse_generated_message_ex_for_syntax_def)
  qed
qed

theorem reasoning_has_no_calls_witness:
  "let x = ''p</think><tool_call>a</tool_call></think>ok''
   in pm_calls (parse_generated_message_ex_for_syntax SERVER_MODEL_SYNTAX_GLM (Some x) True tool_calls_free) = tool_calls_free \<and>
      calls_v (pm_calls (parse_generated_message_ex_for_syntax SERVER_MODEL_SYNTAX_GLM (Some (drop 9 x)) False tool_calls_free)) \<noteq> []"
proof -
  let ?x = "''p</think><tool_call>a</tool_call></think>ok''"
  have x: "of_ptr (Some ?x) = ''p</think><tool_call>a</tool_call>'' @ ''</think>'' @ ''ok''" by code_simp
  have n: "\<not> sublist ''</think>'' ''ok''" by (auto dest: sublist_length_le)
  have "pm_calls (parse_generated_message_ex_for_syntax SERVER_MODEL_SYNTAX_GLM (Some ''ok'') False tool_calls_free) = tool_calls_free" by code_simp
  moreover have "calls_v (pm_calls (parse_generated_message_ex_for_syntax SERVER_MODEL_SYNTAX_GLM (Some (drop 9 ?x)) False tool_calls_free)) \<noteq> []" by code_simp
  ultimately show ?thesis unfolding Let_def
    using reasoning_has_no_calls [OF x n, of SERVER_MODEL_SYNTAX_GLM tool_calls_free] by simp
qed

section \<open>Repaired blocks are balanced\<close>

text \<open>A tag has its only opening bracket in front, so that none can begin in one text and end in another that starts with a tag.\<close>

definition opens :: "string \<Rightarrow> bool" where
  "opens g \<longleftrightarrow> g \<noteq> [] \<and> hd g = CHR ''<'' \<and> CHR ''<'' \<notin> set (tl g)"

definition fresh :: "string \<Rightarrow> bool" where
  "fresh u \<longleftrightarrow> u = [] \<or> hd u = CHR ''<''"

lemma prefix_tag_append:
  assumes "opens g" "fresh u" "p \<noteq> []" shows "prefix g (p @ u) \<longleftrightarrow> prefix g p"
proof
  assume g: "prefix g (p @ u)"
  show "prefix g p"
  proof (rule ccontr)
    assume n: "\<not> prefix g p"
    then obtain v where v: "g = p @ v" "prefix v u" using g by (auto simp: prefix_append)
    then have "v \<noteq> []" using n by auto
    then have "CHR ''<'' \<in> set v" using v(2) assms(2) by (cases v; cases u) (auto simp: fresh_def)
    then show False using v(1) assms(1,3) by (cases p) (auto simp: opens_def)
  qed
qed (rule prefix_prefix)

lemma strstr_tag_append:
  "opens g \<Longrightarrow> fresh u \<Longrightarrow> strstr u g = None \<Longrightarrow> strstr (p @ u) g = strstr p g"
proof (induction p)
  case Nil
  then show ?case by (auto simp: opens_def)
next
  case (Cons c p)
  then show ?case using prefix_tag_append [of g u "c # p"] by simp
qed

lemma last_tag_append:
  "opens g \<Longrightarrow> fresh u \<Longrightarrow> strstr u g = None \<Longrightarrow> off \<le> length s \<Longrightarrow> find_last_from (s @ u) g off best = find_last_from s g off best"
proof (induction s g off best rule: find_last_from.induct)
  case (1 s g off best)
  have e: "strstr (drop off (s @ u)) g = strstr (drop off s) g" using strstr_tag_append [OF 1(2-4)] 1(5) by simp
  show ?case
  proof (cases "strstr (drop off s) g")
    case None
    then show ?thesis using e by (simp add: find_last_from.simps [of _ g off])
  next
    case (Some i)
    have g: "g \<noteq> []" using 1(2) by (simp add: opens_def)
    have "i + length g \<le> length s - off" using strstr_Some [OF Some] by simp
    then have "Suc (off + i) \<le> length s" using g 1(5) by (cases g) simp_all
    then show ?thesis using 1(1) [OF Some g 1(2-4)] e Some g by (simp add: find_last_from.simps [of _ g off])
  qed
qed

lemma tag_at_append: "list_all opens gs \<Longrightarrow> fresh u \<Longrightarrow> p \<noteq> [] \<Longrightarrow> tag_at gs (p @ u) = tag_at gs p"
  by (induction gs) (auto simp: prefix_tag_append)

lemma scan_tags_append:
  "list_all opens gs \<Longrightarrow> fresh u \<Longrightarrow> scan_tags gs (p @ u) = scan_tags gs p @ scan_tags gs u"
proof (induction gs p rule: scan_tags.induct)
  case (1 gs p)
  show ?case
  proof (cases p)
    case Nil
    then show ?thesis by (simp add: scan_tags.simps [of gs "[]"])
  next
    case (Cons c p')
    have t: "tag_at gs (p @ u) = tag_at gs p" by (rule tag_at_append) (use 1(3,4) Cons in auto)
    show ?thesis
    proof (cases "tag_at gs p")
      case None
      then show ?thesis using 1(1) [OF Cons None 1(3,4)] t Cons by (simp add: scan_tags.simps [of gs "c # p'"] scan_tags.simps [of gs "c # p' @ u"])
    next
      case (Some g)
      have "length g \<le> length p" using tag_at_length [OF Some] prefix_length_le by blast
      then have d: "drop (length g) (p @ u) = drop (length g) p @ u" by simp
      show ?thesis using 1(2) [OF Cons Some 1(3,4)] t d Some Cons by (simp add: scan_tags.simps [of gs "c # p'"] scan_tags.simps [of gs "c # p' @ u"])
    qed
  qed
qed

text \<open>Closing tags appended one after the other.\<close>

lemma fresh_concat: "list_all opens ws \<Longrightarrow> fresh (concat ws)"
  by (cases ws) (auto simp: fresh_def opens_def)

lemma strstr_closers:
  "list_all opens ws \<Longrightarrow> opens g \<Longrightarrow> (\<And>w r. w \<in> set ws \<Longrightarrow> \<not> prefix g (w @ r)) \<Longrightarrow> strstr (concat ws) g = None"
proof (induction ws)
  case (Cons w ws)
  obtain w' where w: "w = CHR ''<'' # w'" "CHR ''<'' \<notin> set w'" using Cons.prems(1) by (cases w) (auto simp: opens_def)
  have "strstr (concat ws) g = None" using Cons by simp
  then have "strstr (w' @ concat ws) g = None" using strstr_skip [of g w' "concat ws"] Cons.prems(2) w(2) by (simp add: opens_def)
  then show ?case using Cons.prems(3) [of w "concat ws"] w(1) by simp
qed (simp add: opens_def)

lemma scan_closers:
  "list_all opens ws \<Longrightarrow> (\<And>w r. w \<in> set ws \<Longrightarrow> tag_at gs (w @ r) = Some w) \<Longrightarrow> scan_tags gs (concat ws) = ws"
proof (induction ws)
  case (Cons w ws)
  obtain w' where w: "w = CHR ''<'' # w'" using Cons.prems(1) by (cases w) (auto simp: opens_def)
  have "scan_tags gs (concat ws) = ws" using Cons by simp
  then show ?case using Cons.prems(2) [of w "concat ws"] w by (simp add: scan_tags.simps [of gs "CHR ''<'' # w' @ concat ws"])
qed (simp add: scan_tags.simps [of gs "[]"])

lemmas all_tags = style_tags_def DS4_TOOL_CALLS_START_def DS4_TOOL_CALLS_END_def DS4_INVOKE_START_def DS4_INVOKE_END_def DS4_PARAM_START_def
  DS4_PARAM_END_def DS4_TOOL_CALLS_START_SHORT_def DS4_TOOL_CALLS_END_SHORT_def DS4_INVOKE_START_SHORT_def DS4_INVOKE_END_SHORT_def
  DS4_PARAM_START_SHORT_def DS4_PARAM_END_SHORT_def DS4_DSML_def DS4_DSML_SHORT_def bar_def

lemma tags_open: "list_all opens (tag_list (style_tags i))"
  by (simp add: tag_list_def all_tags opens_def)

lemma tags_distinct: "distinct (tag_list (style_tags i))"
  by (simp add: tag_list_def all_tags)

lemma style_cases: "style_tags i = style_tags 0 \<or> style_tags i = style_tags 1 \<or> style_tags i = style_tags 2"
  by (simp add: style_tags_def)

lemma closer_at_0:
  "tag_at (tag_list (style_tags 0)) (param_end (style_tags 0) @ r) = Some (param_end (style_tags 0))"
  "tag_at (tag_list (style_tags 0)) (invoke_end (style_tags 0) @ r) = Some (invoke_end (style_tags 0))"
  "tag_at (tag_list (style_tags 0)) (tool_calls_end (style_tags 0) @ r) = Some (tool_calls_end (style_tags 0))"
  by (simp_all add: tag_list_def all_tags)

lemma closer_at_1:
  "tag_at (tag_list (style_tags 1)) (param_end (style_tags 1) @ r) = Some (param_end (style_tags 1))"
  "tag_at (tag_list (style_tags 1)) (invoke_end (style_tags 1) @ r) = Some (invoke_end (style_tags 1))"
  "tag_at (tag_list (style_tags 1)) (tool_calls_end (style_tags 1) @ r) = Some (tool_calls_end (style_tags 1))"
  by (simp_all add: tag_list_def all_tags)

lemma closer_at_2:
  "tag_at (tag_list (style_tags 2)) (param_end (style_tags 2) @ r) = Some (param_end (style_tags 2))"
  "tag_at (tag_list (style_tags 2)) (invoke_end (style_tags 2) @ r) = Some (invoke_end (style_tags 2))"
  "tag_at (tag_list (style_tags 2)) (tool_calls_end (style_tags 2) @ r) = Some (tool_calls_end (style_tags 2))"
  by (simp_all add: tag_list_def all_tags)

definition closers :: "nat \<Rightarrow> string set" where
  "closers i = {param_end (style_tags i), invoke_end (style_tags i), tool_calls_end (style_tags i)}"

lemma closer_at: "w \<in> closers i \<Longrightarrow> tag_at (tag_list (style_tags i)) (w @ r) = Some w"
  using style_cases [of i] closer_at_0 [of r] closer_at_1 [of r] closer_at_2 [of r] unfolding closers_def by auto

lemma closer_opens: "w \<in> closers i \<Longrightarrow> opens w"
  using tags_open [of i] by (auto simp: closers_def tag_list_def)

lemma closer_NUL: "w \<in> closers i \<Longrightarrow> NUL \<notin> set w"
  by (auto simp: closers_def all_tags split: if_splits)

text \<open>A closing tag goes on with a slash, and none of them ends thinking.\<close>

lemma closer_slash: "w \<in> closers i \<Longrightarrow> \<exists>v. w = CHR ''<'' # CHR ''/'' # v \<and> \<not> prefix ''think>'' (v @ r)"
  by (auto simp: closers_def all_tags split: if_splits)

lemma closer_foreign:
  assumes "w \<in> closers i" "g \<in> {''</think>'', DS4_TOOL_CALLS_START, DS4_TOOL_CALLS_START_SHORT, ''<tool_calls>''}"
  shows "\<not> prefix g (w @ r)"
  using closer_slash [OF assms(1), of r] assms(2) by (auto simp: DS4_TOOL_CALLS_START_def DS4_TOOL_CALLS_START_SHORT_def DS4_DSML_def DS4_DSML_SHORT_def bar_def)

lemma occurrence_repaired:
  assumes "set ws \<subseteq> closers i" "g \<in> {''</think>'', DS4_TOOL_CALLS_START, DS4_TOOL_CALLS_START_SHORT, ''<tool_calls>''}"
  shows "strstr (p @ concat ws) g = strstr p g" "find_last_substr (p @ concat ws) g = find_last_substr p g"
proof -
  have o: "list_all opens ws" using assms(1) closer_opens by (auto simp: list_all_iff)
  have g: "opens g" using assms(2) by (auto simp: opens_def DS4_TOOL_CALLS_START_def DS4_TOOL_CALLS_START_SHORT_def DS4_DSML_def DS4_DSML_SHORT_def bar_def)
  have n: "strstr (concat ws) g = None" by (rule strstr_closers [OF o g]) (use assms closer_foreign in blast)
  show "strstr (p @ concat ws) g = strstr p g" by (rule strstr_tag_append [OF g fresh_concat [OF o] n])
  show "find_last_substr (p @ concat ws) g = find_last_substr p g"
    using last_tag_append [OF g fresh_concat [OF o] n] g by (simp add: find_last_substr_def opens_def)
qed

lemma scan_repaired:
  assumes "set ws \<subseteq> closers i"
  shows "scan_tags (tag_list (style_tags i)) (p @ concat ws) = scan_tags (tag_list (style_tags i)) p @ ws"
proof -
  have o: "list_all opens ws" using assms closer_opens by (auto simp: list_all_iff)
  show ?thesis
    using scan_tags_append [OF tags_open fresh_concat [OF o]] scan_closers [OF o] closer_at [of _ i] assms by (simp add: subset_iff)
qed

definition scan_part :: "string \<Rightarrow> string" where
  "scan_part s = (case find_last_substr s ''</think>'' of Some k \<Rightarrow> drop (k + 8) s | None \<Rightarrow> s)"

lemma scan_part_repaired:
  assumes "set ws \<subseteq> closers i" shows "scan_part (s @ concat ws) = scan_part s @ concat ws"
proof (cases "find_last_substr s ''</think>''")
  case None
  then show ?thesis using occurrence_repaired(2) [OF assms, of "''</think>''" s] by (simp add: scan_part_def)
next
  case (Some k)
  have "k + 8 \<le> length s" using prefix_length_le [OF find_last_substr_at [OF Some]] by simp
  then show ?thesis using Some occurrence_repaired(2) [OF assms, of "''</think>''" s] by (simp add: scan_part_def)
qed

lemma repair_tags_repaired:
  assumes "set ws \<subseteq> closers i" shows "repair_tags (p @ concat ws) = repair_tags p"
proof -
  have "strstr (p @ concat ws) DS4_TOOL_CALLS_START = strstr p DS4_TOOL_CALLS_START" "strstr (p @ concat ws) ''<tool_calls>'' = strstr p ''<tool_calls>''"
    "strstr (p @ concat ws) DS4_TOOL_CALLS_START_SHORT = strstr p DS4_TOOL_CALLS_START_SHORT"
    by (rule occurrence_repaired(1) [OF assms], simp)+
  then show ?thesis unfolding repair_tags_def by (simp only:)
qed

lemma scan_part_behind: "behind_thinking (scan_part s) s"
proof (cases "sublist ''</think>'' s")
  case False
  then have "find_last_substr s ''</think>'' = None"
    using find_last_substr_at [of s "''</think>''"] by (cases "find_last_substr s ''</think>''") (auto simp: sublist_drop)
  with False show ?thesis by (simp add: scan_part_def behind_thinking_def)
next
  case True
  then obtain a b where s: "s = a @ ''</think>'' @ b" "\<not> sublist ''</think>'' b" using last_think_end by blast
  then have "scan_part s = b" by (simp only: scan_part_def think_end_last [OF s(2)]) simp
  moreover have "s = (a @ ''</think>'') @ b" "suffix ''</think>'' (a @ ''</think>'')" using s(1) by (simp_all add: suffix_def)
  ultimately show ?thesis using s(2) unfolding behind_thinking_def by blast
qed

subsection \<open>Balance\<close>

text \<open>How often a tag occurs, counted at every position.\<close>

fun occurrences :: "string \<Rightarrow> string \<Rightarrow> nat" where
  "occurrences g [] = 0"
| "occurrences g (c # s) = (if prefix g (c # s) then 1 else 0) + occurrences g s"

lemma occurrences_skip: "opens g \<Longrightarrow> CHR ''<'' \<notin> set w \<Longrightarrow> occurrences g (w @ s) = occurrences g s"
  by (induction w) (cases g; auto simp: opens_def)+

lemma scan_counts:
  "list_all opens gs \<Longrightarrow> \<forall>g \<in> set gs. \<forall>h \<in> set gs. prefix g h \<longrightarrow> g = h \<Longrightarrow> g \<in> set gs \<Longrightarrow>
   length (filter ((=) g) (scan_tags gs p)) = occurrences g p"
proof (induction gs p rule: scan_tags.induct)
  case (1 gs p)
  have og: "opens g" using 1(3,5) by (auto simp: list_all_iff)
  show ?case
  proof (cases p)
    case Nil
    then show ?thesis by (simp add: scan_tags.simps [of gs "[]"])
  next
    case (Cons c p')
    show ?thesis
    proof (cases "tag_at gs p")
      case None
      have "tag_at hs p = None \<Longrightarrow> h \<in> set hs \<Longrightarrow> h \<noteq> [] \<Longrightarrow> \<not> prefix h p" for h hs by (induction hs) (auto split: if_splits)
      then have "\<not> prefix g p" using None 1(5) og by (auto simp: opens_def)
      then show ?thesis using 1(1) [OF Cons None 1(3-5)] None Cons by (simp add: scan_tags.simps [of gs "c # p'"])
    next
      case (Some h)
      note h = tag_at_length [OF Some]
      have oh: "opens h" using h 1(3) by (auto simp: list_all_iff)
      then obtain w where w: "h = CHR ''<'' # w" "CHR ''<'' \<notin> set w" by (cases h) (auto simp: opens_def)
      obtain r where r: "p = h @ r" using h by (auto elim: prefixE)
      have "prefix g p \<longleftrightarrow> g = h" using h 1(4,5) r by (metis prefix_same_cases prefixI)
      then have "occurrences g p = (if g = h then 1 else 0) + occurrences g r"
        using occurrences_skip [OF og w(2), of r] r w(1) by simp
      moreover have "length (filter ((=) g) (scan_tags gs (drop (length h) p))) = occurrences g (drop (length h) p)"
        by (rule 1(2) [OF Cons Some 1(3-5)])
      moreover have "drop (length h) p = r" using r by simp
      moreover have "scan_tags gs p = h # scan_tags gs (drop (length h) p)" using Some Cons by (simp add: scan_tags.simps [of gs "c # p'"])
      ultimately show ?thesis by auto
    qed
  qed
qed

lemma tags_prefix_free: "\<forall>g \<in> set (tag_list (style_tags i)). \<forall>h \<in> set (tag_list (style_tags i)). prefix g h \<longrightarrow> g = h"
  by (simp add: tag_list_def all_tags)

definition balanced :: "dsml_tags \<Rightarrow> string \<Rightarrow> bool" where
  "balanced tags s \<longleftrightarrow> occurrences (tool_calls_start tags) s = occurrences (tool_calls_end tags) s \<and>
     occurrences (invoke_start tags) s = occurrences (invoke_end tags) s \<and> occurrences (param_start tags) s = occurrences (param_end tags) s"

lemma repair_tags_row:
  assumes "repair_tags scan = Some tags" shows "\<exists>i < 3. tags = style_tags i \<and> sublist (tool_calls_start tags) scan"
proof -
  have sub: "strstr scan g \<noteq> None \<Longrightarrow> sublist g scan" for g using strstr_Some unfolding sublist_drop by blast
  consider "tags = style_tags 0" "strstr scan DS4_TOOL_CALLS_START \<noteq> None" | "tags = style_tags 2" "strstr scan DS4_TOOL_CALLS_START_SHORT \<noteq> None"
    | "tags = style_tags 1" "strstr scan ''<tool_calls>'' \<noteq> None" using assms by (auto simp: repair_tags_def split: if_splits)
  then show ?thesis
  proof cases
    case 1 then show ?thesis using sub by (intro exI [of _ 0]) (simp add: style_tags_def)
  next
    case 2 then show ?thesis using sub by (intro exI [of _ 2]) (simp add: style_tags_def)
  next
    case 3 then show ?thesis using sub by (intro exI [of _ 1]) (simp add: style_tags_def)
  qed
qed

text \<open>A repaired text needs no second repair.\<close>

lemma repaired_once:
  assumes "try_repair_dsml x = Some out" shows "try_repair_dsml (Some out) = None"
proof -
  let ?s = "of_ptr x"
  obtain tags where t: "repair_tags (scan_part ?s) = Some tags"
    using assms by (auto simp: try_repair_dsml_def Let_def scan_part_def [symmetric] split: if_splits option.splits)
  obtain i where i: "tags = style_tags i" using repair_tags_row [OF t] by blast
  define n where "n g = length (filter ((=) g) (scan_tags (tag_list tags) (scan_part ?s)))" for g
  let ?a = "n (param_start tags) - n (param_end tags)" and ?b = "n (invoke_start tags) - n (invoke_end tags)" and ?c = "n (tool_calls_start tags) - n (tool_calls_end tags)"
  let ?ws = "replicate ?a (param_end tags) @ replicate ?b (invoke_end tags) @ replicate ?c (tool_calls_end tags)"
  have le: "n (tool_calls_end tags) \<le> n (tool_calls_start tags)" "n (invoke_end tags) \<le> n (invoke_start tags)" "n (param_end tags) \<le> n (param_start tags)"
    and out: "out = ?s @ concat ?ws" and ne: "?s \<noteq> []"
    using assms t by (auto simp: try_repair_dsml_def Let_def scan_part_def [symmetric] n_def [symmetric] split: if_splits option.splits)
  have ws: "set ?ws \<subseteq> closers i" by (auto simp: closers_def i)
  have "NUL \<notin> set (concat ?ws)" using ws closer_NUL by fastforce
  then have c: "of_ptr (Some out) = ?s @ concat ?ws" unfolding out by (subst cstr_id) (auto simp: or_default_def)
  have "repair_tags (scan_part ?s @ concat ?ws) = Some tags"
    unfolding repair_tags_repaired [OF ws] by (rule t)
  moreover have "scan_tags (tag_list tags) (scan_part ?s @ concat ?ws) = scan_tags (tag_list tags) (scan_part ?s) @ ?ws"
    unfolding i by (rule scan_repaired [OF ws [unfolded i]])
  moreover have "m (tool_calls_start tags) = m (tool_calls_end tags)" "m (invoke_start tags) = m (invoke_end tags)" "m (param_start tags) = m (param_end tags)"
    if m: "\<And>g. m g = length (filter ((=) g) (scan_tags (tag_list tags) (scan_part ?s) @ ?ws))" for m
  proof -
    have d: "distinct (tag_list tags)" unfolding i by (rule tags_distinct)
    have "m g = n g + (if g = param_end tags then ?a else 0) + (if g = invoke_end tags then ?b else 0) + (if g = tool_calls_end tags then ?c else 0)" for g
      by (simp add: m n_def)
    then show "m (tool_calls_start tags) = m (tool_calls_end tags)" "m (invoke_start tags) = m (invoke_end tags)" "m (param_start tags) = m (param_end tags)"
      using d le by (auto simp: tag_list_def)
  qed
  ultimately show "try_repair_dsml (Some out) = None"
    using ne unfolding try_repair_dsml_def c Let_def scan_part_def [symmetric] scan_part_repaired [OF ws] by simp
qed

text \<open>
  What a repair does to a text: behind the last end of thinking there is a block in one of the three
  spellings with tags still open; the text is continued by the closing tags of the parameters, then of
  the invocations, then of the blocks that are open, one for each, and then every tag is closed.
\<close>

definition closes_open_tags :: "string \<Rightarrow> string \<Rightarrow> bool" where
  "closes_open_tags s out \<longleftrightarrow> (\<exists>b i tags p n c. behind_thinking b s \<and> i < 3 \<and> tags = style_tags i \<and> sublist (tool_calls_start tags) b \<and>
     out = s @ concat (replicate p (param_end tags) @ replicate n (invoke_end tags) @ replicate c (tool_calls_end tags)) \<and> 0 < p + n + c \<and>
     occurrences (param_start tags) b = occurrences (param_end tags) b + p \<and> occurrences (invoke_start tags) b = occurrences (invoke_end tags) b + n \<and>
     occurrences (tool_calls_start tags) b = occurrences (tool_calls_end tags) b + c \<and>
     balanced tags (b @ concat (replicate p (param_end tags) @ replicate n (invoke_end tags) @ replicate c (tool_calls_end tags))))"

text \<open>
  C34.  A repaired block is the model's text with exactly the missing closing tags behind it, in the order of
  nesting: behind the last end of thinking every opening tag, counted at all positions, then has its
  closing tag.
\<close>

theorem repaired_dsml_balanced:
  assumes "try_repair_dsml x = Some out" shows "closes_open_tags (of_ptr x) out"
proof -
  let ?s = "of_ptr x" and ?b = "scan_part (of_ptr x)"
  obtain tags where t: "repair_tags ?b = Some tags"
    using assms by (auto simp: try_repair_dsml_def Let_def scan_part_def [symmetric] split: if_splits option.splits)
  obtain i where i: "i < 3" "tags = style_tags i" "sublist (tool_calls_start tags) ?b" using repair_tags_row [OF t] by blast
  have cnt: "length (filter ((=) g) (scan_tags (tag_list tags) p)) = occurrences g p" if "g \<in> set (tag_list tags)" for g p
    using scan_counts [OF tags_open tags_prefix_free, of g i p] that i(2) by simp
  have mem: "tool_calls_start tags \<in> set (tag_list tags)" "tool_calls_end tags \<in> set (tag_list tags)" "invoke_start tags \<in> set (tag_list tags)"
    "invoke_end tags \<in> set (tag_list tags)" "param_start tags \<in> set (tag_list tags)" "param_end tags \<in> set (tag_list tags)" by (simp_all add: tag_list_def)
  define n where "n g = occurrences g ?b" for g
  define p where "p = n (param_start tags) - n (param_end tags)"
  define k where "k = n (invoke_start tags) - n (invoke_end tags)"
  define c where "c = n (tool_calls_start tags) - n (tool_calls_end tags)"
  define ws where "ws = replicate p (param_end tags) @ replicate k (invoke_end tags) @ replicate c (tool_calls_end tags)"
  have le: "n (tool_calls_end tags) \<le> n (tool_calls_start tags)" "n (invoke_end tags) \<le> n (invoke_start tags)" "n (param_end tags) \<le> n (param_start tags)"
    and pos: "0 < p + k + c" and out: "out = ?s @ concat ws"
    using assms t by (auto simp: try_repair_dsml_def Let_def scan_part_def [symmetric] cnt mem n_def p_def k_def c_def ws_def split: if_splits option.splits)
  have ws: "set ws \<subseteq> closers i" by (auto simp: closers_def i(2) ws_def)
  have sum: "occurrences g (?b @ concat ws) = n g + (if g = param_end tags then p else 0) + (if g = invoke_end tags then k else 0) + (if g = tool_calls_end tags then c else 0)"
    if "g \<in> set (tag_list tags)" for g
  proof -
    have "occurrences g (?b @ concat ws) = length (filter ((=) g) (scan_tags (tag_list tags) ?b @ ws))"
      using scan_repaired [OF ws, of ?b] cnt [OF that, of "?b @ concat ws"] i(2) by simp
    then show ?thesis using cnt [OF that, of ?b] by (simp add: n_def ws_def)
  qed
  have d: "distinct (tag_list tags)" unfolding i(2) by (rule tags_distinct)
  have "occurrences (param_start tags) (?b @ concat ws) = n (param_start tags)" "occurrences (param_end tags) (?b @ concat ws) = n (param_end tags) + p"
    "occurrences (invoke_start tags) (?b @ concat ws) = n (invoke_start tags)" "occurrences (invoke_end tags) (?b @ concat ws) = n (invoke_end tags) + k"
    "occurrences (tool_calls_start tags) (?b @ concat ws) = n (tool_calls_start tags)" "occurrences (tool_calls_end tags) (?b @ concat ws) = n (tool_calls_end tags) + c"
    using d by (simp_all only: sum mem) (auto simp: tag_list_def)
  then have "balanced tags (?b @ concat ws)" using le by (simp add: balanced_def p_def k_def c_def)
  moreover have "n (param_start tags) = n (param_end tags) + p" "n (invoke_start tags) = n (invoke_end tags) + k" "n (tool_calls_start tags) = n (tool_calls_end tags) + c"
    using le by (simp_all add: p_def k_def c_def)
  ultimately show ?thesis using i out pos scan_part_behind [of ?s] unfolding n_def ws_def closes_open_tags_def by blast
qed

theorem repaired_dsml_balanced_witness:
  "let s = ''<tool_calls></think><tool_calls><invoke name=a></invoke><invoke name=b><parameter name=x>1''
   in try_repair_dsml (Some s) = Some (s @ ''</parameter></invoke></tool_calls>'') \<and> closes_open_tags s (s @ ''</parameter></invoke></tool_calls>'')"
proof -
  let ?s = "''<tool_calls></think><tool_calls><invoke name=a></invoke><invoke name=b><parameter name=x>1''"
  have r: "try_repair_dsml (Some ?s) = Some (?s @ ''</parameter></invoke></tool_calls>'')" by code_simp
  have "of_ptr (Some ?s) = ?s" by code_simp
  then show ?thesis unfolding Let_def using r repaired_dsml_balanced [OF r] by simp
qed

section \<open>Rendered calls are read back\<close>

subsection \<open>Values\<close>

fun entity_free :: "string \<Rightarrow> bool" where
  "entity_free [] = True"
| "entity_free (c # s) = (list_all (\<lambda>e. \<not> prefix e (c # s)) [''&amp;'', ''&lt;'', ''&gt;'', ''&quot;'', ''&apos;''] \<and> entity_free s)"





subsection \<open>Tags\<close>











subsection \<open>Arguments\<close>

definition replayable_arg :: "json_arg \<Rightarrow> bool" where
  "replayable_arg a \<longleftrightarrow> arg_is_string a \<and> entity_free (arg_value a) \<and> \<not> suffix ''string='' (arg_key a)"

definition replayable :: "tool_call \<Rightarrow> bool" where
  "replayable tc \<longleftrightarrow> (case json_args_parse (tc_arguments tc) of None \<Rightarrow> False | Some args \<Rightarrow> list_all replayable_arg args)"








subsection \<open>The arguments object\<close>

lemma escape_nonempty [simp]: "json_escape s \<noteq> []"
  by (simp add: json_escape_def)



subsection \<open>Calls\<close>

















section \<open>Where the parsers lose text\<close>

text \<open>
  A GLM call cannot carry its own closing tag.  The renderer escapes only the closing tag of a value, and the parser
  takes the first \<^verbatim>\<open></tool_call>\<close> for the end of the call wherever it stands: a call whose argument is
  that text is rendered, and the parser rejects what was rendered.
\<close>

theorem glm_call_end_in_value_rejected:
  "let cs = tool_calls_free\<lparr>calls_v := [tool_call_zero\<lparr>tc_name := Some ''f'', tc_arguments := Some (''{'' @ dq @ ''k'' @ dq @ '':'' @ dq @ ''</tool_call>'' @ dq @ ''}'')\<rparr>]\<rparr>
   in list_all replayable (calls_v cs) \<and> pm_ok (parse_glm_generated_message_ex (Some (append_glm_tool_calls_text cs [])) False tool_calls_free) = False"
  by code_simp

text \<open>
  Unfinished reasoning can be returned as the answer.  When thinking was never closed the text is reasoning, and
  the parser of the DeepSeek template returns it as such; but a mention of a GLM tool call in it counts as
  a marker of a tool block, none of the DeepSeek markers is found behind it, and the whole reasoning is
  returned as the content of the answer.
\<close>

theorem unclosed_reasoning_returned_as_content:
  "let x = ''I might emit <tool_call>f</tool_call> here''
   in parse_deepseek_generated_message_ex (Some x) True tool_calls_free = parsed (Some x, None) tool_calls_free \<and>
      parse_glm_generated_message_ex (Some ''I might'') True tool_calls_free = parsed (Some [], Some ''I might'') tool_calls_free \<and>
      parse_deepseek_generated_message_ex (Some ''I might'') True tool_calls_free = parsed (Some [], Some ''I might'') tool_calls_free"
  by code_simp

end
