(* ===== verification/ToolReplay.thy ===== *)
theory ToolReplay
  imports ToolMap GeneratedProofs Scheduler
begin


text \<open>
  Replaying tool calls (\<^verbatim>\<open>server.c\<close>): the ids given to generated calls, remembering the sampled text under them,
  restoring texts from checkpoints, and attaching them to the messages of a later request, so that the
  next prompt repeats what the model sampled byte for byte.  Also the live states of a slot, which bind
  call ids to the frontier of its session.

  \<open>disabled\<close> is the server's \<^verbatim>\<open>disable_exact_dsml_tool_replay\<close>; the position of a session is an argument.
\<close>

section \<open>Live states of a slot\<close>

definition live_tool_state_clear_locked :: "live_tool_state \<Rightarrow> live_tool_state" where
  "live_tool_state_clear_locked st =
     st\<lparr>lt_call_ids := stop_list_clear (lt_call_ids st), lt_visible_text := None, lt_valid := False, lt_live_tokens := 0\<rparr>"

definition live_tool_state_free :: live_tool_state where
  "live_tool_state_free = \<lparr>lt_valid = False, lt_live_tokens = 0, lt_visible_text = None, lt_call_ids = id_list_free\<rparr>"

record visible_live_state =
  vl_valid :: bool
  vl_live_tokens :: int
  vl_visible_text :: "string option"

definition visible_live_clear_locked :: "visible_live_state \<Rightarrow> visible_live_state" where
  "visible_live_clear_locked st = st\<lparr>vl_visible_text := None, vl_live_tokens := 0, vl_valid := False\<rparr>"

definition thinking_live_remember :: "string option \<Rightarrow> int \<Rightarrow> visible_live_state \<Rightarrow> visible_live_state" where
  "thinking_live_remember visible pos st = (if of_ptr visible = [] then st
     else (visible_live_clear_locked st)\<lparr>vl_visible_text := Some (of_ptr visible), vl_live_tokens := pos, vl_valid := True\<rparr>)"

definition responses_live_remember :: "string option \<Rightarrow> tool_calls option \<Rightarrow> int \<Rightarrow> server_slot \<Rightarrow> server_slot" where
  "responses_live_remember visible cs pos sl = (if of_ptr visible = [] then sl
     else (let st = live_tool_state_clear_locked (responses_live sl) in
       sl\<lparr>responses_live := st\<lparr>lt_visible_text := Some (of_ptr visible), lt_live_tokens := pos, lt_valid := True,
         lt_call_ids := (case cs of None \<Rightarrow> lt_call_ids st | Some c \<Rightarrow> foldl id_list_push_unique (lt_call_ids st) (map tc_id (calls_v c)))\<rparr>\<rparr>))"

definition anthropic_live_remember :: "tool_calls option \<Rightarrow> int \<Rightarrow> server_slot \<Rightarrow> server_slot" where
  "anthropic_live_remember cs pos sl = (case cs of None \<Rightarrow> sl | Some c \<Rightarrow>
     if calls_v c = [] then sl
     else (let st = live_tool_state_clear_locked (anthropic_live sl); ids = foldl id_list_push_unique (lt_call_ids st) (map tc_id (calls_v c)) in
       sl\<lparr>anthropic_live := st\<lparr>lt_call_ids := ids, lt_live_tokens := pos, lt_valid := (stop_v ids \<noteq> [])\<rparr>\<rparr>))"

definition responses_live_clear :: "server_slot \<Rightarrow> server_slot" where
  "responses_live_clear sl = sl\<lparr>responses_live := live_tool_state_clear_locked (responses_live sl)\<rparr>"

definition anthropic_live_clear :: "server_slot \<Rightarrow> server_slot" where
  "anthropic_live_clear sl = sl\<lparr>anthropic_live := live_tool_state_clear_locked (anthropic_live sl)\<rparr>"

definition request_live_state_clear :: "server_slot \<times> visible_live_state \<Rightarrow> server_slot \<times> visible_live_state" where
  "request_live_state_clear x = (anthropic_live_clear (responses_live_clear (fst x)), visible_live_clear_locked (snd x))"

definition responses_live_has_call_id :: "server \<Rightarrow> string option \<Rightarrow> bool" where
  "responses_live_has_call_id s i \<longleftrightarrow> of_ptr i \<noteq> [] \<and>
     list_ex (\<lambda>sl. lt_valid (responses_live sl) \<and> id_list_contains (lt_call_ids (responses_live sl)) i) (slots s)"

definition anthropic_live_has_call_id :: "server \<Rightarrow> string option \<Rightarrow> bool" where
  "anthropic_live_has_call_id s i \<longleftrightarrow> of_ptr i \<noteq> [] \<and>
     list_ex (\<lambda>sl. lt_valid (anthropic_live sl) \<and> id_list_contains (lt_call_ids (anthropic_live sl)) i) (slots s)"

definition live_matches :: "live_tool_state \<Rightarrow> stop_list \<Rightarrow> int \<Rightarrow> bool" where
  "live_matches st ids live_tokens \<longleftrightarrow> stop_v ids \<noteq> [] \<and> lt_valid st \<and> lt_live_tokens st = live_tokens \<and>
     length (stop_v (lt_call_ids st)) = length (stop_v ids) \<and> list_all (\<lambda>i. id_list_contains (lt_call_ids st) (Some i)) (stop_v ids)"

definition responses_live_matches_request :: "server_slot \<Rightarrow> stop_list \<Rightarrow> int \<Rightarrow> bool" where
  "responses_live_matches_request sl = live_matches (responses_live sl)"

definition anthropic_live_matches_request :: "server_slot \<Rightarrow> stop_list \<Rightarrow> int \<Rightarrow> bool" where
  "anthropic_live_matches_request sl = live_matches (anthropic_live sl)"

section \<open>Remembering and attaching\<close>

definition tool_memory_has_id :: "bool \<Rightarrow> string option \<Rightarrow> tool_memory \<Rightarrow> bool" where
  "tool_memory_has_id disabled i m \<longleftrightarrow> \<not> disabled \<and> of_ptr i \<noteq> [] \<and> tool_memory_find_entry_locked m (of_ptr i) \<noteq> None"

fun put_calls :: "string option \<Rightarrow> tool_call list \<Rightarrow> tool_memory \<Rightarrow> tool_memory option" where
  "put_calls raw [] m = Some m"
| "put_calls raw (tc # tcs) m = do { m1 \<leftarrow> tool_memory_put_locked (tc_id tc) raw TOOL_MEMORY_RAM m; put_calls raw tcs m1 }"

definition tool_memory_remember :: "bool \<Rightarrow> tool_calls \<Rightarrow> tool_memory \<Rightarrow> tool_memory option" where
  "tool_memory_remember disabled cs m =
     (if disabled \<or> of_ptr (raw_tool_text cs) = [] then Some m else put_calls (raw_tool_text cs) (calls_v cs) m)"

record tool_replay_stats =
  st_mem :: int
  st_disk :: int
  st_canonical :: int
  st_missing_ids :: int

text \<open>The ids of one message: the block matched first and its source, whether all agree, and the ids not found.\<close>

type_synonym matching = "(addr option \<times> tool_memory_source) \<times> bool \<times> int"

fun match_calls :: "tool_call list \<Rightarrow> matching \<Rightarrow> tool_memory \<Rightarrow> (matching \<times> tool_memory) option" where
  "match_calls [] st m = Some (st, m)"
| "match_calls (tc # tcs) ((matched, src), exact, missing) m =
     (case tool_memory_lookup_locked (tc_id tc) m of None \<Rightarrow> None
      | Some (None, m1) \<Rightarrow> match_calls tcs ((matched, src), False, missing + 1) m1
      | Some (Some (d, source, block), m1) \<Rightarrow>
          (let exact1 = (exact \<and> (matched = None \<or> matched = Some block)); src1 = (if matched = None then source else src) in
           match_calls tcs ((if matched = None then Some block else matched, if source = TOOL_MEMORY_RAM then TOOL_MEMORY_RAM else src1), exact1, missing) m1))"

definition attach_message :: "chat_msg \<Rightarrow> tool_replay_stats \<times> tool_memory \<Rightarrow> (chat_msg \<times> tool_replay_stats \<times> tool_memory) option" where
  "attach_message msg x = (case x of (stats, m) \<Rightarrow>
     if calls_v (calls msg) = [] \<or> raw_tool_text (calls msg) \<noteq> None then Some (msg, stats, m)
     else (case match_calls (calls_v (calls msg)) ((None, TOOL_MEMORY_DISK), True, 0) m of None \<Rightarrow> None
       | Some (((matched, src), exact, missing), m1) \<Rightarrow>
           (if exact \<and> matched \<noteq> None
            then (case tm_block m1 (the matched) of None \<Rightarrow> None
              | Some k \<Rightarrow> Some (msg\<lparr>calls := (calls msg)\<lparr>raw_tool_text := Some (tb_dsml k)\<rparr>\<rparr>,
                  if src = TOOL_MEMORY_RAM then stats\<lparr>st_mem := st_mem stats + 1\<rparr> else stats\<lparr>st_disk := st_disk stats + 1\<rparr>, m1))
            else Some (msg, stats\<lparr>st_canonical := st_canonical stats + 1, st_missing_ids := st_missing_ids stats + missing\<rparr>, m1))))"

fun attach_messages :: "chat_msgs \<Rightarrow> tool_replay_stats \<times> tool_memory \<Rightarrow> (chat_msgs \<times> tool_replay_stats \<times> tool_memory) option" where
  "attach_messages [] x = Some ([], x)"
| "attach_messages (msg # msgs) x = (case attach_message msg x of None \<Rightarrow> None
     | Some (msg', x1) \<Rightarrow> (case attach_messages msgs x1 of None \<Rightarrow> None | Some (msgs', x2) \<Rightarrow> Some (msg' # msgs', x2)))"

definition count_canonical :: "tool_replay_stats \<Rightarrow> chat_msg \<Rightarrow> tool_replay_stats" where
  "count_canonical stats msg = (if calls_v (calls msg) = [] \<or> raw_tool_text (calls msg) \<noteq> None then stats
     else stats\<lparr>st_canonical := st_canonical stats + 1, st_missing_ids := st_missing_ids stats + int (length (calls_v (calls msg)))\<rparr>)"

definition tool_memory_attach_to_messages ::
  "bool \<Rightarrow> chat_msgs \<Rightarrow> tool_replay_stats \<Rightarrow> tool_memory \<Rightarrow> (chat_msgs \<times> tool_replay_stats \<times> tool_memory) option" where
  "tool_memory_attach_to_messages disabled msgs stats m =
     (if disabled then Some (msgs, foldl count_canonical stats msgs, m) else attach_messages msgs (stats, m))"

section \<open>Ids of generated calls\<close>

definition tool_calls_contains_id :: "tool_call list \<Rightarrow> string \<Rightarrow> nat \<Rightarrow> bool" where
  "tool_calls_contains_id tcs i n \<longleftrightarrow> i \<noteq> [] \<and> list_ex (\<lambda>tc. tc_id tc = Some i) (take n tcs)"

text \<open>The loop draws ids until one is free; the draws are a stream of random bytes.\<close>

partial_function (option) draw_id :: "(nat \<Rightarrow> bytes) \<Rightarrow> api_style \<Rightarrow> (string \<Rightarrow> bool) \<Rightarrow> nat \<Rightarrow> (string \<times> nat) option" where
  "draw_id draw api taken k = (let i = random_tool_id (draw k) 64 api in if \<not> taken i then Some (i, Suc k) else draw_id draw api taken (Suc k))"

declare draw_id.simps [code]

fun assign_from :: "(nat \<Rightarrow> bytes) \<Rightarrow> api_style \<Rightarrow> (string \<Rightarrow> bool) \<Rightarrow> tool_call list \<Rightarrow> tool_call list \<Rightarrow> nat \<Rightarrow> (tool_call list \<times> nat) option" where
  "assign_from draw api known before [] k = Some (before, k)"
| "assign_from draw api known before (tc # tcs) k =
     (if of_ptr (tc_id tc) \<noteq> [] then assign_from draw api known (before @ [tc]) tcs k
      else (case draw_id draw api (\<lambda>i. tool_calls_contains_id (before @ tc # tcs) i (length before) \<or> known i) k of None \<Rightarrow> None
        | Some (i, k') \<Rightarrow> assign_from draw api known (before @ [tc\<lparr>tc_id := Some i\<rparr>]) tcs k'))"

definition assign_tool_call_ids :: "bool \<Rightarrow> (nat \<Rightarrow> bytes) \<Rightarrow> tool_memory \<Rightarrow> tool_calls \<Rightarrow> api_style \<Rightarrow> nat \<Rightarrow> (tool_calls \<times> nat) option" where
  "assign_tool_call_ids disabled draw m cs api k =
     map_option (\<lambda>(tcs, k'). (cs\<lparr>calls_v := tcs\<rparr>, k')) (assign_from draw api (\<lambda>i. tool_memory_has_id disabled (Some i) m) [] (calls_v cs) k)"

text \<open>The ids a stream has already shown are taken over; the same code serves both protocols.\<close>

definition inherit_id :: "tool_call \<Rightarrow> string option \<Rightarrow> tool_call" where
  "inherit_id tc i = (if of_ptr (tc_id tc) \<noteq> [] then tc else if of_ptr i \<noteq> [] then tc\<lparr>tc_id := Some (of_ptr i)\<rparr> else tc)"

definition apply_openai_stream_tool_ids :: "string option list \<Rightarrow> tool_calls \<Rightarrow> tool_calls" where
  "apply_openai_stream_tool_ids ids cs = (let n = min (length (calls_v cs)) (length ids) in
     cs\<lparr>calls_v := map2 inherit_id (take n (calls_v cs)) (take n ids) @ drop n (calls_v cs)\<rparr>)"

definition apply_anthropic_stream_tool_ids :: "string option list \<Rightarrow> tool_calls \<Rightarrow> tool_calls" where
  "apply_anthropic_stream_tool_ids ids cs = (let n = min (length (calls_v cs)) (length ids) in
     cs\<lparr>calls_v := map2 inherit_id (take n (calls_v cs)) (take n ids) @ drop n (calls_v cs)\<rparr>)"

section \<open>Restoring from checkpoints\<close>

abbreviation EXT_TOOL_MAP :: u8 where "EXT_TOOL_MAP \<equiv> 1"

definition restore_file :: "bool \<Rightarrow> os \<Rightarrow> string \<Rightarrow> u8 \<Rightarrow> stop_list \<Rightarrow> string \<Rightarrow> tool_memory \<Rightarrow> tool_memory option" where
  "restore_file disabled s d model wanted name m = (case kv_store_sha_hex_name name of None \<Rightarrow> Some m
     | Some _ \<Rightarrow> (case os_fopen_read s (kv_store_path_join d name) of None \<Rightarrow> Some m
       | Some fp \<Rightarrow> (case kv_store_read_header fp of None \<Rightarrow> Some m
         | Some (e, tb, rest) \<Rightarrow> (let skip = ucast tb + payload_bytes e in
             if model_id e = model \<and> ext_flags e AND EXT_TOOL_MAP \<noteq> 0 \<and> skip \<le> 9223372036854775807
             then map_option snd (kv_tool_map_load_from_pos disabled (Some (drop (unat skip) rest)) (Some wanted) m)
             else Some m))))"

fun restore_files :: "bool \<Rightarrow> os \<Rightarrow> string \<Rightarrow> u8 \<Rightarrow> stop_list \<Rightarrow> string list \<Rightarrow> tool_memory \<Rightarrow> tool_memory option" where
  "restore_files disabled s d model wanted [] m = Some m"
| "restore_files disabled s d model wanted (name # names) m = do { m1 \<leftarrow> restore_file disabled s d model wanted name m; restore_files disabled s d model wanted names m1 }"

definition kv_cache_restore_tool_memory_for_messages :: "bool \<Rightarrow> kv_store \<Rightarrow> os \<Rightarrow> u8 \<Rightarrow> chat_msgs \<Rightarrow> tool_memory \<Rightarrow> tool_memory option" where
  "kv_cache_restore_tool_memory_for_messages disabled kc s model msgs m =
     (if disabled \<or> \<not> enabled kc then Some m
      else (let wanted = collect_tool_call_ids msgs id_list_free in
        if stop_v wanted = [] then Some m
        else if \<not> opendir_ok s (dir kc) then Some m
        else restore_files disabled s (dir kc) model wanted (os_readdir s (dir kc)) m))"

section \<open>What is attached\<close>

text \<open>What a memory knows: the text and the source under each id.\<close>

type_synonym known_texts = "string \<rightharpoonup> (string \<times> tool_memory_source)"

definition knows :: "int \<Rightarrow> u64 \<Rightarrow> tool_memory \<Rightarrow> known_texts \<Rightarrow> bool" where
  "knows N W m f \<longleftrightarrow> (\<exists>L. tm_rep N W m L \<and> map_of L = f)"

text \<open>The text all calls of a message were sampled with, if the memory knows one for every id and they agree.\<close>

definition text_of :: "known_texts \<Rightarrow> tool_call \<Rightarrow> string option" where
  "text_of f tc = map_option fst (f (of_ptr (tc_id tc)))"

definition common_text :: "known_texts \<Rightarrow> tool_call list \<Rightarrow> string option" where
  "common_text f tcs = (case tcs of [] \<Rightarrow> None | tc # _ \<Rightarrow> if list_all (\<lambda>tc'. text_of f tc' = text_of f tc) tcs then text_of f tc else None)"

definition attached :: "known_texts \<Rightarrow> chat_msg \<Rightarrow> chat_msg" where
  "attached f msg = (if raw_tool_text (calls msg) \<noteq> None then msg
     else (case common_text f (calls_v (calls msg)) of None \<Rightarrow> msg | Some d \<Rightarrow> msg\<lparr>calls := (calls msg)\<lparr>raw_tool_text := Some d\<rparr>\<rparr>))"

lemma common_text_Some: "common_text f tcs = Some d \<longleftrightarrow> tcs \<noteq> [] \<and> (\<forall>tc \<in> set tcs. text_of f tc = Some d)"
  by (cases tcs) (auto simp: common_text_def list_all_iff)

text \<open>A lookup only moves an entry to the front.\<close>

lemma recall_same: "map_of (snd (recall_text i L)) = map_of L"
proof (cases "map_of L i")
  case (Some x)
  have "map_of (filter (\<lambda>x. fst x \<noteq> i) L) j = (if j = i then None else map_of L j)" for j by (induction L) auto
  then show ?thesis using Some by (auto simp: recall_text_def fun_eq_iff)
qed (simp add: recall_text_def)

lemma lookup_knows:
  assumes "knows N W m f"
  shows "\<exists>r m'. tool_memory_lookup_locked i m = Some (r, m') \<and> knows N W m' f \<and> tm_block m' = tm_block m \<and>
    map_option (\<lambda>(d, s, b). (d, s)) r = f (of_ptr i) \<and> (\<forall>d s b. r = Some (d, s, b) \<longrightarrow> (\<exists>k. tm_block m b = Some k \<and> tb_dsml k = d))"
proof -
  obtain L where L: "tm_rep N W m L" "map_of L = f" using assms by (auto simp: knows_def)
  obtain m' r L' where l: "lookup_text i m = Some (r, m')" "spec_lookup i L = Some (r, L')" "tm_rep N W m' L'" using tool_mem.lookup_rep [OF L(1)] by blast
  obtain es where es: "tm_inv m es" "contents m es = L" using L(1) by (auto simp: tm_rep_def)
  from lookup_inv [OF es(1), of i] obtain q m2 es' where q: "tool_memory_lookup_locked i m = Some (q, m2)" "tm_inv m2 es'"
    "\<forall>d s b. q = Some (d, s, b) \<longrightarrow> tm_by_block m2 d = Some b" "tm_block m2 = tm_block m" by blast
  have m2: "m2 = m'" "r = map_option (\<lambda>(d, s, b). (d, s)) q" using l(1) q(1) by (auto simp: lookup_text_def)
  have "tm_by_block m2 d = Some b \<Longrightarrow> \<exists>k. tm_block m b = Some k \<and> tb_dsml k = d" for d b using q(2,4) unfolding tm_inv_def by metis
  moreover have "r = map_of L (of_ptr i)" "L' = snd (recall_text (of_ptr i) L)" using l(2) by (auto simp: spec_lookup_def recall_text_def)
  moreover have "knows N W m' f" using l(3) L(2) recall_same calculation(3) by (auto simp: knows_def)
  ultimately show ?thesis using q m2 L(2) by auto
qed

definition block_text :: "tool_memory \<Rightarrow> addr option \<Rightarrow> string option" where
  "block_text m b = (case b of None \<Rightarrow> None | Some a \<Rightarrow> map_option tb_dsml (tm_block m a))"

lemma same_block:
  assumes "knows N W m f" "tm_block m a = Some k" "tm_block m b = Some j" shows "a = b \<longleftrightarrow> tb_dsml k = tb_dsml j"
proof -
  obtain es where es: "tm_inv m es" using assms(1) by (auto simp: knows_def tm_rep_def)
  then have "tm_by_block m (tb_dsml k) = Some a" "tm_by_block m (tb_dsml j) = Some b" using assms(2,3) unfolding tm_inv_def by blast+
  then show ?thesis using assms(2,3) by auto
qed

lemma match_calls_spec:
  assumes "knows N W m f" "\<forall>b. mt = Some b \<longrightarrow> tm_block m b \<noteq> None"
  shows "\<exists>mt' src' ex' mis' m'. match_calls tcs ((mt, src), ex, mis) m = Some (((mt', src'), ex', mis'), m') \<and> knows N W m' f \<and>
    tm_block m' = tm_block m \<and> (\<forall>b. mt' = Some b \<longrightarrow> tm_block m b \<noteq> None) \<and>
    (\<forall>d. ex' \<and> block_text m mt' = Some d \<longleftrightarrow>
      ex \<and> (mt = None \<or> block_text m mt = Some d) \<and> (\<forall>tc \<in> set tcs. text_of f tc = Some d) \<and> (tcs \<noteq> [] \<or> mt \<noteq> None))"
  using assms
proof (induction tcs arbitrary: mt src ex mis m)
  case Nil
  then show ?case by (cases mt) (auto simp: block_text_def)
next
  case (Cons tc tcs)
  obtain r m1 where l: "tool_memory_lookup_locked (tc_id tc) m = Some (r, m1)" "knows N W m1 f" "tm_block m1 = tm_block m"
    "map_option (\<lambda>(d, s, b). (d, s)) r = f (of_ptr (tc_id tc))" "\<forall>d s b. r = Some (d, s, b) \<longrightarrow> (\<exists>k. tm_block m b = Some k \<and> tb_dsml k = d)"
    using lookup_knows [OF Cons.prems(1)] by blast
  have bt: "block_text m1 b = block_text m b" for b unfolding block_text_def l(3) by (rule refl)
  show ?case
  proof (cases r)
    case None
    have "text_of f tc = None" using l(4) None by (simp add: text_of_def)
    then show ?thesis using Cons.IH [OF l(2), of mt src False "mis + 1"] Cons.prems(2) l(1,3) None bt by auto
  next
    case (Some x)
    obtain d s b where x: "x = (d, s, b)" by (cases x)
    obtain k where k: "tm_block m b = Some k" "tb_dsml k = d" using l(5) Some x by blast
    have t: "text_of f tc = Some d" using l(4) [symmetric] Some x by (simp add: text_of_def)
    let ?mt = "if mt = None then Some b else mt" and ?ex = "ex \<and> (mt = None \<or> mt = Some b)"
      and ?src = "if s = TOOL_MEMORY_RAM then TOOL_MEMORY_RAM else if mt = None then s else src"
    have e: "mt = Some b \<longleftrightarrow> block_text m mt = Some d" if "mt \<noteq> None"
      using that Cons.prems(2) k same_block [OF Cons.prems(1), of _ _ b k] by (auto simp: block_text_def)
    have b: "block_text m (Some b) = Some d" using k by (simp add: block_text_def)
    have "\<forall>a. ?mt = Some a \<longrightarrow> tm_block m1 a \<noteq> None" using Cons.prems(2) k l(3) by (auto split: if_splits)
    from Cons.IH [OF l(2) this, where src = ?src and ex = ?ex and mis = mis] obtain mt' src' ex' mis' m' where r:
      "match_calls tcs ((?mt, ?src), ?ex, mis) m1 = Some (((mt', src'), ex', mis'), m')" "knows N W m' f" "tm_block m' = tm_block m1"
      "\<forall>b. mt' = Some b \<longrightarrow> tm_block m1 b \<noteq> None"
      "\<forall>d. ex' \<and> block_text m1 mt' = Some d \<longleftrightarrow> ?ex \<and> (?mt = None \<or> block_text m1 ?mt = Some d) \<and> (\<forall>tc \<in> set tcs. text_of f tc = Some d) \<and> (tcs \<noteq> [] \<or> ?mt \<noteq> None)"
      by (elim exE conjE) (rule that)
    have "match_calls (tc # tcs) ((mt, src), ex, mis) m = Some (((mt', src'), ex', mis'), m')" using r(1) l(1) Some x by (simp add: Let_def)
    moreover have "(?ex \<and> (?mt = None \<or> block_text m ?mt = Some z) \<and> (\<forall>tc \<in> set tcs. text_of f tc = Some z) \<and> (tcs \<noteq> [] \<or> ?mt \<noteq> None)) \<longleftrightarrow>
        (ex \<and> (mt = None \<or> block_text m mt = Some z) \<and> (\<forall>tc \<in> set (tc # tcs). text_of f tc = Some z))" for z
      using b t e by (cases mt) auto
    ultimately show ?thesis using r(2-5) unfolding bt l(3) by auto
  qed
qed

lemma attach_message_spec:
  assumes "knows N W m f"
  shows "\<exists>stats' m'. attach_message msg (stats, m) = Some (attached f msg, stats', m') \<and> knows N W m' f"
proof (cases "calls_v (calls msg) = [] \<or> raw_tool_text (calls msg) \<noteq> None")
  case True
  then have "attached f msg = msg" by (auto simp: attached_def common_text_def)
  then show ?thesis using True assms by (auto simp: attach_message_def)
next
  case False
  let ?tcs = "calls_v (calls msg)"
  obtain mt src ex mis m1 where r: "match_calls ?tcs ((None, TOOL_MEMORY_DISK), True, 0) m = Some (((mt, src), ex, mis), m1)" "knows N W m1 f"
      "tm_block m1 = tm_block m" "\<forall>b. mt = Some b \<longrightarrow> tm_block m b \<noteq> None"
      "\<forall>d. ex \<and> block_text m mt = Some d \<longleftrightarrow> (\<forall>tc \<in> set ?tcs. text_of f tc = Some d)"
    using match_calls_spec [OF assms, of None ?tcs TOOL_MEMORY_DISK True 0] False by auto
  have ct: "common_text f ?tcs = Some d \<longleftrightarrow> ex \<and> block_text m mt = Some d" for d using r(5) False by (simp add: common_text_Some)
  show ?thesis
  proof (cases "ex \<and> mt \<noteq> None")
    case True
    then obtain b k where b: "mt = Some b" "tm_block m b = Some k" using r(4) by auto
    then have "common_text f ?tcs = Some (tb_dsml k)" using ct True by (simp add: block_text_def)
    then have "\<exists>st. attach_message msg (stats, m) = Some (attached f msg, st, m1)"
      using True b r(1,3) False by (simp add: attach_message_def attached_def)
    then show ?thesis using r(2) by blast
  next
    case no: False
    have "common_text f ?tcs \<noteq> Some d" for d
    proof
      assume "common_text f ?tcs = Some d"
      then have "ex" "block_text m mt = Some d" using ct by blast+
      then show False using no by (cases mt) (simp_all add: block_text_def)
    qed
    then have "common_text f ?tcs = None" by (metis not_Some_eq)
    then have "\<exists>st. attach_message msg (stats, m) = Some (attached f msg, st, m1)"
      using no r(1) False by (cases ex; cases mt) (simp_all add: attach_message_def attached_def)
    then show ?thesis using r(2) by blast
  qed
qed

lemma attach_messages_spec:
  "knows N W m f \<Longrightarrow> \<exists>stats' m'. attach_messages msgs (stats, m) = Some (map (attached f) msgs, stats', m') \<and> knows N W m' f"
proof (induction msgs arbitrary: stats m)
  case (Cons msg msgs)
  obtain st1 m1 where a: "attach_message msg (stats, m) = Some (attached f msg, st1, m1)" "knows N W m1 f"
    using attach_message_spec [OF Cons.prems] by blast
  then show ?case using Cons.IH [OF a(2), of st1] by auto
qed auto

section \<open>Remembered texts survive\<close>

lemma lru_prune_keeps:
  "int (length A) \<le> N \<Longrightarrow> texts_size A \<le> W \<Longrightarrow> \<exists>B'. lru_prune N W (A @ B) = A @ B'"
proof (induction B rule: rev_induct)
  case Nil
  then show ?case by (simp add: lru_prune.simps [of N W A])
next
  case (snoc x B)
  then show ?case by (simp add: lru_prune.simps [of N W "A @ B @ [x]"] butlast_append)
qed

lemma sum_set_le: "(\<Sum>x\<in>set xs. f x) \<le> sum_list (map f xs)" for f :: "'a \<Rightarrow> nat"
proof (induction xs)
  case (Cons x xs)
  then show ?case by (cases "x \<in> set xs") (auto simp: insert_absorb)
qed simp

definition calls_size :: "string \<Rightarrow> tool_call list \<Rightarrow> nat" where
  "calls_size d tcs = sum_list (map (\<lambda>tc. length (of_ptr (tc_id tc)) + 65) tcs) + length d + 49"

definition call_texts :: "string \<Rightarrow> tool_call list \<Rightarrow> tool_text list \<Rightarrow> bool" where
  "call_texts d tcs A \<longleftrightarrow> distinct (map fst A) \<and> fst ` set A = (of_ptr \<circ> tc_id) ` set tcs \<and> (\<forall>x \<in> set A. fst (snd x) = d)"

lemma call_texts_fit:
  assumes "call_texts d tcs A" shows "texts_size A \<le> calls_size d tcs" "length A \<le> length tcs"
proof -
  have "(\<Sum>i\<in>(of_ptr \<circ> tc_id) ` set tcs. length i + 65) \<le> sum_list (map (\<lambda>i. length i + 65) (map (of_ptr \<circ> tc_id) tcs))"
    using sum_set_le [of "\<lambda>i. length i + 65" "map (of_ptr \<circ> tc_id) tcs"] by simp
  moreover have "(fst \<circ> snd) ` set A \<subseteq> {d}" using assms by (auto simp: call_texts_def)
  then have "(\<Sum>d\<in>(fst \<circ> snd) ` set A. length d + 49) \<le> length d + 49" using sum_mono2 [of "{d}" "(fst \<circ> snd) ` set A" "\<lambda>d. length d + 49"] by simp
  ultimately show "texts_size A \<le> calls_size d tcs" using assms by (simp add: texts_size_sum call_texts_def calls_size_def comp_def)
  have "card (fst ` set A) \<le> length tcs" using assms card_image_le [of "set tcs" "of_ptr \<circ> tc_id"] card_length [of tcs] by (simp add: call_texts_def)
  then show "length A \<le> length tcs" using distinct_card [of "map fst A"] assms by (simp add: call_texts_def)
qed

lemma calls_size_append: "calls_size d (us @ vs) = calls_size d us + sum_list (map (\<lambda>tc. length (of_ptr (tc_id tc)) + 65) vs)"
  by (simp add: calls_size_def)

lemma put_calls_rep:
  assumes "tm_rep N W m (A @ B)" "call_texts (of_ptr raw) us A" "of_ptr raw \<noteq> []" "\<And>tc. tc \<in> set vs \<Longrightarrow> of_ptr (tc_id tc) \<noteq> []"
    "int (length (us @ vs)) \<le> N" "calls_size (of_ptr raw) (us @ vs) \<le> unat W" "unat W < 2 ^ 63"
  shows "\<exists>m' A' B'. put_calls raw vs m = Some m' \<and> tm_rep N W m' (A' @ B') \<and> call_texts (of_ptr raw) (us @ vs) A'"
  using assms
proof (induction vs arbitrary: us m A B)
  case (Cons tc vs)
  let ?d = "of_ptr raw" and ?i = "of_ptr (tc_id tc)"
  have ne: "?i \<noteq> []" using Cons.prems(4) by simp
  have "text_fits W (tc_id tc) raw" using Cons.prems(6,7) by (simp add: text_fits_def calls_size_def)
  from tool_mem.put_rep [OF Cons.prems(1) this, of TOOL_MEMORY_RAM] obtain m1 L1 where p: "tool_memory_put_locked (tc_id tc) raw TOOL_MEMORY_RAM m = Some m1"
    "spec_put N (unat W) (tc_id tc) raw TOOL_MEMORY_RAM (A @ B) = Some L1" "tm_rep N W m1 L1" by blast
  let ?A = "(?i, ?d, TOOL_MEMORY_RAM) # filter (\<lambda>x. fst x \<noteq> ?i) A" and ?B = "filter (\<lambda>x. fst x \<noteq> ?i) B"
  have r: "remember_text ?i ?d TOOL_MEMORY_RAM (A @ B) = ?A @ ?B" by (auto simp: remember_text_def split: option.split)
  have c: "call_texts ?d (us @ [tc]) ?A"
    using Cons.prems(2) by (force simp: call_texts_def distinct_map_filter)
  have "int (length ?A) \<le> N" "texts_size ?A \<le> unat W"
    using call_texts_fit [OF c] Cons.prems(5,6) calls_size_append [of ?d "us @ [tc]" vs] by simp_all
  then obtain B' where "L1 = ?A @ B'" using lru_prune_keeps [of ?A N "unat W" ?B] p(2) ne Cons.prems(3) r by (auto simp: spec_put_def)
  then have rep: "tm_rep N W m1 (?A @ B')" using p(3) by simp
  have "\<exists>m' A' B'. put_calls raw vs m1 = Some m' \<and> tm_rep N W m' (A' @ B') \<and> call_texts ?d ((us @ [tc]) @ vs) A'"
    by (rule Cons.IH [OF rep c]) (use Cons.prems in simp_all)
  then show ?case using p(1) by simp
qed auto

text \<open>
  Exactly the sampled text is attached.  A message of a request whose calls are all known to the memory with the
  same text gets that text, and no other message is changed: not one with an id the memory does not
  know, nor one whose ids belong to different texts, nor one that has its text already.  Attaching never
  fails, and what the memory knows stays as it was.
\<close>

theorem attached_texts_exact:
  assumes "tm_rep N W m L"
  shows "\<exists>stats' m' L'. tool_memory_attach_to_messages False msgs stats m = Some (map (attached (map_of L)) msgs, stats', m') \<and>
    tm_rep N W m' L' \<and> map_of L' = map_of L"
proof -
  have "knows N W m (map_of L)" using assms by (auto simp: knows_def)
  from attach_messages_spec [OF this] show ?thesis by (auto simp: tool_memory_attach_to_messages_def knows_def)
qed

lemma known_call_text:
  assumes "call_texts d tcs A" "i \<in> (of_ptr \<circ> tc_id) ` set tcs" shows "map_option fst (map_of (A @ B) i) = Some d"
proof -
  have "i \<in> fst ` set A" using assms by (simp add: call_texts_def)
  then have "map_of A i \<noteq> None" by (simp add: map_of_eq_None_iff)
  then obtain y where y: "map_of A i = Some y" by blast
  then have "fst y = d" using map_of_SomeD [OF y] assms(1) by (auto simp: call_texts_def)
  then show ?thesis using y by simp
qed

text \<open>
  C3.  What the model sampled is what the next prompt contains.  Once the calls of a turn have been remembered with the
  text they were sampled in, a later request that mentions only ids of these calls in a message gets that
  text attached to the message, whatever else the memory held before: the texts of the last turn are
  the last to be evicted.
\<close>

theorem sampled_text_replayed:
  assumes "tm_rep N W m L" "of_ptr (raw_tool_text cs) \<noteq> []" "\<And>tc. tc \<in> set (calls_v cs) \<Longrightarrow> of_ptr (tc_id tc) \<noteq> []"
    "int (length (calls_v cs)) \<le> N" "calls_size (of_ptr (raw_tool_text cs)) (calls_v cs) \<le> unat W" "unat W < 2 ^ 63"
    "n < length msgs" "raw_tool_text (calls (msgs ! n)) = None" "calls_v (calls (msgs ! n)) \<noteq> []"
    "(of_ptr \<circ> tc_id) ` set (calls_v (calls (msgs ! n))) \<subseteq> (of_ptr \<circ> tc_id) ` set (calls_v cs)"
  shows "\<exists>m1 msgs' stats' m2. tool_memory_remember False cs m = Some m1 \<and> tool_memory_attach_to_messages False msgs stats m1 = Some (msgs', stats', m2) \<and>
    raw_tool_text (calls (msgs' ! n)) = Some (of_ptr (raw_tool_text cs))"
proof -
  let ?d = "of_ptr (raw_tool_text cs)" and ?tcs = "calls_v (calls (msgs ! n))"
  have "\<exists>m1 A B. put_calls (raw_tool_text cs) (calls_v cs) m = Some m1 \<and> tm_rep N W m1 (A @ B) \<and> call_texts ?d ([] @ calls_v cs) A"
  proof (rule put_calls_rep)
    show "tm_rep N W m ([] @ L)" using assms(1) by simp
    show "call_texts ?d [] []" by (simp add: call_texts_def)
  qed (simp_all only: assms append_Nil not_False_eq_True)
  then obtain m1 A B where p: "put_calls (raw_tool_text cs) (calls_v cs) m = Some m1" "tm_rep N W m1 (A @ B)" "call_texts ?d (calls_v cs) A" by auto
  have k: "knows N W m1 (map_of (A @ B))" using p(2) by (auto simp: knows_def)
  from attach_messages_spec [OF k, of msgs stats] obtain stats' m2 where a: "attach_messages msgs (stats, m1) = Some (map (attached (map_of (A @ B))) msgs, stats', m2)" by blast
  have "\<forall>tc \<in> set ?tcs. text_of (map_of (A @ B)) tc = Some ?d"
  proof
    fix tc assume "tc \<in> set ?tcs"
    then have "of_ptr (tc_id tc) \<in> (of_ptr \<circ> tc_id) ` set ?tcs" by simp
    then show "text_of (map_of (A @ B)) tc = Some ?d" unfolding text_of_def by (intro known_call_text [OF p(3)] subsetD [OF assms(10)])
  qed
  then have "common_text (map_of (A @ B)) ?tcs = Some ?d" using assms(9) by (simp add: common_text_Some)
  then have "raw_tool_text (calls (attached (map_of (A @ B)) (msgs ! n))) = Some ?d" using assms(8) by (simp add: attached_def)
  then show ?thesis using p(1) a assms(2,7) by (auto simp: tool_memory_remember_def tool_memory_attach_to_messages_def)
qed

section \<open>Assigned ids\<close>

lemma hex_low_NUL: "d < 16 \<Longrightarrow> hex_low d \<noteq> NUL"
  using json_hex_low [of d] by (auto simp: json_hex_def)

lemma put_hex_NUL: "NUL \<notin> set (put_hex n pos b)"
proof (induction n pos b rule: put_hex.induct)
  case (2 n pos b bs)
  show ?case using 2 hex_low_NUL [OF nibble_bounds(1), of b] hex_low_NUL [OF nibble_bounds(2), of b] by auto
qed simp

lemma random_id_NUL: "NUL \<notin> set (random_tool_id b 64 api)"
  using put_hex_NUL by (simp add: random_tool_id_def)

lemma draw_id_found:
  "k \<le> n \<Longrightarrow> \<not> taken (random_tool_id (draw n) 64 api) \<Longrightarrow>
     \<exists>j \<le> n. k \<le> j \<and> draw_id draw api taken k = Some (random_tool_id (draw j) 64 api, Suc j) \<and> \<not> taken (random_tool_id (draw j) 64 api)"
proof (induction "n - k" arbitrary: k)
  case 0
  then show ?case by (subst draw_id.simps) auto
next
  case (Suc d)
  have "\<exists>j \<le> n. Suc k \<le> j \<and> draw_id draw api taken (Suc k) = Some (random_tool_id (draw j) 64 api, Suc j) \<and> \<not> taken (random_tool_id (draw j) 64 api)"
    by (rule Suc.hyps(1)) (use Suc.hyps(2) Suc.prems in simp_all)
  moreover have "draw_id draw api taken k = (if \<not> taken (random_tool_id (draw k) 64 api) then Some (random_tool_id (draw k) 64 api, Suc k) else draw_id draw api taken (Suc k))"
    by (subst draw_id.simps) (simp add: Let_def)
  ultimately show ?case using Suc.prems(1) by (cases "taken (random_tool_id (draw k) 64 api)") auto
qed

text \<open>
  What is asked of the random source: it does not get stuck among few ids.  After any number of draws, and for
  every set of \<open>c\<close> ids, an id outside the set comes up again; draws may repeat.
\<close>

definition never_stuck :: "(nat \<Rightarrow> string) \<Rightarrow> nat \<Rightarrow> bool" where
  "never_stuck f c \<longleftrightarrow> (\<forall>F k. finite F \<longrightarrow> card F \<le> c \<longrightarrow> (\<exists>j \<ge> k. f j \<notin> F))"

lemma draw_id_free:
  assumes "never_stuck (\<lambda>j. random_tool_id (draw j) 64 api) c" "finite T" "{i. NUL \<notin> set i \<and> taken i} \<subseteq> T" "card T \<le> c"
  shows "\<exists>i k' j. draw_id draw api taken k = Some (i, k') \<and> \<not> taken i \<and> i = random_tool_id (draw j) 64 api"
proof -
  obtain n where "k \<le> n" "random_tool_id (draw n) 64 api \<notin> T" using assms(1,2,4) by (auto simp: never_stuck_def)
  moreover from this have "\<not> taken (random_tool_id (draw n) 64 api)" using assms(3) random_id_NUL by blast
  ultimately show ?thesis using draw_id_found [of k n taken draw api] by blast
qed

lemma random_id_nonempty: "of_ptr (Some (random_tool_id b 64 api)) \<noteq> []"
  by (simp add: random_tool_id_def or_default_def)

text \<open>What becomes of the call at each position, given the calls in front of it.\<close>

definition id_assigned :: "(string \<Rightarrow> bool) \<Rightarrow> tool_call list \<Rightarrow> tool_call \<Rightarrow> tool_call \<Rightarrow> bool" where
  "id_assigned known earlier tc tc' \<longleftrightarrow> (if of_ptr (tc_id tc) \<noteq> [] then tc' = tc
     else \<exists>i. tc' = tc\<lparr>tc_id := Some i\<rparr> \<and> i \<noteq> [] \<and> NUL \<notin> set i \<and> \<not> known i \<and> Some i \<notin> tc_id ` set earlier)"

lemma assign_from_spec:
  assumes "finite K" "{i. NUL \<notin> set i \<and> known i} \<subseteq> K" "never_stuck (\<lambda>j. random_tool_id (draw j) 64 api) c"
    "card K + length us + length tcs \<le> c"
  shows "\<exists>vs k'. assign_from draw api known us tcs k = Some (us @ vs, k') \<and> length vs = length tcs \<and>
    (\<forall>j < length tcs. id_assigned known (us @ take j vs) (tcs ! j) (vs ! j))"
  using assms(4)
proof (induction tcs arbitrary: us k)
  case (Cons tc tcs)
  have step: ?case if a: "assign_from draw api known us (tc # tcs) k = assign_from draw api known (us @ [tc']) tcs k1" and t: "id_assigned known us tc tc'" for tc' k1
  proof -
    obtain vs k' where v: "assign_from draw api known (us @ [tc']) tcs k1 = Some ((us @ [tc']) @ vs, k')" "length vs = length tcs"
      "\<forall>j < length tcs. id_assigned known ((us @ [tc']) @ take j vs) (tcs ! j) (vs ! j)"
      using Cons.IH [of "us @ [tc']" k1] Cons.prems by auto
    have "id_assigned known (us @ take j (tc' # vs)) ((tc # tcs) ! j) ((tc' # vs) ! j)" if "j < length (tc # tcs)" for j
      using that t v(3) by (cases j) auto
    then show ?thesis using a v(1,2) by (intro exI [of _ "tc' # vs"] exI [of _ k']) simp
  qed
  show ?case
  proof (cases "of_ptr (tc_id tc) = []")
    case False
    then show ?thesis using step [of tc k] by (simp add: id_assigned_def)
  next
    case True
    let ?t = "\<lambda>i. tool_calls_contains_id (us @ tc # tcs) i (length us) \<or> known i" and ?T = "set (map (the \<circ> tc_id) us) \<union> K"
    have "{i. tool_calls_contains_id (us @ tc # tcs) i (length us)} \<subseteq> set (map (the \<circ> tc_id) us)"
      by (force simp: tool_calls_contains_id_def list_ex_iff)
    then have T: "{i. NUL \<notin> set i \<and> ?t i} \<subseteq> ?T" using assms(2) by auto
    have "card ?T \<le> c"
      using card_Un_le [of "set (map (the \<circ> tc_id) us)" K] card_length [of "map (the \<circ> tc_id) us"] Cons.prems by simp
    from draw_id_free [OF assms(3) _ T this] assms(1)
    obtain i k1 j where d: "draw_id draw api ?t k = Some (i, k1)" "\<not> ?t i" "i = random_tool_id (draw j) 64 api" by blast
    have ne: "i \<noteq> []" using d(3) random_id_nonempty [of "draw j" api] by (auto simp: or_default_def)
    then have "Some i \<notin> tc_id ` set us" using d(2) by (auto simp: tool_calls_contains_id_def list_ex_iff)
    then have "id_assigned known us tc (tc\<lparr>tc_id := Some i\<rparr>)" using True ne d(2,3) random_id_NUL by (auto simp: id_assigned_def)
    then show ?thesis using step [of "tc\<lparr>tc_id := Some i\<rparr>" k1] d(1) True by simp
  qed
qed simp

text \<open>
  C33.  Generated calls get usable ids.  As long as the random source does not get stuck among as many ids as are
  in use, the loop that draws ids ends for every call, also when draws repeat.  Then every call that had
  an id is unchanged, and every other call is unchanged but for an id that is not empty, is not one of
  those the memory holds, and differs from the ids of all calls in front of it.
\<close>

theorem assigned_ids_fresh:
  assumes "tm_rep N W m L" "never_stuck (\<lambda>j. random_tool_id (draw j) 64 api) (length L + length (calls_v cs))"
  shows "\<exists>cs' k'. assign_tool_call_ids False draw m cs api k = Some (cs', k') \<and> raw_tool_text cs' = raw_tool_text cs \<and>
    length (calls_v cs') = length (calls_v cs) \<and>
    (\<forall>j < length (calls_v cs). id_assigned (\<lambda>i. i \<in> set (map fst L)) (take j (calls_v cs')) (calls_v cs ! j) (calls_v cs' ! j))"
proof -
  let ?known = "\<lambda>i. tool_memory_has_id False (Some i) m"
  obtain es where es: "tm_inv m es" "contents m es = L" using assms(1) by (auto simp: tm_rep_def)
  have by_id: "tm_by_id m i \<noteq> None \<longleftrightarrow> i \<in> set (map fst L)" for i unfolding find_entry_inv(1) [OF es(1)] map_of_eq_None_iff es(2) by simp
  have known: "?known i \<longleftrightarrow> i \<in> set (map fst L)" if "NUL \<notin> set i" "i \<noteq> []" for i
    using by_id [of i] that by (simp add: tool_memory_has_id_def tool_memory_find_entry_locked_def or_default_def cstr_id)
  have K: "{i. NUL \<notin> set i \<and> ?known i} \<subseteq> set (map fst L)"
  proof
    fix i assume "i \<in> {i. NUL \<notin> set i \<and> ?known i}"
    then have "tm_by_id m i \<noteq> None" by (auto simp: tool_memory_has_id_def tool_memory_find_entry_locked_def or_default_def cstr_id split: if_splits)
    then show "i \<in> set (map fst L)" using by_id by blast
  qed
  have "card (set (map fst L)) + length [] + length (calls_v cs) \<le> length L + length (calls_v cs)" using card_length [of "map fst L"] by simp
  from assign_from_spec [OF _ K assms(2) this, of k]
  obtain vs k' where v: "assign_from draw api ?known [] (calls_v cs) k = Some (vs, k')" "length vs = length (calls_v cs)"
    "\<forall>j < length (calls_v cs). id_assigned ?known (take j vs) (calls_v cs ! j) (vs ! j)" by auto
  have "id_assigned (\<lambda>i. i \<in> set (map fst L)) us tc tc'" if "id_assigned ?known us tc tc'" for us tc tc'
  proof (cases "of_ptr (tc_id tc) = []")
    case True
    with that obtain i where i: "tc' = tc\<lparr>tc_id := Some i\<rparr>" "i \<noteq> []" "NUL \<notin> set i" "\<not> ?known i" "Some i \<notin> tc_id ` set us" by (auto simp: id_assigned_def)
    with True known [OF i(3,2)] show ?thesis unfolding id_assigned_def by auto
  qed (use that in \<open>simp add: id_assigned_def\<close>)
  then show ?thesis using v by (auto simp: assign_tool_call_ids_def)
qed

section \<open>A turn and the next request\<close>

text \<open>One call sampled in a block, and a request that refers to it next to one that is not known.\<close>

definition sample_turn :: tool_calls where
  "sample_turn = \<lparr>calls_v = [tool_call_zero\<lparr>tc_id := Some ''call_1''\<rparr>], raw_tool_text = Some sample_block\<rparr>"

definition sample_request :: chat_msgs where
  "sample_request = [chat_msg_zero\<lparr>calls := sample_turn\<lparr>raw_tool_text := None\<rparr>\<rparr>,
     chat_msg_zero\<lparr>calls := \<lparr>calls_v = [tool_call_zero\<lparr>tc_id := Some ''call_2''\<rparr>], raw_tool_text = None\<rparr>\<rparr>]"

definition no_stats :: tool_replay_stats where
  "no_stats = \<lparr>st_mem = 0, st_disk = 0, st_canonical = 0, st_missing_ids = 0\<rparr>"

lemma replay_limits: "tool_memory_max_entries (empty_memory 2 600) = 2" "tool_memory_max_bytes (empty_memory 2 600) = 600"
  by (simp_all add: tool_memory_max_entries_def tool_memory_max_bytes_def empty_memory_def)

lemmas replay_empty = empty_memory_rep [of 2 600, unfolded replay_limits]

theorem attached_texts_exact_witness:
  "\<exists>stats' m'. tool_memory_attach_to_messages False sample_request no_stats (empty_memory 2 600) = Some (sample_request, stats', m')"
proof -
  have "map (attached (map_of [])) sample_request = sample_request" by code_simp
  then show ?thesis using attached_texts_exact [OF replay_empty, of sample_request no_stats] by auto
qed

theorem sampled_text_replayed_witness:
  "\<exists>m1 msgs' stats' m2. tool_memory_remember False sample_turn (empty_memory 2 600) = Some m1 \<and>
    tool_memory_attach_to_messages False sample_request no_stats m1 = Some (msgs', stats', m2) \<and> raw_tool_text (calls (msgs' ! 0)) = Some sample_block"
proof -
  have h: "of_ptr (raw_tool_text sample_turn) = sample_block" "of_ptr (raw_tool_text sample_turn) \<noteq> []"
    "0 < length sample_request" "raw_tool_text (calls (sample_request ! 0)) = None" "calls_v (calls (sample_request ! 0)) \<noteq> []" by code_simp+
  have b: "int (length (calls_v sample_turn)) \<le> 2" "unat (600 :: u64) < 2 ^ 63" by (simp_all add: sample_turn_def)
  have z: "calls_size (of_ptr (raw_tool_text sample_turn)) (calls_v sample_turn) \<le> unat (600 :: u64)"
    unfolding h(1) by (simp add: calls_size_def sample_turn_def sample_block_def or_default_def)
  have i: "of_ptr (tc_id tc) \<noteq> []" if "tc \<in> set (calls_v sample_turn)" for tc
    using that by (auto simp: sample_turn_def or_default_def)
  have s: "(of_ptr \<circ> tc_id) ` set (calls_v (calls (sample_request ! 0))) \<subseteq> (of_ptr \<circ> tc_id) ` set (calls_v sample_turn)"
    by (simp add: sample_request_def)
  show ?thesis using sampled_text_replayed [OF replay_empty h(2) i b(1) z b(2) h(3-5) s] unfolding h(1) by blast
qed

text \<open>Every draw comes twice, and four of them come round for ever.\<close>

definition sample_draw :: "nat \<Rightarrow> bytes" where
  "sample_draw k = replicate 16 (word_of_nat (k div 2 mod 4))"

lemma sample_draw_never_stuck: "never_stuck (\<lambda>j. random_tool_id (sample_draw j) 64 API_OPENAI) 3"
  unfolding never_stuck_def
proof (intro allI impI)
  fix F :: "string set" and k assume F: "finite F" "card F \<le> 3"
  let ?f = "\<lambda>j. random_tool_id (sample_draw j) 64 API_OPENAI" and ?J = "{0, 2, 4, 6 :: nat}"
  have "distinct (map ?f [0, 2, 4, 6])" by code_simp
  then have "inj_on ?f ?J" by (simp only: distinct_map) simp
  then have c: "card (?f ` ?J) = 4" by (subst card_image) simp_all
  have "\<not> ?f ` ?J \<subseteq> F"
  proof
    assume "?f ` ?J \<subseteq> F"
    from card_mono [OF F(1) this] c F(2) show False by linarith
  qed
  then obtain j where j: "j \<in> ?J" "?f j \<notin> F" by blast
  have "(j + 8 * k) div 2 mod 4 = j div 2 mod 4" by presburger
  then have "?f (j + 8 * k) = ?f j" by (simp add: sample_draw_def)
  then show "\<exists>j \<ge> k. ?f j \<notin> F" using j(2) by (intro exI [of _ "j + 8 * k"]) simp
qed

definition sample_new :: tool_calls where
  "sample_new = \<lparr>calls_v = [tool_call_zero\<lparr>tc_name := Some ''f''\<rparr>, tool_call_zero\<lparr>tc_name := Some ''g''\<rparr>, tool_call_zero\<lparr>tc_id := Some ''mine''\<rparr>], raw_tool_text = None\<rparr>"

theorem assigned_ids_fresh_witness:
  "\<exists>cs' k'. assign_tool_call_ids False sample_draw (empty_memory 2 600) sample_new API_OPENAI 0 = Some (cs', k') \<and> tc_id (calls_v cs' ! 0) \<noteq> tc_id (calls_v cs' ! 1) \<and>
    tc_id (calls_v cs' ! 2) = Some ''mine'' \<and> sample_draw 0 = sample_draw 1"
proof -
  have s: "never_stuck (\<lambda>j. random_tool_id (sample_draw j) 64 API_OPENAI) (length ([] :: tool_text list) + length (calls_v sample_new))"
    using sample_draw_never_stuck by (simp add: sample_new_def numeral_eq_Suc)
  obtain cs' k' where c: "assign_tool_call_ids False sample_draw (empty_memory 2 600) sample_new API_OPENAI 0 = Some (cs', k')" "length (calls_v cs') = 3"
    "\<forall>j < 3. id_assigned (\<lambda>i. False) (take j (calls_v cs')) (calls_v sample_new ! j) (calls_v cs' ! j)"
    using assigned_ids_fresh [OF replay_empty s, of 0] by (auto simp: sample_new_def)
  have "calls_v cs' ! 0 \<in> set (take 1 (calls_v cs'))" using c(2) by (cases "calls_v cs'") simp_all
  moreover have "id_assigned (\<lambda>i. False) (take 1 (calls_v cs')) (calls_v sample_new ! 1) (calls_v cs' ! 1)" "id_assigned (\<lambda>i. False) (take 2 (calls_v cs')) (calls_v sample_new ! 2) (calls_v cs' ! 2)"
    using c(3) by simp_all
  ultimately have "tc_id (calls_v cs' ! 0) \<noteq> tc_id (calls_v cs' ! 1)" "tc_id (calls_v cs' ! 2) = Some ''mine''"
    by (auto simp: id_assigned_def sample_new_def tool_call_zero_def or_default_def) (metis image_eqI)
  then show ?thesis using c(1) by (auto simp: sample_draw_def)
qed

section \<open>Live bindings\<close>

lemma remembered_ids:
  "set (stop_v (foldl id_list_push_unique (stop_list_clear l) xs)) = \<Union> (set_option ` set xs) - {[]}" "distinct (stop_v (foldl id_list_push_unique (stop_list_clear l) xs))"
  by (simp_all add: set_push_all distinct_push_all stop_list_clear_def)

lemma distinct_same_set: "distinct xs \<Longrightarrow> distinct ys \<Longrightarrow> length xs = length ys \<and> set ys \<subseteq> set xs \<longleftrightarrow> set xs = set ys"
  by (metis List.finite_set card_subset_eq distinct_card order_refl)

text \<open>
  A slot continues exactly the turn it remembers.  After the calls of a turn were remembered at a position of the
  session, a request with a list of distinct ids matches the slot if and only if the session is still at
  that position and the ids are all the ids of that turn, no more and no fewer.
\<close>

theorem live_match_exact:
  assumes "of_ptr visible \<noteq> []" "distinct (stop_v ids)" "[] \<notin> set (stop_v ids)"
  shows "responses_live_matches_request (responses_live_remember visible (Some cs) pos sl) ids p \<longleftrightarrow>
    p = pos \<and> stop_v ids \<noteq> [] \<and> set (stop_v ids) = {i. i \<noteq> [] \<and> Some i \<in> tc_id ` set (calls_v cs)}"
proof -
  define l where "l = foldl id_list_push_unique (stop_list_clear (lt_call_ids (responses_live sl))) (map tc_id (calls_v cs))"
  have l: "set (stop_v l) = {i. i \<noteq> [] \<and> Some i \<in> tc_id ` set (calls_v cs)}" "distinct (stop_v l)"
    unfolding l_def remembered_ids(1) by (force simp: remembered_ids(2))+
  have "list_all (\<lambda>i. id_list_contains l (Some i)) (stop_v ids) \<longleftrightarrow> set (stop_v ids) \<subseteq> set (stop_v l)"
    using assms(3) by (auto simp: list_all_iff id_list_contains_def)
  then have "length (stop_v l) = length (stop_v ids) \<and> list_all (\<lambda>i. id_list_contains l (Some i)) (stop_v ids) \<longleftrightarrow> set (stop_v ids) = set (stop_v l)"
    using distinct_same_set [OF l(2) assms(2)] by auto
  then show ?thesis using assms(1) unfolding l(1) [symmetric]
    by (auto simp: responses_live_matches_request_def responses_live_remember_def live_matches_def live_tool_state_clear_locked_def Let_def l_def [symmetric])
qed

end
