(* ===== verification/ResponsesInput.thy ===== *)
theory ResponsesInput
  imports ToolReplay
begin

text \<open>
  The history of a Responses request (\<^verbatim>\<open>server.c\<close>): a list of typed items, messages, calls, outputs and
  reasoning, which is collapsed into the chat messages the renderers work on.  Reasoning waits in a
  buffer until an assistant message takes it.
\<close>

section \<open>Content of an item\<close>

record content_part =
  cp_type :: "string option"
  cp_text :: "string option"

text \<open>A null is taken as the empty string.\<close>

definition part_text_field :: "content_part scanner" where
  "part_text_field v p0 = (let p = json_ws p0 in case json_lit p ''null'' of
     Some r \<Rightarrow> (v\<lparr>cp_text := Some []\<rparr>, Some r) | None \<Rightarrow> store_field json_cstring (\<lambda>s. cp_text_update (\<lambda>_. Some s)) v p)"

definition content_part_field :: "string \<Rightarrow> content_part scanner" where
  "content_part_field fld =
     (if fld = ''type'' then store_field json_cstring (\<lambda>s. cp_type_update (\<lambda>_. Some s))
      else if fld = ''text'' then part_text_field
      else skip_field)"

definition is_text_block :: "string option \<Rightarrow> bool" where
  "is_text_block t \<longleftrightarrow> t \<in> Some ` {''input_text'', ''output_text'', ''text'', ''summary_text'', ''reasoning_text''}"

definition responses_content_item :: "string scanner" where
  "responses_content_item b p =
     (if peek p = CHR 0x22 then store_field json_cstring (\<lambda>s b. b @ s) b p
      else if peek p = CHR ''{'' then
        (case object_value content_part_field \<lparr>cp_type = None, cp_text = None\<rparr> p of
           (v, None) \<Rightarrow> (b, None)
         | (v, Some r) \<Rightarrow> (case cp_text v of None \<Rightarrow> (b, None)
             | Some t \<Rightarrow> if is_text_block (cp_type v) then (b @ t, Some r) else (b, None)))
      else (b, None))"

definition parse_responses_content_array :: "string \<Rightarrow> (string \<times> string) option" where
  "parse_responses_content_array p0 = (let p = json_ws p0 in
     if peek p = CHR 0x22 then json_cstring p
     else (case json_lit p ''null'' of Some r \<Rightarrow> Some ([], r) | None \<Rightarrow>
       (case array_value responses_content_item [] p of (b, None) \<Rightarrow> None | (b, Some r) \<Rightarrow> Some (b, r))))"

section \<open>Fields of an item\<close>

record responses_item =
  ri_type :: "string option"
  ri_role :: "string option"
  ri_content :: "string option"
  ri_name :: "string option"
  ri_namespace :: "string option"
  ri_call_id :: "string option"
  ri_item_id :: "string option"
  ri_arguments :: "string option"
  ri_output :: "string option"
  ri_input :: "string option"
  ri_summary :: "string option"
  ri_action :: "string option"
  ri_result :: "string option"
  ri_tools_json :: "string option"
  ri_status :: "string option"

definition responses_item_zero :: responses_item where
  "responses_item_zero = \<lparr>ri_type = None, ri_role = None, ri_content = None, ri_name = None, ri_namespace = None, ri_call_id = None,
     ri_item_id = None, ri_arguments = None, ri_output = None, ri_input = None, ri_summary = None, ri_action = None, ri_result = None,
     ri_tools_json = None, ri_status = None\<rparr>"

text \<open>A string is taken as it is read, any other value as its raw text.\<close>

definition string_or_raw :: "(string \<Rightarrow> 'a \<Rightarrow> 'a) \<Rightarrow> 'a scanner" where
  "string_or_raw put a p0 = (let p = json_ws p0 in
     if peek p = CHR 0x22 then store_field json_cstring put a p else store_field json_raw_value put a p)"

definition output_field :: "responses_item scanner" where
  "output_field it p0 = (let p = json_ws p0; put = (\<lambda>s. ri_output_update (\<lambda>_. Some s)) in
     if peek p = CHR ''['' then store_field parse_responses_content_array put it p
     else if peek p = CHR 0x22 then store_field json_cstring put it p
     else store_field json_raw_value put it p)"

definition responses_item_field :: "string \<Rightarrow> responses_item scanner" where
  "responses_item_field fld =
     (if fld = ''type'' then store_field json_cstring (\<lambda>s. ri_type_update (\<lambda>_. Some s))
      else if fld = ''role'' then store_field json_cstring (\<lambda>s. ri_role_update (\<lambda>_. Some s))
      else if fld = ''content'' then store_field parse_responses_content_array (\<lambda>s. ri_content_update (\<lambda>_. Some s))
      else if fld = ''name'' then store_field json_cstring (\<lambda>s. ri_name_update (\<lambda>_. Some s))
      else if fld = ''namespace'' then store_field json_cstring (\<lambda>s. ri_namespace_update (\<lambda>_. Some s))
      else if fld = ''call_id'' then store_field json_cstring (\<lambda>s. ri_call_id_update (\<lambda>_. Some s))
      else if fld = ''id'' then store_field json_cstring (\<lambda>s. ri_item_id_update (\<lambda>_. Some s))
      else if fld = ''arguments'' then string_or_raw (\<lambda>s. ri_arguments_update (\<lambda>_. Some s))
      else if fld = ''output'' then output_field
      else if fld = ''input'' then string_or_raw (\<lambda>s. ri_input_update (\<lambda>_. Some s))
      else if fld = ''summary'' then store_field parse_responses_content_array (\<lambda>s. ri_summary_update (\<lambda>_. Some s))
      else if fld = ''action'' then store_field json_raw_value (\<lambda>s. ri_action_update (\<lambda>_. Some s))
      else if fld = ''result'' then string_or_raw (\<lambda>s. ri_result_update (\<lambda>_. Some s))
      else if fld = ''status'' then store_field json_cstring (\<lambda>s. ri_status_update (\<lambda>_. Some s))
      else if fld = ''tools'' then store_field json_raw_value (\<lambda>s. ri_tools_json_update (\<lambda>_. Some s))
      else skip_field)"

section \<open>From items to messages\<close>

text \<open>The messages so far, the reasoning that waits for its message, and the schemas that search results load.\<close>

record input_state =
  in_msgs :: chat_msgs
  pending_reasoning :: string
  loaded_tool_schemas :: string
  in_orders :: tool_schema_orders

definition is_hosted_call :: "string \<Rightarrow> bool" where
  "is_hosted_call t \<longleftrightarrow> t \<in> {''local_shell_call'', ''web_search_call'', ''tool_search_call'', ''image_generation_call''}"

definition is_hosted_output :: "string \<Rightarrow> bool" where
  "is_hosted_output t \<longleftrightarrow> t \<in> {''local_shell_call_output'', ''web_search_call_output'', ''tool_search_output'',
     ''tool_search_call_output'', ''image_generation_call_output''}"

definition consumes_reasoning :: "string \<Rightarrow> responses_item \<Rightarrow> bool" where
  "consumes_reasoning t it \<longleftrightarrow> (t = ''message'' \<and> ri_role it = Some ''assistant'') \<or>
     t = ''function_call'' \<or> t = ''custom_tool_call'' \<or> is_hosted_call t"

definition is_bookkeeping :: "string \<Rightarrow> bool" where
  "is_bookkeeping t \<longleftrightarrow> t = ''compaction'' \<or> t = ''context_compaction''"

text \<open>An assistant message without content carries the waiting reasoning on its own.\<close>

definition assistant_msg :: "string \<Rightarrow> chat_msg" where
  "assistant_msg thoughts = chat_msg_zero\<lparr>role := Some ''assistant'', content := Some [],
     reasoning := (if thoughts = [] then None else Some thoughts)\<rparr>"

definition flush_reasoning :: "input_state \<Rightarrow> input_state" where
  "flush_reasoning st = (if pending_reasoning st = [] then st
     else st\<lparr>in_msgs := chat_msgs_push (in_msgs st) (assistant_msg (pending_reasoning st)), pending_reasoning := []\<rparr>)"

definition message_of_item :: "responses_item \<Rightarrow> input_state \<Rightarrow> input_state" where
  "message_of_item it st =
     (let m = chat_msg_zero\<lparr>role := Some (or_default (ri_role it) ''user''), content := Some (or_default (ri_content it) [])\<rparr> in
      if role m = Some ''assistant'' \<and> pending_reasoning st \<noteq> []
      then st\<lparr>in_msgs := chat_msgs_push (in_msgs st) (m\<lparr>reasoning := Some (pending_reasoning st)\<rparr>), pending_reasoning := []\<rparr>
      else st\<lparr>in_msgs := chat_msgs_push (in_msgs st) m\<rparr>)"

definition item_id_of :: "responses_item \<Rightarrow> string option" where
  "item_id_of it = (if ri_call_id it \<noteq> None then ri_call_id it else ri_item_id it)"

definition call_of_item :: "string \<Rightarrow> responses_item \<Rightarrow> tool_call" where
  "call_of_item t it =
     \<lparr>tc_id = Some (or_default (item_id_of it) []),
      tc_name = Some (if t \<noteq> ''custom_tool_call'' \<and> of_ptr (ri_namespace it) \<noteq> [] \<and> of_ptr (ri_name it) \<noteq> []
        then of_ptr (ri_namespace it) @ of_ptr (ri_name it) else or_default (ri_name it) []),
      tc_arguments = Some (or_default (ri_arguments it) (or_default (ri_input it) ''{}''))\<rparr>"

definition hosted_call_of_item :: "string \<Rightarrow> responses_item \<Rightarrow> tool_call" where
  "hosted_call_of_item t it =
     \<lparr>tc_id = Some (or_default (item_id_of it) []),
      tc_name = Some (if t = ''tool_search_call'' then ''tool_search'' else if t = ''local_shell_call'' then ''local_shell'' else t),
      tc_arguments = Some (or_default (ri_action it) (or_default (ri_arguments it) (or_default (ri_input it) ''{}'')))\<rparr>"

text \<open>A call joins the assistant message before it, or starts one; both kinds of calls share this.\<close>

definition append_call :: "tool_call \<Rightarrow> input_state \<Rightarrow> input_state" where
  "append_call tc st =
     (if in_msgs st \<noteq> [] \<and> role (List.last (in_msgs st)) = Some ''assistant''
      then (let m = List.last (in_msgs st); takes = (pending_reasoning st \<noteq> [] \<and> of_ptr (reasoning m) = []);
                m1 = (if takes then m\<lparr>reasoning := Some (pending_reasoning st)\<rparr> else m) in
        st\<lparr>in_msgs := butlast (in_msgs st) @ [m1\<lparr>calls := tool_calls_push (calls m1) tc\<rparr>],
           pending_reasoning := (if takes then [] else pending_reasoning st)\<rparr>)
      else (let m = assistant_msg (pending_reasoning st) in
        st\<lparr>in_msgs := chat_msgs_push (in_msgs st) (m\<lparr>calls := tool_calls_push (calls m) tc\<rparr>), pending_reasoning := []\<rparr>))"

definition output_msg :: "string \<Rightarrow> responses_item \<Rightarrow> chat_msg" where
  "output_msg body it = chat_msg_add_tool_call_id (chat_msg_zero\<lparr>role := Some ''tool'', content := Some body\<rparr>) (item_id_of it)"

text \<open>Text put behind what a buffer holds, on a line of its own.\<close>

definition put_line :: "string \<Rightarrow> string option \<Rightarrow> string" where
  "put_line b s = (if of_ptr s = [] then b else b @ (if b = [] then [] else nl) @ of_ptr s)"

definition reasoning_of_item :: "responses_item \<Rightarrow> input_state \<Rightarrow> input_state" where
  "reasoning_of_item it st = st\<lparr>pending_reasoning := put_line (put_line (pending_reasoning st) (ri_summary it)) (ri_content it)\<rparr>"

text \<open>A search result lists the tools it found; a malformed list fails the request.\<close>

definition load_schemas :: "string \<Rightarrow> responses_item \<Rightarrow> input_state \<Rightarrow> input_state option" where
  "load_schemas t it st = (case ri_tools_json it of None \<Rightarrow> Some st | Some tools \<Rightarrow>
     if t \<noteq> ''tool_search_output'' then Some st
     else (case parse_tools_value (None, in_orders st) tools of
         ((schemas, orders), None) \<Rightarrow> None
       | ((schemas, orders), Some r) \<Rightarrow>
           Some (st\<lparr>loaded_tool_schemas := put_line (loaded_tool_schemas st) schemas, in_orders := orders\<rparr>)))"

definition hosted_output_body :: "responses_item \<Rightarrow> string" where
  "hosted_output_body it = or_default (ri_output it) (or_default (ri_result it) (or_default (ri_tools_json it) []))"

definition push_msg :: "chat_msg \<Rightarrow> input_state \<Rightarrow> input_state" where
  "push_msg m st = st\<lparr>in_msgs := chat_msgs_push (in_msgs st) m\<rparr>"

definition apply_item :: "responses_item \<Rightarrow> input_state \<Rightarrow> input_state option" where
  "apply_item it st0 = (let t = or_default (ri_type it) ''message'' in
     if of_ptr (ri_status it) \<noteq> [] \<and> ri_status it \<noteq> Some ''completed'' then None
     else (let st = (if \<not> consumes_reasoning t it \<and> \<not> is_bookkeeping t then flush_reasoning st0 else st0) in
       if t = ''message'' then Some (message_of_item it st)
       else if t = ''function_call'' \<or> t = ''custom_tool_call'' then Some (append_call (call_of_item t it) st)
       else if t = ''function_call_output'' \<or> t = ''custom_tool_call_output'' then Some (push_msg (output_msg (or_default (ri_output it) []) it) st)
       else if t = ''reasoning'' then Some (reasoning_of_item it st)
       else if is_hosted_call t then Some (append_call (hosted_call_of_item t it) st)
       else if is_hosted_output t then map_option (push_msg (output_msg (hosted_output_body it) it)) (load_schemas t it st)
       else if is_bookkeeping t then Some st
       else None))"

text \<open>One element of the list: an object with its fields, then the message it stands for.\<close>

definition responses_input_item :: "input_state scanner" where
  "responses_input_item st p = (case object_value responses_item_field responses_item_zero p of
     (it, None) \<Rightarrow> (st, None)
   | (it, Some r) \<Rightarrow> (case apply_item it st of None \<Rightarrow> (st, None) | Some st' \<Rightarrow> (st', Some r)))"

definition parse_responses_input :: "input_state scanner" where
  "parse_responses_input st p = (case array_value responses_input_item st (json_ws p) of
     (st', None) \<Rightarrow> (st', None) | (st', Some r) \<Rightarrow> (flush_reasoning st', Some r))"

section \<open>Every parser consumes its value\<close>

lemma part_text_scanner [scanner_intros]: "value_scanner part_text_field"
  unfolding part_text_field_def [abs_def] Let_def
  by (rule scanner_ws [where g = "\<lambda>v p. case json_lit p ''null'' of Some r \<Rightarrow> (v\<lparr>cp_text := Some []\<rparr>, Some r)
        | None \<Rightarrow> store_field json_cstring (\<lambda>s. cp_text_update (\<lambda>_. Some s)) v p"], intro scanner_intros)

interpretation content_part: field_scanner content_part_field
  unfolding content_part_field_def by (intro field_scannerI scanner_intros)

lemma responses_content_item_scanner: "value_scanner responses_content_item"
  using value_scanner.progress [OF scanner_object, of content_part_field] json_cstring_length
  by (intro value_scannerI)
    (fastforce simp: responses_content_item_def store_field_def split: prod.splits option.splits if_splits)

interpretation responses_content: value_scanner responses_content_item
  by (rule responses_content_item_scanner)

lemma responses_content_array_length: "parse_responses_content_array p = Some (s, r) \<Longrightarrow> length r < length p"
  using length_json_ws [of p] value_scanner.progress [OF scanner_array, of responses_content_item "[]" "json_ws p"]
  by (fastforce simp: parse_responses_content_array_def Let_def split: if_splits option.splits prod.splits
      dest: json_cstring_length json_lit_length)

lemmas scanner_content_array [scanner_intros] =
  scanner_store [where scan = parse_responses_content_array, OF responses_content_array_length]

lemma string_or_raw_scanner [scanner_intros]: "value_scanner (string_or_raw put)"
  unfolding string_or_raw_def [abs_def] Let_def
  by (rule scanner_ws [where g = "\<lambda>a p. if peek p = CHR 0x22 then store_field json_cstring put a p else store_field json_raw_value put a p"],
      intro scanner_intros)

lemma output_field_scanner [scanner_intros]: "value_scanner output_field"
  unfolding output_field_def [abs_def] Let_def
  by (rule scanner_ws [where g = "\<lambda>it p. if peek p = CHR ''['' then store_field parse_responses_content_array (\<lambda>s. ri_output_update (\<lambda>_. Some s)) it p
      else if peek p = CHR 0x22 then store_field json_cstring (\<lambda>s. ri_output_update (\<lambda>_. Some s)) it p
      else store_field json_raw_value (\<lambda>s. ri_output_update (\<lambda>_. Some s)) it p"], intro scanner_intros)

interpretation responses_item: field_scanner responses_item_field
  unfolding responses_item_field_def by (intro field_scannerI scanner_intros)

lemma responses_input_item_scanner: "value_scanner responses_input_item"
  using value_scanner.progress [OF scanner_object, of responses_item_field]
  by (intro value_scannerI) (auto simp: responses_input_item_def split: prod.splits option.splits)

interpretation responses_input: value_scanner responses_input_item
  by (rule responses_input_item_scanner)

section \<open>Reading the items first\<close>

text \<open>
  The reference: the items of the list alone, and the messages made of a list of items.
\<close>

definition read_item :: "responses_item list scanner" where
  "read_item its p = (case object_value responses_item_field responses_item_zero p of
     (it, None) \<Rightarrow> (its, None) | (it, Some r) \<Rightarrow> (its @ [it], Some r))"

fun apply_items :: "responses_item list \<Rightarrow> input_state \<Rightarrow> input_state option" where
  "apply_items [] st = Some st"
| "apply_items (it # its) st = do { st1 \<leftarrow> apply_item it st; apply_items its st1 }"

lemma apply_items_append: "apply_items (xs @ ys) st = do { st1 \<leftarrow> apply_items xs st; apply_items ys st1 }"
  by (induction xs arbitrary: st) (auto split: Option.bind_splits)

lemma input_items_read:
  "array_items responses_input_item st p = (st', Some r) \<Longrightarrow> apply_items before st0 = Some st \<Longrightarrow>
   \<exists>its. array_items read_item before p = (its, Some r) \<and> apply_items its st0 = Some st'"
proof (induction responses_input_item st p arbitrary: before rule: array_items.induct)
  case (1 st p)
  show ?case
  proof (cases "peek p = NUL \<or> peek p = CHR '']''")
    case True
    then show ?thesis using 1(2,3) by (auto simp: array_items.simps)
  next
    case False
    then obtain st1 q where q: "responses_input_item st p = (st1, Some q)" "length q < length p"
        "array_items responses_input_item st1 (json_comma q) = (st', Some r)"
      using 1(2) by (auto simp: array_items.simps [of responses_input_item st p] split: prod.splits option.splits if_splits)
    obtain it where it: "object_value responses_item_field responses_item_zero p = (it, Some q)" "apply_item it st = Some st1"
      using q(1) by (auto simp: responses_input_item_def split: prod.splits option.splits)
    have "apply_items (before @ [it]) st0 = Some st1" using 1(3) it(2) by (simp add: apply_items_append)
    from 1(1) [OF False q(1) [symmetric] refl q(2,3) this]
    obtain its where "array_items read_item (before @ [it]) (json_comma q) = (its, Some r)" "apply_items its st0 = Some st'" by blast
    moreover have "read_item before p = (before @ [it], Some q)" using it(1) by (simp add: read_item_def)
    ultimately show ?thesis using False q(2) by (auto simp: array_items.simps [of read_item before p])
  qed
qed

lemma input_read:
  assumes "parse_responses_input st p = (st', Some r)"
  shows "\<exists>its st1. array_value read_item [] (json_ws p) = (its, Some r) \<and> apply_items its st = Some st1 \<and> st' = flush_reasoning st1"
proof -
  obtain st1 where v: "array_value responses_input_item st (json_ws p) = (st1, Some r)" "st' = flush_reasoning st1"
    using assms by (auto simp: parse_responses_input_def split: prod.splits option.splits)
  then obtain q where q: "array_items responses_input_item st (json_ws (tl (json_ws p))) = (st1, Some q)" "peek q = CHR '']''" "r = tl q"
      "peek (json_ws p) = CHR ''[''"
    by (auto simp: array_value_def expect_close_def split: if_splits prod.splits option.splits)
  from input_items_read [OF q(1), of "[]" st] obtain its where
    "array_items read_item [] (json_ws (tl (json_ws p))) = (its, Some q)" "apply_items its st = Some st1" by auto
  then show ?thesis using q v(2) by (auto simp: array_value_def expect_close_def)
qed

section \<open>Nothing of the history is dropped\<close>

text \<open>
  What a history says, apart from reasoning: the words of the assistant, its calls, and the entries of
  everybody else with the ids they answer.
\<close>

datatype history_event = Said string | Called "string option" "string option" "string option" | Entry "string option" "string option" "string list"

definition said :: "string option \<Rightarrow> history_event list" where
  "said s = (if or_default s [] = [] then [] else [Said (or_default s [])])"

definition entry_of :: "chat_msg \<Rightarrow> history_event" where
  "entry_of m = Entry (role m) (content m) (tool_call_ids m)"

definition call_event :: "tool_call \<Rightarrow> history_event" where
  "call_event tc = Called (tc_id tc) (tc_name tc) (tc_arguments tc)"

definition msg_events :: "chat_msg \<Rightarrow> history_event list" where
  "msg_events m = (if role m = Some ''assistant'' then said (content m) @ map call_event (calls_v (calls m)) else [entry_of m])"

text \<open>
  What an item says, from its fields alone.  The kinds of calls and results are tables; the id of a call is
  the first of its two ids that is there, its arguments the first of the fields that may hold them, and a
  name in a namespace is qualified by it.
\<close>

fun first_of :: "string option list \<Rightarrow> string \<Rightarrow> string" where
  "first_of [] d = d"
| "first_of (Some s # xs) d = s"
| "first_of (None # xs) d = first_of xs d"

definition hosted_names :: "(string \<times> string) list" where
  "hosted_names = [(''local_shell_call'', ''local_shell''), (''tool_search_call'', ''tool_search''), (''web_search_call'', ''web_search_call''),
     (''image_generation_call'', ''image_generation_call'')]"

definition item_events :: "responses_item \<Rightarrow> history_event list" where
  "item_events it = (let t = first_of [ri_type it] ''message''; i = first_of [ri_call_id it, ri_item_id it] []; n = first_of [ri_name it] [];
       ns = of_ptr (ri_namespace it); answers = (if i = [] then [] else [i]) in
     if t = ''message'' then
       (if ri_role it = Some ''assistant'' then (if first_of [ri_content it] [] = [] then [] else [Said (first_of [ri_content it] [])])
        else [Entry (Some (first_of [ri_role it] ''user'')) (Some (first_of [ri_content it] [])) []])
     else if t = ''function_call'' then
       [Called (Some i) (Some (if ns = [] \<or> of_ptr (ri_name it) = [] then n else ns @ of_ptr (ri_name it))) (Some (first_of [ri_arguments it, ri_input it] ''{}''))]
     else if t = ''custom_tool_call'' then [Called (Some i) (Some n) (Some (first_of [ri_arguments it, ri_input it] ''{}''))]
     else if t \<in> {''function_call_output'', ''custom_tool_call_output''} then [Entry (Some ''tool'') (Some (first_of [ri_output it] [])) answers]
     else if t \<in> {''local_shell_call_output'', ''web_search_call_output'', ''tool_search_output'', ''tool_search_call_output'', ''image_generation_call_output''} then
       [Entry (Some ''tool'') (Some (first_of [ri_output it, ri_result it, ri_tools_json it] [])) answers]
     else (case map_of hosted_names t of None \<Rightarrow> []
       | Some name \<Rightarrow> [Called (Some i) (Some name) (Some (first_of [ri_action it, ri_arguments it, ri_input it] ''{}''))]))"

definition item_thoughts :: "responses_item \<Rightarrow> string" where
  "item_thoughts it = (if ri_type it = Some ''reasoning'' then of_ptr (ri_summary it) @ of_ptr (ri_content it) else [])"

definition thoughts :: "chat_msgs \<Rightarrow> string" where
  "thoughts msgs = concat (map (\<lambda>m. of_ptr (reasoning m)) msgs)"

definition no_breaks :: "string \<Rightarrow> string" where
  "no_breaks s = filter (\<lambda>c. c \<noteq> CHR 0x0A) s"

text \<open>The invariant of the loop, relative to the items read so far.\<close>

definition history_inv :: "history_event list \<Rightarrow> string \<Rightarrow> input_state \<Rightarrow> bool" where
  "history_inv evs ths st \<longleftrightarrow> concat (map msg_events (in_msgs st)) = evs \<and>
     no_breaks (thoughts (in_msgs st) @ pending_reasoning st) = no_breaks ths \<and>
     NUL \<notin> set (pending_reasoning st) \<and> list_all chat_msg_wf (in_msgs st) \<and>
     list_all (\<lambda>m. reasoning m \<noteq> None \<longrightarrow> role m = Some ''assistant'') (in_msgs st)"

lemma no_breaks_simps [simp]: "no_breaks (a @ b) = no_breaks a @ no_breaks b" "no_breaks [] = []" "no_breaks nl = []"
  by (simp_all add: no_breaks_def)

lemma cstr_no_nul [simp]: "NUL \<notin> set (cstr s)"
  by (auto simp: cstr_def dest: set_takeWhileD)

lemma put_line_props:
  "no_breaks (put_line b s) = no_breaks b @ no_breaks (of_ptr s)" "NUL \<notin> set b \<Longrightarrow> NUL \<notin> set (put_line b s)"
  by (auto simp: put_line_def)

lemma thoughts_simps [simp]: "thoughts [] = []" "thoughts (ms @ ns) = thoughts ms @ thoughts ns" "thoughts [m] = of_ptr (reasoning m)"
  by (simp_all add: thoughts_def)

lemma or_default_simps [simp]: "or_default None d = d" "or_default (Some s) d = s"
  by (simp_all add: or_default_def)

lemma assistant_msg_props [simp]:
  "role (assistant_msg s) = Some ''assistant''" "calls (assistant_msg s) = tool_calls_free" "content (assistant_msg s) = Some []"
  "NUL \<notin> set s \<Longrightarrow> of_ptr (reasoning (assistant_msg s)) = s"
  by (simp_all add: assistant_msg_def chat_msg_zero_def cstr_id)

lemma chat_msg_wf_updates [simp]:
  "chat_msg_wf (m\<lparr>reasoning := a\<rparr>) = chat_msg_wf m" "chat_msg_wf (m\<lparr>calls := cs\<rparr>) = chat_msg_wf m"
  "chat_msg_wf (assistant_msg s)" "chat_msg_wf (chat_msg_zero\<lparr>role := Some r, content := Some c\<rparr>)"
  by (simp_all add: chat_msg_wf_def assistant_msg_def)

lemma msg_events_assistant: "msg_events (assistant_msg s) = []"
  by (simp add: msg_events_def said_def tool_calls_free_def)

lemma history_flush: "history_inv evs ths st \<Longrightarrow> history_inv evs ths (flush_reasoning st) \<and> pending_reasoning (flush_reasoning st) = []"
  by (auto simp: history_inv_def flush_reasoning_def chat_msgs_push_def msg_events_assistant)

lemma history_push_entry:
  assumes "history_inv evs ths st" "pending_reasoning st = []" "role m \<noteq> Some ''assistant''" "reasoning m = None" "chat_msg_wf m"
  shows "history_inv (evs @ [entry_of m]) ths (push_msg m st)"
  using assms by (auto simp: history_inv_def push_msg_def chat_msgs_push_def msg_events_def)

lemma history_append_call:
  assumes "history_inv evs ths st"
  shows "history_inv (evs @ [call_event tc]) ths (append_call tc st)"
proof (cases "in_msgs st \<noteq> [] \<and> role (List.last (in_msgs st)) = Some ''assistant''")
  case True
  define ms m where "ms = butlast (in_msgs st)" and "m = List.last (in_msgs st)"
  then have "in_msgs st = ms @ [m]" "role m = Some ''assistant''" using True by auto
  then show ?thesis using assms
    by (auto simp: history_inv_def append_call_def Let_def msg_events_def tool_calls_push_def cstr_id)
next
  case False
  then show ?thesis using assms
    by (auto simp: history_inv_def append_call_def Let_def chat_msgs_push_def msg_events_def said_def tool_calls_push_def tool_calls_free_def cstr_id)
qed

lemma history_message:
  assumes "history_inv evs ths st" "ri_role it \<noteq> Some ''assistant'' \<Longrightarrow> pending_reasoning st = []"
  shows "history_inv (evs @ (if ri_role it = Some ''assistant'' then said (ri_content it)
    else [Entry (Some (or_default (ri_role it) ''user'')) (Some (or_default (ri_content it) [])) []])) ths (message_of_item it st)"
proof (cases "ri_role it = Some ''assistant''")
  case True
  then show ?thesis using assms(1)
    by (auto simp: history_inv_def message_of_item_def Let_def chat_msgs_push_def msg_events_def said_def or_default_def chat_msg_zero_def
        tool_calls_free_def cstr_id chat_msg_wf_def ids_wf_def)
next
  case False
  then have "or_default (ri_role it) ''user'' \<noteq> ''assistant''" by (auto simp: or_default_def split: option.splits)
  then show ?thesis using assms False
    by (auto simp: history_inv_def message_of_item_def Let_def chat_msgs_push_def msg_events_def entry_of_def chat_msg_zero_def
        chat_msg_wf_def ids_wf_def)
qed

lemma history_reasoning: "history_inv evs ths st \<Longrightarrow> history_inv evs (ths @ of_ptr (ri_summary it) @ of_ptr (ri_content it)) (reasoning_of_item it st)"
  by (auto simp: history_inv_def reasoning_of_item_def put_line_props)

lemma load_schemas_keeps:
  "load_schemas t it st = Some st' \<Longrightarrow> in_msgs st' = in_msgs st \<and> pending_reasoning st' = pending_reasoning st"
  by (auto simp: load_schemas_def split: option.splits if_splits prod.splits)

lemma output_msg_props:
  "role (output_msg b it) = Some ''tool''" "reasoning (output_msg b it) = None" "chat_msg_wf (output_msg b it)"
proof -
  have "role (chat_msg_add_tool_call_id m i) = role m" "reasoning (chat_msg_add_tool_call_id m i) = reasoning m"
    "content (chat_msg_add_tool_call_id m i) = content m" for m i
    by (auto simp: chat_msg_add_tool_call_id_def Let_def split: option.splits)
  then show "role (output_msg b it) = Some ''tool''" "reasoning (output_msg b it) = None" "chat_msg_wf (output_msg b it)"
    by (simp_all add: output_msg_def chat_msg_wf_def) (simp_all add: chat_msg_zero_def)
qed

lemma hosted_call_cases:
  "is_hosted_call t \<Longrightarrow> (t = ''local_shell_call'' \<Longrightarrow> P) \<Longrightarrow> (t = ''web_search_call'' \<Longrightarrow> P) \<Longrightarrow>
   (t = ''tool_search_call'' \<Longrightarrow> P) \<Longrightarrow> (t = ''image_generation_call'' \<Longrightarrow> P) \<Longrightarrow> P"
  unfolding is_hosted_call_def insert_iff empty_iff by (elim disjE FalseE)

lemma hosted_output_cases:
  "is_hosted_output t \<Longrightarrow> (t = ''local_shell_call_output'' \<Longrightarrow> P) \<Longrightarrow> (t = ''web_search_call_output'' \<Longrightarrow> P) \<Longrightarrow>
   (t = ''tool_search_output'' \<Longrightarrow> P) \<Longrightarrow> (t = ''tool_search_call_output'' \<Longrightarrow> P) \<Longrightarrow> (t = ''image_generation_call_output'' \<Longrightarrow> P) \<Longrightarrow> P"
  unfolding is_hosted_output_def insert_iff empty_iff by (elim disjE FalseE)

lemma bookkeeping_cases: "is_bookkeeping t \<Longrightarrow> (t = ''compaction'' \<Longrightarrow> P) \<Longrightarrow> (t = ''context_compaction'' \<Longrightarrow> P) \<Longrightarrow> P"
  unfolding is_bookkeeping_def by (elim disjE)

lemmas item_kinds = is_hosted_call_def is_hosted_output_def is_bookkeeping_def consumes_reasoning_def

lemma guard_passed: "(if c then None else x) = Some y \<Longrightarrow> x = Some y"
  by (simp split: if_splits)

lemma first_of_default: "first_of [a] d = or_default a d" "first_of (a # as) d = or_default a (first_of as d)"
  by (cases a; simp)+

lemmas item_event_defs = item_events_def Let_def first_of_default first_of.simps(1)

lemma item_id_of_default: "or_default (item_id_of it) [] = or_default (ri_call_id it) (or_default (ri_item_id it) [])"
  by (cases "ri_call_id it") (simp_all add: item_id_of_def)

lemma item_events_message:
  "or_default (ri_type it) ''message'' = ''message'' \<Longrightarrow> item_events it = (if ri_role it = Some ''assistant'' then said (ri_content it)
     else [Entry (Some (or_default (ri_role it) ''user'')) (Some (or_default (ri_content it) [])) []])"
  by (simp add: item_event_defs said_def)

lemma item_events_silent:
  "or_default (ri_type it) ''message'' = t \<Longrightarrow> t = ''reasoning'' \<or> is_bookkeeping t \<Longrightarrow> item_events it = []"
  by (elim disjE bookkeeping_cases) (simp_all add: item_event_defs hosted_names_def)

lemma item_events_call:
  "or_default (ri_type it) ''message'' = t \<Longrightarrow> t = ''function_call'' \<or> t = ''custom_tool_call'' \<Longrightarrow> item_events it = [call_event (call_of_item t it)]"
  by (elim disjE) (simp_all add: item_event_defs call_event_def call_of_item_def item_id_of_default)

lemma item_events_hosted_call:
  "or_default (ri_type it) ''message'' = t \<Longrightarrow> is_hosted_call t \<Longrightarrow> item_events it = [call_event (hosted_call_of_item t it)]"
  by (elim hosted_call_cases) (simp_all add: item_event_defs call_event_def hosted_call_of_item_def item_id_of_default hosted_names_def)

lemma entry_of_output:
  "entry_of (output_msg b it) = Entry (Some ''tool'') (Some b) (let i = or_default (ri_call_id it) (or_default (ri_item_id it) []) in if i = [] then [] else [i])"
  unfolding item_id_of_default [symmetric]
  by (cases "item_id_of it") (simp_all add: entry_of_def output_msg_def chat_msg_add_tool_call_id_def chat_msg_zero_def)

lemma item_events_output:
  "or_default (ri_type it) ''message'' = t \<Longrightarrow> t = ''function_call_output'' \<or> t = ''custom_tool_call_output'' \<Longrightarrow>
   item_events it = [entry_of (output_msg (or_default (ri_output it) []) it)]"
  by (elim disjE) (simp_all add: item_event_defs entry_of_output)

lemma item_events_hosted_output:
  "or_default (ri_type it) ''message'' = t \<Longrightarrow> is_hosted_output t \<Longrightarrow> item_events it = [entry_of (output_msg (hosted_output_body it) it)]"
  by (elim hosted_output_cases) (simp_all add: item_event_defs entry_of_output hosted_output_body_def)

lemma history_item:
  assumes "history_inv evs ths st" "apply_item it st = Some st'"
  shows "history_inv (evs @ item_events it) (ths @ item_thoughts it) st'"
proof -
  define t where "t = or_default (ri_type it) ''message''"
  define st1 where "st1 = (if \<not> consumes_reasoning t it \<and> \<not> is_bookkeeping t then flush_reasoning st else st)"
  have inv: "history_inv evs ths st1" using history_flush [OF assms(1)] assms(1) by (auto simp: st1_def)
  have empty: "pending_reasoning st1 = []" if "\<not> consumes_reasoning t it" "\<not> is_bookkeeping t"
    using history_flush [OF assms(1)] that by (simp add: st1_def)
  have th: "item_thoughts it = (if t = ''reasoning'' then of_ptr (ri_summary it) @ of_ptr (ri_content it) else [])"
    by (auto simp: item_thoughts_def t_def or_default_def split: option.splits)
  note step = assms(2) [unfolded apply_item_def Let_def, folded t_def, THEN guard_passed, folded st1_def]
  consider "t = ''message''" | "t = ''function_call'' \<or> t = ''custom_tool_call''" | "t = ''function_call_output'' \<or> t = ''custom_tool_call_output''"
    | "t = ''reasoning''" | "is_hosted_call t" | "is_hosted_output t" | "is_bookkeeping t"
    using step by (auto split: if_splits)
  then show ?thesis
  proof cases
    case 1
    then have "st' = message_of_item it st1" using step by simp
    moreover have "pending_reasoning st1 = []" if "ri_role it \<noteq> Some ''assistant''"
      using 1 that by (intro empty) (simp_all add: consumes_reasoning_def is_bookkeeping_def is_hosted_call_def)
    ultimately show ?thesis using history_message [OF inv, of it] 1 th by (simp add: item_events_message t_def)
  next
    case 2
    then have "st' = append_call (call_of_item t it) st1" using step by auto
    moreover have "item_thoughts it = []" using 2 th by auto
    moreover have "item_events it = [call_event (call_of_item t it)]" using item_events_call 2 by (simp add: t_def)
    ultimately show ?thesis using history_append_call [OF inv] by simp
  next
    case 3
    have "st' = push_msg (output_msg (or_default (ri_output it) []) it) st1" using 3 step by auto
    moreover have "item_thoughts it = []" using 3 th by auto
    moreover have "item_events it = [entry_of (output_msg (or_default (ri_output it) []) it)]" using item_events_output 3 by (simp add: t_def)
    moreover have "pending_reasoning st1 = []"
      using 3 by (intro empty) (auto simp: consumes_reasoning_def is_bookkeeping_def is_hosted_call_def)
    ultimately show ?thesis using history_push_entry [OF inv _ _ output_msg_props(2,3)] by (simp add: output_msg_props(1))
  next
    case 4
    then have "st' = reasoning_of_item it st1" using step by simp
    moreover have "item_events it = []" using item_events_silent 4 by (simp add: t_def)
    ultimately show ?thesis using history_reasoning [OF inv, of it] 4 th by simp
  next
    case 5
    then have "st' = append_call (hosted_call_of_item t it) st1" using step by (elim hosted_call_cases) (simp_all add: item_kinds)
    moreover have "item_thoughts it = []" using 5 th by (elim hosted_call_cases) (simp_all add: item_kinds)
    moreover have "item_events it = [call_event (hosted_call_of_item t it)]" using item_events_hosted_call 5 by (simp add: t_def)
    ultimately show ?thesis using history_append_call [OF inv] by simp
  next
    case 6
    have "map_option (push_msg (output_msg (hosted_output_body it) it)) (load_schemas t it st1) = Some st'"
      using 6 step by (elim hosted_output_cases) (simp_all add: item_kinds)
    then obtain st2 where st2: "load_schemas t it st1 = Some st2" "st' = push_msg (output_msg (hosted_output_body it) it) st2" by blast
    have "pending_reasoning st1 = []"
      using 6 by (intro empty) (elim hosted_output_cases; simp add: item_kinds)+
    then have "history_inv evs ths st2" "pending_reasoning st2 = []"
      using load_schemas_keeps [OF st2(1)] inv by (auto simp: history_inv_def)
    moreover have "item_thoughts it = []" using 6 th by (elim hosted_output_cases) (simp_all add: item_kinds)
    moreover have "item_events it = [entry_of (output_msg (hosted_output_body it) it)]"
      using item_events_hosted_output 6 by (simp add: t_def)
    ultimately show ?thesis using history_push_entry [OF _ _ _ output_msg_props(2,3)] by (simp add: st2(2) output_msg_props(1))
  next
    case 7
    then have "st' = st1" using step by (elim bookkeeping_cases) (simp_all add: item_kinds)
    moreover have "item_thoughts it = []" using 7 th by (elim bookkeeping_cases) (simp_all add: item_kinds)
    moreover have "item_events it = []" using item_events_silent 7 by (simp add: t_def)
    ultimately show ?thesis using inv by simp
  qed
qed

lemma history_items:
  "apply_items its st = Some st' \<Longrightarrow> history_inv evs ths st \<Longrightarrow>
   history_inv (evs @ concat (map item_events its)) (ths @ concat (map item_thoughts its)) st'"
proof (induction its arbitrary: st evs ths)
  case (Cons it its)
  then obtain st1 where st1: "apply_item it st = Some st1" "apply_items its st1 = Some st'" by (auto split: Option.bind_splits)
  show ?case using Cons.IH [OF st1(2) history_item [OF Cons.prems(2) st1(1)]] by simp
qed simp

text \<open>
  C6.  A Responses history is kept whole: when its list of items is accepted, the messages say exactly what
  the items say, words, calls with their ids and arguments, and results with the ids they answer, in the
  order of the items, and the reasoning of the messages is the reasoning of the items in their order, up
  to line breaks.  Every message is well formed and only assistant messages carry reasoning.
\<close>

theorem responses_history_kept:
  assumes "parse_responses_input \<lparr>in_msgs = [], pending_reasoning = [], loaded_tool_schemas = schemas, in_orders = orders\<rparr> p = (st, Some r)"
  shows "\<exists>its. array_value read_item [] (json_ws p) = (its, Some r) \<and>
    concat (map msg_events (in_msgs st)) = concat (map item_events its) \<and>
    no_breaks (thoughts (in_msgs st)) = no_breaks (concat (map item_thoughts its)) \<and>
    list_all chat_msg_wf (in_msgs st) \<and> list_all (\<lambda>m. role m = Some ''assistant'' \<or> reasoning m = None) (in_msgs st)"
proof -
  let ?st0 = "\<lparr>in_msgs = [], pending_reasoning = [], loaded_tool_schemas = schemas, in_orders = orders\<rparr>"
  obtain its st1 where its: "array_value read_item [] (json_ws p) = (its, Some r)" "apply_items its ?st0 = Some st1" "st = flush_reasoning st1"
    using input_read [OF assms] by blast
  have "history_inv [] [] ?st0" by (simp add: history_inv_def)
  from history_flush [OF history_items [OF its(2) this]] its(3)
  have "history_inv (concat (map item_events its)) (concat (map item_thoughts its)) st" "pending_reasoning st = []" by simp_all
  then show ?thesis using its(1) by (auto simp: history_inv_def list_all_iff)
qed

definition member_text :: "string \<Rightarrow> string \<Rightarrow> string" where
  "member_text k v = dq @ k @ dq @ '':'' @ v"

definition sample_thought :: "string \<Rightarrow> string" where
  "sample_thought s = ''{'' @ member_text ''type'' (dq @ ''reasoning'' @ dq) @ '','' @ member_text ''summary'' (''['' @ dq @ s @ dq @ '']'') @ ''},''"

definition item_text :: "string \<Rightarrow> (string \<times> string) list \<Rightarrow> string" where
  "item_text t fs = ''{'' @ member_text ''type'' (dq @ t @ dq) @ concat (map (\<lambda>(k, v). '','' @ member_text k v) fs) @ ''}''"

definition quoted :: "string \<Rightarrow> string" where
  "quoted s = dq @ s @ dq"

definition sample_answered :: string where
  "sample_answered = item_text ''function_call'' [(''call_id'', quoted ''c1''), (''name'', quoted ''ls'')] @ '','' @
     item_text ''function_call_output'' [(''call_id'', quoted ''c1''), (''output'', quoted ''x'')] @ '']''"

text \<open>A history with an item of every kind.\<close>

definition sample_session :: string where
  "sample_session = ''['' @ item_text ''message'' [(''role'', quoted ''user''), (''content'', quoted ''hi'')] @ '','' @
     item_text ''reasoning'' [(''summary'', ''['' @ quoted ''A'' @ '']''), (''content'', quoted ''B'')] @ '','' @
     item_text ''message'' [(''role'', quoted ''assistant''), (''content'', quoted ''ok'')] @ '','' @
     item_text ''function_call'' [(''call_id'', quoted ''c1''), (''id'', quoted ''f1''), (''namespace'', quoted ''fs.''), (''name'', quoted ''ls''), (''arguments'', ''[1]'')] @ '','' @
     item_text ''custom_tool_call'' [(''id'', quoted ''c2''), (''namespace'', quoted ''fs.''), (''name'', quoted ''sh''), (''input'', quoted ''pwd'')] @ '','' @
     item_text ''local_shell_call'' [(''call_id'', quoted ''c3''), (''name'', quoted ''x''), (''action'', ''[2]''), (''input'', ''[3]'')] @ '','' @
     item_text ''function_call_output'' [(''call_id'', quoted ''c1''), (''output'', ''['' @ quoted ''a'' @ '','' @ quoted ''b'' @ '']'')] @ '','' @
     item_text ''custom_tool_call_output'' [(''id'', quoted ''c2''), (''output'', quoted ''/'')] @ '','' @
     item_text ''local_shell_call_output'' [(''call_id'', quoted ''c3''), (''result'', quoted ''y''), (''status'', quoted ''completed'')] @ '']''"

definition sample_said :: "history_event list" where
  "sample_said = [Entry (Some ''user'') (Some ''hi'') [], Said ''ok'', Called (Some ''c1'') (Some ''fs.ls'') (Some ''[1]''),
     Called (Some ''c2'') (Some ''sh'') (Some ''pwd''), Called (Some ''c3'') (Some ''local_shell'') (Some ''[2]''),
     Entry (Some ''tool'') (Some ''ab'') [''c1''], Entry (Some ''tool'') (Some ''/'') [''c2''], Entry (Some ''tool'') (Some ''y'') [''c3'']]"

definition sample_history :: string where
  "sample_history = ''['' @ sample_thought ''A'' @ sample_answered"

definition no_input :: input_state where
  "no_input = \<lparr>in_msgs = [], pending_reasoning = [], loaded_tool_schemas = [], in_orders = []\<rparr>"

theorem responses_history_kept_witness:
  "\<exists>st its. parse_responses_input no_input sample_session = (st, Some []) \<and> concat (map msg_events (in_msgs st)) = sample_said \<and>
     array_value read_item [] (json_ws sample_session) = (its, Some []) \<and> concat (map item_events its) = sample_said \<and>
     no_breaks (concat (map item_thoughts its)) = ''AB'' \<and> list_all chat_msg_wf (in_msgs st)"
proof -
  have "(\<lambda>(st, r). (r, concat (map msg_events (in_msgs st)), no_breaks (thoughts (in_msgs st)))) (parse_responses_input no_input sample_session) =
    (Some [], sample_said, ''AB'')" by code_simp
  then obtain st where st: "parse_responses_input no_input sample_session = (st, Some [])" "concat (map msg_events (in_msgs st)) = sample_said"
    "no_breaks (thoughts (in_msgs st)) = ''AB''" by (auto split: prod.splits)
  show ?thesis using responses_history_kept [OF st(1) [unfolded no_input_def]] st by metis
qed

text \<open>
  Two reasoning items in a row are not merged into the next assistant message: the first becomes a
  message of its own, the call joins that message, and the second thought, which came before the call,
  is placed behind it.  The message before the results then has no calls, so that the request cannot
  continue the live session, as it does with a single reasoning item.
\<close>

theorem second_thought_behind_call:
  "let st = fst (parse_responses_input no_input (''['' @ sample_thought ''A'' @ sample_thought ''B'' @ sample_answered));
       live = (\<lambda>msgs. snd (responses_prepare_live_continuation SERVER_MODEL_SYNTAX_GLM API_RESPONSES msgs [] DS4_THINK_HIGH (id_list_free, None)))
   in map (\<lambda>m. (role m, reasoning m, map tc_id (calls_v (calls m)))) (in_msgs st) =
        [(Some ''assistant'', Some ''A'', [Some ''c1'']), (Some ''assistant'', Some ''B'', []), (Some ''tool'', None, [])] \<and>
      live (in_msgs st) = None \<and> live (in_msgs (fst (parse_responses_input no_input sample_history))) \<noteq> None"
  unfolding Let_def by (intro conjI; code_simp)

end
