(* ===== verification/ApiRequests.thy ===== *)
theory ApiRequests
  imports ResponsesInput
begin

text \<open>
  The four API requests of the server (\<^verbatim>\<open>server.c\<close>): the request record and the parsers of chat,
  Anthropic, Responses and completion bodies, which keep the fields that matter, skip the others, and
  end with a rendered and tokenized prompt.

  The engine's part is a parameter: whether it runs a GLM model, and its tokenizer.  The sampling
  numbers are those read from the body, before they are narrowed to \<^verbatim>\<open>float\<close>.  The conversion of a
  seed to \<^verbatim>\<open>uint64_t\<close> is undefined behind its range, which is a seed of \<^const>\<open>None\<close>.
\<close>

section \<open>The request\<close>

record request =
  rq_kind :: req_kind
  rq_api :: api_style
  rq_model_syntax :: server_model_syntax
  rq_prompt :: "int list"
  rq_model :: "string option"
  rq_model_from_request :: bool
  rq_stops :: stop_list
  rq_raw_body :: "string option"
  rq_prompt_text :: "string option"
  rq_tool_orders :: tool_schema_orders
  rq_max_tokens :: int
  rq_top_k :: int
  rq_temperature :: dbl
  rq_top_p :: dbl
  rq_min_p :: dbl
  rq_temperature_set :: bool
  rq_top_p_set :: bool
  rq_min_p_set :: bool
  rq_top_k_set :: bool
  rq_seed :: "u64 option"
  rq_stream :: bool
  rq_stream_include_usage :: bool
  rq_cache_read_tokens :: int
  rq_cache_write_tokens :: int
  rq_think_mode :: ds4_think_mode
  rq_has_tools :: bool
  rq_prompt_preserves_reasoning :: bool
  rq_reasoning_summary_emit :: bool
  rq_responses_requires_live_tool_state :: bool
  rq_responses_requires_live_reasoning :: bool
  rq_responses_live_call_ids :: stop_list
  rq_responses_live_suffix_text :: "string option"
  rq_anthropic_requires_live_tool_state :: bool
  rq_anthropic_live_call_ids :: stop_list
  rq_anthropic_live_suffix_text :: "string option"
  rq_tool_replay :: tool_replay_stats

definition request_init :: "req_kind \<Rightarrow> int \<Rightarrow> request" where
  "request_init kind max_tokens = \<lparr>rq_kind = kind, rq_api = API_OPENAI, rq_model_syntax = SERVER_MODEL_SYNTAX_DEEPSEEK, rq_prompt = [],
     rq_model = Some ''deepseek-v4-flash'', rq_model_from_request = False, rq_stops = id_list_free, rq_raw_body = None,
     rq_prompt_text = None, rq_tool_orders = [], rq_max_tokens = max_tokens, rq_top_k = 0, rq_temperature = Fin False 1,
     rq_top_p = Fin False 1, rq_min_p = Fin False (5 / 100), rq_temperature_set = False, rq_top_p_set = False, rq_min_p_set = False,
     rq_top_k_set = False, rq_seed = Some 0, rq_stream = False, rq_stream_include_usage = False, rq_cache_read_tokens = 0,
     rq_cache_write_tokens = 0, rq_think_mode = DS4_THINK_HIGH, rq_has_tools = False, rq_prompt_preserves_reasoning = False,
     rq_reasoning_summary_emit = False, rq_responses_requires_live_tool_state = False, rq_responses_requires_live_reasoning = False,
     rq_responses_live_call_ids = id_list_free, rq_responses_live_suffix_text = None, rq_anthropic_requires_live_tool_state = False,
     rq_anthropic_live_call_ids = id_list_free, rq_anthropic_live_suffix_text = None,
     rq_tool_replay = \<lparr>st_mem = 0, st_disk = 0, st_canonical = 0, st_missing_ids = 0\<rparr>\<rparr>"

definition server_model_syntax_for_engine :: "bool \<Rightarrow> server_model_syntax" where
  "server_model_syntax_for_engine is_glm_dsa = (if is_glm_dsa then SERVER_MODEL_SYNTAX_GLM else SERVER_MODEL_SYNTAX_DEEPSEEK)"

abbreviation DS4_THINK_MAX_MIN_CONTEXT :: int where "DS4_THINK_MAX_MIN_CONTEXT \<equiv> 393216"

definition ds4_think_mode_for_context :: "ds4_think_mode \<Rightarrow> int \<Rightarrow> ds4_think_mode" where
  "ds4_think_mode_for_context mode ctx =
     (if mode = DS4_THINK_MAX \<and> (if ctx > 0 then ctx else 0) < DS4_THINK_MAX_MIN_CONTEXT then DS4_THINK_HIGH else mode)"

section \<open>Variables of the parsers\<close>

text \<open>
  The locals all four parsers share.  \<open>pv_system\<close> is \<^verbatim>\<open>system\<close> or \<^verbatim>\<open>instructions\<close>, \<open>pv_got_messages\<close> is
  also \<^verbatim>\<open>got_input\<close>; \<open>pv_error\<close> is the message of a parser that gives up with its own.
\<close>

record parse_vars =
  pv_req :: request
  pv_got_messages :: bool
  pv_tool_choice_none :: bool
  pv_got_thinking :: bool
  pv_thinking_enabled :: bool
  pv_reasoning_effort :: ds4_think_mode
  pv_msgs :: chat_msgs
  pv_system :: "string option"
  pv_tool_schemas :: "string option"
  pv_loaded_schemas :: string
  pv_prompt :: "string option"
  pv_error :: "string option"

definition parse_vars_init :: "request \<Rightarrow> parse_vars" where
  "parse_vars_init r = \<lparr>pv_req = r, pv_got_messages = False, pv_tool_choice_none = False, pv_got_thinking = False, pv_thinking_enabled = True,
     pv_reasoning_effort = DS4_THINK_HIGH, pv_msgs = [], pv_system = None, pv_tool_schemas = None, pv_loaded_schemas = [],
     pv_prompt = None, pv_error = None\<rparr>"

text \<open>A scanner on one of the variables, as a scanner on all of them.\<close>

definition on_var :: "'b scanner \<Rightarrow> ('a \<Rightarrow> 'b) \<Rightarrow> ('b \<Rightarrow> 'a \<Rightarrow> 'a) \<Rightarrow> 'a scanner" where
  "on_var g get put a p = apfst (\<lambda>b. put b a) (g (get a) p)"

definition set_req :: "(request \<Rightarrow> request) \<Rightarrow> parse_vars \<Rightarrow> parse_vars" where
  "set_req f v = v\<lparr>pv_req := f (pv_req v)\<rparr>"

definition seed_of :: "dbl \<Rightarrow> u64 option" where
  "seed_of v = (case v of NaN \<Rightarrow> Some 0 | Inf neg \<Rightarrow> if neg then Some 0 else None
     | Fin neg q \<Rightarrow> if neg \<or> q \<le> 0 then Some 0 else if \<lfloor>q\<rfloor> < 2 ^ 64 then Some (word_of_int \<lfloor>q\<rfloor>) else None)"

section \<open>Fields the APIs share\<close>

definition messages_field :: "chat_msgs scanner \<Rightarrow> parse_vars scanner" where
  "messages_field scan v p = (case scan [] p of (ms, None) \<Rightarrow> (v\<lparr>pv_msgs := ms\<rparr>, None)
     | (ms, Some r) \<Rightarrow> (v\<lparr>pv_msgs := ms, pv_got_messages := True\<rparr>, Some r))"

definition tools_field :: "parse_vars scanner" where
  "tools_field v p = (case parse_tools_value (None, rq_tool_orders (pv_req v)) p of
     ((schemas, orders), r) \<Rightarrow> (set_req (rq_tool_orders_update (\<lambda>_. orders)) (v\<lparr>pv_tool_schemas := schemas\<rparr>), r))"

definition model_field :: "parse_vars scanner" where
  "model_field = store_field json_cstring (\<lambda>s. set_req (\<lambda>r. r\<lparr>rq_model := Some s, rq_model_from_request := True\<rparr>))"

definition max_tokens_field :: "parse_vars scanner" where
  "max_tokens_field = store_field json_int (\<lambda>n. set_req (rq_max_tokens_update (\<lambda>_. n)))"

definition temperature_field :: "parse_vars scanner" where
  "temperature_field = store_field json_number (\<lambda>d. set_req (\<lambda>r. r\<lparr>rq_temperature := d, rq_temperature_set := True\<rparr>))"

definition top_p_field :: "parse_vars scanner" where
  "top_p_field = store_field json_number (\<lambda>d. set_req (\<lambda>r. r\<lparr>rq_top_p := d, rq_top_p_set := True\<rparr>))"

definition min_p_field :: "parse_vars scanner" where
  "min_p_field = store_field json_number (\<lambda>d. set_req (\<lambda>r. r\<lparr>rq_min_p := d, rq_min_p_set := True\<rparr>))"

definition top_k_field :: "parse_vars scanner" where
  "top_k_field = store_field json_int (\<lambda>n. set_req (\<lambda>r. r\<lparr>rq_top_k := n, rq_top_k_set := True\<rparr>))"

definition seed_field :: "parse_vars scanner" where
  "seed_field = store_field json_number (\<lambda>d. set_req (rq_seed_update (\<lambda>_. seed_of d)))"

definition stream_field :: "parse_vars scanner" where
  "stream_field = store_field json_bool (\<lambda>b. set_req (rq_stream_update (\<lambda>_. b)))"

definition stream_options_var :: "parse_vars scanner" where
  "stream_options_var = on_var parse_stream_options (\<lambda>v. rq_stream_include_usage (pv_req v)) (\<lambda>b. set_req (rq_stream_include_usage_update (\<lambda>_. b)))"

definition stop_var :: "parse_vars scanner" where
  "stop_var = on_var parse_stop (\<lambda>v. rq_stops (pv_req v)) (\<lambda>s. set_req (rq_stops_update (\<lambda>_. s)))"

definition thinking_var :: "bool scanner \<Rightarrow> parse_vars scanner" where
  "thinking_var scan = on_var scan pv_thinking_enabled (\<lambda>b v. v\<lparr>pv_thinking_enabled := b, pv_got_thinking := True\<rparr>)"

definition effort_var :: "ds4_think_mode scanner \<Rightarrow> parse_vars scanner" where
  "effort_var scan = on_var scan pv_reasoning_effort (\<lambda>m. pv_reasoning_effort_update (\<lambda>_. m))"

section \<open>Fields of each API\<close>

definition choice_text :: "parse_vars scanner" where
  "choice_text = store_field json_cstring (\<lambda>c. pv_tool_choice_none_update (\<lambda>_. c = ''none''))"

definition chat_tool_choice :: "parse_vars scanner" where
  "chat_tool_choice v p0 = (let p = json_ws p0 in if peek p = CHR 0x22 then choice_text v p else skip_field v p)"

definition chat_field :: "string \<Rightarrow> parse_vars scanner" where
  "chat_field fld =
     (if fld = ''messages'' then messages_field parse_messages
      else if fld = ''tools'' then tools_field
      else if fld = ''tool_choice'' then chat_tool_choice
      else if fld = ''model'' then model_field
      else if fld = ''max_tokens'' \<or> fld = ''max_completion_tokens'' then max_tokens_field
      else if fld = ''temperature'' then temperature_field
      else if fld = ''top_p'' then top_p_field
      else if fld = ''min_p'' then min_p_field
      else if fld = ''top_k'' then top_k_field
      else if fld = ''seed'' then seed_field
      else if fld = ''stream'' then stream_field
      else if fld = ''stream_options'' then stream_options_var
      else if fld = ''thinking'' then thinking_var parse_thinking_control_value
      else if fld = ''reasoning_effort'' then effort_var parse_reasoning_effort_value
      else if fld = ''think'' then thinking_var (store_field json_bool (\<lambda>b _. b))
      else if fld = ''stop'' then stop_var
      else skip_field)"

definition choice_field :: "string \<Rightarrow> parse_vars scanner" where
  "choice_field fld = (if fld = ''type'' then choice_text else skip_field)"

definition anthropic_tool_choice :: "parse_vars scanner" where
  "anthropic_tool_choice v p0 = (let p = json_ws p0 in if peek p = CHR ''{'' then object_value choice_field v p else skip_field v p)"

definition anthropic_field :: "string \<Rightarrow> parse_vars scanner" where
  "anthropic_field fld =
     (if fld = ''messages'' then messages_field parse_anthropic_messages
      else if fld = ''system'' then on_var parse_anthropic_system (\<lambda>_. None) (\<lambda>s. pv_system_update (\<lambda>_. s))
      else if fld = ''tools'' then tools_field
      else if fld = ''tool_choice'' then anthropic_tool_choice
      else if fld = ''model'' then model_field
      else if fld = ''max_tokens'' then max_tokens_field
      else if fld = ''temperature'' then temperature_field
      else if fld = ''top_p'' then top_p_field
      else if fld = ''top_k'' then top_k_field
      else if fld = ''stream'' then stream_field
      else if fld = ''stop_sequences'' then stop_var
      else if fld = ''thinking'' then thinking_var parse_thinking_control_value
      else if fld = ''output_config'' then effort_var parse_output_config_effort
      else if fld = ''reasoning_effort'' then effort_var parse_reasoning_effort_value
      else skip_field)"

text \<open>The effort, whether summaries are wanted, and whether an effort was given.\<close>

type_synonym reasoning_vars = "ds4_think_mode \<times> bool \<times> bool"

definition effort_field :: "reasoning_vars scanner" where
  "effort_field x p0 = (case x of (effort, summary, seen) \<Rightarrow> (let p = json_ws p0 in
     case json_lit p ''null'' of Some r \<Rightarrow> (x, Some r) | None \<Rightarrow>
     (case parse_reasoning_effort_value effort p of
        (m, None) \<Rightarrow> ((m, summary, seen), None) | (m, Some r) \<Rightarrow> ((m, summary, True), Some r))))"

definition summary_field :: "reasoning_vars scanner" where
  "summary_field x p0 = (let p = json_ws p0 in
     case json_lit p ''null'' of Some r \<Rightarrow> (x, Some r) | None \<Rightarrow>
     if peek p = CHR 0x22 then store_field json_cstring
       (\<lambda>mode (effort, summary, seen). (effort, summary \<or> mode = ''auto'' \<or> mode = ''concise'' \<or> mode = ''detailed'', seen)) x p
     else skip_field x p)"

definition responses_reasoning_field :: "string \<Rightarrow> reasoning_vars scanner" where
  "responses_reasoning_field fld = (if fld = ''effort'' then effort_field else if fld = ''summary'' then summary_field else skip_field)"

definition parse_responses_reasoning :: "reasoning_vars scanner" where
  "parse_responses_reasoning x p0 = (let p = json_ws p0 in
     case json_lit p ''null'' of Some r \<Rightarrow> (x, Some r) | None \<Rightarrow>
     if peek p \<noteq> CHR ''{'' then skip_field x p else object_value responses_reasoning_field x p)"

definition user_msg :: "string \<Rightarrow> chat_msg" where
  "user_msg s = chat_msg_zero\<lparr>role := Some ''user'', content := Some s\<rparr>"

definition system_msg :: "string \<Rightarrow> chat_msg" where
  "system_msg s = chat_msg_zero\<lparr>role := Some ''system'', content := Some s\<rparr>"

definition input_field :: "parse_vars scanner" where
  "input_field v p0 = (let p = json_ws p0 in
     if peek p = CHR 0x22 then store_field json_cstring (\<lambda>s v. v\<lparr>pv_msgs := [user_msg s], pv_got_messages := True\<rparr>) v p
     else (case parse_responses_input \<lparr>in_msgs = [], pending_reasoning = [], loaded_tool_schemas = pv_loaded_schemas v,
                 in_orders = rq_tool_orders (pv_req v)\<rparr> p of
         (st, None) \<Rightarrow> (v, None)
       | (st, Some r) \<Rightarrow> (set_req (rq_tool_orders_update (\<lambda>_. in_orders st))
             (v\<lparr>pv_msgs := in_msgs st, pv_loaded_schemas := loaded_tool_schemas st, pv_got_messages := True\<rparr>), Some r)))"

definition instructions_field :: "parse_vars scanner" where
  "instructions_field v p0 = (let p = json_ws p0 in
     case json_lit p ''null'' of Some r \<Rightarrow> (v\<lparr>pv_system := Some []\<rparr>, Some r) | None \<Rightarrow>
     store_field json_cstring (\<lambda>s. pv_system_update (\<lambda>_. Some s)) v p)"

definition responses_tool_choice :: "parse_vars scanner" where
  "responses_tool_choice v p0 = (let p = json_ws p0 in
     if peek p = CHR 0x22 then (case json_cstring p of None \<Rightarrow> (v, None) | Some (choice, r) \<Rightarrow>
       if choice = ''none'' then (v\<lparr>pv_tool_choice_none := True\<rparr>, Some r)
       else if choice \<noteq> ''auto'' then (v\<lparr>pv_error := Some (''tool_choice='' @ choice @ '' not supported'')\<rparr>, None)
       else (v, Some r))
     else if peek p = CHR ''{'' then (v\<lparr>pv_error := Some ''forced tool_choice not supported''\<rparr>, None)
     else skip_field v p)"

definition reasoning_field :: "parse_vars scanner" where
  "reasoning_field v p = (case parse_responses_reasoning (pv_reasoning_effort v, rq_reasoning_summary_emit (pv_req v), False) p of
     ((effort, summary, seen), r) \<Rightarrow>
       (let v1 = set_req (rq_reasoning_summary_emit_update (\<lambda>_. summary)) (v\<lparr>pv_reasoning_effort := effort\<rparr>) in
        (if seen then v1\<lparr>pv_got_thinking := True, pv_thinking_enabled := (effort \<noteq> DS4_THINK_NONE \<and> pv_thinking_enabled v1)\<rparr> else v1, r)))"

text \<open>A reference to stored state is refused, by its own name.\<close>

definition stored_state_field :: "string \<Rightarrow> parse_vars scanner" where
  "stored_state_field fld v p = (case json_lit (json_ws p) ''null'' of Some r \<Rightarrow> (v, Some r)
     | None \<Rightarrow> (v\<lparr>pv_error := Some (fld @ '' is not supported; replay full input instead'')\<rparr>, None))"

definition responses_field :: "string \<Rightarrow> parse_vars scanner" where
  "responses_field fld =
     (if fld = ''input'' then input_field
      else if fld = ''instructions'' then instructions_field
      else if fld = ''tools'' then tools_field
      else if fld = ''tool_choice'' then responses_tool_choice
      else if fld = ''model'' then model_field
      else if fld = ''max_output_tokens'' \<or> fld = ''max_tokens'' then max_tokens_field
      else if fld = ''temperature'' then temperature_field
      else if fld = ''top_p'' then top_p_field
      else if fld = ''stream'' then stream_field
      else if fld = ''reasoning'' then reasoning_field
      else if fld = ''previous_response_id'' \<or> fld = ''conversation'' then stored_state_field fld
      else skip_field)"

text \<open>The prompt of a completion: a string, or the first element of a list when that is a string.\<close>

function prompt_rest :: "string \<Rightarrow> string option" where
  "prompt_rest p =
     (if peek p = NUL \<or> peek p = CHR '']'' then Some p
      else (let q = json_ws p in
        if peek q \<noteq> CHR '','' then Some q
        else (case json_skip_value (tl q) of None \<Rightarrow> None
          | Some r \<Rightarrow> if length r < length p then prompt_rest r else None)))"
  by pat_completeness auto

termination prompt_rest
  by (relation "measure length") auto

declare prompt_rest.simps [simp del]

definition close_prompt :: "string \<Rightarrow> string \<Rightarrow> string option \<times> string option" where
  "close_prompt s q = (case prompt_rest q of None \<Rightarrow> (Some s, None)
     | Some r \<Rightarrow> (Some s, if peek r = CHR '']'' then Some (tl r) else None))"

definition parse_prompt :: "string option scanner" where
  "parse_prompt out p0 = (let p = json_ws p0 in
     if peek p = CHR 0x22 then store_field json_cstring (\<lambda>s _. Some s) out p
     else if peek p \<noteq> CHR ''['' then
       (case json_skip_value p of None \<Rightarrow> (out, None) | Some r \<Rightarrow> (Some [], Some r))
     else (let q = json_ws (tl p) in
       if peek q = CHR 0x22 then (case json_cstring q of None \<Rightarrow> (out, None) | Some (s, r) \<Rightarrow> close_prompt s r)
       else if peek q \<noteq> NUL \<and> peek q \<noteq> CHR '']'' then
         (case json_skip_value q of None \<Rightarrow> (Some [], None) | Some r \<Rightarrow> close_prompt [] r)
       else close_prompt [] q))"

definition completion_field :: "string \<Rightarrow> parse_vars scanner" where
  "completion_field fld =
     (if fld = ''prompt'' then on_var parse_prompt (\<lambda>_. None) (\<lambda>s. pv_prompt_update (\<lambda>_. s))
      else if fld = ''model'' then model_field
      else if fld = ''max_tokens'' then max_tokens_field
      else if fld = ''temperature'' then temperature_field
      else if fld = ''top_p'' then top_p_field
      else if fld = ''min_p'' then min_p_field
      else if fld = ''top_k'' then top_k_field
      else if fld = ''seed'' then seed_field
      else if fld = ''stream'' then stream_field
      else if fld = ''stream_options'' then stream_options_var
      else if fld = ''thinking'' then thinking_var parse_thinking_control_value
      else if fld = ''reasoning_effort'' then effort_var parse_reasoning_effort_value
      else if fld = ''think'' then thinking_var (store_field json_bool (\<lambda>b _. b))
      else if fld = ''stop'' then stop_var
      else skip_field)"

section \<open>The parsers\<close>

text \<open>
  What a parser reads beside the body: the engine (\<open>ae_is_glm\<close>, \<open>ae_tokenize\<close> is
  \<^verbatim>\<open>ds4_tokenize_rendered_chat\<close>, \<open>ae_model_id\<close>), the slots of the server, its settings and its checkpoint
  directory, and the size of the error buffer.
\<close>

record api_env =
  ae_is_glm :: bool
  ae_tokenize :: "string \<Rightarrow> int list"
  ae_model_id :: u8
  ae_server :: server
  ae_disable_replay :: bool
  ae_kv :: kv_store
  ae_os :: os
  ae_errlen :: nat

definition api_error :: "api_env \<Rightarrow> string \<Rightarrow> string" where
  "api_error ae msg = take (ae_errlen ae - 1) msg"

text \<open>The end of each parser: the variables of a body that was read to its closing brace, or an error.\<close>

definition body_vars :: "api_env \<Rightarrow> (string \<Rightarrow> parse_vars scanner) \<Rightarrow> parse_vars \<Rightarrow> string \<Rightarrow> string + parse_vars" where
  "body_vars ae f v body = (case object_value f v (json_ws body) of
     (v', None) \<Rightarrow> Inl (api_error ae (or_default (pv_error v') ''invalid JSON request''))
   | (v', Some _) \<Rightarrow> Inr v')"

definition resolve_thinking :: "parse_vars \<Rightarrow> int \<Rightarrow> ds4_think_mode" where
  "resolve_thinking v ctx =
     (let off = (\<not> pv_got_thinking v \<and> model_alias_disables_thinking (rq_model (pv_req v)));
          on = (\<not> pv_got_thinking v \<and> model_alias_enables_thinking (rq_model (pv_req v)));
          enabled1 = (if off then False else pv_thinking_enabled v);
          enabled2 = (if on then True else enabled1)
      in ds4_think_mode_for_context (think_mode_from_enabled enabled2 (pv_reasoning_effort v)) ctx)"

text \<open>The sampled tool texts of earlier turns, restored from checkpoints and attached to the messages.\<close>

definition replay_tools :: "api_env \<Rightarrow> chat_msgs \<Rightarrow> tool_replay_stats \<Rightarrow> tool_memory \<Rightarrow> (chat_msgs \<times> tool_replay_stats \<times> tool_memory) option" where
  "replay_tools ae msgs stats m = do {
     m1 \<leftarrow> kv_cache_restore_tool_memory_for_messages (ae_disable_replay ae) (ae_kv ae) (ae_os ae) (ae_model_id ae) msgs m;
     tool_memory_attach_to_messages (ae_disable_replay ae) msgs stats m1 }"

definition render_request :: "api_env \<Rightarrow> chat_msgs \<Rightarrow> string option \<Rightarrow> tool_schema_orders \<Rightarrow> request \<Rightarrow> request" where
  "render_request ae msgs schemas orders r =
     (let t = render_chat_prompt_text_for_syntax (rq_model_syntax r) msgs schemas orders (rq_think_mode r)
      in r\<lparr>rq_prompt_text := Some t, rq_prompt := ae_tokenize ae t\<rparr>)"

definition active_schemas :: "parse_vars \<Rightarrow> string option" where
  "active_schemas v = (if of_ptr (pv_tool_schemas v) \<noteq> [] \<and> \<not> pv_tool_choice_none v then pv_tool_schemas v else None)"

type_synonym api_result = "((string + request) \<times> tool_memory) option"

definition parse_chat_request :: "api_env \<Rightarrow> string \<Rightarrow> int \<Rightarrow> int \<Rightarrow> tool_memory \<Rightarrow> api_result" where
  "parse_chat_request ae body def_tokens ctx m =
     (let r0 = (request_init REQ_CHAT def_tokens)\<lparr>rq_model_syntax := server_model_syntax_for_engine (ae_is_glm ae)\<rparr> in
      case body_vars ae chat_field (parse_vars_init r0) body of Inl e \<Rightarrow> Some (Inl e, m)
      | Inr v \<Rightarrow>
        if \<not> pv_got_messages v then Some (Inl (api_error ae ''missing messages''), m)
        else do {
          (msgs, stats, m1) \<leftarrow> replay_tools ae (pv_msgs v) (rq_tool_replay (pv_req v)) m;
          let schemas = active_schemas v;
          let r = (pv_req v)\<lparr>rq_has_tools := (schemas \<noteq> None), rq_think_mode := resolve_thinking v ctx, rq_tool_replay := stats,
            rq_prompt_preserves_reasoning := chat_history_uses_tool_context msgs schemas\<rparr>;
          Some (Inr (render_request ae msgs schemas (rq_tool_orders r) r), m1) })"

definition parse_anthropic_request :: "api_env \<Rightarrow> string \<Rightarrow> int \<Rightarrow> int \<Rightarrow> tool_memory \<Rightarrow> api_result" where
  "parse_anthropic_request ae body def_tokens ctx m =
     (let r0 = (request_init REQ_CHAT def_tokens)\<lparr>rq_api := API_ANTHROPIC, rq_model_syntax := server_model_syntax_for_engine (ae_is_glm ae)\<rparr> in
      case body_vars ae anthropic_field (parse_vars_init r0) body of Inl e \<Rightarrow> Some (Inl e, m)
      | Inr v \<Rightarrow>
        if \<not> pv_got_messages v then Some (Inl (api_error ae ''missing messages''), m)
        else (let msgs0 = (if of_ptr (pv_system v) \<noteq> [] then chat_msgs_push (pv_msgs v) (system_msg (of_ptr (pv_system v))) else pv_msgs v);
                  mode = resolve_thinking v ctx in
          case anthropic_validate_tool_results (\<lambda>i. anthropic_live_has_call_id (ae_server ae) (Some i)) msgs0 (ae_errlen ae) of
            Inl e \<Rightarrow> Some (Inl e, m)
          | Inr need_live \<Rightarrow> do {
              (msgs, stats, m1) \<leftarrow> replay_tools ae msgs0 (rq_tool_replay (pv_req v)) m;
              let schemas = active_schemas v;
              let live = anthropic_prepare_live_continuation (rq_model_syntax (pv_req v)) (rq_api (pv_req v)) msgs (rq_tool_orders (pv_req v)) mode
                (rq_anthropic_live_call_ids (pv_req v), rq_anthropic_live_suffix_text (pv_req v));
              let r = (pv_req v)\<lparr>rq_has_tools := (schemas \<noteq> None), rq_think_mode := mode, rq_anthropic_requires_live_tool_state := need_live,
                rq_tool_replay := stats, rq_anthropic_live_call_ids := fst live, rq_anthropic_live_suffix_text := snd live,
                rq_prompt_preserves_reasoning := chat_history_uses_tool_context msgs schemas\<rparr>;
              Some (Inr (render_request ae msgs schemas (rq_tool_orders r) r), m1) }))"

text \<open>Schemas of the request, then those that search results loaded.\<close>

definition combined_schemas :: "parse_vars \<Rightarrow> string" where
  "combined_schemas v = of_ptr (pv_tool_schemas v) @
     (if pv_loaded_schemas v = [] then [] else (if of_ptr (pv_tool_schemas v) = [] then [] else nl) @ pv_loaded_schemas v)"

definition parse_responses_request :: "api_env \<Rightarrow> string \<Rightarrow> int \<Rightarrow> int \<Rightarrow> tool_memory \<Rightarrow> api_result" where
  "parse_responses_request ae body def_tokens ctx m =
     (let r0 = (request_init REQ_CHAT def_tokens)\<lparr>rq_api := API_RESPONSES, rq_model_syntax := server_model_syntax_for_engine (ae_is_glm ae)\<rparr> in
      case body_vars ae responses_field (parse_vars_init r0) body of Inl e \<Rightarrow> Some (Inl e, m)
      | Inr v \<Rightarrow>
        if \<not> pv_got_messages v then Some (Inl (api_error ae ''missing input''), m)
        else (let msgs0 = (if of_ptr (pv_system v) \<noteq> [] then system_msg (of_ptr (pv_system v)) # pv_msgs v else pv_msgs v);
                  schemas = (if \<not> pv_tool_choice_none v \<and> combined_schemas v \<noteq> [] then Some (combined_schemas v) else None);
                  mode = resolve_thinking v ctx in
          case responses_validate_tool_outputs (\<lambda>i. responses_live_has_call_id (ae_server ae) (Some i)) msgs0 mode (ae_errlen ae) of
            Inl e \<Rightarrow> Some (Inl e, m)
          | Inr (need_live, need_reasoning) \<Rightarrow> do {
              (msgs, stats, m1) \<leftarrow> replay_tools ae msgs0 (rq_tool_replay (pv_req v)) m;
              let live = responses_prepare_live_continuation (rq_model_syntax (pv_req v)) (rq_api (pv_req v)) msgs (rq_tool_orders (pv_req v)) mode
                (rq_responses_live_call_ids (pv_req v), rq_responses_live_suffix_text (pv_req v));
              let r = (pv_req v)\<lparr>rq_has_tools := (schemas \<noteq> None), rq_think_mode := mode,
                rq_responses_requires_live_tool_state := need_live, rq_responses_requires_live_reasoning := need_reasoning,
                rq_tool_replay := stats, rq_prompt_preserves_reasoning := chat_history_uses_tool_context msgs schemas,
                rq_responses_live_call_ids := fst live, rq_responses_live_suffix_text := snd live\<rparr>;
              Some (Inr (render_request ae msgs schemas (rq_tool_orders r) r), m1) }))"

definition parse_completion_request :: "api_env \<Rightarrow> string \<Rightarrow> int \<Rightarrow> int \<Rightarrow> string + request" where
  "parse_completion_request ae body def_tokens ctx =
     (let r0 = (request_init REQ_COMPLETION def_tokens)\<lparr>rq_model_syntax := server_model_syntax_for_engine (ae_is_glm ae)\<rparr> in
      case body_vars ae completion_field (parse_vars_init r0) body of Inl e \<Rightarrow> Inl e
      | Inr v \<Rightarrow> (case pv_prompt v of None \<Rightarrow> Inl (api_error ae ''missing prompt'')
          | Some s \<Rightarrow> Inr (render_request ae [system_msg ''You are a helpful assistant'', user_msg s] None []
              ((pv_req v)\<lparr>rq_think_mode := resolve_thinking v ctx\<rparr>))))"

end
