(* ===== verification/ApiProofs.thy ===== *)
theory ApiProofs
  imports ApiRequests
begin

text \<open>
  Proofs about the API requests: every field parser consumes its value, an accepted request is well
  formed, and the suffix of a live continuation completes the prompt of a full replay.
\<close>

section \<open>Every parser consumes its value\<close>

lemma on_var_scanner [scanner_intros]: "value_scanner g \<Longrightarrow> value_scanner (on_var g get put)"
  by (rule value_scannerI) (auto simp: on_var_def apfst_def map_prod_def split: prod.splits dest: value_scanner.progress)

lemmas scanner_number [scanner_intros] = scanner_store [where scan = json_number, OF json_number_length]

lemma parse_messages_scanners [scanner_intros]: "value_scanner parse_messages" "value_scanner parse_anthropic_messages"
  unfolding parse_messages_def [abs_def] parse_anthropic_messages_def [abs_def] by (intro scanner_ws scanner_array)+

lemma messages_field_scanner [scanner_intros]: "value_scanner g \<Longrightarrow> value_scanner (messages_field g)"
  by (rule value_scannerI) (auto simp: messages_field_def split: prod.splits option.splits dest: value_scanner.progress)


lemma parse_stop_scanner [scanner_intros]: "value_scanner parse_stop"
proof (rule value_scannerI)
  fix sl p sl' r assume "parse_stop sl p = (sl', Some r)"
  moreover have "value_scanner push_stop_field" unfolding push_stop_field_def by (intro scanner_intros)
  ultimately have "length r < length (json_ws p)"
    using value_scanner.progress [OF scanner_array, of stop_item] value_scanner.progress [OF scanner_skip]
    by (auto simp: parse_stop_def Let_def split: if_splits dest: value_scanner.progress)
  then show "length r < length p" using length_json_ws [of p] by linarith
qed

lemma parse_stream_options_scanner [scanner_intros]: "value_scanner parse_stream_options"
  unfolding parse_stream_options_def [abs_def] Let_def
  by (rule scanner_ws [where g = "\<lambda>b p. if peek p \<noteq> CHR ''{'' then skip_field b p else object_value stream_options_field b p"])
    (intro scanner_if_at scanner_intros)

lemma thinking_control_scanner [scanner_intros]: "value_scanner parse_thinking_control_value"
  unfolding parse_thinking_control_value_def [abs_def] Let_def
  by (rule scanner_ws [where g = "\<lambda>en p. case json_lit p ''null'' of Some r \<Rightarrow> (en, Some r) | None \<Rightarrow>
        if peek p = CHR ''t'' \<or> peek p = CHR ''f'' then store_field json_bool (\<lambda>b _. b) en p
        else if peek p \<noteq> CHR ''{'' then skip_field en p else object_value thinking_field en p"])
    (intro scanner_null [where h = "\<lambda>x. x"] scanner_if_at scanner_intros)

lemma output_config_scanner [scanner_intros]: "value_scanner parse_output_config_effort"
  unfolding parse_output_config_effort_def [abs_def] Let_def
  by (rule scanner_ws [where g = "\<lambda>m p. case json_lit p ''null'' of Some r \<Rightarrow> (m, Some r) | None \<Rightarrow>
        if peek p \<noteq> CHR ''{'' then skip_field m p else object_value output_config_field m p"])
    (intro scanner_null [where h = "\<lambda>x. x"] scanner_if_at scanner_intros)

lemma tools_field_scanner [scanner_intros]: "value_scanner tools_field"
proof (rule value_scannerI)
  fix v p v' r assume "tools_field v p = (v', Some r)"
  then have "length r < length (json_ws p)"
    using value_scanner.progress [OF scanner_array, of tool_item]
    by (auto simp: tools_field_def parse_tools_value_def Let_def split: prod.splits option.splits dest: json_lit_length)
  then show "length r < length p" using length_json_ws [of p] by linarith
qed

lemma anthropic_system_scanner [scanner_intros]: "value_scanner parse_anthropic_system"
proof (rule value_scannerI)
  fix out p out' r assume "parse_anthropic_system out p = (out', Some r)"
  moreover have "value_scanner system_part_field" unfolding system_part_field_def by (intro scanner_intros)
  ultimately have "length r < length (json_ws p)"
    using value_scanner.progress [OF scanner_array, of system_item] value_scanner.progress [OF scanner_skip]
    by (auto simp: parse_anthropic_system_def Let_def split: if_splits prod.splits option.splits dest: value_scanner.progress json_lit_length)
  then show "length r < length p" using length_json_ws [of p] by linarith
qed

lemmas common_field_defs = model_field_def max_tokens_field_def temperature_field_def top_p_field_def min_p_field_def top_k_field_def
  seed_field_def stream_field_def stream_options_var_def stop_var_def thinking_var_def effort_var_def choice_text_def

lemma chat_tool_choice_scanner [scanner_intros]: "value_scanner chat_tool_choice"
  unfolding chat_tool_choice_def [abs_def] Let_def common_field_defs
  by (rule scanner_ws [where g = "\<lambda>v p. if peek p = CHR 0x22 then _ v p else _ v p"]) (intro scanner_if_at scanner_intros)

interpretation chat: field_scanner chat_field
  unfolding chat_field_def common_field_defs by (intro field_scannerI scanner_intros)

lemma anthropic_tool_choice_scanner [scanner_intros]: "value_scanner anthropic_tool_choice"
  unfolding anthropic_tool_choice_def [abs_def] Let_def
  by (rule scanner_ws [where g = "\<lambda>v p. if peek p = CHR ''{'' then _ v p else _ v p"]) (intro scanner_if_at scanner_intros)

interpretation anthropic_choice: field_scanner choice_field
  unfolding choice_field_def common_field_defs by (intro field_scannerI scanner_intros)

interpretation anthropic: field_scanner anthropic_field
  unfolding anthropic_field_def common_field_defs by (intro field_scannerI scanner_intros)

lemma effort_field_scanner [scanner_intros]: "value_scanner effort_field"
proof (rule value_scannerI)
  fix x p x' r assume "effort_field x p = (x', Some r)"
  then have "length r < length (json_ws p)"
    using value_scanner.progress [OF parse_reasoning_effort_value_scanner]
    by (auto simp: effort_field_def Let_def split: prod.splits option.splits dest: json_lit_length)
  then show "length r < length p" using length_json_ws [of p] by linarith
qed

lemma summary_field_scanner [scanner_intros]: "value_scanner summary_field"
  unfolding summary_field_def [abs_def] Let_def
  by (rule scanner_ws [where g = "\<lambda>x p. case json_lit p ''null'' of Some r \<Rightarrow> (x, Some r) | None \<Rightarrow> if peek p = CHR 0x22 then _ x p else _ x p"])
    (intro scanner_null [where h = "\<lambda>x. x"] scanner_if_at scanner_intros)

interpretation responses_reasoning: field_scanner responses_reasoning_field
  unfolding responses_reasoning_field_def by (intro field_scannerI scanner_intros)

lemma parse_responses_reasoning_scanner: "value_scanner parse_responses_reasoning"
  unfolding parse_responses_reasoning_def [abs_def] Let_def
  by (rule scanner_ws [where g = "\<lambda>x p. case json_lit p ''null'' of Some r \<Rightarrow> (x, Some r) | None \<Rightarrow>
        if peek p \<noteq> CHR ''{'' then skip_field x p else object_value responses_reasoning_field x p"])
    (intro scanner_null [where h = "\<lambda>x. x"] scanner_if_at scanner_intros)

lemma reasoning_field_scanner [scanner_intros]: "value_scanner reasoning_field"
  using value_scanner.progress [OF parse_responses_reasoning_scanner]
  by (intro value_scannerI) (auto simp: reasoning_field_def Let_def split: prod.splits)

lemma parse_responses_input_scanner: "value_scanner parse_responses_input"
proof (rule value_scannerI)
  fix st p st' r assume "parse_responses_input st p = (st', Some r)"
  then have "length r < length (json_ws p)"
    using value_scanner.progress [OF scanner_array, of responses_input_item]
    by (auto simp: parse_responses_input_def split: prod.splits option.splits)
  then show "length r < length p" using length_json_ws [of p] by linarith
qed

lemma input_field_scanner [scanner_intros]: "value_scanner input_field"
proof (rule value_scannerI)
  fix v p v' r assume "input_field v p = (v', Some r)"
  then have "length r < length (json_ws p)"
    using value_scanner.progress [OF parse_responses_input_scanner]
    by (auto simp: input_field_def Let_def store_field_def split: if_splits prod.splits option.splits dest: json_cstring_length)
  then show "length r < length p" using length_json_ws [of p] by linarith
qed

lemma instructions_field_scanner [scanner_intros]: "value_scanner instructions_field"
  unfolding instructions_field_def [abs_def] Let_def
  by (rule scanner_ws [where g = "\<lambda>v p. case json_lit p ''null'' of Some r \<Rightarrow> (v\<lparr>pv_system := Some []\<rparr>, Some r) | None \<Rightarrow> _ v p"])
    (intro scanner_null scanner_intros)

lemma responses_tool_choice_scanner [scanner_intros]: "value_scanner responses_tool_choice"
proof (rule value_scannerI)
  fix v p v' r assume "responses_tool_choice v p = (v', Some r)"
  then have "length r < length (json_ws p)"
    by (auto simp: responses_tool_choice_def Let_def skip_field_def split: if_splits prod.splits option.splits
        dest: json_cstring_length json_skip_value_length)
  then show "length r < length p" using length_json_ws [of p] by linarith
qed

lemma stored_state_field_scanner [scanner_intros]: "value_scanner (stored_state_field fld)"
proof (rule value_scannerI)
  fix v p v' r assume "stored_state_field fld v p = (v', Some r)"
  then have "length r < length (json_ws p)" by (auto simp: stored_state_field_def split: option.splits dest: json_lit_length)
  then show "length r < length p" using length_json_ws [of p] by linarith
qed

interpretation responses: field_scanner responses_field
  unfolding responses_field_def common_field_defs by (intro field_scannerI scanner_intros)

lemma prompt_rest_length: "prompt_rest p = Some r \<Longrightarrow> length r \<le> length p"
proof (induction p rule: prompt_rest.induct)
  case (1 p)
  show ?case using 1(1) [OF _ refl] 1(2) length_json_ws [of p]
    by (fastforce simp: prompt_rest.simps [of p] Let_def split: if_splits option.splits)
qed

text \<open>The loop of \<^verbatim>\<open>parse_prompt\<close> consumes its commas, so the test on the lengths decides nothing.\<close>

lemma prompt_rest_step:
  "prompt_rest p = (if peek p = NUL \<or> peek p = CHR '']'' then Some p
      else (let q = json_ws p in if peek q \<noteq> CHR '','' then Some q
        else (case json_skip_value (tl q) of None \<Rightarrow> None | Some r \<Rightarrow> prompt_rest r)))"
proof -
  have "length r < length p" if "json_skip_value (tl (json_ws p)) = Some r" for r
    using json_skip_value_length [OF that] length_json_ws [of p] by simp
  then show ?thesis by (auto simp: prompt_rest.simps [of p] Let_def split: option.splits)
qed

lemma close_prompt_length: "close_prompt s q = (x, Some r) \<Longrightarrow> length r < length q"
proof -
  assume a: "close_prompt s q = (x, Some r)"
  then obtain y where y: "prompt_rest q = Some y" "peek y = CHR '']''" "r = tl y"
    by (auto simp: close_prompt_def split: option.splits if_splits)
  then have "length r < length y" by (cases y) (auto simp: peek_def)
  then show ?thesis using prompt_rest_length [OF y(1)] by linarith
qed

lemma parse_prompt_scanner [scanner_intros]: "value_scanner parse_prompt"
proof (rule value_scannerI)
  fix out p out' r assume "parse_prompt out p = (out', Some r)"
  then have "length r < length (json_ws p) \<or> length r < length (json_ws (tl (json_ws p)))"
    by (auto simp: parse_prompt_def Let_def store_field_def split: if_splits option.splits prod.splits
        dest!: json_cstring_length json_skip_value_length close_prompt_length)
  then show "length r < length p"
    using length_json_ws [of p] length_json_ws [of "tl (json_ws p)"] length_tl [of "json_ws p"] by linarith
qed

interpretation completion: field_scanner completion_field
  unfolding completion_field_def common_field_defs by (intro field_scannerI scanner_intros)

section \<open>Requests are well formed\<close>

text \<open>
  What the fields of a body keep of a request: numbers in range, stop sequences that can be streamed,
  one order per tool name, and the parts that are only filled in at the end.
\<close>

definition request_ok :: "req_kind \<Rightarrow> api_style \<Rightarrow> server_model_syntax \<Rightarrow> request \<Rightarrow> bool" where
  "request_ok kind api syn r \<longleftrightarrow> 0 \<le> rq_max_tokens r \<and> rq_max_tokens r \<le> INT_MAX \<and> 0 \<le> rq_top_k r \<and> rq_top_k r \<le> INT_MAX \<and>
     stop_list_wf (rq_stops r) \<and> orders_wf (rq_tool_orders r) \<and> rq_kind r = kind \<and> rq_api r = api \<and> rq_model_syntax r = syn"

definition not_live :: "request \<Rightarrow> bool" where
  "not_live r \<longleftrightarrow> rq_responses_live_call_ids r = id_list_free \<and> rq_responses_live_suffix_text r = None \<and> \<not> rq_responses_requires_live_tool_state r \<and>
     rq_anthropic_live_call_ids r = id_list_free \<and> rq_anthropic_live_suffix_text r = None \<and> \<not> rq_anthropic_requires_live_tool_state r"

definition vars_ok :: "req_kind \<Rightarrow> api_style \<Rightarrow> server_model_syntax \<Rightarrow> parse_vars \<Rightarrow> bool" where
  "vars_ok kind api syn v \<longleftrightarrow> request_ok kind api syn (pv_req v) \<and> not_live (pv_req v)"

lemma pv_req_updates [simp]:
  "pv_req (set_req f v) = f (pv_req v)" "pv_req (v\<lparr>pv_msgs := a\<rparr>) = pv_req v"
  by (simp_all add: set_req_def)

lemma json_clamp_range: "0 \<le> json_clamp_int v \<and> json_clamp_int v \<le> INT_MAX"
  by (auto simp: json_clamp_int_def floor_le_iff split: dbl.splits)

lemma json_int_clamped: "json_int p = Some (n, r) \<Longrightarrow> 0 \<le> n \<and> n \<le> INT_MAX"
  using json_clamp_range by (auto simp: json_int_def split: option.splits prod.splits)

lemma store_int_invariant:
  "(\<And>n. 0 \<le> n \<Longrightarrow> n \<le> INT_MAX \<Longrightarrow> I (put n a)) \<Longrightarrow> I a \<Longrightarrow> I (fst (store_field json_int put a p))"
  by (auto simp: store_field_def split: option.splits dest: json_int_clamped)

lemma on_var_invariant: "I (put (fst (g (get a) p)) a) \<Longrightarrow> I (fst (on_var g get put a p))"
  by (simp add: on_var_def)

lemma vars_ok_messages: "vars_ok kind api syn v \<Longrightarrow> vars_ok kind api syn (fst (messages_field g v p))"
  by (auto simp: messages_field_def vars_ok_def split: prod.splits option.splits)

lemma vars_ok_tools: "vars_ok kind api syn v \<Longrightarrow> vars_ok kind api syn (fst (tools_field v p))"
  using tool_orders_unique [of "rq_tool_orders (pv_req v)" None p]
  by (auto simp: tools_field_def vars_ok_def request_ok_def not_live_def split: prod.splits)

lemma vars_ok_common:
  assumes "vars_ok kind api syn v"
  shows "vars_ok kind api syn (fst (model_field v p))" "vars_ok kind api syn (fst (max_tokens_field v p))"
    "vars_ok kind api syn (fst (temperature_field v p))" "vars_ok kind api syn (fst (top_p_field v p))"
    "vars_ok kind api syn (fst (min_p_field v p))" "vars_ok kind api syn (fst (top_k_field v p))"
    "vars_ok kind api syn (fst (seed_field v p))" "vars_ok kind api syn (fst (stream_field v p))"
    "vars_ok kind api syn (fst (stream_options_var v p))" "vars_ok kind api syn (fst (stop_var v p))"
    "vars_ok kind api syn (fst (thinking_var g v p))" "vars_ok kind api syn (fst (effort_var h v p))"
    "vars_ok kind api syn (fst (choice_text v p))"
proof -
  note ok = assms [unfolded vars_ok_def request_ok_def not_live_def]
  note defs = vars_ok_def request_ok_def not_live_def
  show "vars_ok kind api syn (fst (model_field v p))" unfolding model_field_def by (rule store_field_invariant) (simp_all add: defs ok)
  show "vars_ok kind api syn (fst (temperature_field v p))" unfolding temperature_field_def by (rule store_field_invariant) (simp_all add: defs ok)
  show "vars_ok kind api syn (fst (top_p_field v p))" unfolding top_p_field_def by (rule store_field_invariant) (simp_all add: defs ok)
  show "vars_ok kind api syn (fst (min_p_field v p))" unfolding min_p_field_def by (rule store_field_invariant) (simp_all add: defs ok)
  show "vars_ok kind api syn (fst (seed_field v p))" unfolding seed_field_def by (rule store_field_invariant) (simp_all add: defs ok)
  show "vars_ok kind api syn (fst (stream_field v p))" unfolding stream_field_def by (rule store_field_invariant) (simp_all add: defs ok)
  show "vars_ok kind api syn (fst (choice_text v p))" unfolding choice_text_def by (rule store_field_invariant) (simp_all add: defs ok)
  show "vars_ok kind api syn (fst (max_tokens_field v p))" unfolding max_tokens_field_def by (rule store_int_invariant) (simp_all add: defs ok)
  show "vars_ok kind api syn (fst (top_k_field v p))" unfolding top_k_field_def by (rule store_int_invariant) (simp_all add: defs ok)
  show "vars_ok kind api syn (fst (stream_options_var v p))" unfolding stream_options_var_def by (rule on_var_invariant) (simp add: defs ok)
  show "vars_ok kind api syn (fst (stop_var v p))" unfolding stop_var_def by (rule on_var_invariant) (simp add: defs ok parse_stop_wf)
  show "vars_ok kind api syn (fst (thinking_var g v p))" unfolding thinking_var_def by (rule on_var_invariant) (simp add: defs ok)
  show "vars_ok kind api syn (fst (effort_var h v p))" unfolding effort_var_def by (rule on_var_invariant) (simp add: defs ok)
qed

lemma vars_ok_choices:
  assumes "vars_ok kind api syn v"
  shows "vars_ok kind api syn (fst (chat_tool_choice v p))" "vars_ok kind api syn (fst (anthropic_tool_choice v p))"
    "vars_ok kind api syn (fst (responses_tool_choice v p))"
proof -
  have f: "vars_ok kind api syn (fst (choice_field fld w q))" if "vars_ok kind api syn w" for fld w q
    using that by (simp add: choice_field_def vars_ok_common)
  show "vars_ok kind api syn (fst (chat_tool_choice v p))" using assms by (simp add: chat_tool_choice_def Let_def vars_ok_common)
  show "vars_ok kind api syn (fst (anthropic_tool_choice v p))"
    using assms object_value_invariant [of "vars_ok kind api syn" choice_field, OF f] by (simp add: anthropic_tool_choice_def Let_def)
  show "vars_ok kind api syn (fst (responses_tool_choice v p))" using assms
    by (auto simp: responses_tool_choice_def Let_def vars_ok_def split: option.splits)
qed

lemma orders_wf_apply_item: "apply_item it st = Some st' \<Longrightarrow> orders_wf (in_orders st) \<Longrightarrow> orders_wf (in_orders st')"
proof -
  have keep [simp]: "in_orders (flush_reasoning st) = in_orders st" "in_orders (message_of_item it st) = in_orders st"
    "in_orders (append_call tc st) = in_orders st" "in_orders (push_msg m st) = in_orders st" "in_orders (reasoning_of_item it st) = in_orders st"
    for st tc m by (simp_all add: flush_reasoning_def message_of_item_def append_call_def push_msg_def reasoning_of_item_def Let_def)
  have load: "orders_wf (in_orders st2)" if "load_schemas t it st1 = Some st2" "orders_wf (in_orders st1)" for t st1 st2
    using that tool_orders_unique [of "in_orders st1" None]
    by (auto simp: load_schemas_def split: option.splits if_splits prod.splits) (metis fst_conv snd_conv)
  assume "apply_item it st = Some st'" "orders_wf (in_orders st)"
  then show ?thesis unfolding apply_item_def Let_def by (auto split: if_split_asm dest: load)
qed

lemma orders_wf_input:
  assumes "orders_wf (in_orders st)" shows "orders_wf (in_orders (fst (parse_responses_input st p)))"
proof -
  have item: "orders_wf (in_orders (fst (responses_input_item st q)))" if "orders_wf (in_orders st)" for st q
    using that by (auto simp: responses_input_item_def orders_wf_apply_item split: prod.splits option.splits)
  have "orders_wf (in_orders (fst (array_value responses_input_item st (json_ws p))))"
    by (rule array_value_invariant [of "\<lambda>st. orders_wf (in_orders st)", OF item]) (simp_all add: assms)
  then show ?thesis by (auto simp: parse_responses_input_def flush_reasoning_def split: prod.splits option.splits)
qed

lemma vars_ok_responses:
  assumes "vars_ok kind api syn v"
  shows "vars_ok kind api syn (fst (input_field v p))" "vars_ok kind api syn (fst (instructions_field v p))"
    "vars_ok kind api syn (fst (reasoning_field v p))" "vars_ok kind api syn (fst (stored_state_field fld v p))"
proof -
  note ok = assms [unfolded vars_ok_def request_ok_def not_live_def]
  note defs = vars_ok_def request_ok_def not_live_def
  define st0 where "st0 = \<lparr>in_msgs = [], pending_reasoning = [], loaded_tool_schemas = pv_loaded_schemas v, in_orders = rq_tool_orders (pv_req v)\<rparr>"
  have "orders_wf (in_orders (fst (parse_responses_input st0 q)))" for q by (rule orders_wf_input) (simp add: st0_def ok)
  then have ord: "parse_responses_input st0 q = (st, x) \<Longrightarrow> orders_wf (in_orders st)" for q st x by (metis fst_conv)
  have str: "vars_ok kind api syn (fst (store_field json_cstring (\<lambda>s v. v\<lparr>pv_msgs := [user_msg s], pv_got_messages := True\<rparr>) v q))" for q
    by (rule store_field_invariant) (simp_all add: defs ok)
  show "vars_ok kind api syn (fst (input_field v p))" unfolding input_field_def Let_def st0_def [symmetric]
    using str assms by (auto split: prod.splits option.splits dest!: ord simp: defs ok)
  have "vars_ok kind api syn (fst (store_field json_cstring (\<lambda>s. pv_system_update (\<lambda>_. Some s)) v q))" for q
    by (rule store_field_invariant) (simp_all add: defs ok)
  then show "vars_ok kind api syn (fst (instructions_field v p))"
    by (auto simp: instructions_field_def Let_def defs ok split: option.splits)
  show "vars_ok kind api syn (fst (reasoning_field v p))"
    by (auto simp: reasoning_field_def Let_def defs ok split: prod.splits)
  show "vars_ok kind api syn (fst (stored_state_field fld v p))"
    by (auto simp: stored_state_field_def defs ok split: option.splits)
qed

lemma vars_ok_system: "vars_ok kind api syn v \<Longrightarrow> vars_ok kind api syn (fst (on_var g (\<lambda>_. None) (\<lambda>s. pv_system_update (\<lambda>_. s)) v p))"
  by (rule on_var_invariant) (simp add: vars_ok_def)

lemma vars_ok_prompt: "vars_ok kind api syn v \<Longrightarrow> vars_ok kind api syn (fst (on_var g (\<lambda>_. None) (\<lambda>s. pv_prompt_update (\<lambda>_. s)) v p))"
  by (rule on_var_invariant) (simp add: vars_ok_def)

lemma vars_ok_if:
  "vars_ok kind api syn (fst (f v p)) \<Longrightarrow> vars_ok kind api syn (fst (g v p)) \<Longrightarrow> vars_ok kind api syn (fst ((if c then f else g) v p))"
  by simp

lemma vars_ok_skip: "vars_ok kind api syn v \<Longrightarrow> vars_ok kind api syn (fst (skip_field v p))"
  by simp

lemmas vars_ok_intros = vars_ok_if vars_ok_skip vars_ok_messages vars_ok_tools vars_ok_common vars_ok_choices vars_ok_responses vars_ok_system vars_ok_prompt

lemma vars_ok_fields:
  assumes "vars_ok kind api syn v"
  shows "vars_ok kind api syn (fst (chat_field fld v p))" "vars_ok kind api syn (fst (anthropic_field fld v p))"
    "vars_ok kind api syn (fst (responses_field fld v p))" "vars_ok kind api syn (fst (completion_field fld v p))"
  unfolding chat_field_def anthropic_field_def responses_field_def completion_field_def
  by (intro vars_ok_intros assms)+

lemma body_vars_ok:
  assumes "\<And>fld v p. vars_ok kind api syn v \<Longrightarrow> vars_ok kind api syn (fst (f fld v p))"
    and "vars_ok kind api syn (parse_vars_init r0)" "body_vars ae f (parse_vars_init r0) body = Inr v"
  shows "vars_ok kind api syn v"
proof -
  have "vars_ok kind api syn (fst (object_value f (parse_vars_init r0) (json_ws body)))"
    by (rule object_value_invariant [of "vars_ok kind api syn"]) (simp_all add: assms)
  then show ?thesis using assms(3) by (auto simp: body_vars_def split: prod.splits option.splits)
qed

lemma vars_ok_init:
  assumes "0 \<le> n" "n \<le> INT_MAX"
  shows "vars_ok kind api syn (parse_vars_init ((request_init kind n)\<lparr>rq_api := api, rq_model_syntax := syn\<rparr>))"
    "vars_ok kind API_OPENAI syn (parse_vars_init ((request_init kind n)\<lparr>rq_model_syntax := syn\<rparr>))"
  using assms by (simp_all add: vars_ok_def request_ok_def not_live_def parse_vars_init_def request_init_def id_list_free_def
      stop_list_wf_def orders_wf_def)

text \<open>What an accepted request promises to the workers that run it.\<close>

definition accepted_ok :: "api_env \<Rightarrow> int \<Rightarrow> req_kind \<Rightarrow> api_style \<Rightarrow> request \<Rightarrow> bool" where
  "accepted_ok ae ctx kind api r \<longleftrightarrow> request_ok kind api (server_model_syntax_for_engine (ae_is_glm ae)) r \<and>
     (\<exists>t. rq_prompt_text r = Some t \<and> rq_prompt r = ae_tokenize ae t) \<and>
     (rq_think_mode r = DS4_THINK_MAX \<longrightarrow> DS4_THINK_MAX_MIN_CONTEXT \<le> ctx) \<and>
     (api \<noteq> API_RESPONSES \<longrightarrow> stop_v (rq_responses_live_call_ids r) = [] \<and> rq_responses_live_suffix_text r = None \<and> \<not> rq_responses_requires_live_tool_state r) \<and>
     (api \<noteq> API_ANTHROPIC \<longrightarrow> stop_v (rq_anthropic_live_call_ids r) = [] \<and> rq_anthropic_live_suffix_text r = None \<and> \<not> rq_anthropic_requires_live_tool_state r)"

lemma think_max_context: "ds4_think_mode_for_context m ctx = DS4_THINK_MAX \<Longrightarrow> DS4_THINK_MAX_MIN_CONTEXT \<le> ctx"
  by (auto simp: ds4_think_mode_for_context_def split: if_splits)

lemma resolve_max: "resolve_thinking v ctx = DS4_THINK_MAX \<Longrightarrow> DS4_THINK_MAX_MIN_CONTEXT \<le> ctx"
  unfolding resolve_thinking_def Let_def by (rule think_max_context)

lemma accepted_render:
  assumes "request_ok kind api (server_model_syntax_for_engine (ae_is_glm ae)) r" "rq_think_mode r = resolve_thinking v ctx"
    and "api \<noteq> API_RESPONSES \<Longrightarrow> stop_v (rq_responses_live_call_ids r) = [] \<and> rq_responses_live_suffix_text r = None \<and> \<not> rq_responses_requires_live_tool_state r"
    and "api \<noteq> API_ANTHROPIC \<Longrightarrow> stop_v (rq_anthropic_live_call_ids r) = [] \<and> rq_anthropic_live_suffix_text r = None \<and> \<not> rq_anthropic_requires_live_tool_state r"
  shows "accepted_ok ae ctx kind api (render_request ae msgs schemas orders r)"
  using assms resolve_max [of v ctx] by (simp add: accepted_ok_def render_request_def Let_def request_ok_def)

lemma chat_accepted:
  assumes "0 \<le> n" "n \<le> INT_MAX" "parse_chat_request ae body n ctx m = Some (Inr r, m')"
  shows "accepted_ok ae ctx REQ_CHAT API_OPENAI r"
proof -
  obtain v where v: "body_vars ae chat_field (parse_vars_init ((request_init REQ_CHAT n)\<lparr>rq_model_syntax := server_model_syntax_for_engine (ae_is_glm ae)\<rparr>)) body = Inr v"
    using assms(3) by (auto simp: parse_chat_request_def Let_def split: sum.splits)
  note ok = body_vars_ok [OF vars_ok_fields(1) vars_ok_init(2) [OF assms(1,2)] v]
  then show ?thesis using assms(3) v
    by (auto simp: parse_chat_request_def Let_def vars_ok_def request_ok_def not_live_def id_list_free_def split: if_splits Option.bind_splits
        intro!: accepted_render [where v = v])
qed

lemma completion_accepted:
  assumes "0 \<le> n" "n \<le> INT_MAX" "parse_completion_request ae body n ctx = Inr r"
  shows "accepted_ok ae ctx REQ_COMPLETION API_OPENAI r"
proof -
  obtain v where v: "body_vars ae completion_field (parse_vars_init ((request_init REQ_COMPLETION n)\<lparr>rq_model_syntax := server_model_syntax_for_engine (ae_is_glm ae)\<rparr>)) body = Inr v"
    using assms(3) by (auto simp: parse_completion_request_def Let_def split: sum.splits)
  note ok = body_vars_ok [OF vars_ok_fields(4) vars_ok_init(2) [OF assms(1,2)] v]
  then show ?thesis using assms(3) v
    by (auto simp: parse_completion_request_def Let_def vars_ok_def request_ok_def not_live_def id_list_free_def split: option.splits
        intro!: accepted_render [where v = v])
qed

lemma anthropic_accepted:
  assumes "0 \<le> n" "n \<le> INT_MAX" "parse_anthropic_request ae body n ctx m = Some (Inr r, m')"
  shows "accepted_ok ae ctx REQ_CHAT API_ANTHROPIC r"
proof -
  obtain v where v: "body_vars ae anthropic_field (parse_vars_init ((request_init REQ_CHAT n)\<lparr>rq_api := API_ANTHROPIC, rq_model_syntax := server_model_syntax_for_engine (ae_is_glm ae)\<rparr>)) body = Inr v"
    using assms(3) by (auto simp: parse_anthropic_request_def Let_def split: sum.splits)
  note ok = body_vars_ok [OF vars_ok_fields(2) vars_ok_init(1) [OF assms(1,2)] v]
  then show ?thesis using assms(3) v
    by (auto simp: parse_anthropic_request_def Let_def vars_ok_def request_ok_def not_live_def id_list_free_def split: if_splits sum.splits Option.bind_splits
        intro!: accepted_render [where v = v])
qed

lemma responses_accepted:
  assumes "0 \<le> n" "n \<le> INT_MAX" "parse_responses_request ae body n ctx m = Some (Inr r, m')"
  shows "accepted_ok ae ctx REQ_CHAT API_RESPONSES r"
proof -
  obtain v where v: "body_vars ae responses_field (parse_vars_init ((request_init REQ_CHAT n)\<lparr>rq_api := API_RESPONSES, rq_model_syntax := server_model_syntax_for_engine (ae_is_glm ae)\<rparr>)) body = Inr v"
    using assms(3) by (auto simp: parse_responses_request_def Let_def split: sum.splits)
  note ok = body_vars_ok [OF vars_ok_fields(3) vars_ok_init(1) [OF assms(1,2)] v]
  then show ?thesis using assms(3) v
    by (auto simp: parse_responses_request_def Let_def vars_ok_def request_ok_def not_live_def id_list_free_def split: if_splits sum.splits Option.bind_splits
        intro!: accepted_render [where v = v])
qed

text \<open>
  C32.  Whatever the body holds, an accepted request is well formed, for each of the four APIs: token counts
  lie in the range of an int, stop sequences are never empty and their recorded length is exact, tool
  names have one schema order, the prompt is the tokenized prompt text in the template of the engine,
  the deepest thinking mode is only used with a context that is large enough for it, and the marks of a
  live continuation are only set for the API they belong to.
\<close>

theorem accepted_request_wf:
  assumes "0 \<le> n" "n \<le> INT_MAX"
  shows "(parse_chat_request ae body n ctx m = Some (Inr r, m') \<longrightarrow> accepted_ok ae ctx REQ_CHAT API_OPENAI r) \<and>
    (parse_anthropic_request ae body n ctx m = Some (Inr r, m') \<longrightarrow> accepted_ok ae ctx REQ_CHAT API_ANTHROPIC r) \<and>
    (parse_responses_request ae body n ctx m = Some (Inr r, m') \<longrightarrow> accepted_ok ae ctx REQ_CHAT API_RESPONSES r) \<and>
    (parse_completion_request ae body n ctx = Inr r \<longrightarrow> accepted_ok ae ctx REQ_COMPLETION API_OPENAI r)"
  by (intro conjI impI; (rule chat_accepted [OF assms] anthropic_accepted [OF assms] responses_accepted [OF assms] completion_accepted [OF assms]), assumption)

section \<open>A live continuation completes the prompt\<close>

text \<open>Attaching sampled texts changes nothing that decides about continuations.\<close>

definition ids_of :: "chat_msg \<Rightarrow> string option \<times> string option \<times> string list" where
  "ids_of msg = (role msg, tool_call_id msg, tool_call_ids msg)"

lemma attach_message_ids: "attach_message msg x = Some (msg', y) \<Longrightarrow> ids_of msg' = ids_of msg"
  by (auto simp: attach_message_def ids_of_def split: prod.splits if_splits option.splits)

lemma attach_messages_ids: "attach_messages msgs x = Some (msgs', y) \<Longrightarrow> map ids_of msgs' = map ids_of msgs"
  by (induction msgs arbitrary: x msgs' y) (auto split: option.splits prod.splits dest: attach_message_ids)

lemma replay_tools_ids: "replay_tools ae msgs stats m = Some (msgs', y) \<Longrightarrow> map ids_of msgs' = map ids_of msgs"
  by (auto simp: replay_tools_def tool_memory_attach_to_messages_def split: Option.bind_splits if_splits dest: attach_messages_ids)

definition answers :: "chat_msg \<Rightarrow> string set" where
  "answers msg = (set_option (tool_call_id msg) \<union> set (tool_call_ids msg)) - {[]}"

lemma same_ids:
  assumes "map ids_of ms = map ids_of ns"
  shows "list_all is_tool_message ms = list_all is_tool_message ns \<and> \<Union> (answers ` set ms) = \<Union> (answers ` set ns)"
proof -
  define P :: "string option \<times> string option \<times> string list \<Rightarrow> bool" where "P x \<longleftrightarrow> fst x = Some ''tool'' \<or> fst x = Some ''function''" for x
  define Q :: "string option \<times> string option \<times> string list \<Rightarrow> string set" where "Q x = (set_option (fst (snd x)) \<union> set (snd (snd x))) - {[]}" for x
  have "list_all is_tool_message xs = list_all P (map ids_of xs)" for xs
    by (simp add: list_all_iff P_def ids_of_def is_tool_message_def)
  moreover have "map answers xs = map Q (map ids_of xs)" for xs by (simp add: Q_def ids_of_def answers_def)
  ultimately show ?thesis using assms by (metis list.set_map)
qed

lemma collect_answers: "set (stop_v (chat_msg_collect_tool_call_ids msg l)) = set (stop_v l) \<union> answers msg"
  by (auto simp: chat_msg_collect_tool_call_ids_def set_push_all set_push_unique answers_def)

lemma collect_all_answers: "set (stop_v (foldl (\<lambda>l msg. chat_msg_collect_tool_call_ids msg l) l msgs)) = set (stop_v l) \<union> \<Union> (answers ` set msgs)"
  by (induction msgs arbitrary: l) (auto simp: collect_answers)

lemma results_without_calls:
  "list_all (\<lambda>msg. role msg \<noteq> Some ''assistant'') before \<Longrightarrow> list_all (\<lambda>msg. role msg \<noteq> Some ''assistant'' \<and> P msg) msgs \<Longrightarrow>
   snd ` set (result_ids P before msgs) \<subseteq> {None} \<and> fst ` set (result_ids P before msgs) = \<Union> (answers ` set msgs)"
proof (induction msgs arbitrary: before)
  case (Cons msg msgs)
  have "find_prior_call_msg before i = None" for i
    using Cons.prems(1) by (auto simp: find_prior_call_msg_def find_None_iff declares_def list_all_iff)
  then show ?case using Cons.IH [of "msg # before"] Cons.prems by (auto simp: collect_answers id_list_free_def image_Un image_image)
qed simp

lemma results_need_live:
  assumes "list_all is_tool_message msgs" "\<Union> (answers ` set msgs) \<noteq> {}"
    and "validate_loop is_tool_message live needs Map.empty (False, False) msgs = Inr (need_live, need_reasoning)"
  shows need_live
proof -
  have tools: "list_all (\<lambda>msg. role msg \<noteq> Some ''assistant'' \<and> is_tool_message msg) msgs"
    using assms(1) by (auto simp: list_all_iff is_tool_message_def)
  note refs = results_without_calls [of "[]", OF _ tools]
  then obtain i where i: "(i, None) \<in> set (result_ids is_tool_message [] msgs)" using assms(2) by fastforce
  have "reference_validation live needs (result_ids is_tool_message [] msgs) = Inr (need_live, need_reasoning)"
    using assms(3) validate_reference [of Map.empty "[]" is_tool_message live needs False False msgs]
    by (auto simp: find_prior_call_msg_def split: sum.splits)
  then show ?thesis using i by (auto simp: reference_validation_def split: option.splits)
qed

lemma prepared_suffix:
  assumes "responses_prepare_live_continuation syn API_RESPONSES msgs orders mode (ids0, None) = (ids, Some t)"
  defines "start \<equiv> tail_start is_tool_message msgs (length msgs)"
  shows "stop_v ids \<noteq> [] \<and> (start > 0 \<longrightarrow> calls_v (calls (msgs ! (start - 1))) \<noteq> []) \<and>
    (start = 0 \<longrightarrow> list_all is_tool_message msgs \<and> set (stop_v ids) = \<Union> (answers ` set msgs))"
proof -
  have "list_all is_tool_message (drop start msgs)"
    using tail_start_all [of "length msgs" msgs is_tool_message] by (simp add: start_def)
  then show ?thesis using assms(1)
    by (auto simp: responses_prepare_live_continuation_def Let_def start_def [symmetric] collect_all_answers stop_list_clear_def split: if_splits)
qed

lemma suffix_completes_render:
  assumes "responses_prepare_live_continuation syn API_RESPONSES msgs orders mode (ids0, None) = (ids, Some t)"
    and "0 < tail_start is_tool_message msgs (length msgs)"
  shows "\<exists>hist a sent. role a = Some ''assistant'' \<and> set (stop_v ids) = {i. Some i \<in> tc_id ` set (calls_v (calls a))} - {[]} \<and>
    render_chat_prompt_text_for_syntax syn (hist @ [a]) schemas orders mode = sent @ (if syn = SERVER_MODEL_SYNTAX_GLM then [] else EOS) \<and>
    render_chat_prompt_text_for_syntax syn msgs schemas orders mode = sent @ t"
proof -
  define start where "start = tail_start is_tool_message msgs (length msgs)"
  define hist a new where "hist = take (start - 1) msgs" and "a = msgs ! (start - 1)" and "new = drop start msgs"
  have s: "0 < start" "start \<le> length msgs" using assms(2) tail_start_le [of is_tool_message msgs "length msgs"] by (simp_all add: start_def)
  have split: "msgs = hist @ [a] @ new" "length hist + 1 = start"
    using s id_take_nth_drop [of "start - 1" msgs] by (auto simp: hist_def a_def new_def)
  note b = responses_continuation_bound [OF assms(1), folded start_def]
  have a: "role a = Some ''assistant''" "set (stop_v ids) = {i. Some i \<in> tc_id ` set (calls_v (calls a))} - {[]}"
    "t = render_live_tool_tail_for_syntax syn msgs start orders mode" "list_all is_tool_message new"
    using b s(1) by (simp_all add: a_def new_def)
  have "calls_v (calls a) \<noteq> []" using prepared_suffix [OF assms(1), folded start_def] s(1) by (simp add: a_def)
  then have ctx: "chat_history_uses_tool_context (hist @ [a]) schemas" using a(1) by (auto simp: chat_history_uses_tool_context_def)
  have new: "list_all (\<lambda>m. \<not> role_is_system m) new" using a(4) by (auto simp: list_all_iff is_tool_message_def role_is_system_def)
  have "\<exists>sent. render_chat_prompt_text_for_syntax syn (hist @ [a]) schemas orders mode = sent @ (if syn = SERVER_MODEL_SYNTAX_GLM then [] else EOS) \<and>
    render_chat_prompt_text_for_syntax syn msgs schemas orders mode = sent @ t"
    using deepseek_tail [OF ctx a(1) new, of orders mode] glm_tail [OF ctx a(1) new, of orders mode] split a(3)
    by (cases syn) (auto simp: render_chat_prompt_text_for_syntax_def render_live_tool_tail_for_syntax_def)
  then show ?thesis using a(1,2) by blast
qed

text \<open>
  C7.  A Responses request that continues a live session asks for the same text as a full replay: when the
  request carries the calls it answers and a suffix was prepared, its prompt is the rendered
  conversation up to the assistant turn with those calls, followed by the suffix.  In the DeepSeek
  template the suffix repeats the end mark of that turn, which the live session has not seen yet.
\<close>

theorem responses_suffix_completes_prompt:
  assumes "0 \<le> n" "n \<le> INT_MAX" "parse_responses_request ae body n ctx m = Some (Inr r, m')"
    and "rq_responses_live_suffix_text r = Some t" "\<not> rq_responses_requires_live_tool_state r"
  shows "\<exists>hist a schemas sent. role a = Some ''assistant'' \<and>
    set (stop_v (rq_responses_live_call_ids r)) = {i. Some i \<in> tc_id ` set (calls_v (calls a))} - {[]} \<and>
    render_chat_prompt_text_for_syntax (rq_model_syntax r) (hist @ [a]) schemas (rq_tool_orders r) (rq_think_mode r) =
      sent @ (if ae_is_glm ae then [] else EOS) \<and>
    rq_prompt_text r = Some (sent @ t) \<and> rq_prompt r = ae_tokenize ae (sent @ t)"
proof -
  let ?syn = "server_model_syntax_for_engine (ae_is_glm ae)"
  obtain v where v: "body_vars ae responses_field (parse_vars_init ((request_init REQ_CHAT n)\<lparr>rq_api := API_RESPONSES, rq_model_syntax := ?syn\<rparr>)) body = Inr v"
    using assms(3) by (auto simp: parse_responses_request_def Let_def split: sum.splits)
  have ok: "vars_ok REQ_CHAT API_RESPONSES ?syn v" by (rule body_vars_ok [OF vars_ok_fields(3) vars_ok_init(1) [OF assms(1,2)] v])
  define msgs0 where "msgs0 = (if of_ptr (pv_system v) \<noteq> [] then system_msg (of_ptr (pv_system v)) # pv_msgs v else pv_msgs v)"
  define schemas where "schemas = (if \<not> pv_tool_choice_none v \<and> combined_schemas v \<noteq> [] then Some (combined_schemas v) else None)"
  define mode where "mode = resolve_thinking v ctx"
  define orders where "orders = rq_tool_orders (pv_req v)"
  obtain need_reasoning msgs stats where
    val: "responses_validate_tool_outputs (\<lambda>i. responses_live_has_call_id (ae_server ae) (Some i)) msgs0 mode (ae_errlen ae) = Inr (False, need_reasoning)"
    and msgs: "replay_tools ae msgs0 (rq_tool_replay (pv_req v)) m = Some (msgs, stats, m')"
    and prep: "responses_prepare_live_continuation ?syn API_RESPONSES msgs orders mode (id_list_free, None) = (rq_responses_live_call_ids r, Some t)"
    and r: "rq_prompt_text r = Some (render_chat_prompt_text_for_syntax ?syn msgs schemas orders mode)"
      "rq_prompt r = ae_tokenize ae (render_chat_prompt_text_for_syntax ?syn msgs schemas orders mode)"
      "rq_model_syntax r = ?syn" "rq_tool_orders r = orders" "rq_think_mode r = mode"
    using assms(3-5) v ok
    by (auto simp: parse_responses_request_def Let_def vars_ok_def request_ok_def not_live_def render_request_def
        msgs0_def [symmetric] schemas_def [symmetric] mode_def [symmetric] orders_def [symmetric] prod_eq_iff
        split: if_splits sum.splits Option.bind_splits)
  have "0 < tail_start is_tool_message msgs (length msgs)"
  proof (rule ccontr)
    assume "\<not> ?thesis"
    then have t: "list_all is_tool_message msgs" "\<Union> (answers ` set msgs) \<noteq> {}"
      using prepared_suffix [OF prep] by (simp, metis set_empty gr0I)
    have "list_all is_tool_message msgs0" "\<Union> (answers ` set msgs0) \<noteq> {}" using t same_ids [OF replay_tools_ids [OF msgs]] by simp_all
    moreover have "validate_loop is_tool_message (\<lambda>i. responses_live_has_call_id (ae_server ae) (Some i)) (ds4_think_mode_enabled mode)
        Map.empty (False, False) msgs0 = Inr (False, need_reasoning)"
      using val by (auto simp: responses_validate_tool_outputs_def split: sum.splits)
    ultimately show False by (rule results_need_live)
  qed
  from suffix_completes_render [OF prep this, of schemas] obtain hist a sent where h: "role a = Some ''assistant''"
    "set (stop_v (rq_responses_live_call_ids r)) = {i. Some i \<in> tc_id ` set (calls_v (calls a))} - {[]}"
    "render_chat_prompt_text_for_syntax ?syn (hist @ [a]) schemas orders mode = sent @ (if ?syn = SERVER_MODEL_SYNTAX_GLM then [] else EOS)"
    "render_chat_prompt_text_for_syntax ?syn msgs schemas orders mode = sent @ t"
    by (elim exE conjE) (rule that)
  have "(?syn = SERVER_MODEL_SYNTAX_GLM) = ae_is_glm ae" by (simp add: server_model_syntax_for_engine_def)
  with h show ?thesis unfolding r by (intro exI [of _ hist] exI [of _ a] exI [of _ schemas] exI [of _ sent]) simp
qed

section \<open>Samples\<close>

definition no_files :: os where
  "no_files = \<lparr>files = [], clock = (\<lambda>n. 0), ticks = 0, mkdirs = [], mkdir_ok = (\<lambda>_. True), opendir_ok = (\<lambda>_. True), can_read = (\<lambda>_. True),
     can_write = (\<lambda>_. True), can_unlink = (\<lambda>_. True), room = (\<lambda>_. 0),
     flush_ok = (\<lambda>_. True), close_ok = (\<lambda>_. True), truncate_ok = (\<lambda>_. True), rename_ok = (\<lambda>_. True), pid = 7\<rparr>"

definition sample_env :: api_env where
  "sample_env = \<lparr>ae_is_glm = True, ae_tokenize = map (\<lambda>c. int (of_char c)), ae_model_id = 1,
     ae_server = \<lparr>slots = [], queue = [], batched_mode = False, stopping = False, jobs = (\<lambda>_. \<lparr>job_prompt = [],
       responses_requires_live_tool_state = False, anthropic_requires_live_tool_state = False, responses_live_call_ids = id_list_free,
       anthropic_live_call_ids = id_list_free\<rparr>), job_done = (\<lambda>_. False), job_cancel = (\<lambda>_. False), model_busy = False,
       decodes_pending = 0, active_generations = 0, mixed_prefill_quantum = 0, last_prefill_slot = 0\<rparr>,
     ae_disable_replay = True, ae_kv = sample_kv_store, ae_os = no_files, ae_errlen = 160\<rparr>"

definition sample_body :: string where
  "sample_body = ''{'' @ member_text ''input'' sample_history @ '','' @ member_text ''max_output_tokens'' ''7'' @ ''}''"


lemma sample_accepted:
  "\<exists>r m' t. parse_responses_request sample_env sample_body 100 4096 tool_memory_zero = Some (Inr r, m') \<and>
     rq_max_tokens r = 7 \<and> rq_responses_live_suffix_text r = Some t \<and> \<not> rq_responses_requires_live_tool_state r"
proof -
  have "map_option (\<lambda>(x, m'). map_sum (\<lambda>_. ()) (\<lambda>r. (rq_max_tokens r, rq_responses_live_suffix_text r \<noteq> None, rq_responses_requires_live_tool_state r)) x)
     (parse_responses_request sample_env sample_body 100 4096 tool_memory_zero) = Some (Inr (7, True, False))" by code_simp
  then obtain x m' where x: "parse_responses_request sample_env sample_body 100 4096 tool_memory_zero = Some (x, m')"
    "map_sum (\<lambda>_. ()) (\<lambda>r. (rq_max_tokens r, rq_responses_live_suffix_text r \<noteq> None, rq_responses_requires_live_tool_state r)) x = Inr (7, True, False)"
    by auto
  then show ?thesis by (cases x) auto
qed

theorem accepted_request_wf_witness:
  "\<exists>r m'. parse_responses_request sample_env sample_body 100 4096 tool_memory_zero = Some (Inr r, m') \<and> rq_max_tokens r = 7 \<and>
     accepted_ok sample_env 4096 REQ_CHAT API_RESPONSES r"
proof -
  obtain r m' where r: "parse_responses_request sample_env sample_body 100 4096 tool_memory_zero = Some (Inr r, m')" "rq_max_tokens r = 7"
    using sample_accepted by blast
  moreover have "accepted_ok sample_env 4096 REQ_CHAT API_RESPONSES r"
    using accepted_request_wf [of 100 sample_env sample_body 4096 tool_memory_zero r m'] r by simp
  ultimately show ?thesis by blast
qed

theorem responses_suffix_completes_prompt_witness:
  "\<exists>r m' t sent. parse_responses_request sample_env sample_body 100 4096 tool_memory_zero = Some (Inr r, m') \<and>
     rq_responses_live_suffix_text r = Some t \<and> rq_prompt_text r = Some (sent @ t)"
proof -
  obtain r m' t where r: "parse_responses_request sample_env sample_body 100 4096 tool_memory_zero = Some (Inr r, m')"
    "rq_responses_live_suffix_text r = Some t" "\<not> rq_responses_requires_live_tool_state r"
    using sample_accepted by blast
  from responses_suffix_completes_prompt [OF _ _ this] obtain sent where "rq_prompt_text r = Some (sent @ t)" by auto
  with r(1,2) show ?thesis by blast
qed

section \<open>Deviations\<close>

text \<open>
  A seed of two to the power of 64 or more is converted to \<^verbatim>\<open>uint64_t\<close> without a check, which C leaves
  undefined; every smaller positive seed is its integer part, and any other number is 0.
\<close>

theorem seed_conversion:
  "rq_seed (pv_req (fst (seed_field v ''1e20,''))) = None \<and>
   seed_of (Fin False q) = (if q < 2 ^ 64 then Some (if q \<le> 0 then 0 else word_of_int \<lfloor>q\<rfloor>) else None) \<and>
   seed_of (Fin True q) = Some 0"
proof -
  have "json_number ''1e20,'' = Some (Fin False 100000000000000000000, '','')" by code_simp
  then have "rq_seed (pv_req (fst (seed_field v ''1e20,''))) = seed_of (Fin False 100000000000000000000)"
    by (simp add: seed_field_def store_field_def)
  moreover have "\<lfloor>q\<rfloor> < 2 ^ 64 \<longleftrightarrow> q < 2 ^ 64" by (simp add: floor_less_iff)
  ultimately show ?thesis by (auto simp: seed_of_def)
qed

text \<open>
  The comment of the Responses parser says that the efforts minimal and none disable thinking; minimal
  does not: it is an effort like the others, and thinking stays on for every context.
\<close>

theorem minimal_effort_keeps_thinking:
  "resolve_thinking (fst (reasoning_field (parse_vars_init r) (''{'' @ member_text ''effort'' (dq @ ''minimal'' @ dq) @ ''}''))) ctx = DS4_THINK_HIGH \<and>
   resolve_thinking (fst (reasoning_field (parse_vars_init r) (''{'' @ member_text ''effort'' (dq @ ''none'' @ dq) @ ''}''))) ctx = DS4_THINK_NONE"
proof -
  have e: "parse_responses_reasoning (DS4_THINK_HIGH, s, False) (''{'' @ member_text ''effort'' (dq @ ''minimal'' @ dq) @ ''}'') = ((DS4_THINK_HIGH, s, True), Some [])"
    "parse_responses_reasoning (DS4_THINK_HIGH, s, False) (''{'' @ member_text ''effort'' (dq @ ''none'' @ dq) @ ''}'') = ((DS4_THINK_NONE, s, True), Some [])"
    for s by (cases s; code_simp)+
  have v: "pv_reasoning_effort (parse_vars_init r) = DS4_THINK_HIGH" "pv_thinking_enabled (parse_vars_init r)"
    by (simp_all add: parse_vars_init_def)
  show ?thesis unfolding reasoning_field_def v e
    by (simp add: Let_def resolve_thinking_def set_req_def v think_mode_from_enabled_def ds4_think_mode_for_context_def)
qed

end
