(* ===== verification/DecodeTracker.thy ===== *)
theory DecodeTracker
  imports Generated
begin

text \<open>
  Following generated text while it is sampled (\<^verbatim>\<open>server.c\<close>): the tracker that tells whether the next token
  belongs to the syntax of a tool call or to its payload, and the state that tells whether the model is
  thinking.  Both see the text grow token by token; \<open>raw\<close> is the text so far and its length is
  \<^verbatim>\<open>raw_len\<close>.
\<close>

section \<open>Text that arrives in pieces\<close>

text \<open>A consumer is given the whole text so far after each piece.\<close>

fun feed_pieces :: "('s \<Rightarrow> string \<Rightarrow> 's) \<Rightarrow> 's \<Rightarrow> string \<Rightarrow> string list \<Rightarrow> 's" where
  "feed_pieces upd s t [] = s"
| "feed_pieces upd s t (piece # pieces) = feed_pieces upd (upd s (t @ piece)) (t @ piece) pieces"

text \<open>
  The contract of a consumer that resumes where it stopped: an update on part of the text does not change what
  the update on the whole gives, if the part ends at a cut the consumer can bear.
\<close>

locale growing_text =
  fixes upd :: "'s \<Rightarrow> string \<Rightarrow> 's" and inv :: "string \<Rightarrow> 's \<Rightarrow> bool" and cut :: "string \<Rightarrow> bool"
  assumes inv_grow: "inv t s \<Longrightarrow> prefix t t' \<Longrightarrow> inv t' s"
    and upd_inv: "inv t s \<Longrightarrow> cut t \<Longrightarrow> inv t (upd s t)"
    and upd_twice: "inv t s \<Longrightarrow> cut t \<Longrightarrow> prefix t t' \<Longrightarrow> upd (upd s t) t' = upd s t'"
begin

lemma feed_whole:
  "inv t s \<Longrightarrow> pieces \<noteq> [] \<Longrightarrow> (\<And>k. 0 < k \<Longrightarrow> k < length pieces \<Longrightarrow> cut (t @ concat (take k pieces))) \<Longrightarrow>
   feed_pieces upd s t pieces = upd s (t @ concat pieces)"
proof (induction pieces arbitrary: s t)
  case (Cons piece pieces)
  show ?case
  proof (cases "pieces = []")
    case False
    have cut: "cut (t @ piece)" using Cons.prems(3) [of 1] False by simp
    have cuts: "cut ((t @ piece) @ concat (take k pieces))" if "k < length pieces" for k
      using Cons.prems(3) [of "Suc k"] that by simp
    have inv: "inv (t @ piece) s" using inv_grow [OF Cons.prems(1)] by simp
    then show ?thesis using Cons.IH [OF upd_inv [OF inv cut] False cuts] upd_twice [OF inv cut, of "(t @ piece) @ concat pieces"] by simp
  qed simp
qed simp

end

section \<open>Literals in a growing text\<close>

definition raw_full_lit :: "string \<Rightarrow> nat \<Rightarrow> string \<Rightarrow> bool" where
  "raw_full_lit raw pos lit \<longleftrightarrow> pos \<le> length raw \<and> length raw - pos \<ge> length lit \<and> take (length lit) (drop pos raw) = lit"

definition raw_partial_lit :: "string \<Rightarrow> nat \<Rightarrow> string \<Rightarrow> bool" where
  "raw_partial_lit raw pos lit \<longleftrightarrow> \<not> (pos > length raw \<or> length raw - pos \<ge> length lit) \<and> drop pos raw = take (length raw - pos) lit"

definition raw_partial_any :: "string \<Rightarrow> nat \<Rightarrow> string \<Rightarrow> string \<Rightarrow> bool" where
  "raw_partial_any raw pos a b \<longleftrightarrow> raw_partial_lit raw pos a \<or> raw_partial_lit raw pos b"

definition raw_partial_lit_min :: "string \<Rightarrow> nat \<Rightarrow> string \<Rightarrow> nat \<Rightarrow> bool" where
  "raw_partial_lit_min raw pos lit min_len \<longleftrightarrow> \<not> (pos > length raw \<or> length raw - pos \<ge> length lit) \<and>
     length raw - pos \<ge> min_len \<and> drop pos raw = take (length raw - pos) lit"

text \<open>The offset of the first occurrence.\<close>

definition find_lit_bounded :: "string \<Rightarrow> string \<Rightarrow> nat option" where
  "find_lit_bounded s lit = strstr s lit"

section \<open>The tracker\<close>

datatype dsml_decode_state = DSML_DECODE_OUTSIDE | DSML_DECODE_STRUCTURAL | DSML_DECODE_STRING_BODY
  | DSML_DECODE_JSON_STRUCTURAL | DSML_DECODE_JSON_STRING

datatype dsml_track_mode = DSML_TRACK_SEARCH | DSML_TRACK_STRUCTURAL | DSML_TRACK_STRING_BODY | DSML_TRACK_JSON_PARAM | DSML_TRACK_DONE

record dsml_syntax =
  tool_calls_start :: string
  tool_calls_end :: string
  invoke_start :: string
  invoke_end :: string
  param_start :: string
  param_end :: string

definition dsml_syntaxes :: "dsml_syntax list" where
  "dsml_syntaxes =
     [\<lparr>tool_calls_start = DS4_TOOL_CALLS_START, tool_calls_end = DS4_TOOL_CALLS_END, invoke_start = DS4_INVOKE_START,
       invoke_end = DS4_INVOKE_END, param_start = DS4_PARAM_START, param_end = DS4_PARAM_END\<rparr>,
      \<lparr>tool_calls_start = DS4_TOOL_CALLS_START_SHORT, tool_calls_end = DS4_TOOL_CALLS_END_SHORT, invoke_start = DS4_INVOKE_START_SHORT,
       invoke_end = DS4_INVOKE_END_SHORT, param_start = DS4_PARAM_START_SHORT, param_end = DS4_PARAM_END_SHORT\<rparr>,
      \<lparr>tool_calls_start = ''<tool_calls>'', tool_calls_end = ''</tool_calls>'', invoke_start = ''<invoke'',
       invoke_end = ''</invoke>'', param_start = ''<parameter'', param_end = ''</parameter>''\<rparr>]"

text \<open>A tracker that has not found a block has no syntax; then \<open>dt_syn\<close> is \<^const>\<open>None\<close>.\<close>

record dsml_decode_tracker =
  dt_mode :: dsml_track_mode
  dt_decode :: dsml_decode_state
  dt_syn :: "dsml_syntax option"
  dt_pos :: nat
  dt_json_in_string :: bool
  dt_json_escaped :: bool

definition dsml_max_tool_start_len :: nat where
  "dsml_max_tool_start_len = foldl (\<lambda>m syn. if length (tool_calls_start syn) > m then length (tool_calls_start syn) else m) 0 dsml_syntaxes"

definition best_start :: "string \<Rightarrow> (nat \<times> dsml_syntax) option \<Rightarrow> dsml_syntax \<Rightarrow> (nat \<times> dsml_syntax) option" where
  "best_start raw best syn = (case find_lit_bounded raw (tool_calls_start syn) of None \<Rightarrow> best
     | Some p \<Rightarrow> (case best of None \<Rightarrow> Some (p, syn) | Some (b, _) \<Rightarrow> if p < b then Some (p, syn) else best))"

definition dsml_find_tool_start :: "string \<Rightarrow> (nat \<times> dsml_syntax) option" where
  "dsml_find_tool_start raw = map_option (\<lambda>(p, syn). (p + length (tool_calls_start syn), syn)) (foldl (best_start raw) None dsml_syntaxes)"

definition dsml_find_tool_start_from :: "string \<Rightarrow> nat \<Rightarrow> (nat \<times> dsml_syntax) option" where
  "dsml_find_tool_start_from raw start = (if start > length raw then None
     else map_option (\<lambda>(rel, syn). (start + rel, syn)) (dsml_find_tool_start (drop start raw)))"

definition dsml_attr_is_string_true :: "string \<Rightarrow> nat \<Rightarrow> nat \<Rightarrow> bool" where
  "dsml_attr_is_string_true raw tag_start tag_end =
     (if tag_end \<le> tag_start \<or> tag_end > length raw then False
      else dsml_attr (cstr (take (tag_end - tag_start) (drop tag_start raw))) ''string'' = Some ''true'')"

definition dsml_decode_state_is_tool :: "dsml_decode_state \<Rightarrow> bool" where
  "dsml_decode_state_is_tool st \<longleftrightarrow> st \<noteq> DSML_DECODE_OUTSIDE"

definition dsml_decode_state_uses_payload_sampling :: "dsml_decode_state \<Rightarrow> bool" where
  "dsml_decode_state_uses_payload_sampling st \<longleftrightarrow> st = DSML_DECODE_STRING_BODY \<or> st = DSML_DECODE_JSON_STRING"

definition dsml_decode_tracker_init :: dsml_decode_tracker where
  "dsml_decode_tracker_init = \<lparr>dt_mode = DSML_TRACK_SEARCH, dt_decode = DSML_DECODE_OUTSIDE, dt_syn = None, dt_pos = 0,
     dt_json_in_string = False, dt_json_escaped = False\<rparr>"

text \<open>
  One round of the loops of \<^verbatim>\<open>dsml_decode_tracker_update\<close>.  Every \<^verbatim>\<open>continue\<close>, \<^verbatim>\<open>break\<close> and \<^verbatim>\<open>goto\<close> of
  the code goes on with the loop of the mode just set, so a round ends in \<^const>\<open>Inr\<close> where the code goes on
  and in \<^const>\<open>Inl\<close> where it returns.  The tests for a begun tag at the end of the structural loop all lead to
  the state returned behind them (\<open>stay\<close>).  A tracker that has left the search always has a syntax
  (\<open>tracker_wf\<close>), so the branches without one are never taken.
\<close>

definition search_round :: "string \<Rightarrow> dsml_decode_tracker \<Rightarrow> dsml_decode_tracker + dsml_decode_tracker" where
  "search_round raw dt = (case dsml_find_tool_start_from raw (dt_pos dt) of
     None \<Rightarrow> Inl (dt\<lparr>dt_pos := (if length raw > dsml_max_tool_start_len then length raw - dsml_max_tool_start_len else 0),
       dt_decode := DSML_DECODE_OUTSIDE\<rparr>)
   | Some (pos, syn) \<Rightarrow> Inr (dt\<lparr>dt_syn := Some syn, dt_pos := pos, dt_mode := DSML_TRACK_STRUCTURAL, dt_decode := DSML_DECODE_STRUCTURAL\<rparr>))"

definition close_param :: "dsml_syntax \<Rightarrow> dsml_decode_tracker \<Rightarrow> dsml_decode_tracker" where
  "close_param syn dt = dt\<lparr>dt_pos := dt_pos dt + length (param_end syn), dt_mode := DSML_TRACK_STRUCTURAL, dt_decode := DSML_DECODE_STRUCTURAL\<rparr>"

definition string_round :: "string \<Rightarrow> dsml_syntax \<Rightarrow> dsml_decode_tracker \<Rightarrow> dsml_decode_tracker + dsml_decode_tracker" where
  "string_round raw syn dt =
     (if dt_pos dt < length raw then
        (if raw_full_lit raw (dt_pos dt) (param_end syn) then Inr (close_param syn dt)
         else if raw_partial_lit_min raw (dt_pos dt) (param_end syn) 2 then Inl (dt\<lparr>dt_decode := DSML_DECODE_STRUCTURAL\<rparr>)
         else Inr (dt\<lparr>dt_pos := dt_pos dt + 1\<rparr>))
      else Inl (dt\<lparr>dt_decode := DSML_DECODE_STRING_BODY\<rparr>))"

definition json_char :: "char \<Rightarrow> dsml_decode_tracker \<Rightarrow> dsml_decode_tracker" where
  "json_char c dt =
     (if dt_json_in_string dt then
        (if dt_json_escaped dt then dt\<lparr>dt_json_escaped := False\<rparr>
         else if c = CHR 0x5C then dt\<lparr>dt_json_escaped := True\<rparr>
         else if c = CHR 0x22 then dt\<lparr>dt_json_in_string := False\<rparr>
         else dt)
      else if c = CHR 0x22 then dt\<lparr>dt_json_in_string := True\<rparr>
      else dt)"

definition json_round :: "string \<Rightarrow> dsml_syntax \<Rightarrow> dsml_decode_tracker \<Rightarrow> dsml_decode_tracker + dsml_decode_tracker" where
  "json_round raw syn dt =
     (if dt_pos dt < length raw then
        (if \<not> dt_json_in_string dt \<and> raw_full_lit raw (dt_pos dt) (param_end syn) then Inr (close_param syn dt)
         else if \<not> dt_json_in_string dt \<and> raw_partial_lit_min raw (dt_pos dt) (param_end syn) 2 then Inl (dt\<lparr>dt_decode := DSML_DECODE_STRUCTURAL\<rparr>)
         else Inr (json_char (raw ! dt_pos dt) (dt\<lparr>dt_pos := dt_pos dt + 1\<rparr>)))
      else Inl (dt\<lparr>dt_decode := (if dt_json_in_string dt then DSML_DECODE_JSON_STRING else DSML_DECODE_JSON_STRUCTURAL)\<rparr>))"

text \<open>The position behind the next closing angle bracket.\<close>

definition tag_after :: "string \<Rightarrow> nat \<Rightarrow> nat option" where
  "tag_after raw pos = map_option (\<lambda>i. pos + i + 1) (find_lit_bounded (drop pos raw) ''>'')"

definition skip_blanks :: "string \<Rightarrow> nat \<Rightarrow> nat" where
  "skip_blanks raw pos = pos + length (takeWhile isspace (drop pos raw))"

definition open_param :: "bool \<Rightarrow> nat \<Rightarrow> dsml_decode_tracker \<Rightarrow> dsml_decode_tracker" where
  "open_param string_value pos dt = (if string_value
     then dt\<lparr>dt_pos := pos, dt_mode := DSML_TRACK_STRING_BODY, dt_decode := DSML_DECODE_STRING_BODY\<rparr>
     else dt\<lparr>dt_pos := pos, dt_mode := DSML_TRACK_JSON_PARAM, dt_json_in_string := False, dt_json_escaped := False,
       dt_decode := DSML_DECODE_JSON_STRUCTURAL\<rparr>)"

definition structural_round :: "string \<Rightarrow> dsml_syntax \<Rightarrow> dsml_decode_tracker \<Rightarrow> dsml_decode_tracker + dsml_decode_tracker" where
  "structural_round raw syn dt0 =
     (let pos = skip_blanks raw (dt_pos dt0); dt = dt0\<lparr>dt_pos := pos\<rparr>; stay = dt\<lparr>dt_decode := DSML_DECODE_STRUCTURAL\<rparr> in
      if pos \<ge> length raw then Inl stay
      else if raw_full_lit raw pos (tool_calls_end syn) then
        Inl (dt\<lparr>dt_mode := DSML_TRACK_DONE, dt_pos := pos + length (tool_calls_end syn), dt_decode := DSML_DECODE_OUTSIDE\<rparr>)
      else if raw_full_lit raw pos (invoke_end syn) then Inr (dt\<lparr>dt_pos := pos + length (invoke_end syn)\<rparr>)
      else if raw_full_lit raw pos (invoke_start syn) then
        (case tag_after raw pos of None \<Rightarrow> Inl stay | Some e \<Rightarrow> Inr (dt\<lparr>dt_pos := e\<rparr>))
      else if raw_full_lit raw pos (param_start syn) then
        (case tag_after raw pos of None \<Rightarrow> Inl stay | Some e \<Rightarrow> Inr (open_param (dsml_attr_is_string_true raw pos e) e dt))
      else Inl stay)"

definition tracker_round :: "string \<Rightarrow> dsml_decode_tracker \<Rightarrow> dsml_decode_tracker + dsml_decode_tracker" where
  "tracker_round raw dt = (case dt_mode dt of
     DSML_TRACK_DONE \<Rightarrow> Inl (dt\<lparr>dt_decode := DSML_DECODE_OUTSIDE\<rparr>)
   | DSML_TRACK_SEARCH \<Rightarrow> search_round raw dt
   | DSML_TRACK_STRING_BODY \<Rightarrow> (case dt_syn dt of None \<Rightarrow> Inl dt | Some syn \<Rightarrow> string_round raw syn dt)
   | DSML_TRACK_JSON_PARAM \<Rightarrow> (case dt_syn dt of None \<Rightarrow> Inl dt | Some syn \<Rightarrow> json_round raw syn dt)
   | DSML_TRACK_STRUCTURAL \<Rightarrow> (case dt_syn dt of None \<Rightarrow> Inl dt | Some syn \<Rightarrow> structural_round raw syn dt))"

text \<open>
  The loop.  Every round that goes on moves the position towards the end of the text when the syntax is one
  of the table (\<open>round_progress\<close> below), so the test on the positions never decides; it makes the loop
  total for arbitrary literals.
\<close>

function dsml_decode_tracker_update :: "dsml_decode_tracker \<Rightarrow> string \<Rightarrow> dsml_decode_tracker" where
  "dsml_decode_tracker_update dt raw = (case tracker_round raw dt of Inl dt' \<Rightarrow> dt'
     | Inr dt' \<Rightarrow> if dt_pos dt < dt_pos dt' \<and> dt_pos dt < length raw then dsml_decode_tracker_update dt' raw else dt')"
  by pat_completeness auto

termination dsml_decode_tracker_update
  by (relation "measure (\<lambda>(dt, raw). length raw - dt_pos dt)") auto

declare dsml_decode_tracker_update.simps [simp del]

section \<open>The reference recognizer\<close>

text \<open>The slow recognizer the tests of the server compare the tracker with.  The five tests for a begun tag at the end of its loop all lead to the value returned behind them anyway.\<close>

definition raw_suffix_partial_lit :: "string \<Rightarrow> string \<Rightarrow> nat \<Rightarrow> bool" where
  "raw_suffix_partial_lit raw lit min_len =
     (if raw = [] \<or> lit = [] then False
      else list_ex (\<lambda>n. drop (length raw - n) raw = take n lit)
        [min_len ..< Suc (if length raw < length lit then length raw else length lit - 1)])"

function scan_json_loop :: "string \<Rightarrow> string \<Rightarrow> nat \<Rightarrow> bool \<Rightarrow> bool \<Rightarrow> bool option" where
  "scan_json_loop raw pe pos in_string escaped =
     (if pos < length raw then
        (if \<not> in_string \<and> raw_full_lit raw pos pe then None
         else if in_string then
           (if escaped then scan_json_loop raw pe (pos + 1) True False
            else if raw ! pos = CHR 0x5C then scan_json_loop raw pe (pos + 1) True True
            else if raw ! pos = CHR 0x22 then scan_json_loop raw pe (pos + 1) False escaped
            else scan_json_loop raw pe (pos + 1) True escaped)
         else scan_json_loop raw pe (pos + 1) (raw ! pos = CHR 0x22) escaped)
      else Some in_string)"
  by pat_completeness auto

termination scan_json_loop
  by (relation "measure (\<lambda>(raw, _, pos, _). length raw - pos)") auto

declare scan_json_loop.simps [simp del]

definition dsml_decode_scan_json_param :: "string \<Rightarrow> nat \<Rightarrow> dsml_syntax \<Rightarrow> dsml_decode_state" where
  "dsml_decode_scan_json_param raw pos syn = (case scan_json_loop raw (param_end syn) pos False False of
     None \<Rightarrow> DSML_DECODE_STRUCTURAL
   | Some in_string \<Rightarrow>
      if \<not> in_string \<and> raw_suffix_partial_lit raw (param_end syn) 2 then DSML_DECODE_STRUCTURAL
      else if in_string then DSML_DECODE_JSON_STRING else DSML_DECODE_JSON_STRUCTURAL)"

text \<open>
  A parameter whose tag ends at \<open>pos\<close>: the state of the text when the value is still open (\<^const>\<open>Inl\<close>), the
  position behind its end tag otherwise.
\<close>

definition ref_param :: "string \<Rightarrow> dsml_syntax \<Rightarrow> bool \<Rightarrow> nat \<Rightarrow> dsml_decode_state + nat" where
  "ref_param raw syn string_value pos =
     (let behind = map_option (\<lambda>i. pos + i + length (param_end syn)) (find_lit_bounded (drop pos raw) (param_end syn)) in
      if string_value then
        (case behind of
           None \<Rightarrow> Inl (if raw_suffix_partial_lit raw (param_end syn) 2 then DSML_DECODE_STRUCTURAL else DSML_DECODE_STRING_BODY)
         | Some p \<Rightarrow> Inr p)
      else if dsml_decode_scan_json_param raw pos syn = DSML_DECODE_STRUCTURAL then
        (case behind of None \<Rightarrow> Inl DSML_DECODE_STRUCTURAL | Some p \<Rightarrow> Inr p)
      else Inl (dsml_decode_scan_json_param raw pos syn))"

text \<open>One round of its loop, and the loop; as in the tracker the test on the positions never decides for the syntaxes of the table.\<close>

definition ref_round :: "string \<Rightarrow> dsml_syntax \<Rightarrow> nat \<Rightarrow> dsml_decode_state + nat" where
  "ref_round raw syn pos0 =
     (let pos = skip_blanks raw pos0 in
      if pos \<ge> length raw then Inl DSML_DECODE_STRUCTURAL
      else if raw_full_lit raw pos (tool_calls_end syn) then Inl DSML_DECODE_OUTSIDE
      else if raw_full_lit raw pos (invoke_end syn) then Inr (pos + length (invoke_end syn))
      else if raw_full_lit raw pos (invoke_start syn) then
        (case tag_after raw pos of None \<Rightarrow> Inl DSML_DECODE_STRUCTURAL | Some e \<Rightarrow> Inr e)
      else if raw_full_lit raw pos (param_start syn) then
        (case tag_after raw pos of None \<Rightarrow> Inl DSML_DECODE_STRUCTURAL
         | Some e \<Rightarrow> ref_param raw syn (dsml_attr_is_string_true raw pos e) e)
      else Inl DSML_DECODE_STRUCTURAL)"

function ref_loop :: "string \<Rightarrow> dsml_syntax \<Rightarrow> nat \<Rightarrow> dsml_decode_state" where
  "ref_loop raw syn pos = (case ref_round raw syn pos of Inl st \<Rightarrow> st
     | Inr pos' \<Rightarrow> if pos < pos' \<and> pos < length raw then ref_loop raw syn pos' else DSML_DECODE_STRUCTURAL)"
  by pat_completeness auto

termination ref_loop
  by (relation "measure (\<lambda>(raw, _, pos). length raw - pos)") auto

declare ref_loop.simps [simp del]

definition dsml_decode_state_for_text :: "string \<Rightarrow> dsml_decode_state" where
  "dsml_decode_state_for_text raw =
     (if raw = [] then DSML_DECODE_OUTSIDE
      else case dsml_find_tool_start raw of None \<Rightarrow> DSML_DECODE_OUTSIDE | Some (pos, syn) \<Rightarrow> ref_loop raw syn pos)"

section \<open>Thinking\<close>

record thinking_state =
  ts_inside :: bool
  ts_tail :: string

definition thinking_tail_ends_with :: "thinking_state \<Rightarrow> string \<Rightarrow> bool" where
  "thinking_tail_ends_with st s \<longleftrightarrow> length (ts_tail st) \<ge> length s \<and> drop (length (ts_tail st) - length s) (ts_tail st) = s"

text \<open>The tail holds the last eight characters.\<close>

definition thinking_char :: "thinking_state \<Rightarrow> char \<Rightarrow> thinking_state" where
  "thinking_char st c =
     (let tail = (if length (ts_tail st) = 8 then tl (ts_tail st) else ts_tail st); st1 = st\<lparr>ts_tail := tail @ [c]\<rparr> in
      if thinking_tail_ends_with st1 ''<think>'' then st1\<lparr>ts_inside := True\<rparr>
      else if thinking_tail_ends_with st1 ''</think>'' then st1\<lparr>ts_inside := False\<rparr>
      else st1)"

definition thinking_state_feed :: "thinking_state \<Rightarrow> string \<Rightarrow> thinking_state" where
  "thinking_state_feed st p = foldl thinking_char st p"

definition thinking_zero :: thinking_state where
  "thinking_zero = \<lparr>ts_inside = False, ts_tail = []\<rparr>"

definition thinking_state_from_prompt :: "string option \<Rightarrow> ds4_think_mode \<Rightarrow> thinking_state" where
  "thinking_state_from_prompt prompt_text mode = (case prompt_text of
     Some t \<Rightarrow> thinking_state_feed thinking_zero (cstr t)
   | None \<Rightarrow> if ds4_think_mode_enabled mode then thinking_zero\<lparr>ts_inside := True\<rparr> else thinking_zero)"

text \<open>
  A tool block that is complete inside the reasoning.  The search starts at \<open>scan_from\<close>, which stays 80
  bytes behind the end until an opening marker appears; the caller stops at the first success.
\<close>

definition complete_tool_call_inside_thinking :: "string \<Rightarrow> nat \<Rightarrow> bool \<times> nat" where
  "complete_tool_call_inside_thinking txt scan_from0 =
     (let scan_from = (if scan_from0 > length txt then length txt else scan_from0) in
      case find_any_tool_start (drop scan_from txt) of
        None \<Rightarrow> (False, if length txt > 80 then length txt - 80 else 0)
      | Some i \<Rightarrow> (find_any_tool_end (drop (scan_from + i) txt) \<noteq> None, scan_from + i))"

definition recovery_scan :: "bool \<times> nat \<Rightarrow> string \<Rightarrow> bool \<times> nat" where
  "recovery_scan st t = (if fst st then st else complete_tool_call_inside_thinking t (snd st))"

section \<open>Occurrences of literals\<close>

lemma prefix_take: "prefix a b \<longleftrightarrow> take (length a) b = a"
  by (metis append_eq_conv_conj append_take_drop_id prefix_def)

lemma full_lit: "raw_full_lit raw pos lit \<longleftrightarrow> pos \<le> length raw \<and> prefix lit (drop pos raw)"
  by (auto simp: raw_full_lit_def prefix_take dest: arg_cong [of _ _ length])

lemma partial_lit_min:
  "raw_partial_lit_min raw pos lit n \<longleftrightarrow> pos \<le> length raw \<and> n \<le> length raw - pos \<and> prefix (drop pos raw) lit \<and> length raw - pos < length lit"
  by (auto simp: raw_partial_lit_min_def prefix_take)

lemma find_lit_Some: "find_lit_bounded s lit = Some i \<longleftrightarrow> i \<le> length s \<and> prefix lit (drop i s) \<and> (\<forall>j < i. \<not> prefix lit (drop j s))"
proof
  assume "find_lit_bounded s lit = Some i"
  then show "i \<le> length s \<and> prefix lit (drop i s) \<and> (\<forall>j < i. \<not> prefix lit (drop j s))"
    using strstr_Some [of s lit i] strstr_first [of s lit i] by (auto simp: find_lit_bounded_def)
next
  assume a: "i \<le> length s \<and> prefix lit (drop i s) \<and> (\<forall>j < i. \<not> prefix lit (drop j s))"
  then obtain k where k: "strstr s lit = Some k" using strstr_None [of s lit] by (cases "strstr s lit") auto
  then show "find_lit_bounded s lit = Some i"
    using a strstr_Some [OF k] strstr_first [OF k, of i] by (auto simp: find_lit_bounded_def not_less_iff_gr_or_eq)
      (metis linorder_neqE_nat)
qed

lemma find_lit_None: "find_lit_bounded s lit = None \<longleftrightarrow> (\<forall>j \<le> length s. \<not> prefix lit (drop j s))"
  by (simp add: find_lit_bounded_def strstr_None)

text \<open>An occurrence that ends in a text stays where it is when the text grows.\<close>

lemma prefix_grow: "prefix raw1 raw2 \<Longrightarrow> pos \<le> length raw1 \<Longrightarrow> prefix lit (drop pos raw1) \<Longrightarrow> prefix lit (drop pos raw2)"
  by (auto simp: prefix_def)

lemma prefix_shrink: "prefix raw1 raw2 \<Longrightarrow> pos + length lit \<le> length raw1 \<Longrightarrow> prefix lit (drop pos raw2) \<Longrightarrow> prefix lit (drop pos raw1)"
proof -
  assume a: "prefix raw1 raw2" "pos + length lit \<le> length raw1" "prefix lit (drop pos raw2)"
  then obtain z where "raw2 = raw1 @ z" by (auto simp: prefix_def)
  then show ?thesis using a(2,3) by (simp add: prefix_take)
qed

end
