(* ===== verification/DecodeProofs.thy ===== *)
theory DecodeProofs
  imports DecodeTracker
begin

text \<open>
  The tracker of tool calls makes progress in every round, so an update ends, and its state depends on the
  text alone and not on the pieces it arrives in.
\<close>

section \<open>The table of syntaxes\<close>

definition tag_shape :: "string \<Rightarrow> bool" where
  "tag_shape lit \<longleftrightarrow> lit \<noteq> [] \<and> hd lit = CHR ''<'' \<and> CHR ''<'' \<notin> set (tl lit)"

definition apart :: "string \<Rightarrow> string \<Rightarrow> bool" where
  "apart a b \<longleftrightarrow> \<not> prefix a b \<and> \<not> prefix b a"

lemma syntax_shape:
  "list_all (\<lambda>syn. tag_shape (tool_calls_start syn) \<and> tag_shape (param_end syn) \<and> tool_calls_end syn \<noteq> [] \<and> invoke_end syn \<noteq> [] \<and>
     invoke_start syn \<noteq> [] \<and> param_start syn \<noteq> [] \<and>
     apart (tool_calls_end syn) (invoke_end syn) \<and> apart (tool_calls_end syn) (invoke_start syn) \<and> apart (tool_calls_end syn) (param_start syn) \<and>
     apart (invoke_end syn) (invoke_start syn) \<and> apart (invoke_end syn) (param_start syn) \<and> apart (invoke_start syn) (param_start syn) \<and>
     length (tool_calls_start syn) \<le> dsml_max_tool_start_len) dsml_syntaxes"
  unfolding apart_def tag_shape_def by code_simp

lemma starts_apart: "list_all (\<lambda>s. list_all (\<lambda>t. s = t \<or> apart (tool_calls_start s) (tool_calls_start t)) dsml_syntaxes) dsml_syntaxes"
  unfolding apart_def by code_simp

lemma apart_not_both: "apart a b \<Longrightarrow> prefix a x \<Longrightarrow> \<not> prefix b x"
  by (auto simp: apart_def dest: prefix_same_cases)

lemma tag_only_start:
  assumes "tag_shape lit" "prefix lit (drop p x)" "prefix b (drop q x)" "tag_shape b" "p < q"
  shows "p + length lit \<le> q"
proof (rule ccontr)
  assume n: "\<not> ?thesis"
  obtain k where q: "q = p + Suc k" using less_imp_Suc_add [OF \<open>p < q\<close>] by auto
  with n have k: "q = p + Suc k" "Suc k < length lit" by simp_all
  obtain z where z: "drop p x = lit @ z" using assms(2) by (auto simp: prefix_def)
  have "drop q x = drop (Suc k) (drop p x)" unfolding q by (simp add: add.commute)
  then have "drop q x = drop (Suc k) lit @ z" using k(2) by (simp add: z)
  then have "hd (drop q x) = lit ! Suc k" using k(2) by (simp add: hd_drop_conv_nth)
  moreover have "hd (drop q x) = CHR ''<''" using assms(3,4) by (auto simp: prefix_def tag_shape_def)
  moreover have "lit ! Suc k \<in> set (tl lit)" using k(2) by (cases lit) auto
  ultimately show False using assms(1) by (auto simp: tag_shape_def)
qed

section \<open>Finding the start of a block\<close>

definition start_at :: "string \<Rightarrow> nat \<Rightarrow> dsml_syntax \<Rightarrow> bool" where
  "start_at raw p syn \<longleftrightarrow> syn \<in> set dsml_syntaxes \<and> p \<le> length raw \<and> prefix (tool_calls_start syn) (drop p raw)"

definition first_start :: "string \<Rightarrow> nat \<Rightarrow> nat \<Rightarrow> dsml_syntax \<Rightarrow> bool" where
  "first_start raw start p syn \<longleftrightarrow> start \<le> p \<and> start_at raw p syn \<and> (\<forall>q syn'. start \<le> q \<and> start_at raw q syn' \<longrightarrow> p \<le> q)"

lemma best_start_fold:
  "case foldl (best_start raw) b syns of
     None \<Rightarrow> b = None \<and> (\<forall>s \<in> set syns. find_lit_bounded raw (tool_calls_start s) = None)
   | Some (p, syn) \<Rightarrow> (b = Some (p, syn) \<or> syn \<in> set syns \<and> find_lit_bounded raw (tool_calls_start syn) = Some p) \<and>
       (\<forall>s \<in> set syns. \<forall>q. find_lit_bounded raw (tool_calls_start s) = Some q \<longrightarrow> p \<le> q) \<and> (\<forall>q s. b = Some (q, s) \<longrightarrow> p \<le> q)"
proof (induction syns arbitrary: b)
  case Nil
  then show ?case by (auto split: option.splits)
next
  case (Cons s syns)
  show ?case using Cons.IH [of "best_start raw b s"]
    by (fastforce simp: best_start_def split: option.splits prod.splits if_splits)
qed

lemma find_first_start:
  "dsml_find_tool_start_from raw start = Some (e, syn) \<Longrightarrow> \<exists>p. first_start raw start p syn \<and> e = p + length (tool_calls_start syn)"
  "dsml_find_tool_start_from raw start = None \<Longrightarrow> start \<le> length raw \<Longrightarrow> start \<le> q \<Longrightarrow> \<not> start_at raw q syn"
proof -
  let ?x = "drop start raw"
  have shift: "start_at raw q s \<longleftrightarrow> s \<in> set dsml_syntaxes \<and> q - start \<le> length ?x \<and> prefix (tool_calls_start s) (drop (q - start) ?x)"
    if "start \<le> q" "start \<le> length raw" for q s
    using that by (auto simp: start_at_def)
  {
    assume a: "dsml_find_tool_start_from raw start = Some (e, syn)"
    then obtain p where p: "foldl (best_start ?x) None dsml_syntaxes = Some (p, syn)" "e = start + (p + length (tool_calls_start syn))" "start \<le> length raw"
      by (auto simp: dsml_find_tool_start_from_def dsml_find_tool_start_def split: if_splits)
    note b = best_start_fold [where raw = ?x and b = None and syns = dsml_syntaxes, unfolded p(1), simplified]
    have "start_at raw (start + p) syn" using b shift [of "start + p" syn] p(3) by (auto simp: find_lit_Some)
    moreover have "start + p \<le> q" if "start \<le> q" "start_at raw q s" for q s
    proof -
      have "s \<in> set dsml_syntaxes" "q - start \<le> length ?x" "prefix (tool_calls_start s) (drop (q - start) ?x)" using shift [of q s] that p(3) by simp_all
      then obtain k where "find_lit_bounded ?x (tool_calls_start s) = Some k" "k \<le> q - start"
        using find_lit_None [of ?x "tool_calls_start s"] find_lit_Some [of ?x "tool_calls_start s"]
        by (cases "find_lit_bounded ?x (tool_calls_start s)") (auto simp: not_le [symmetric])
      then show ?thesis using b \<open>s \<in> set dsml_syntaxes\<close> that(1) by fastforce
    qed
    ultimately show "\<exists>p. first_start raw start p syn \<and> e = p + length (tool_calls_start syn)"
      by (intro exI [of _ "start + p"]) (auto simp: first_start_def p(2))
  }
  {
    assume a: "dsml_find_tool_start_from raw start = None" "start \<le> length raw" "start \<le> q"
    then have "foldl (best_start ?x) None dsml_syntaxes = None"
      by (auto simp: dsml_find_tool_start_from_def dsml_find_tool_start_def)
    with best_start_fold [where raw = ?x and b = None and syns = dsml_syntaxes] have "\<forall>s \<in> set dsml_syntaxes. find_lit_bounded ?x (tool_calls_start s) = None" by simp
    then show "\<not> start_at raw q syn" using shift [OF a(3,2)] by (auto simp: find_lit_None)
  }
qed

lemma start_shape: "start_at raw p syn \<Longrightarrow> tag_shape (tool_calls_start syn) \<and> length (tool_calls_start syn) \<le> dsml_max_tool_start_len"
  using syntax_shape by (auto simp: start_at_def list_all_iff)

lemma start_unique: "start_at raw p s \<Longrightarrow> start_at raw p t \<Longrightarrow> s = t"
  using starts_apart apart_not_both [of "tool_calls_start s" "tool_calls_start t" "drop p raw"] by (auto simp: start_at_def list_all_iff)

lemma start_ends: "start_at raw p syn \<Longrightarrow> p + length (tool_calls_start syn) \<le> length raw"
  by (auto simp: start_at_def dest: prefix_length_le)

lemma first_start_unique: "first_start raw a p s \<Longrightarrow> first_start raw a q t \<Longrightarrow> p = q \<and> s = t"
  unfolding first_start_def using start_unique by (metis le_antisym)

lemma find_first_start_eq:
  assumes "first_start raw start p syn"
  shows "dsml_find_tool_start_from raw start = Some (p + length (tool_calls_start syn), syn)"
proof -
  have s: "start \<le> p" "start_at raw p syn" "start \<le> length raw" using assms by (auto simp: first_start_def start_at_def)
  show ?thesis
  proof (cases "dsml_find_tool_start_from raw start")
    case None
    then show ?thesis using find_first_start(2) [OF None s(3,1)] s(2) by blast
  next
    case (Some x)
    obtain e t where "x = (e, t)" by (cases x)
    with find_first_start(1) Some first_start_unique [OF assms] show ?thesis by blast
  qed
qed

lemma start_grow: "prefix raw1 raw2 \<Longrightarrow> start_at raw1 p syn \<Longrightarrow> start_at raw2 p syn"
  by (auto simp: start_at_def prefix_grow dest: prefix_length_le)

lemma start_shrink: "prefix raw1 raw2 \<Longrightarrow> start_at raw2 p syn \<Longrightarrow> p + length (tool_calls_start syn) \<le> length raw1 \<Longrightarrow> start_at raw1 p syn"
  by (auto simp: start_at_def prefix_shrink)

lemma first_start_grow:
  assumes "prefix raw1 raw2" "first_start raw1 start p syn"
  shows "first_start raw2 start p syn"
proof -
  have p: "start \<le> p" "start_at raw1 p syn" using assms(2) by (auto simp: first_start_def)
  have "p \<le> q" if q: "start \<le> q" "start_at raw2 q t" for q t
  proof (rule ccontr)
    assume "\<not> p \<le> q"
    then have "q + length (tool_calls_start t) \<le> p"
      using tag_only_start [of "tool_calls_start t" q raw2 "tool_calls_start syn" p] q(2) start_grow [OF assms(1) p(2)]
        start_shape [OF q(2)] start_shape [OF p(2)]
      by (auto simp: start_at_def)
    then have "start_at raw1 q t" using start_shrink [OF assms(1) q(2)] start_ends [OF p(2)] by linarith
    then show False using assms(2) q(1) \<open>\<not> p \<le> q\<close> by (auto simp: first_start_def)
  qed
  then show ?thesis using p start_grow [OF assms(1)] by (auto simp: first_start_def)
qed

lemma search_resumes:
  assumes "prefix raw1 raw2" "dsml_find_tool_start_from raw1 start = None" "start \<le> length raw1 - dsml_max_tool_start_len"
  shows "dsml_find_tool_start_from raw2 (length raw1 - dsml_max_tool_start_len) = dsml_find_tool_start_from raw2 start"
proof -
  let ?n = "length raw1 - dsml_max_tool_start_len"
  have le: "start \<le> length raw1" "length raw1 \<le> length raw2" using assms(1,3) by (auto dest: prefix_length_le)
  have none: "\<not> start_at raw1 q s" if "start \<le> q" for q s by (rule find_first_start(2) [OF assms(2) le(1) that])
  have late: "?n \<le> q" if "start \<le> q" "start_at raw2 q s" for q s
  proof (rule ccontr)
    assume "\<not> ?n \<le> q"
    then have "q + length (tool_calls_start s) \<le> length raw1" using start_shape [OF that(2)] by linarith
    then show False using start_shrink [OF assms(1) that(2)] none [OF that(1)] by blast
  qed
  have eq: "first_start raw2 ?n p s = first_start raw2 start p s" for p s
    using late assms(3) by (auto simp: first_start_def) (meson le_trans)+
  show ?thesis
  proof (cases "dsml_find_tool_start_from raw2 start")
    case None
    then have "\<not> start_at raw2 q s" if "start \<le> q" for q s using find_first_start(2) [OF None _ that] le by simp
    then show ?thesis using None find_first_start(1) [of raw2 ?n] assms(3)
      by (cases "dsml_find_tool_start_from raw2 ?n") (auto simp: first_start_def dest: le_trans)
  next
    case (Some x)
    then obtain e s where x: "x = (e, s)" by (cases x)
    from find_first_start(1) [OF Some [unfolded x]] obtain p where "first_start raw2 start p s" "e = p + length (tool_calls_start s)" by blast
    then show ?thesis using find_first_start_eq eq Some x by metis
  qed
qed

section \<open>The tracker makes progress\<close>

definition tracker_wf :: "string \<Rightarrow> dsml_decode_tracker \<Rightarrow> bool" where
  "tracker_wf raw dt \<longleftrightarrow> dt_pos dt \<le> length raw \<and> (case dt_mode dt of
     DSML_TRACK_SEARCH \<Rightarrow> dt_pos dt \<le> length raw - dsml_max_tool_start_len
   | DSML_TRACK_DONE \<Rightarrow> True
   | _ \<Rightarrow> (\<exists>syn \<in> set dsml_syntaxes. dt_syn dt = Some syn))"

lemma tag_after_bounds: "tag_after raw pos = Some e \<Longrightarrow> pos \<le> length raw \<Longrightarrow> pos < e \<and> e \<le> length raw"
  by (auto simp: tag_after_def find_lit_Some prefix_def dest: arg_cong [of _ _ length])

lemma skip_blanks_bounds: "pos \<le> length raw \<Longrightarrow> pos \<le> skip_blanks raw pos \<and> skip_blanks raw pos \<le> length raw"
  using length_takeWhile_le [of isspace "drop pos raw"] by (simp add: skip_blanks_def)

lemma full_lit_bounds: "raw_full_lit raw pos lit \<Longrightarrow> pos + length lit \<le> length raw"
  by (auto simp: full_lit dest: prefix_length_le)

lemma json_char_simps [simp]: "dt_pos (json_char c dt) = dt_pos dt" "dt_mode (json_char c dt) = dt_mode dt" "dt_syn (json_char c dt) = dt_syn dt"
  by (simp_all add: json_char_def)

lemma tracker_wf_grow: "tracker_wf raw1 dt \<Longrightarrow> prefix raw1 raw2 \<Longrightarrow> tracker_wf raw2 dt"
  using prefix_length_le [of raw1 raw2] by (auto simp: tracker_wf_def split: dsml_track_mode.splits)

lemma table_lits:
  assumes "syn \<in> set dsml_syntaxes"
  shows "tag_shape (param_end syn)" "param_end syn \<noteq> []" "tool_calls_end syn \<noteq> []" "invoke_end syn \<noteq> []"
    "apart (tool_calls_end syn) (invoke_end syn)" "apart (tool_calls_end syn) (invoke_start syn)" "apart (tool_calls_end syn) (param_start syn)"
    "apart (invoke_end syn) (invoke_start syn)" "apart (invoke_end syn) (param_start syn)" "apart (invoke_start syn) (param_start syn)"
  using syntax_shape assms by (auto simp: list_all_iff tag_shape_def)

text \<open>The cases of a round in the structure of a block.\<close>

lemma structural_round_cases:
  assumes "structural_round raw syn dt = x" "pos = skip_blanks raw (dt_pos dt)"
  obtains (finish) "pos < length raw" "raw_full_lit raw pos (tool_calls_end syn)"
      "x = Inl (dt\<lparr>dt_pos := pos + length (tool_calls_end syn), dt_mode := DSML_TRACK_DONE, dt_decode := DSML_DECODE_OUTSIDE\<rparr>)"
    | (stay) "x = Inl (dt\<lparr>dt_pos := pos, dt_decode := DSML_DECODE_STRUCTURAL\<rparr>)"
    | (invoke_end) "pos < length raw" "\<not> raw_full_lit raw pos (tool_calls_end syn)" "raw_full_lit raw pos (invoke_end syn)"
      "x = Inr (dt\<lparr>dt_pos := pos + length (invoke_end syn)\<rparr>)"
    | (invoke) e where "pos < length raw" "raw_full_lit raw pos (invoke_start syn)" "tag_after raw pos = Some e" "x = Inr (dt\<lparr>dt_pos := e\<rparr>)"
    | (param) e where "pos < length raw" "raw_full_lit raw pos (param_start syn)" "tag_after raw pos = Some e"
      "x = Inr (open_param (dsml_attr_is_string_true raw pos e) e dt)"
  using assms that unfolding structural_round_def Let_def
  by (auto simp: open_param_def split: if_splits option.splits)

lemma round_progress:
  assumes "tracker_wf raw dt" "tracker_round raw dt = Inr dt'"
  shows "dt_pos dt < dt_pos dt' \<and> dt_pos dt < length raw \<and> tracker_wf raw dt'"
proof (cases "dt_mode dt")
  case DSML_TRACK_SEARCH
  then obtain e syn where e: "dsml_find_tool_start_from raw (dt_pos dt) = Some (e, syn)"
    "dt' = dt\<lparr>dt_syn := Some syn, dt_pos := e, dt_mode := DSML_TRACK_STRUCTURAL, dt_decode := DSML_DECODE_STRUCTURAL\<rparr>"
    using assms(2) by (auto simp: tracker_round_def search_round_def split: option.splits)
  then obtain p where p: "dt_pos dt \<le> p" "start_at raw p syn" "e = p + length (tool_calls_start syn)"
    using find_first_start(1) by (fastforce simp: first_start_def)
  have n: "0 < length (tool_calls_start syn)" using start_shape [OF p(2)] by (simp add: tag_shape_def)
  have "dt_pos dt < e" using p n by linarith
  moreover have "e \<le> length raw" "syn \<in> set dsml_syntaxes" using p start_ends [OF p(2)] by (simp_all add: start_at_def)
  ultimately show ?thesis by (auto simp: e(2) tracker_wf_def)
next
  case DSML_TRACK_STRING_BODY
  then obtain syn where syn: "syn \<in> set dsml_syntaxes" "dt_syn dt = Some syn" "string_round raw syn dt = Inr dt'"
    using assms by (auto simp: tracker_wf_def tracker_round_def)
  then show ?thesis using table_lits(2) [OF syn(1)] full_lit_bounds [of raw "dt_pos dt" "param_end syn"] DSML_TRACK_STRING_BODY
    by (auto simp: string_round_def close_param_def tracker_wf_def split: if_splits)
next
  case DSML_TRACK_JSON_PARAM
  then obtain syn where syn: "syn \<in> set dsml_syntaxes" "dt_syn dt = Some syn" "json_round raw syn dt = Inr dt'"
    using assms by (auto simp: tracker_wf_def tracker_round_def)
  then show ?thesis using table_lits(2) [OF syn(1)] full_lit_bounds [of raw "dt_pos dt" "param_end syn"] DSML_TRACK_JSON_PARAM
    by (auto simp: json_round_def close_param_def tracker_wf_def split: if_splits)
next
  case DSML_TRACK_STRUCTURAL
  then obtain syn where syn: "syn \<in> set dsml_syntaxes" "dt_syn dt = Some syn" "structural_round raw syn dt = Inr dt'"
    using assms by (auto simp: tracker_wf_def tracker_round_def)
  define pos where "pos = skip_blanks raw (dt_pos dt)"
  have le: "dt_pos dt \<le> pos" "pos \<le> length raw" using skip_blanks_bounds [of "dt_pos dt" raw] assms(1) by (auto simp: tracker_wf_def pos_def)
  show ?thesis using syn(3) pos_def
  proof (cases rule: structural_round_cases)
    case invoke_end
    have "0 < length (invoke_end syn)" using table_lits(4) [OF syn(1)] by simp
    then have "dt_pos dt < pos + length (invoke_end syn)" using le(1) by linarith
    then show ?thesis using invoke_end full_lit_bounds [OF invoke_end(3)] le syn DSML_TRACK_STRUCTURAL by (auto simp: tracker_wf_def)
  next
    case (invoke e)
    then show ?thesis using le tag_after_bounds [OF invoke(3) le(2)] syn DSML_TRACK_STRUCTURAL by (auto simp: tracker_wf_def)
  next
    case (param e)
    then show ?thesis using le tag_after_bounds [OF param(3) le(2)] syn by (auto simp: tracker_wf_def open_param_def)
  qed auto
qed (use assms in \<open>auto simp: tracker_round_def\<close>)

lemma update_step:
  assumes "tracker_wf raw dt"
  shows "dsml_decode_tracker_update dt raw = (case tracker_round raw dt of Inl dt' \<Rightarrow> dt' | Inr dt' \<Rightarrow> dsml_decode_tracker_update dt' raw)"
  using round_progress [OF assms] by (auto simp: dsml_decode_tracker_update.simps [of dt raw] split: sum.splits)

lemma update_induct [consumes 1, case_names return goes_on]:
  assumes "tracker_wf raw dt"
    and "\<And>dt dt'. tracker_wf raw dt \<Longrightarrow> tracker_round raw dt = Inl dt' \<Longrightarrow> P dt"
    and "\<And>dt dt'. tracker_wf raw dt \<Longrightarrow> tracker_round raw dt = Inr dt' \<Longrightarrow> P dt' \<Longrightarrow> P dt"
  shows "P dt"
  using assms(1)
proof (induction "length raw - dt_pos dt" arbitrary: dt rule: less_induct)
  case less
  show ?case
  proof (cases "tracker_round raw dt")
    case (Inl dt')
    then show ?thesis using assms(2) less(2) by blast
  next
    case (Inr dt')
    have "length raw - dt_pos dt' < length raw - dt_pos dt" "tracker_wf raw dt'" using round_progress [OF less(2) Inr] by auto
    then show ?thesis using assms(3) [OF less(2) Inr] less(1) by blast
  qed
qed

section \<open>Only the text decides, not how it arrives\<close>

text \<open>What a tracker reports does not matter to the next update, which always sets it anew.\<close>

lemma round_decode:
  assumes "tracker_wf raw dt"
  shows "(case tracker_round raw dt of Inl r \<Rightarrow> tracker_round raw (dt\<lparr>dt_decode := d\<rparr>) = Inl r
     | Inr r \<Rightarrow> \<exists>d'. tracker_round raw (dt\<lparr>dt_decode := d\<rparr>) = Inr (r\<lparr>dt_decode := d'\<rparr>))"
proof -
  have struct: "case structural_round raw syn dt of Inl r \<Rightarrow> structural_round raw syn (dt\<lparr>dt_decode := d\<rparr>) = Inl r
     | Inr r \<Rightarrow> \<exists>d'. structural_round raw syn (dt\<lparr>dt_decode := d\<rparr>) = Inr (r\<lparr>dt_decode := d'\<rparr>)" for syn
    by (cases dt) (auto simp: structural_round_def Let_def open_param_def split: option.splits)
  have str: "case string_round raw syn dt of Inl r \<Rightarrow> string_round raw syn (dt\<lparr>dt_decode := d\<rparr>) = Inl r
     | Inr r \<Rightarrow> \<exists>d'. string_round raw syn (dt\<lparr>dt_decode := d\<rparr>) = Inr (r\<lparr>dt_decode := d'\<rparr>)" for syn
    by (cases dt) (auto simp: string_round_def close_param_def)
  have json: "case json_round raw syn dt of Inl r \<Rightarrow> json_round raw syn (dt\<lparr>dt_decode := d\<rparr>) = Inl r
     | Inr r \<Rightarrow> \<exists>d'. json_round raw syn (dt\<lparr>dt_decode := d\<rparr>) = Inr (r\<lparr>dt_decode := d'\<rparr>)" for syn
    by (cases dt) (auto simp: json_round_def close_param_def json_char_def)
  have search: "case search_round raw dt of Inl r \<Rightarrow> search_round raw (dt\<lparr>dt_decode := d\<rparr>) = Inl r
     | Inr r \<Rightarrow> \<exists>d'. search_round raw (dt\<lparr>dt_decode := d\<rparr>) = Inr (r\<lparr>dt_decode := d'\<rparr>)"
    by (cases dt) (auto simp: search_round_def split: option.splits)
  have known: "\<exists>syn. dt_syn dt = Some syn" if "dt_mode dt \<noteq> DSML_TRACK_SEARCH" "dt_mode dt \<noteq> DSML_TRACK_DONE"
    using assms that by (auto simp: tracker_wf_def split: dsml_track_mode.splits)
  show ?thesis
  proof (cases "dt_mode dt")
    case DSML_TRACK_SEARCH
    then have r: "tracker_round raw dt = search_round raw dt" "tracker_round raw (dt\<lparr>dt_decode := d\<rparr>) = search_round raw (dt\<lparr>dt_decode := d\<rparr>)"
      by (simp_all add: tracker_round_def)
    show ?thesis using search by (simp only: r)
  next
    case DSML_TRACK_STRUCTURAL
    then obtain syn where "dt_syn dt = Some syn" using known by auto
    then have r: "tracker_round raw dt = structural_round raw syn dt"
      "tracker_round raw (dt\<lparr>dt_decode := d\<rparr>) = structural_round raw syn (dt\<lparr>dt_decode := d\<rparr>)"
      using DSML_TRACK_STRUCTURAL by (simp_all add: tracker_round_def)
    show ?thesis using struct by (simp only: r)
  next
    case DSML_TRACK_STRING_BODY
    then obtain syn where "dt_syn dt = Some syn" using known by auto
    then have r: "tracker_round raw dt = string_round raw syn dt"
      "tracker_round raw (dt\<lparr>dt_decode := d\<rparr>) = string_round raw syn (dt\<lparr>dt_decode := d\<rparr>)"
      using DSML_TRACK_STRING_BODY by (simp_all add: tracker_round_def)
    show ?thesis using str by (simp only: r)
  next
    case DSML_TRACK_JSON_PARAM
    then obtain syn where "dt_syn dt = Some syn" using known by auto
    then have r: "tracker_round raw dt = json_round raw syn dt"
      "tracker_round raw (dt\<lparr>dt_decode := d\<rparr>) = json_round raw syn (dt\<lparr>dt_decode := d\<rparr>)"
      using DSML_TRACK_JSON_PARAM by (simp_all add: tracker_round_def)
    show ?thesis using json by (simp only: r)
  next
    case DSML_TRACK_DONE
    then show ?thesis by (simp add: tracker_round_def)
  qed
qed

lemma tracker_wf_decode [simp]: "tracker_wf raw (dt\<lparr>dt_decode := d\<rparr>) = tracker_wf raw dt"
  by (cases dt) (simp add: tracker_wf_def split: dsml_track_mode.splits)

lemma update_decode: "tracker_wf raw dt \<Longrightarrow> dsml_decode_tracker_update (dt\<lparr>dt_decode := d\<rparr>) raw = dsml_decode_tracker_update dt raw"
proof (induction arbitrary: d rule: update_induct)
  case (return dt dt')
  then show ?case using round_decode [OF return(1), of d] by (simp add: update_step [of raw dt] update_step [of raw "dt\<lparr>dt_decode := d\<rparr>"])
next
  case (goes_on dt dt')
  then show ?case using round_decode [OF goes_on(1), of d] by (auto simp: update_step [of raw dt] update_step [of raw "dt\<lparr>dt_decode := d\<rparr>"])
qed

text \<open>
  A text may be cut anywhere but behind an opening angle bracket: there the tracker has already passed
  the first character of a closing tag.
\<close>

definition clean_cut :: "string \<Rightarrow> bool" where
  "clean_cut raw \<longleftrightarrow> raw = [] \<or> List.last raw \<noteq> CHR ''<''"

lemma full_grow: "prefix raw1 raw2 \<Longrightarrow> raw_full_lit raw1 pos lit \<Longrightarrow> raw_full_lit raw2 pos lit"
  by (auto simp: full_lit prefix_grow dest: prefix_length_le)

lemma passed_grow:
  assumes "prefix raw1 raw2" "clean_cut raw1" "pos < length raw1" "tag_shape lit"
    and "\<not> raw_full_lit raw1 pos lit" "\<not> raw_partial_lit_min raw1 pos lit 2"
  shows "\<not> raw_full_lit raw2 pos lit \<and> \<not> raw_partial_lit_min raw2 pos lit 2"
proof -
  obtain z where z: "raw2 = raw1 @ z" using assms(1) by (auto simp: prefix_def)
  let ?x = "drop pos raw1"
  have x: "drop pos raw2 = ?x @ z" "?x \<noteq> []" using assms(3) by (simp_all add: z)
  have "\<not> prefix ?x lit \<and> \<not> prefix lit ?x"
  proof
    show "\<not> prefix lit ?x" using assms(3,5) by (simp add: full_lit)
    show "\<not> prefix ?x lit"
    proof
      assume p: "prefix ?x lit"
      then have short: "length ?x < length lit" using \<open>\<not> prefix lit ?x\<close> prefix_length_prefix by fastforce
      then have "length raw1 - pos = 1" using p assms(3,6) by (auto simp: partial_lit_min)
      then have "length ?x = Suc 0" by simp
      then obtain c where c: "?x = [c]" unfolding length_Suc_conv by auto
      have "c = List.last raw1" using arg_cong [OF c, of List.last] assms(3) by (simp add: last_drop)
      then have "?x = [List.last raw1]" using c by simp
      then show False using p assms(2,3,4) by (auto simp: tag_shape_def clean_cut_def prefix_def)
    qed
  qed
  then show ?thesis using x prefix_same_cases [of lit "?x @ z" ?x] by (auto simp: full_lit partial_lit_min dest: append_prefixD)
qed

lemma tag_after_grow: "prefix raw1 raw2 \<Longrightarrow> pos \<le> length raw1 \<Longrightarrow> tag_after raw1 pos = Some e \<Longrightarrow> tag_after raw2 pos = Some e"
proof -
  assume a: "prefix raw1 raw2" "pos \<le> length raw1" "tag_after raw1 pos = Some e"
  then obtain z i where z: "raw2 = raw1 @ z" and i: "find_lit_bounded (drop pos raw1) ''>'' = Some i" "e = pos + i + 1"
    by (auto simp: prefix_def tag_after_def)
  let ?x = "drop pos raw1"
  have "i < length ?x" 
  proof -
    have "prefix ''>'' (drop i ?x)" using i(1) by (simp add: find_lit_Some)
    then have "drop i ?x \<noteq> []" by auto
    then show ?thesis by (simp only: drop_eq_Nil not_le)
  qed
  moreover have "prefix ''>'' (drop j (?x @ z)) = prefix ''>'' (drop j ?x)" if "j < length ?x" for j
    using that by (cases "drop j ?x") auto
  ultimately have "find_lit_bounded (?x @ z) ''>'' = Some i" using i(1) by (auto simp: find_lit_Some)
  then show ?thesis using a(2) i(2) by (simp add: tag_after_def z)
qed

lemma attr_grow: "prefix raw1 raw2 \<Longrightarrow> e \<le> length raw1 \<Longrightarrow> dsml_attr_is_string_true raw2 p e = dsml_attr_is_string_true raw1 p e"
  by (auto simp: dsml_attr_is_string_true_def prefix_def)

lemma takeWhile_two: "takeWhile P (x @ z) = takeWhile P x @ takeWhile P (dropWhile P x @ z)"
  by (induction x) auto

lemma takeWhile_stops: "dropWhile P x \<noteq> [] \<Longrightarrow> takeWhile P (x @ z) = takeWhile P x"
  by (induction x) (auto split: if_splits)

lemma blanks_grow:
  assumes "prefix raw1 raw2" "pos \<le> length raw1"
  shows "skip_blanks raw2 (skip_blanks raw1 pos) = skip_blanks raw2 pos"
    "skip_blanks raw1 pos < length raw1 \<Longrightarrow> skip_blanks raw2 pos = skip_blanks raw1 pos"
proof -
  obtain z where z: "raw2 = raw1 @ z" using assms(1) by (auto simp: prefix_def)
  let ?x = "drop pos raw1" and ?n = "length (takeWhile isspace (drop pos raw1))"
  have n: "?n \<le> length ?x" by (rule length_takeWhile_le)
  have d: "drop pos raw2 = ?x @ z" "drop (pos + ?n) raw2 = dropWhile isspace ?x @ z"
    using assms(2) n by (simp_all add: z dropWhile_eq_drop add.commute)
  show "skip_blanks raw2 (skip_blanks raw1 pos) = skip_blanks raw2 pos"
    by (simp add: skip_blanks_def d) (simp add: takeWhile_two [of isspace ?x])
  assume "skip_blanks raw1 pos < length raw1"
  then have "dropWhile isspace ?x \<noteq> []" using n by (auto simp: skip_blanks_def dropWhile_eq_drop)
  then have "takeWhile isspace (?x @ z) = takeWhile isspace ?x" by (rule takeWhile_stops)
  then show "skip_blanks raw2 pos = skip_blanks raw1 pos" by (simp add: skip_blanks_def d)
qed

lemma structural_grow:
  assumes "prefix raw1 raw2" "dt_pos dt \<le> length raw1" "syn \<in> set dsml_syntaxes" "structural_round raw1 syn dt = Inr dt'"
  shows "structural_round raw2 syn dt = Inr dt'"
proof -
  define pos where "pos = skip_blanks raw1 (dt_pos dt)"
  have le: "pos \<le> length raw1" "length raw1 \<le> length raw2"
    using skip_blanks_bounds [OF assms(2)] assms(1) by (auto simp: pos_def dest: prefix_length_le)
  have pos2: "skip_blanks raw2 (dt_pos dt) = pos" if "pos < length raw1" using blanks_grow(2) [OF assms(1,2)] that by (simp add: pos_def)
  have other: "\<not> raw_full_lit raw2 pos b" if "raw_full_lit raw1 pos a" "apart b a" for a b
    using full_grow [OF assms(1) that(1)] apart_not_both [OF that(2)] by (auto simp: full_lit)
  note lits = table_lits [OF assms(3)]
  show ?thesis using assms(4) pos_def
  proof (cases rule: structural_round_cases)
    case invoke_end
    then show ?thesis using pos2 full_grow [OF assms(1)] other [OF invoke_end(3) lits(5)] le
      by (simp add: structural_round_def Let_def)
  next
    case (invoke e)
    then show ?thesis using pos2 full_grow [OF assms(1)] other [OF invoke(2)] lits le tag_after_grow [OF assms(1) le(1)]
      by (simp add: structural_round_def Let_def)
  next
    case (param e)
    then show ?thesis using pos2 full_grow [OF assms(1)] other [OF param(2)] lits le tag_after_grow [OF assms(1) le(1)]
        attr_grow [OF assms(1)] tag_after_bounds [OF param(3) le(1)]
      by (simp add: structural_round_def Let_def open_param_def)
  qed simp_all
qed

lemma round_grow:
  assumes "prefix raw1 raw2" "clean_cut raw1" "tracker_wf raw1 dt" "tracker_round raw1 dt = Inr dt'"
  shows "tracker_round raw2 dt = Inr dt'"
proof (cases "dt_mode dt")
  case DSML_TRACK_SEARCH
  then obtain e syn where e: "dsml_find_tool_start_from raw1 (dt_pos dt) = Some (e, syn)"
    "dt' = dt\<lparr>dt_syn := Some syn, dt_pos := e, dt_mode := DSML_TRACK_STRUCTURAL, dt_decode := DSML_DECODE_STRUCTURAL\<rparr>"
    using assms(4) by (auto simp: tracker_round_def search_round_def split: option.splits)
  then obtain p where "first_start raw1 (dt_pos dt) p syn" "e = p + length (tool_calls_start syn)" using find_first_start(1) by blast
  then have "dsml_find_tool_start_from raw2 (dt_pos dt) = Some (e, syn)" using find_first_start_eq first_start_grow [OF assms(1)] by blast
  then show ?thesis using DSML_TRACK_SEARCH e(2) by (simp add: tracker_round_def search_round_def)
next
  case DSML_TRACK_STRING_BODY
  then obtain syn where syn: "syn \<in> set dsml_syntaxes" "dt_syn dt = Some syn" "string_round raw1 syn dt = Inr dt'"
    using assms by (auto simp: tracker_wf_def tracker_round_def)
  then show ?thesis
    using DSML_TRACK_STRING_BODY passed_grow [OF assms(1,2) _ table_lits(1) [OF syn(1)]] full_grow [OF assms(1)] prefix_length_le [OF assms(1)]
    by (auto simp: tracker_round_def string_round_def split: if_splits)
next
  case DSML_TRACK_JSON_PARAM
  then obtain syn where syn: "syn \<in> set dsml_syntaxes" "dt_syn dt = Some syn" "json_round raw1 syn dt = Inr dt'"
    using assms by (auto simp: tracker_wf_def tracker_round_def)
  moreover have "raw2 ! dt_pos dt = raw1 ! dt_pos dt" if "dt_pos dt < length raw1" using assms(1) that by (auto simp: prefix_def nth_append)
  ultimately show ?thesis
    using DSML_TRACK_JSON_PARAM passed_grow [OF assms(1,2) _ table_lits(1) [OF syn(1)]] full_grow [OF assms(1)] prefix_length_le [OF assms(1)]
    by (auto simp: tracker_round_def json_round_def split: if_splits)
next
  case DSML_TRACK_STRUCTURAL
  then obtain syn where syn: "syn \<in> set dsml_syntaxes" "dt_syn dt = Some syn" "structural_round raw1 syn dt = Inr dt'"
    using assms by (auto simp: tracker_wf_def tracker_round_def)
  then show ?thesis using structural_grow [OF assms(1) _ syn(1,3)] DSML_TRACK_STRUCTURAL assms(3) by (simp add: tracker_round_def tracker_wf_def)
qed (use assms(4) in \<open>simp add: tracker_round_def\<close>)

lemma done_stays: "dt_mode dt = DSML_TRACK_DONE \<Longrightarrow> dt_decode dt = DSML_DECODE_OUTSIDE \<Longrightarrow> dsml_decode_tracker_update dt raw = dt"
  by (cases dt) (simp add: dsml_decode_tracker_update.simps tracker_round_def)

lemma return_grow:
  assumes "prefix raw1 raw2" "tracker_wf raw1 dt" "tracker_round raw1 dt = Inl dt'"
  shows "tracker_wf raw1 dt' \<and> dsml_decode_tracker_update dt' raw2 = dsml_decode_tracker_update dt raw2"
proof (cases "dt_mode dt")
  case DSML_TRACK_SEARCH
  let ?n = "length raw1 - dsml_max_tool_start_len"
  have none: "dsml_find_tool_start_from raw1 (dt_pos dt) = None" and dt': "dt' = dt\<lparr>dt_pos := ?n, dt_decode := DSML_DECODE_OUTSIDE\<rparr>"
    using DSML_TRACK_SEARCH assms(3) by (auto simp: tracker_round_def search_round_def split: option.splits if_splits)
  have wf: "tracker_wf raw1 dt'" using DSML_TRACK_SEARCH by (simp add: dt' tracker_wf_def)
  have "dsml_find_tool_start_from raw2 ?n = dsml_find_tool_start_from raw2 (dt_pos dt)"
    by (rule search_resumes [OF assms(1) none]) (use assms(2) DSML_TRACK_SEARCH in \<open>simp add: tracker_wf_def\<close>)
  then have "tracker_round raw2 dt' = tracker_round raw2 dt"
    using DSML_TRACK_SEARCH by (simp add: tracker_round_def search_round_def dt' split: option.splits)
  then show ?thesis using wf update_step [OF tracker_wf_grow [OF wf assms(1)]] update_step [OF tracker_wf_grow [OF assms(2,1)]] by simp
next
  case DSML_TRACK_STRUCTURAL
  then obtain syn where syn: "syn \<in> set dsml_syntaxes" "dt_syn dt = Some syn" "structural_round raw1 syn dt = Inl dt'"
    using assms by (auto simp: tracker_wf_def tracker_round_def)
  define pos where "pos = skip_blanks raw1 (dt_pos dt)"
  have dtp: "dt_pos dt \<le> length raw1" using assms(2) by (simp add: tracker_wf_def)
  have le: "pos \<le> length raw1" "length raw1 \<le> length raw2"
    using skip_blanks_bounds [OF dtp] assms(1) by (auto simp: pos_def dest: prefix_length_le)
  note step = update_step [OF tracker_wf_grow [OF assms(2,1)]]
  show ?thesis using syn(3) pos_def
  proof (cases rule: structural_round_cases)
    case finish
    have "structural_round raw2 syn dt = Inl dt'"
      using finish blanks_grow(2) [OF assms(1) dtp] full_grow [OF assms(1) finish(2)] le by (simp add: structural_round_def Let_def pos_def)
    then have "dsml_decode_tracker_update dt raw2 = dt'" using DSML_TRACK_STRUCTURAL syn(2) by (simp add: step tracker_round_def)
    moreover have "tracker_wf raw1 dt'" using finish full_lit_bounds [OF finish(2)] by (simp add: tracker_wf_def)
    moreover have "dsml_decode_tracker_update dt' raw2 = dt'" by (rule done_stays) (use finish in simp_all)
    ultimately show ?thesis by simp
  next
    case stay
    define dt1 where "dt1 = dt\<lparr>dt_pos := pos\<rparr>"
    have wf: "tracker_wf raw1 dt1" using DSML_TRACK_STRUCTURAL syn le by (simp add: dt1_def tracker_wf_def)
    have "structural_round raw2 syn dt1 = structural_round raw2 syn dt"
      using blanks_grow(1) [OF assms(1) dtp] by (simp add: structural_round_def Let_def dt1_def pos_def open_param_def split: option.splits)
    then have "tracker_round raw2 dt1 = tracker_round raw2 dt" using DSML_TRACK_STRUCTURAL syn(2) by (simp add: tracker_round_def dt1_def)
    then have "dsml_decode_tracker_update dt1 raw2 = dsml_decode_tracker_update dt raw2"
      using update_step [OF tracker_wf_grow [OF wf assms(1)]] by (simp add: step)
    moreover have "dt' = dt1\<lparr>dt_decode := DSML_DECODE_STRUCTURAL\<rparr>" using stay by (simp add: dt1_def)
    ultimately show ?thesis using wf update_decode [OF tracker_wf_grow [OF wf assms(1)]] by simp
  qed simp_all
next
  case DSML_TRACK_STRING_BODY
  then obtain syn where "dt_syn dt = Some syn" "string_round raw1 syn dt = Inl dt'" using assms by (auto simp: tracker_wf_def tracker_round_def)
  then have "\<exists>d. dt' = dt\<lparr>dt_decode := d\<rparr>" by (auto simp: string_round_def split: if_splits)
  then show ?thesis using update_decode [OF tracker_wf_grow [OF assms(2,1)]] assms(2) by auto
next
  case DSML_TRACK_JSON_PARAM
  then obtain syn where "dt_syn dt = Some syn" "json_round raw1 syn dt = Inl dt'" using assms by (auto simp: tracker_wf_def tracker_round_def)
  then have "\<exists>d. dt' = dt\<lparr>dt_decode := d\<rparr>" by (auto simp: json_round_def split: if_splits)
  then show ?thesis using update_decode [OF tracker_wf_grow [OF assms(2,1)]] assms(2) by auto
next
  case DSML_TRACK_DONE
  then have "dt' = dt\<lparr>dt_decode := DSML_DECODE_OUTSIDE\<rparr>" using assms(3) by (simp add: tracker_round_def)
  then show ?thesis using update_decode [OF tracker_wf_grow [OF assms(2,1)]] assms(2) by simp
qed

lemma update_twice:
  assumes "tracker_wf raw1 dt" "prefix raw1 raw2" "clean_cut raw1"
  shows "tracker_wf raw1 (dsml_decode_tracker_update dt raw1) \<and>
    dsml_decode_tracker_update (dsml_decode_tracker_update dt raw1) raw2 = dsml_decode_tracker_update dt raw2"
  using assms(1)
proof (induction rule: update_induct)
  case (return dt dt')
  then show ?case using return_grow [OF assms(2) return] by (simp add: update_step [of raw1 dt])
next
  case (goes_on dt dt')
  then show ?case using round_grow [OF assms(2,3) goes_on(1,2)] update_step [OF tracker_wf_grow [OF goes_on(1) assms(2)]]
    by (simp add: update_step [of raw1 dt])
qed

interpretation tracker: growing_text dsml_decode_tracker_update tracker_wf clean_cut
  by unfold_locales (use tracker_wf_grow update_twice in blast)+

lemma clean_concat: "list_all clean_cut xs \<Longrightarrow> clean_cut (concat xs)"
  by (induction xs rule: rev_induct) (auto simp: clean_cut_def last_append)

text \<open>
  C9.  The tracker depends only on the text, not on the tokens it arrives in: fed with the text so far after each
  piece, it ends in the state one update with the whole text gives, as long as no piece but the last ends in
  an opening angle bracket.
\<close>

theorem tracker_sees_whole_text:
  assumes "list_all clean_cut (butlast pieces)"
  shows "feed_pieces dsml_decode_tracker_update dsml_decode_tracker_init [] pieces = dsml_decode_tracker_update dsml_decode_tracker_init (concat pieces)"
proof (cases "pieces = []")
  case True
  have "dsml_decode_tracker_update dsml_decode_tracker_init [] = dsml_decode_tracker_init" by code_simp
  then show ?thesis using True by simp
next
  case False
  have "tracker_wf [] dsml_decode_tracker_init" by (simp add: tracker_wf_def dsml_decode_tracker_init_def)
  moreover have "clean_cut (concat (take k pieces))" if "k < length pieces" for k
    by (rule clean_concat) (use assms that set_take_subset_set_take [of k "length pieces - 1" pieces] in
      \<open>auto simp: list_all_iff butlast_conv_take subset_iff\<close>)
  ultimately show ?thesis using tracker.feed_whole [of "[]" dsml_decode_tracker_init pieces] False by simp
qed

theorem tracker_sees_whole_text_witness:
  "feed_pieces dsml_decode_tracker_update dsml_decode_tracker_init [] [''<tool_'', ''calls><invoke name=\"f\"><param'', ''eter name=\"a\" string=\"true\">x</par''] =
   dsml_decode_tracker_update dsml_decode_tracker_init ''<tool_calls><invoke name=\"f\"><parameter name=\"a\" string=\"true\">x</par'' \<and>
   dt_decode (dsml_decode_tracker_update dsml_decode_tracker_init ''<tool_calls><invoke name=\"f\"><parameter name=\"a\" string=\"true\">x</par'') = DSML_DECODE_STRUCTURAL"
proof
  show "feed_pieces dsml_decode_tracker_update dsml_decode_tracker_init [] [''<tool_'', ''calls><invoke name=\"f\"><param'', ''eter name=\"a\" string=\"true\">x</par''] =
   dsml_decode_tracker_update dsml_decode_tracker_init ''<tool_calls><invoke name=\"f\"><parameter name=\"a\" string=\"true\">x</par''"
    using tracker_sees_whole_text [of "[''<tool_'', ''calls><invoke name=\"f\"><param'', ''eter name=\"a\" string=\"true\">x</par'']"]
    by (simp add: clean_cut_def)
qed code_simp

text \<open>
  A token that ends in the opening bracket of the end tag of a string: the tracker passes the bracket, misses the
  end tag, and still reports payload when the block is closed.
\<close>

theorem lone_bracket_loses_end_tag:
  "dt_decode (feed_pieces dsml_decode_tracker_update dsml_decode_tracker_init []
     [''<tool_calls><invoke name=\"f\"><parameter name=\"a\" string=\"true\">x<'', ''/parameter></invoke></tool_calls>'']) = DSML_DECODE_STRING_BODY"
  "dt_decode (dsml_decode_tracker_update dsml_decode_tracker_init
     ''<tool_calls><invoke name=\"f\"><parameter name=\"a\" string=\"true\">x</parameter></invoke></tool_calls>'') = DSML_DECODE_OUTSIDE"
  by code_simp+

section \<open>Payload is exactly the value of a parameter\<close>

text \<open>A value is still open: its end tag does not occur, but the text may end in the beginning of one.\<close>

definition begun_tag :: "string \<Rightarrow> string \<Rightarrow> bool" where
  "begun_tag lit v \<longleftrightarrow> (\<exists>i < length v. 2 \<le> length v - i \<and> length v - i < length lit \<and> prefix (drop i v) lit)"

lemma string_body_open:
  assumes "tracker_wf raw dt"
  shows "dt_mode dt = DSML_TRACK_STRING_BODY \<Longrightarrow> dt_syn dt = Some syn \<Longrightarrow> find_lit_bounded (drop (dt_pos dt) raw) (param_end syn) = None \<Longrightarrow>
    dt_decode (dsml_decode_tracker_update dt raw) =
      (if begun_tag (param_end syn) (drop (dt_pos dt) raw) then DSML_DECODE_STRUCTURAL else DSML_DECODE_STRING_BODY)"
  using assms
proof (induction rule: update_induct)
  case (return dt dt')
  have r: "string_round raw syn dt = Inl dt'" using return by (simp add: tracker_round_def)
  show ?case
  proof (cases "dt_pos dt < length raw")
    case True
    then have p: "raw_partial_lit_min raw (dt_pos dt) (param_end syn) 2" "dt_decode dt' = DSML_DECODE_STRUCTURAL"
      using r by (auto simp: string_round_def split: if_splits)
    then have "begun_tag (param_end syn) (drop (dt_pos dt) raw)"
      using True unfolding begun_tag_def by (intro exI [of _ 0]) (auto simp: partial_lit_min)
    then show ?thesis using p(2) return(1,2) by (simp add: update_step [OF return(1)])
  next
    case False
    then have "dt_decode dt' = DSML_DECODE_STRING_BODY" using r by (auto simp: string_round_def)
    then show ?thesis using False return(1,2) by (simp add: update_step [OF return(1)] begun_tag_def)
  qed
next
  case (goes_on dt dt')
  have r: "string_round raw syn dt = Inr dt'" using goes_on by (simp add: tracker_round_def)
  let ?x = "drop (dt_pos dt) raw"
  have lt: "dt_pos dt < length raw" using r by (auto simp: string_round_def split: if_splits)
  have "\<not> prefix (param_end syn) ?x" using goes_on(6) by (auto simp: find_lit_None dest: spec [of _ 0])
  then have f: "\<not> raw_full_lit raw (dt_pos dt) (param_end syn)" by (simp add: full_lit)
  then have n: "\<not> raw_partial_lit_min raw (dt_pos dt) (param_end syn) 2" and dt': "dt' = dt\<lparr>dt_pos := dt_pos dt + 1\<rparr>"
    using r lt by (auto simp: string_round_def split: if_splits)
  have x: "?x = raw ! dt_pos dt # drop (dt_pos dt + 1) raw" using Cons_nth_drop_Suc [OF lt] by simp
  have "find_lit_bounded (drop (dt_pos dt + 1) raw) (param_end syn) = None"
    using goes_on(6) unfolding find_lit_None x by (metis Suc_le_mono drop_Suc_Cons length_Cons)
  moreover have "begun_tag (param_end syn) ?x = begun_tag (param_end syn) (drop (dt_pos dt + 1) raw)"
  proof
    assume "begun_tag (param_end syn) ?x"
    then obtain i where i: "i < length ?x" "2 \<le> length ?x - i" "length ?x - i < length (param_end syn)" "prefix (drop i ?x) (param_end syn)"
      by (auto simp: begun_tag_def)
    then have "i \<noteq> 0" using n lt by (auto simp: partial_lit_min intro!: gr0I)
    then obtain j where "i = Suc j" by (cases i) auto
    then show "begun_tag (param_end syn) (drop (dt_pos dt + 1) raw)" using i unfolding x begun_tag_def by (intro exI [of _ j]) auto
  next
    assume "begun_tag (param_end syn) (drop (dt_pos dt + 1) raw)"
    then obtain j where "j < length (drop (dt_pos dt + 1) raw)" "2 \<le> length (drop (dt_pos dt + 1) raw) - j"
      "length (drop (dt_pos dt + 1) raw) - j < length (param_end syn)" "prefix (drop j (drop (dt_pos dt + 1) raw)) (param_end syn)"
      by (auto simp: begun_tag_def)
    then show "begun_tag (param_end syn) ?x" unfolding x begun_tag_def by (intro exI [of _ "Suc j"]) auto
  qed
  ultimately show ?case using goes_on(3,4,5) dt' goes_on(2) by (simp add: update_step [OF goes_on(1)])
qed

end
