(* ===== verification/DecodeReference.thy ===== *)
theory DecodeReference
  imports DecodeProofs
begin

text \<open>
  The tracker against the slow recognizer of the server's own tests: both give the same state of a text,
  except behind a JSON value that quotes the end tag of its parameter.
\<close>

section \<open>The tracker and the reference recognizer\<close>

text \<open>Whether a JSON text is inside a quoted string, with the flags the scanners keep.\<close>

definition json_flags :: "bool \<times> bool \<Rightarrow> char \<Rightarrow> bool \<times> bool" where
  "json_flags f c = (if fst f then (if snd f then (True, False) else (c \<noteq> CHR 0x22, c = CHR 0x5C)) else (c = CHR 0x22, snd f))"

definition open_at :: "string \<Rightarrow> nat \<Rightarrow> bool \<times> bool \<Rightarrow> nat \<Rightarrow> bool" where
  "open_at raw pos f p = fst (foldl json_flags f (take (p - pos) (drop pos raw)))"

lemma open_at_self [simp]: "open_at raw pos f pos = fst f"
  by (simp add: open_at_def)

lemma open_at_next:
  assumes "pos < length raw" "pos < p"
  shows "open_at raw pos f p = open_at raw (Suc pos) (json_flags f (raw ! pos)) p"
proof -
  obtain n where n: "p - pos = Suc n" "p - Suc pos = n" using assms(2) by (metis Suc_diff_Suc)
  show ?thesis by (simp add: open_at_def n Cons_nth_drop_Suc [OF assms(1), symmetric])
qed

lemma foldl_flags_plain: "CHR 0x22 \<notin> set v \<Longrightarrow> fst (foldl json_flags f v) = fst f"
  by (induction v arbitrary: f) (auto simp: json_flags_def)

lemma scan_step:
  assumes "pos < length raw"
  shows "scan_json_loop raw pe pos (fst g) (snd g) = (if \<not> fst g \<and> raw_full_lit raw pos pe then None
     else scan_json_loop raw pe (Suc pos) (fst (json_flags g (raw ! pos))) (snd (json_flags g (raw ! pos))))"
  by (subst scan_json_loop.simps) (use assms in \<open>auto simp: json_flags_def\<close>)

lemma scan_spec:
  "case scan_json_loop raw pe pos (fst f) (snd f) of
     None \<Rightarrow> \<exists>p. pos \<le> p \<and> p < length raw \<and> raw_full_lit raw p pe \<and> \<not> open_at raw pos f p \<and>
       (\<forall>j. pos \<le> j \<and> j < p \<and> raw_full_lit raw j pe \<longrightarrow> open_at raw pos f j)
   | Some s \<Rightarrow> (\<forall>j. pos \<le> j \<and> j < length raw \<and> raw_full_lit raw j pe \<longrightarrow> open_at raw pos f j) \<and> (pos \<le> length raw \<longrightarrow> s = open_at raw pos f (length raw))"
proof (induction "length raw - pos" arbitrary: pos f)
  case 0
  then show ?case by (auto simp: scan_json_loop.simps [of raw pe pos])
next
  case (Suc n)
  then have lt: "pos < length raw" by simp
  let ?f = "json_flags f (raw ! pos)"
  have all: "(\<forall>j. pos \<le> j \<and> j < m \<and> raw_full_lit raw j pe \<longrightarrow> open_at raw pos f j) \<longleftrightarrow>
      (\<forall>j. Suc pos \<le> j \<and> j < m \<and> raw_full_lit raw j pe \<longrightarrow> open_at raw (Suc pos) ?f j)" if "\<not> (\<not> fst f \<and> raw_full_lit raw pos pe)" for m
    using that open_at_next [OF lt] by (metis Suc_le_eq le_eq_less_or_eq open_at_self)
  show ?case
  proof (cases "\<not> fst f \<and> raw_full_lit raw pos pe")
    case True
    then have "scan_json_loop raw pe pos (fst f) (snd f) = None" unfolding scan_step [OF lt] by simp
    then show ?thesis using lt True by (auto intro!: exI [of _ pos])
  next
    case False
    note eq = scan_step [OF lt, where g = f and pe = pe, unfolded if_not_P [OF False]]
    have "n = length raw - Suc pos" using Suc(2) by simp
    from Suc(1) [OF this, of ?f] show ?thesis unfolding eq all [OF False]
      using lt open_at_next [OF lt, where f = f] by (auto split: option.splits simp: Suc_le_eq intro: less_imp_le)
  qed
qed

lemma full_lit_lt: "raw_full_lit raw pos lit \<Longrightarrow> lit \<noteq> [] \<Longrightarrow> pos < length raw"
  using full_lit_bounds [of raw pos lit] by (cases lit) auto

text \<open>A value whose end tag is there: the tracker goes on behind it.\<close>

definition past_value :: "string \<Rightarrow> dsml_decode_tracker \<Rightarrow> dsml_syntax \<Rightarrow> nat \<Rightarrow> bool" where
  "past_value raw dt syn p \<longleftrightarrow> (\<exists>dt'. tracker_wf raw dt' \<and> dt_mode dt' = DSML_TRACK_STRUCTURAL \<and> dt_syn dt' = Some syn \<and> dt_pos dt' = p \<and>
     dsml_decode_tracker_update dt raw = dsml_decode_tracker_update dt' raw)"

lemma past_value_round:
  assumes "tracker_wf raw dt" "tracker_round raw dt = Inr dt'"
  shows "past_value raw dt' syn p \<Longrightarrow> past_value raw dt syn p"
    "dt' = close_param syn dt \<Longrightarrow> dt_syn dt = Some syn \<Longrightarrow> past_value raw dt syn (dt_pos dt + length (param_end syn))"
proof -
  have eq: "dsml_decode_tracker_update dt raw = dsml_decode_tracker_update dt' raw" using assms by (simp add: update_step)
  show "past_value raw dt' syn p \<Longrightarrow> past_value raw dt syn p" by (simp add: past_value_def eq)
  show "dt' = close_param syn dt \<Longrightarrow> dt_syn dt = Some syn \<Longrightarrow> past_value raw dt syn (dt_pos dt + length (param_end syn))"
    using round_progress [OF assms] unfolding past_value_def eq by (intro exI [of _ dt']) (simp add: close_param_def)
qed

lemma string_body_closed:
  assumes "tracker_wf raw dt" "dt_mode dt = DSML_TRACK_STRING_BODY" "dt_syn dt = Some syn"
    "find_lit_bounded (drop (dt_pos dt) raw) (param_end syn) = Some k"
  shows "past_value raw dt syn (dt_pos dt + k + length (param_end syn))"
  using assms
proof (induction k arbitrary: dt)
  case 0
  have syn: "syn \<in> set dsml_syntaxes" and le: "dt_pos dt \<le> length raw" using 0 by (auto simp: tracker_wf_def)
  have "raw_full_lit raw (dt_pos dt) (param_end syn)" using 0(4) le by (simp add: full_lit find_lit_Some)
  moreover from this have "dt_pos dt < length raw" by (rule full_lit_lt) (rule table_lits(2) [OF syn])
  ultimately have "tracker_round raw dt = Inr (close_param syn dt)" using 0 by (simp add: tracker_round_def string_round_def)
  then show ?case using past_value_round(2) [OF 0(1)] 0(3) by simp
next
  case (Suc k)
  let ?x = "drop (dt_pos dt) raw" and ?dt = "dt\<lparr>dt_pos := Suc (dt_pos dt)\<rparr>"
  have f: "Suc k \<le> length ?x" "prefix (param_end syn) (drop (Suc k) ?x)" "\<And>j. j < Suc k \<Longrightarrow> \<not> prefix (param_end syn) (drop j ?x)"
    using Suc.prems(4) by (auto simp: find_lit_Some)
  have lt: "dt_pos dt < length raw" using f(1) by simp
  have long: "length (param_end syn) \<le> length raw - dt_pos dt" using prefix_length_le [OF f(2)] by simp
  have "\<not> raw_full_lit raw (dt_pos dt) (param_end syn)" using f(3) [of 0] by (simp add: full_lit)
  then have r: "tracker_round raw dt = Inr ?dt" using Suc.prems lt long by (simp add: tracker_round_def string_round_def partial_lit_min)
  have x: "?x = raw ! dt_pos dt # drop (Suc (dt_pos dt)) raw" using Cons_nth_drop_Suc [OF lt] by simp
  have "find_lit_bounded (drop (Suc (dt_pos dt)) raw) (param_end syn) = Some k"
    using f(1,2) f(3) [of "Suc j" for j] unfolding find_lit_Some x by simp
  then have "past_value raw ?dt syn (dt_pos ?dt + k + length (param_end syn))"
    using Suc.IH [of ?dt] round_progress [OF Suc.prems(1) r] Suc.prems by simp
  then show ?case using past_value_round(1) [OF Suc.prems(1) r] by simp
qed

definition flags_of :: "dsml_decode_tracker \<Rightarrow> bool \<times> bool" where
  "flags_of dt = (dt_json_in_string dt, dt_json_escaped dt)"

lemma flags_json_char: "flags_of (json_char c (dt\<lparr>dt_pos := p\<rparr>)) = json_flags (flags_of dt) c"
  by (auto simp: flags_of_def json_char_def json_flags_def)

lemma json_body_closed:
  assumes "tracker_wf raw dt" "dt_mode dt = DSML_TRACK_JSON_PARAM" "dt_syn dt = Some syn"
    "dt_pos dt \<le> p" "raw_full_lit raw p (param_end syn)" "\<not> open_at raw (dt_pos dt) (flags_of dt) p"
    "\<And>j. dt_pos dt \<le> j \<Longrightarrow> j < p \<Longrightarrow> raw_full_lit raw j (param_end syn) \<Longrightarrow> open_at raw (dt_pos dt) (flags_of dt) j"
  shows "past_value raw dt syn (p + length (param_end syn))"
  using assms
proof (induction "p - dt_pos dt" arbitrary: dt)
  case 0
  have syn: "syn \<in> set dsml_syntaxes" using 0 by (auto simp: tracker_wf_def)
  have p: "dt_pos dt = p" "p < length raw" using 0 full_lit_lt [OF 0(6) table_lits(2) [OF syn]] by simp_all
  have "tracker_round raw dt = Inr (close_param syn dt)" using 0 p by (simp add: tracker_round_def json_round_def flags_of_def)
  then show ?case using past_value_round(2) [OF 0(2)] 0 p by simp
next
  case (Suc n)
  let ?f = "flags_of dt" and ?dt = "json_char (raw ! dt_pos dt) (dt\<lparr>dt_pos := Suc (dt_pos dt)\<rparr>)"
  have lt: "dt_pos dt < p" "dt_pos dt < length raw" using Suc(2) full_lit_bounds [OF Suc.prems(5)] by simp_all
  have long: "length (param_end syn) \<le> length raw - dt_pos dt" using full_lit_bounds [OF Suc.prems(5)] lt by simp
  have "dt_json_in_string dt" if "raw_full_lit raw (dt_pos dt) (param_end syn)"
    using Suc.prems(7) [OF le_refl lt(1) that] by (simp add: flags_of_def)
  then have r: "tracker_round raw dt = Inr ?dt" using Suc.prems lt long by (auto simp: tracker_round_def json_round_def partial_lit_min)
  note nxt = open_at_next [OF lt(2), where f = ?f]
  have "past_value raw ?dt syn (p + length (param_end syn))"
  proof (rule Suc.hyps(1))
    show "open_at raw (dt_pos ?dt) (flags_of ?dt) j" if "dt_pos ?dt \<le> j" "j < p" "raw_full_lit raw j (param_end syn)" for j
      using Suc.prems(7) [of j] nxt [of j] that by (simp add: flags_json_char)
  qed (use Suc.hyps(2) Suc.prems round_progress [OF Suc.prems(1) r] nxt [OF lt(1)] lt in \<open>simp_all add: flags_json_char\<close>)
  then show ?case by (rule past_value_round(1) [OF Suc.prems(1) r])
qed

lemma begun_tag_next:
  assumes "pos < length raw"
  shows "begun_tag lit (drop pos raw) \<longleftrightarrow> raw_partial_lit_min raw pos lit 2 \<or> begun_tag lit (drop (Suc pos) raw)"
proof -
  have x: "drop pos raw = raw ! pos # drop (Suc pos) raw" using Cons_nth_drop_Suc [OF assms] by simp
  have 0: "raw_partial_lit_min raw pos lit 2 \<longleftrightarrow> 2 \<le> length (drop pos raw) \<and> length (drop pos raw) < length lit \<and> prefix (drop pos raw) lit"
    using assms by (auto simp: partial_lit_min)
  show ?thesis unfolding 0 unfolding begun_tag_def x length_Cons Ex_less_Suc2 by simp
qed

lemma partial_keeps_flag:
  assumes "raw_partial_lit_min raw pos lit n" "CHR 0x22 \<notin> set lit"
  shows "open_at raw pos f (length raw) = fst f"
proof -
  have "set (drop pos raw) \<subseteq> set lit" using assms(1) set_mono_prefix by (auto simp: partial_lit_min)
  then have "CHR 0x22 \<notin> set (drop pos raw)" using assms(2) by blast
  then show ?thesis by (simp add: open_at_def foldl_flags_plain)
qed

lemma json_body_open:
  assumes "tracker_wf raw dt" "CHR 0x22 \<notin> set (param_end syn)"
  shows "dt_mode dt = DSML_TRACK_JSON_PARAM \<Longrightarrow> dt_syn dt = Some syn \<Longrightarrow>
    (\<And>j. dt_pos dt \<le> j \<Longrightarrow> raw_full_lit raw j (param_end syn) \<Longrightarrow> open_at raw (dt_pos dt) (flags_of dt) j) \<Longrightarrow>
    dt_decode (dsml_decode_tracker_update dt raw) =
      (if open_at raw (dt_pos dt) (flags_of dt) (length raw) then DSML_DECODE_JSON_STRING
       else if begun_tag (param_end syn) (drop (dt_pos dt) raw) then DSML_DECODE_STRUCTURAL else DSML_DECODE_JSON_STRUCTURAL)"
  using assms(1)
proof (induction rule: update_induct)
  case (return dt dt')
  have r: "json_round raw syn dt = Inl dt'" using return by (simp add: tracker_round_def)
  show ?case
  proof (cases "dt_pos dt < length raw")
    case True
    then have p: "raw_partial_lit_min raw (dt_pos dt) (param_end syn) 2" "\<not> dt_json_in_string dt" "dt_decode dt' = DSML_DECODE_STRUCTURAL"
      using r by (auto simp: json_round_def split: if_splits)
    then have "\<not> open_at raw (dt_pos dt) (flags_of dt) (length raw)"
      using partial_keeps_flag [OF p(1) assms(2)] by (simp add: flags_of_def)
    then show ?thesis using p begun_tag_next [OF True] return(1,2) by (simp add: update_step [OF return(1)])
  next
    case False
    then show ?thesis using r return(1,2)
      by (auto simp: update_step [OF return(1)] begun_tag_def json_round_def open_at_def flags_of_def)
  qed
next
  case (goes_on dt dt')
  have r: "json_round raw syn dt = Inr dt'" using goes_on by (simp add: tracker_round_def)
  have lt: "dt_pos dt < length raw" using r by (auto simp: json_round_def split: if_splits)
  have full: "dt_json_in_string dt" if "raw_full_lit raw (dt_pos dt) (param_end syn)" using goes_on(6) [OF le_refl that] by (simp add: flags_of_def)
  then have dt': "dt' = json_char (raw ! dt_pos dt) (dt\<lparr>dt_pos := Suc (dt_pos dt)\<rparr>)" and part: "\<not> dt_json_in_string dt \<Longrightarrow> \<not> raw_partial_lit_min raw (dt_pos dt) (param_end syn) 2"
    using r lt by (auto simp: json_round_def split: if_splits)
  note nxt = open_at_next [OF lt, where f = "flags_of dt"]
  have IH: "dt_decode (dsml_decode_tracker_update dt' raw) =
      (if open_at raw (dt_pos dt') (flags_of dt') (length raw) then DSML_DECODE_JSON_STRING
       else if begun_tag (param_end syn) (drop (dt_pos dt') raw) then DSML_DECODE_STRUCTURAL else DSML_DECODE_JSON_STRUCTURAL)"
  proof (rule goes_on(3))
    show "open_at raw (dt_pos dt') (flags_of dt') j" if "dt_pos dt' \<le> j" "raw_full_lit raw j (param_end syn)" for j
      using goes_on(6) [of j] nxt [of j] that by (simp add: dt' flags_json_char)
  qed (use goes_on(4,5) in \<open>simp_all add: dt'\<close>)
  have "open_at raw (dt_pos dt) (flags_of dt) (length raw)" if "raw_partial_lit_min raw (dt_pos dt) (param_end syn) 2"
    using partial_keeps_flag [OF that assms(2), of "flags_of dt"] part that by (auto simp: flags_of_def)
  then show ?case using IH begun_tag_next [OF lt] nxt [OF lt] goes_on(2) by (auto simp: update_step [OF goes_on(1)] dt' flags_json_char)
qed

lemma end_tag_chars: "list_all (\<lambda>syn. CHR 0x22 \<notin> set (param_end syn) \<and> CHR ''>'' \<notin> set (butlast (param_end syn))) dsml_syntaxes"
  by code_simp

lemma tag_after_bracket: "tag_after raw q = Some e \<Longrightarrow> q \<le> length raw \<Longrightarrow> 0 < e \<and> e \<le> length raw \<and> raw ! (e - 1) = CHR ''>''"
  using tag_after_bounds [of raw q e] by (auto simp: tag_after_def find_lit_Some prefix_def add.commute dest!: arg_cong [of _ _ "\<lambda>x. x ! 0"])

lemma suffix_partial:
  assumes "tag_after raw q = Some e" "q \<le> length raw" "lit \<noteq> []" "CHR ''>'' \<notin> set (butlast lit)"
  shows "raw_suffix_partial_lit raw lit 2 \<longleftrightarrow> begun_tag lit (drop e raw)"
proof
  note e = tag_after_bracket [OF assms(1,2)]
  assume "raw_suffix_partial_lit raw lit 2"
  then obtain n where n: "2 \<le> n" "n \<le> length raw" "n < length lit" "drop (length raw - n) raw = take n lit"
    using assms(3) by (auto simp: raw_suffix_partial_lit_def list_ex_iff split: if_splits)
  have "e \<le> length raw - n"
  proof (rule ccontr)
    assume c: "\<not> ?thesis"
    have "drop (length raw - n) raw ! (e - 1 - (length raw - n)) = raw ! (e - 1)" using c e n(2) by (subst nth_drop) auto
    moreover have "e - 1 - (length raw - n) < length (drop (length raw - n) raw)" using c e n(2) by auto
    ultimately have "raw ! (e - 1) \<in> set (drop (length raw - n) raw)" by (metis nth_mem)
    moreover have "set (take n lit) \<subseteq> set (butlast lit)" using n(3) by (simp add: butlast_conv_take set_take_subset_set_take)
    ultimately show False using assms(4) n(4) e by auto
  qed
  then show "begun_tag lit (drop e raw)" using n unfolding begun_tag_def
    by (intro exI [of _ "length raw - n - e"]) (auto simp: take_is_prefix)
next
  assume "begun_tag lit (drop e raw)"
  then obtain i where i: "i < length raw - e" "2 \<le> length raw - e - i" "length raw - e - i < length lit" "prefix (drop (e + i) raw) lit"
    by (auto simp: begun_tag_def add.commute)
  then show "raw_suffix_partial_lit raw lit 2" using assms(3) unfolding raw_suffix_partial_lit_def list_ex_iff
    by (auto intro!: bexI [of _ "length raw - e - i"] simp: prefix_take)
qed

text \<open>
  No end tag inside a quoted JSON string: the first end tag behind the tag of a parameter that is not
  \<^verbatim>\<open>string="true"\<close> stands where a JSON reading of the value is outside a string.  The values of string
  parameters are free, and so is what only looks like a tag inside of them.
\<close>

definition plain_value :: "string \<Rightarrow> dsml_syntax \<Rightarrow> nat \<Rightarrow> bool" where
  "plain_value raw syn e \<longleftrightarrow> (case find_lit_bounded (drop e raw) (param_end syn) of None \<Rightarrow> True
     | Some k \<Rightarrow> \<not> open_at raw e (False, False) (e + k))"

text \<open>The JSON value that begins behind the tag at a position, and all those the calls of a text hold.\<close>

definition json_value_at :: "string \<Rightarrow> dsml_syntax \<Rightarrow> nat \<Rightarrow> nat list" where
  "json_value_at raw syn pos = (let q = skip_blanks raw pos in if \<not> raw_full_lit raw q (param_start syn) then []
     else case tag_after raw q of None \<Rightarrow> [] | Some e \<Rightarrow> if dsml_attr_is_string_true raw q e then [] else [e])"

function json_values :: "string \<Rightarrow> dsml_syntax \<Rightarrow> nat \<Rightarrow> nat list" where
  "json_values raw syn pos = json_value_at raw syn pos @ (case ref_round raw syn pos of Inl st \<Rightarrow> []
     | Inr pos' \<Rightarrow> if pos < pos' \<and> pos < length raw then json_values raw syn pos' else [])"
  by pat_completeness auto

termination json_values
  by (relation "measure (\<lambda>(raw, _, pos). length raw - pos)") auto

declare json_values.simps [simp del]

definition plain_values :: "string \<Rightarrow> bool" where
  "plain_values raw \<longleftrightarrow> (case dsml_find_tool_start raw of None \<Rightarrow> True
     | Some (pos, syn) \<Rightarrow> list_all (plain_value raw syn) (json_values raw syn pos))"

lemma find_lit_at: "pos \<le> length raw \<Longrightarrow> find_lit_bounded (drop pos raw) lit = Some k \<Longrightarrow>
    raw_full_lit raw (pos + k) lit \<and> (\<forall>j. pos \<le> j \<and> j < pos + k \<longrightarrow> \<not> raw_full_lit raw j lit)"
  unfolding find_lit_Some full_lit
  by (auto simp: add.commute) (metis add.commute le_Suc_ex nat_add_left_cancel_less)

lemma find_lit_at_None: "find_lit_bounded (drop pos raw) lit = None \<Longrightarrow> pos \<le> j \<Longrightarrow> \<not> raw_full_lit raw j lit"
  unfolding find_lit_None full_lit by (auto dest!: spec [of _ "j - pos"])

text \<open>Both agree on what a parameter value is and where it ends.\<close>

lemma ref_param_tracker:
  assumes plain: "\<not> string_value \<Longrightarrow> plain_value raw syn e" and q: "q < length raw" "raw_full_lit raw q (param_start syn)" "tag_after raw q = Some e"
    and syn: "syn \<in> set dsml_syntaxes" and wf: "tracker_wf raw dt"
    and dt: "dt_syn dt = Some syn" "dt_pos dt = e" "dt_mode dt = (if string_value then DSML_TRACK_STRING_BODY else DSML_TRACK_JSON_PARAM)"
      "\<not> string_value \<longrightarrow> flags_of dt = (False, False)"
  shows "case ref_param raw syn string_value e of Inl st \<Rightarrow> dt_decode (dsml_decode_tracker_update dt raw) = st
    | Inr p \<Rightarrow> past_value raw dt syn p"
proof -
  let ?find = "find_lit_bounded (drop e raw) (param_end syn)" and ?scan = "scan_json_loop raw (param_end syn) e False False"
  have le: "q \<le> length raw" "e \<le> length raw" using q tag_after_bounds by auto
  have suf: "raw_suffix_partial_lit raw (param_end syn) 2 \<longleftrightarrow> begun_tag (param_end syn) (drop e raw)"
    using suffix_partial [OF q(3) le(1)] table_lits(2) [OF syn] end_tag_chars syn by (simp add: list_all_iff)
  have noq: "CHR 0x22 \<notin> set (param_end syn)" using end_tag_chars syn by (simp add: list_all_iff)
  have out: "\<not> open_at raw e (False, False) (e + k)" if "?find = Some k" "\<not> string_value" for k
    using plain that by (simp add: plain_value_def)
  note scan = scan_spec [where raw = raw and pe = "param_end syn" and pos = e and f = "(False, False)", unfolded fst_conv snd_conv]
  show ?thesis
  proof (cases string_value)
    case True
    then show ?thesis using string_body_closed [OF wf _ dt(1)] string_body_open [OF wf _ dt(1)] dt suf
      by (auto simp: ref_param_def Let_def split: option.splits)
  next
    case js: False
    show ?thesis
    proof (cases ?find)
      case None
      then have "?scan = Some (open_at raw e (False, False) (length raw))"
        using scan find_lit_at_None [OF None] le by (auto split: option.splits)
      moreover have "dt_decode (dsml_decode_tracker_update dt raw) =
        (if open_at raw e (False, False) (length raw) then DSML_DECODE_JSON_STRING
         else if begun_tag (param_end syn) (drop e raw) then DSML_DECODE_STRUCTURAL else DSML_DECODE_JSON_STRUCTURAL)"
        using json_body_open [OF wf noq _ dt(1)] find_lit_at_None [OF None] dt js by auto
      ultimately show ?thesis using None js suf by (simp add: ref_param_def dsml_decode_scan_json_param_def)
    next
      case (Some k)
      note at = find_lit_at [OF le(2) Some]
      have "e + k < length raw" using full_lit_lt [OF _ table_lits(2) [OF syn]] at by blast
      then have "?scan = None" using scan at out [OF Some js] by (auto split: option.splits)
      moreover have "past_value raw dt syn (e + k + length (param_end syn))"
        by (rule json_body_closed [OF wf _ dt(1)]) (use at dt js out [OF Some js] in auto)
      ultimately show ?thesis using Some js by (simp add: ref_param_def dsml_decode_scan_json_param_def)
    qed
  qed
qed

lemma open_param_pos: "open_param sv e (dt\<lparr>dt_pos := p\<rparr>) = open_param sv e dt"
  by (simp add: open_param_def)

lemma structural_round_ref:
  assumes "dt_mode dt = DSML_TRACK_STRUCTURAL"
  shows "structural_round raw syn dt = Inl dt' \<Longrightarrow> ref_round raw syn (dt_pos dt) = Inl (dt_decode dt')"
    "structural_round raw syn dt = Inr dt' \<Longrightarrow>
      dt_mode dt' = DSML_TRACK_STRUCTURAL \<and> dt_syn dt' = dt_syn dt \<and> ref_round raw syn (dt_pos dt) = Inr (dt_pos dt') \<or>
      (\<exists>q e. q = skip_blanks raw (dt_pos dt) \<and> q < length raw \<and> raw_full_lit raw q (param_start syn) \<and> tag_after raw q = Some e \<and>
         dt' = open_param (dsml_attr_is_string_true raw q e) e dt \<and> ref_round raw syn (dt_pos dt) = ref_param raw syn (dsml_attr_is_string_true raw q e) e)"
  using assms by (auto simp: structural_round_def ref_round_def Let_def not_le open_param_pos split: if_splits option.splits)

lemma ref_param_behind: "ref_param raw syn sv e = Inr p \<Longrightarrow> e \<le> p"
  by (auto simp: ref_param_def Let_def split: if_splits option.splits)

lemma ref_loop_tracker:
  "list_all (plain_value raw syn) (json_values raw syn (dt_pos dt)) \<Longrightarrow> tracker_wf raw dt \<Longrightarrow> dt_mode dt = DSML_TRACK_STRUCTURAL \<Longrightarrow> dt_syn dt = Some syn \<Longrightarrow>
    dt_decode (dsml_decode_tracker_update dt raw) = ref_loop raw syn (dt_pos dt)"
proof (induction "length raw - dt_pos dt" arbitrary: dt rule: less_induct)
  case less
  have syn: "syn \<in> set dsml_syntaxes" using less.prems by (auto simp: tracker_wf_def)
  have round: "tracker_round raw dt = structural_round raw syn dt" using less.prems by (simp add: tracker_round_def)
  note loop = ref_loop.simps [of raw syn "dt_pos dt"] and step = update_step [OF less.prems(2)]
  show ?case
  proof (cases "structural_round raw syn dt")
    case (Inl dt')
    then show ?thesis using structural_round_ref(1) [OF less.prems(3) Inl] by (simp add: loop step round)
  next
    case (Inr dt')
    have prog: "dt_pos dt < dt_pos dt'" "dt_pos dt < length raw" "tracker_wf raw dt'" using round_progress [OF less.prems(2)] round Inr by auto
    have eq: "dsml_decode_tracker_update dt raw = dsml_decode_tracker_update dt' raw" using Inr by (simp add: step round)
    note plain = less.prems(1) [unfolded json_values.simps [of raw syn "dt_pos dt"]]
    from structural_round_ref(2) [OF less.prems(3) Inr] show ?thesis
    proof (elim disjE exE conjE)
      assume "dt_mode dt' = DSML_TRACK_STRUCTURAL" "dt_syn dt' = dt_syn dt" "ref_round raw syn (dt_pos dt) = Inr (dt_pos dt')"
      then show ?thesis using less.hyps [of dt'] less.prems prog plain by (simp add: eq loop)
    next
      fix q e
      define sv where "sv = dsml_attr_is_string_true raw q e"
      assume q_def: "q = skip_blanks raw (dt_pos dt)" and q: "q < length raw" "raw_full_lit raw q (param_start syn)" "tag_after raw q = Some e" and "dt' = open_param (dsml_attr_is_string_true raw q e) e dt"
        "ref_round raw syn (dt_pos dt) = ref_param raw syn (dsml_attr_is_string_true raw q e) e"
      then have dt': "dt' = open_param sv e dt" and r: "ref_round raw syn (dt_pos dt) = ref_param raw syn sv e" by (simp_all add: sv_def)
      have v: "\<not> sv \<longrightarrow> json_value_at raw syn (dt_pos dt) = [e]" using q by (simp add: json_value_at_def sv_def q_def Let_def)
      have "case ref_param raw syn sv e of Inl st \<Rightarrow> dt_decode (dsml_decode_tracker_update dt' raw) = st | Inr p \<Rightarrow> past_value raw dt' syn p"
        by (rule ref_param_tracker [OF _ q syn prog(3)]) (use less.prems dt' v plain in \<open>auto simp: open_param_def flags_of_def\<close>)
      moreover have "dt_pos dt' = e" using dt' by (simp add: open_param_def)
      ultimately show ?thesis using less.hyps prog plain ref_param_behind [of raw syn sv e]
        by (fastforce simp: eq loop r past_value_def split: sum.splits)
    qed
  qed
qed

lemma search_round_init:
  "dt_decode (dsml_decode_tracker_update dsml_decode_tracker_init raw) = (case dsml_find_tool_start raw of None \<Rightarrow> DSML_DECODE_OUTSIDE
     | Some (pos, syn) \<Rightarrow> dt_decode (dsml_decode_tracker_update (dsml_decode_tracker_init
         \<lparr>dt_syn := Some syn, dt_pos := pos, dt_mode := DSML_TRACK_STRUCTURAL, dt_decode := DSML_DECODE_STRUCTURAL\<rparr>) raw))"
  using update_step [of raw dsml_decode_tracker_init]
  by (auto simp: tracker_wf_def dsml_decode_tracker_init_def tracker_round_def search_round_def dsml_find_tool_start_from_def split: option.splits)

text \<open>
  C8.  The incremental tracker agrees with the slow recognizer the tests compare it with, on every text in which no
  JSON value quotes the end tag of its parameter.
\<close>

theorem tracker_agrees_with_reference:
  assumes "plain_values raw"
  shows "dt_decode (dsml_decode_tracker_update dsml_decode_tracker_init raw) = dsml_decode_state_for_text raw"
proof (cases "dsml_find_tool_start raw")
  case None
  then show ?thesis unfolding search_round_init by (simp add: dsml_decode_state_for_text_def)
next
  case (Some x)
  obtain pos syn where x: "x = (pos, syn)" by (cases x)
  let ?dt = "dsml_decode_tracker_init\<lparr>dt_syn := Some syn, dt_pos := pos, dt_mode := DSML_TRACK_STRUCTURAL, dt_decode := DSML_DECODE_STRUCTURAL\<rparr>"
  have wf: "tracker_wf raw dsml_decode_tracker_init" by (simp add: tracker_wf_def dsml_decode_tracker_init_def)
  have "tracker_round raw dsml_decode_tracker_init = Inr ?dt"
    using Some x by (simp add: tracker_round_def search_round_def dsml_decode_tracker_init_def dsml_find_tool_start_from_def)
  from round_progress [OF wf this] have "raw \<noteq> []" "tracker_wf raw ?dt" by auto
  then show ?thesis unfolding search_round_init using ref_loop_tracker [of raw syn ?dt] assms Some x
    by (simp add: dsml_decode_state_for_text_def plain_values_def)
qed

definition disk_call :: string where
  "disk_call = ''<tool_calls><invoke name=\"f\"><parameter name=\"s\" string=\"true\">5\" disk</parameter><parameter name=\"a\" string=\"false\">{\"k\":\"v''"

theorem tracker_agrees_with_reference_witness:
  "plain_values disk_call \<and> dsml_decode_state_for_text disk_call = DSML_DECODE_JSON_STRING \<and>
   dt_decode (dsml_decode_tracker_update dsml_decode_tracker_init disk_call) = DSML_DECODE_JSON_STRING"
proof -
  have p: "plain_values disk_call" by code_simp
  have r: "dsml_decode_state_for_text disk_call = DSML_DECODE_JSON_STRING" by code_simp
  show ?thesis using tracker_agrees_with_reference [OF p] p r by simp
qed

text \<open>
  The hypothesis is needed.  Behind a JSON value that quotes its end tag the tracker reads on to the real end,
  while the recognizer of the tests goes on behind the quoted tag.
\<close>

theorem quoted_end_tag_divides:
  "dsml_decode_state_for_text ''<tool_calls><invoke name=\"f\"><parameter name=\"a\">[\"</parameter>\",1]</parameter><parameter name=\"b\" string=\"true\">x'' = DSML_DECODE_STRUCTURAL"
  "dt_decode (dsml_decode_tracker_update dsml_decode_tracker_init
     ''<tool_calls><invoke name=\"f\"><parameter name=\"a\">[\"</parameter>\",1]</parameter><parameter name=\"b\" string=\"true\">x'') = DSML_DECODE_STRING_BODY"
  by code_simp+

end
