(* ===== verification/OpenAiStream.thy ===== *)
theory OpenAiStream
  imports DecodeTracker ApiRequests
begin

text \<open>
  Streaming a chat answer to an OpenAI client (\<^verbatim>\<open>server.c\<close>): reasoning, content and tool calls are sent
  as deltas while the text is generated.  A delta is a value of \<open>chat_delta\<close> here and \<open>delta_bytes\<close> is the event it is
  sent as.  The text so far is a C string, so it has no NUL and its length is \<^verbatim>\<open>raw_len\<close>.
\<close>

section \<open>Events\<close>

datatype chat_delta = Reasoning_delta string | Content_delta string | Tool_start nat string string | Tool_args nat string
  | Raw_event string

definition chunk_head :: "request \<Rightarrow> string \<Rightarrow> int \<Rightarrow> string" where
  "chunk_head r i now = ''data: {\"id\":\"'' @ i @ ''\",\"object\":\"chat.completion.chunk\",\"created\":'' @ show_int now @ '',\"model\":'' @
     json_escape (of_ptr (rq_model r))"

definition chunk_end :: string where
  "chunk_end = '',\"finish_reason\":null}]}'' @ nl @ nl"

definition sse_chat_delta_n :: "request \<Rightarrow> string \<Rightarrow> int \<Rightarrow> string \<Rightarrow> string \<Rightarrow> string" where
  "sse_chat_delta_n r i now field t = chunk_head r i now @ '',\"choices\":[{\"index\":0,\"delta\":{'' @ json_escape field @ '':'' @
     json_escape_n (Some t) (length t) @ ''}'' @ chunk_end"

definition sse_chat_tool_call_start_delta :: "request \<Rightarrow> string \<Rightarrow> int \<Rightarrow> nat \<Rightarrow> string option \<Rightarrow> string option \<Rightarrow> string" where
  "sse_chat_tool_call_start_delta r i now index tool_id name = chunk_head r i now @
     '',\"choices\":[{\"index\":0,\"delta\":{\"tool_calls\":[{\"index\":'' @ show_int (int index) @ '',\"id\":'' @ json_escape (of_ptr tool_id) @
     '',\"type\":\"function\",\"function\":{\"name\":'' @ json_escape (of_ptr name) @ '',\"arguments\":\"\"}}]}'' @ chunk_end"

definition sse_chat_tool_call_args_delta_n :: "request \<Rightarrow> string \<Rightarrow> int \<Rightarrow> nat \<Rightarrow> string \<Rightarrow> string" where
  "sse_chat_tool_call_args_delta_n r i now index t = chunk_head r i now @
     '',\"choices\":[{\"index\":0,\"delta\":{\"tool_calls\":[{\"index\":'' @ show_int (int index) @ '',\"function\":{\"arguments\":'' @
     json_escape_n (Some t) (length t) @ ''}}]}'' @ chunk_end"

definition delta_bytes :: "request \<Rightarrow> string \<Rightarrow> int \<Rightarrow> chat_delta \<Rightarrow> string" where
  "delta_bytes r i now d = (case d of
     Reasoning_delta t \<Rightarrow> sse_chat_delta_n r i now ''reasoning_content'' t
   | Content_delta t \<Rightarrow> sse_chat_delta_n r i now ''content'' t
   | Tool_start n tool_id name \<Rightarrow> sse_chat_tool_call_start_delta r i now n (Some tool_id) (Some name)
   | Tool_args n t \<Rightarrow> sse_chat_tool_call_args_delta_n r i now n t
   | Raw_event b \<Rightarrow> b)"

text \<open>
  The world outside: whether the client takes the next event, given those already sent; the random source;
  the ids the memory of tool texts knows.  What has been sent and how many draws were made is the state.
\<close>

record stream_env =
  se_up :: "chat_delta list \<Rightarrow> bool"
  se_draw :: "nat \<Rightarrow> bytes"
  se_known :: "string \<Rightarrow> bool"

record stream_io =
  io_out :: "chat_delta list"
  io_draws :: nat

definition emit :: "stream_env \<Rightarrow> chat_delta \<Rightarrow> stream_io \<Rightarrow> bool \<times> stream_io" where
  "emit env d io = (if se_up env (io_out io) then (True, io\<lparr>io_out := io_out io @ [d]\<rparr>) else (False, io))"

section \<open>Tool calls\<close>

datatype dsml_tool_stream_state = DSML_TOOL_BETWEEN_INVOKES | DSML_TOOL_BETWEEN_PARAMS | DSML_TOOL_PARAM_VALUE | DSML_TOOL_DONE | DSML_TOOL_ERROR

text \<open>The five tags are one row of the table of syntaxes; a stream without one is not active.\<close>

record openai_tool_stream =
  ot_state :: dsml_tool_stream_state
  ot_syn :: "dsml_syntax option"
  ot_parse_pos :: nat
  ot_index :: nat
  ot_active :: bool
  ot_emitted_any :: bool
  ot_args_open :: bool
  ot_first_param :: bool
  ot_param_is_string :: bool
  ot_ids :: "string option list"

definition ot_zero :: openai_tool_stream where
  "ot_zero = \<lparr>ot_state = DSML_TOOL_BETWEEN_INVOKES, ot_syn = None, ot_parse_pos = 0, ot_index = 0, ot_active = False, ot_emitted_any = False,
     ot_args_open = False, ot_first_param = False, ot_param_is_string = False, ot_ids = []\<rparr>"

definition openai_tool_stream_free :: "openai_tool_stream \<Rightarrow> openai_tool_stream" where
  "openai_tool_stream_free ts = ts\<lparr>ot_ids := []\<rparr>"

definition openai_tool_stream_has_id :: "openai_tool_stream \<Rightarrow> string \<Rightarrow> nat \<Rightarrow> bool" where
  "openai_tool_stream_has_id ts i n \<longleftrightarrow> i \<noteq> [] \<and> Some i \<in> set (take n (ot_ids ts))"

function id_cap :: "nat \<Rightarrow> nat \<Rightarrow> nat" where
  "id_cap cap index = (if cap \<le> index \<and> 0 < cap then id_cap (cap * 2) index else cap)"
  by pat_completeness auto

termination id_cap
  by (relation "measure (\<lambda>(cap, index). Suc index - cap)") auto

declare id_cap.simps [simp del]

text \<open>The id of a call is drawn once; \<^const>\<open>None\<close> when the draws never give a free one.\<close>

definition openai_tool_stream_id :: "stream_env \<Rightarrow> openai_tool_stream \<Rightarrow> nat \<Rightarrow> stream_io \<Rightarrow> (string \<times> openai_tool_stream \<times> stream_io) option" where
  "openai_tool_stream_id env ts index io =
     (let old = length (ot_ids ts);
          ids = (if index \<ge> old then ot_ids ts @ replicate (id_cap (if old \<noteq> 0 then old else 4) index - old) None else ot_ids ts);
          ts1 = ts\<lparr>ot_ids := ids\<rparr> in
      case ids ! index of Some i \<Rightarrow> Some (i, ts1, io)
      | None \<Rightarrow> map_option (\<lambda>(i, k). (i, ts1\<lparr>ot_ids := ids[index := Some i]\<rparr>, io\<lparr>io_draws := k\<rparr>))
          (draw_id (se_draw env) API_OPENAI (\<lambda>i. openai_tool_stream_has_id ts1 i index \<or> se_known env i) (io_draws io)))"

text \<open>How much of a value can be sent: no begun end tag, no begun entity, no begun character.\<close>

definition entities :: "string list" where
  "entities = [''&amp;'', ''&lt;'', ''&gt;'', ''&quot;'', ''&apos;'']"

text \<open>The last \<open>c\<close> in front of \<open>limit\<close>, not before \<open>scan\<close>.\<close>

fun last_char :: "string \<Rightarrow> char \<Rightarrow> nat \<Rightarrow> nat \<Rightarrow> nat option" where
  "last_char raw c scan 0 = None"
| "last_char raw c scan (Suc i) = (if scan \<le> i then (if raw ! i = c then Some i else last_char raw c scan i) else None)"

definition dsml_entity_stream_safe_len :: "string \<Rightarrow> nat \<Rightarrow> nat \<Rightarrow> nat" where
  "dsml_entity_stream_safe_len raw start limit =
     (let scan = (if limit > start + 6 then limit - 6 else start) in
      case last_char raw (CHR ''&'') scan limit of None \<Rightarrow> limit
      | Some amp \<Rightarrow> (let tail = limit - amp in
          if list_ex (\<lambda>ent. tail < length ent \<and> take tail (drop amp raw) = take tail ent) entities then amp else limit))"

definition tool_param_value_stream_safe_len :: "string \<Rightarrow> nat \<Rightarrow> string \<Rightarrow> bool \<Rightarrow> nat" where
  "tool_param_value_stream_safe_len raw start pe is_string =
     (let raw_len = length raw; end_len = length pe;
          scan = (if raw_len > start + end_len then raw_len - end_len else start);
          limit = (case last_char raw (CHR ''<'') scan raw_len of None \<Rightarrow> raw_len
            | Some marker \<Rightarrow> (let tail = raw_len - marker in
                if tail < end_len \<and> take tail (drop marker raw) = take tail pe then marker else raw_len));
          limit' = (if is_string then dsml_entity_stream_safe_len raw start limit else limit) in
      utf8_stream_safe_len (Some raw) start limit' False)"

definition openai_tool_emit_args_fragment :: "stream_env \<Rightarrow> openai_tool_stream \<Rightarrow> string \<Rightarrow> stream_io \<Rightarrow> bool \<times> stream_io" where
  "openai_tool_emit_args_fragment env ts t io = (if t = [] then (True, io) else emit env (Tool_args (ot_index ts) t) io)"

definition openai_tool_emit_string_value :: "stream_env \<Rightarrow> openai_tool_stream \<Rightarrow> string \<Rightarrow> stream_io \<Rightarrow> bool \<times> stream_io" where
  "openai_tool_emit_string_value env ts t io = (if t = [] then (True, io)
     else let u = dsml_unescape_text (Some t) in openai_tool_emit_args_fragment env ts (json_escape_fragment_n u (length u)) io)"

definition openai_tool_emit_param_prefix ::
    "stream_env \<Rightarrow> openai_tool_stream \<Rightarrow> string \<Rightarrow> bool \<Rightarrow> stream_io \<Rightarrow> bool \<times> openai_tool_stream \<times> stream_io" where
  "openai_tool_emit_param_prefix env ts name is_string io =
     (let ts1 = ts\<lparr>ot_first_param := False\<rparr>;
          frag = (if ot_first_param ts then [] else '','') @ json_escape name @ '':'' @ (if is_string then dq else []) in
      case openai_tool_emit_args_fragment env ts1 frag io of (ok, io1) \<Rightarrow> (ok, ts1, io1))"

definition openai_tool_stream_init :: "openai_tool_stream \<Rightarrow> string \<Rightarrow> nat \<Rightarrow> bool \<times> openai_tool_stream" where
  "openai_tool_stream_init ts raw pos =
     (case find (\<lambda>syn. raw_full_lit raw pos (tool_calls_start syn)) dsml_syntaxes of
        None \<Rightarrow> (False, ot_zero\<lparr>ot_parse_pos := pos, ot_state := DSML_TOOL_ERROR\<rparr>)
      | Some syn \<Rightarrow> (True, ot_zero\<lparr>ot_active := True, ot_syn := Some syn, ot_parse_pos := pos + length (tool_calls_start syn)\<rparr>))"

definition openai_tool_stream_fail :: "openai_tool_stream \<Rightarrow> openai_tool_stream" where
  "openai_tool_stream_fail ts = ts\<lparr>ot_active := False, ot_state := DSML_TOOL_ERROR\<rparr>"

type_synonym tool_result = "(bool \<times> openai_tool_stream \<times> stream_io) option"

definition tag_text :: "string \<Rightarrow> nat \<Rightarrow> nat \<Rightarrow> string" where
  "tag_text raw pos e = cstr (take (e - pos) (drop pos raw))"

definition openai_tool_start_invoke :: "stream_env \<Rightarrow> string \<Rightarrow> openai_tool_stream \<Rightarrow> stream_io \<Rightarrow> tool_result" where
  "openai_tool_start_invoke env raw ts io =
     (case tag_after raw (ot_parse_pos ts) of None \<Rightarrow> Some (True, ts, io)
      | Some e \<Rightarrow> (case dsml_attr (tag_text raw (ot_parse_pos ts) e) ''name'' of None \<Rightarrow> Some (True, openai_tool_stream_fail ts, io)
        | Some name \<Rightarrow> (case openai_tool_stream_id env ts (ot_index ts) io of None \<Rightarrow> None
          | Some (tool_id, ts1, io1) \<Rightarrow>
              (case emit env (Tool_start (ot_index ts) tool_id name) io1 of (False, io2) \<Rightarrow> Some (False, ts1, io2)
               | (True, io2) \<Rightarrow> (case openai_tool_emit_args_fragment env ts1 ''{'' io2 of (False, io3) \<Rightarrow> Some (False, ts1, io3)
                 | (True, io3) \<Rightarrow> Some (True, ts1\<lparr>ot_emitted_any := True, ot_args_open := True, ot_first_param := True, ot_parse_pos := e,
                     ot_state := DSML_TOOL_BETWEEN_PARAMS\<rparr>, io3))))))"

definition openai_tool_start_param :: "stream_env \<Rightarrow> string \<Rightarrow> openai_tool_stream \<Rightarrow> stream_io \<Rightarrow> bool \<times> openai_tool_stream \<times> stream_io" where
  "openai_tool_start_param env raw ts io =
     (case tag_after raw (ot_parse_pos ts) of None \<Rightarrow> (True, ts, io)
      | Some e \<Rightarrow> (let tag = tag_text raw (ot_parse_pos ts) e in
          case (dsml_attr tag ''name'', dsml_attr tag ''string'') of
            (Some name, Some is_string) \<Rightarrow> (let string_value = (is_string = ''true'') in
              case openai_tool_emit_param_prefix env ts name string_value io of
                (False, ts1, io1) \<Rightarrow> (False, ts1, io1)
              | (True, ts1, io1) \<Rightarrow> (True, ts1\<lparr>ot_param_is_string := string_value, ot_parse_pos := e, ot_state := DSML_TOOL_PARAM_VALUE\<rparr>, io1))
          | _ \<Rightarrow> (True, openai_tool_stream_fail ts, io)))"

text \<open>The bytes of a value from the position of the parser to \<open>limit\<close>.\<close>

definition emit_value :: "stream_env \<Rightarrow> string \<Rightarrow> openai_tool_stream \<Rightarrow> nat \<Rightarrow> stream_io \<Rightarrow> bool \<times> stream_io" where
  "emit_value env raw ts limit io =
     (if limit > ot_parse_pos ts then
        (let t = take (limit - ot_parse_pos ts) (drop (ot_parse_pos ts) raw) in
         if ot_param_is_string ts then openai_tool_emit_string_value env ts t io else openai_tool_emit_args_fragment env ts t io)
      else (True, io))"

definition openai_tool_finish_param :: "stream_env \<Rightarrow> string \<Rightarrow> dsml_syntax \<Rightarrow> openai_tool_stream \<Rightarrow> nat \<Rightarrow> stream_io \<Rightarrow> bool \<times> openai_tool_stream \<times> stream_io" where
  "openai_tool_finish_param env raw syn ts value_end io =
     (case emit_value env raw ts value_end io of (False, io1) \<Rightarrow> (False, ts, io1)
      | (True, io1) \<Rightarrow> (case (if ot_param_is_string ts then openai_tool_emit_args_fragment env ts dq io1 else (True, io1)) of
          (False, io2) \<Rightarrow> (False, ts, io2)
        | (True, io2) \<Rightarrow> (True, ts\<lparr>ot_parse_pos := value_end + length (param_end syn), ot_state := DSML_TOOL_BETWEEN_PARAMS\<rparr>, io2)))"

text \<open>One round of the loop of \<^verbatim>\<open>openai_tool_stream_update\<close>: \<^const>\<open>Inl\<close> where the code returns.\<close>

type_synonym round_result = "((bool \<times> openai_tool_stream \<times> stream_io) + (openai_tool_stream \<times> stream_io)) option"

definition between_invokes :: "stream_env \<Rightarrow> string \<Rightarrow> dsml_syntax \<Rightarrow> openai_tool_stream \<Rightarrow> stream_io \<Rightarrow> round_result" where
  "between_invokes env raw syn ts0 io =
     (let pos = skip_blanks raw (ot_parse_pos ts0); ts = ts0\<lparr>ot_parse_pos := pos\<rparr> in
      if pos \<ge> length raw then Some (Inl (True, ts, io))
      else if raw_full_lit raw pos (tool_calls_end syn) then
        Some (Inl (True, ts\<lparr>ot_parse_pos := pos + length (tool_calls_end syn), ot_active := False, ot_state := DSML_TOOL_DONE\<rparr>, io))
      else if raw_partial_any raw pos (tool_calls_end syn) (invoke_start syn) then Some (Inl (True, ts, io))
      else if raw_full_lit raw pos (invoke_start syn) then
        (case openai_tool_start_invoke env raw ts io of None \<Rightarrow> None
         | Some (False, ts1, io1) \<Rightarrow> Some (Inl (False, ts1, io1))
         | Some (True, ts1, io1) \<Rightarrow> Some (if ot_parse_pos ts1 = pos \<and> ot_state ts1 = DSML_TOOL_BETWEEN_INVOKES then Inl (True, ts1, io1) else Inr (ts1, io1)))
      else Some (Inl (True, openai_tool_stream_fail ts, io)))"

definition between_params :: "stream_env \<Rightarrow> string \<Rightarrow> dsml_syntax \<Rightarrow> openai_tool_stream \<Rightarrow> stream_io \<Rightarrow> round_result" where
  "between_params env raw syn ts0 io =
     (let pos = skip_blanks raw (ot_parse_pos ts0); ts = ts0\<lparr>ot_parse_pos := pos\<rparr> in
      if pos \<ge> length raw then Some (Inl (True, ts, io))
      else if raw_full_lit raw pos (invoke_end syn) then
        (case (if ot_args_open ts then openai_tool_emit_args_fragment env ts ''}'' io else (True, io)) of
           (False, io1) \<Rightarrow> Some (Inl (False, ts, io1))
         | (True, io1) \<Rightarrow> Some (Inr (ts\<lparr>ot_args_open := False, ot_parse_pos := pos + length (invoke_end syn), ot_index := ot_index ts + 1,
             ot_state := DSML_TOOL_BETWEEN_INVOKES\<rparr>, io1)))
      else if raw_partial_any raw pos (invoke_end syn) (param_start syn) then Some (Inl (True, ts, io))
      else if raw_full_lit raw pos (param_start syn) then
        (case openai_tool_start_param env raw ts io of
           (False, ts1, io1) \<Rightarrow> Some (Inl (False, ts1, io1))
         | (True, ts1, io1) \<Rightarrow> Some (if ot_parse_pos ts1 = pos \<and> ot_state ts1 = DSML_TOOL_BETWEEN_PARAMS then Inl (True, ts1, io1) else Inr (ts1, io1)))
      else Some (Inl (True, openai_tool_stream_fail ts, io)))"

definition in_value :: "stream_env \<Rightarrow> string \<Rightarrow> dsml_syntax \<Rightarrow> openai_tool_stream \<Rightarrow> stream_io \<Rightarrow> round_result" where
  "in_value env raw syn ts io =
     (case find_lit_bounded (drop (ot_parse_pos ts) raw) (param_end syn) of
        Some i \<Rightarrow> (case openai_tool_finish_param env raw syn ts (ot_parse_pos ts + i) io of
            (False, ts1, io1) \<Rightarrow> Some (Inl (False, ts1, io1))
          | (True, ts1, io1) \<Rightarrow> Some (Inr (ts1, io1)))
      | None \<Rightarrow> (let limit = tool_param_value_stream_safe_len raw (ot_parse_pos ts) (param_end syn) (ot_param_is_string ts) in
          case emit_value env raw ts limit io of
            (False, io1) \<Rightarrow> Some (Inl (False, ts, io1))
          | (True, io1) \<Rightarrow> Some (Inl (True, if limit > ot_parse_pos ts then ts\<lparr>ot_parse_pos := limit\<rparr> else ts, io1))))"

definition tool_round :: "stream_env \<Rightarrow> string \<Rightarrow> openai_tool_stream \<Rightarrow> stream_io \<Rightarrow> round_result" where
  "tool_round env raw ts io = (case ot_syn ts of None \<Rightarrow> Some (Inl (True, ts, io)) | Some syn \<Rightarrow>
     (case ot_state ts of
        DSML_TOOL_BETWEEN_INVOKES \<Rightarrow> between_invokes env raw syn ts io
      | DSML_TOOL_BETWEEN_PARAMS \<Rightarrow> between_params env raw syn ts io
      | DSML_TOOL_PARAM_VALUE \<Rightarrow> in_value env raw syn ts io
      | _ \<Rightarrow> Some (Inl (True, ts, io))))"

text \<open>
  The loop.  Every round that goes on moves the position or ends the stream, for the syntaxes of the table
  (\<open>round_moves\<close>), so the test on the positions never decides.
\<close>

function openai_tool_stream_update :: "stream_env \<Rightarrow> string \<Rightarrow> openai_tool_stream \<Rightarrow> stream_io \<Rightarrow> tool_result" where
  "openai_tool_stream_update env raw ts io =
     (if \<not> (ot_active ts \<and> ot_parse_pos ts < length raw) then Some (True, ts, io)
      else case tool_round env raw ts io of None \<Rightarrow> None
        | Some (Inl res) \<Rightarrow> Some res
        | Some (Inr (ts', io')) \<Rightarrow>
            if ot_parse_pos ts < ot_parse_pos ts' \<or> \<not> ot_active ts' then openai_tool_stream_update env raw ts' io' else Some (True, ts', io'))"
  by pat_completeness auto

termination openai_tool_stream_update
  by (relation "measure (\<lambda>(env, raw, ts, io). if ot_active ts then Suc (length raw - ot_parse_pos ts) else 0)") auto

declare openai_tool_stream_update.simps [simp del]

section \<open>The whole stream\<close>

datatype openai_stream_mode = OPENAI_STREAM_THINKING | OPENAI_STREAM_TEXT | OPENAI_STREAM_TOOL | OPENAI_STREAM_SUPPRESS

record openai_stream =
  oa_mode :: openai_stream_mode
  oa_emit_pos :: nat
  oa_active :: bool
  oa_checked_think_prefix :: bool
  oa_guard_second_reasoning :: bool
  oa_sent_reasoning :: bool
  oa_sent_content :: bool
  oa_tool :: openai_tool_stream

definition openai_stream_start :: "request \<Rightarrow> openai_stream" where
  "openai_stream_start r = \<lparr>oa_mode = (if ds4_think_mode_enabled (rq_think_mode r) then OPENAI_STREAM_THINKING else OPENAI_STREAM_TEXT),
     oa_emit_pos = 0, oa_active = True, oa_checked_think_prefix = False,
     oa_guard_second_reasoning = ds4_think_mode_enabled (rq_think_mode r) \<and> rq_has_tools r, oa_sent_reasoning = False, oa_sent_content = False,
     oa_tool = ot_zero\<rparr>"

definition openai_stream_free :: "openai_stream \<Rightarrow> openai_stream" where
  "openai_stream_free st = st\<lparr>oa_tool := openai_tool_stream_free (oa_tool st)\<rparr>"

text \<open>The loop that drops trailing blanks is the loop of \<^verbatim>\<open>trim_tool_separator_ws\<close>.\<close>

definition text_stream_safe_limit :: "string \<Rightarrow> nat \<Rightarrow> bool \<Rightarrow> bool \<Rightarrow> nat" where
  "text_stream_safe_limit raw start has_tools fin =
     (let raw_len = length raw in
      if raw_len \<le> start then raw_len
      else case (if has_tools then find_any_tool_start (drop start raw) else None) of
        Some i \<Rightarrow> utf8_stream_safe_len (Some raw) start (trim_tool_separator_ws raw start (start + i)) True
      | None \<Rightarrow>
        if has_tools \<and> \<not> fin then
          (let limit = trim_tool_separator_ws raw start raw_len;
               scan = (if raw_len - start > 80 then raw_len - 80 else start);
               limit1 = (case last_char raw (CHR ''<'') scan raw_len of None \<Rightarrow> limit | Some marker \<Rightarrow> if marker < limit then marker else limit) in
           utf8_stream_safe_len (Some raw) start (trim_tool_separator_ws raw start limit1) fin)
        else utf8_stream_safe_len (Some raw) start raw_len fin)"

text \<open>A delta with the text up to \<open>limit\<close>, when there is any.\<close>

definition emit_text :: "stream_env \<Rightarrow> (string \<Rightarrow> chat_delta) \<Rightarrow> string \<Rightarrow> nat \<Rightarrow> nat \<Rightarrow> stream_io \<Rightarrow> bool \<times> stream_io" where
  "emit_text env mk raw pos limit io = (if limit > pos then emit env (mk (take (limit - pos) (drop pos raw))) io else (True, io))"

definition seen_tool :: "request \<Rightarrow> string \<Rightarrow> nat \<Rightarrow> nat option" where
  "seen_tool r raw pos = (if rq_has_tools r then map_option (\<lambda>i. pos + i) (find_any_tool_start (drop pos raw)) else None)"

definition seen_close :: "string \<Rightarrow> nat \<Rightarrow> nat option" where
  "seen_close raw pos = map_option (\<lambda>i. pos + i) (strstr (drop pos raw) ''</think>'')"

definition comes_first :: "nat option \<Rightarrow> nat option \<Rightarrow> bool" where
  "comes_first a b = (case a of None \<Rightarrow> False | Some i \<Rightarrow> (case b of None \<Rightarrow> True | Some j \<Rightarrow> i < j))"

text \<open>The prefix of the answer, looked at once; \<^const>\<open>None\<close> while it is too short to tell.\<close>

definition check_think_prefix :: "string \<Rightarrow> bool \<Rightarrow> openai_stream \<Rightarrow> openai_stream option" where
  "check_think_prefix raw fin st =
     (if oa_checked_think_prefix st then Some st
      else if length raw < 7 \<and> raw = take (length raw) ''<think>'' \<and> \<not> fin then None
      else Some (st\<lparr>oa_emit_pos := (if take 7 raw = ''<think>'' then 7 else oa_emit_pos st), oa_checked_think_prefix := True\<rparr>))"

text \<open>The part for each mode; \<^const>\<open>Inr\<close> where the code goes on to the next one.\<close>

type_synonym stream_part = "(bool \<times> openai_stream \<times> stream_io) + (openai_stream \<times> stream_io)"

definition thinking_part :: "stream_env \<Rightarrow> request \<Rightarrow> string \<Rightarrow> bool \<Rightarrow> openai_stream \<Rightarrow> stream_io \<Rightarrow> stream_part" where
  "thinking_part env r raw fin st0 io =
     (case check_think_prefix raw fin st0 of None \<Rightarrow> Inl (True, st0, io) | Some st \<Rightarrow>
       (let pos = oa_emit_pos st; close = seen_close raw pos; tool = seen_tool r raw pos; tool_before_close = comes_first tool close;
            limit = (if tool_before_close then trim_tool_separator_ws raw pos (the tool)
              else case close of Some c \<Rightarrow> c
              | None \<Rightarrow> if fin then length raw
                  else utf8_stream_safe_len (Some raw) pos (if length raw > 7 then length raw - 7 else pos) False) in
        case emit_text env Reasoning_delta raw pos limit io of (False, io1) \<Rightarrow> Inl (False, st, io1)
        | (True, io1) \<Rightarrow>
          (let st1 = (if limit > pos then st\<lparr>oa_sent_reasoning := True, oa_emit_pos := limit\<rparr> else st) in
           if tool_before_close then
             Inl (True, if find_any_tool_end (drop (the tool) raw) \<noteq> None then st1\<lparr>oa_emit_pos := the tool, oa_mode := OPENAI_STREAM_SUPPRESS\<rparr> else st1, io1)
           else (case close of Some c \<Rightarrow> Inr (st1\<lparr>oa_emit_pos := c + 8, oa_mode := OPENAI_STREAM_TEXT\<rparr>, io1)
             | None \<Rightarrow> Inl (True, if fin then st1\<lparr>oa_mode := OPENAI_STREAM_SUPPRESS\<rparr> else st1, io1)))))"

text \<open>A second thought behind the first: text in front of another closing marker is reasoning.\<close>

definition guard_part :: "stream_env \<Rightarrow> request \<Rightarrow> string \<Rightarrow> bool \<Rightarrow> openai_stream \<Rightarrow> stream_io \<Rightarrow> stream_part" where
  "guard_part env r raw fin st io =
     (if \<not> oa_guard_second_reasoning st then Inr (st, io)
      else let pos = oa_emit_pos st; close = seen_close raw pos; tool = seen_tool r raw pos in
        if comes_first close tool then
          (case emit_text env Reasoning_delta raw pos (the close) io of (False, io1) \<Rightarrow> Inl (False, st, io1)
           | (True, io1) \<Rightarrow> Inr (st\<lparr>oa_sent_reasoning := oa_sent_reasoning st \<or> the close > pos, oa_emit_pos := the close + 8,
               oa_guard_second_reasoning := False\<rparr>, io1))
        else if tool = None \<and> \<not> fin then Inl (True, st, io)
        else Inr (st\<lparr>oa_guard_second_reasoning := False\<rparr>, io))"

definition text_part :: "stream_env \<Rightarrow> request \<Rightarrow> string \<Rightarrow> bool \<Rightarrow> openai_stream \<Rightarrow> stream_io \<Rightarrow> stream_part" where
  "text_part env r raw fin st0 io0 = (case guard_part env r raw fin st0 io0 of Inl res \<Rightarrow> Inl res
     | Inr (st, io) \<Rightarrow>
       (let pos = oa_emit_pos st; tool = seen_tool r raw pos; limit = text_stream_safe_limit raw pos (rq_has_tools r) fin in
        case emit_text env Content_delta raw pos limit io of (False, io1) \<Rightarrow> Inl (False, st, io1)
        | (True, io1) \<Rightarrow>
          (let st1 = (if limit > pos then st\<lparr>oa_sent_content := True, oa_emit_pos := limit\<rparr> else st) in
           case tool of
             Some t \<Rightarrow> (case openai_tool_stream_init (oa_tool st1) raw t of (ok, ts) \<Rightarrow>
               Inr (st1\<lparr>oa_emit_pos := t, oa_tool := ts, oa_mode := (if ok then OPENAI_STREAM_TOOL else OPENAI_STREAM_SUPPRESS)\<rparr>, io1))
           | None \<Rightarrow> Inr (if fin then st1\<lparr>oa_mode := OPENAI_STREAM_SUPPRESS\<rparr> else st1, io1))))"

definition tool_part :: "stream_env \<Rightarrow> string \<Rightarrow> openai_stream \<Rightarrow> stream_io \<Rightarrow> (bool \<times> openai_stream \<times> stream_io) option" where
  "tool_part env raw st io = (case openai_tool_stream_update env raw (oa_tool st) io of None \<Rightarrow> None
     | Some (ok, ts, io1) \<Rightarrow> (let st1 = st\<lparr>oa_tool := ts\<rparr> in
         Some (ok, if ok \<and> \<not> ot_active ts then st1\<lparr>oa_mode := OPENAI_STREAM_SUPPRESS\<rparr> else st1, io1)))"

definition openai_sse_stream_update ::
    "stream_env \<Rightarrow> request \<Rightarrow> string option \<Rightarrow> bool \<Rightarrow> openai_stream \<Rightarrow> stream_io \<Rightarrow> (bool \<times> openai_stream \<times> stream_io) option" where
  "openai_sse_stream_update env r text fin st io = (case text of None \<Rightarrow> Some (True, st, io) | Some raw \<Rightarrow>
     if \<not> oa_active st then Some (True, st, io)
     else (case (if oa_mode st = OPENAI_STREAM_THINKING then thinking_part env r raw fin st io else Inr (st, io)) of
         Inl res \<Rightarrow> Some res
       | Inr (st1, io1) \<Rightarrow> (case (if oa_mode st1 = OPENAI_STREAM_TEXT then text_part env r raw fin st1 io1 else Inr (st1, io1)) of
           Inl res \<Rightarrow> Some res
         | Inr (st2, io2) \<Rightarrow> if oa_mode st2 = OPENAI_STREAM_TOOL then tool_part env raw st2 io2 else Some (True, st2, io2))))"

section \<open>The end of the stream\<close>

definition append_json_object_string :: "string option \<Rightarrow> string" where
  "append_json_object_string json = json_escape (append_json_object_or_empty json)"

definition tool_call_delta_json :: "string \<Rightarrow> nat \<Rightarrow> tool_call \<Rightarrow> string" where
  "tool_call_delta_json id_prefix n tc =
     ''{\"index\":'' @ show_int (int n) @ '',\"id\":'' @
     json_escape (case tc_id tc of Some i \<Rightarrow> cstr i | None \<Rightarrow> take 127 (id_prefix @ ''_tool_'' @ show_int (int n))) @
     '',\"type\":\"function\",\"function\":{\"name\":'' @ json_escape (of_ptr (tc_name tc)) @ '',\"arguments\":'' @
     append_json_object_string (tc_arguments tc) @ ''}}''"

definition append_tool_call_deltas_json :: "tool_calls \<Rightarrow> string \<Rightarrow> string" where
  "append_tool_call_deltas_json cs id_prefix =
     ''['' @ concat (map (\<lambda>(n, tc). (if n \<noteq> 0 then '','' else []) @ tool_call_delta_json id_prefix n tc) (zip [0 ..< length (calls_v cs)] (calls_v cs))) @ '']''"

definition clamp_usage_tokens :: "int \<Rightarrow> int \<Rightarrow> int" where
  "clamp_usage_tokens v m = (if v < 0 then 0 else if m \<ge> 0 \<and> v > m then m else v)"

definition append_openai_usage_json :: "request \<Rightarrow> int \<Rightarrow> int \<Rightarrow> string" where
  "append_openai_usage_json r prompt_tokens completion_tokens =
     (let cached_tokens = clamp_usage_tokens (rq_cache_read_tokens r) prompt_tokens;
          cache_write_tokens = clamp_usage_tokens (rq_cache_write_tokens r) (prompt_tokens - cached_tokens) in
      ''{\"prompt_tokens\":'' @ show_int prompt_tokens @ '',\"completion_tokens\":'' @ show_int completion_tokens @
      '',\"total_tokens\":'' @ show_int (prompt_tokens + completion_tokens) @ '',\"prompt_tokens_details\":{\"cached_tokens\":'' @ show_int cached_tokens @
      '',\"cache_write_tokens\":'' @ show_int cache_write_tokens @ ''}}'')"

definition completion_head :: "request \<Rightarrow> string \<Rightarrow> int \<Rightarrow> string" where
  "completion_head r i now = ''data: {\"id\":\"'' @ i @ ''\",\"object\":\"text_completion\",\"created\":'' @ show_int now @ '',\"model\":'' @
     json_escape (of_ptr (rq_model r))"

definition sse_usage_chunk :: "request \<Rightarrow> string \<Rightarrow> int \<Rightarrow> int \<Rightarrow> int \<Rightarrow> string option" where
  "sse_usage_chunk r i now prompt_tokens completion_tokens =
     (if \<not> rq_stream_include_usage r then None
      else Some ((if rq_kind r = REQ_CHAT then chunk_head r i now else completion_head r i now) @ '',\"choices\":[],\"usage\":'' @
        append_openai_usage_json r prompt_tokens completion_tokens @ ''}'' @ nl @ nl))"

definition sse_done :: "stream_env \<Rightarrow> request \<Rightarrow> string \<Rightarrow> int \<Rightarrow> int \<Rightarrow> int \<Rightarrow> stream_io \<Rightarrow> bool \<times> stream_io" where
  "sse_done env r i now prompt_tokens completion_tokens io =
     (case (case sse_usage_chunk r i now prompt_tokens completion_tokens of None \<Rightarrow> (True, io) | Some b \<Rightarrow> emit env (Raw_event b) io) of
        (False, io1) \<Rightarrow> (False, io1)
      | (True, io1) \<Rightarrow> emit env (Raw_event (''data: [DONE]'' @ nl @ nl)) io1)"

definition finish_chunk :: "request \<Rightarrow> string \<Rightarrow> int \<Rightarrow> string \<Rightarrow> string" where
  "finish_chunk r i now finish = chunk_head r i now @ '',\"choices\":[{\"index\":0,\"delta\":{},\"finish_reason\":'' @ json_escape finish @ ''}]}'' @ nl @ nl"

definition calls_chunk :: "request \<Rightarrow> string \<Rightarrow> int \<Rightarrow> tool_calls \<Rightarrow> string" where
  "calls_chunk r i now cs = chunk_head r i now @ '',\"choices\":[{\"index\":0,\"delta\":{\"tool_calls\":'' @ append_tool_call_deltas_json cs i @ ''}'' @ chunk_end"

definition openai_sse_finish_live ::
    "stream_env \<Rightarrow> request \<Rightarrow> string \<Rightarrow> int \<Rightarrow> openai_stream \<Rightarrow> string option \<Rightarrow> tool_calls \<Rightarrow> string \<Rightarrow> int \<Rightarrow> int \<Rightarrow> stream_io \<Rightarrow>
      (bool \<times> openai_stream \<times> stream_io) option" where
  "openai_sse_finish_live env r i now st text cs finish prompt_tokens completion_tokens io =
     (case openai_sse_stream_update env r text True st io of None \<Rightarrow> None
      | Some (False, st1, io1) \<Rightarrow> Some (False, st1, io1)
      | Some (True, st1, io1) \<Rightarrow>
          (case emit env (Raw_event ((if calls_v cs \<noteq> [] \<and> \<not> ot_emitted_any (oa_tool st1) then calls_chunk r i now cs else []) @
                 finish_chunk r i now finish)) io1 of
             (False, io2) \<Rightarrow> Some (False, st1, io2)
           | (True, io2) \<Rightarrow> (case sse_done env r i now prompt_tokens completion_tokens io2 of (ok, io3) \<Rightarrow> Some (ok, st1, io3))))"

section \<open>Streams without live deltas\<close>

definition request_uses_openai_live_stream :: "request \<Rightarrow> bool" where
  "request_uses_openai_live_stream r \<longleftrightarrow> rq_stream r \<and> rq_api r = API_OPENAI \<and> rq_kind r = REQ_CHAT"

definition request_uses_responses_live_stream :: "request \<Rightarrow> bool" where
  "request_uses_responses_live_stream r \<longleftrightarrow> rq_stream r \<and> rq_api r = API_RESPONSES \<and> rq_kind r = REQ_CHAT"

definition request_uses_structured_stream :: "request \<Rightarrow> bool" where
  "request_uses_structured_stream r \<longleftrightarrow> rq_stream r \<and> (rq_api r = API_ANTHROPIC \<or> rq_api r = API_RESPONSES \<or> request_uses_openai_live_stream r)"

definition sse_error_event :: "request option \<Rightarrow> string option \<Rightarrow> string" where
  "sse_error_event r msg =
     (let message = (if of_ptr msg \<noteq> [] then of_ptr msg else ''internal server error'') in
      if (case r of None \<Rightarrow> False | Some r \<Rightarrow> rq_api r = API_ANTHROPIC) then
        ''event: error'' @ nl @ ''data: {\"type\":\"error\",\"error\":{\"type\":\"api_error\",\"message\":'' @ json_escape message @ ''}}'' @ nl @ nl
      else ''event: error'' @ nl @ ''data: {\"error\":{\"message\":'' @ json_escape message @ '',\"type\":\"server_error\"}}'' @ nl @ nl)"

definition json_or_null :: "string option \<Rightarrow> string" where
  "json_or_null s = (case s of None \<Rightarrow> ''null'' | Some s \<Rightarrow> json_escape s)"

definition sse_chunk :: "request \<Rightarrow> string \<Rightarrow> int \<Rightarrow> string option \<Rightarrow> string option \<Rightarrow> string" where
  "sse_chunk r i now t finish =
     (if rq_kind r = REQ_CHAT then
        chunk_head r i now @ '',\"choices\":[{\"index\":0,\"delta\":'' @
        (case t of Some t \<Rightarrow> ''{\"content\":'' @ json_escape t @ ''}''
         | None \<Rightarrow> if finish \<noteq> None then ''{}'' else ''{\"role\":\"assistant\"}'') @
        '',\"finish_reason\":'' @ json_or_null finish @ ''}]}'' @ nl @ nl
      else
        completion_head r i now @ '',\"choices\":[{\"text\":'' @ json_escape (of_ptr t) @ '',\"index\":0,\"finish_reason\":'' @
        json_or_null finish @ ''}]}'' @ nl @ nl)"

definition sse_chat_finish ::
    "stream_env \<Rightarrow> request \<Rightarrow> string \<Rightarrow> int \<Rightarrow> string option \<Rightarrow> string option \<Rightarrow> tool_calls \<Rightarrow> string \<Rightarrow> int \<Rightarrow> int \<Rightarrow> stream_io \<Rightarrow> bool \<times> stream_io" where
  "sse_chat_finish env r i now answer thought cs finish prompt_tokens completion_tokens io =
     (case emit env (Raw_event (sse_chunk r i now None None)) io of (False, io1) \<Rightarrow> (False, io1)
      | (True, io1) \<Rightarrow>
          (case emit env (Raw_event (
               (if of_ptr thought \<noteq> [] then delta_bytes r i now (Reasoning_delta (of_ptr thought)) else []) @
               (if of_ptr answer \<noteq> [] then delta_bytes r i now (Content_delta (of_ptr answer)) else []) @
               (if calls_v cs \<noteq> [] then calls_chunk r i now cs else []) @ finish_chunk r i now finish)) io1 of
             (False, io2) \<Rightarrow> (False, io2)
           | (True, io2) \<Rightarrow> sse_done env r i now prompt_tokens completion_tokens io2))"

end
