(* ===== verification/ToolStreamProofs.thy ===== *)
theory ToolStreamProofs
  imports OpenAiStream DecodeProofs
begin

text \<open>
  The machine that streams tool calls (\<^verbatim>\<open>openai_tool_stream_update\<close>) sends the same calls however the text is cut
  into pieces.  The proof compares it with a machine that sends a value only when it is complete, which is a
  consumer of a growing text; the machine of the code may be ahead of it inside an open value, by a part
  that nothing that follows can make wrong.
\<close>

section \<open>A client that takes every event\<close>

definition online :: "stream_env \<Rightarrow> bool" where
  "online env \<longleftrightarrow> (\<forall>out. se_up env out)"

definition send :: "chat_delta list \<Rightarrow> stream_io \<Rightarrow> stream_io" where
  "send ds io = io\<lparr>io_out := io_out io @ ds\<rparr>"

lemma emit_online: "online env \<Longrightarrow> emit env d io = (True, send [d] io)"
  by (simp add: online_def emit_def send_def)

lemma fragment_online: "online env \<Longrightarrow> openai_tool_emit_args_fragment env ts t io = (True, send (if t = [] then [] else [Tool_args (ot_index ts) t]) io)"
  by (simp add: openai_tool_emit_args_fragment_def emit_online) (simp add: send_def)

text \<open>The text a part of a value is sent as.\<close>

definition value_text :: "bool \<Rightarrow> string \<Rightarrow> string" where
  "value_text is_string t = (if is_string then concat (map json_escape_char (unescape_loop (cstr t))) else t)"

definition value_deltas :: "bool \<Rightarrow> nat \<Rightarrow> string \<Rightarrow> chat_delta list" where
  "value_deltas is_string n t = (if value_text is_string t = [] then [] else [Tool_args n (value_text is_string t)])"

lemma emit_value_online:
  assumes "online env"
  shows "emit_value env raw ts limit io =
    (True, send (value_deltas (ot_param_is_string ts) (ot_index ts) (take (limit - ot_parse_pos ts) (drop (ot_parse_pos ts) raw))) io)"
proof -
  have e: "send [] io = io" by (simp add: send_def)
  have u: "unescape_loop [] = []" by (simp add: unescape_loop.simps)
  show ?thesis using assms
    by (auto simp: emit_value_def openai_tool_emit_string_value_def fragment_online value_deltas_def value_text_def Let_def json_escape_fragment_n_def
        dsml_unescape_text_def or_default_def u e)
qed

section \<open>Rounds on a growing text\<close>

definition tool_wf :: "string \<Rightarrow> openai_tool_stream \<Rightarrow> bool" where
  "tool_wf raw ts \<longleftrightarrow> ot_parse_pos ts \<le> length raw \<and>
     (ot_active ts \<longrightarrow> (\<exists>syn \<in> set dsml_syntaxes. ot_syn ts = Some syn) \<and> ot_state ts \<noteq> DSML_TOOL_DONE \<and> ot_state ts \<noteq> DSML_TOOL_ERROR)"

lemma tool_wf_grow: "tool_wf raw1 ts \<Longrightarrow> prefix raw1 raw2 \<Longrightarrow> tool_wf raw2 ts"
  using prefix_length_le [of raw1 raw2] by (auto simp: tool_wf_def)

lemma partial_lit: "raw_partial_lit raw pos lit \<longleftrightarrow> pos \<le> length raw \<and> prefix (drop pos raw) lit \<and> length raw - pos < length lit"
  by (auto simp: raw_partial_lit_def prefix_take)

lemma two_lits_grow:
  assumes "prefix raw1 raw2" "pos \<le> length raw1" "apart a b"
  shows "raw_full_lit raw1 pos b \<Longrightarrow> \<not> raw_full_lit raw2 pos a \<and> \<not> raw_partial_any raw2 pos a b \<and> raw_full_lit raw2 pos b"
    "\<not> raw_full_lit raw1 pos a \<Longrightarrow> \<not> raw_partial_any raw1 pos a b \<Longrightarrow> \<not> raw_full_lit raw1 pos b \<Longrightarrow>
      \<not> raw_full_lit raw2 pos a \<and> \<not> raw_partial_any raw2 pos a b \<and> \<not> raw_full_lit raw2 pos b"
proof -
  obtain z where z: "drop pos raw2 = drop pos raw1 @ z" "pos \<le> length raw2" using assms(1,2) by (auto simp: prefix_def)
  {
    assume b: "raw_full_lit raw1 pos b"
    then have b2: "raw_full_lit raw2 pos b" by (rule full_grow [OF assms(1)])
    have na: "\<not> prefix a (drop pos raw2)" using apart_not_both [OF assms(3)] b2 by (auto simp: full_lit)
    moreover have "\<not> prefix (drop pos raw2) a" using b2 assms(3) by (auto simp: full_lit apart_def dest: prefix_order.trans)
    moreover have "\<not> raw_partial_lit raw2 pos b" using full_lit_bounds [OF b2] by (auto simp: partial_lit)
    ultimately show "\<not> raw_full_lit raw2 pos a \<and> \<not> raw_partial_any raw2 pos a b \<and> raw_full_lit raw2 pos b"
      using b2 by (simp add: full_lit raw_partial_any_def partial_lit)
  }
  {
    assume n: "\<not> raw_full_lit raw1 pos a" "\<not> raw_partial_any raw1 pos a b" "\<not> raw_full_lit raw1 pos b"
    have lit: "\<not> prefix lit (drop pos raw2) \<and> \<not> prefix (drop pos raw2) lit" if "\<not> raw_full_lit raw1 pos lit" "\<not> raw_partial_lit raw1 pos lit" for lit
    proof -
      have "\<not> prefix lit (drop pos raw1)" "\<not> prefix (drop pos raw1) lit \<or> length lit \<le> length (drop pos raw1)"
        using that assms(2) by (auto simp: full_lit partial_lit)
      moreover have "prefix lit (drop pos raw1)" if "prefix (drop pos raw1) lit" "length lit \<le> length (drop pos raw1)"
        using that by (auto simp: prefix_def)
      ultimately show ?thesis unfolding z(1) by (metis append_prefixD prefix_append prefix_same_cases prefixI)
    qed
    then show "\<not> raw_full_lit raw2 pos a \<and> \<not> raw_partial_any raw2 pos a b \<and> \<not> raw_full_lit raw2 pos b"
      using n lit [of a] lit [of b] by (auto simp: full_lit raw_partial_any_def partial_lit)
  }
qed

lemma tag_text_grow: "prefix raw1 raw2 \<Longrightarrow> e \<le> length raw1 \<Longrightarrow> tag_text raw2 pos e = tag_text raw1 pos e"
  by (auto simp: tag_text_def prefix_def)

lemma start_grow_tag:
  assumes "prefix raw1 raw2" "ot_parse_pos ts \<le> length raw1" "tag_after raw1 (ot_parse_pos ts) = Some e"
  shows "openai_tool_start_invoke env raw2 ts io = openai_tool_start_invoke env raw1 ts io"
    "openai_tool_start_param env raw2 ts io = openai_tool_start_param env raw1 ts io"
proof -
  have e: "e \<le> length raw1" using tag_after_bounds [OF assms(3,2)] by simp
  note g = tag_after_grow [OF assms] tag_text_grow [OF assms(1) e]
  show "openai_tool_start_invoke env raw2 ts io = openai_tool_start_invoke env raw1 ts io"
    by (simp add: openai_tool_start_invoke_def g assms(3) cong: option.case_cong)
  show "openai_tool_start_param env raw2 ts io = openai_tool_start_param env raw1 ts io"
    by (simp add: openai_tool_start_param_def g assms(3))
qed

lemma find_lit_grow:
  assumes "prefix raw1 raw2" "pos \<le> length raw1" "tag_shape lit" "find_lit_bounded (drop pos raw1) lit = Some i"
  shows "find_lit_bounded (drop pos raw2) lit = Some i"
proof -
  obtain z where z: "drop pos raw2 = drop pos raw1 @ z" using assms(1,2) by (auto simp: prefix_def)
  let ?x = "drop pos raw1"
  have i: "i \<le> length ?x" "prefix lit (drop i ?x)" "\<And>j. j < i \<Longrightarrow> \<not> prefix lit (drop j ?x)" using assms(4) by (auto simp: find_lit_Some)
  have len: "i + length lit \<le> length ?x" using i(1) prefix_length_le [OF i(2)] by simp
  have "prefix lit (drop i (?x @ z))" using i by (simp add: prefix_prefix)
  moreover have "\<not> prefix lit (drop j (?x @ z))" if "j < i" for j
  proof
    assume p: "prefix lit (drop j (?x @ z))"
    have "j + length lit \<le> i" using tag_only_start [OF assms(3) p \<open>prefix lit (drop i (?x @ z))\<close> assms(3) that] .
    then have "prefix lit (drop j ?x)" using prefix_shrink [of ?x "?x @ z" j lit] p len by simp
    then show False using i(3) [OF that] by blast
  qed
  ultimately show ?thesis using i(1) unfolding z find_lit_Some by simp
qed

section \<open>The machine without lookahead\<close>

text \<open>It sends a value only when its end tag is there, and is otherwise the machine of the code.\<close>

definition lazy_round :: "stream_env \<Rightarrow> string \<Rightarrow> openai_tool_stream \<Rightarrow> stream_io \<Rightarrow> round_result" where
  "lazy_round env raw ts io =
     (if ot_state ts = DSML_TOOL_PARAM_VALUE \<and> (\<forall>syn. ot_syn ts = Some syn \<longrightarrow> find_lit_bounded (drop (ot_parse_pos ts) raw) (param_end syn) = None)
      then Some (Inl (True, ts, io)) else tool_round env raw ts io)"

function lazy_update :: "stream_env \<Rightarrow> string \<Rightarrow> openai_tool_stream \<Rightarrow> stream_io \<Rightarrow> tool_result" where
  "lazy_update env raw ts io =
     (if \<not> (ot_active ts \<and> ot_parse_pos ts < length raw) then Some (True, ts, io)
      else case lazy_round env raw ts io of None \<Rightarrow> None
        | Some (Inl res) \<Rightarrow> Some res
        | Some (Inr (ts', io')) \<Rightarrow>
            if ot_parse_pos ts < ot_parse_pos ts' \<or> \<not> ot_active ts' then lazy_update env raw ts' io' else Some (True, ts', io'))"
  by pat_completeness auto

termination lazy_update
  by (relation "measure (\<lambda>(env, raw, ts, io). if ot_active ts then Suc (length raw - ot_parse_pos ts) else 0)") auto

declare lazy_update.simps [simp del]

lemma start_invoke_cases:
  assumes "online env" "openai_tool_start_invoke env raw ts io = res"
  obtains (wait) "tag_after raw (ot_parse_pos ts) = None" "res = Some (True, ts, io)"
    | (noname) e where "tag_after raw (ot_parse_pos ts) = Some e" "res = Some (True, openai_tool_stream_fail ts, io)"
    | (noid) e where "tag_after raw (ot_parse_pos ts) = Some e" "res = None"
    | (opened) e ids io' where "tag_after raw (ot_parse_pos ts) = Some e"
      "res = Some (True, ts\<lparr>ot_ids := ids, ot_emitted_any := True, ot_args_open := True, ot_first_param := True, ot_parse_pos := e,
         ot_state := DSML_TOOL_BETWEEN_PARAMS\<rparr>, io')"
proof (cases "tag_after raw (ot_parse_pos ts)")
  case None
  then show ?thesis using wait assms(2) by (auto simp: openai_tool_start_invoke_def)
next
  case (Some e)
  show ?thesis
  proof (cases "dsml_attr (tag_text raw (ot_parse_pos ts) e) ''name''")
    case None
    then show ?thesis using noname [OF Some] assms(2) Some by (auto simp: openai_tool_start_invoke_def)
  next
    case name: (Some name)
    show ?thesis
    proof (cases "openai_tool_stream_id env ts (ot_index ts) io")
      case None
      then show ?thesis using noid [OF Some] assms(2) Some name by (auto simp: openai_tool_start_invoke_def)
    next
      case (Some x)
      obtain i ts1 io1 where x: "x = (i, ts1, io1)" by (cases x)
      have "\<exists>ids. ts1 = ts\<lparr>ot_ids := ids\<rparr>" using Some x by (auto simp: openai_tool_stream_id_def Let_def split: option.splits)
      then obtain ids where "ts1 = ts\<lparr>ot_ids := ids\<rparr>" by blast
      then show ?thesis using opened [OF \<open>tag_after raw (ot_parse_pos ts) = Some e\<close>, of ids] assms \<open>tag_after raw (ot_parse_pos ts) = Some e\<close> name Some x
        by (auto simp: openai_tool_start_invoke_def emit_online fragment_online)
    qed
  qed
qed

lemma start_param_cases:
  assumes "online env" "openai_tool_start_param env raw ts io = res"
  obtains (wait) "tag_after raw (ot_parse_pos ts) = None" "res = (True, ts, io)"
    | (noname) e where "tag_after raw (ot_parse_pos ts) = Some e" "res = (True, openai_tool_stream_fail ts, io)"
    | (opened) e sv io' where "tag_after raw (ot_parse_pos ts) = Some e"
      "res = (True, ts\<lparr>ot_first_param := False, ot_param_is_string := sv, ot_parse_pos := e, ot_state := DSML_TOOL_PARAM_VALUE\<rparr>, io')"
  using assms that
  by (auto simp: openai_tool_start_param_def openai_tool_emit_param_prefix_def fragment_online Let_def split: option.splits)

text \<open>What a round of the two structural states can do.\<close>

lemma between_invokes_cases:
  assumes "online env" "ot_state ts = DSML_TOOL_BETWEEN_INVOKES" "between_invokes env raw syn ts io = res" "pos = skip_blanks raw (ot_parse_pos ts)"
  obtains (wait) "res = Some (Inl (True, ts\<lparr>ot_parse_pos := pos\<rparr>, io))"
    | (finish) "raw_full_lit raw pos (tool_calls_end syn)" "pos < length raw"
      "res = Some (Inl (True, ts\<lparr>ot_parse_pos := pos + length (tool_calls_end syn), ot_active := False, ot_state := DSML_TOOL_DONE\<rparr>, io))"
    | (fail) "pos < length raw" "\<not> raw_full_lit raw pos (tool_calls_end syn)" "\<not> raw_partial_any raw pos (tool_calls_end syn) (invoke_start syn)"
      "\<not> raw_full_lit raw pos (invoke_start syn)" "res = Some (Inl (True, openai_tool_stream_fail (ts\<lparr>ot_parse_pos := pos\<rparr>), io))"
    | (tag) e where "pos < length raw" "raw_full_lit raw pos (invoke_start syn)" "tag_after raw pos = Some e"
      "res = (case openai_tool_start_invoke env raw (ts\<lparr>ot_parse_pos := pos\<rparr>) io of None \<Rightarrow> None | Some (ok, ts', io') \<Rightarrow> Some (Inr (ts', io')))"
proof -
  let ?ts = "ts\<lparr>ot_parse_pos := pos\<rparr>"
  consider "pos \<ge> length raw" | "pos < length raw" "raw_full_lit raw pos (tool_calls_end syn)"
    | "pos < length raw" "\<not> raw_full_lit raw pos (tool_calls_end syn)" "raw_partial_any raw pos (tool_calls_end syn) (invoke_start syn)"
    | "pos < length raw" "\<not> raw_full_lit raw pos (tool_calls_end syn)" "\<not> raw_partial_any raw pos (tool_calls_end syn) (invoke_start syn)" "\<not> raw_full_lit raw pos (invoke_start syn)"
    | "pos < length raw" "\<not> raw_full_lit raw pos (tool_calls_end syn)" "\<not> raw_partial_any raw pos (tool_calls_end syn) (invoke_start syn)" "raw_full_lit raw pos (invoke_start syn)"
    by linarith
  then show ?thesis
  proof cases
    case 5
    have r: "res = (case openai_tool_start_invoke env raw ?ts io of None \<Rightarrow> None
         | Some (False, ts1, io1) \<Rightarrow> Some (Inl (False, ts1, io1))
         | Some (True, ts1, io1) \<Rightarrow> Some (if ot_parse_pos ts1 = pos \<and> ot_state ts1 = DSML_TOOL_BETWEEN_INVOKES then Inl (True, ts1, io1) else Inr (ts1, io1)))"
      using assms(3) 5 unfolding between_invokes_def Let_def assms(4) [symmetric] by simp
    from assms(1) refl [of "openai_tool_start_invoke env raw ?ts io"] show ?thesis
      by (cases rule: start_invoke_cases) (use r 5 wait tag assms(2) in \<open>auto simp: openai_tool_stream_fail_def\<close>)
  qed (use assms(3) wait finish fail in \<open>simp_all add: between_invokes_def Let_def assms(4) [symmetric]\<close>)
qed

lemma between_params_cases:
  assumes "online env" "ot_state ts = DSML_TOOL_BETWEEN_PARAMS" "between_params env raw syn ts io = res" "pos = skip_blanks raw (ot_parse_pos ts)"
  obtains (wait) "res = Some (Inl (True, ts\<lparr>ot_parse_pos := pos\<rparr>, io))"
    | (finish) "raw_full_lit raw pos (invoke_end syn)" "pos < length raw"
      "res = Some (Inr (ts\<lparr>ot_args_open := False, ot_parse_pos := pos + length (invoke_end syn), ot_index := ot_index ts + 1,
          ot_state := DSML_TOOL_BETWEEN_INVOKES\<rparr>, send (if ot_args_open ts then [Tool_args (ot_index ts) ''}''] else []) io))"
    | (fail) "pos < length raw" "\<not> raw_full_lit raw pos (invoke_end syn)" "\<not> raw_partial_any raw pos (invoke_end syn) (param_start syn)"
      "\<not> raw_full_lit raw pos (param_start syn)" "res = Some (Inl (True, openai_tool_stream_fail (ts\<lparr>ot_parse_pos := pos\<rparr>), io))"
    | (tag) e where "pos < length raw" "raw_full_lit raw pos (param_start syn)" "tag_after raw pos = Some e"
      "res = (case openai_tool_start_param env raw (ts\<lparr>ot_parse_pos := pos\<rparr>) io of (ok, ts', io') \<Rightarrow> Some (Inr (ts', io')))"
proof -
  let ?ts = "ts\<lparr>ot_parse_pos := pos\<rparr>"
  consider "pos \<ge> length raw" | "pos < length raw" "raw_full_lit raw pos (invoke_end syn)"
    | "pos < length raw" "\<not> raw_full_lit raw pos (invoke_end syn)" "raw_partial_any raw pos (invoke_end syn) (param_start syn)"
    | "pos < length raw" "\<not> raw_full_lit raw pos (invoke_end syn)" "\<not> raw_partial_any raw pos (invoke_end syn) (param_start syn)" "\<not> raw_full_lit raw pos (param_start syn)"
    | "pos < length raw" "\<not> raw_full_lit raw pos (invoke_end syn)" "\<not> raw_partial_any raw pos (invoke_end syn) (param_start syn)" "raw_full_lit raw pos (param_start syn)"
    by linarith
  then show ?thesis
  proof cases
    case 2
    have "send [] io = io" by (simp add: send_def)
    then show ?thesis using 2 finish assms(3) assms(1) by (auto simp: between_params_def Let_def assms(4) [symmetric] fragment_online)
  next
    case 5
    have r: "res = (case openai_tool_start_param env raw ?ts io of
           (False, ts1, io1) \<Rightarrow> Some (Inl (False, ts1, io1))
         | (True, ts1, io1) \<Rightarrow> Some (if ot_parse_pos ts1 = pos \<and> ot_state ts1 = DSML_TOOL_BETWEEN_PARAMS then Inl (True, ts1, io1) else Inr (ts1, io1)))"
      using assms(3) 5 unfolding between_params_def Let_def assms(4) [symmetric] by simp
    from assms(1) refl [of "openai_tool_start_param env raw ?ts io"] show ?thesis
      by (cases rule: start_param_cases) (use r 5 wait tag assms(2) in \<open>auto simp: openai_tool_stream_fail_def\<close>)
  qed (use assms(3) wait fail in \<open>simp_all add: between_params_def Let_def assms(4) [symmetric]\<close>)
qed

lemma blanks_resume: "prefix raw1 raw2 \<Longrightarrow> ot_parse_pos ts \<le> length raw1 \<Longrightarrow> p = skip_blanks raw1 (ot_parse_pos ts) \<Longrightarrow>
    between_invokes env raw2 syn (ts\<lparr>ot_parse_pos := p\<rparr>) io = between_invokes env raw2 syn ts io \<and>
    between_params env raw2 syn (ts\<lparr>ot_parse_pos := p\<rparr>) io = between_params env raw2 syn ts io"
  using blanks_grow(1) [of raw1 raw2 "ot_parse_pos ts"] by (simp add: between_invokes_def between_params_def Let_def)

text \<open>A round that returns for good.\<close>

definition stops_only :: "round_result \<Rightarrow> bool" where
  "stops_only res \<longleftrightarrow> (\<forall>ok ts io. res = Some (Inl (ok, ts, io)) \<longrightarrow> \<not> ot_active ts)"

lemma between_invokes_grow:
  assumes "online env" "prefix raw1 raw2" "ot_state ts = DSML_TOOL_BETWEEN_INVOKES" "ot_parse_pos ts \<le> length raw1" "syn \<in> set dsml_syntaxes"
    "p = skip_blanks raw1 (ot_parse_pos ts)"
  shows "between_invokes env raw1 syn ts io = Some (Inl (True, ts\<lparr>ot_parse_pos := p\<rparr>, io)) \<or>
    between_invokes env raw2 syn ts io = between_invokes env raw1 syn ts io \<and> stops_only (between_invokes env raw1 syn ts io)"
  using assms(1,3) refl [of "between_invokes env raw1 syn ts io"] assms(6)
proof (cases rule: between_invokes_cases)
  case finish
  then show ?thesis using blanks_grow(2) [OF assms(2,4)] full_grow [OF assms(2) finish(1)] assms(6) prefix_length_le [OF assms(2)]
    by (auto simp: between_invokes_def Let_def stops_only_def openai_tool_stream_fail_def split: option.splits)
next
  case fail
  have le: "p \<le> length raw1" using fail(1) by simp
  show ?thesis using blanks_grow(2) [OF assms(2,4)] two_lits_grow(2) [OF assms(2) le table_lits(6) [OF assms(5)]] fail assms(6) prefix_length_le [OF assms(2)]
    by (auto simp: between_invokes_def Let_def stops_only_def openai_tool_stream_fail_def)
next
  case (tag e)
  have le: "p \<le> length raw1" using tag(1) by simp
  have sk: "skip_blanks raw2 (ot_parse_pos ts) = p" using blanks_grow(2) [OF assms(2,4)] assms(6) tag(1) by simp
  note lits = two_lits_grow(1) [OF assms(2) le table_lits(6) [OF assms(5)] tag(2)]
  note tl1 = two_lits_grow(1) [OF prefix_order.refl le table_lits(6) [OF assms(5)] tag(2)]
  have "p < length raw2" using tag(1) prefix_length_le [OF assms(2)] by simp
  moreover have "stops_only (between_invokes env raw1 syn ts io)" using tag(4) by (auto simp: stops_only_def split: option.splits)
  ultimately show ?thesis using tag(1) lits tl1 sk start_grow_tag(1) [OF assms(2), of "ts\<lparr>ot_parse_pos := p\<rparr>" e] tag(3) le assms(6)
    by (auto simp: between_invokes_def Let_def)
qed auto

lemma between_params_grow:
  assumes "online env" "prefix raw1 raw2" "ot_state ts = DSML_TOOL_BETWEEN_PARAMS" "ot_parse_pos ts \<le> length raw1" "syn \<in> set dsml_syntaxes"
    "p = skip_blanks raw1 (ot_parse_pos ts)"
  shows "between_params env raw1 syn ts io = Some (Inl (True, ts\<lparr>ot_parse_pos := p\<rparr>, io)) \<or>
    between_params env raw2 syn ts io = between_params env raw1 syn ts io \<and> stops_only (between_params env raw1 syn ts io)"
  using assms(1,3) refl [of "between_params env raw1 syn ts io"] assms(6)
proof (cases rule: between_params_cases)
  case finish
  then show ?thesis using blanks_grow(2) [OF assms(2,4)] full_grow [OF assms(2) finish(1)] assms(6) prefix_length_le [OF assms(2)]
    by (auto simp: between_params_def Let_def stops_only_def openai_tool_stream_fail_def split: option.splits)
next
  case fail
  have le: "p \<le> length raw1" using fail(1) by simp
  show ?thesis using blanks_grow(2) [OF assms(2,4)] two_lits_grow(2) [OF assms(2) le table_lits(9) [OF assms(5)]] fail assms(6) prefix_length_le [OF assms(2)]
    by (auto simp: between_params_def Let_def stops_only_def openai_tool_stream_fail_def)
next
  case (tag e)
  have le: "p \<le> length raw1" using tag(1) by simp
  have sk: "skip_blanks raw2 (ot_parse_pos ts) = p" using blanks_grow(2) [OF assms(2,4)] assms(6) tag(1) by simp
  note lits = two_lits_grow(1) [OF assms(2) le table_lits(9) [OF assms(5)] tag(2)]
  note tl1 = two_lits_grow(1) [OF prefix_order.refl le table_lits(9) [OF assms(5)] tag(2)]
  have "p < length raw2" using tag(1) prefix_length_le [OF assms(2)] by simp
  moreover have "stops_only (between_params env raw1 syn ts io)" using tag(4) by (auto simp: stops_only_def split: prod.splits)
  ultimately show ?thesis using tag(1) lits tl1 sk start_grow_tag(2) [OF assms(2), of "ts\<lparr>ot_parse_pos := p\<rparr>" e] tag(3) le assms(6)
    by (auto simp: between_params_def Let_def)
qed auto

lemma last_char_Some: "last_char raw c scan n = Some i \<Longrightarrow> scan \<le> i \<and> i < n \<and> raw ! i = c \<and> (\<forall>j. i < j \<and> j < n \<longrightarrow> raw ! j \<noteq> c)"
  by (induction n) (auto split: if_splits simp: less_Suc_eq)

lemma last_char_None: "last_char raw c scan n = None \<Longrightarrow> scan \<le> j \<Longrightarrow> j < n \<Longrightarrow> raw ! j \<noteq> c"
  by (induction n) (auto split: if_splits simp: less_Suc_eq)

lemma cont_back_le: "cont_back s start p n \<le> p"
  by (induction s start p n rule: cont_back.induct) (subst cont_back.simps, auto)

lemma utf8_safe_le: "utf8_stream_safe_len s start limit fin \<le> limit"
  using cont_back_le [of "the s" start limit 0]
  by (auto simp: utf8_stream_safe_len_def Let_def split: option.splits)

lemma entity_safe_le: "dsml_entity_stream_safe_len raw start limit \<le> limit"
  by (auto simp: dsml_entity_stream_safe_len_def Let_def split: option.splits dest!: last_char_Some)

definition tag_limit :: "string \<Rightarrow> nat \<Rightarrow> string \<Rightarrow> nat" where
  "tag_limit raw start pe = (case last_char raw (CHR ''<'') (if length raw > start + length pe then length raw - length pe else start) (length raw) of None \<Rightarrow> length raw
     | Some marker \<Rightarrow> if length raw - marker < length pe \<and> take (length raw - marker) (drop marker raw) = take (length raw - marker) pe then marker else length raw)"

lemma tag_limit_le: "tag_limit raw start pe \<le> length raw"
  by (auto simp: tag_limit_def split: option.splits dest!: last_char_Some)

lemma safe_len_limit:
  "tool_param_value_stream_safe_len raw start pe is_string =
     utf8_stream_safe_len (Some raw) start (if is_string then dsml_entity_stream_safe_len raw start (tag_limit raw start pe) else tag_limit raw start pe) False"
  unfolding tool_param_value_stream_safe_len_def tag_limit_def Let_def ..

lemma safe_len_le: "tool_param_value_stream_safe_len raw start pe is_string \<le> length raw"
proof -
  have "(if is_string then dsml_entity_stream_safe_len raw start (tag_limit raw start pe) else tag_limit raw start pe) \<le> length raw"
    using entity_safe_le [of raw start "tag_limit raw start pe"] tag_limit_le [of raw start pe] by simp
  then show ?thesis unfolding safe_len_limit using utf8_safe_le le_trans by blast
qed

text \<open>Every round keeps the stream well formed, and one that goes on moves it.\<close>

definition round_fine :: "string \<Rightarrow> openai_tool_stream \<Rightarrow> round_result \<Rightarrow> bool" where
  "round_fine raw ts res = (case res of None \<Rightarrow> True
     | Some (Inl (ok, ts', io')) \<Rightarrow> ok \<and> tool_wf raw ts'
     | Some (Inr (ts', io')) \<Rightarrow> tool_wf raw ts' \<and> (ot_parse_pos ts < ot_parse_pos ts' \<or> \<not> ot_active ts'))"

lemma round_fine_between:
  assumes "online env" "ot_parse_pos ts \<le> length raw" "syn \<in> set dsml_syntaxes" "ot_syn ts = Some syn"
  shows "ot_state ts = DSML_TOOL_BETWEEN_INVOKES \<Longrightarrow> round_fine raw ts (between_invokes env raw syn ts io)"
    "ot_state ts = DSML_TOOL_BETWEEN_PARAMS \<Longrightarrow> round_fine raw ts (between_params env raw syn ts io)"
proof -
  define p where "p = skip_blanks raw (ot_parse_pos ts)"
  have p: "ot_parse_pos ts \<le> p" "p \<le> length raw" using skip_blanks_bounds [OF assms(2)] by (simp_all add: p_def)
  let ?ts = "ts\<lparr>ot_parse_pos := p\<rparr>"
  {
    assume st: "ot_state ts = DSML_TOOL_BETWEEN_INVOKES"
    from assms(1) st refl [of "between_invokes env raw syn ts io"] p_def show "round_fine raw ts (between_invokes env raw syn ts io)"
    proof (cases rule: between_invokes_cases)
      case (tag e)
      have e: "p < e" "e \<le> length raw" using tag_after_bounds [OF tag(3) p(2)] by simp_all
      from assms(1) refl [of "openai_tool_start_invoke env raw ?ts io"] show ?thesis
        by (cases rule: start_invoke_cases) (use tag e p assms(3,4) in \<open>auto simp: round_fine_def tool_wf_def openai_tool_stream_fail_def\<close>)
    qed (use p st assms full_lit_bounds [of raw p "tool_calls_end syn"] in \<open>auto simp: round_fine_def tool_wf_def openai_tool_stream_fail_def\<close>)
  }
  {
    assume st: "ot_state ts = DSML_TOOL_BETWEEN_PARAMS"
    from assms(1) st refl [of "between_params env raw syn ts io"] p_def show "round_fine raw ts (between_params env raw syn ts io)"
    proof (cases rule: between_params_cases)
      case finish
      then show ?thesis using p assms(3,4) full_lit_bounds [OF finish(1)] table_lits(4) [OF assms(3)]
        by (cases "invoke_end syn") (auto simp: round_fine_def tool_wf_def)
    next
      case (tag e)
      have e: "p < e" "e \<le> length raw" using tag_after_bounds [OF tag(3) p(2)] by simp_all
      from assms(1) refl [of "openai_tool_start_param env raw ?ts io"] show ?thesis
        by (cases rule: start_param_cases) (use tag e p assms(3,4) in \<open>auto simp: round_fine_def tool_wf_def openai_tool_stream_fail_def\<close>)
    qed (use p st assms in \<open>auto simp: round_fine_def tool_wf_def openai_tool_stream_fail_def\<close>)
  }
qed

lemma finish_online:
  "online env \<Longrightarrow> openai_tool_finish_param env raw syn ts v io =
     (True, ts\<lparr>ot_parse_pos := v + length (param_end syn), ot_state := DSML_TOOL_BETWEEN_PARAMS\<rparr>,
      send (value_deltas (ot_param_is_string ts) (ot_index ts) (take (v - ot_parse_pos ts) (drop (ot_parse_pos ts) raw)) @
        (if ot_param_is_string ts then [Tool_args (ot_index ts) dq] else [])) io)"
  by (simp add: openai_tool_finish_param_def emit_value_online fragment_online send_def)

lemma round_fine_value:
  assumes "online env" "tool_wf raw ts" "ot_active ts" "ot_syn ts = Some syn"
  shows "round_fine raw ts (in_value env raw syn ts io)"
proof (cases "find_lit_bounded (drop (ot_parse_pos ts) raw) (param_end syn)")
  case None
  then show ?thesis using assms safe_len_le [of raw "ot_parse_pos ts" "param_end syn" "ot_param_is_string ts"]
    by (auto simp: in_value_def Let_def emit_value_online round_fine_def tool_wf_def)
next
  case (Some i)
  have syn: "syn \<in> set dsml_syntaxes" "ot_parse_pos ts \<le> length raw" using assms(2,3,4) by (auto simp: tool_wf_def)
  have "i \<le> length raw - ot_parse_pos ts" "prefix (param_end syn) (drop (ot_parse_pos ts + i) raw)" using Some by (auto simp: find_lit_Some add.commute)
  then have "ot_parse_pos ts + i + length (param_end syn) \<le> length raw" "param_end syn \<noteq> []"
    using syn table_lits(2) [OF syn(1)] prefix_length_le by fastforce+
  then show ?thesis using Some assms syn by (auto simp: in_value_def finish_online round_fine_def tool_wf_def)
qed

lemma round_moves:
  assumes "online env" "tool_wf raw ts" "ot_active ts"
  shows "round_fine raw ts (tool_round env raw ts io)" "round_fine raw ts (lazy_round env raw ts io)"
proof -
  obtain syn where syn: "syn \<in> set dsml_syntaxes" "ot_syn ts = Some syn" "ot_parse_pos ts \<le> length raw" using assms(2,3) by (auto simp: tool_wf_def)
  show "round_fine raw ts (tool_round env raw ts io)"
    using round_fine_between [OF assms(1) syn(3,1,2)] round_fine_value [OF assms syn(2)] assms(2,3) syn(2)
    by (cases "ot_state ts") (auto simp: tool_round_def tool_wf_def)
  then show "round_fine raw ts (lazy_round env raw ts io)" using assms(2) by (auto simp: lazy_round_def round_fine_def)
qed

lemma stream_round:
  assumes "online env" "tool_wf raw ts"
  shows "openai_tool_stream_update env raw ts io = (if \<not> (ot_active ts \<and> ot_parse_pos ts < length raw) then Some (True, ts, io)
      else case tool_round env raw ts io of None \<Rightarrow> None | Some (Inl res) \<Rightarrow> Some res | Some (Inr (ts', io')) \<Rightarrow> openai_tool_stream_update env raw ts' io')"
    "lazy_update env raw ts io = (if \<not> (ot_active ts \<and> ot_parse_pos ts < length raw) then Some (True, ts, io)
      else case lazy_round env raw ts io of None \<Rightarrow> None | Some (Inl res) \<Rightarrow> Some res | Some (Inr (ts', io')) \<Rightarrow> lazy_update env raw ts' io')"
  using round_moves [OF assms, of io]
  by (auto simp: openai_tool_stream_update.simps [of env raw ts io] lazy_update.simps [of env raw ts io] round_fine_def split: option.splits sum.splits)

section \<open>Only the text decides, not how it arrives\<close>

lemma lazy_value:
  assumes "ot_state ts = DSML_TOOL_PARAM_VALUE" "ot_syn ts = Some syn"
  shows "find_lit_bounded (drop (ot_parse_pos ts) raw) (param_end syn) = None \<Longrightarrow> lazy_round env raw ts io = Some (Inl (True, ts, io))"
    "find_lit_bounded (drop (ot_parse_pos ts) raw) (param_end syn) = Some i \<Longrightarrow> lazy_round env raw ts io = in_value env raw syn ts io"
  using assms by (auto simp: lazy_round_def tool_round_def)

lemma lazy_round_grow:
  assumes "online env" "prefix raw1 raw2" "tool_wf raw1 ts" "ot_active ts"
  shows "(\<exists>p \<ge> ot_parse_pos ts. p \<le> length raw1 \<and> lazy_round env raw1 ts io = Some (Inl (True, ts\<lparr>ot_parse_pos := p\<rparr>, io)) \<and>
      lazy_round env raw2 (ts\<lparr>ot_parse_pos := p\<rparr>) io = lazy_round env raw2 ts io) \<or>
    lazy_round env raw2 ts io = lazy_round env raw1 ts io \<and> stops_only (lazy_round env raw1 ts io)"
proof -
  obtain syn where syn: "syn \<in> set dsml_syntaxes" "ot_syn ts = Some syn" and le: "ot_parse_pos ts \<le> length raw1" using assms(3,4) by (auto simp: tool_wf_def)
  define p where "p = skip_blanks raw1 (ot_parse_pos ts)"
  have p: "ot_parse_pos ts \<le> p" "p \<le> length raw1" using skip_blanks_bounds [OF le] by (simp_all add: p_def)
  note b = blanks_resume [OF assms(2) le p_def, of env syn io]
  show ?thesis
  proof (cases "ot_state ts")
    case DSML_TOOL_BETWEEN_INVOKES
    then show ?thesis using between_invokes_grow [OF assms(1,2) _ le syn(1) p_def, of io] p b syn(2)
      by (auto simp: lazy_round_def tool_round_def intro!: exI [of _ p])
  next
    case DSML_TOOL_BETWEEN_PARAMS
    then show ?thesis using between_params_grow [OF assms(1,2) _ le syn(1) p_def, of io] p b syn(2)
      by (auto simp: lazy_round_def tool_round_def intro!: exI [of _ p])
  next
    case DSML_TOOL_PARAM_VALUE
    note v = lazy_value [OF DSML_TOOL_PARAM_VALUE syn(2)]
    show ?thesis
    proof (cases "find_lit_bounded (drop (ot_parse_pos ts) raw1) (param_end syn)")
      case None
      have "ts\<lparr>ot_parse_pos := ot_parse_pos ts\<rparr> = ts" by simp
      then show ?thesis using v(1) [OF None, of env io] le by (intro disjI1 exI [of _ "ot_parse_pos ts"]) simp
    next
      case (Some i)
      note s2 = find_lit_grow [OF assms(2) le table_lits(1) [OF syn(1)] Some]
      have "i \<le> length raw1 - ot_parse_pos ts" using Some by (simp add: find_lit_Some)
      then have "take i (drop (ot_parse_pos ts) raw2) = take i (drop (ot_parse_pos ts) raw1)" using assms(2) le by (auto simp: prefix_def)
      then show ?thesis unfolding v(2) [OF Some] v(2) [OF s2] using Some s2 by (simp add: in_value_def finish_online [OF assms(1)] stops_only_def)
    qed
  qed (use assms(3,4) in \<open>simp_all add: tool_wf_def\<close>)
qed

lemma round_at_end:
  assumes "online env" "tool_wf raw ts" "ot_active ts" "ot_parse_pos ts \<ge> length raw"
  shows "tool_round env raw ts io = Some (Inl (True, ts, io))" "lazy_round env raw ts io = Some (Inl (True, ts, io))"
proof -
  obtain syn where syn: "syn \<in> set dsml_syntaxes" "ot_syn ts = Some syn" using assms(2,3) by (auto simp: tool_wf_def)
  have sk: "skip_blanks raw (ot_parse_pos ts) = ot_parse_pos ts" using assms(4) by (simp add: skip_blanks_def)
  have f: "find_lit_bounded (drop (ot_parse_pos ts) raw) (param_end syn) = None" using assms(4) table_lits(2) [OF syn(1)] by (simp add: find_lit_None)
  have "tool_param_value_stream_safe_len raw (ot_parse_pos ts) (param_end syn) (ot_param_is_string ts) \<le> ot_parse_pos ts"
    using safe_len_le [of raw "ot_parse_pos ts"] assms(4) le_trans by blast
  then have v: "in_value env raw syn ts io = Some (Inl (True, ts, io))" by (simp add: in_value_def f emit_value_def Let_def)
  then show "tool_round env raw ts io = Some (Inl (True, ts, io))" using assms sk syn(2)
    by (cases "ot_state ts") (auto simp: tool_round_def tool_wf_def between_invokes_def between_params_def Let_def)
  then show "lazy_round env raw ts io = Some (Inl (True, ts, io))" by (simp add: lazy_round_def)
qed

lemma stream_step:
  assumes "online env" "tool_wf raw ts"
  shows "openai_tool_stream_update env raw ts io = (if \<not> ot_active ts then Some (True, ts, io)
      else case tool_round env raw ts io of None \<Rightarrow> None | Some (Inl res) \<Rightarrow> Some res | Some (Inr (ts', io')) \<Rightarrow> openai_tool_stream_update env raw ts' io')"
    "lazy_update env raw ts io = (if \<not> ot_active ts then Some (True, ts, io)
      else case lazy_round env raw ts io of None \<Rightarrow> None | Some (Inl res) \<Rightarrow> Some res | Some (Inr (ts', io')) \<Rightarrow> lazy_update env raw ts' io')"
  using stream_round [OF assms] round_at_end [OF assms] by (auto simp: not_less)

lemma stream_induct [consumes 1, case_names fine idle stop goes_on]:
  assumes "tool_wf raw ts" and "\<And>ts io. tool_wf raw ts \<Longrightarrow> ot_active ts \<Longrightarrow> round_fine raw ts (rf ts io)"
    and "\<And>ts io. tool_wf raw ts \<Longrightarrow> \<not> ot_active ts \<Longrightarrow> P ts io"
    and "\<And>ts io. tool_wf raw ts \<Longrightarrow> ot_active ts \<Longrightarrow> (\<And>x. rf ts io \<noteq> Some (Inr x)) \<Longrightarrow> P ts io"
    and "\<And>ts io ts' io'. tool_wf raw ts \<Longrightarrow> ot_active ts \<Longrightarrow> rf ts io = Some (Inr (ts', io')) \<Longrightarrow> tool_wf raw ts' \<Longrightarrow> P ts' io' \<Longrightarrow> P ts io"
  shows "P ts io"
  using assms(1)
proof (induction "if ot_active ts then Suc (length raw - ot_parse_pos ts) else 0" arbitrary: ts io rule: less_induct)
  case (less ts io)
  show ?case
  proof (cases "ot_active ts \<and> (\<exists>x. rf ts io = Some (Inr x))")
    case True
    then obtain ts' io' where r: "ot_active ts" "rf ts io = Some (Inr (ts', io'))" by auto
    have w: "tool_wf raw ts'" "ot_parse_pos ts < ot_parse_pos ts' \<or> \<not> ot_active ts'" using assms(2) [OF less(2) r(1), of io] r(2) by (auto simp: round_fine_def)
    then have "(if ot_active ts' then Suc (length raw - ot_parse_pos ts') else 0) < (if ot_active ts then Suc (length raw - ot_parse_pos ts) else 0)"
      using r(1) by (cases "ot_active ts'") (auto simp: tool_wf_def intro!: diff_less_mono2)
    then have "P ts' io'" using less(1) w(1) by blast
    then show ?thesis using assms(5) [OF less(2) r w(1)] by blast
  next
    case False
    then show ?thesis using assms(3,4) less(2) by blast
  qed
qed

lemma lazy_twice:
  assumes "online env" "prefix raw1 raw2" "tool_wf raw1 ts"
  shows "case lazy_update env raw1 ts io of None \<Rightarrow> lazy_update env raw2 ts io = None
    | Some (ok, ts', io') \<Rightarrow> ok \<and> tool_wf raw1 ts' \<and> lazy_update env raw2 ts' io' = lazy_update env raw2 ts io"
  using assms(3)
proof (induction rule: stream_induct [where rf = "lazy_round env raw1"])
  case (fine ts io)
  then show ?case by (rule round_moves(2) [OF assms(1)])
next
  case (idle ts io)
  then show ?case by (simp add: stream_step(2) [OF assms(1)])
next
  case (stop ts io)
  note u1 = stream_step(2) [OF assms(1) stop(1), of io] and u2 = stream_step(2) [OF assms(1) tool_wf_grow [OF stop(1) assms(2)], of io]
  note fine = round_moves(2) [OF assms(1) stop(1,2), of io]
  from lazy_round_grow [OF assms(1,2) stop(1,2), of io] show ?case
  proof (elim disjE exE conjE)
    fix p
    assume p: "p \<ge> ot_parse_pos ts" "p \<le> length raw1" "lazy_round env raw1 ts io = Some (Inl (True, ts\<lparr>ot_parse_pos := p\<rparr>, io))"
      "lazy_round env raw2 (ts\<lparr>ot_parse_pos := p\<rparr>) io = lazy_round env raw2 ts io"
    have wf: "tool_wf raw1 (ts\<lparr>ot_parse_pos := p\<rparr>)" using stop(1) p(2) by (simp add: tool_wf_def)
    then show ?case using u1 u2 p(3,4) stop(2) stream_step(2) [OF assms(1) tool_wf_grow [OF wf assms(2)], of io] by simp
  next
    assume eq: "lazy_round env raw2 ts io = lazy_round env raw1 ts io" "stops_only (lazy_round env raw1 ts io)"
    show ?case
    proof (cases "lazy_round env raw1 ts io")
      case None
      then show ?thesis using u1 u2 eq stop(2) by simp
    next
      case (Some x)
      then obtain ok ts' io' where x: "lazy_round env raw1 ts io = Some (Inl (ok, ts', io'))" using stop(3) by (cases x) auto
      have "ok" "tool_wf raw1 ts'" using fine x by (auto simp: round_fine_def)
      moreover have "\<not> ot_active ts'" using eq(2) x by (simp add: stops_only_def)
      ultimately show ?thesis using u1 u2 eq(1) x stop(2) stream_step(2) [OF assms(1) tool_wf_grow [OF _ assms(2)], of ts' io'] by simp
    qed
  qed
next
  case (goes_on ts io ts' io')
  have "lazy_round env raw2 ts io = lazy_round env raw1 ts io" using lazy_round_grow [OF assms(1,2) goes_on(1,2), of io] goes_on(3) by auto
  then show ?case using goes_on stream_step(2) [OF assms(1) goes_on(1), of io] stream_step(2) [OF assms(1) tool_wf_grow [OF goes_on(1) assms(2)], of io]
    by (simp split: option.splits prod.splits)
qed

text \<open>The machines as consumers of a growing text; \<^const>\<open>None\<close> when an id could not be drawn.\<close>

definition tool_feed :: "stream_env \<Rightarrow> (openai_tool_stream \<times> stream_io) option \<Rightarrow> string \<Rightarrow> (openai_tool_stream \<times> stream_io) option" where
  "tool_feed env s raw = (case s of None \<Rightarrow> None | Some (ts, io) \<Rightarrow> map_option snd (openai_tool_stream_update env raw ts io))"

definition lazy_feed :: "stream_env \<Rightarrow> (openai_tool_stream \<times> stream_io) option \<Rightarrow> string \<Rightarrow> (openai_tool_stream \<times> stream_io) option" where
  "lazy_feed env s raw = (case s of None \<Rightarrow> None | Some (ts, io) \<Rightarrow> map_option snd (lazy_update env raw ts io))"

definition feed_wf :: "string \<Rightarrow> (openai_tool_stream \<times> stream_io) option \<Rightarrow> bool" where
  "feed_wf raw s = (case s of None \<Rightarrow> True | Some (ts, io) \<Rightarrow> tool_wf raw ts)"

text \<open>The environment of a client that stays connected.\<close>

definition live_env :: "(nat \<Rightarrow> bytes) \<Rightarrow> (string \<Rightarrow> bool) \<Rightarrow> stream_env" where
  "live_env draw known = \<lparr>se_up = \<lambda>_. True, se_draw = draw, se_known = known\<rparr>"

lemma live_online: "online (live_env draw known)"
  by (simp add: online_def live_env_def)

interpretation lazy: growing_text "lazy_feed (live_env draw known)" feed_wf "\<lambda>_. True" for draw known
proof
  let ?env = "live_env draw known"
  show "feed_wf t' s" if "feed_wf t s" "prefix t t'" for t t' s
    using that tool_wf_grow by (auto simp: feed_wf_def split: option.splits)
  show "feed_wf t (lazy_feed ?env s t)" if "feed_wf t s" for t s
  proof (cases s)
    case (Some x)
    then show ?thesis using that lazy_twice [OF live_online [of draw known] prefix_order.refl [of t], of "fst x" "snd x"]
      by (cases x) (auto simp: feed_wf_def lazy_feed_def split: option.splits)
  qed (simp add: feed_wf_def lazy_feed_def)
  show "lazy_feed ?env (lazy_feed ?env s t) t' = lazy_feed ?env s t'" if "feed_wf t s" "prefix t t'" for t t' s
  proof (cases s)
    case (Some x)
    then show ?thesis using that lazy_twice [OF live_online [of draw known] that(2), of "fst x" "snd x"]
      by (cases x) (auto simp: feed_wf_def lazy_feed_def split: option.splits)
  qed (simp add: lazy_feed_def)
qed

section \<open>What a client assembles\<close>

text \<open>The arguments of call \<open>n\<close>, put together, and the other events in their order.\<close>

definition args_of :: "nat \<Rightarrow> chat_delta list \<Rightarrow> string" where
  "args_of n ds = concat (map (\<lambda>d. case d of Tool_args m t \<Rightarrow> if m = n then t else [] | _ \<Rightarrow> []) ds)"

definition starts_of :: "chat_delta list \<Rightarrow> chat_delta list" where
  "starts_of ds = filter (\<lambda>d. case d of Tool_args _ _ \<Rightarrow> False | _ \<Rightarrow> True) ds"

lemma args_of_simps [simp]: "args_of n [] = []" "args_of n (a @ b) = args_of n a @ args_of n b" "args_of n [Tool_args m t] = (if m = n then t else [])"
  "args_of n [Tool_start m i nm] = []"
  by (simp_all add: args_of_def)

lemma starts_of_simps [simp]: "starts_of [] = []" "starts_of (a @ b) = starts_of a @ starts_of b" "starts_of [Tool_args m t] = []"
  by (simp_all add: starts_of_def)

lemma value_deltas_view [simp]: "args_of n (value_deltas s m t) = (if m = n then value_text s t else [])" "starts_of (value_deltas s m t) = []"
  by (simp_all add: value_deltas_def)

section \<open>Cuts in a value\<close>

definition seg :: "string \<Rightarrow> nat \<Rightarrow> nat \<Rightarrow> string" where
  "seg raw a b = take (b - a) (drop a raw)"

lemma seg_split: "a \<le> b \<Longrightarrow> b \<le> c \<Longrightarrow> seg raw a c = seg raw a b @ seg raw b c"
proof -
  assume "a \<le> b" "b \<le> c"
  then have "c - a = (b - a) + (c - b)" "drop (b - a) (drop a raw) = drop b raw" by simp_all
  then show ?thesis unfolding seg_def by (simp only: take_add)
qed

lemma seg_grow: "prefix raw raw' \<Longrightarrow> b \<le> length raw \<Longrightarrow> seg raw' a b = seg raw a b"
  by (auto simp: seg_def prefix_def)

lemma seg_set: "set (seg raw a b) \<subseteq> set raw"
  unfolding seg_def using set_take_subset set_drop_subset by fast

lemma unescape_entity:
  "unescape_loop (''&amp;'' @ w) = CHR ''&'' # unescape_loop w" "unescape_loop (''&lt;'' @ w) = CHR ''<'' # unescape_loop w"
  "unescape_loop (''&gt;'' @ w) = CHR ''>'' # unescape_loop w" "unescape_loop (''&quot;'' @ w) = CHR 0x22 # unescape_loop w"
  "unescape_loop (''&apos;'' @ w) = CHR 0x27 # unescape_loop w"
  by (simp_all add: unescape_loop.simps [of "CHR ''&'' # _"])

lemma entity_loop:
  assumes "ent \<in> set entities" "prefix ent v"
  shows "\<exists>d. \<forall>u. unescape_loop (v @ u) = d # unescape_loop (drop (length ent) v @ u)"
proof -
  obtain z where v: "v = ent @ z" using assms(2) by (auto simp: prefix_def)
  have "\<exists>d. \<forall>w. unescape_loop (ent @ w) = d # unescape_loop w"
    using assms(1) unescape_entity by (auto simp: entities_def simp del: append.simps)
  then obtain d where "\<And>w. unescape_loop (ent @ w) = d # unescape_loop w" by blast
  then show ?thesis by (auto simp: v intro!: exI [of _ d])
qed

lemma plain_loop:
  assumes "c \<noteq> CHR ''&'' \<or> (\<forall>ent \<in> set entities. \<not> prefix ent (c # s))"
  shows "unescape_loop (c # s) = c # unescape_loop s"
  using assms by (subst unescape_loop.simps) (auto simp: entities_def)

lemma unescape_append:
  "(\<And>i ent. i < length v \<Longrightarrow> ent \<in> set entities \<Longrightarrow> prefix ent (drop i (v @ u)) \<Longrightarrow> i + length ent \<le> length v) \<Longrightarrow>
   unescape_loop (v @ u) = unescape_loop v @ unescape_loop u"
proof (induction v rule: length_induct)
  case (1 v)
  show ?case
  proof (cases v)
    case Nil
    then show ?thesis by (simp add: unescape_loop.simps)
  next
    case (Cons c s)
    show ?thesis
    proof (cases "c = CHR ''&'' \<and> (\<exists>ent \<in> set entities. prefix ent (v @ u))")
      case True
      then obtain ent where ent: "ent \<in> set entities" "prefix ent (v @ u)" by blast
      have le: "length ent \<le> length v" using 1(2) [of 0 ent] ent Cons by simp
      then have p: "prefix ent v" using prefix_shrink [of v "v @ u" 0 ent] ent(2) by simp
      obtain d where d: "\<And>w. unescape_loop (v @ w) = d # unescape_loop (drop (length ent) v @ w)" using entity_loop [OF ent(1) p] by blast
      have pos: "0 < length ent" using ent(1) by (auto simp: entities_def)
      have "unescape_loop (drop (length ent) v @ u) = unescape_loop (drop (length ent) v) @ unescape_loop u"
      proof (rule 1(1) [rule_format])
        show "length (drop (length ent) v) < length v" using pos Cons by simp
        show "i + length e \<le> length (drop (length ent) v)" if "i < length (drop (length ent) v)" "e \<in> set entities" "prefix e (drop i (drop (length ent) v @ u))" for i e
        proof -
          have "drop i (drop (length ent) v @ u) = drop (length ent + i) (v @ u)" using le that(1) by (simp add: add.commute)
          then have "length ent + i + length e \<le> length v" using 1(2) [of "length ent + i" e] that by simp
          then show ?thesis using le by simp
        qed
      qed
      then show ?thesis using d [of u] d [of "[]"] by simp
    next
      case False
      then have n: "c \<noteq> CHR ''&'' \<or> (\<forall>ent \<in> set entities. \<not> prefix ent (v @ u))" by blast
      then have n': "c \<noteq> CHR ''&'' \<or> (\<forall>ent \<in> set entities. \<not> prefix ent v)" by auto
      have "unescape_loop (s @ u) = unescape_loop s @ unescape_loop u"
      proof (rule 1(1) [rule_format])
        show "length s < length v" using Cons by simp
        show "i + length e \<le> length s" if "i < length s" "e \<in> set entities" "prefix e (drop i (s @ u))" for i e
          using 1(2) [of "Suc i" e] that Cons by simp
      qed
      then show ?thesis using n n' plain_loop [of c s] plain_loop [of c "s @ u"] Cons by simp
    qed
  qed
qed

text \<open>A position of a value nothing that follows can make wrong: no end tag starts before it, and no entity crosses it.\<close>

definition held :: "string \<Rightarrow> string \<Rightarrow> bool \<Rightarrow> nat \<Rightarrow> nat \<Rightarrow> bool" where
  "held raw pe is_string a p \<longleftrightarrow> (\<forall>raw' j. prefix raw raw' \<longrightarrow> a \<le> j \<longrightarrow> j < p \<longrightarrow> \<not> prefix pe (drop j raw') \<and>
     (is_string \<longrightarrow> (\<forall>ent \<in> set entities. prefix ent (drop j raw') \<longrightarrow> j + length ent \<le> p)))"

lemma held_grow: "held raw pe s a p \<Longrightarrow> prefix raw raw' \<Longrightarrow> held raw' pe s a p"
  unfolding held_def by (meson prefix_order.trans)

lemma held_step: "held raw pe s a p \<Longrightarrow> held raw pe s p q \<Longrightarrow> p \<le> q \<Longrightarrow> held raw pe s a q"
proof -
  assume a: "held raw pe s a p" "held raw pe s p q" "p \<le> q"
  show ?thesis unfolding held_def
  proof (intro allI impI)
    fix raw' j
    assume j: "prefix raw raw'" "a \<le> j" "j < q"
    show "\<not> prefix pe (drop j raw') \<and> (s \<longrightarrow> (\<forall>ent \<in> set entities. prefix ent (drop j raw') \<longrightarrow> j + length ent \<le> q))"
      using a(1) [unfolded held_def, rule_format, OF j(1,2)] a(2) [unfolded held_def, rule_format, OF j(1) _ j(3)] a(3)
      by (cases "j < p") (force, simp)
  qed
qed

lemma held_refl [simp]: "held raw pe s a a"
  by (simp add: held_def)

lemma cstr_plain: "NUL \<notin> set t \<Longrightarrow> cstr t = t"
  by (induction t) (auto simp: cstr_def)

lemma value_text_split:
  assumes "held raw pe s a p" "a \<le> p" "p \<le> q" "q \<le> length raw" "NUL \<notin> set raw"
  shows "value_text s (seg raw a q) = value_text s (seg raw a p) @ value_text s (seg raw p q)"
proof (cases s)
  case True
  have nul: "NUL \<notin> set (seg raw x y)" for x y using seg_set assms(5) by fast
  have len: "length (seg raw a p) = p - a" using assms(2,3,4) by (simp add: seg_def)
  have "unescape_loop (seg raw a p @ seg raw p q) = unescape_loop (seg raw a p) @ unescape_loop (seg raw p q)"
  proof (rule unescape_append)
    fix i ent
    assume i: "i < length (seg raw a p)" "ent \<in> set entities" "prefix ent (drop i (seg raw a p @ seg raw p q))"
    have "drop i (seg raw a p @ seg raw p q) = take (q - a - i) (drop (a + i) raw)"
      unfolding seg_split [OF assms(2,3), symmetric] by (simp add: seg_def drop_take add.commute)
    then have "prefix ent (drop (a + i) raw)" using i(3) take_is_prefix prefix_order.trans by metis
    then have "a + i + length ent \<le> p" using assms(1) i(1,2) len True unfolding held_def by auto
    then show "i + length ent \<le> length (seg raw a p)" using len by simp
  qed
  then show ?thesis using True by (simp add: value_text_def seg_split [OF assms(2,3)] cstr_plain nul)
qed (simp add: value_text_def seg_split [OF assms(2,3)])

lemma utf8_cut:
  assumes "utf8_stream_safe_len (Some raw) start e False = l" "start < l" "l < e"
  shows "utf8_expected_len (raw ! l) > 1"
proof -
  define p where "p = cont_back raw start e 0"
  have p: "p \<le> e" by (simp add: p_def cont_back_le)
  show ?thesis using assms p by (auto simp: utf8_stream_safe_len_def Let_def p_def [symmetric] split: if_splits)
qed

lemma entity_chars: "list_all (\<lambda>ent. tl ent \<noteq> [] \<and> hd ent = CHR ''&'' \<and> CHR ''&'' \<notin> set (tl ent) \<and> length ent \<le> 6 \<and> list_all (\<lambda>c. utf8_expected_len c = 1) ent) entities"
  by code_simp

lemma prefix_nth: "prefix lit (drop j x) \<Longrightarrow> k < length lit \<Longrightarrow> j \<le> length x \<Longrightarrow> x ! (j + k) = lit ! k"
  by (auto simp: prefix_def nth_append dest!: arg_cong [of _ _ "\<lambda>y. y ! k"])

lemma begun_tag_last:
  assumes "tag_shape lit" "prefix raw raw'" "prefix lit (drop j raw')" "j < length raw" "length raw < j + length lit"
  shows "raw ! j = CHR ''<''" "j < m \<Longrightarrow> m < length raw \<Longrightarrow> raw ! m \<noteq> CHR ''<''"
proof -
  have lit: "hd lit = CHR ''<''" "CHR ''<'' \<notin> set (tl lit)" "lit \<noteq> []" using assms(1) by (auto simp: tag_shape_def)
  have nth: "raw ! (j + k) = lit ! k" if "j + k < length raw" for k
    using prefix_nth [OF assms(3), of k] that assms(2,4,5) by (auto simp: prefix_def nth_append)
  show "raw ! j = CHR ''<''" using nth [of 0] assms(4) lit by (simp add: hd_conv_nth)
  show "raw ! m \<noteq> CHR ''<''" if mj: "j < m" "m < length raw"
  proof -
    obtain k where k: "m = j + Suc k" using less_imp_Suc_add [OF mj(1)] by auto
    have "Suc k < length lit" using k mj(2) assms(5) by simp
    then have "lit ! Suc k \<in> set (tl lit)" by (cases lit) auto
    then show ?thesis using nth [of "Suc k"] k mj(2) lit(2) by auto
  qed
qed

lemma tag_limit_held:
  assumes "tag_shape pe" "find_lit_bounded (drop a raw) pe = None" "prefix raw raw'" "a \<le> j" "j < tag_limit raw a pe"
  shows "\<not> prefix pe (drop j raw')"
proof
  assume p: "prefix pe (drop j raw')"
  have jl: "j < length raw" using assms(5) tag_limit_le [of raw a pe] by simp
  have long: "length raw < j + length pe"
  proof (rule ccontr)
    assume "\<not> ?thesis"
    then have "prefix pe (drop (j - a) (drop a raw))" using prefix_shrink [OF assms(3) _ p] assms(4) by simp
    then show False using assms(2) jl assms(4) unfolding find_lit_None by (auto dest!: spec [of _ "j - a"])
  qed
  note b = begun_tag_last [OF assms(1,3) p jl long]
  let ?scan = "if length raw > a + length pe then length raw - length pe else a"
  have "?scan \<le> j" using long assms(4) by auto
  then have lc: "last_char raw (CHR ''<'') ?scan (length raw) = Some j"
    using last_char_None [of raw "CHR ''<''" ?scan "length raw" j] last_char_Some [of raw "CHR ''<''" ?scan "length raw"] b jl
    by (cases "last_char raw (CHR ''<'') ?scan (length raw)") (auto, metis linorder_neqE_nat)
  have "raw ! (j + k) = pe ! k" if "j + k < length raw" for k
    using prefix_nth [OF p, of k] that assms(3) long by (auto simp: prefix_def nth_append)
  then have "take (length raw - j) (drop j raw) = take (length raw - j) pe" using long by (intro nth_equalityI) auto
  then have "tag_limit raw a pe = j" using lc long jl by (simp add: tag_limit_def)
  then show False using assms(5) by simp
qed

lemma entity_facts:
  assumes "ent \<in> set entities"
  shows "ent ! 0 = CHR ''&''" "0 < length ent" "length ent \<le> 6" "0 < k \<Longrightarrow> k < length ent \<Longrightarrow> ent ! k \<noteq> CHR ''&''" "k < length ent \<Longrightarrow> utf8_expected_len (ent ! k) = 1"
proof -
  have e: "tl ent \<noteq> []" "hd ent = CHR ''&''" "CHR ''&'' \<notin> set (tl ent)" "length ent \<le> 6" "\<forall>c \<in> set ent. utf8_expected_len c = 1"
    using entity_chars assms by (auto simp: list_all_iff)
  show "ent ! 0 = CHR ''&''" "0 < length ent" "length ent \<le> 6" using e by (cases ent, auto)+
  show "0 < k \<Longrightarrow> k < length ent \<Longrightarrow> ent ! k \<noteq> CHR ''&''" using e(3) by (cases ent; cases k) (auto simp: in_set_conv_nth)
  show "k < length ent \<Longrightarrow> utf8_expected_len (ent ! k) = 1" using e(5) by simp
qed

lemma entity_limit_held:
  assumes "T \<le> length raw" "prefix raw raw'" "a \<le> j" "j < dsml_entity_stream_safe_len raw a T" "ent \<in> set entities" "prefix ent (drop j raw')"
  shows "j + length ent \<le> dsml_entity_stream_safe_len raw a T"
proof (rule ccontr)
  let ?e = "dsml_entity_stream_safe_len raw a T"
  assume "\<not> ?thesis"
  then have over: "?e < j + length ent" by simp
  obtain z where z: "raw' = raw @ z" using assms(2) by (auto simp: prefix_def)
  have eT: "?e \<le> T" by (rule entity_safe_le)
  note ent = entity_facts [OF assms(5)]
  have nth: "raw ! (j + k) = ent ! k" if "k < length ent" "j + k < length raw" for k
    using prefix_nth [OF assms(6) that(1)] that(2) by (simp add: z nth_append)
  have j: "raw ! j = CHR ''&''" using nth [of 0] ent(1,2) assms(1,4) eT by simp
  have none: "raw ! m \<noteq> CHR ''&''" if m: "j < m" "m < j + length ent" "m < length raw" for m
    using nth [of "m - j"] ent(4) [of "m - j"] m by simp
  let ?scan = "if T > a + 6 then T - 6 else a"
  show False
  proof (cases "?e = T")
    case False
    then have "raw ! ?e = CHR ''&''" "?e < T"
      by (auto simp: dsml_entity_stream_safe_len_def Let_def split: option.splits if_splits dest!: last_char_Some)
    then show False using none [of ?e] over assms(1,4) by simp
  next
    case True
    have sc: "?scan \<le> j" using over True ent(3) assms(3) by auto
    have "last_char raw (CHR ''&'') ?scan T = Some j"
      using last_char_None [of raw "CHR ''&''" ?scan T j] last_char_Some [of raw "CHR ''&''" ?scan T] j none sc assms(1,4) True over
      by (cases "last_char raw (CHR ''&'') ?scan T") (auto, metis less_le_trans less_trans linorder_neqE_nat)
    moreover have "take (T - j) (drop j raw) = take (T - j) ent"
      using nth over True assms(1,4) by (intro nth_equalityI) auto
    moreover have "T - j < length ent" using over True assms(4) by simp
    ultimately have "?e = j" using assms(5) by (auto simp: dsml_entity_stream_safe_len_def Let_def list_ex_iff)
    then show False using assms(4) by simp
  qed
qed

lemma safe_len_held:
  assumes "tag_shape pe" "find_lit_bounded (drop a raw) pe = None"
  shows "held raw pe s a (tool_param_value_stream_safe_len raw a pe s)"
  unfolding held_def
proof (intro allI impI)
  let ?T = "tag_limit raw a pe" let ?e = "if s then dsml_entity_stream_safe_len raw a ?T else ?T" let ?l = "tool_param_value_stream_safe_len raw a pe s"
  fix raw' j
  assume j: "prefix raw raw'" "a \<le> j" "j < ?l"
  have T: "?T \<le> length raw" by (rule tag_limit_le)
  have e: "?e \<le> ?T" using entity_safe_le by simp
  have l: "utf8_stream_safe_len (Some raw) a ?e False = ?l" by (simp only: safe_len_limit)
  have le: "?l \<le> ?e" using utf8_safe_le [of "Some raw" a ?e False] l by simp
  have "j + length ent \<le> ?l" if s and ent: "ent \<in> set entities" "prefix ent (drop j raw')" for ent
  proof (rule ccontr)
    assume over: "\<not> j + length ent \<le> ?l"
    have "j + length ent \<le> ?e" using entity_limit_held [OF T j(1,2) _ ent] j(3) le that(1) by simp
    then have cut: "?l < ?e" using over by simp
    have "utf8_expected_len (raw ! ?l) > 1" by (rule utf8_cut [OF l _ cut]) (use j in simp)
    moreover have "raw' ! ?l = raw ! ?l" using j(1) cut e T by (auto simp: prefix_def nth_append)
    moreover have "raw' ! (j + (?l - j)) = ent ! (?l - j)" by (rule prefix_nth [OF ent(2)]) (use over j cut e T prefix_length_le [OF j(1)] in auto)
    ultimately show False using entity_facts(5) [OF ent(1), of "?l - j"] over j(3) by simp
  qed
  then show "\<not> prefix pe (drop j raw') \<and> (s \<longrightarrow> (\<forall>ent \<in> set entities. prefix ent (drop j raw') \<longrightarrow> j + length ent \<le> ?l))"
    using tag_limit_held [OF assms j(1,2)] j(3) le e by (auto split: if_splits)
qed

section \<open>The streaming machine follows the one without lookahead\<close>

text \<open>What was sent before does not matter to what a round does.\<close>

definition shift_io :: "chat_delta list \<Rightarrow> stream_io \<Rightarrow> stream_io" where
  "shift_io out io = io\<lparr>io_out := out @ io_out io\<rparr>"

definition shift_round :: "chat_delta list \<Rightarrow> round_result \<Rightarrow> round_result" where
  "shift_round out res = map_option (map_sum (\<lambda>(ok, ts, io). (ok, ts, shift_io out io)) (\<lambda>(ts, io). (ts, shift_io out io))) res"

lemma send_shift: "send ds (shift_io out io) = shift_io out (send ds io)"
  by (simp add: send_def shift_io_def)

lemma stream_id_shift: "openai_tool_stream_id env ts n (shift_io out io) = map_option (\<lambda>(i, ts, io). (i, ts, shift_io out io)) (openai_tool_stream_id env ts n io)"
  by (auto simp: openai_tool_stream_id_def Let_def shift_io_def option.map_comp comp_def split: option.splits intro!: option.map_cong)

lemma start_invoke_shift:
  "online env \<Longrightarrow> openai_tool_start_invoke env raw ts (shift_io out io) = map_option (\<lambda>(ok, ts, io). (ok, ts, shift_io out io)) (openai_tool_start_invoke env raw ts io)"
  by (simp add: openai_tool_start_invoke_def stream_id_shift emit_online fragment_online send_shift split: option.split prod.split)

lemma start_param_shift:
  "online env \<Longrightarrow> openai_tool_start_param env raw ts (shift_io out io) = (case openai_tool_start_param env raw ts io of (ok, ts, io) \<Rightarrow> (ok, ts, shift_io out io))"
  by (simp add: openai_tool_start_param_def openai_tool_emit_param_prefix_def Let_def fragment_online send_shift split: option.split prod.split)

lemma between_shift:
  assumes "online env"
  shows "between_invokes env raw syn ts (shift_io out io) = shift_round out (between_invokes env raw syn ts io)"
    "between_params env raw syn ts (shift_io out io) = shift_round out (between_params env raw syn ts io)"
  using assms
  by (auto simp: between_invokes_def between_params_def Let_def shift_round_def start_invoke_shift start_param_shift fragment_online send_shift
      split: option.splits prod.splits bool.splits)

definition same_view :: "stream_io \<Rightarrow> stream_io \<Rightarrow> bool" where
  "same_view io io' \<longleftrightarrow> io_draws io = io_draws io' \<and> starts_of (io_out io) = starts_of (io_out io') \<and> (\<forall>n. args_of n (io_out io) = args_of n (io_out io'))"

lemma same_view_refl [simp]: "same_view io io"
  by (simp add: same_view_def)

lemma same_view_sym: "same_view a b \<Longrightarrow> same_view b a"
  by (simp add: same_view_def)

lemma same_view_trans: "same_view a b \<Longrightarrow> same_view b c \<Longrightarrow> same_view a c"
  by (simp add: same_view_def)

lemma same_view_send: "same_view a b \<Longrightarrow> same_view (send ds a) (send ds b)"
  by (simp add: same_view_def send_def)

text \<open>The machine of the code may have sent the beginning of an open value.\<close>

definition sim :: "string \<Rightarrow> openai_tool_stream \<times> stream_io \<Rightarrow> openai_tool_stream \<times> stream_io \<Rightarrow> bool" where
  "sim raw = (\<lambda>(ts, io) (tz, iol). ts = tz \<and> same_view io iol \<or>
     (ot_active tz \<and> ot_state tz = DSML_TOOL_PARAM_VALUE \<and> (\<exists>syn p. ot_syn tz = Some syn \<and> ts = tz\<lparr>ot_parse_pos := p\<rparr> \<and> ot_parse_pos tz \<le> p \<and> p \<le> length raw \<and>
       held raw (param_end syn) (ot_param_is_string tz) (ot_parse_pos tz) p \<and>
       same_view io (send (value_deltas (ot_param_is_string tz) (ot_index tz) (seg raw (ot_parse_pos tz) p)) iol))))"

lemma sim_refl: "same_view io iol \<Longrightarrow> sim raw (ts, io) (ts, iol)"
  by (simp add: sim_def)

lemma sim_grow:
  assumes "sim raw s l" "prefix raw raw'"
  shows "sim raw' s l"
proof -
  obtain ts io tz iol where s: "s = (ts, io)" "l = (tz, iol)" by (cases s; cases l)
  have "p \<le> length raw \<Longrightarrow> p \<le> length raw'" for p using prefix_length_le [OF assms(2)] by simp
  then show ?thesis using assms(1) held_grow [OF _ assms(2)] seg_grow [OF assms(2)] unfolding s sim_def by fastforce
qed

definition round_sim :: "(openai_tool_stream \<times> stream_io \<Rightarrow> openai_tool_stream \<times> stream_io \<Rightarrow> bool) \<Rightarrow> round_result \<Rightarrow> round_result \<Rightarrow> bool" where
  "round_sim R res resl = (case resl of None \<Rightarrow> res = None
     | Some (Inl (okl, tz, iol)) \<Rightarrow> (\<exists>ts io. res = Some (Inl (True, ts, io)) \<and> R (ts, io) (tz, iol))
     | Some (Inr (tz, iol)) \<Rightarrow> (\<exists>ts io. res = Some (Inr (ts, io)) \<and> R (ts, io) (tz, iol)))"

lemma shift_sim:
  assumes "same_view io iol" "\<And>out b. f (shift_io out b) = shift_round out (f b)" "round_fine raw ts (f iol)"
  shows "round_sim (\<lambda>(ts, io) (tz, iol). ts = tz \<and> same_view io iol) (f io) (f iol)"
proof -
  let ?b = "iol\<lparr>io_out := []\<rparr>"
  have io: "io = shift_io (io_out io) ?b" "iol = shift_io (io_out iol) ?b" using assms(1) by (simp_all add: shift_io_def same_view_def)
  have eq: "f io = shift_round (io_out io) (f ?b)" "f iol = shift_round (io_out iol) (f ?b)" using assms(2) io by metis+
  have v: "same_view (shift_io (io_out io) x) (shift_io (io_out iol) x)" for x using assms(1) by (simp add: same_view_def shift_io_def)
  show ?thesis using assms(3) v unfolding round_sim_def eq
    by (cases "f ?b"; cases "the (f ?b)") (auto simp: shift_round_def round_fine_def eq)
qed

lemma round_sim_mono: "round_sim R a b \<Longrightarrow> (\<And>x y. R x y \<Longrightarrow> S x y) \<Longrightarrow> round_sim S a b"
  unfolding round_sim_def by (auto split: option.splits sum.splits prod.splits)

lemma value_sim:
  assumes "online env" "tool_wf raw tz" "ot_active tz" "NUL \<notin> set raw" "ot_state tz = DSML_TOOL_PARAM_VALUE" "ot_syn tz = Some syn"
    and p: "ts = tz\<lparr>ot_parse_pos := p\<rparr>" "ot_parse_pos tz \<le> p" "p \<le> length raw" "held raw (param_end syn) (ot_param_is_string tz) (ot_parse_pos tz) p"
      "same_view io (send (value_deltas (ot_param_is_string tz) (ot_index tz) (seg raw (ot_parse_pos tz) p)) iol)"
  shows "round_sim (sim raw) (tool_round env raw ts io) (lazy_round env raw tz iol)"
proof -
  let ?a = "ot_parse_pos tz" and ?pe = "param_end syn" and ?s = "ot_param_is_string tz" and ?n = "ot_index tz"
  have syn: "syn \<in> set dsml_syntaxes" using assms(2,3,6) by (auto simp: tool_wf_def)
  have r: "tool_round env raw ts io = in_value env raw syn ts io" using assms(5,6) p(1) by (simp add: tool_round_def)
  have none: "\<not> prefix ?pe (drop j raw)" if "?a \<le> j" "j < p" for j using p(4) that unfolding held_def by blast
  have split: "value_text ?s (seg raw ?a q) = value_text ?s (seg raw ?a p) @ value_text ?s (seg raw p q)" if "p \<le> q" "q \<le> length raw" for q
    by (rule value_text_split [OF p(4,2) that assms(4)])
  show ?thesis
  proof (cases "find_lit_bounded (drop ?a raw) ?pe")
    case None
    have "\<not> prefix ?pe (drop j (drop p raw))" if "j \<le> length (drop p raw)" for j
    proof -
      have "drop j (drop p raw) = drop (p - ?a + j) (drop ?a raw)" "p - ?a + j \<le> length (drop ?a raw)" using that p(2,3) by (simp_all add: add.commute)
      then show ?thesis using None unfolding find_lit_None by metis
    qed
    then have np: "find_lit_bounded (drop p raw) ?pe = None" unfolding find_lit_None by blast
    let ?l = "tool_param_value_stream_safe_len raw p ?pe ?s" let ?q = "max p ?l"
    have q: "p \<le> ?q" "?q \<le> length raw" using p(3) safe_len_le [of raw p ?pe ?s] by simp_all
    have hq: "held raw ?pe ?s p ?q" using safe_len_held [OF table_lits(1) [OF syn] np, of ?s] by (cases "p < ?l") (auto simp: max_def)
    have "take (?l - p) (drop p raw) = seg raw p ?q" by (simp add: seg_def max_def)
    then have "in_value env raw syn ts io = Some (Inl (True, tz\<lparr>ot_parse_pos := ?q\<rparr>, send (value_deltas ?s ?n (seg raw p ?q)) io))"
      using np p(1) by (simp add: in_value_def Let_def emit_value_online [OF assms(1)] max_def)
    moreover have "same_view (send (value_deltas ?s ?n (seg raw p ?q)) io) (send (value_deltas ?s ?n (seg raw ?a ?q)) iol)"
      using p(5) split [OF q] by (simp add: same_view_def send_def)
    ultimately show ?thesis using lazy_value(1) [OF assms(5,6) None, of env iol] held_step [OF p(4) hq q(1)] q p(2) assms(3,5,6)
      unfolding round_sim_def r sim_def by auto
  next
    case (Some i)
    have i: "i \<le> length raw - ?a" "prefix ?pe (drop (?a + i) raw)" "\<And>j. j < i \<Longrightarrow> \<not> prefix ?pe (drop (?a + j) raw)"
      using Some by (auto simp: find_lit_Some add.commute)
    have pi: "p \<le> ?a + i" using none [of "?a + i"] i(2) by (meson le_add1 not_le)
    have fp: "find_lit_bounded (drop p raw) ?pe = Some (?a + i - p)" unfolding find_lit_Some
    proof (intro conjI allI impI)
      show "?a + i - p \<le> length (drop p raw)" using i(1) p(2,3) assms(2) by (auto simp: tool_wf_def)
      show "prefix ?pe (drop (?a + i - p) (drop p raw))" using i(2) pi by simp
      show "\<not> prefix ?pe (drop j (drop p raw))" if "j < ?a + i - p" for j
        using i(3) [of "p - ?a + j"] that p(2) by (simp add: add.commute)
    qed
    have le: "?a + i \<le> length raw" using i(1) assms(2) by (auto simp: tool_wf_def)
    have "tool_round env raw ts io = Some (Inr (tz\<lparr>ot_parse_pos := ?a + i + length ?pe, ot_state := DSML_TOOL_BETWEEN_PARAMS\<rparr>,
        send (value_deltas ?s ?n (seg raw p (?a + i)) @ (if ?s then [Tool_args ?n dq] else [])) io))"
      using fp pi p(1) unfolding r in_value_def by (simp add: finish_online [OF assms(1)] seg_def)
    moreover have "lazy_round env raw tz iol = Some (Inr (tz\<lparr>ot_parse_pos := ?a + i + length ?pe, ot_state := DSML_TOOL_BETWEEN_PARAMS\<rparr>,
        send (value_deltas ?s ?n (seg raw ?a (?a + i)) @ (if ?s then [Tool_args ?n dq] else [])) iol))"
      using Some unfolding lazy_value(2) [OF assms(5,6) Some] in_value_def by (simp add: finish_online [OF assms(1)] seg_def)
    moreover have "same_view (send (value_deltas ?s ?n (seg raw p (?a + i)) @ (if ?s then [Tool_args ?n dq] else [])) io)
        (send (value_deltas ?s ?n (seg raw ?a (?a + i)) @ (if ?s then [Tool_args ?n dq] else [])) iol)"
      using p(5) split [OF pi le] by (simp add: same_view_def send_def)
    ultimately show ?thesis by (simp add: round_sim_def sim_refl)
  qed
qed

lemma sim_round:
  assumes "online env" "tool_wf raw tz" "ot_active tz" "NUL \<notin> set raw" "sim raw (ts, io) (tz, iol)"
  shows "round_sim (sim raw) (tool_round env raw ts io) (lazy_round env raw tz iol)"
proof -
  obtain syn where syn: "ot_syn tz = Some syn" using assms(2,3) by (auto simp: tool_wf_def)
  have structural: "round_sim (sim raw) (tool_round env raw ts io) (lazy_round env raw tz iol)"
    if eq: "ts = tz" "same_view io iol" and f: "\<And>out b. tool_round env raw tz (shift_io out b) = shift_round out (tool_round env raw tz b)" "ot_state tz \<noteq> DSML_TOOL_PARAM_VALUE"
  proof -
    have l: "lazy_round env raw tz iol = tool_round env raw tz iol" using f(2) by (simp add: lazy_round_def)
    show ?thesis unfolding l eq(1) by (rule round_sim_mono [OF shift_sim [OF eq(2) f(1) round_moves(1) [OF assms(1,2,3)]]]) (auto simp: sim_def)
  qed
  show ?thesis
  proof (cases "ot_state tz")
    case DSML_TOOL_PARAM_VALUE
    show ?thesis
    proof (cases "ts = tz \<and> same_view io iol")
      case True
      have "ts = tz\<lparr>ot_parse_pos := ot_parse_pos tz\<rparr>" using True by simp
      moreover have "same_view io (send (value_deltas (ot_param_is_string tz) (ot_index tz) (seg raw (ot_parse_pos tz) (ot_parse_pos tz))) iol)"
        using True by (simp add: seg_def value_deltas_def value_text_def unescape_loop.simps cstr_def send_def same_view_def)
      ultimately show ?thesis using value_sim [OF assms(1-4) DSML_TOOL_PARAM_VALUE syn, of ts "ot_parse_pos tz"] assms(2) by (simp add: tool_wf_def)
    next
      case False
      then obtain p where "ts = tz\<lparr>ot_parse_pos := p\<rparr>" "ot_parse_pos tz \<le> p" "p \<le> length raw"
        "held raw (param_end syn) (ot_param_is_string tz) (ot_parse_pos tz) p"
        "same_view io (send (value_deltas (ot_param_is_string tz) (ot_index tz) (seg raw (ot_parse_pos tz) p)) iol)"
        using assms(5) syn by (auto simp: sim_def)
      then show ?thesis by (rule value_sim [OF assms(1-4) DSML_TOOL_PARAM_VALUE syn])
    qed
  qed (use structural assms(2,3,5) syn between_shift [OF assms(1)] in \<open>simp_all add: sim_def tool_round_def tool_wf_def\<close>)
qed

lemma sim_wf: "sim raw (ts, io) (tz, iol) \<Longrightarrow> tool_wf raw tz \<Longrightarrow> tool_wf raw ts \<and> ot_active ts = ot_active tz"
  by (auto simp: sim_def tool_wf_def)

lemma sim_update:
  assumes "online env" "NUL \<notin> set raw" "tool_wf raw tz" "sim raw (ts, io) (tz, iol)"
  shows "case lazy_update env raw tz iol of None \<Rightarrow> openai_tool_stream_update env raw ts io = None
    | Some (ok, tz', iol') \<Rightarrow> \<exists>ts' io'. openai_tool_stream_update env raw ts io = Some (True, ts', io') \<and> sim raw (ts', io') (tz', iol')"
  using assms(3,4)
proof (induction arbitrary: ts io rule: stream_induct [where rf = "lazy_round env raw"])
  case (fine ts io)
  then show ?case by (rule round_moves(2) [OF assms(1)])
next
  case (idle tz iol)
  then show ?case using sim_wf [OF idle(3,1)] stream_step [OF assms(1)] by simp
next
  case (stop tz iol)
  note w = sim_wf [OF stop(4,1)]
  have "round_sim (sim raw) (tool_round env raw ts io) (lazy_round env raw tz iol)" by (rule sim_round [OF assms(1) stop(1,2) assms(2) stop(4)])
  then show ?case using stop(2,3) w stream_step(1) [OF assms(1), of raw ts io] stream_step(2) [OF assms(1) stop(1), of iol]
    by (auto simp: round_sim_def split: option.splits sum.splits)
next
  case (goes_on tz iol tz' iol')
  note w = sim_wf [OF goes_on(6,1)]
  have "round_sim (sim raw) (tool_round env raw ts io) (lazy_round env raw tz iol)" by (rule sim_round [OF assms(1) goes_on(1,2) assms(2) goes_on(6)])
  then obtain ts' io' where r: "tool_round env raw ts io = Some (Inr (ts', io'))" "sim raw (ts', io') (tz', iol')" using goes_on(3) by (auto simp: round_sim_def)
  show ?case using goes_on(5) [OF r(2)] r(1) goes_on(2,3) w stream_step(1) [OF assms(1), of raw ts io] stream_step(2) [OF assms(1) goes_on(1), of iol]
    by (auto split: option.splits)
qed

section \<open>Streamed calls do not depend on the pieces\<close>

definition feed_sim :: "string \<Rightarrow> (openai_tool_stream \<times> stream_io) option \<Rightarrow> (openai_tool_stream \<times> stream_io) option \<Rightarrow> bool" where
  "feed_sim raw s l = (case l of None \<Rightarrow> s = None | Some y \<Rightarrow> (\<exists>x. s = Some x \<and> sim raw x y))"

lemma feed_sim_step:
  assumes "feed_sim raw s l" "feed_wf raw l" "prefix raw raw'" "NUL \<notin> set raw'"
  shows "feed_sim raw' (tool_feed (live_env draw known) s raw') (lazy_feed (live_env draw known) l raw')"
proof (cases l)
  case (Some y)
  obtain tz iol where y: "y = (tz, iol)" by (cases y)
  obtain ts io where s: "s = Some (ts, io)" "sim raw (ts, io) (tz, iol)" using assms(1) Some y by (auto simp: feed_sim_def)
  have wf: "tool_wf raw' tz" using assms(2,3) Some y tool_wf_grow by (auto simp: feed_wf_def)
  show ?thesis using sim_update [OF live_online assms(4) wf sim_grow [OF s(2) assms(3)], of draw known] Some y s(1)
    by (auto simp: feed_sim_def tool_feed_def lazy_feed_def split: option.splits)
qed (use assms(1) in \<open>simp add: feed_sim_def tool_feed_def lazy_feed_def\<close>)

lemma feed_sim_pieces:
  "feed_sim t s l \<Longrightarrow> feed_wf t l \<Longrightarrow> NUL \<notin> set (t @ concat pieces) \<Longrightarrow>
   feed_sim (t @ concat pieces) (feed_pieces (tool_feed (live_env draw known)) s t pieces) (feed_pieces (lazy_feed (live_env draw known)) l t pieces)"
proof (induction pieces arbitrary: t s l)
  case (Cons piece pieces)
  let ?t = "t @ piece"
  have "feed_sim ?t (tool_feed (live_env draw known) s ?t) (lazy_feed (live_env draw known) l ?t)"
    by (rule feed_sim_step [OF Cons.prems(1,2)]) (use Cons.prems(3) in auto)
  moreover have "feed_wf ?t (lazy_feed (live_env draw known) l ?t)" using lazy.upd_inv lazy.inv_grow [OF Cons.prems(2)] by simp
  ultimately show ?case using Cons.IH [of ?t] Cons.prems(3) by simp
qed simp

lemma init_wf: "openai_tool_stream_init ts raw pos = (True, ts0) \<Longrightarrow> tool_wf raw ts0"
  using full_lit_bounds by (auto simp: openai_tool_stream_init_def tool_wf_def ot_zero_def find_Some_iff split: option.splits)

text \<open>
  C11.  The tool calls a client assembles from the stream do not depend on how the text was cut into tokens: when
  the text ends outside a value, feeding it in pieces leaves the parser in the state one update with the whole
  text leaves it in, starts the same calls with the same ids and names in the same order, and sends the same
  arguments for each call.
\<close>

theorem streamed_calls_independent_of_pieces:
  assumes "NUL \<notin> set (t @ concat pieces)" "pieces \<noteq> []" "openai_tool_stream_init ts t pos = (True, ts0)"
    and "openai_tool_stream_update (live_env draw known) (t @ concat pieces) ts0 io = Some (ok, ts1, io1)" "ot_state ts1 \<noteq> DSML_TOOL_PARAM_VALUE"
  shows "\<exists>io2. feed_pieces (tool_feed (live_env draw known)) (Some (ts0, io)) t pieces = Some (ts1, io2) \<and> io_draws io2 = io_draws io1 \<and>
    starts_of (io_out io2) = starts_of (io_out io1) \<and> (\<forall>n. args_of n (io_out io2) = args_of n (io_out io1))"
proof -
  let ?raw = "t @ concat pieces" and ?env = "live_env draw known" and ?s = "Some (ts0, io)"
  have s: "feed_sim t ?s ?s" "feed_wf t ?s" using init_wf [OF assms(3)] by (simp_all add: feed_sim_def feed_wf_def sim_refl)
  have whole: "feed_pieces (lazy_feed ?env) ?s t pieces = lazy_feed ?env ?s ?raw" by (rule lazy.feed_whole [OF s(2) assms(2)]) simp
  have one: "feed_sim ?raw (tool_feed ?env ?s ?raw) (lazy_feed ?env ?s ?raw)" by (rule feed_sim_step [OF s _ assms(1)]) simp
  then obtain tz iol where l: "lazy_feed ?env ?s ?raw = Some (tz, iol)" "sim ?raw (ts1, io1) (tz, iol)"
    using assms(4) by (cases "lazy_feed ?env ?s ?raw") (auto simp: feed_sim_def tool_feed_def)
  then have a: "ts1 = tz" "same_view io1 iol" "ot_state tz \<noteq> DSML_TOOL_PARAM_VALUE" using assms(5) by (auto simp: sim_def)
  have "feed_sim ?raw (feed_pieces (tool_feed ?env) ?s t pieces) (Some (tz, iol))" using feed_sim_pieces [OF s assms(1)] whole l(1) by metis
  then obtain io2 where "feed_pieces (tool_feed ?env) ?s t pieces = Some (tz, io2)" "same_view io2 iol"
    using a(3) by (auto simp: feed_sim_def sim_def)
  then show ?thesis using a(1,2) by (auto simp: same_view_def)
qed

theorem streamed_calls_independent_of_pieces_witness:
  "\<exists>ts1 io2. feed_pieces (tool_feed (live_env (\<lambda>k. replicate 16 (word_of_nat k)) (\<lambda>_. False)))
      (Some (snd (openai_tool_stream_init ot_zero ''<tool_calls>'' 0), \<lparr>io_out = [], io_draws = 0\<rparr>)) ''<tool_calls>''
      [''<invoke name=\"f\"><para'', ''meter name=\"a\" string=\"true\">x &l'', ''t; y</param'', ''eter></invoke></tool_calls>''] = Some (ts1, io2) \<and>
    ot_state ts1 = DSML_TOOL_DONE \<and> args_of 0 (io_out io2) = ''{\"a\":\"x < y\"}''"
proof -
  let ?env = "live_env (\<lambda>k. replicate 16 (word_of_nat k)) (\<lambda>_. False)" and ?io = "\<lparr>io_out = [], io_draws = 0\<rparr>" and ?ts = "snd (openai_tool_stream_init ot_zero ''<tool_calls>'' 0)"
  let ?ps = "[''<invoke name=\"f\"><para'', ''meter name=\"a\" string=\"true\">x &l'', ''t; y</param'', ''eter></invoke></tool_calls>'']"
  have nul: "NUL \<notin> set (''<tool_calls>'' @ concat ?ps)" by code_simp
  have i0: "fst (openai_tool_stream_init ot_zero ''<tool_calls>'' 0) = True" by code_simp
  then have i: "openai_tool_stream_init ot_zero ''<tool_calls>'' 0 = (True, ?ts)" by (metis prod.collapse)
  have "map_option (\<lambda>(ok, ts, io). (ok, ot_state ts, args_of 0 (io_out io))) (openai_tool_stream_update ?env (''<tool_calls>'' @ concat ?ps) ?ts ?io) =
    Some (True, DSML_TOOL_DONE, ''{\"a\":\"x < y\"}'')" by code_simp
  then obtain ts1 io1 where u: "openai_tool_stream_update ?env (''<tool_calls>'' @ concat ?ps) ?ts ?io = Some (True, ts1, io1)"
    "ot_state ts1 = DSML_TOOL_DONE" "args_of 0 (io_out io1) = ''{\"a\":\"x < y\"}''" by auto
  show ?thesis using streamed_calls_independent_of_pieces [OF nul _ i u(1)] u(2,3) by auto
qed

end
