(* ===== verification/ThinkingProofs.thy ===== *)
theory ThinkingProofs
  imports DecodeProofs
begin

text \<open>
  The state that tells whether the model is thinking, and the scan for a tool call completed inside the
  reasoning: neither depends on the pieces the text arrives in.
\<close>

section \<open>Thinking ends at the last marker\<close>

definition ends_with :: "string \<Rightarrow> string \<Rightarrow> bool" where
  "ends_with s t \<longleftrightarrow> (\<exists>u. t = u @ s)"

lemma ends_with_drop: "ends_with s t \<longleftrightarrow> length s \<le> length t \<and> drop (length t - length s) t = s"
  unfolding ends_with_def by (metis append_eq_conv_conj append_take_drop_id diff_diff_cancel diff_le_self length_append length_drop le_add2 add_diff_cancel_right')

lemma ends_with_tail:
  assumes "length s \<le> 8" "ts_tail st = drop (length t - 8) t"
  shows "thinking_tail_ends_with st s \<longleftrightarrow> ends_with s t"
proof -
  have "drop (length (drop (length t - 8) t) - length s) (drop (length t - 8) t) = drop (length t - length s) t" if "length s \<le> length t"
    using that assms(1) by (simp add: drop_drop)
  then show ?thesis using assms by (auto simp: thinking_tail_ends_with_def ends_with_drop)
qed

lemma thinking_feed_snoc:
  "ts_tail (thinking_state_feed thinking_zero t) = drop (length t - 8) t \<and>
   ts_inside (thinking_state_feed thinking_zero (t @ [c])) =
     (if ends_with ''<think>'' (t @ [c]) then True else if ends_with ''</think>'' (t @ [c]) then False
      else ts_inside (thinking_state_feed thinking_zero t))"
proof -
  have tail: "ts_tail (thinking_state_feed thinking_zero t) = drop (length t - 8) t" for t
  proof (induction t rule: rev_induct)
    case (snoc c t)
    have "tl (drop (length t - 8) t) = drop (length t - 7) t" if "8 \<le> length t"
    proof -
      have n: "length t - 7 = Suc (length t - 8)" using that by simp
      show ?thesis unfolding n by (simp only: tl_drop drop_Suc)
    qed
    with snoc show ?case
      by (auto simp: thinking_state_feed_def thinking_char_def Let_def)
  qed (simp add: thinking_state_feed_def thinking_zero_def)
  let ?st = "thinking_state_feed thinking_zero t"
  define st1 where "st1 = ?st\<lparr>ts_tail := (if length (ts_tail ?st) = 8 then tl (ts_tail ?st) else ts_tail ?st) @ [c]\<rparr>"
  have "thinking_state_feed thinking_zero (t @ [c]) =
      (if thinking_tail_ends_with st1 ''<think>'' then st1\<lparr>ts_inside := True\<rparr>
       else if thinking_tail_ends_with st1 ''</think>'' then st1\<lparr>ts_inside := False\<rparr> else st1)"
    by (simp add: thinking_state_feed_def thinking_char_def Let_def st1_def)
  moreover from this have "ts_tail st1 = drop (length (t @ [c]) - 8) (t @ [c])" using tail [of "t @ [c]"] by (auto split: if_splits)
  ultimately show ?thesis using tail ends_with_tail [of _ st1 "t @ [c]"] by (auto simp: st1_def)
qed

lemma marker_shapes: "tag_shape ''<think>''" "tag_shape ''</think>''" "apart ''<think>'' ''</think>''"
  by (simp_all add: tag_shape_def apart_def)

lemma close_after_open:
  assumes "u @ ''<think>'' @ v = w @ ''</think>''"
  shows "\<exists>a. v = a @ ''</think>''"
proof -
  let ?t = "u @ ''<think>'' @ v"
  have o: "prefix ''<think>'' (drop (length u) ?t)" by simp
  have c: "prefix ''</think>'' (drop (length w) ?t)" unfolding assms by simp
  have len: "length u + 7 + length v = length w + 8" using arg_cong [OF assms, of length] by simp
  have "length u \<noteq> length w" using apart_not_both [OF marker_shapes(3) o] c by auto
  moreover have "\<not> length w < length u" using tag_only_start [OF marker_shapes(2) c o marker_shapes(1)] len by auto
  ultimately have "length u + 7 \<le> length w" using tag_only_start [OF marker_shapes(1) o c marker_shapes(2)] by simp
  then have "drop (length u + 7) (w @ ''</think>'') = drop (length u + 7) w @ ''</think>''" by simp
  moreover have "drop (length u + 7) ?t = v" by simp
  ultimately show ?thesis using assms by metis
qed

definition thought_open :: "string \<Rightarrow> bool" where
  "thought_open t \<longleftrightarrow> (\<exists>u v. t = u @ ''<think>'' @ v \<and> (\<nexists>a b. v = a @ ''</think>'' @ b))"

lemma thought_open_butlast:
  assumes "thought_open (t @ [c])" and no: "\<not> ends_with ''<think>'' (t @ [c])"
  shows "thought_open t"
proof -
  obtain u v where v: "t @ [c] = u @ ''<think>'' @ v" "\<nexists>a b. v = a @ ''</think>'' @ b"
    using assms(1) unfolding thought_open_def by blast
  have "v \<noteq> []" using v(1) no by (auto simp: ends_with_def)
  then obtain v' d where v': "v = v' @ [d]" by (metis rev_exhaust)
  have t: "t = u @ ''<think>'' @ v'" using v(1) v' by (metis append_assoc append1_eq_conv)
  have "v' \<noteq> a @ ''</think>'' @ b" for a b
  proof
    assume "v' = a @ ''</think>'' @ b"
    then have "v = a @ ''</think>'' @ (b @ [d])" by (simp add: v')
    then show False using v(2) by blast
  qed
  then show ?thesis using t unfolding thought_open_def by blast
qed

lemma thought_open_snoc:
  assumes "thought_open t" and no: "\<not> ends_with ''</think>'' (t @ [c])"
  shows "thought_open (t @ [c])"
proof -
  obtain u v where v: "t = u @ ''<think>'' @ v" "\<nexists>a b. v = a @ ''</think>'' @ b"
    using assms(1) unfolding thought_open_def by blast
  have "v @ [c] \<noteq> a @ ''</think>'' @ b" for a b
  proof (cases b rule: rev_cases)
    case Nil
    have "t @ [c] \<noteq> (u @ ''<think>'' @ a) @ ''</think>''" using no unfolding ends_with_def by blast
    then show ?thesis using v(1) Nil by auto
  next
    case (snoc b' d)
    show ?thesis
    proof
      assume "v @ [c] = a @ ''</think>'' @ b"
      then have "v = a @ ''</think>'' @ b'" using snoc by (metis append_assoc append1_eq_conv)
      then show False using v(2) by blast
    qed
  qed
  then show ?thesis using v(1) unfolding thought_open_def
    by (intro exI [of _ u] exI [of _ "v @ [c]"]) simp
qed

lemma thinking_feed_open: "ts_inside (thinking_state_feed thinking_zero t) \<longleftrightarrow> thought_open t"
proof (induction t rule: rev_induct)
  case Nil
  then show ?case by (simp add: thinking_state_feed_def thinking_zero_def thought_open_def)
next
  case (snoc c t)
  note f = thinking_feed_snoc [of t c, THEN conjunct2]
  consider (opens) "ends_with ''<think>'' (t @ [c])"
    | (closes) "\<not> ends_with ''<think>'' (t @ [c])" "ends_with ''</think>'' (t @ [c])"
    | (other) "\<not> ends_with ''<think>'' (t @ [c])" "\<not> ends_with ''</think>'' (t @ [c])" by blast
  then show ?case
  proof cases
    case opens
    then obtain u where "t @ [c] = u @ ''<think>'' @ []" by (auto simp: ends_with_def)
    then have "thought_open (t @ [c])" unfolding thought_open_def by blast
    then show ?thesis using opens f by simp
  next
    case closes
    then obtain w where w: "t @ [c] = w @ ''</think>''" by (auto simp: ends_with_def)
    have "\<not> thought_open (t @ [c])" using close_after_open w unfolding thought_open_def by (metis append_Nil2)
    then show ?thesis using closes f by simp
  next
    case other
    then show ?thesis using f snoc thought_open_butlast thought_open_snoc by metis
  qed
qed

text \<open>
  C10.  The model is thinking exactly when an opening marker has no closing marker behind it: the eight
  characters the state keeps decide this for any text, however it is cut into pieces.
\<close>

theorem thinking_is_last_marker:
  "ts_inside (thinking_state_feed (thinking_state_feed thinking_zero t1) t2) \<longleftrightarrow>
     (\<exists>u v. t1 @ t2 = u @ ''<think>'' @ v \<and> (\<nexists>a b. v = a @ ''</think>'' @ b))"
proof -
  have "thinking_state_feed (thinking_state_feed thinking_zero t1) t2 = thinking_state_feed thinking_zero (t1 @ t2)"
    by (simp add: thinking_state_feed_def)
  then show ?thesis by (simp only: thinking_feed_open thought_open_def)
qed

section \<open>A call completed inside the reasoning\<close>

definition tool_starts :: "string list" where
  "tool_starts = [DS4_TOOL_CALLS_START, DS4_TOOL_CALLS_START_SHORT, ''<tool_calls>'', ''<tool_call>'']"

definition marker_at :: "string \<Rightarrow> nat \<Rightarrow> bool" where
  "marker_at t q \<longleftrightarrow> q \<le> length t \<and> (\<exists>m \<in> set tool_starts. prefix m (drop q t))"

lemma marker_lits: "list_all (\<lambda>m. tag_shape m \<and> length m \<le> 80) tool_starts"
  unfolding tag_shape_def by code_simp

lemma nearest_fold:
  "case foldl (\<lambda>best c. case c of None \<Rightarrow> best | Some i \<Rightarrow> (case best of None \<Rightarrow> Some i | Some b \<Rightarrow> if i < b then Some i else best)) (b :: nat option) cs of
     None \<Rightarrow> b = None \<and> (\<forall>c \<in> set cs. c = None)
   | Some i \<Rightarrow> (b = Some i \<or> Some i \<in> set cs) \<and> (\<forall>j. b = Some j \<or> Some j \<in> set cs \<longrightarrow> i \<le> j)"
proof (induction cs arbitrary: b)
  case (Cons c cs)
  show ?case
  proof (cases c)
    case None
    then show ?thesis using Cons.IH [of b] by (simp split: option.splits)
  next
    case (Some i)
    show ?thesis
    proof (cases b)
      case None
      then show ?thesis using Some Cons.IH [of "Some i"] by (auto split: option.splits)
    next
      case b: (Some k)
      show ?thesis
      proof (cases "i < k")
        case True
        then show ?thesis using Some b Cons.IH [of "Some i"]
          by (auto split: option.splits dest: spec [of _ i])
      next
        case False
        then show ?thesis using Some b Cons.IH [of "Some k"]
          by (auto split: option.splits dest: spec [of _ k])
      qed
    qed
  qed
qed (auto split: option.splits)

lemma any_start:
  "find_any_tool_start t = Some i \<Longrightarrow> marker_at t i \<and> (\<forall>j < i. \<not> marker_at t j)"
  "find_any_tool_start t = None \<Longrightarrow> \<not> marker_at t j"
proof -
  have e: "find_any_tool_start t = nearest (map (strstr t) tool_starts)" by (simp add: find_any_tool_start_def tool_starts_def)
  note n = nearest_fold [where b = None and cs = "map (strstr t) tool_starts", folded nearest_def, folded e]
  {
    assume s: "find_any_tool_start t = Some i"
    then obtain m where "m \<in> set tool_starts" "strstr t m = Some i" using n by auto
    then have "marker_at t i" using strstr_Some [of t m i] by (auto simp: marker_at_def)
    moreover have "\<not> marker_at t j" if "j < i" for j
    proof
      assume "marker_at t j"
      then obtain m where m: "m \<in> set tool_starts" "j \<le> length t" "prefix m (drop j t)" by (auto simp: marker_at_def)
      then obtain k where k: "strstr t m = Some k" using strstr_None [of t m] by (cases "strstr t m") auto
      then have "k \<le> j" using strstr_first [OF k, of j] m(3) by (meson not_le)
      moreover have "i \<le> k" using n s m(1) k by (auto simp: image_iff) (metis)
      ultimately show False using that by simp
    qed
    ultimately show "marker_at t i \<and> (\<forall>j < i. \<not> marker_at t j)" by simp
  }
  show "find_any_tool_start t = None \<Longrightarrow> \<not> marker_at t j"
    using n by (auto simp: marker_at_def strstr_None)
qed

lemma any_start_eq: "marker_at t i \<Longrightarrow> (\<And>j. j < i \<Longrightarrow> \<not> marker_at t j) \<Longrightarrow> find_any_tool_start t = Some i"
  using any_start [of t] by (cases "find_any_tool_start t") (auto, metis linorder_neqE_nat)

lemma any_start_None: "(\<And>j. \<not> marker_at t j) \<Longrightarrow> find_any_tool_start t = None"
  using any_start(1) [of t] by (cases "find_any_tool_start t") auto

lemma marker_drop: "s \<le> length t \<Longrightarrow> marker_at (drop s t) j \<longleftrightarrow> marker_at t (s + j)"
  by (auto simp: marker_at_def add.commute)

lemma any_start_drop:
  assumes "s \<le> length t" "\<And>q. q < s \<Longrightarrow> \<not> marker_at t q"
  shows "map_option (\<lambda>i. s + i) (find_any_tool_start (drop s t)) = find_any_tool_start t"
proof (cases "find_any_tool_start (drop s t)")
  case None
  then have "\<not> marker_at t q" for q using any_start(2) [OF None, of "q - s"] marker_drop [OF assms(1)] assms(2) by (cases "q < s") auto
  then show ?thesis using None any_start_None [of t] by simp
next
  case (Some i)
  have "find_any_tool_start t = Some (s + i)"
  proof (rule any_start_eq)
    show "marker_at t (s + i)" using any_start(1) [OF Some] marker_drop [OF assms(1)] by simp
    show "\<not> marker_at t j" if "j < s + i" for j
      using any_start(1) [OF Some] marker_drop [OF assms(1), of "j - s"] assms(2) [of j] that by (cases "j < s") auto
  qed
  then show ?thesis using Some by simp
qed

text \<open>Whatever follows the text, no marker starts before \<open>s\<close>.\<close>

definition scanned :: "string \<Rightarrow> nat \<Rightarrow> bool" where
  "scanned t s \<longleftrightarrow> s \<le> length t \<and> (\<forall>t' q. prefix t t' \<longrightarrow> q < s \<longrightarrow> \<not> marker_at t' q)"

lemma marker_shrink:
  assumes "prefix t t'" "marker_at t' q" "\<And>m. m \<in> set tool_starts \<Longrightarrow> prefix m (drop q t') \<Longrightarrow> q + length m \<le> length t"
  shows "marker_at t q"
  using assms prefix_shrink [OF assms(1)] by (fastforce simp: marker_at_def)

lemma complete_scan:
  assumes "scanned t s"
  shows "complete_tool_call_inside_thinking t s = (case find_any_tool_start t of None \<Rightarrow> (False, length t - 80)
      | Some i \<Rightarrow> (find_any_tool_end (drop i t) \<noteq> None, i))"
    "scanned t (snd (complete_tool_call_inside_thinking t s))"
proof -
  have s: "s \<le> length t" "\<And>q. q < s \<Longrightarrow> \<not> marker_at t q" using assms by (auto simp: scanned_def)
  note d = any_start_drop [OF s]
  show c: "complete_tool_call_inside_thinking t s = (case find_any_tool_start t of None \<Rightarrow> (False, length t - 80)
      | Some i \<Rightarrow> (find_any_tool_end (drop i t) \<noteq> None, i))"
    using s(1) by (cases "find_any_tool_start (drop s t)") (simp_all add: complete_tool_call_inside_thinking_def flip: d)
  show "scanned t (snd (complete_tool_call_inside_thinking t s))"
  proof (cases "find_any_tool_start t")
    case None
    have "\<not> marker_at t' q" if "prefix t t'" "q < length t - 80" for t' q
      using marker_shrink [OF that(1), of q] any_start(2) [OF None] that(2) marker_lits by (fastforce simp: list_all_iff)
    then show ?thesis by (simp add: c None scanned_def)
  next
    case (Some i)
    then obtain m where m: "i \<le> length t" "m \<in> set tool_starts" "prefix m (drop i t)" "\<And>j. j < i \<Longrightarrow> \<not> marker_at t j"
      using any_start(1) [OF Some] by (auto simp: marker_at_def)
    have "\<not> marker_at t' q" if "prefix t t'" "q < i" for t' q
    proof
      assume "marker_at t' q"
      moreover have "q + length m' \<le> length t" if "m' \<in> set tool_starts" "prefix m' (drop q t')" for m'
        using tag_only_start [of m' q t' m i] that m prefix_grow [OF \<open>prefix t t'\<close> m(1,3)] \<open>q < i\<close> marker_lits by (fastforce simp: list_all_iff)
      ultimately show False using marker_shrink [OF that(1)] m(4) that(2) by blast
    qed
    then show ?thesis using m(1) by (simp add: c Some scanned_def)
  qed
qed

lemma scanned_grow: "scanned t s \<Longrightarrow> prefix t t' \<Longrightarrow> scanned t' s"
  unfolding scanned_def by (meson le_trans prefix_length_le prefix_order.trans)

lemma any_start_grow:
  assumes "find_any_tool_start t = Some i" "prefix t t'"
  shows "find_any_tool_start t' = Some i"
proof (rule any_start_eq)
  have "scanned t (snd (complete_tool_call_inside_thinking t 0))" by (rule complete_scan(2)) (simp add: scanned_def)
  then have "scanned t i" using assms(1) by (simp add: complete_tool_call_inside_thinking_def)
  then show "\<not> marker_at t' j" if "j < i" for j using assms(2) that by (simp add: scanned_def)
  show "marker_at t' i" using any_start(1) [OF assms(1)] prefix_grow [OF assms(2)] prefix_length_le [OF assms(2)]
    by (auto simp: marker_at_def)
qed

lemma any_end_grow: "find_any_tool_end t \<noteq> None \<Longrightarrow> prefix t t' \<Longrightarrow> find_any_tool_end t' \<noteq> None"
proof -
  assume a: "find_any_tool_end t \<noteq> None" "prefix t t'"
  let ?ends = "[DS4_TOOL_CALLS_END, DS4_TOOL_CALLS_END_SHORT, ''</tool_calls>'', ''</tool_call>'']"
  have none: "find_any_tool_end x = None \<longleftrightarrow> (\<forall>m \<in> set ?ends. strstr x m = None)" for x
    using nearest_fold [where b = None and cs = "map (strstr x) ?ends", folded nearest_def, folded find_any_tool_end_def]
    by (cases "find_any_tool_end x") auto
  obtain m j where m: "m \<in> set ?ends" "j \<le> length t" "prefix m (drop j t)" using a(1) unfolding none strstr_None by blast
  have "j \<le> length t'" "prefix m (drop j t')" using le_trans [OF m(2) prefix_length_le [OF a(2)]] prefix_grow [OF a(2) m(2,3)] by simp_all
  then show ?thesis using m(1) unfolding none strstr_None by blast
qed

text \<open>A call that was found complete in the text so far.\<close>

definition scan_state :: "string \<Rightarrow> bool \<times> nat \<Rightarrow> bool" where
  "scan_state t st \<longleftrightarrow> scanned t (snd st) \<and> (fst st \<longrightarrow> find_any_tool_start t = Some (snd st) \<and> find_any_tool_end (drop (snd st) t) \<noteq> None)"

lemma scan_state_grow: "scan_state t st \<Longrightarrow> prefix t t' \<Longrightarrow> scan_state t' st"
proof -
  assume a: "scan_state t st" "prefix t t'"
  have "prefix (drop i t) (drop i t')" for i using a(2) by (auto simp: prefix_def)
  then show ?thesis using a scanned_grow any_start_grow any_end_grow unfolding scan_state_def by blast
qed

lemma recovery_scan_state: "scan_state t st \<Longrightarrow> recovery_scan st t = complete_tool_call_inside_thinking t (snd st)"
  using complete_scan(1) [of t "snd st"] by (cases st) (auto simp: recovery_scan_def scan_state_def)

lemma scan_state_step: "scan_state t st \<Longrightarrow> scan_state t (recovery_scan st t)"
  using complete_scan [of t "snd st"] by (auto simp: recovery_scan_state scan_state_def split: option.splits)

lemma recovery_scan_whole: "scan_state t st \<Longrightarrow> recovery_scan st t = (case find_any_tool_start t of None \<Rightarrow> (False, length t - 80)
      | Some i \<Rightarrow> (find_any_tool_end (drop i t) \<noteq> None, i))"
  unfolding recovery_scan_state by (rule complete_scan(1)) (simp add: scan_state_def)

interpretation recovery: growing_text recovery_scan scan_state "\<lambda>_. True"
proof unfold_locales
  fix t t' :: string and st :: "bool \<times> nat"
  assume a: "scan_state t st" "prefix t t'"
  show "recovery_scan (recovery_scan st t) t' = recovery_scan st t'"
    by (simp only: recovery_scan_whole scan_state_grow [OF scan_state_step [OF a(1)] a(2)] scan_state_grow [OF a])
qed (blast intro: scan_state_grow scan_state_step)+

text \<open>
  A tool call inside unclosed reasoning is recovered when it is complete: scanning after every piece, each
  time from the position the last scan left, succeeds exactly when the whole text has an opening marker with an
  end marker behind it.
\<close>

theorem reasoning_call_recovered:
  "fst (feed_pieces recovery_scan (False, 0) [] pieces) \<longleftrightarrow>
     (\<exists>i. find_any_tool_start (concat pieces) = Some i \<and> find_any_tool_end (drop i (concat pieces)) \<noteq> None)"
proof (cases "pieces = []")
  case True
  have "find_any_tool_start [] = None" by code_simp
  then show ?thesis using True by simp
next
  case False
  have s: "scanned t 0" for t by (simp add: scanned_def)
  then have "feed_pieces recovery_scan (False, 0) [] pieces = complete_tool_call_inside_thinking (concat pieces) 0"
    using recovery.feed_whole [of "[]" "(False, 0)" pieces] False by (simp add: scan_state_def recovery_scan_def)
  then show ?thesis by (simp add: complete_scan(1) [OF s] split: option.splits)
qed

end
