(* ===== verification/Spec2Isabelle.thy ===== *)
theory Spec2Isabelle
  imports LayerPack Storage GpuArgs Buffers Sha1 KvFormat KvPolicy KvStore KvSession Streaming Prompt Continuation SchedulerProofs Executor ApiProofs DecodeReference ContentProofs
begin

text \<open>
  Verification of the host code of the GLM engine of Spark.C.  File names are relative to
  \<^verbatim>\<open>src/models/glm-5.3-flash-q2/engine/\<close>.

  \<^bold>\<open>The program.\<close>  Spark.C serves a language model from one machine.  An HTTP client sends a request; \<^verbatim>\<open>server.c\<close>
  parses it into messages and options, renders the messages into a prompt, and queues a job.  A
  dispatcher gives the job to a slot, whose worker looks for a saved session (\<^verbatim>\<open>kv_store.c\<close>), evaluates
  the prompt, samples tokens, streams them, and parses tool calls out of the text.  Tool calls come back
  as results in a later request, which should continue from the same session; for this the server
  remembers the sampled text of each call and the ids that are live in each slot.  \<^verbatim>\<open>storage.c\<close>, \<^verbatim>\<open>gpu_args.c\<close>
  and \<^verbatim>\<open>layer_pack.c\<close> decide at start-up how weights and caches are placed.

  \<^bold>\<open>Conventions.\<close>  A C string is a \<^typ>\<open>string\<close> and a pointer into it is a suffix (\<open>peek\<close> reads its first
  character, NUL at the end); a pointer that may be NULL is an option; bytes are \<^typ>\<open>8 word\<close> lists; \<^verbatim>\<open>uint64_t\<close>,
  \<^verbatim>\<open>size_t\<close> and smaller unsigned types are words of their width, \<^verbatim>\<open>int\<close> is \<^typ>\<open>int\<close>, with its range written
  out where it matters; an array with length and capacity is a list; errors are values.  Memory
  allocation succeeds, as \<^verbatim>\<open>xmalloc\<close> ends the process otherwise.  Log lines are left out.

  \<^bold>\<open>Theories.\<close>
  \<^item> \<open>Prelude\<close>, \<open>CLib\<close>: generic lemmas on lists, words and C strings; the library functions the code calls.
  \<^item> \<open>LayerPack\<close> (\<^verbatim>\<open>layer_pack.c\<close>): the greedy placement of layers on GPUs is feasible, and no feasible
    placement puts an entry on an earlier tier.
  \<^item> \<open>Storage\<close> (\<^verbatim>\<open>storage.c\<close>), \<open>GpuArgs\<close> (\<^verbatim>\<open>gpu_args.c\<close>): option parsers, the cache planner and the memory lock;
    accepted values are in range and computed without wrap-around.
  \<^item> \<open>Buffers\<close>: the growable buffers of \<^verbatim>\<open>server.c\<close> and \<^verbatim>\<open>kv_store.c\<close> refine concatenation; the second can
    loop for ever on a request above 2^63 bytes.
  \<^item> \<open>Sha1\<close>, \<open>KvFormat\<close>, \<open>KvPolicy\<close>, \<open>Double\<close>, \<open>KvStore\<close>, \<open>KvSession\<close> (\<^verbatim>\<open>kv_store.c\<close>): the digest equals FIPS 180 for
    every split; headers are read back as written; size checks are exact; eviction meets the budget and
    removes the worst entries; a stored checkpoint is complete and found again, a failed store or load
    harms nothing, and a hit extends the prompt's prefix.  The file system is a record of files with an
    oracle for each call that can fail, the engine's sessions are the interface \<open>session_api\<close>.
  \<^item> \<open>Json\<close>, \<open>JsonLoops\<close>: the JSON scanner and the member and item loops all request parsers consist of.
    \<open>value_scanner\<close> and \<open>field_scanner\<close> are the contracts of a handler (it consumes what it accepts); each
    parser is an interpretation, so the loops are total and the guard in their recursion never decides.
  \<^item> \<open>Requests\<close>, \<open>Streaming\<close>: request data, stop lists and the boundaries of a stream: no byte of a stop
    sequence is sent, no character is split.
  \<^item> \<open>ToolSchemas\<close>, \<open>Escaping\<close>, \<open>Messages\<close>, \<open>ToolArgs\<close>, \<open>Prompt\<close>: tool schemas, the escaping of template elements, the
    message parsers, the arguments of calls in schema order, and the renderers of both templates; text
    cannot leave its element, and appending the live tail equals rendering the whole conversation.
  \<^item> \<open>Continuation\<close>: which tool results a request may carry, and the suffix it appends to a live session.
  \<^item> \<open>ResponsesInput\<close>, \<open>ApiRequests\<close>, \<open>ApiProofs\<close>: the history of a Responses request, the request record and the
    four API parsers.  A history is kept whole, an accepted request is well formed, and the suffix of
    a live continuation completes the prompt of a full replay.
  \<^item> \<open>Scheduler\<close>, \<open>SchedulerProofs\<close>, \<open>Executor\<close>: queue, dispatcher, slot workers, prefill turns and decode batches as
    steps of a machine; invariants hold under every interleaving, accepted jobs complete, turns are fair.
    A condition variable is the enabledness of the step that waits for it.
  \<^item> \<open>ToolMemory\<close>, \<open>ToolMemoryProofs\<close>: the memory of sampled tool texts as a heap of linked entries and shared
    blocks, which refines a bounded map with least-recently-used eviction and leaks nothing.
  \<^item> \<open>ToolMarkers\<close>, \<open>ToolMap\<close>, \<open>ToolReplay\<close>: finding tool blocks in text, saving their texts in checkpoints and
    restoring them, the ids of calls, and attaching the sampled text to later requests byte for byte.
  \<^item> \<open>Generated\<close>, \<open>GeneratedProofs\<close>: the parser of generated text in both templates with repair and recovery;
    rendered calls are read back, nothing written while thinking is executed, repaired blocks are balanced.
  \<^item> \<open>DecodeTracker\<close>, \<open>DecodeProofs\<close>, \<open>DecodeReference\<close>, \<open>ThinkingProofs\<close>: the state that follows generated text while it is
    sampled.  \<open>growing_text\<close> is the contract of a consumer that is given the text so far again and again and
    resumes where it stopped; the tracker of tool syntax, the scan for calls inside reasoning and the stream below
    are interpretations, so none of them depends on the tokens the text arrives in.  The tracker agrees with the
    slow recognizer of the server's tests; the exceptions, a lone bracket at the end of a token and an end tag
    quoted in JSON, are proved to be such.
  \<^item> \<open>OpenAiStream\<close>, \<open>ToolStreamProofs\<close>, \<open>ContentProofs\<close>: deltas for an OpenAI client.  Calls and content do not depend
    on the pieces, the content ends exactly at the first tool call, and an event is one line.

  \<^bold>\<open>Loops.\<close>  Scanning loops recurse on the rest of the text.  Loops that need not end are partial functions
  (drawing ids, growing a buffer), and termination is a theorem with its condition.  No fuel is used.

  \<^bold>\<open>Parameters.\<close>  The tokenizer, the session operations of the engine, the CUDA probe, \<^verbatim>\<open>exp2\<close>, the random source
  and the operating system are arguments.  The vendored radix tree (\<^verbatim>\<open>radix_tree.c\<close>) is a finite map.

  \<^bold>\<open>Not modelled.\<close>  The GPU graph and kernels (\<^verbatim>\<open>engine.c\<close>, \<^verbatim>\<open>cuda/\<close>): numeric code on the device, seen through
  the session interface; \<^verbatim>\<open>tensor_parallel.c\<close> and \<^verbatim>\<open>distributed.c\<close>: socket and RDMA transport around GPU tensors;
  \<^verbatim>\<open>cli.c\<close> and \<^verbatim>\<open>benchmark.c\<close>: terminal and timing code; of \<^verbatim>\<open>server.c\<close> the socket calls, the writers of complete
  responses and the streams of the Anthropic and Responses protocols, traces, option parsing and the body of the generation loop.
\<close>

end
